(* ===== verification/Prelude.thy ===== *)
theory Prelude
  imports Main "HOL-Library.Word"
begin

unbundle bit_operations_syntax

text \<open>
  Shared vocabulary of the development: the fixed-width integers of the C sources as words,
  byte-addressed memory with the little-endian accesses the CPU performs, and the generic facts
  on words and loops that the component theories use.

  Unsigned C arithmetic is word arithmetic (it wraps), and facts about it are carried over to
  \<open>nat\<close> with \<open>unat\<close>.  The collection \<open>unat_arith_simps\<close> holds the equations that do so under
  a no-overflow side condition.
\<close>

named_theorems unat_arith_simps \<open>unat of word operations under no-overflow conditions\<close>

type_synonym u8 = "8 word"
type_synonym u16 = "16 word"
type_synonym u32 = "32 word"
type_synonym u64 = "64 word"

text \<open>A region of bytes, indexed by 32-bit addresses (or by 32-bit offsets into the region).\<close>

type_synonym bytes = "u32 \<Rightarrow> u8"

abbreviation PAGE_SIZE :: u32 where
  "PAGE_SIZE \<equiv> 4096"

section \<open>Little-endian accesses\<close>

definition read16 :: "bytes \<Rightarrow> u32 \<Rightarrow> u16" where
  "read16 m a = ucast (m a) OR push_bit 8 (ucast (m (a + 1)))"

definition read32 :: "bytes \<Rightarrow> u32 \<Rightarrow> u32" where
  "read32 m a = ucast (m a) OR push_bit 8 (ucast (m (a + 1)))
     OR push_bit 16 (ucast (m (a + 2))) OR push_bit 24 (ucast (m (a + 3)))"

definition read64 :: "bytes \<Rightarrow> u32 \<Rightarrow> u64" where
  "read64 m a = ucast (read32 m a) OR push_bit 32 (ucast (read32 m (a + 4)))"

definition write32 :: "bytes \<Rightarrow> u32 \<Rightarrow> u32 \<Rightarrow> bytes" where
  "write32 m a v = m(a := ucast v, a + 1 := ucast (drop_bit 8 v),
     a + 2 := ucast (drop_bit 16 v), a + 3 := ucast (drop_bit 24 v))"

section \<open>Word arithmetic\<close>

lemma unat_lt2p: "unat (x :: 'a::len word) < 2 ^ LENGTH('a)"
  by (rule unsigned_less)

lemma unat_plus_no_overflow [unat_arith_simps]:
  fixes x y :: "'a::len word"
  assumes "unat x + unat y < 2 ^ LENGTH('a)"
  shows "unat (x + y) = unat x + unat y"
  using assms by (simp add: unat_word_ariths)

lemma unat_Suc_less [unat_arith_simps]:
  fixes x y :: "'a::len word"
  assumes "x < y"
  shows "unat (x + 1) = Suc (unat x)"
proof -
  have "unat x < unat y" using assms by (simp add: word_less_nat_alt)
  then have "unat x + 1 < 2 ^ LENGTH('a)" using unat_lt2p [of y] by linarith
  then show ?thesis by (simp add: unat_word_ariths)
qed

lemma unat_minus_le [unat_arith_simps]:
  fixes x y :: "'a::len word"
  assumes "y \<le> x"
  shows "unat (x - y) = unat x - unat y"
  using assms by (simp add: unat_sub)

lemma unat_mult_no_overflow [unat_arith_simps]:
  fixes x y :: "'a::len word"
  assumes "unat x * unat y < 2 ^ LENGTH('a)"
  shows "unat (x * y) = unat x * unat y"
  using assms by (simp add: unat_word_ariths)

lemma unat_of_nat_small [unat_arith_simps]:
  assumes "n < 2 ^ LENGTH('a::len)"
  shows "unat (word_of_nat n :: 'a word) = n"
  using assms by (simp add: take_bit_nat_eq_self unsigned_of_nat)

lemma word_of_nat_unat [simp]: "word_of_nat (unat x) = (x :: 'a::len word)"
  by simp

lemma unat_numeral_32 [simp]: "unat (32 :: u32) = 32"
  by simp

lemma unat32_lt: "unat (x :: u32) < 4294967296"
  using unat_lt2p [of x] by simp

lemma unat32_of_nat: "n < 4294967296 \<Longrightarrow> unat (word_of_nat n :: u32) = n"
  by (rule unat_of_nat_small) simp

lemma unat32_plus: "unat x + unat y < 4294967296 \<Longrightarrow> unat (x + y :: u32) = unat x + unat y"
  by (rule unat_plus_no_overflow) simp

lemma unat32_mult: "unat x * unat y < 4294967296 \<Longrightarrow> unat (x * y :: u32) = unat x * unat y"
  by (rule unat_mult_no_overflow) simp

lemma less_ceil_div: "0 < d \<Longrightarrow> (n :: nat) < (x + (d - 1)) div d \<longleftrightarrow> n * d < x"
  using less_eq_div_iff_mult_less_eq [of d "Suc n" "x + (d - 1)"]
  by (simp add: Suc_le_eq add.commute) linarith

lemma byte_of_bit: "4 * (n div 32) + n mod 32 div 8 = (n :: nat) div 8"
proof -
  have "n mod 32 = 8 * (n div 8 mod 4) + n mod 8" using mod_mult2_eq [of n 8 4] by simp
  then have "n mod 32 div 8 = n div 8 mod 4" by simp
  moreover have "n div 32 = n div 8 div 4" using div_mult2_eq [of n 8 4] by simp
  ultimately show ?thesis by simp
qed

lemma unat_dec:
  fixes x :: "'a::len word"
  assumes "x \<noteq> 0"
  shows "unat (x - 1) = unat x - 1" "0 < unat x"
proof -
  show "0 < unat x" using assms by (simp add: unat_gt_0)
  then have "1 \<le> x" by (simp add: word_le_nat_alt Suc_le_eq)
  then show "unat (x - 1) = unat x - 1" by (simp add: unat_sub)
qed

text \<open>
  Counting loops of the form \<open>for (i = 0; i < n; i++)\<close> over unsigned words never wrap: the
  distance to the bound is the measure of every such loop.
\<close>

lemma word_loop_measure:
  fixes i n :: "'a::len word"
  assumes "i < n"
  shows "unat n - unat (i + 1) < unat n - unat i"
  using assms unat_Suc_less [OF assms] by (simp add: word_less_nat_alt)

lemma unat_add_step:
  fixes n :: u32
  assumes "i < unat n"
  shows "unat (word_of_nat i :: u32) = i" "word_of_nat i < n"
proof -
  have "i < 2 ^ 32" using assms unat_lt2p [of n] by simp
  then show "unat (word_of_nat i :: u32) = i" by (simp add: unat_arith_simps)
  then show "word_of_nat i < n" using assms by (simp add: word_less_nat_alt)
qed

section \<open>Bits of little-endian words\<close>

lemma bit_read32:
  assumes "k < 32"
  shows "bit (read32 m a) k = bit (m (a + word_of_nat (k div 8))) (k mod 8)"
proof -
  consider "k div 8 = 0" | "k div 8 = 1" | "k div 8 = 2" | "k div 8 = 3"
    using assms by linarith
  then show ?thesis
  proof cases
    case 1
    then have "k < 8" by simp
    then show ?thesis using 1
      by (auto simp: read32_def bit_or_iff bit_push_bit_iff bit_ucast_iff)
  next
    case 2
    then have "8 \<le> k" "k < 16" "k mod 8 = k - 8" by presburger+
    then show ?thesis using 2
      by (auto simp: read32_def bit_or_iff bit_push_bit_iff bit_ucast_iff dest: bit_imp_le_length)
  next
    case 3
    then have "16 \<le> k" "k < 24" "k mod 8 = k - 16" by presburger+
    then show ?thesis using 3
      by (auto simp: read32_def bit_or_iff bit_push_bit_iff bit_ucast_iff dest: bit_imp_le_length)
  next
    case 4
    then have "24 \<le> k" "k < 32" "k mod 8 = k - 24" using assms by presburger+
    then show ?thesis using 4
      by (auto simp: read32_def bit_or_iff bit_push_bit_iff bit_ucast_iff dest: bit_imp_le_length)
  qed
qed

lemma write32_apply:
  assumes "j < 4"
  shows "write32 m a v (a + word_of_nat j) = ucast (drop_bit (8 * j) v)"
proof -
  consider "j = 0" | "j = 1" | "j = 2" | "j = 3"
    using assms by linarith
  then show ?thesis by cases (simp_all add: write32_def)
qed

lemma read32_write32 [simp]: "read32 (write32 m a v) a = v"
proof (rule bit_word_eqI)
  fix k
  assume "k < LENGTH(32)"
  then have k: "k < 32" by simp
  then have "bit (read32 (write32 m a v) a) k = bit v (8 * (k div 8) + k mod 8)"
    by (simp only: bit_read32 write32_apply bit_ucast_iff bit_drop_bit_eq) auto
  then show "bit (read32 (write32 m a v) a) k = bit v k" by simp
qed

lemma ucast_drop_read32:
  assumes "j < 4"
  shows "ucast (drop_bit (8 * j) (read32 m a)) = m (a + word_of_nat j)"
proof (rule bit_word_eqI)
  fix i
  assume "i < LENGTH(8)"
  then have i: "i < 8" by simp
  then have "8 * j + i < 32" "(8 * j + i) div 8 = j" "(8 * j + i) mod 8 = i" using assms by auto
  then show "bit (ucast (drop_bit (8 * j) (read32 m a)) :: u8) i = bit (m (a + word_of_nat j)) i"
    using i by (simp add: bit_ucast_iff bit_drop_bit_eq bit_read32)
qed

lemma write32_read32 [simp]: "write32 m a (read32 m a) = m"
  using ucast_drop_read32 [of 0 m a] ucast_drop_read32 [of 1 m a] ucast_drop_read32 [of 2 m a]
    ucast_drop_read32 [of 3 m a]
  by (simp add: write32_def)

lemma write32_write32 [simp]: "write32 (write32 m a v) a w = write32 m a w"
  by (simp add: write32_def fun_eq_iff)

lemma bit_single [simp]: "bit (2 ^ n :: 'a::len word) m \<longleftrightarrow> m = n \<and> n < LENGTH('a)"
  by (auto simp: bit_exp_iff)

text \<open>Rounding down to a page: \<open>addr & ~(PAGE_SIZE - 1)\<close>.\<close>

lemma and_not_mask_shift: "x AND NOT (mask k) = push_bit k (drop_bit k (x :: 'a::len word))"
  by (rule bit_word_eqI) (auto simp: bit_and_iff bit_not_iff bit_mask_iff bit_push_bit_iff bit_drop_bit_eq)

lemma page_floor_eq: "x AND NOT 4095 = push_bit 12 (drop_bit 12 (x :: u32))"
  using and_not_mask_shift [of x 12] by (simp add: mask_eq_exp_minus_1)

lemma unat_page_floor: "unat (x AND NOT 4095 :: u32) = unat x div 4096 * 4096"
proof -
  have "unat (drop_bit 12 x) = unat x div 4096" by (simp only: drop_bit_eq_div unat_div) simp
  moreover have "unat x div 4096 * 4096 \<le> unat x" by (rule div_times_less_eq_dividend)
  ultimately have "unat (drop_bit 12 x * 2 ^ 12) = unat x div 4096 * 4096"
    using unat32_lt [of x] by (subst unat32_mult) simp_all
  then show ?thesis by (simp only: page_floor_eq push_bit_eq_mult)
qed

end
