(* ===== verification/Kstring.thy ===== *)
theory Kstring
  imports Prelude
begin

text \<open>
  The memory and string routines of \<^verbatim>\<open>lib/string.c\<close>.  \<open>kmemset\<close> and \<open>kmemcpy\<close> work on byte
  memory, one byte per iteration, exactly as the C loops do (the \<open>size_t\<close> counter is 32 bits
  wide and the pointers wrap).  \<open>kstrcmp\<close> and \<open>kstartswith\<close> read NUL-terminated strings; a string is
  the list of its bytes before the terminator, and \<open>chr_at\<close> reads the terminator at its end.

  The lemmas give each routine its closed form: the exact set of bytes \<open>kmemset\<close> and \<open>kmemcpy\<close>
  change and to what, when a forward copy between overlapping regions is still a copy, that
  \<open>kstrcmp\<close> is the three-way lexicographic comparison on unsigned bytes, and that
  \<open>kstartswith\<close> is the prefix test.
\<close>

section \<open>Memory routines\<close>

function kmemset :: "bytes \<Rightarrow> u32 \<Rightarrow> u32 \<Rightarrow> u32 \<Rightarrow> bytes" where
  "kmemset m d v count =
     (if count = 0 then m else kmemset (m(d := ucast v)) (d + 1) v (count - 1))"
  by pat_completeness auto
termination
  by (relation "measure (\<lambda>(m, d, v, count). unat count)") (auto simp: unat_dec)

function kmemcpy :: "bytes \<Rightarrow> u32 \<Rightarrow> u32 \<Rightarrow> u32 \<Rightarrow> bytes" where
  "kmemcpy m d s count =
     (if count = 0 then m else kmemcpy (m(d := m s)) (d + 1) (s + 1) (count - 1))"
  by pat_completeness auto
termination
  by (relation "measure (\<lambda>(m, d, s, count). unat count)") (auto simp: unat_dec)

declare kmemset.simps [simp del] kmemcpy.simps [simp del]

section \<open>String routines\<close>

type_synonym cstring = "u8 list"

fun chr_at :: "cstring \<Rightarrow> u8" where
  "chr_at [] = 0"
| "chr_at (c # cs) = c"

text \<open>A byte list is a C string when it holds no terminator of its own.\<close>

definition cstring_ok :: "cstring \<Rightarrow> bool" where
  "cstring_ok s \<longleftrightarrow> 0 \<notin> set s"

function kstrcmp :: "cstring \<Rightarrow> cstring \<Rightarrow> int" where
  "kstrcmp a b =
     (if chr_at a \<noteq> 0 \<and> chr_at a = chr_at b then kstrcmp (tl a) (tl b)
      else uint (chr_at a) - uint (chr_at b))"
  by pat_completeness auto
termination
proof (relation "measure (\<lambda>(a, b). length a)")
  fix a b :: cstring
  assume "chr_at a \<noteq> 0 \<and> chr_at a = chr_at b"
  then have "a \<noteq> []" by (cases a) auto
  then show "((tl a, tl b), a, b) \<in> measure (\<lambda>(a, b). length a)" by simp
qed simp

function kstartswith :: "cstring \<Rightarrow> cstring \<Rightarrow> bool" where
  "kstartswith str prefix =
     (if chr_at prefix \<noteq> 0
      then (if chr_at str \<noteq> chr_at prefix then False else kstartswith (tl str) (tl prefix))
      else True)"
  by pat_completeness auto
termination
proof (relation "measure (\<lambda>(str, prefix). length prefix)")
  fix str prefix :: cstring
  assume "chr_at prefix \<noteq> 0"
  then have "prefix \<noteq> []" by (cases prefix) auto
  then show "((tl str, tl prefix), str, prefix) \<in> measure (\<lambda>(str, prefix). length prefix)" by simp
qed simp

declare kstrcmp.simps [simp del] kstartswith.simps [simp del]

section \<open>What the memory routines change\<close>

lemma word_offset_dec:
  fixes x d n :: "'a::len word"
  assumes "n \<noteq> 0" "x \<noteq> d"
  shows "x - (d + 1) < n - 1 \<longleftrightarrow> x - d < n"
proof -
  have eq: "x - (d + 1) = (x - d) - 1" by simp
  have "x - d \<noteq> 0" using assms(2) by simp
  then have "unat (x - (d + 1)) = unat (x - d) - 1" "0 < unat (x - d)"
    unfolding eq by (rule unat_dec)+
  moreover have "unat (n - 1) = unat n - 1" "0 < unat n" using assms(1) by (rule unat_dec)+
  ultimately show ?thesis by (simp add: word_less_nat_alt) linarith
qed

lemma kmemset_apply: "kmemset m d v count x = (if x - d < count then ucast v else m x)"
proof (induction m d v count rule: kmemset.induct)
  case (1 m d v count)
  show ?case
  proof (cases "count = 0")
    case True
    then show ?thesis by (simp add: kmemset.simps)
  next
    case False
    then have IH: "kmemset m d v count x =
        (if x - (d + 1) < count - 1 then ucast v else (m(d := ucast v)) x)"
      using "1.IH" [OF False] by (subst kmemset.simps) (simp only: False if_False)
    show ?thesis
    proof (cases "x = d")
      case True
      then show ?thesis using IH False by (simp add: word_neq_0_conv)
    next
      case ne: False
      then show ?thesis using IH word_offset_dec [OF False ne] by simp
    qed
  qed
qed

text \<open>
  A forward copy is a copy unless the destination starts strictly inside the source block: that
  is the case the comment in the source warns about.
\<close>

lemma kmemcpy_apply:
  assumes "d = s \<or> count \<le> d - s"
  shows "kmemcpy m d s count x = (if x - d < count then m (s + (x - d)) else m x)"
  using assms
proof (induction m d s count rule: kmemcpy.induct)
  case (1 m d s count)
  show ?case
  proof (cases "count = 0")
    case True
    then show ?thesis by (simp add: kmemcpy.simps)
  next
    case False
    have dec: "count - 1 \<le> count" and le: "unat (count - 1) = unat count - 1"
      using unat_dec [OF False] by (auto simp: word_le_nat_alt)
    have prem: "d + 1 = s + 1 \<or> count - 1 \<le> (d + 1) - (s + 1)"
      using "1.prems" dec by auto
    have IH: "kmemcpy m d s count x = (if x - (d + 1) < count - 1
        then (m(d := m s)) ((s + 1) + (x - (d + 1))) else (m(d := m s)) x)"
      using "1.IH" [OF False prem] by (subst kmemcpy.simps) (simp only: False if_False)
    show ?thesis
    proof (cases "x = d")
      case True
      then show ?thesis using IH False by (auto simp: word_neq_0_conv)
    next
      case ne: False
      have src: "(s + 1) + (x - (d + 1)) = s + (x - d)" by simp
      have "s + (x - d) \<noteq> d \<or> d = s" if "x - d < count"
      proof (rule disjCI)
        assume "d \<noteq> s"
        then have "count \<le> d - s" using "1.prems" by simp
        then have "x - d < d - s" using that by simp
        then show "s + (x - d) \<noteq> d" by (metis add_diff_cancel_left' less_irrefl)
      qed
      then show ?thesis using IH word_offset_dec [OF False ne] ne src by auto
    qed
  qed
qed

section \<open>What the string routines decide\<close>

lemma kstrcmp_Nil: "kstrcmp [] b = - uint (chr_at b)"
  by (simp add: kstrcmp.simps)

lemma kstrcmp_Cons:
  "c \<noteq> 0 \<Longrightarrow> kstrcmp (c # a) b = (if b \<noteq> [] \<and> hd b = c then kstrcmp a (tl b) else uint c - uint (chr_at b))"
  by (cases b) (auto simp: kstrcmp.simps [of "c # a"])

lemma kstrcmp_eq_0:
  assumes "cstring_ok a" "cstring_ok b"
  shows "kstrcmp a b = 0 \<longleftrightarrow> a = b"
  using assms
proof (induction a arbitrary: b)
  case Nil
  then show ?case
    by (cases b) (auto simp: kstrcmp_Nil cstring_ok_def unsigned_eq_0_iff)
next
  case (Cons c a)
  then have c: "c \<noteq> 0" "cstring_ok a" by (auto simp: cstring_ok_def)
  show ?case
  proof (cases b)
    case Nil
    then show ?thesis using c by (simp add: kstrcmp_Cons unsigned_eq_0_iff)
  next
    case (Cons c' b')
    then have "cstring_ok b'" using Cons.prems by (auto simp: cstring_ok_def)
    then show ?thesis using c Cons Cons.IH [of b'] by (auto simp: kstrcmp_Cons word_uint_eq_iff)
  qed
qed

lemma kstartswith_prefix:
  assumes "cstring_ok s" "cstring_ok p"
  shows "kstartswith s p \<longleftrightarrow> take (length p) s = p"
  using assms
proof (induction p arbitrary: s)
  case Nil
  then show ?case by (simp add: kstartswith.simps)
next
  case (Cons c p)
  then have c: "c \<noteq> 0" "cstring_ok p" by (auto simp: cstring_ok_def)
  show ?case
  proof (cases s)
    case Nil
    then show ?thesis using c by (simp add: kstartswith.simps [of "[]"])
  next
    case (Cons c' s')
    then have "cstring_ok s'" using Cons.prems by (auto simp: cstring_ok_def)
    then show ?thesis using c Cons Cons.IH [of s'] by (auto simp: kstartswith.simps [of "_ # _"])
  qed
qed

text \<open>Only the bytes before the first NUL matter.\<close>

lemma kstrcmp_takeWhile:
  "kstrcmp (takeWhile (\<lambda>c. c \<noteq> 0) a) (takeWhile (\<lambda>c. c \<noteq> 0) b) = kstrcmp a b"
proof (induction a arbitrary: b)
  case Nil
  then show ?case by (cases b) (auto simp: kstrcmp_Nil)
next
  case (Cons c a)
  show ?case
  proof (cases "c = 0")
    case True
    then show ?thesis by (cases b) (auto simp: kstrcmp_Nil kstrcmp.simps [of "0 # a"])
  next
    case False
    then show ?thesis using Cons.IH [of "tl b"] by (cases b) (auto simp: kstrcmp_Cons)
  qed
qed

lemma kstrcmp_names:
  "kstrcmp a b = 0 \<longleftrightarrow> takeWhile (\<lambda>c. c \<noteq> 0) a = takeWhile (\<lambda>c. c \<noteq> 0) b"
proof -
  have ok: "cstring_ok (takeWhile (\<lambda>c. c \<noteq> 0) x)" for x :: cstring
    by (auto simp: cstring_ok_def dest: set_takeWhileD)
  show ?thesis using kstrcmp_eq_0 [OF ok ok, of a b] by (simp only: kstrcmp_takeWhile)
qed

end
