(* ===== verification/Pmm.thy ===== *)
theory Pmm
  imports Kstring
begin

text \<open>
  The physical memory manager of \<^verbatim>\<open>mm/pmm.c\<close>, with the structures of
  \<^verbatim>\<open>include/multiboot.h\<close> it reads.

  The state is the file's statics: the bitmap, seen as the bytes of the memory it occupies
  (offset 0 is the address \<open>bitmap\<close> points to), and the two counters.  The word accesses of
  \<open>frame_set\<close>, \<open>frame_clear\<close> and \<open>frame_test\<close> are little-endian 32-bit accesses to those bytes,
  and \<open>pmm_init\<close> clears them with the byte routine \<open>kmemset\<close>, as in the source.  The memory map is
  read byte by byte from memory at \<open>mmap_addr\<close>; the model keeps that buffer and the bitmap apart.
  A loop over the memory map follows \<open>size\<close> fields supplied by the boot loader and may not end, so
  it is an \<open>option\<close>-valued partial function; halting for want of a memory map is \<open>None\<close> too.

  The abstract view is the set \<open>used_set\<close> of frames in use.  Each operation is shown to act on
  that set, \<open>used_frames\<close> is shown to be its cardinality, and the interface that the other
  components rely on (\<open>frame_source\<close>) is interpreted on these definitions.
\<close>

section \<open>State and bit operations\<close>

record pmm =
  bitmap :: bytes
  total_frames :: u32
  used_frames :: u32

definition frame_set :: "u32 \<Rightarrow> pmm \<Rightarrow> pmm" where
  "frame_set frame p = p\<lparr>bitmap := write32 (bitmap p) (4 * (frame div 32))
     (read32 (bitmap p) (4 * (frame div 32)) OR push_bit (unat (frame mod 32)) 1)\<rparr>"

definition frame_clear :: "u32 \<Rightarrow> pmm \<Rightarrow> pmm" where
  "frame_clear frame p = p\<lparr>bitmap := write32 (bitmap p) (4 * (frame div 32))
     (read32 (bitmap p) (4 * (frame div 32)) AND NOT (push_bit (unat (frame mod 32)) 1))\<rparr>"

definition frame_test :: "u32 \<Rightarrow> pmm \<Rightarrow> bool" where
  "frame_test frame p \<longleftrightarrow>
     read32 (bitmap p) (4 * (frame div 32)) AND push_bit (unat (frame mod 32)) 1 \<noteq> 0"

section \<open>Marking a region\<close>

definition mark_frame :: "u32 \<Rightarrow> bool \<Rightarrow> pmm \<Rightarrow> pmm" where
  "mark_frame f used p =
     (if used then (if \<not> frame_test f p
                    then (frame_set f p)\<lparr>used_frames := used_frames p + 1\<rparr> else p)
      else (if frame_test f p
            then (frame_clear f p)\<lparr>used_frames := used_frames p - 1\<rparr> else p))"

function mark_loop :: "u32 \<Rightarrow> u32 \<Rightarrow> bool \<Rightarrow> pmm \<Rightarrow> pmm" where
  "mark_loop f lst used p =
     (if f < lst \<and> f < total_frames p
      then mark_loop (f + 1) lst used (mark_frame f used p) else p)"
  by pat_completeness auto
termination
  by (relation "measure (\<lambda>(f, lst, used, p). unat lst - unat f)")
     (auto intro: word_loop_measure)

declare mark_loop.simps [simp del]

definition mark_region :: "u32 \<Rightarrow> u32 \<Rightarrow> bool \<Rightarrow> pmm \<Rightarrow> pmm" where
  "mark_region base len used p =
     mark_loop (base div PAGE_SIZE) ((base + len + PAGE_SIZE - 1) div PAGE_SIZE) used p"

section \<open>The boot loader's memory map\<close>

record multiboot_info =
  mb_flags :: u32
  mem_lower :: u32
  mem_upper :: u32
  boot_device :: u32
  cmdline :: u32
  mods_count :: u32
  mods_addr :: u32
  syms :: "u32 list"
  mmap_length :: u32
  mmap_addr :: u32

record multiboot_mmap_entry =
  e_size :: u32
  e_addr :: u64
  e_len :: u64
  e_type :: u32

definition MULTIBOOT_INFO_MEM_MAP :: u32 where
  "MULTIBOOT_INFO_MEM_MAP = 0x40"

definition MULTIBOOT_MEMORY_AVAILABLE :: u32 where
  "MULTIBOOT_MEMORY_AVAILABLE = 1"

definition KERNEL_START :: u32 where
  "KERNEL_START = 0x100000"

text \<open>The packed struct found at an address.\<close>

definition mmap_entry_at :: "bytes \<Rightarrow> u32 \<Rightarrow> multiboot_mmap_entry" where
  "mmap_entry_at m a = \<lparr>e_size = read32 m a, e_addr = read64 m (a + 4),
     e_len = read64 m (a + 12), e_type = read32 m (a + 20)\<rparr>"

definition raise_highest :: "multiboot_mmap_entry \<Rightarrow> u64 \<Rightarrow> u64" where
  "raise_highest e highest =
     (if e_type e = MULTIBOOT_MEMORY_AVAILABLE
      then (let en = e_addr e + e_len e in if en > highest then en else highest)
      else highest)"

partial_function (option) find_highest ::
  "bytes \<Rightarrow> multiboot_info \<Rightarrow> u32 \<Rightarrow> u64 \<Rightarrow> u64 option" where
  "find_highest m mbi offset highest =
     (if offset < mmap_length mbi
      then (let e = mmap_entry_at m (mmap_addr mbi + offset)
            in find_highest m mbi (offset + (e_size e + 4)) (raise_highest e highest))
      else Some highest)"

definition free_entry :: "multiboot_mmap_entry \<Rightarrow> pmm \<Rightarrow> pmm" where
  "free_entry e p =
     (if e_type e = MULTIBOOT_MEMORY_AVAILABLE \<and> e_addr e < 0xFFFFFFFF
      then (let base = ucast (e_addr e) :: u32;
                len = (if e_addr e + e_len e > 0xFFFFFFFF then 0xFFFFFFFF - base
                       else ucast (e_len e))
            in mark_region base len False p)
      else p)"

partial_function (option) free_available ::
  "bytes \<Rightarrow> multiboot_info \<Rightarrow> u32 \<Rightarrow> pmm \<Rightarrow> pmm option" where
  "free_available m mbi offset p =
     (if offset < mmap_length mbi
      then (let e = mmap_entry_at m (mmap_addr mbi + offset)
            in free_available m mbi (offset + (e_size e + 4)) (free_entry e p))
      else Some p)"

text \<open>
  \<open>kernel_end\<close> is the linker symbol's address and \<open>ram\<close> what the memory behind the bitmap holds
  at boot.
\<close>

definition bitmap_addr_of :: "u32 \<Rightarrow> u32" where
  "bitmap_addr_of kernel_end = (kernel_end + PAGE_SIZE - 1) AND NOT (PAGE_SIZE - 1)"

definition claim_kernel :: "u32 \<Rightarrow> u32 \<Rightarrow> pmm \<Rightarrow> pmm" where
  "claim_kernel kernel_end bitmap_bytes p =
     mark_region (bitmap_addr_of kernel_end) bitmap_bytes True
       (mark_region KERNEL_START (kernel_end - KERNEL_START) True
         (mark_region 0 KERNEL_START True p))"

definition pmm_init :: "bytes \<Rightarrow> u32 \<Rightarrow> bytes \<Rightarrow> multiboot_info \<Rightarrow> pmm option" where
  "pmm_init m kernel_end ram mbi =
     (if mb_flags mbi AND MULTIBOOT_INFO_MEM_MAP = 0 then None
      else (case find_highest m mbi 0 0 of None \<Rightarrow> None
        | Some h \<Rightarrow>
            (let highest = (if h > 0xFFFFFFFF then 0xFFFFFFFF else h);
                 total = ucast (highest div 4096) :: u32;
                 bitmap_bytes = (total + 7) div 8;
                 p = \<lparr>bitmap = kmemset ram 0 0xFF bitmap_bytes, total_frames = total,
                      used_frames = total\<rparr>
             in map_option (claim_kernel kernel_end bitmap_bytes) (free_available m mbi 0 p))))"

section \<open>Allocation\<close>

function alloc_scan :: "u32 \<Rightarrow> pmm \<Rightarrow> u32 \<times> pmm" where
  "alloc_scan f p =
     (if f < total_frames p
      then (if \<not> frame_test f p
            then (f * PAGE_SIZE, (frame_set f p)\<lparr>used_frames := used_frames p + 1\<rparr>)
            else alloc_scan (f + 1) p)
      else (0, p))"
  by pat_completeness auto
termination
  by (relation "measure (\<lambda>(f, p). unat (total_frames p) - unat f)") (auto intro: word_loop_measure)

definition pmm_alloc_frame :: "pmm \<Rightarrow> u32 \<times> pmm" where
  "pmm_alloc_frame p = alloc_scan 0 p"

function claim_run :: "u32 \<Rightarrow> u32 \<Rightarrow> u32 \<Rightarrow> pmm \<Rightarrow> pmm" where
  "claim_run i count run_start p =
     (if i < count
      then claim_run (i + 1) count run_start
             ((frame_set (run_start + i) p)\<lparr>used_frames := used_frames p + 1\<rparr>)
      else p)"
  by pat_completeness auto
termination
  by (relation "measure (\<lambda>(i, count, run_start, p). unat count - unat i)")
     (auto intro: word_loop_measure)

function run_scan :: "u32 \<Rightarrow> u32 \<Rightarrow> u32 \<Rightarrow> u32 \<Rightarrow> pmm \<Rightarrow> u32 \<times> pmm" where
  "run_scan f run_start run_length count p =
     (if f < total_frames p
      then (if frame_test f p then run_scan (f + 1) (f + 1) 0 count p
            else if run_length + 1 = count
            then (run_start * PAGE_SIZE, claim_run 0 count run_start p)
            else run_scan (f + 1) run_start (run_length + 1) count p)
      else (0, p))"
  by pat_completeness auto
termination
  by (relation "measure (\<lambda>(f, run_start, run_length, count, p). unat (total_frames p) - unat f)")
     (auto intro: word_loop_measure)

declare alloc_scan.simps [simp del] claim_run.simps [simp del] run_scan.simps [simp del]

definition pmm_alloc_frames :: "u32 \<Rightarrow> pmm \<Rightarrow> u32 \<times> pmm" where
  "pmm_alloc_frames count p = (if count = 0 then (0, p) else run_scan 0 0 0 count p)"

definition pmm_free_frame :: "u32 \<Rightarrow> pmm \<Rightarrow> pmm" where
  "pmm_free_frame addr p =
     (let frame = addr div PAGE_SIZE
      in if frame < total_frames p \<and> frame_test frame p
         then (frame_clear frame p)\<lparr>used_frames := used_frames p - 1\<rparr> else p)"

definition pmm_memory_top :: "pmm \<Rightarrow> u32" where
  "pmm_memory_top p = total_frames p * PAGE_SIZE"

definition pmm_total_frames :: "pmm \<Rightarrow> u32" where
  "pmm_total_frames p = total_frames p"

definition pmm_used_frames :: "pmm \<Rightarrow> u32" where
  "pmm_used_frames p = used_frames p"

definition pmm_free_frames :: "pmm \<Rightarrow> u32" where
  "pmm_free_frames p = total_frames p - used_frames p"

section \<open>Single bits\<close>

lemma frame_test_bit:
  "frame_test f p \<longleftrightarrow> bit (read32 (bitmap p) (4 * (f div 32))) (unat f mod 32)"
  by (simp add: frame_test_def bit_iff_and_push_bit_not_eq_0 unat_mod)

lemma word_index_distinct:
  fixes f g :: u32
  assumes "f div 32 \<noteq> g div 32" "c < 4" "c' < 4"
  shows "4 * (f div 32) + word_of_nat c \<noteq> 4 * (g div 32) + (word_of_nat c' :: u32)"
proof -
  have u: "unat (4 * (x div 32) + (word_of_nat k :: u32)) = 4 * (unat x div 32) + k"
    if "k < 4" for x :: u32 and k
  proof -
    have k: "unat (word_of_nat k :: u32) = k" using that by (intro unat_of_nat_small) simp
    have "4 * (unat x div 32) < 536870912" using unat32_lt [of x] by simp
    then show ?thesis using that k
      by (subst unat_plus_no_overflow; subst unat_mult_no_overflow) (auto simp: unat_div)
  qed
  have "unat f div 32 \<noteq> unat g div 32"
    using assms(1) by (metis unat_div unat_numeral_32 word_unat_eq_iff)
  then have "4 * (unat f div 32) + c \<noteq> 4 * (unat g div 32) + c'" using assms(2,3) by linarith
  then show ?thesis using u assms(2,3) by metis
qed

lemma frame_word_other:
  assumes "f div 32 \<noteq> g div 32"
  shows "read32 (write32 m (4 * (f div 32)) v) (4 * (g div 32)) = read32 m (4 * (g div 32))"
proof -
  note d = word_index_distinct [OF assms]
  show ?thesis
    using d [of 0 0] d [of 0 1] d [of 0 2] d [of 0 3] d [of 1 0] d [of 1 1] d [of 1 2] d [of 1 3]
      d [of 2 0] d [of 2 1] d [of 2 2] d [of 2 3] d [of 3 0] d [of 3 1] d [of 3 2] d [of 3 3]
    by (simp add: read32_def write32_def)
qed

lemma frame_bits_eq:
  fixes f g :: u32
  assumes "f div 32 = g div 32"
  shows "unat g mod 32 = unat f mod 32 \<longleftrightarrow> g = f"
  using assms by (metis div_mult_mod_eq unat_div unat_numeral_32 word_unat_eq_iff)

lemma frame_test_set [simp]: "frame_test g (frame_set f p) \<longleftrightarrow> g = f \<or> frame_test g p"
proof (cases "f div 32 = g div 32")
  case True
  have "frame_test g (frame_set f p) \<longleftrightarrow> unat g mod 32 = unat f mod 32 \<or> frame_test g p"
    by (auto simp: frame_test_bit frame_set_def bit_or_iff True unat_mod)
  then show ?thesis by (simp only: frame_bits_eq [OF True])
next
  case False
  then have "frame_test g (frame_set f p) \<longleftrightarrow> frame_test g p" "g \<noteq> f"
    by (auto simp: frame_test_bit frame_set_def frame_word_other)
  then show ?thesis by simp
qed

lemma frame_test_clear [simp]: "frame_test g (frame_clear f p) \<longleftrightarrow> g \<noteq> f \<and> frame_test g p"
proof (cases "f div 32 = g div 32")
  case True
  have "frame_test g (frame_clear f p) \<longleftrightarrow> unat g mod 32 \<noteq> unat f mod 32 \<and> frame_test g p"
    by (auto simp: frame_test_bit frame_clear_def bit_and_iff bit_not_iff True unat_mod)
  then show ?thesis by (simp only: frame_bits_eq [OF True] not_def)
next
  case False
  then have "frame_test g (frame_clear f p) \<longleftrightarrow> frame_test g p" "g \<noteq> f"
    by (auto simp: frame_test_bit frame_clear_def frame_word_other)
  then show ?thesis by simp
qed

lemma frame_fields [simp]:
  "total_frames (frame_set f p) = total_frames p" "used_frames (frame_set f p) = used_frames p"
  "total_frames (frame_clear f p) = total_frames p" "used_frames (frame_clear f p) = used_frames p"
  by (simp_all add: frame_set_def frame_clear_def)

lemma frame_test_used_frames [simp]: "frame_test f (p\<lparr>used_frames := n\<rparr>) = frame_test f p"
  by (simp add: frame_test_def)

section \<open>The set of used frames and the accounting invariant\<close>

definition used_set :: "pmm \<Rightarrow> u32 set" where
  "used_set p = {f. f < total_frames p \<and> frame_test f p}"

text \<open>Frame numbers stay below \<open>2\<^sup>2\<^sup>0\<close>, so frame addresses do not wrap, and the counter is right.\<close>

definition pmm_inv :: "pmm \<Rightarrow> bool" where
  "pmm_inv p \<longleftrightarrow> unat (total_frames p) \<le> 2 ^ 20 \<and> unat (used_frames p) = card (used_set p)"

lemma used_set_take:
  "f < total_frames p \<Longrightarrow> used_set ((frame_set f p)\<lparr>used_frames := n\<rparr>) = insert f (used_set p)"
  by (auto simp: used_set_def)

lemma used_set_give: "used_set ((frame_clear f p)\<lparr>used_frames := n\<rparr>) = used_set p - {f}"
  by (auto simp: used_set_def)

lemma card_lessThan_word: "card {..< n :: u32} = unat n"
proof -
  have "{..<n} = word_of_nat ` {..<unat n}"
  proof (intro set_eqI iffI)
    fix x assume "x \<in> {..<n}"
    then have "unat x < unat n" by (simp add: word_less_nat_alt)
    then show "x \<in> word_of_nat ` {..<unat n}" by (intro image_eqI [of _ _ "unat x"]) auto
  qed (auto simp: unat_add_step)
  moreover have "inj_on (word_of_nat :: nat \<Rightarrow> u32) {..<unat n}"
    by (rule inj_onI) (metis lessThan_iff unat_add_step(1))
  ultimately show ?thesis by (simp add: card_image)
qed

lemma used_set_bound: "card (used_set p) \<le> unat (total_frames p)"
proof -
  have "used_set p \<subseteq> {..<total_frames p}" by (auto simp: used_set_def)
  then have "card (used_set p) \<le> card {..<total_frames p}" by (intro card_mono) auto
  then show ?thesis by (simp add: card_lessThan_word)
qed

lemma used_set_bound_strict:
  assumes "f < total_frames p" "\<not> frame_test f p"
  shows "card (used_set p) < unat (total_frames p)"
proof -
  have "used_set p \<subset> {..<total_frames p}" using assms by (auto simp: used_set_def)
  then have "card (used_set p) < card {..<total_frames p}" by (intro psubset_card_mono) auto
  then show ?thesis by (simp add: card_lessThan_word)
qed

lemma pmm_inv_take:
  assumes "pmm_inv p" "f < total_frames p" "\<not> frame_test f p"
  shows "pmm_inv ((frame_set f p)\<lparr>used_frames := used_frames p + 1\<rparr>)"
proof -
  have "f \<notin> used_set p" using assms(3) by (simp add: used_set_def)
  then have c: "card (insert f (used_set p)) = Suc (card (used_set p))" by simp
  have "unat (used_frames p) < unat (total_frames p)"
    using assms used_set_bound_strict by (simp add: pmm_inv_def)
  then have "unat (used_frames p + 1) = Suc (unat (used_frames p))"
    by (intro unat_Suc_less) (simp add: word_less_nat_alt)
  then show ?thesis using assms(1,2) c by (simp add: pmm_inv_def used_set_take)
qed

lemma pmm_inv_give:
  assumes "pmm_inv p" "f < total_frames p" "frame_test f p"
  shows "pmm_inv ((frame_clear f p)\<lparr>used_frames := used_frames p - 1\<rparr>)"
proof -
  have f: "f \<in> used_set p" using assms by (simp add: used_set_def)
  then have "0 < card (used_set p)" by (auto simp: card_gt_0_iff)
  then have "used_frames p \<noteq> 0" using assms(1) by (auto simp: pmm_inv_def)
  then have "unat (used_frames p - 1) = unat (used_frames p) - 1" by (rule unat_dec)
  then show ?thesis using assms(1) f by (simp add: pmm_inv_def used_set_give)
qed

subsection \<open>Regions\<close>

lemma mark_frame_total [simp]: "total_frames (mark_frame f used p) = total_frames p"
  by (simp add: mark_frame_def)

lemma mark_frame_test:
  "frame_test g (mark_frame f used p) = (if g = f then used else frame_test g p)"
  by (auto simp: mark_frame_def)

lemma mark_frame_inv: "pmm_inv p \<Longrightarrow> f < total_frames p \<Longrightarrow> pmm_inv (mark_frame f used p)"
  by (auto simp: mark_frame_def intro: pmm_inv_take pmm_inv_give)

lemma mark_loop_total [simp]: "total_frames (mark_loop f lst used p) = total_frames p"
  by (induction f lst used p rule: mark_loop.induct) (simp add: mark_loop.simps)

lemma mark_loop_inv: "pmm_inv p \<Longrightarrow> pmm_inv (mark_loop f lst used p)"
proof (induction f lst used p rule: mark_loop.induct)
  case (1 f lst used p)
  then show ?case by (subst mark_loop.simps) (auto intro: mark_frame_inv)
qed

lemma mark_loop_test:
  "g < total_frames p \<Longrightarrow>
   frame_test g (mark_loop f lst used p) = (if f \<le> g \<and> g < lst then used else frame_test g p)"
proof (induction f lst used p rule: mark_loop.induct)
  case (1 f lst used p)
  show ?case
  proof (cases "f < lst \<and> f < total_frames p")
    case True
    have "f + 1 \<le> g \<longleftrightarrow> f < g"
      using True unat_Suc_less [of f lst] by (auto simp: word_le_nat_alt word_less_nat_alt)
    then have "frame_test g (mark_loop f lst used p) =
        (if f < g \<and> g < lst then used else frame_test g (mark_frame f used p))"
      using 1 True by (subst mark_loop.simps) simp
    then show ?thesis using True by (auto simp: mark_frame_test)
  next
    case False
    then show ?thesis using "1.prems" by (subst mark_loop.simps) auto
  qed
qed

lemma mark_region_total [simp]: "total_frames (mark_region base len used p) = total_frames p"
  by (simp add: mark_region_def)

lemma mark_region_inv: "pmm_inv p \<Longrightarrow> pmm_inv (mark_region base len used p)"
  by (simp add: mark_region_def mark_loop_inv)

lemma mark_region_test:
  assumes "g < total_frames p" "unat base + unat len + 4095 < 2 ^ 32"
  shows "frame_test g (mark_region base len used p) =
    (if unat base div 4096 \<le> unat g \<and> unat g * 4096 < unat base + unat len then used
     else frame_test g p)"
proof -
  have "unat (base + len + PAGE_SIZE - 1) = unat base + unat len + 4095"
  proof -
    have "base + len + PAGE_SIZE - 1 = base + len + 4095" by simp
    then show ?thesis using assms(2)
      by (simp only:) (subst unat_plus_no_overflow; subst unat_plus_no_overflow; simp)
  qed
  then have e: "unat ((base + len + PAGE_SIZE - 1) div PAGE_SIZE) = (unat base + unat len + 4095) div 4096"
    by (simp only: unat_div) simp
  have "g < (base + len + PAGE_SIZE - 1) div PAGE_SIZE \<longleftrightarrow> unat g * 4096 < unat base + unat len"
    unfolding word_less_nat_alt e using less_ceil_div [of 4096] by simp
  moreover have "base div PAGE_SIZE \<le> g \<longleftrightarrow> unat base div 4096 \<le> unat g"
    by (simp add: word_le_nat_alt unat_div)
  ultimately show ?thesis using assms(1)
    by (simp only: mark_region_def mark_loop_test)
qed

subsection \<open>Allocation and release\<close>

lemma alloc_scan_free:
  assumes "f \<le> g" "g < total_frames p" "\<not> frame_test g p"
    "\<And>h. f \<le> h \<Longrightarrow> h < g \<Longrightarrow> frame_test h p"
  shows "alloc_scan f p = (g * PAGE_SIZE, (frame_set g p)\<lparr>used_frames := used_frames p + 1\<rparr>)"
  using assms
proof (induction f p rule: alloc_scan.induct)
  case (1 f p)
  show ?case
  proof (cases "f = g")
    case True
    then show ?thesis using "1.prems" by (subst alloc_scan.simps) simp
  next
    case False
    then have fg: "f < g" using "1.prems"(1) by simp
    then have f: "f < total_frames p" "frame_test f p" using "1.prems" by auto
    have suc: "f + 1 \<le> x \<longleftrightarrow> f < x" for x
      using unat_Suc_less [OF f(1)] by (auto simp: word_le_nat_alt word_less_nat_alt)
    have "alloc_scan (f + 1) p = (g * PAGE_SIZE, (frame_set g p)\<lparr>used_frames := used_frames p + 1\<rparr>)"
      using f fg "1.prems" suc by (intro "1.IH") (auto simp: order_less_imp_le)
    then show ?thesis using f by (subst alloc_scan.simps) simp
  qed
qed

lemma alloc_scan_full:
  assumes "\<And>h. f \<le> h \<Longrightarrow> h < total_frames p \<Longrightarrow> frame_test h p"
  shows "alloc_scan f p = (0, p)"
  using assms
proof (induction f p rule: alloc_scan.induct)
  case (1 f p)
  show ?case
  proof (cases "f < total_frames p")
    case True
    have suc: "f + 1 \<le> x \<longleftrightarrow> f < x" for x
      using unat_Suc_less [OF True] by (auto simp: word_le_nat_alt word_less_nat_alt)
    have "alloc_scan (f + 1) p = (0, p)"
      using True "1.prems" suc by (intro "1.IH") (auto simp: order_less_imp_le)
    then show ?thesis using True "1.prems" by (subst alloc_scan.simps) simp
  next
    case False
    then show ?thesis by (subst alloc_scan.simps) simp
  qed
qed

lemma ex_least_free:
  assumes "g < total_frames p" "\<not> frame_test g p"
  obtains l where "l < total_frames p" "\<not> frame_test l p" "\<And>h. h < l \<Longrightarrow> frame_test h p" "l \<le> g"
proof -
  define l where "l = (LEAST n. \<not> frame_test (word_of_nat n) p)"
  have nl: "\<not> frame_test (word_of_nat l) p"
    unfolding l_def using assms(2) by (rule_tac LeastI [of _ "unat g"]) simp
  have le: "l \<le> unat g" unfolding l_def using assms(2) by (rule_tac Least_le) simp
  then have ul: "unat (word_of_nat l :: u32) = l"
    using unat32_lt [of g] by (intro unat32_of_nat) linarith
  show ?thesis
  proof (rule that)
    show "word_of_nat l \<le> g" using le ul by (simp add: word_le_nat_alt)
    then show "word_of_nat l < total_frames p" using assms(1) by simp
    show "\<not> frame_test (word_of_nat l) p" by (rule nl)
    fix h :: u32 assume "h < word_of_nat l"
    then have "unat h < l" using ul by (simp add: word_less_nat_alt)
    then show "frame_test h p" using not_less_Least [of "unat h" "\<lambda>n. \<not> frame_test (word_of_nat n) p"]
      by (simp add: l_def)
  qed
qed

text \<open>The two outcomes of \<open>pmm_alloc_frame\<close>: first fit, or every frame in use.\<close>

lemma pmm_alloc_frame_cases:
  obtains
    (frame) f where "f < total_frames p" "\<not> frame_test f p" "\<And>h. h < f \<Longrightarrow> frame_test h p"
      "pmm_alloc_frame p = (f * PAGE_SIZE, (frame_set f p)\<lparr>used_frames := used_frames p + 1\<rparr>)"
  | (full) "\<And>h. h < total_frames p \<Longrightarrow> frame_test h p" "pmm_alloc_frame p = (0, p)"
proof (cases "\<exists>g < total_frames p. \<not> frame_test g p")
  case True
  then obtain g where "g < total_frames p" "\<not> frame_test g p" by auto
  then obtain l where l: "l < total_frames p" "\<not> frame_test l p" "\<And>h. h < l \<Longrightarrow> frame_test h p"
    by (rule ex_least_free) auto
  then have "pmm_alloc_frame p = (l * PAGE_SIZE, (frame_set l p)\<lparr>used_frames := used_frames p + 1\<rparr>)"
    unfolding pmm_alloc_frame_def by (intro alloc_scan_free) auto
  then show ?thesis using l by (intro frame)
next
  case False
  then have "pmm_alloc_frame p = (0, p)"
    unfolding pmm_alloc_frame_def by (intro alloc_scan_full) auto
  then show ?thesis using False by (intro full) auto
qed

lemma pmm_free_frame_test:
  "frame_test g (pmm_free_frame a p) \<longleftrightarrow>
     frame_test g p \<and> \<not> (g = a div PAGE_SIZE \<and> g < total_frames p)"
  by (auto simp: pmm_free_frame_def Let_def)

lemma pmm_free_frame_total [simp]: "total_frames (pmm_free_frame a p) = total_frames p"
  by (simp add: pmm_free_frame_def Let_def)

lemma pmm_free_frame_inv: "pmm_inv p \<Longrightarrow> pmm_inv (pmm_free_frame a p)"
  by (auto simp: pmm_free_frame_def Let_def intro: pmm_inv_give)

lemma pmm_free_frame_used_set: "used_set (pmm_free_frame a p) = used_set p - {a div PAGE_SIZE}"
  by (auto simp: used_set_def pmm_free_frame_test)

subsection \<open>Runs of frames\<close>

text \<open>\<open>n\<close> consecutive free frames from frame number \<open>s\<close>.\<close>

definition free_run :: "pmm \<Rightarrow> nat \<Rightarrow> nat \<Rightarrow> bool" where
  "free_run p s n \<longleftrightarrow>
     s + n \<le> unat (total_frames p) \<and> (\<forall>i < n. \<not> frame_test (word_of_nat (s + i)) p)"

lemma free_run_first:
  "free_run p s n \<Longrightarrow> 0 < n \<Longrightarrow> s < unat (total_frames p) \<and> \<not> frame_test (word_of_nat s) p"
  unfolding free_run_def by (metis add.right_neutral add_leE less_le_trans less_add_same_cancel1)

lemma claim_run_spec:
  assumes "unat s + unat count \<le> unat (total_frames p)" "pmm_inv p" "i \<le> count"
    "\<forall>j. unat i \<le> j \<and> j < unat count \<longrightarrow> \<not> frame_test (word_of_nat (unat s + j)) p"
  shows "total_frames (claim_run i count s p) = total_frames p \<and> pmm_inv (claim_run i count s p) \<and>
    (\<forall>g. frame_test g (claim_run i count s p) \<longleftrightarrow>
      frame_test g p \<or> (unat s + unat i \<le> unat g \<and> unat g < unat s + unat count))"
  using assms
proof (induction i count s p rule: claim_run.induct)
  case (1 i count s p)
  show ?case
  proof (cases "i < count")
    case True
    let ?p = "(frame_set (s + i) p)\<lparr>used_frames := used_frames p + 1\<rparr>"
    have i: "unat i < unat count" using True by (simp add: word_less_nat_alt)
    have si: "unat (s + i) = unat s + unat i"
      using i "1.prems"(1) unat32_lt [of "total_frames p"] by (intro unat32_plus) linarith
    have lt: "s + i < total_frames p" using si i "1.prems"(1) by (simp add: word_less_nat_alt)
    have ws: "word_of_nat (unat s + unat i) = s + i" by simp
    have nf: "\<not> frame_test (s + i) p" using "1.prems"(4) i ws by (metis order_refl)
    have suc: "unat (i + 1) = Suc (unat i)" by (rule unat_Suc_less [OF True])
    have ne: "word_of_nat (unat s + j) \<noteq> s + i" if "Suc (unat i) \<le> j" "j < unat count" for j
    proof -
      have "unat (word_of_nat (unat s + j) :: u32) = unat s + j"
        using that "1.prems"(1) unat32_lt [of "total_frames p"] by (intro unat32_of_nat) linarith
      then show ?thesis using si that by (metis Suc_n_not_le_n add_left_cancel)
    qed
    have IH: "total_frames (claim_run (i + 1) count s ?p) = total_frames ?p \<and>
      pmm_inv (claim_run (i + 1) count s ?p) \<and>
      (\<forall>g. frame_test g (claim_run (i + 1) count s ?p) \<longleftrightarrow>
        frame_test g ?p \<or> (unat s + unat (i + 1) \<le> unat g \<and> unat g < unat s + unat count))"
    proof (rule "1.IH" [OF True])
      show "unat s + unat count \<le> unat (total_frames ?p)" using "1.prems"(1) by simp
      show "pmm_inv ?p" by (rule pmm_inv_take [OF "1.prems"(2) lt nf])
      show "i + 1 \<le> count" using suc i by (simp add: word_le_nat_alt)
      show "\<forall>j. unat (i + 1) \<le> j \<and> j < unat count \<longrightarrow> \<not> frame_test (word_of_nat (unat s + j)) ?p"
        using "1.prems"(4) suc ne by auto
    qed
    have eq: "claim_run i count s p = claim_run (i + 1) count s ?p"
      using True by (subst claim_run.simps) simp
    have "g = s + i \<longleftrightarrow> unat g = unat s + unat i" for g by (simp only: word_unat_eq_iff si)
    then have test: "frame_test g ?p \<longleftrightarrow> frame_test g p \<or> unat g = unat s + unat i" for g
      by (simp only: frame_test_used_frames frame_test_set) blast
    have split: "unat s + unat i \<le> u \<and> u < unat s + unat count \<longleftrightarrow>
        u = unat s + unat i \<or> (unat s + unat (i + 1) \<le> u \<and> u < unat s + unat count)" for u
      using i suc by linarith
    show ?thesis unfolding eq split using IH [unfolded test] by (simp add: disj_assoc)
  next
    case False
    then have "unat i = unat count" using "1.prems"(3) by auto
    moreover have "claim_run i count s p = p" using False by (subst claim_run.simps) simp
    ultimately show ?thesis using "1.prems"(1,2) by (simp add: linorder_not_le [symmetric])
  qed
qed

text \<open>
  The scanning loop: up to \<open>f\<close> no run starts before \<open>run_start\<close>, and the frames from
  \<open>run_start\<close> to \<open>f\<close> are free but too few.
\<close>

lemma run_scan_spec:
  assumes "unat run_start + unat run_length = unat f" "run_length < count"
    "unat f \<le> unat (total_frames p)"
    "\<forall>i. unat run_start \<le> i \<and> i < unat f \<longrightarrow> \<not> frame_test (word_of_nat i) p"
    "\<forall>s < unat run_start. \<not> free_run p s (unat count)"
  shows "(\<exists>s. free_run p s (unat count) \<and> (\<forall>t < s. \<not> free_run p t (unat count)) \<and>
      run_scan f run_start run_length count p =
        (word_of_nat s * PAGE_SIZE, claim_run 0 count (word_of_nat s) p)) \<or>
    ((\<forall>s. \<not> free_run p s (unat count)) \<and> run_scan f run_start run_length count p = (0, p))"
  (is "?found f run_start run_length count p \<or> ?none f run_start run_length count p")
  using assms
proof (induction f run_start run_length count p rule: run_scan.induct)
  case (1 f run_start run_length count p)
  note inv = "1.prems"
  have rl: "unat run_length < unat count" using inv(2) by (simp add: word_less_nat_alt)
  show ?case
  proof (cases "f < total_frames p")
    case False
    then have f: "unat f = unat (total_frames p)" using inv(3) by (simp add: word_less_nat_alt)
    have "\<not> free_run p s (unat count)" for s
      using inv(1,5) f rl by (cases "s < unat run_start") (auto simp: free_run_def)
    moreover have "run_scan f run_start run_length count p = (0, p)"
      using False by (subst run_scan.simps) simp
    ultimately show ?thesis by blast
  next
    case True
    then have ft: "unat f < unat (total_frames p)" by (simp add: word_less_nat_alt)
    have f1: "unat (f + 1) = Suc (unat f)" by (rule unat_Suc_less [OF True])
    have l1: "unat (run_length + 1) = Suc (unat run_length)" by (rule unat_Suc_less [OF inv(2)])
    show ?thesis
    proof (cases "frame_test f p")
      case used: True
      have none: "\<not> free_run p s (unat count)" if "s < Suc (unat f)" for s
      proof (cases "s < unat run_start")
        case False
        then have i: "unat f - s < unat count" "s + (unat f - s) = unat f"
          using that inv(1) rl by linarith+
        then have "frame_test (word_of_nat (s + (unat f - s))) p" using used by (simp only: word_of_nat_unat)
        then show ?thesis using i(1) unfolding free_run_def by blast
      qed (use inv(5) in simp)
      have "count \<noteq> 0" using inv(2) by auto
      then have "?found (f + 1) (f + 1) 0 count p \<or> ?none (f + 1) (f + 1) 0 count p"
        using True used none f1 ft by (rule_tac "1.IH"(1)) (auto simp: word_neq_0_conv)
      moreover have "run_scan f run_start run_length count p = run_scan (f + 1) (f + 1) 0 count p"
        using True used by (subst run_scan.simps) simp
      ultimately show ?thesis by simp
    next
      case free: False
      have range: "\<not> frame_test (word_of_nat i) p" if "unat run_start \<le> i" "i < Suc (unat f)" for i
        using that inv(4) free by (cases "i = unat f") auto
      show ?thesis
      proof (cases "run_length + 1 = count")
        case hit: True
        then have "Suc (unat run_length) = unat count" using l1 by simp
        then have "free_run p (unat run_start) (unat count)"
          using inv(1) ft range by (auto simp: free_run_def simp del: of_nat_add)
        moreover have "run_scan f run_start run_length count p =
            (run_start * PAGE_SIZE, claim_run 0 count run_start p)"
          using True free hit by (subst run_scan.simps) simp
        ultimately show ?thesis using inv(5) by (intro disjI1 exI [of _ "unat run_start"]) simp
      next
        case more: False
        then have "unat (run_length + 1) \<noteq> unat count" by (simp only: word_unat_eq_iff not_False_eq_True)
        then have lt: "run_length + 1 < count" using rl l1 by (simp add: word_less_nat_alt)
        have "?found (f + 1) run_start (run_length + 1) count p \<or> ?none (f + 1) run_start (run_length + 1) count p"
          using True free more lt f1 l1 ft inv(1,5) range by (rule_tac "1.IH"(2)) auto
        moreover have "run_scan f run_start run_length count p =
            run_scan (f + 1) run_start (run_length + 1) count p"
          using True free more by (subst run_scan.simps) simp
        ultimately show ?thesis by simp
      qed
    qed
  qed
qed

text \<open>The two outcomes of \<open>pmm_alloc_frames\<close>: the first run long enough, or none exists.\<close>

lemma pmm_alloc_frames_cases:
  assumes "count \<noteq> 0"
  obtains
    (run) s where "free_run p s (unat count)" "\<And>t. t < s \<Longrightarrow> \<not> free_run p t (unat count)"
      "pmm_alloc_frames count p = (word_of_nat s * PAGE_SIZE, claim_run 0 count (word_of_nat s) p)"
  | (none) "\<And>s. \<not> free_run p s (unat count)" "pmm_alloc_frames count p = (0, p)"
proof -
  have "0 < count" using assms by (simp add: word_neq_0_conv)
  then show ?thesis
    using run_scan_spec [of 0 0 0 count p] run none assms by (auto simp: pmm_alloc_frames_def)
qed

section \<open>The interface the rest of the kernel relies on\<close>

text \<open>
  A source of page frames: frames are numbered, \<open>owned\<close> is the set of frame numbers that are not
  available, and address 0 signals failure.  The heap, the scheduler, the paging code and the
  loader only use these laws.
\<close>

locale frame_source =
  fixes alloc :: "'p \<Rightarrow> u32 \<times> 'p"
    and allocs :: "u32 \<Rightarrow> 'p \<Rightarrow> u32 \<times> 'p"
    and release :: "u32 \<Rightarrow> 'p \<Rightarrow> 'p"
    and owned :: "'p \<Rightarrow> nat set"
    and ok :: "'p \<Rightarrow> bool"
  assumes alloc_none: "ok p \<Longrightarrow> alloc p = (0, p') \<Longrightarrow> p' = p"
    and alloc_some: "ok p \<Longrightarrow> alloc p = (a, p') \<Longrightarrow> a \<noteq> 0 \<Longrightarrow>
      ok p' \<and> unat a mod 4096 = 0 \<and> unat a div 4096 \<notin> owned p \<and>
      owned p' = insert (unat a div 4096) (owned p)"
    and allocs_none: "ok p \<Longrightarrow> allocs n p = (0, p') \<Longrightarrow> p' = p"
    and allocs_some: "ok p \<Longrightarrow> allocs n p = (a, p') \<Longrightarrow> a \<noteq> 0 \<Longrightarrow>
      ok p' \<and> unat a mod 4096 = 0 \<and> unat a + unat n * 4096 \<le> 2 ^ 32 \<and>
      {unat a div 4096 ..< unat a div 4096 + unat n} \<inter> owned p = {} \<and>
      owned p' = owned p \<union> {unat a div 4096 ..< unat a div 4096 + unat n}"
    and release_owned: "ok p \<Longrightarrow> 4096 \<le> unat a \<Longrightarrow>
      ok (release a p) \<and> owned (release a p) = owned p - {unat a div 4096}"
begin

lemma alloc_ok: "ok p \<Longrightarrow> ok (snd (alloc p))"
  using alloc_none alloc_some by (cases "alloc p") (metis snd_conv)

lemma allocs_ok: "ok p \<Longrightarrow> ok (snd (allocs n p))"
  using allocs_none allocs_some by (cases "allocs n p") (metis snd_conv)

lemma alloc_twice_distinct:
  assumes "ok p" "alloc p = (a, p')" "alloc p' = (b, p'')" "a \<noteq> 0" "b \<noteq> 0"
  shows "a \<noteq> b"
  using alloc_some [OF assms(1,2,4)] alloc_some [of p' b p''] assms by auto

lemma alloc_release:
  assumes "ok p" "alloc p = (a, p')" "a \<noteq> 0"
  shows "owned (release a p') = owned p"
proof -
  note a = alloc_some [OF assms]
  have "0 < unat a" using assms(3) by (simp add: unat_gt_0)
  then have "4096 \<le> unat a" using a by (metis dvd_imp_le mod_0_imp_dvd)
  then show ?thesis using a release_owned [of p' a] by simp
qed

end

definition frames_owned :: "pmm \<Rightarrow> nat set" where
  "frames_owned p = unat ` used_set p"

text \<open>The accounting invariant together with what \<open>pmm_init\<close> reserves: frame 0 is never free.\<close>

definition pmm_ok :: "pmm \<Rightarrow> bool" where
  "pmm_ok p \<longleftrightarrow> pmm_inv p \<and> 0 \<in> used_set p"

lemma unat_frame_addr:
  assumes "pmm_inv p" "f < total_frames p"
  shows "unat (f * PAGE_SIZE) = unat f * 4096"
proof -
  have "unat f < 1048576" using assms by (simp add: pmm_inv_def word_less_nat_alt)
  then show ?thesis by (subst unat32_mult) simp_all
qed

lemma frames_owned_take:
  "f < total_frames p \<Longrightarrow>
     frames_owned ((frame_set f p)\<lparr>used_frames := n\<rparr>) = insert (unat f) (frames_owned p)"
  by (simp add: frames_owned_def used_set_take)

lemma frames_owned_iff: "unat f \<in> frames_owned p \<longleftrightarrow> f < total_frames p \<and> frame_test f p"
  by (auto simp: frames_owned_def used_set_def simp flip: word_unat_eq_iff)

lemma claim_run_owned:
  assumes "pmm_inv p" "free_run p s (unat n)"
  shows "unat (word_of_nat s :: u32) = s" "pmm_inv (claim_run 0 n (word_of_nat s) p)"
    "total_frames (claim_run 0 n (word_of_nat s) p) = total_frames p"
    "frame_test g (claim_run 0 n (word_of_nat s) p) \<longleftrightarrow>
       frame_test g p \<or> (s \<le> unat g \<and> unat g < s + unat n)"
proof -
  have le: "s + unat n \<le> unat (total_frames p)" using assms(2) by (simp add: free_run_def)
  then show s: "unat (word_of_nat s :: u32) = s"
    using unat32_lt [of "total_frames p"] by (intro unat32_of_nat) linarith
  have "\<forall>j. unat (0 :: u32) \<le> j \<and> j < unat n \<longrightarrow>
      \<not> frame_test (word_of_nat (unat (word_of_nat s :: u32) + j)) p"
    using assms(2) unfolding s free_run_def by blast
  note spec = claim_run_spec [OF _ assms(1) _ this, unfolded s, OF le]
  show "pmm_inv (claim_run 0 n (word_of_nat s) p)"
    "total_frames (claim_run 0 n (word_of_nat s) p) = total_frames p"
    "frame_test g (claim_run 0 n (word_of_nat s) p) \<longleftrightarrow>
       frame_test g p \<or> (s \<le> unat g \<and> unat g < s + unat n)"
    using spec by auto
qed

lemma claim_run_frames_owned:
  assumes "pmm_inv p" "free_run p s (unat n)"
  shows "frames_owned (claim_run 0 n (word_of_nat s) p) = frames_owned p \<union> {s ..< s + unat n}"
    "{s ..< s + unat n} \<inter> frames_owned p = {}"
proof -
  note c = claim_run_owned [OF assms]
  have le: "s + unat n \<le> unat (total_frames p)"
    and free: "\<And>i. i < unat n \<Longrightarrow> \<not> frame_test (word_of_nat (s + i)) p"
    using assms(2) by (auto simp: free_run_def)
  have num: "\<exists>g. unat g = k \<and> g < total_frames p" if "k < unat (total_frames p)" for k
    using unat_add_step [OF that] by blast
  show "{s ..< s + unat n} \<inter> frames_owned p = {}"
  proof -
    have "k \<notin> frames_owned p" if "s \<le> k" "k < s + unat n" for k
    proof -
      have "k < unat (total_frames p)" using that(2) le by linarith
      then obtain g where g: "unat g = k" "g < total_frames p" using num by blast
      have "\<not> frame_test (word_of_nat (s + (k - s))) p" using that by (intro free) linarith
      then show ?thesis using that frames_owned_iff [of g p] by (auto simp flip: g(1))
    qed
    then show ?thesis by auto
  qed
  show "frames_owned (claim_run 0 n (word_of_nat s) p) = frames_owned p \<union> {s ..< s + unat n}"
  proof (intro set_eqI)
    fix k
    show "k \<in> frames_owned (claim_run 0 n (word_of_nat s) p) \<longleftrightarrow>
        k \<in> frames_owned p \<union> {s ..< s + unat n}"
    proof (cases "k < unat (total_frames p)")
      case True
      then obtain g where "unat g = k" "g < total_frames p" using num by blast
      then show ?thesis
        using frames_owned_iff [of g] c(3) c(4) [of g] by auto
    next
      case False
      then show ?thesis using le c(3)
        by (auto simp: frames_owned_def used_set_def word_less_nat_alt)
    qed
  qed
qed

lemma frame_zero_not_free: "pmm_ok p \<Longrightarrow> \<not> frame_test f p \<Longrightarrow> f \<noteq> 0"
  by (auto simp: pmm_ok_def used_set_def)

lemma pmm_alloc_none:
  assumes "pmm_ok p" "pmm_alloc_frame p = (0, p')"
  shows "p' = p"
proof (cases rule: pmm_alloc_frame_cases [of p])
  case (frame f)
  have "f \<noteq> 0" using assms(1) frame(2) by (rule frame_zero_not_free)
  then have "unat f * 4096 \<noteq> 0" by (simp add: unat_eq_zero)
  then have "f * PAGE_SIZE \<noteq> 0"
    using unat_frame_addr [of p f] assms(1) frame(1) by (metis pmm_ok_def unat_0)
  then show ?thesis using assms(2) frame(4) by simp
qed (use assms(2) in simp)

lemma pmm_alloc_some:
  assumes "pmm_ok p" "pmm_alloc_frame p = (a, p')" "a \<noteq> 0"
  shows "pmm_ok p' \<and> unat a mod 4096 = 0 \<and> unat a div 4096 \<notin> frames_owned p \<and>
    frames_owned p' = insert (unat a div 4096) (frames_owned p)"
proof (cases rule: pmm_alloc_frame_cases [of p])
  case (frame f)
  have inv: "pmm_inv p" using assms(1) by (simp add: pmm_ok_def)
  have p': "p' = (frame_set f p)\<lparr>used_frames := used_frames p + 1\<rparr>" and "a = f * PAGE_SIZE"
    using assms(2) frame(4) by auto
  then have a: "unat a = unat f * 4096" using unat_frame_addr [OF inv frame(1)] by simp
  have "pmm_inv p'" unfolding p' by (rule pmm_inv_take [OF inv frame(1,2)])
  moreover have "0 \<in> used_set p'"
    using assms(1) unfolding p' used_set_take [OF frame(1)] by (simp add: pmm_ok_def)
  ultimately show ?thesis
    using a p' frame(1,2) frames_owned_iff [of f p] by (simp add: pmm_ok_def frames_owned_take)
qed (use assms in simp)

lemma pmm_allocs_none:
  assumes "pmm_ok p" "pmm_alloc_frames n p = (0, p')"
  shows "p' = p"
proof (cases "n = 0")
  case False
  then show ?thesis
  proof (cases rule: pmm_alloc_frames_cases [of n p])
    case (run s)
    have inv: "pmm_inv p" using assms(1) by (simp add: pmm_ok_def)
    have "0 < unat n" using False by (simp add: unat_gt_0)
    then have s: "word_of_nat s < total_frames p" "\<not> frame_test (word_of_nat s) p"
      using free_run_first [OF run(1)] claim_run_owned(1) [OF inv run(1)]
      by (auto simp: word_less_nat_alt)
    then have "word_of_nat s \<noteq> (0 :: u32)" using assms(1) frame_zero_not_free by blast
    then have "unat (word_of_nat s :: u32) * 4096 \<noteq> 0" by (simp add: unat_eq_zero)
    then have "word_of_nat s * PAGE_SIZE \<noteq> 0" using unat_frame_addr [OF inv s(1)] by (metis unat_0)
    then show ?thesis using assms(2) run(3) by simp
  qed (use assms(2) in simp)
qed (use assms(2) in \<open>simp add: pmm_alloc_frames_def\<close>)

lemma pmm_allocs_some:
  assumes "pmm_ok p" "pmm_alloc_frames n p = (a, p')" "a \<noteq> 0"
  shows "pmm_ok p' \<and> unat a mod 4096 = 0 \<and> unat a + unat n * 4096 \<le> 2 ^ 32 \<and>
    {unat a div 4096 ..< unat a div 4096 + unat n} \<inter> frames_owned p = {} \<and>
    frames_owned p' = frames_owned p \<union> {unat a div 4096 ..< unat a div 4096 + unat n}"
proof -
  have n: "n \<noteq> 0" using assms(2,3) by (auto simp: pmm_alloc_frames_def)
  have inv: "pmm_inv p" using assms(1) by (simp add: pmm_ok_def)
  from n show ?thesis
  proof (cases rule: pmm_alloc_frames_cases [of n p])
    case (run s)
    note c = claim_run_owned [OF inv run(1)] and o = claim_run_frames_owned [OF inv run(1)]
    have p': "p' = claim_run 0 n (word_of_nat s) p" and "a = word_of_nat s * PAGE_SIZE"
      using assms(2) run(3) by auto
    moreover have le: "s + unat n \<le> unat (total_frames p)" using run(1) by (simp add: free_run_def)
    moreover have "0 < unat n" using n by (simp add: unat_gt_0)
    ultimately have a: "unat a = s * 4096"
      using unat_frame_addr [of p "word_of_nat s"] inv c(1) by (simp add: word_less_nat_alt)
    have "s + unat n \<le> 2 ^ 20" using inv le by (simp add: pmm_inv_def)
    moreover have "pmm_ok p'"
      using assms(1) c(2,3) c(4) [of 0] unfolding p' by (simp add: pmm_ok_def used_set_def)
    ultimately show ?thesis using a o p' by simp
  qed (use assms in simp)
qed

lemma pmm_release:
  assumes "pmm_ok p" "4096 \<le> unat a"
  shows "pmm_ok (pmm_free_frame a p) \<and>
    frames_owned (pmm_free_frame a p) = frames_owned p - {unat a div 4096}"
proof -
  have u: "unat (a div PAGE_SIZE) = unat a div 4096" by (simp add: unat_div)
  then have "unat (a div PAGE_SIZE) \<noteq> 0" using assms(2) by simp
  then have "a div PAGE_SIZE \<noteq> 0" by (metis unat_0)
  then have "pmm_ok (pmm_free_frame a p)"
    using assms(1) pmm_free_frame_inv by (auto simp: pmm_ok_def pmm_free_frame_used_set)
  moreover have "frames_owned (pmm_free_frame a p) = frames_owned p - {unat a div 4096}"
    unfolding frames_owned_def pmm_free_frame_used_set u [symmetric]
    by (subst image_set_diff) (auto intro: injI simp: word_unat_eq_iff)
  ultimately show ?thesis by blast
qed

interpretation pmm: frame_source pmm_alloc_frame pmm_alloc_frames pmm_free_frame frames_owned pmm_ok
  by unfold_locales
    (rule pmm_alloc_none pmm_alloc_some pmm_allocs_none pmm_allocs_some pmm_release; assumption)+

section \<open>Initialisation\<close>

text \<open>The entries the two passes visit, when following the \<open>size\<close> fields reaches the end.\<close>

fun mmap_walk :: "bytes \<Rightarrow> multiboot_info \<Rightarrow> u32 \<Rightarrow> multiboot_mmap_entry list \<Rightarrow> bool" where
  "mmap_walk m mbi offset [] \<longleftrightarrow> \<not> offset < mmap_length mbi"
| "mmap_walk m mbi offset (e # es) \<longleftrightarrow> offset < mmap_length mbi \<and>
     e = mmap_entry_at m (mmap_addr mbi + offset) \<and> mmap_walk m mbi (offset + (e_size e + 4)) es"

lemma find_highest_walk:
  "mmap_walk m mbi offset es \<Longrightarrow> find_highest m mbi offset h = Some (fold raise_highest es h)"
proof (induction es arbitrary: offset h)
  case Nil
  then show ?case by (subst find_highest.simps) simp
next
  case (Cons e es)
  then show ?case by (subst find_highest.simps) (auto simp: Let_def)
qed

lemma free_available_walk:
  "mmap_walk m mbi offset es \<Longrightarrow> free_available m mbi offset p = Some (fold free_entry es p)"
proof (induction es arbitrary: offset p)
  case Nil
  then show ?case by (subst free_available.simps) simp
next
  case (Cons e es)
  then show ?case by (subst free_available.simps) (auto simp: Let_def)
qed

lemma free_entry_inv: "pmm_inv p \<Longrightarrow> pmm_inv (free_entry e p)"
  by (simp add: free_entry_def Let_def mark_region_inv)

lemma free_entry_total [simp]: "total_frames (free_entry e p) = total_frames p"
  by (simp add: free_entry_def Let_def)

text \<open>Frame \<open>f\<close> shares at least a byte with the memory the entry describes.\<close>

definition entry_touches :: "multiboot_mmap_entry \<Rightarrow> u32 \<Rightarrow> bool" where
  "entry_touches e f \<longleftrightarrow> e_type e = MULTIBOOT_MEMORY_AVAILABLE \<and>
     unat (e_addr e) < (unat f + 1) * 4096 \<and> unat f * 4096 < unat (e_addr e) + unat (e_len e)"

text \<open>
  Touching is all the code gives: \<open>mark_region\<close> rounds outward when it frees, so a frame that lies only
  partly in available memory becomes free.  When the entry is page aligned a frame that touches it
  lies inside it.
\<close>

definition entry_aligned :: "multiboot_mmap_entry \<Rightarrow> bool" where
  "entry_aligned e \<longleftrightarrow> unat (e_addr e) mod 4096 = 0 \<and> unat (e_len e) mod 4096 = 0"

definition entry_covers :: "multiboot_mmap_entry \<Rightarrow> u32 \<Rightarrow> bool" where
  "entry_covers e f \<longleftrightarrow> e_type e = MULTIBOOT_MEMORY_AVAILABLE \<and>
     unat (e_addr e) \<le> unat f * 4096 \<and> (unat f + 1) * 4096 \<le> unat (e_addr e) + unat (e_len e)"

lemma aligned_touch_covers:
  assumes "entry_touches e f" "entry_aligned e"
  shows "entry_covers e f"
proof -
  obtain a l where al: "unat (e_addr e) = 4096 * a" "unat (e_len e) = 4096 * l"
    using assms(2) unfolding entry_aligned_def mod_eq_0_iff_dvd by (auto elim!: dvdE)
  then have "4096 * a < 4096 * (unat f + 1)" "4096 * unat f < 4096 * (a + l)"
    using assms(1) by (simp_all add: entry_touches_def algebra_simps)
  then have "a \<le> unat f" "unat f + 1 \<le> a + l" by simp_all
  then have "4096 * a \<le> 4096 * unat f" "4096 * (unat f + 1) \<le> 4096 * (a + l)" by (simp_all only: mult_le_mono2)
  then show ?thesis using assms(1) al by (simp add: entry_covers_def entry_touches_def algebra_simps)
qed

lemma mark_region_free_touches:
  assumes "f < total_frames p" "\<not> frame_test f (mark_region base len False p)" "frame_test f p"
  shows "unat base < (unat f + 1) * 4096 \<and> unat f * 4096 < unat base + unat len"
proof -
  let ?l = "(base + len + PAGE_SIZE - 1) div PAGE_SIZE"
  have in_range: "base div PAGE_SIZE \<le> f" "f < ?l"
    using assms mark_loop_test [OF assms(1)] by (auto simp: mark_region_def split: if_splits)
  have "unat (base + len + 4095) \<le> unat (base + len) + 4095"
    using unat_word_ariths(1) [of "base + len" 4095] by simp
  moreover have "unat (base + len) \<le> unat base + unat len"
    using unat_word_ariths(1) [of base len] by simp
  ultimately have "unat (base + len + 4095) \<le> unat base + unat len + 4095" by linarith
  moreover have "base + len + PAGE_SIZE - 1 = base + len + 4095" by simp
  then have "unat ?l = unat (base + len + 4095) div 4096" by (simp only: unat_div) simp
  ultimately have "unat ?l \<le> (unat base + unat len + 4095) div 4096" by (simp add: div_le_mono)
  moreover have "unat f < unat ?l" using in_range(2) by (simp only: word_less_nat_alt)
  ultimately have "unat f < (unat base + unat len + (4096 - 1)) div 4096" by simp
  then have "unat f * 4096 < unat base + unat len" by (subst (asm) less_ceil_div) simp_all
  moreover have "unat base div 4096 \<le> unat f" using in_range(1) by (simp add: word_le_nat_alt unat_div)
  then have "unat base < (unat f + 1) * 4096"
    using div_less_iff_less_mult [of 4096 "unat base" "unat f + 1"] by simp
  ultimately show ?thesis by blast
qed

lemma unat_ucast_down: "unat (x :: u64) < 2 ^ 32 \<Longrightarrow> unat (ucast x :: u32) = unat x"
  by (simp add: unsigned_ucast_eq take_bit_nat_eq_self)

lemma free_entry_touches:
  assumes "f < total_frames p" "\<not> frame_test f (free_entry e p)" "frame_test f p"
  shows "entry_touches e f"
proof -
  let ?base = "ucast (e_addr e) :: u32"
  let ?len = "if e_addr e + e_len e > 0xFFFFFFFF then 0xFFFFFFFF - ?base else ucast (e_len e)"
  have avail: "e_type e = MULTIBOOT_MEMORY_AVAILABLE" "e_addr e < 0xFFFFFFFF"
    and nt: "\<not> frame_test f (mark_region ?base ?len False p)"
    using assms(2,3) by (auto simp: free_entry_def Let_def split: if_splits)
  have "unat (e_addr e) < 4294967295" using avail(2) by (simp add: word_less_nat_alt)
  then have base: "unat ?base = unat (e_addr e)" by (intro unat_ucast_down) simp
  note r = mark_region_free_touches [OF assms(1) nt assms(3), unfolded base]
  have "unat (e_addr e) + unat ?len \<le> unat (e_addr e) + unat (e_len e)"
  proof (cases "e_addr e + e_len e > 0xFFFFFFFF")
    case True
    then have "4294967295 < unat (e_addr e + e_len e)" by (simp add: word_less_nat_alt)
    also have "\<dots> \<le> unat (e_addr e) + unat (e_len e)"
      using unat_word_ariths(1) [of "e_addr e" "e_len e"] by simp
    finally have "4294967295 < unat (e_addr e) + unat (e_len e)" .
    moreover have "?base \<le> 0xFFFFFFFF" using unat32_lt [of ?base] by (simp add: word_le_nat_alt)
    then have "unat (0xFFFFFFFF - ?base) = 4294967295 - unat (e_addr e)"
      by (simp add: unat_minus_le base)
    ultimately show ?thesis using True \<open>unat (e_addr e) < 4294967295\<close> by simp
  next
    case False
    then show ?thesis by (simp add: unsigned_ucast_eq take_bit_nat_less_eq_self)
  qed
  then show ?thesis using avail(1) r by (auto simp: entry_touches_def)
qed

lemma free_entries_touches:
  assumes "f < total_frames p" "\<not> frame_test f (fold free_entry es p)" "frame_test f p"
  shows "\<exists>e \<in> set es. entry_touches e f"
  using assms
proof (induction es arbitrary: p)
  case (Cons e es)
  show ?case
  proof (cases "frame_test f (free_entry e p)")
    case True
    then show ?thesis using Cons.IH [of "free_entry e p"] Cons.prems by simp
  next
    case False
    then show ?thesis using free_entry_touches [OF Cons.prems(1) False Cons.prems(3)] by simp
  qed
qed simp

lemma fold_free_entry_inv: "pmm_inv p \<Longrightarrow> pmm_inv (fold free_entry es p)"
  by (induction es arbitrary: p) (simp_all add: free_entry_inv)

lemma fold_free_entry_total [simp]: "total_frames (fold free_entry es p) = total_frames p"
  by (induction es arbitrary: p) simp_all

text \<open>The bitmap after \<open>kmemset\<close>: every frame that exists is marked used.\<close>

lemma bit_255: "k < 8 \<Longrightarrow> bit (255 :: u8) k"
proof -
  assume "k < 8"
  then have "k \<in> {0,1,2,3,4,5,6,7}" by auto
  then show ?thesis by auto
qed

lemma boot_bitmap_full:
  fixes t :: u32
  assumes "f < t" "unat t \<le> 2 ^ 20"
  shows "frame_test f \<lparr>bitmap = kmemset ram 0 0xFF ((t + 7) div 8), total_frames = t, used_frames = n\<rparr>"
proof -
  let ?k = "unat f mod 32"
  let ?a = "4 * (f div 32) + word_of_nat (?k div 8) :: u32"
  have f: "unat f < unat t" "unat f < 1048576" using assms by (auto simp: word_less_nat_alt)
  have d: "unat (f div 32) = unat f div 32" by (simp add: unat_div)
  have m: "unat (4 * (f div 32)) = 4 * (unat f div 32)"
    using f(2) d by (subst unat32_mult) simp_all
  have k: "unat (word_of_nat (?k div 8) :: u32) = ?k div 8" by (intro unat32_of_nat) simp
  have "unat ?a = 4 * (unat f div 32) + ?k div 8"
    using f(2) m k by (subst unat32_plus) auto
  also have "\<dots> = unat f div 8" by (rule byte_of_bit)
  finally have a: "unat ?a = unat f div 8" .
  have "unat (t + 7) = unat t + 7" using assms(2) by (subst unat32_plus) auto
  then have "unat ((t + 7) div 8) = (unat t + (8 - 1)) div 8" by (simp add: unat_div)
  moreover have "unat f div 8 * 8 < unat t"
    using f(1) div_times_less_eq_dividend [of "unat f" 8] by linarith
  then have "unat f div 8 < (unat t + (8 - 1)) div 8" by (subst less_ceil_div) simp_all
  ultimately have "?a - 0 < (t + 7) div 8" using a by (simp add: word_less_nat_alt)
  then have "kmemset ram 0 0xFF ((t + 7) div 8) ?a = 255"
    by (subst kmemset_apply) simp
  moreover have "?k < 32" by simp
  ultimately show ?thesis by (simp only: frame_test_bit bit_read32 pmm.simps) (rule bit_255, simp)
qed

lemma boot_state_inv:
  fixes t :: u32
  assumes "unat t \<le> 2 ^ 20"
  shows "pmm_inv \<lparr>bitmap = kmemset ram 0 0xFF ((t + 7) div 8), total_frames = t, used_frames = t\<rparr>"
proof -
  have "used_set \<lparr>bitmap = kmemset ram 0 0xFF ((t + 7) div 8), total_frames = t, used_frames = t\<rparr>
      = {..<t}"
    using boot_bitmap_full [OF _ assms, of _ ram t] by (auto simp: used_set_def)
  then show ?thesis using assms by (simp add: pmm_inv_def card_lessThan_word)
qed

lemma unat_bitmap_addr:
  assumes "unat kernel_end + 4095 < 2 ^ 32"
  shows "unat (bitmap_addr_of kernel_end) = (unat kernel_end + 4095) div 4096 * 4096"
proof -
  have "kernel_end + PAGE_SIZE - 1 = kernel_end + 4095" "(PAGE_SIZE - 1 :: u32) = 4095" by simp_all
  then have "bitmap_addr_of kernel_end = (kernel_end + 4095) AND NOT 4095"
    by (simp only: bitmap_addr_of_def)
  moreover have "unat (kernel_end + 4095) = unat kernel_end + 4095"
    using assms by (subst unat32_plus) simp_all
  ultimately show ?thesis by (simp only: unat_page_floor)
qed

lemma claim_kernel_inv: "pmm_inv p \<Longrightarrow> pmm_inv (claim_kernel kernel_end n p)"
  by (simp add: claim_kernel_def mark_region_inv)

lemma claim_kernel_total [simp]: "total_frames (claim_kernel kernel_end n p) = total_frames p"
  by (simp add: claim_kernel_def)

text \<open>
  The kernel image, the first megabyte and the bitmap form one range from address 0, and
  \<open>claim_kernel\<close> marks exactly the frames that range touches.
\<close>

lemma claim_kernel_test:
  assumes f: "f < total_frames p" and ke: "0x100000 \<le> unat kernel_end" "unat kernel_end \<le> 0xF0000000"
    and n: "unat n \<le> 2 ^ 20"
  shows "frame_test f (claim_kernel kernel_end n p) \<longleftrightarrow>
    frame_test f p \<or> unat f * 4096 < unat (bitmap_addr_of kernel_end) + unat n \<or>
    unat f * 4096 < unat kernel_end"
proof -
  let ?b = "bitmap_addr_of kernel_end"
  have ks: "unat KERNEL_START = 0x100000" by (simp add: KERNEL_START_def)
  have kl: "unat (kernel_end - KERNEL_START) = unat kernel_end - 0x100000"
    using ke(1) ks by (subst unat_minus_le) (simp_all add: word_le_nat_alt)
  have b: "unat ?b = (unat kernel_end + 4095) div 4096 * 4096"
    using ke(2) by (intro unat_bitmap_addr) simp
  have b2: "unat kernel_end \<le> unat ?b" "unat ?b \<le> unat kernel_end + 4095"
    unfolding b using less_ceil_div [of 4096 "(unat kernel_end + 4095) div 4096" "unat kernel_end"]
      div_times_less_eq_dividend [of "unat kernel_end + 4095" 4096] by auto
  have bf: "unat ?b div 4096 \<le> unat f \<longleftrightarrow> unat kernel_end \<le> unat f * 4096"
    unfolding b using less_ceil_div [of 4096 "unat f" "unat kernel_end"] by auto
  have t1: "frame_test f (mark_region 0 KERNEL_START True p) \<longleftrightarrow>
      frame_test f p \<or> unat f * 4096 < 0x100000"
    using mark_region_test [of f p 0 KERNEL_START True] f ks by auto
  have t2: "frame_test f (mark_region KERNEL_START (kernel_end - KERNEL_START) True q) \<longleftrightarrow>
      frame_test f q \<or> (256 \<le> unat f \<and> unat f * 4096 < unat kernel_end)"
    if "f < total_frames q" for q
    using mark_region_test [of f q KERNEL_START "kernel_end - KERNEL_START" True] that ks kl ke by auto
  have t3: "frame_test f (mark_region ?b n True q) \<longleftrightarrow>
      frame_test f q \<or> (unat kernel_end \<le> unat f * 4096 \<and> unat f * 4096 < unat ?b + unat n)"
    if "f < total_frames q" for q
    using mark_region_test [of f q ?b n True] that b2 bf ke n by auto
  show ?thesis
    unfolding claim_kernel_def using f ke b2 by (simp add: t1 t2 t3) linarith
qed

section \<open>Sequences of operations\<close>

datatype pmm_op = Op_alloc | Op_allocs u32 | Op_free u32

fun pmm_exec :: "pmm_op \<Rightarrow> pmm \<Rightarrow> pmm" where
  "pmm_exec Op_alloc p = snd (pmm_alloc_frame p)"
| "pmm_exec (Op_allocs n) p = snd (pmm_alloc_frames n p)"
| "pmm_exec (Op_free a) p = pmm_free_frame a p"

lemma pmm_alloc_frame_inv: "pmm_inv p \<Longrightarrow> pmm_inv (snd (pmm_alloc_frame p))"
  by (cases rule: pmm_alloc_frame_cases [of p]) (simp_all add: pmm_inv_take)

lemma pmm_alloc_frame_total: "total_frames (snd (pmm_alloc_frame p)) = total_frames p"
  by (cases rule: pmm_alloc_frame_cases [of p]) simp_all

lemma pmm_alloc_frames_keeps:
  assumes "pmm_inv p"
  shows "pmm_inv (snd (pmm_alloc_frames n p)) \<and> total_frames (snd (pmm_alloc_frames n p)) = total_frames p"
proof (cases "n = 0")
  case True
  then show ?thesis using assms by (simp add: pmm_alloc_frames_def)
next
  case False
  then show ?thesis
    by (cases rule: pmm_alloc_frames_cases [of n p])
       (simp_all add: claim_run_owned(2,3) [OF assms] assms)
qed

lemma pmm_exec_keeps: "pmm_inv p \<Longrightarrow> pmm_inv (pmm_exec c p) \<and> total_frames (pmm_exec c p) = total_frames p"
  by (cases c) (simp_all add: pmm_alloc_frame_inv pmm_alloc_frame_total pmm_alloc_frames_keeps
      pmm_free_frame_inv)

lemma pmm_execs_keep:
  "pmm_inv p \<Longrightarrow> pmm_inv (fold pmm_exec cs p) \<and> total_frames (fold pmm_exec cs p) = total_frames p"
  by (induction cs arbitrary: p) (auto simp: pmm_exec_keeps)

lemma free_frames_count:
  assumes "pmm_inv p"
  shows "unat (pmm_free_frames p) = card {f. f < total_frames p \<and> \<not> frame_test f p}"
proof -
  have "unat (used_frames p) \<le> unat (total_frames p)"
    using assms used_set_bound [of p] by (simp add: pmm_inv_def)
  then have "unat (pmm_free_frames p) = unat (total_frames p) - card (used_set p)"
    using assms by (simp add: pmm_free_frames_def unat_minus_le word_le_nat_alt pmm_inv_def)
  also have "\<dots> = card ({..<total_frames p} - used_set p)"
    by (subst card_Diff_subset) (auto simp: used_set_def card_lessThan_word)
  also have "{..<total_frames p} - used_set p = {f. f < total_frames p \<and> \<not> frame_test f p}"
    by (auto simp: used_set_def)
  finally show ?thesis .
qed

lemma frame_clear_set:
  assumes "\<not> frame_test f p"
  shows "frame_clear f ((frame_set f p)\<lparr>used_frames := n\<rparr>) = p\<lparr>used_frames := n\<rparr>"
proof -
  let ?w = "read32 (bitmap p) (4 * (f div 32))" and ?b = "push_bit (unat (f mod 32)) 1 :: u32"
  have "\<not> bit ?w (unat (f mod 32))" using assms by (simp add: frame_test_bit unat_mod)
  then have "(?w OR ?b) AND NOT ?b = ?w"
    by (intro bit_word_eqI) (auto simp: bit_and_iff bit_or_iff bit_not_iff)
  then show ?thesis by (simp add: frame_clear_def frame_set_def)
qed

section \<open>Properties\<close>

lemma pmm_init_ok:
  assumes flag: "mb_flags mbi AND MULTIBOOT_INFO_MEM_MAP \<noteq> 0"
    and walk: "mmap_walk m mbi 0 es"
    and ke: "0x100000 \<le> unat kernel_end" "unat kernel_end \<le> 0xF0000000"
  shows "\<exists>p. pmm_init m kernel_end ram mbi = Some p \<and> pmm_inv p \<and>
    (\<forall>f < total_frames p.
       unat f * 4096 < unat (bitmap_addr_of kernel_end) + (unat (total_frames p) + 7) div 8
       \<longrightarrow> frame_test f p) \<and>
    (\<forall>f < total_frames p. \<not> frame_test f p \<longrightarrow> (\<exists>e \<in> set es. entry_touches e f))"
proof -
  define h where "h = fold raise_highest es 0"
  define highest :: u64 where "highest = (if h > 0xFFFFFFFF then 0xFFFFFFFF else h)"
  define t where "t = (ucast (highest div 4096) :: u32)"
  define n where "n = (t + 7) div 8"
  define p0 where "p0 = \<lparr>bitmap = kmemset ram 0 0xFF n, total_frames = t, used_frames = t\<rparr>"
  define p where "p = claim_kernel kernel_end n (fold free_entry es p0)"
  have "unat highest \<le> 4294967295" by (auto simp: highest_def word_less_nat_alt)
  then have "unat (highest div 4096) \<le> 1048575" by (simp add: unat_div)
  then have t: "unat t \<le> 2 ^ 20" by (simp add: t_def unat_ucast_down)
  have "unat (t + 7) = unat t + 7" using t by (subst unat32_plus) auto
  then have n: "unat n = (unat t + 7) div 8" by (simp add: n_def unat_div)
  have init: "pmm_init m kernel_end ram mbi = Some p"
    using flag by (simp add: pmm_init_def find_highest_walk [OF walk] free_available_walk [OF walk]
        Let_def h_def highest_def t_def n_def p0_def p_def)
  have inv: "pmm_inv p0" unfolding p0_def n_def by (rule boot_state_inv [OF t])
  have "n \<le> 2 ^ 20" using n t by (simp add: word_le_nat_alt)
  then have test: "frame_test f p \<longleftrightarrow> frame_test f (fold free_entry es p0) \<or>
      unat f * 4096 < unat (bitmap_addr_of kernel_end) + unat n \<or> unat f * 4096 < unat kernel_end"
    if "f < t" for f
    unfolding p_def using that ke n t by (intro claim_kernel_test) (simp_all add: p0_def)
  have tp: "total_frames p = t" by (simp add: p_def p0_def)
  have "frame_test f p0" if "f < t" for f
    unfolding p0_def n_def using that t by (rule boot_bitmap_full)
  then have "\<exists>e \<in> set es. entry_touches e f" if "f < t" "\<not> frame_test f p" for f
    using that test free_entries_touches [of f p0 es] by (auto simp: p0_def)
  moreover have "pmm_inv p" using inv by (simp add: p_def claim_kernel_inv fold_free_entry_inv)
  ultimately show ?thesis using init test tp n by auto
qed

definition example_memory :: bytes where
  "example_memory = write32 (write32 (write32 (\<lambda>_. 0) 0x1000 20) 0x100C 0x400000) 0x1014 1"

definition example_mbi :: multiboot_info where
  "example_mbi = \<lparr>mb_flags = 0x40, mem_lower = 0, mem_upper = 0, boot_device = 0, cmdline = 0,
     mods_count = 0, mods_addr = 0, syms = [], mmap_length = 24, mmap_addr = 0x1000\<rparr>"

text \<open>
  (C1) Booting on a memory map that can be walked to its end produces an allocator that is
  consistent (its counter is the number of used frames), that has every frame of the first
  megabyte, the kernel image and the bitmap marked used, and whose free frames all overlap memory
  the boot loader reported as available, in at least one byte; a free frame lies wholly inside that
  memory when the entry it overlaps is page aligned.
\<close>

theorem pmm_init_safe:
  assumes flag: "mb_flags mbi AND MULTIBOOT_INFO_MEM_MAP \<noteq> 0"
    and walk: "mmap_walk m mbi 0 es"
    and ke: "0x100000 \<le> unat kernel_end" "unat kernel_end \<le> 0xF0000000"
  shows "\<exists>p. pmm_init m kernel_end ram mbi = Some p \<and> pmm_inv p \<and>
    (\<forall>f < total_frames p.
       unat f * 4096 < unat (bitmap_addr_of kernel_end) + (unat (total_frames p) + 7) div 8
       \<longrightarrow> frame_test f p) \<and>
    (\<forall>f < total_frames p. \<not> frame_test f p \<longrightarrow>
       (\<exists>e \<in> set es. entry_touches e f \<and> (entry_aligned e \<longrightarrow> entry_covers e f)))"
proof -
  obtain p where p: "pmm_init m kernel_end ram mbi = Some p" "pmm_inv p"
    "\<forall>f < total_frames p. unat f * 4096 < unat (bitmap_addr_of kernel_end) + (unat (total_frames p) + 7) div 8
       \<longrightarrow> frame_test f p"
    "\<forall>f < total_frames p. \<not> frame_test f p \<longrightarrow> (\<exists>e \<in> set es. entry_touches e f)"
    using pmm_init_ok [OF assms, of ram] by blast
  have "\<exists>e \<in> set es. entry_touches e f \<and> (entry_aligned e \<longrightarrow> entry_covers e f)"
    if "f < total_frames p" "\<not> frame_test f p" for f
    using p(4) that aligned_touch_covers by metis
  then show ?thesis using p(1-3) by (intro exI [of _ p] conjI) simp_all
qed

theorem pmm_init_safe_witness:
  "\<exists>p. pmm_init example_memory 0x120000 (\<lambda>_. 0) example_mbi = Some p \<and> pmm_inv p \<and>
    (\<forall>f < total_frames p.
       unat f * 4096 < unat (bitmap_addr_of 0x120000) + (unat (total_frames p) + 7) div 8
       \<longrightarrow> frame_test f p) \<and>
    (\<forall>f < total_frames p. \<not> frame_test f p \<longrightarrow>
       (\<exists>e \<in> set [mmap_entry_at example_memory 0x1000]. entry_touches e f \<and> (entry_aligned e \<longrightarrow> entry_covers e f)))"
proof (rule pmm_init_safe)
  show "mb_flags example_mbi AND MULTIBOOT_INFO_MEM_MAP \<noteq> 0"
    by (simp add: example_mbi_def MULTIBOOT_INFO_MEM_MAP_def)
  show "mmap_walk example_memory example_mbi 0 [mmap_entry_at example_memory 0x1000]"
    by (simp add: example_mbi_def example_memory_def mmap_entry_at_def read32_def write32_def)
qed simp_all

text \<open>
  (C2) \<open>pmm_alloc_frame\<close> is first fit and total: if a frame is free it hands out the lowest free
  frame, page aligned, and marks that frame and no other; if none is free it returns 0 and changes
  nothing, and 0 is returned in no other case.
\<close>

theorem pmm_alloc_frame_first_fit:
  assumes "pmm_ok p" "pmm_alloc_frame p = (a, p')"
  shows "if \<exists>f < total_frames p. \<not> frame_test f p
    then a \<noteq> 0 \<and> pmm_ok p' \<and> (\<exists>f < total_frames p. a = f * PAGE_SIZE \<and> unat a = unat f * 4096 \<and>
           \<not> frame_test f p \<and> (\<forall>h < f. frame_test h p) \<and>
           (\<forall>g. frame_test g p' \<longleftrightarrow> g = f \<or> frame_test g p))
    else a = 0 \<and> p' = p"
proof (cases rule: pmm_alloc_frame_cases [of p])
  case (frame f)
  have inv: "pmm_inv p" using assms(1) by (simp add: pmm_ok_def)
  have a: "a = f * PAGE_SIZE" and p': "p' = (frame_set f p)\<lparr>used_frames := used_frames p + 1\<rparr>"
    using assms(2) frame(4) by auto
  have ua: "unat a = unat f * 4096" using a unat_frame_addr [OF inv frame(1)] by simp
  have "f \<noteq> 0" using assms(1) frame(2) by (rule frame_zero_not_free)
  then have "a \<noteq> 0" using ua by (metis mult_eq_0_iff unat_0 unat_eq_zero zero_neq_numeral)
  moreover have "pmm_ok p'" using pmm_alloc_some [OF assms \<open>a \<noteq> 0\<close>] by blast
  moreover have "frame_test g p' \<longleftrightarrow> g = f \<or> frame_test g p" for g by (simp add: p')
  ultimately show ?thesis using frame(1,2,3) a ua by auto
next
  case full
  then show ?thesis using assms(2) by auto
qed

definition example_pmm :: pmm where
  "example_pmm = \<lparr>bitmap = (\<lambda>_. 0)(0 := 3), total_frames = 4, used_frames = 2\<rparr>"

lemma less_4_word: "f < 4 \<longleftrightarrow> f = 0 \<or> f = 1 \<or> f = 2 \<or> f = (3 :: u32)"
proof -
  have "f < 4 \<longleftrightarrow> unat f < 4" by (simp add: word_less_nat_alt)
  also have "\<dots> \<longleftrightarrow> unat f = 0 \<or> unat f = 1 \<or> unat f = 2 \<or> unat f = 3" by presburger
  also have "\<dots> \<longleftrightarrow> f = 0 \<or> f = 1 \<or> f = 2 \<or> f = (3 :: u32)" by (simp add: word_unat_eq_iff)
  finally show ?thesis .
qed

lemma example_pmm_frames:
  "total_frames example_pmm = 4" "frame_test 0 example_pmm" "frame_test 1 example_pmm"
  "\<not> frame_test 2 example_pmm" "\<not> frame_test 3 example_pmm"
  by (simp_all add: example_pmm_def frame_test_def read32_def)

lemma example_pmm_used: "used_set example_pmm = {0, 1}"
  unfolding used_set_def using example_pmm_frames by (auto simp: less_4_word)

lemma example_pmm_ok: "pmm_ok example_pmm"
proof -
  have "card {0, 1 :: u32} = 2" by simp
  then show ?thesis by (simp add: pmm_ok_def pmm_inv_def example_pmm_used) (simp add: example_pmm_def)
qed

theorem pmm_alloc_frame_first_fit_witness:
  "fst (pmm_alloc_frame example_pmm) \<noteq> 0 \<and> pmm_ok (snd (pmm_alloc_frame example_pmm))"
proof -
  have "\<exists>f < total_frames example_pmm. \<not> frame_test f example_pmm"
    using example_pmm_frames by (intro exI [of _ 2]) simp
  then show ?thesis
    using pmm_alloc_frame_first_fit [OF example_pmm_ok, of "fst (pmm_alloc_frame example_pmm)"
        "snd (pmm_alloc_frame example_pmm)"] by simp
qed

text \<open>
  \<open>pmm_alloc_frames\<close> returns the lowest run of \<open>count\<close> consecutive free frames when there is
  one, marking exactly those frames, and returns 0 and changes nothing exactly when there is none:
  the one-pass sliding window misses no run.
\<close>

theorem pmm_alloc_frames_first_run:
  assumes "pmm_ok p" "count \<noteq> 0" "pmm_alloc_frames count p = (a, p')"
  shows "if \<exists>s. free_run p s (unat count)
    then a \<noteq> 0 \<and> pmm_ok p' \<and> (\<exists>s. unat a = s * 4096 \<and> free_run p s (unat count) \<and>
           (\<forall>t < s. \<not> free_run p t (unat count)) \<and>
           (\<forall>g. frame_test g p' \<longleftrightarrow> frame_test g p \<or> (s \<le> unat g \<and> unat g < s + unat count)))
    else a = 0 \<and> p' = p"
  using assms(2)
proof (cases rule: pmm_alloc_frames_cases [of count p])
  case (run s)
  have inv: "pmm_inv p" using assms(1) by (simp add: pmm_ok_def)
  note c = claim_run_owned [OF inv run(1)]
  have p': "p' = claim_run 0 count (word_of_nat s) p" and a: "a = word_of_nat s * PAGE_SIZE"
    using assms(3) run(3) by auto
  have "a \<noteq> 0"
    using pmm_allocs_none [OF assms(1), of count p'] assms(2,3) c(1) c(4) [of "word_of_nat s"]
      free_run_first [OF run(1)] by (auto simp: p' unat_gt_0)
  moreover have "word_of_nat s < total_frames p"
    using free_run_first [OF run(1)] c(1) assms(2) by (simp add: word_less_nat_alt unat_gt_0)
  then have "unat a = s * 4096" using unat_frame_addr [OF inv] a c(1) by simp
  moreover have "pmm_ok p'" using pmm_allocs_some [OF assms(1,3) \<open>a \<noteq> 0\<close>] by blast
  ultimately show ?thesis using run(1,2) c(4) p' by auto
next
  case none
  then show ?thesis using assms(3) by auto
qed

theorem pmm_alloc_frames_first_run_witness:
  "fst (pmm_alloc_frames 2 example_pmm) \<noteq> 0 \<and> pmm_ok (snd (pmm_alloc_frames 2 example_pmm))"
proof -
  have "free_run example_pmm 2 (unat (2 :: u32))"
    by (auto simp: free_run_def less_2_cases_iff example_pmm_def frame_test_def read32_def)
  then have "\<exists>s. free_run example_pmm s (unat (2 :: u32))" by blast
  then show ?thesis
    using pmm_alloc_frames_first_run [OF example_pmm_ok, of 2 "fst (pmm_alloc_frames 2 example_pmm)"
        "snd (pmm_alloc_frames 2 example_pmm)"] by simp
qed

text \<open>
  (C3) Whatever sequence of allocations and releases is performed, double releases and bogus
  addresses included, \<open>pmm_used_frames\<close> and \<open>pmm_free_frames\<close> report exactly the numbers of set
  and clear bits of the bitmap.
\<close>

theorem pmm_accounting:
  assumes "pmm_inv p"
  shows "unat (pmm_used_frames (fold pmm_exec cs p)) =
      card {f. f < total_frames p \<and> frame_test f (fold pmm_exec cs p)} \<and>
    unat (pmm_free_frames (fold pmm_exec cs p)) =
      card {f. f < total_frames p \<and> \<not> frame_test f (fold pmm_exec cs p)} \<and>
    pmm_total_frames (fold pmm_exec cs p) = total_frames p"
  using pmm_execs_keep [OF assms, of cs] free_frames_count [of "fold pmm_exec cs p"]
  by (auto simp: pmm_used_frames_def pmm_total_frames_def pmm_inv_def used_set_def)

theorem pmm_accounting_witness:
  "unat (pmm_used_frames (fold pmm_exec [Op_alloc, Op_free 0x5000, Op_allocs 2] example_pmm)) =
      card {f. f < total_frames example_pmm \<and>
        frame_test f (fold pmm_exec [Op_alloc, Op_free 0x5000, Op_allocs 2] example_pmm)}"
  using pmm_accounting [of example_pmm "[Op_alloc, Op_free 0x5000, Op_allocs 2]"] example_pmm_ok
  by (simp add: pmm_ok_def)

text \<open>
  Releasing the frame just allocated gives back the allocator bit for bit, counters included.
\<close>

theorem pmm_alloc_free_roundtrip:
  assumes "pmm_ok p" "pmm_alloc_frame p = (a, p')" "a \<noteq> 0"
  shows "pmm_free_frame a p' = p"
proof (cases rule: pmm_alloc_frame_cases [of p])
  case (frame f)
  have inv: "pmm_inv p" using assms(1) by (simp add: pmm_ok_def)
  have p': "p' = (frame_set f p)\<lparr>used_frames := used_frames p + 1\<rparr>" and a: "a = f * PAGE_SIZE"
    using assms(2) frame(4) by auto
  have "unat a = unat f * 4096" using a unat_frame_addr [OF inv frame(1)] by simp
  then have "unat (a div PAGE_SIZE) = unat f" by (simp add: unat_div)
  then have "a div PAGE_SIZE = f" by (simp add: word_unat_eq_iff)
  then show ?thesis
    using frame(1,2) by (simp add: pmm_free_frame_def p' frame_clear_set)
qed (use assms in simp)

theorem pmm_alloc_free_roundtrip_witness:
  "pmm_free_frame (fst (pmm_alloc_frame example_pmm)) (snd (pmm_alloc_frame example_pmm)) = example_pmm"
proof -
  have low: "frame_test h example_pmm" if "h < 2" for h
  proof -
    have "h < 4" using that by (rule order_less_trans) simp
    then show ?thesis using that example_pmm_frames by (auto simp: less_4_word)
  qed
  have "pmm_alloc_frame example_pmm = (2 * PAGE_SIZE,
      (frame_set 2 example_pmm)\<lparr>used_frames := used_frames example_pmm + 1\<rparr>)"
    unfolding pmm_alloc_frame_def using example_pmm_frames
    by (intro alloc_scan_free) (simp_all add: low)
  then show ?thesis
    using pmm_alloc_free_roundtrip [OF example_pmm_ok, of "2 * PAGE_SIZE"] by simp
qed

text \<open>
  An available region that reaches past the end of the 32-bit address space is clipped to end
  at \<open>0xFFFFFFFF\<close>, and rounding that end up to a page wraps to 0: \<open>pmm_init\<close> frees none of the
  region's frames.
\<close>

theorem free_entry_past_4g_lost:
  assumes "e_addr e < 0xFFFFFFFF" "e_addr e + e_len e > 0xFFFFFFFF"
  shows "free_entry e p = p"
proof -
  have "b + (0xFFFFFFFF - b) + PAGE_SIZE - 1 = 0xFFE" for b :: u32 by simp
  then have "(b + (0xFFFFFFFF - b) + PAGE_SIZE - 1) div PAGE_SIZE = 0" for b :: u32
    by (simp only:) simp
  then have "mark_region b (0xFFFFFFFF - b) False p = p" for b :: u32
    unfolding mark_region_def by (simp only:) (simp add: mark_loop.simps)
  then show ?thesis using assms by (simp add: free_entry_def Let_def)
qed

theorem free_entry_past_4g_lost_witness:
  "free_entry \<lparr>e_size = 20, e_addr = 0xE0000000, e_len = 0x40000000, e_type = 1\<rparr> example_pmm = example_pmm"
  by (rule free_entry_past_4g_lost) simp_all

end
