(* ===== verification/Kheap.thy ===== *)
theory Kheap
  imports Pmm
begin

text \<open>
  The kernel heap of \<open>mm/kheap.c\<close>.  The headers are a typed store from header addresses to
  \<open>struct block\<close>; the operations follow the source pointer by pointer.  Every loop over the
  list is a \<open>partial_function\<close>, so that a cyclic list would be visible as \<open>None\<close>.

  The abstract heap is a list of segments (payload size, free or not) that tiles the region.
  \<open>heap_rep\<close> relates it to the linked headers, and the two refinement lemmas show that
  \<open>kmalloc\<close> is first fit with splitting and \<open>kfree\<close> is release with coalescing on segment lists.
\<close>

section \<open>State and operations\<close>

record block =
  bmagic :: u32
  bsize :: u32
  bfree :: u32
  bnext :: u32
  bprev :: u32

record kheap =
  heap_start :: u32
  heap_bytes :: u32
  hdr :: "u32 \<Rightarrow> block"

definition HEAP_FRAMES :: u32 where
  "HEAP_FRAMES = 256"

definition HEAP_SIZE :: u32 where
  "HEAP_SIZE = HEAP_FRAMES * PAGE_SIZE"

definition BLOCK_MAGIC :: u32 where
  "BLOCK_MAGIC = 0xA47C0DE5"

definition ALIGNMENT :: u32 where
  "ALIGNMENT = 8"

definition ALIGN_UP :: "u32 \<Rightarrow> u32" where
  "ALIGN_UP n = (n + (ALIGNMENT - 1)) AND NOT (ALIGNMENT - 1)"

text \<open>\<open>sizeof(struct block)\<close> is five 32-bit fields.\<close>

definition HEADER_SIZE :: u32 where
  "HEADER_SIZE = ALIGN_UP 20"

definition payload_of :: "u32 \<Rightarrow> u32" where
  "payload_of b = b + HEADER_SIZE"

definition header_of :: "u32 \<Rightarrow> u32" where
  "header_of payload = payload - HEADER_SIZE"

text \<open>One assignment through a block pointer.\<close>

definition set_block :: "u32 \<Rightarrow> (block \<Rightarrow> block) \<Rightarrow> kheap \<Rightarrow> kheap" where
  "set_block b f h = h\<lparr>hdr := (hdr h)(b := f (hdr h b))\<rparr>"

definition kheap_init :: "pmm \<Rightarrow> kheap \<Rightarrow> kheap \<times> pmm" where
  "kheap_init p h =
     (case pmm_alloc_frames HEAP_FRAMES p of (base, p') \<Rightarrow>
        if base = 0 then (h, p')
        else (set_block base
                (\<lambda>b. b\<lparr>bmagic := BLOCK_MAGIC, bsize := HEAP_SIZE - HEADER_SIZE, bfree := 1,
                        bnext := 0, bprev := 0\<rparr>)
                (h\<lparr>heap_start := base, heap_bytes := HEAP_SIZE\<rparr>), p'))"

definition split :: "u32 \<Rightarrow> u32 \<Rightarrow> kheap \<Rightarrow> kheap" where
  "split b sz h =
     (if bsize (hdr h b) < sz + HEADER_SIZE + ALIGNMENT then h
      else
        let rest = payload_of b + sz;
            h1 = set_block rest
                   (\<lambda>r. r\<lparr>bmagic := BLOCK_MAGIC, bsize := bsize (hdr h b) - sz - HEADER_SIZE,
                           bfree := 1, bnext := bnext (hdr h b), bprev := b\<rparr>) h;
            h2 = (if bnext (hdr h1 b) \<noteq> 0
                  then set_block (bnext (hdr h1 b)) (\<lambda>n. n\<lparr>bprev := rest\<rparr>) h1 else h1)
        in set_block b (\<lambda>x. x\<lparr>bnext := rest, bsize := sz\<rparr>) h2)"

text \<open>The walk of \<open>kmalloc\<close>: the first free block that is big enough, 0 at the end of the list.\<close>

partial_function (option) kmalloc_walk :: "(u32 \<Rightarrow> block) \<Rightarrow> u32 \<Rightarrow> u32 \<Rightarrow> u32 option" where
  [code]: "kmalloc_walk H sz b =
     (if b = 0 then Some 0
      else if bfree (H b) \<noteq> 0 \<and> sz \<le> bsize (H b) then Some b
      else kmalloc_walk H sz (bnext (H b)))"

definition kmalloc :: "u32 \<Rightarrow> kheap \<Rightarrow> (u32 \<times> kheap) option" where
  "kmalloc sz h =
     (if heap_start h = 0 \<or> sz = 0 then Some (0, h)
      else
        let sz = ALIGN_UP sz
        in case kmalloc_walk (hdr h) sz (heap_start h) of
             None \<Rightarrow> None
           | Some b \<Rightarrow>
               if b = 0 then Some (0, h)
               else Some (payload_of b, set_block b (\<lambda>x. x\<lparr>bfree := 0\<rparr>) (split b sz h)))"

definition merge_with_next :: "u32 \<Rightarrow> kheap \<Rightarrow> kheap" where
  "merge_with_next b h =
     (let n = bnext (hdr h b)
      in if n = 0 \<or> bfree (hdr h n) = 0 \<or> bfree (hdr h b) = 0 then h
         else
           let h1 = set_block b (\<lambda>x. x\<lparr>bsize := bsize x + (HEADER_SIZE + bsize (hdr h n)),
                                        bnext := bnext (hdr h n)\<rparr>) h;
               h2 = (if bnext (hdr h1 n) \<noteq> 0
                     then set_block (bnext (hdr h1 n)) (\<lambda>x. x\<lparr>bprev := b\<rparr>) h1 else h1)
           in set_block n (\<lambda>x. x\<lparr>bmagic := 0\<rparr>) h2)"

definition kfree :: "u32 \<Rightarrow> kheap \<Rightarrow> kheap" where
  "kfree ptr h =
     (if ptr = 0 then h
      else
        let b = header_of ptr
        in if bmagic (hdr h b) \<noteq> BLOCK_MAGIC then h
           else if bfree (hdr h b) \<noteq> 0 then h
           else
             let h1 = merge_with_next b (set_block b (\<lambda>x. x\<lparr>bfree := 1\<rparr>) h);
                 prv = bprev (hdr h1 b)
             in if prv \<noteq> 0 \<and> bfree (hdr h1 prv) \<noteq> 0 then merge_with_next prv h1 else h1)"

partial_function (option) stats_walk ::
  "(u32 \<Rightarrow> block) \<Rightarrow> u32 \<Rightarrow> u32 \<Rightarrow> u32 \<Rightarrow> (u32 \<times> u32) option" where
  [code]: "stats_walk H b u n =
     (if b = 0 then Some (u, n)
      else stats_walk H (bnext (H b))
             (if bfree (H b) = 0 then u + (HEADER_SIZE + bsize (H b)) else u) (n + 1))"

definition kheap_stats :: "kheap \<Rightarrow> (u32 \<times> u32 \<times> u32) option" where
  "kheap_stats h =
     (case stats_walk (hdr h) (heap_start h) 0 0 of
        None \<Rightarrow> None
      | Some (u, n) \<Rightarrow> Some (heap_bytes h, u, n))"

section \<open>The abstract heap: a list of segments\<close>

type_synonym seg = "nat \<times> bool"

definition span :: "seg list \<Rightarrow> nat" where
  "span ss = (\<Sum>s\<leftarrow>ss. 24 + fst s)"

lemma span_simps [simp]:
  "span [] = 0" "span (s # ss) = 24 + fst s + span ss" "span (xs @ ys) = span xs + span ys"
  by (simp_all add: span_def)

definition seg_fits :: "nat \<Rightarrow> seg \<Rightarrow> bool" where
  "seg_fits n s \<longleftrightarrow> snd s \<and> n \<le> fst s"

definition seg_split :: "nat \<Rightarrow> nat \<Rightarrow> seg list" where
  "seg_split n m = (if m < n + 32 then [(m, False)] else [(n, False), (m - n - 24, True)])"

text \<open>First fit: the offset of the chosen header and the segments afterwards.\<close>

definition seg_alloc :: "nat \<Rightarrow> seg list \<Rightarrow> (nat \<times> seg list) option" where
  "seg_alloc n ss =
     (case dropWhile (\<lambda>s. \<not> seg_fits n s) ss of
        [] \<Rightarrow> None
      | s # ys \<Rightarrow>
          let xs = takeWhile (\<lambda>s. \<not> seg_fits n s) ss
          in Some (span xs, xs @ seg_split n (fst s) @ ys))"

fun seg_join :: "seg list \<Rightarrow> seg list" where
  "seg_join ((m, True) # (n, True) # ss) = (m + (24 + n), True) # ss"
| "seg_join ss = ss"

definition seg_free :: "seg list \<Rightarrow> nat \<Rightarrow> seg list \<Rightarrow> seg list" where
  "seg_free xs m ys =
     (let tail = seg_join ((m, True) # ys)
      in if xs \<noteq> [] \<and> snd (last xs) then butlast xs @ seg_join (last xs # tail) else xs @ tail)"

fun coalesced :: "seg list \<Rightarrow> bool" where
  "coalesced (s # t # ss) \<longleftrightarrow> \<not> (snd s \<and> snd t) \<and> coalesced (t # ss)"
| "coalesced _ \<longleftrightarrow> True"

text \<open>
  The headers from address \<open>a\<close> describe the segments: magic, size, state, the link back to \<open>p\<close>
  and the link forward, which after the final segment is \<open>q\<close>.
\<close>

fun tiles :: "(u32 \<Rightarrow> block) \<Rightarrow> u32 \<Rightarrow> nat \<Rightarrow> seg list \<Rightarrow> u32 \<Rightarrow> bool" where
  "tiles H p a [] q \<longleftrightarrow> True"
| "tiles H p a (s # ss) q \<longleftrightarrow>
     bmagic (H (word_of_nat a)) = BLOCK_MAGIC \<and>
     unat (bsize (H (word_of_nat a))) = fst s \<and>
     (bfree (H (word_of_nat a)) \<noteq> 0) = snd s \<and>
     bprev (H (word_of_nat a)) = p \<and>
     bnext (H (word_of_nat a)) = (if ss = [] then q else word_of_nat (a + (24 + fst s))) \<and>
     8 dvd fst s \<and>
     tiles H (word_of_nat a) (a + (24 + fst s)) ss q"

definition heap_rep :: "kheap \<Rightarrow> seg list \<Rightarrow> bool" where
  "heap_rep h ss \<longleftrightarrow>
     heap_start h \<noteq> 0 \<and> unat (heap_start h) mod 8 = 0 \<and> heap_bytes h = HEAP_SIZE \<and>
     unat (heap_start h) + 1048576 \<le> 4294967296 \<and> span ss = 1048576 \<and>
     tiles (hdr h) 0 (unat (heap_start h)) ss 0"

lemma heap_consts [simp]:
  "HEADER_SIZE = 24" "HEAP_SIZE = 1048576" "HEAP_FRAMES = 256" "ALIGNMENT = 8"
  by (simp_all add: HEADER_SIZE_def ALIGN_UP_def ALIGNMENT_def HEAP_SIZE_def HEAP_FRAMES_def)

section \<open>Segments and headers\<close>

lemma addr_eq [simp]:
  "a < 4294967296 \<Longrightarrow> b < 4294967296 \<Longrightarrow> (word_of_nat a :: u32) = word_of_nat b \<longleftrightarrow> a = b"
  by (metis unat32_of_nat)

lemma addr_neq_0: "0 < a \<Longrightarrow> a < 4294967296 \<Longrightarrow> (word_of_nat a :: u32) \<noteq> 0"
  by (metis unat32_of_nat unat_0 less_numeral_extra(3))

definition last_addr :: "u32 \<Rightarrow> nat \<Rightarrow> seg list \<Rightarrow> u32" where
  "last_addr p a xs = (if xs = [] then p else word_of_nat (a + span (butlast xs)))"

lemma last_addr_simps [simp]:
  "last_addr p a [] = p" "last_addr p a (xs @ [s]) = word_of_nat (a + span xs)"
  "last_addr p a (s # xs) = last_addr (word_of_nat a) (a + (24 + fst s)) xs"
  by (auto simp: last_addr_def add_ac)

lemma tiles_append:
  "tiles H p a (xs @ ys) q \<longleftrightarrow>
     tiles H p a xs (if ys = [] then q else word_of_nat (a + span xs)) \<and>
     tiles H (last_addr p a xs) (a + span xs) ys q"
proof (induction xs arbitrary: p a)
  case (Cons s xs)
  show ?case
    using Cons.IH [of "word_of_nat a" "a + (24 + fst s)"]
    by (cases "xs = []"; cases "ys = []") (simp_all add: add.assoc del: of_nat_add)
qed simp

lemma tiles_cong:
  assumes "\<And>x. a \<le> x \<Longrightarrow> x < a + span ss \<Longrightarrow> H' (word_of_nat x) = H (word_of_nat x)"
  shows "tiles H' p a ss q = tiles H p a ss q"
  using assms
proof (induction ss arbitrary: p a)
  case (Cons s ss)
  have "tiles H' (word_of_nat a) (a + (24 + fst s)) ss q =
      tiles H (word_of_nat a) (a + (24 + fst s)) ss q"
    by (rule Cons.IH) (rule Cons.prems, auto)
  moreover have "H' (word_of_nat a) = H (word_of_nat a)" by (rule Cons.prems) auto
  ultimately show ?case by (simp del: of_nat_add)
qed simp

lemma tiles_upd [simp]:
  assumes "y < a \<or> a + span ss \<le> y" "y < 4294967296" "a + span ss \<le> 4294967296"
  shows "tiles (H(word_of_nat y := v)) p a ss q = tiles H p a ss q"
  by (rule tiles_cong) (use assms in auto)

text \<open>\<open>if (n) n->prev = r\<close>, where \<open>n\<close> is the first header of a tiled tail.\<close>

definition link_prev :: "u32 \<Rightarrow> u32 \<Rightarrow> (u32 \<Rightarrow> block) \<Rightarrow> (u32 \<Rightarrow> block)" where
  "link_prev n r H = (if n \<noteq> 0 then H(n := (H n)\<lparr>bprev := r\<rparr>) else H)"

lemma tiles_link_prev:
  assumes "tiles H p a ss 0" "0 < a" "a + span ss \<le> 4294967296"
  shows "tiles (link_prev (if ss = [] then 0 else word_of_nat a) r H) r a ss 0"
proof (cases ss)
  case (Cons s ss')
  have "a < 4294967296" using assms Cons by simp
  then show ?thesis
    using assms Cons by (auto simp: link_prev_def addr_neq_0 simp del: of_nat_add)
qed simp

lemma link_prev_other:
  assumes "x < a" "a \<le> 4294967296" "ss \<noteq> [] \<Longrightarrow> a < 4294967296"
  shows "link_prev (if ss = [] then 0 else word_of_nat a) r H (word_of_nat x) = H (word_of_nat x)"
  using assms by (auto simp: link_prev_def)

lemma tiles_link_prev_other:
  assumes "b + span xs \<le> a" "a + span ss \<le> 4294967296"
  shows "tiles (link_prev (if ss = [] then 0 else word_of_nat a) r H) p b xs q = tiles H p b xs q"
proof (rule tiles_cong)
  fix x
  assume x: "x < b + span xs"
  have "a < 4294967296" if "ss \<noteq> []" using that assms(2) by (cases ss) auto
  then show "link_prev (if ss = [] then 0 else word_of_nat a) r H (word_of_nat x) = H (word_of_nat x)"
    using assms x by (intro link_prev_other) auto
qed

lemma kmalloc_walk_spec:
  assumes "tiles H p a ss 0" "0 < a" "a + span ss \<le> 4294967296"
  shows "kmalloc_walk H n (if ss = [] then 0 else word_of_nat a) =
    Some (if dropWhile (\<lambda>s. \<not> seg_fits (unat n) s) ss = [] then 0
          else word_of_nat (a + span (takeWhile (\<lambda>s. \<not> seg_fits (unat n) s) ss)))"
  using assms
proof (induction ss arbitrary: p a)
  case Nil
  then show ?case by (simp add: kmalloc_walk.simps)
next
  case (Cons s ss)
  have a: "(word_of_nat a :: u32) \<noteq> 0" using Cons.prems by (intro addr_neq_0) auto
  have fits: "(bfree (H (word_of_nat a)) \<noteq> 0 \<and> n \<le> bsize (H (word_of_nat a))) = seg_fits (unat n) s"
    using Cons.prems by (simp add: seg_fits_def word_le_nat_alt)
  show ?case
  proof (cases "seg_fits (unat n) s")
    case True
    then show ?thesis using a fits by (simp add: kmalloc_walk.simps)
  next
    case False
    have nx: "bnext (H (word_of_nat a)) = (if ss = [] then 0 else word_of_nat (a + (24 + fst s)))"
      using Cons.prems(1) by simp
    have "kmalloc_walk H n (word_of_nat a) =
        kmalloc_walk H n (if ss = [] then 0 else word_of_nat (a + (24 + fst s)))"
      by (subst kmalloc_walk.simps) (simp only: False a fits nx if_False)
    also have "\<dots> = Some (if dropWhile (\<lambda>s. \<not> seg_fits (unat n) s) ss = [] then 0
          else word_of_nat (a + (24 + fst s) + span (takeWhile (\<lambda>s. \<not> seg_fits (unat n) s) ss)))"
      using Cons.prems by (intro Cons.IH [of "word_of_nat a"]) auto
    finally show ?thesis using False by (simp add: add_ac del: of_nat_add)
  qed
qed

lemma tiles_replace:
  assumes "tiles H p a (xs @ ys) q" "ys \<noteq> []" "ys' \<noteq> []"
    and "tiles H' (last_addr p a xs) (a + span xs) ys' q"
    and "\<And>x. x < a + span xs \<Longrightarrow> H' (word_of_nat x) = H (word_of_nat x)"
  shows "tiles H' p a (xs @ ys') q"
  using assms tiles_cong [of a xs H' H] by (simp add: tiles_append del: of_nat_add)

lemma block_fields_set [simp]:
  "b\<lparr>bmagic := m, bsize := n, bfree := f, bnext := x, bprev := y\<rparr> =
     \<lparr>bmagic = m, bsize = n, bfree = f, bnext = x, bprev = y\<rparr>" for b :: block
  by (cases b) simp

lemma hdr_set_block [simp]:
  "hdr (set_block b f h) = (hdr h)(b := f (hdr h b))"
  "heap_start (set_block b f h) = heap_start h" "heap_bytes (set_block b f h) = heap_bytes h"
  by (simp_all add: set_block_def)

lemma split_globals [simp]:
  "heap_start (split b n h) = heap_start h" "heap_bytes (split b n h) = heap_bytes h"
  by (simp_all add: split_def Let_def)

lemma merge_globals [simp]:
  "heap_start (merge_with_next b h) = heap_start h" "heap_bytes (merge_with_next b h) = heap_bytes h"
  by (simp_all add: merge_with_next_def Let_def)

lemma hdr_split:
  assumes "\<not> bsize (hdr h b) < sz + 24 + 8" "b + 24 + sz \<noteq> b"
  shows "hdr (split b sz h) =
    (let H = link_prev (bnext (hdr h b)) (b + 24 + sz)
           ((hdr h)(b + 24 + sz := \<lparr>bmagic = BLOCK_MAGIC, bsize = bsize (hdr h b) - sz - 24,
              bfree = 1, bnext = bnext (hdr h b), bprev = b\<rparr>))
     in H(b := (H b)\<lparr>bnext := b + 24 + sz, bsize := sz\<rparr>))"
  using assms by (simp add: split_def Let_def link_prev_def payload_of_def)

lemma split_tiles:
  assumes t: "tiles (hdr h) p a ((m, True) # ys) 0" and "0 < a" "a + (24 + m + span ys) \<le> 4294967296"
    and m: "m \<le> 1048576" and n: "unat sz \<le> m" "8 dvd unat sz"
  shows "tiles (hdr (set_block (word_of_nat a) (\<lambda>x. x\<lparr>bfree := 0\<rparr>) (split (word_of_nat a) sz h)))
           p a (seg_split (unat sz) m @ ys) 0"
    and "x < a \<Longrightarrow>
      hdr (set_block (word_of_nat a) (\<lambda>x. x\<lparr>bfree := 0\<rparr>) (split (word_of_nat a) sz h)) (word_of_nat x)
        = hdr h (word_of_nat x)"
proof -
  let ?b = "word_of_nat a :: u32" and ?T = "a + (24 + m)"
  have small: "(bsize (hdr h ?b) < sz + 24 + 8) = (m < unat sz + 32)"
  proof -
    have "unat (sz + 24 + 8) = unat sz + 32" using m n by (simp add: unat32_plus)
    then show ?thesis using t unfolding word_less_nat_alt by simp
  qed
  have nx: "bnext (hdr h ?b) = (if ys = [] then 0 else word_of_nat ?T)" using t by simp
  have "tiles (hdr (set_block ?b (\<lambda>x. x\<lparr>bfree := 0\<rparr>) (split ?b sz h))) p a (seg_split (unat sz) m @ ys) 0
    \<and> (x < a \<longrightarrow> hdr (set_block ?b (\<lambda>x. x\<lparr>bfree := 0\<rparr>) (split ?b sz h)) (word_of_nat x)
        = hdr h (word_of_nat x))"
  proof (cases "m < unat sz + 32")
    case True
    then show ?thesis
      using assms small by (simp add: split_def seg_split_def del: of_nat_add)
  next
    case False
    define r where "r = a + (24 + unat sz)"
    have r: "?b + 24 + sz = word_of_nat r" by (simp add: r_def add.assoc)
    have r_less: "a < r" "r + 32 \<le> ?T" "r < 4294967296" using False assms(3) by (auto simp: r_def)
    have k8: "8 dvd m - unat sz - 24" using t n(2) False by (auto intro!: dvd_diff_nat)
    have k: "unat (bsize (hdr h ?b) - sz - 24) = m - unat sz - 24"
    proof -
      have "sz \<le> bsize (hdr h ?b)" using t n by (simp add: word_le_nat_alt)
      then have "unat (bsize (hdr h ?b) - sz) = m - unat sz" using t by (simp add: unat_minus_le)
      then show ?thesis using False by (simp add: unat_minus_le word_le_nat_alt)
    qed
    have addrs: "a + (24 + unat sz) = r" "r + (24 + (m - unat sz - 24)) = ?T"
      using False by (simp_all add: r_def)
    define H1 where "H1 = (hdr h)(word_of_nat r := \<lparr>bmagic = BLOCK_MAGIC,
        bsize = bsize (hdr h ?b) - sz - 24, bfree = 1, bnext = bnext (hdr h ?b), bprev = ?b\<rparr>)"
    define H2 where "H2 = link_prev (bnext (hdr h ?b)) (word_of_nat r) H1"
    define H3 where "H3 = H2(?b := (H2 ?b)\<lparr>bnext := word_of_nat r, bsize := sz, bfree := 0\<rparr>)"
    have H2: "H2 (word_of_nat y) = H1 (word_of_nat y)" if "y < ?T" for y
      unfolding H2_def nx by (rule link_prev_other) (use that assms(3) in \<open>auto simp: neq_Nil_conv\<close>)
    have H3: "hdr (set_block ?b (\<lambda>x. x\<lparr>bfree := 0\<rparr>) (split ?b sz h)) = H3"
      using hdr_split [of h ?b sz] small False r_less unfolding r H3_def H2_def H1_def Let_def by simp
    have "tiles H1 ?b ?T ys 0" using t assms(3) r_less by (simp add: H1_def del: of_nat_add)
    then have "tiles H2 (word_of_nat r) ?T ys 0"
      unfolding H2_def nx using assms(3) by (intro tiles_link_prev) auto
    then have "tiles H3 (word_of_nat r) ?T ys 0" using assms(3) by (simp add: H3_def del: of_nat_add)
    moreover have "H3 ?b = (hdr h ?b)\<lparr>bnext := word_of_nat r, bsize := sz, bfree := 0\<rparr>"
      using H2 [of a] r_less by (simp add: H3_def H1_def)
    moreover have "H3 (word_of_nat r) = H1 (word_of_nat r)"
      using H2 [of r] r_less by (simp add: H3_def)
    ultimately have "tiles H3 p a ((unat sz, False) # (m - unat sz - 24, True) # ys) 0"
      using t k k8 n(2) unfolding tiles.simps fst_conv snd_conv addrs by (simp add: H1_def del: of_nat_add)
    moreover have "x < a \<longrightarrow> H3 (word_of_nat x) = hdr h (word_of_nat x)"
      using H2 [of x] r_less by (simp add: H3_def H1_def)
    ultimately show ?thesis unfolding H3 using False by (simp add: seg_split_def)
  qed
  then show "tiles (hdr (set_block ?b (\<lambda>x. x\<lparr>bfree := 0\<rparr>) (split ?b sz h))) p a (seg_split (unat sz) m @ ys) 0"
    and "x < a \<Longrightarrow> hdr (set_block ?b (\<lambda>x. x\<lparr>bfree := 0\<rparr>) (split ?b sz h)) (word_of_nat x)
        = hdr h (word_of_nat x)" by simp_all
qed

lemma hdr_merge:
  assumes "bnext (hdr h b) = n" "n \<noteq> 0" "bfree (hdr h n) \<noteq> 0" "bfree (hdr h b) \<noteq> 0" "n \<noteq> b"
  shows "hdr (merge_with_next b h) =
    (let H = link_prev (bnext (hdr h n)) b
           ((hdr h)(b := (hdr h b)\<lparr>bsize := bsize (hdr h b) + (24 + bsize (hdr h n)),
                                     bnext := bnext (hdr h n)\<rparr>))
     in H(n := (H n)\<lparr>bmagic := 0\<rparr>))"
  using assms by (simp add: merge_with_next_def Let_def link_prev_def)

lemma merge_tiles:
  assumes t: "tiles (hdr h) p a (s # ys) 0" and "0 < a" "a + (24 + fst s + span ys) \<le> 4294967296"
  shows "tiles (hdr (merge_with_next (word_of_nat a) h)) p a (seg_join (s # ys)) 0 \<and>
    (\<forall>x<a. hdr (merge_with_next (word_of_nat a) h) (word_of_nat x) = hdr h (word_of_nat x))"
proof (cases "snd s \<and> ys \<noteq> [] \<and> snd (hd ys)")
  case False
  then have "merge_with_next (word_of_nat a) h = h"
    using t by (cases ys) (auto simp: merge_with_next_def Let_def simp del: of_nat_add)
  moreover have "seg_join (s # ys) = s # ys"
    using False by (cases "s # ys" rule: seg_join.cases) auto
  ultimately show ?thesis using t by simp
next
  case True
  then obtain m n zs where s: "s = (m, True)" and ys: "ys = (n, True) # zs"
    by (cases s; cases ys) auto
  let ?b = "word_of_nat a :: u32" and ?T = "a + (24 + (m + (24 + n)))"
  define c where "c = a + (24 + m)"
  define H1 where "H1 = (hdr h)(?b := (hdr h ?b)\<lparr>
      bsize := bsize (hdr h ?b) + (24 + bsize (hdr h (word_of_nat c))),
      bnext := bnext (hdr h (word_of_nat c))\<rparr>)"
  define H2 where "H2 = link_prev (if zs = [] then 0 else word_of_nat ?T) ?b H1"
  define H3 where "H3 = H2(word_of_nat c := (H2 (word_of_nat c))\<lparr>bmagic := 0\<rparr>)"
  have bound: "a < c" "c + 24 + n = ?T" "?T + span zs \<le> 4294967296" "c < 4294967296"
    using assms(3) by (auto simp: c_def s ys)
  have tc: "bnext (hdr h ?b) = word_of_nat c" "bfree (hdr h ?b) \<noteq> 0"
    "unat (bsize (hdr h ?b)) = m" "unat (bsize (hdr h (word_of_nat c))) = n" "8 dvd m" "8 dvd n"
    "bfree (hdr h (word_of_nat c)) \<noteq> 0" "tiles (hdr h) (word_of_nat c) ?T zs 0"
    and nx: "bnext (hdr h (word_of_nat c)) = (if zs = [] then 0 else word_of_nat ?T)"
    using t unfolding s ys tiles.simps fst_conv snd_conv c_def [symmetric] by (auto simp: c_def add_ac)
  have c0: "(word_of_nat c :: u32) \<noteq> 0" "(word_of_nat c :: u32) \<noteq> ?b"
    using addr_neq_0 [of c] addr_eq [of c a] bound(1,4) by (simp_all del: addr_eq)
  have "hdr (merge_with_next ?b h) = H3"
    using tc nx c0 unfolding H3_def H2_def H1_def
    by (subst hdr_merge [where n = "word_of_nat c"]) (simp_all add: Let_def)
  moreover have H2: "H2 (word_of_nat y) = H1 (word_of_nat y)" if "y < ?T" for y
    unfolding H2_def by (rule link_prev_other) (use that bound in \<open>auto simp: neq_Nil_conv\<close>)
  moreover have "tiles H1 (word_of_nat c) ?T zs 0"
    using tc bound by (simp add: H1_def del: of_nat_add)
  then have "tiles H2 ?b ?T zs 0" unfolding H2_def using bound by (intro tiles_link_prev) auto
  then have "tiles H3 ?b ?T zs 0" using bound by (simp add: H3_def del: of_nat_add)
  moreover have "unat (bsize (hdr h ?b) + (24 + bsize (hdr h (word_of_nat c)))) = m + (24 + n)"
    using tc bound by (simp add: unat32_plus)
  ultimately show ?thesis
    using t tc nx bound c0 H2 [of a] unfolding s ys
    by (simp add: H3_def H1_def del: of_nat_add)
qed

text \<open>Allocation and release at the level of the headers.\<close>

lemma ALIGN_UP_nat:
  assumes "n \<le> 0xFFFFFFF8"
  shows "unat (ALIGN_UP n) = (unat n + 7) div 8 * 8"
proof -
  have "(n + 7) AND NOT 7 = push_bit 3 (drop_bit 3 (n + 7))"
    using and_not_mask_shift [of "n + 7" 3] by (simp add: mask_eq_exp_minus_1)
  moreover have 1: "unat (n + 7) = unat n + 7" using assms by (simp add: word_le_nat_alt unat32_plus)
  moreover have "unat (drop_bit 3 (n + 7) * 2 ^ 3) = (unat n + 7) div 8 * 8"
  proof -
    have "unat (drop_bit 3 (n + 7)) = (unat n + 7) div 8"
      by (simp only: drop_bit_eq_div unat_div 1) simp
    moreover have "(unat n + 7) div 8 * 8 \<le> unat (n + 7)" using 1 by simp
    ultimately show ?thesis using unat32_lt [of "n + 7"] by (subst unat32_mult) simp_all
  qed
  ultimately show ?thesis by (simp add: ALIGN_UP_def push_bit_eq_mult)
qed

lemma ALIGN_UP_dvd: "8 dvd unat (ALIGN_UP n)"
proof -
  have "ALIGN_UP n = drop_bit 3 (n + 7) * 8"
    using and_not_mask_shift [of "n + 7" 3]
    by (simp add: mask_eq_exp_minus_1 ALIGN_UP_def push_bit_eq_mult)
  then have "unat (ALIGN_UP n) = unat (drop_bit 3 (n + 7)) * 8 mod (8 * 536870912)"
    by (simp add: unat_word_ariths)
  then show ?thesis by (metis dvd_triv_left dvd_triv_right dvd_mod)
qed

lemma seg_alloc_SomeE:
  assumes "seg_alloc n ss = Some (d, ss')"
  obtains xs m ys where "ss = xs @ (m, True) # ys" "\<forall>s\<in>set xs. \<not> seg_fits n s" "n \<le> m"
    "d = span xs" "ss' = xs @ seg_split n m @ ys"
proof -
  let ?P = "\<lambda>s. \<not> seg_fits n s"
  obtain s ys where d: "dropWhile ?P ss = s # ys"
    using assms by (auto simp: seg_alloc_def split: list.splits)
  moreover have "\<not> ?P s" using d by (metis hd_dropWhile list.sel(1) list.discI)
  moreover have "ss = takeWhile ?P ss @ s # ys" using d takeWhile_dropWhile_id [of ?P ss] by simp
  ultimately show ?thesis
    using assms that [of "takeWhile ?P ss" "fst s" ys] set_takeWhileD [of _ ?P ss]
    by (cases s) (auto simp: seg_alloc_def Let_def seg_fits_def)
qed

lemma seg_alloc_None: "seg_alloc n ss = None \<longleftrightarrow> (\<forall>s\<in>set ss. \<not> seg_fits n s)"
  using dropWhile_eq_Nil_conv [of "\<lambda>s. \<not> seg_fits n s" ss]
  by (auto simp: seg_alloc_def Let_def split: list.splits simp del: dropWhile_eq_Nil_conv)

lemma seg_split_ne [simp]: "seg_split n m \<noteq> []"
  by (simp add: seg_split_def)

lemma span_seg_split [simp]: "n \<le> m \<Longrightarrow> span (seg_split n m) = 24 + m"
  by (simp add: seg_split_def)

lemma heap_rep_nonempty: "heap_rep h ss \<Longrightarrow> ss \<noteq> [] \<and> 0 < unat (heap_start h)"
  by (auto simp: heap_rep_def unat_gt_0)

lemma kmalloc_rep:
  assumes rep: "heap_rep h ss" and "sz \<noteq> 0"
  obtains (full) "seg_alloc (unat (ALIGN_UP sz)) ss = None" "kmalloc sz h = Some (0, h)"
  | (block) d ss' h' where "seg_alloc (unat (ALIGN_UP sz)) ss = Some (d, ss')"
      "kmalloc sz h = Some (word_of_nat (unat (heap_start h) + d + 24), h')"
      "heap_rep h' ss'" "heap_start h' = heap_start h"
proof -
  let ?n = "ALIGN_UP sz" and ?a = "unat (heap_start h)"
  let ?P = "\<lambda>s. \<not> seg_fits (unat ?n) s"
  have ne: "ss \<noteq> []" "0 < ?a" using heap_rep_nonempty [OF rep] by auto
  have t: "tiles (hdr h) 0 ?a ss 0" "span ss = 1048576" "?a + 1048576 \<le> 4294967296"
    using rep by (simp_all add: heap_rep_def)
  have walk: "kmalloc_walk (hdr h) ?n (heap_start h) =
      Some (if dropWhile ?P ss = [] then 0 else word_of_nat (?a + span (takeWhile ?P ss)))"
    using kmalloc_walk_spec [OF t(1), of ?n] ne t by simp
  show thesis
  proof (cases "seg_alloc (unat ?n) ss")
    case None
    then have "dropWhile ?P ss = []" by (simp add: seg_alloc_None dropWhile_eq_Nil_conv)
    then show thesis using walk assms None full by (simp add: kmalloc_def)
  next
    case (Some r)
    then obtain d ss' where r: "seg_alloc (unat ?n) ss = Some (d, ss')" by (cases r) auto
    then obtain xs m ys where s: "ss = xs @ (m, True) # ys" "\<forall>s\<in>set xs. ?P s" "unat ?n \<le> m"
      "d = span xs" "ss' = xs @ seg_split (unat ?n) m @ ys" by (rule seg_alloc_SomeE)
    have "seg_fits (unat ?n) (m, True)" using s(3) by (simp add: seg_fits_def)
    then have dw: "dropWhile ?P ss \<noteq> []" "takeWhile ?P ss = xs"
      using s(1,2) by (auto simp: takeWhile_append2)
    define A where "A = ?a + span xs"
    have A: "0 < A" "A + (24 + m + span ys) \<le> 4294967296" "m \<le> 1048576"
      using ne t by (simp_all add: A_def s(1))
    have b: "kmalloc_walk (hdr h) ?n (heap_start h) = Some (word_of_nat A)" "(word_of_nat A :: u32) \<noteq> 0"
      using walk dw A addr_neq_0 [of A] by (simp_all add: A_def del: of_nat_add)
    define h' where "h' = set_block (word_of_nat A) (\<lambda>x. x\<lparr>bfree := 0\<rparr>) (split (word_of_nat A) ?n h)"
    have "tiles (hdr h) (last_addr 0 ?a xs) A ((m, True) # ys) 0"
      using t(1) unfolding s(1) A_def by (simp add: tiles_append del: of_nat_add)
    note sp = split_tiles [OF this A s(3) ALIGN_UP_dvd, folded h'_def]
    have "tiles (hdr h') 0 ?a (xs @ seg_split (unat ?n) m @ ys) 0"
      by (rule tiles_replace [OF t(1) [unfolded s(1)] _ _ sp [unfolded A_def]]) (simp_all flip: A_def)
    then have "heap_rep h' ss'"
      using rep s by (simp add: heap_rep_def h'_def)
    moreover have heap_start: "heap_start h \<noteq> 0" and "?a + d + 24 = A + 24"
      using rep s(4) by (simp_all add: heap_rep_def A_def)
    moreover have "kmalloc sz h = Some (word_of_nat (A + 24), h')"
      using assms(2) heap_start b s(4)
      by (simp add: kmalloc_def payload_of_def h'_def add.assoc flip: A_def)
    ultimately show thesis using r block by (simp add: h'_def del: of_nat_add)
  qed
qed

lemma seg_join_ne [simp]: "seg_join (s # ys) \<noteq> []"
  by (cases "s # ys" rule: seg_join.cases) auto

lemma span_seg_join [simp]: "span (seg_join ss) = span ss"
  by (cases ss rule: seg_join.cases) auto

lemma seg_free_span: "span (seg_free xs m ys) = span xs + (24 + m + span ys)"
  by (cases xs rule: rev_cases) (simp_all add: seg_free_def Let_def)

lemma kfree_eq:
  assumes "ptr \<noteq> 0" "header_of ptr = b" "bmagic (hdr h b) = BLOCK_MAGIC" "bfree (hdr h b) = 0"
    "h1 = merge_with_next b (set_block b (\<lambda>x. x\<lparr>bfree := 1\<rparr>) h)"
  shows "kfree ptr h = (if bprev (hdr h1 b) \<noteq> 0 \<and> bfree (hdr h1 (bprev (hdr h1 b))) \<noteq> 0
    then merge_with_next (bprev (hdr h1 b)) h1 else h1)"
  using assms by (simp add: kfree_def Let_def)

lemma kfree_globals [simp]:
  "heap_start (kfree ptr h) = heap_start h" "heap_bytes (kfree ptr h) = heap_bytes h"
  by (simp_all add: kfree_def Let_def)

lemma seg_join_first:
  "tiles H p a (seg_join (s # ys)) q \<Longrightarrow> bprev (H (word_of_nat a)) = p"
  by (cases "s # ys" rule: seg_join.cases) auto

lemma release_tiles:
  assumes "tiles (hdr h) p a ((m, False) # ys) 0" "0 < a" "a + (24 + m + span ys) \<le> 4294967296"
  defines "h1 \<equiv> merge_with_next (word_of_nat a) (set_block (word_of_nat a) (\<lambda>x. x\<lparr>bfree := 1\<rparr>) h)"
  shows "tiles (hdr h1) p a (seg_join ((m, True) # ys)) 0"
    "x < a \<Longrightarrow> hdr h1 (word_of_nat x) = hdr h (word_of_nat x)"
proof -
  let ?h = "set_block (word_of_nat a) (\<lambda>x. x\<lparr>bfree := 1\<rparr>) h"
  have "tiles (hdr ?h) p a ((m, True) # ys) 0"
    using assms(1,2,3) by (simp del: of_nat_add)
  then have m: "tiles (hdr h1) p a (seg_join ((m, True) # ys)) 0 \<and>
      (\<forall>x<a. hdr h1 (word_of_nat x) = hdr ?h (word_of_nat x))"
    unfolding h1_def by (rule merge_tiles) (use assms in simp_all)
  then show "tiles (hdr h1) p a (seg_join ((m, True) # ys)) 0" ..
  show "hdr h1 (word_of_nat x) = hdr h (word_of_nat x)" if "x < a"
    using m that assms(3) by simp
qed

lemma kfree_rep:
  assumes rep: "heap_rep h (xs @ (m, False) # ys)"
    and ptr: "(word_of_nat (unat (heap_start h) + span xs + 24) :: u32) \<noteq> 0"
  shows "heap_rep (kfree (word_of_nat (unat (heap_start h) + span xs + 24)) h) (seg_free xs m ys)"
proof -
  let ?a = "unat (heap_start h)" and ?ptr = "word_of_nat (unat (heap_start h) + span xs + 24) :: u32"
  define A where "A = ?a + span xs"
  define h1 where "h1 = merge_with_next (word_of_nat A) (set_block (word_of_nat A) (\<lambda>x. x\<lparr>bfree := 1\<rparr>) h)"
  have t: "tiles (hdr h) 0 ?a (xs @ (m, False) # ys) 0" "span xs + (24 + m + span ys) = 1048576"
    "?a + 1048576 \<le> 4294967296" "0 < ?a"
    using rep heap_rep_nonempty [OF rep] by (simp_all add: heap_rep_def)
  have A: "0 < A" "A + (24 + m + span ys) \<le> 4294967296" using t by (simp_all add: A_def)
  have tA: "tiles (hdr h) (last_addr 0 ?a xs) A ((m, False) # ys) 0"
    using t(1) by (simp add: A_def tiles_append del: of_nat_add)
  note r = release_tiles [OF tA A, folded h1_def]
  have t1: "tiles (hdr h1) 0 ?a (xs @ seg_join ((m, True) # ys)) 0"
    by (rule tiles_replace [OF t(1) _ _ r [unfolded A_def]]) (simp_all flip: A_def)
  have prv: "bprev (hdr h1 (word_of_nat A)) = last_addr 0 ?a xs" by (rule seg_join_first [OF r(1)])
  have "header_of ?ptr = word_of_nat A" by (simp add: header_of_def A_def)
  note eq = kfree_eq [OF ptr this _ _ h1_def, unfolded prv]
  have bA: "bmagic (hdr h (word_of_nat A)) = BLOCK_MAGIC" "bfree (hdr h (word_of_nat A)) = 0"
    using tA by simp_all
  have "tiles (hdr (kfree ?ptr h)) 0 ?a (seg_free xs m ys) 0"
  proof (cases xs rule: rev_cases)
    case Nil
    then show ?thesis using eq [OF bA] t1 by (simp add: seg_free_def Let_def)
  next
    case (snoc zs s)
    define P where "P = ?a + span zs"
    have P: "0 < P" "P < 4294967296" "P + (24 + fst s + span (seg_join ((m, True) # ys))) \<le> 4294967296"
      using t snoc by (simp_all add: P_def)
    have la: "last_addr 0 ?a xs = word_of_nat P" "(word_of_nat P :: u32) \<noteq> 0"
      using snoc P addr_neq_0 by (simp_all add: P_def del: of_nat_add)
    have tP: "tiles (hdr h1) 0 ?a (zs @ s # seg_join ((m, True) # ys)) 0" using t1 snoc by simp
    then have tP': "tiles (hdr h1) (last_addr 0 ?a zs) P (s # seg_join ((m, True) # ys)) 0"
      by (simp add: tiles_append P_def del: of_nat_add)
    then have fP: "(bfree (hdr h1 (word_of_nat P)) \<noteq> 0) = snd s" by simp
    show ?thesis
    proof (cases "snd s")
      case False
      then show ?thesis using eq [OF bA] t1 fP la snoc by (simp add: seg_free_def Let_def)
    next
      case True
      then have "kfree ?ptr h = merge_with_next (word_of_nat P) h1" using eq [OF bA] fP la by simp
      moreover note mt = merge_tiles [OF tP' P(1,3)]
      have "tiles (hdr (merge_with_next (word_of_nat P) h1)) 0 ?a
          (zs @ seg_join (s # seg_join ((m, True) # ys))) 0"
        unfolding P_def
        by (rule tiles_replace [OF tP _ _ mt [THEN conjunct1, unfolded P_def]])
          (use mt in \<open>simp_all add: P_def del: of_nat_add\<close>)
      ultimately show ?thesis using True snoc by (simp add: seg_free_def Let_def)
    qed
  qed
  then show ?thesis using rep t(2) by (simp add: heap_rep_def seg_free_span)
qed

lemma tiles_dvd: "tiles H p a ss q \<Longrightarrow> 8 dvd span ss"
  by (induction ss arbitrary: p a) (auto intro!: dvd_add)

section \<open>Live blocks and coalescing\<close>

text \<open>The payloads in use: address and size of every segment that is not free.\<close>

fun live_segs :: "nat \<Rightarrow> seg list \<Rightarrow> (nat \<times> nat) list" where
  "live_segs a [] = []"
| "live_segs a (s # ss) = (if snd s then [] else [(a + 24, fst s)]) @ live_segs (a + (24 + fst s)) ss"

lemma live_segs_append: "live_segs a (xs @ ys) = live_segs a xs @ live_segs (a + span xs) ys"
  by (induction xs arbitrary: a) (simp_all add: add.assoc)

lemma live_segs_range: "(x, m) \<in> set (live_segs a ss) \<Longrightarrow> a + 24 \<le> x \<and> x + m \<le> a + span ss"
  by (induction ss arbitrary: a) (fastforce split: if_splits)+

lemma live_segs_seg_join [simp]: "live_segs a (seg_join ss) = live_segs a ss"
  by (cases ss rule: seg_join.cases) (auto simp: add_ac)

lemma live_segs_seg_split [simp]:
  "n \<le> m \<Longrightarrow> \<exists>k. live_segs a (seg_split n m) = [(a + 24, k)] \<and> n \<le> k"
  by (simp add: seg_split_def)

lemma live_segs_seg_free:
  "set (live_segs a (seg_free xs m ys)) =
     set (live_segs a (xs @ (m, False) # ys)) - {(a + span xs + 24, m)}"
proof -
  have "set (live_segs a (seg_free xs m ys)) =
      set (live_segs a xs) \<union> set (live_segs (a + span xs + (24 + m)) ys)"
    by (cases xs rule: rev_cases) (auto simp: seg_free_def Let_def live_segs_append add_ac)
  moreover have "(a + span xs + 24, m) \<notin> set (live_segs a xs)"
    "(a + span xs + 24, m) \<notin> set (live_segs (a + span xs + (24 + m)) ys)"
    using live_segs_range [of _ m] by fastforce+
  ultimately show ?thesis by (auto simp: live_segs_append)
qed

lemma live_segs_obtain:
  assumes "(x, m) \<in> set (live_segs a ss)"
  obtains xs ys where "ss = xs @ (m, False) # ys" "x = a + span xs + 24"
proof -
  have "\<exists>xs ys. ss = xs @ (m, False) # ys \<and> x = a + span xs + 24"
    using assms
  proof (induction ss arbitrary: a)
    case (Cons s ss)
    show ?case
    proof (cases "(x, m) \<in> set (live_segs (a + (24 + fst s)) ss)")
      case True
      then obtain xs ys where "ss = xs @ (m, False) # ys" "x = a + (24 + fst s) + span xs + 24"
        using Cons.IH by blast
      then show ?thesis by (intro exI [of _ "s # xs"] exI [of _ ys]) simp
    next
      case False
      then show ?thesis
        using Cons.prems by (intro exI [of _ "[]"] exI [of _ ss]) (cases s, auto split: if_splits)
    qed
  qed simp
  then show ?thesis using that by blast
qed

text \<open>Distinct live payloads never overlap: a header separates them.\<close>

lemma live_segs_disjoint:
  assumes "(x, m) \<in> set (live_segs a ss)" "(y, n) \<in> set (live_segs a ss)" "(x, m) \<noteq> (y, n)"
  shows "x + m + 24 \<le> y \<or> y + n + 24 \<le> x"
proof -
  obtain xs ys where s: "ss = xs @ (m, False) # ys" "x = a + span xs + 24"
    using assms(1) by (rule live_segs_obtain)
  have "(y, n) \<in> set (live_segs a xs) \<or> (y, n) \<in> set (live_segs (a + span xs + (24 + m)) ys)"
    using assms(2,3) by (auto simp: s live_segs_append)
  then show ?thesis using live_segs_range [of y n] by (fastforce simp: s(2))
qed

lemma coalesced_Cons:
  "coalesced (s # ss) \<longleftrightarrow> (ss = [] \<or> \<not> (snd s \<and> snd (hd ss))) \<and> coalesced ss"
  by (cases ss) auto

lemma coalesced_append:
  "coalesced (xs @ ys) \<longleftrightarrow> coalesced xs \<and> coalesced ys \<and>
     (xs = [] \<or> ys = [] \<or> \<not> (snd (last xs) \<and> snd (hd ys)))"
  by (induction xs) (auto simp: coalesced_Cons hd_append)

lemma coalesced_seg_alloc:
  assumes "seg_alloc n ss = Some (d, ss')" "coalesced ss"
  shows "coalesced ss'"
  using assms
  by (elim seg_alloc_SomeE) (auto simp: coalesced_append coalesced_Cons seg_split_def hd_append)

lemma coalesced_seg_join:
  assumes "coalesced ys"
  shows "coalesced (seg_join ((m, True) # ys)) \<and> snd (hd (seg_join ((m, True) # ys)))"
  using assms by (cases "(m, True) # ys" rule: seg_join.cases) (auto simp: coalesced_Cons)

lemma seg_join_absorb:
  assumes "coalesced ss" "ss \<noteq> []" "snd (hd ss)" "snd s"
  shows "coalesced (seg_join (s # ss)) \<and> snd (hd (seg_join (s # ss)))"
  using assms by (cases "s # ss" rule: seg_join.cases) (auto simp: coalesced_Cons)

lemma coalesced_seg_free:
  assumes "coalesced (xs @ (m, False) # ys)"
  shows "coalesced (seg_free xs m ys)"
proof -
  have ys: "coalesced ys" using assms by (simp add: coalesced_append coalesced_Cons)
  note j = coalesced_seg_join [OF ys, of m]
  show ?thesis
  proof (cases xs rule: rev_cases)
    case Nil
    then show ?thesis using j by (simp add: seg_free_def Let_def)
  next
    case (snoc zs s)
    then have zs: "coalesced zs" "zs = [] \<or> \<not> (snd (last zs) \<and> snd s)"
      using assms by (auto simp: coalesced_append)
    show ?thesis
    proof (cases "snd s")
      case True
      then show ?thesis
        using seg_join_absorb [of "seg_join ((m, True) # ys)" s] j zs snoc
        by (simp add: seg_free_def Let_def coalesced_append)
    next
      case False
      then show ?thesis
        using j zs snoc by (auto simp: seg_free_def Let_def coalesced_append coalesced_Cons)
    qed
  qed
qed

lemma seg_free_alloc:
  assumes "coalesced (xs @ (m, True) # ys)" "n \<le> m"
  shows "seg_split n m = (k, False) # zs \<Longrightarrow> seg_free xs k (zs @ ys) = xs @ (m, True) # ys"
  using assms
  by (cases ys; cases xs rule: rev_cases)
    (auto simp: seg_free_def seg_split_def Let_def coalesced_append coalesced_Cons split: if_splits)

lemma tiles_unique:
  assumes "tiles H p a ss q" "tiles H p' a ss' q'" "span ss = span ss'"
  shows "ss = ss'"
  using assms
proof (induction ss arbitrary: p p' a ss')
  case Nil
  then show ?case by (cases ss') auto
next
  case (Cons s ss)
  then obtain s' ss2 where s': "ss' = s' # ss2" by (cases ss') auto
  then have "s = s'" using Cons.prems by (auto simp: prod_eq_iff)
  then show ?case using Cons.prems s' Cons.IH [of "word_of_nat a" "a + (24 + fst s)" "word_of_nat a" ss2]
    by simp
qed

definition live :: "kheap \<Rightarrow> (nat \<times> nat) set" where
  "live h = {b. \<exists>ss. heap_rep h ss \<and> b \<in> set (live_segs (unat (heap_start h)) ss)}"

definition heap_ok :: "kheap \<Rightarrow> bool" where
  "heap_ok h \<longleftrightarrow> (\<exists>ss. heap_rep h ss \<and> coalesced ss)"

lemma heap_rep_unique: "heap_rep h ss \<Longrightarrow> heap_rep h ss' \<Longrightarrow> ss = ss'"
  unfolding heap_rep_def by (metis tiles_unique)

lemma live_rep: "heap_rep h ss \<Longrightarrow> live h = set (live_segs (unat (heap_start h)) ss)"
  using heap_rep_unique by (auto simp: live_def)

lemma kmalloc_null: "kmalloc 0 h = Some (0, h)"
  by (simp add: kmalloc_def)

section \<open>The interface the rest of the kernel uses\<close>

text \<open>
  What the loader, the scheduler and the pipes rely on, for any width of the addresses.  \<open>limit\<close> excludes the last values
  of \<open>size_t\<close> (seven of them here), where the rounding inside \<open>kmalloc\<close> wraps.
\<close>

locale heap_provider =
  fixes malloc :: "'w::len word \<Rightarrow> 'h \<Rightarrow> ('w word \<times> 'h) option"
    and release :: "'w word \<Rightarrow> 'h \<Rightarrow> 'h"
    and live :: "'h \<Rightarrow> (nat \<times> nat) set"
    and ok :: "'h \<Rightarrow> bool"
    and limit :: "'w word"
    and alignment :: nat
  assumes malloc_total: "ok h \<Longrightarrow> \<exists>p h'. malloc n h = Some (p, h') \<and> ok h'"
    and malloc_none: "ok h \<Longrightarrow> n \<le> limit \<Longrightarrow> malloc n h = Some (0, h') \<Longrightarrow> h' = h"
    and malloc_some: "ok h \<Longrightarrow> n \<le> limit \<Longrightarrow> malloc n h = Some (p, h') \<Longrightarrow> p \<noteq> 0 \<Longrightarrow>
      \<exists>m. unat n \<le> m \<and> live h' = insert (unat p, m) (live h) \<and> alignment dvd unat p \<and>
          (\<forall>(x, k)\<in>live h. unat p + m \<le> x \<or> x + k \<le> unat p)"
    and release_live: "ok h \<Longrightarrow> (unat p, m) \<in> live h \<Longrightarrow> p \<noteq> 0 \<Longrightarrow>
      ok (release p h) \<and> live (release p h) = live h - {(unat p, m)}"
    and release_null: "release 0 h = h"
begin

lemma malloc_fresh:
  assumes "ok h" "n \<noteq> 0" "n \<le> limit" "malloc n h = Some (p, h')" "p \<noteq> 0"
  obtains m where "unat n \<le> m" "(unat p, m) \<notin> live h" "live h' = insert (unat p, m) (live h)"
proof -
  obtain m where m: "unat n \<le> m" "live h' = insert (unat p, m) (live h)"
    "\<forall>(x, k)\<in>live h. unat p + m \<le> x \<or> x + k \<le> unat p"
    using malloc_some [OF assms(1,3,4,5)] by blast
  have "0 < unat n" using assms(2) by (simp add: unat_gt_0)
  then have "(unat p, m) \<notin> live h" using m(1,3) by fastforce
  then show ?thesis using that m by blast
qed

lemma malloc_release:
  assumes "ok h" "n \<noteq> 0" "n \<le> limit" "malloc n h = Some (p, h')"
  shows "ok (release p h') \<and> live (release p h') = live h"
proof (cases "p = 0")
  case True
  then show ?thesis using assms malloc_none [of h n h'] release_null by simp
next
  case False
  have "ok h'" using malloc_total [OF assms(1), of n] assms(4) by auto
  then show ?thesis
    using malloc_fresh [OF assms False] release_live [of h' p] False by (metis Diff_insert_absorb insertI1)
qed

end

lemma ALIGN_UP_ge: "n \<le> 0xFFFFFFF8 \<Longrightarrow> unat n \<le> unat (ALIGN_UP n) \<and> unat (ALIGN_UP n) < unat n + 8"
  by (simp add: ALIGN_UP_nat) linarith

lemma seg_alloc_live:
  assumes "seg_alloc n ss = Some (d, ss')"
  obtains m where "n \<le> m" "set (live_segs a ss') = insert (a + d + 24, m) (set (live_segs a ss))"
    "d + (24 + m) \<le> span ss" "span ss' = span ss" "\<And>k. (a + d + 24, k) \<notin> set (live_segs a ss)"
proof -
  obtain xs m ys where s: "ss = xs @ (m, True) # ys" "\<forall>s\<in>set xs. \<not> seg_fits n s" "n \<le> m"
    "d = span xs" "ss' = xs @ seg_split n m @ ys" using assms by (rule seg_alloc_SomeE)
  obtain k where k: "live_segs (a + span xs) (seg_split n m) = [(a + span xs + 24, k)]" "n \<le> k"
    using live_segs_seg_split [OF s(3)] by blast
  then have "k \<le> m" by (auto simp: seg_split_def split: if_splits)
  moreover have "(a + d + 24, j) \<notin> set (live_segs a ss)" for j
    using live_segs_range [of "a + d + 24" j a xs] live_segs_range [of "a + d + 24" j "a + span xs + (24 + m)" ys]
    by (auto simp: s live_segs_append)
  ultimately show ?thesis
    using k s by (intro that [of k]) (auto simp: live_segs_append add.assoc)
qed

lemma kmalloc_total: "heap_ok h \<Longrightarrow> \<exists>p h'. kmalloc n h = Some (p, h') \<and> heap_ok h'"
proof (cases "n = 0")
  case False
  assume "heap_ok h"
  then obtain ss where ss: "heap_rep h ss" "coalesced ss" by (auto simp: heap_ok_def)
  from ss(1) False show ?thesis
    by (cases rule: kmalloc_rep) (use ss coalesced_seg_alloc in \<open>auto simp: heap_ok_def\<close>)
qed (simp add: kmalloc_null)

lemma kmalloc_cases:
  assumes "heap_rep h ss" "n \<noteq> 0" "n \<le> 0xFFFFFFF8"
  obtains (full) "kmalloc n h = Some (0, h)" "\<forall>s\<in>set ss. \<not> seg_fits (unat (ALIGN_UP n)) s"
  | (block) d m ss' p h' where "kmalloc n h = Some (p, h')" "p \<noteq> 0"
      "seg_alloc (unat (ALIGN_UP n)) ss = Some (d, ss')" "unat p = unat (heap_start h) + d + 24"
      "heap_rep h' ss'" "unat n \<le> m" "live h' = insert (unat p, m) (live h)" "8 dvd unat p"
      "\<forall>(x, k)\<in>live h. unat p + m \<le> x \<or> x + k \<le> unat p"
  using assms(1,2)
proof (cases rule: kmalloc_rep)
  case full
  then show thesis using that(1) by (simp add: seg_alloc_None)
next
  case (block d ss' h')
  let ?a = "unat (heap_start h)" and ?n = "unat (ALIGN_UP n)"
  obtain m where m: "?n \<le> m" "set (live_segs ?a ss') = insert (?a + d + 24, m) (set (live_segs ?a ss))"
    "d + (24 + m) \<le> span ss" "span ss' = span ss" "\<And>k. (?a + d + 24, k) \<notin> set (live_segs ?a ss)"
    using seg_alloc_live [OF block(1), of ?a] by metis
  have n: "unat n \<le> ?n" "0 < unat n" using assms ALIGN_UP_ge [of n] by (auto simp: unat_gt_0)
  define p where "p = (word_of_nat (?a + d + 24) :: u32)"
  have p: "unat p = ?a + d + 24"
    using m n assms(1) unfolding p_def by (intro unat32_of_nat) (simp add: heap_rep_def)
  have live: "live h' = insert (unat p, m) (live h)"
    using live_rep [OF assms(1)] live_rep [OF block(3)] m p block(4) by simp
  obtain xs k ys where s: "ss = xs @ (k, True) # ys" "d = span xs" using block(1) by (rule seg_alloc_SomeE)
  have "8 dvd span xs"
    using assms(1) unfolding heap_rep_def s(1) tiles_append by (elim conjE) (rule tiles_dvd)
  then have "8 dvd unat p" using assms(1) p s(2) by (auto simp: heap_rep_def mod_eq_0_iff_dvd)
  moreover have "\<forall>(x, k)\<in>live h. unat p + m \<le> x \<or> x + k \<le> unat p"
  proof (clarify)
    fix x k
    assume x: "(x, k) \<in> live h" "\<not> x + k \<le> unat p"
    have "(x, k) \<in> set (live_segs ?a ss')" "(unat p, m) \<in> set (live_segs ?a ss')"
      using x(1) live live_rep [OF block(3)] block(4) by auto
    moreover have "(x, k) \<noteq> (unat p, m)" using x(1) m(5) [of m] p live_rep [OF assms(1)] by auto
    ultimately show "unat p + m \<le> x" using live_segs_disjoint x(2) by fastforce
  qed
  moreover have "p \<noteq> 0" using p by (auto simp flip: unat_gt_0)
  ultimately show thesis
    using that(2) [of p h' d ss' m] block p live m(1) n(1) by (simp add: p_def del: of_nat_add)
qed

lemma kfree_live:
  assumes ok: "heap_ok h" and p: "(unat p, m) \<in> live h" "p \<noteq> 0"
  shows "heap_ok (kfree p h) \<and> live (kfree p h) = live h - {(unat p, m)}"
proof -
  let ?a = "unat (heap_start h)"
  obtain ss where ss: "heap_rep h ss" "coalesced ss" using ok by (auto simp: heap_ok_def)
  have "(unat p, m) \<in> set (live_segs ?a ss)" using p(1) live_rep [OF ss(1)] by simp
  then obtain xs ys where s: "ss = xs @ (m, False) # ys" "unat p = ?a + span xs + 24"
    by (rule live_segs_obtain)
  have p': "p = word_of_nat (?a + span xs + 24)" by (metis s(2) word_of_nat_unat)
  then have rep: "heap_rep (kfree p h) (seg_free xs m ys)"
    using ss(1) p(2) s(1) kfree_rep [of h xs m ys] by (simp del: of_nat_add)
  moreover have "coalesced (seg_free xs m ys)" using ss(2) s(1) coalesced_seg_free by simp
  ultimately show ?thesis
    using live_rep [OF rep] live_rep [OF ss(1)] s
    by (auto simp: heap_ok_def live_segs_seg_free)
qed

interpretation kheap: heap_provider kmalloc kfree live heap_ok "0xFFFFFFF8" 8
proof
  fix h n h'
  assume h: "heap_ok h" "n \<le> 0xFFFFFFF8" "kmalloc n h = Some (0, h')"
  then obtain ss where ss: "heap_rep h ss" by (auto simp: heap_ok_def)
  show "h' = h"
  proof (cases "n = 0")
    case False
    from ss False h(2) show ?thesis by (cases rule: kmalloc_cases) (use h in auto)
  qed (use h kmalloc_null in simp)
next
  fix h n p h'
  assume h: "heap_ok h" "n \<le> 0xFFFFFFF8" "kmalloc n h = Some (p, h')" "p \<noteq> 0"
  then obtain ss where ss: "heap_rep h ss" by (auto simp: heap_ok_def)
  have "n \<noteq> 0" using h kmalloc_null by auto
  from ss this h(2) show "\<exists>m. unat n \<le> m \<and> live h' = insert (unat p, m) (live h) \<and> 8 dvd unat p \<and>
      (\<forall>(x, k)\<in>live h. unat p + m \<le> x \<or> x + k \<le> unat p)"
  proof (cases rule: kmalloc_cases)
    case (block d m ss' p2 h2)
    then show ?thesis using h(3) by (intro exI [of _ m]) simp
  qed (use h in simp)
qed (use kmalloc_total kfree_live in \<open>auto simp: kfree_def\<close>)

section \<open>Statistics and initialisation\<close>

lemma stats_walk_spec:
  assumes "tiles H p a ss 0" "0 < a" "a + span ss \<le> 4294967296"
  shows "stats_walk H (if ss = [] then 0 else word_of_nat a) u n =
    Some (u + word_of_nat (span (filter (\<lambda>s. \<not> snd s) ss)), n + word_of_nat (length ss))"
  using assms
proof (induction ss arbitrary: p a u n)
  case Nil
  then show ?case by (simp add: stats_walk.simps)
next
  case (Cons s ss)
  let ?b = "word_of_nat a :: u32"
  let ?u = "if bfree (H ?b) = 0 then u + (HEADER_SIZE + bsize (H ?b)) else u"
  have b: "?b \<noteq> 0" using Cons.prems by (intro addr_neq_0) auto
  have nx: "bnext (H ?b) = (if ss = [] then 0 else word_of_nat (a + (24 + fst s)))"
    using Cons.prems(1) by simp
  have "stats_walk H ?b u n = stats_walk H (if ss = [] then 0 else word_of_nat (a + (24 + fst s))) ?u (n + 1)"
    by (subst stats_walk.simps) (simp only: b nx if_False)
  also have "\<dots> = Some (?u + word_of_nat (span (filter (\<lambda>s. \<not> snd s) ss)), n + 1 + word_of_nat (length ss))"
    using Cons.prems by (intro Cons.IH [of ?b]) auto
  also have "?u = (if snd s then u else u + word_of_nat (24 + fst s))"
  proof -
    have "(bfree (H ?b) \<noteq> 0) = snd s" "unat (bsize (H ?b)) = fst s" using Cons.prems(1) by simp_all
    then show ?thesis by (auto simp flip: \<open>unat (bsize (H ?b)) = fst s\<close>)
  qed
  finally show ?case by (simp add: add_ac)
qed

lemma kheap_stats_rep:
  assumes "heap_rep h ss"
  shows "kheap_stats h = Some (1048576, word_of_nat (span (filter (\<lambda>s. \<not> snd s) ss)), word_of_nat (length ss))"
proof -
  have "stats_walk (hdr h) (heap_start h) 0 0 =
      Some (word_of_nat (span (filter (\<lambda>s. \<not> snd s) ss)), word_of_nat (length ss))"
    using stats_walk_spec [of "hdr h" 0 "unat (heap_start h)" ss 0 0] heap_rep_nonempty [OF assms] assms
    by (simp add: heap_rep_def)
  then show ?thesis using assms by (simp add: kheap_stats_def heap_rep_def)
qed

lemma kheap_init_rep:
  assumes "pmm_ok p" "pmm_alloc_frames 256 p = (base, p')" "base \<noteq> 0"
  shows "heap_rep (fst (kheap_init p h)) [(1048552, True)]" "heap_start (fst (kheap_init p h)) = base"
proof -
  note a = pmm.allocs_some [OF assms]
  have "unat base mod 8 = 0" using a mod_mod_cancel [of 8 4096 "unat base"] by simp
  then show "heap_rep (fst (kheap_init p h)) [(1048552, True)]" "heap_start (fst (kheap_init p h)) = base"
    using a assms by (simp_all add: kheap_init_def heap_rep_def)
qed

text \<open>
  Any history of the heap after boot: requests of any size, and releases of the null pointer or
  of a block that is in use.
\<close>

inductive heap_reach :: "kheap \<Rightarrow> kheap \<Rightarrow> bool" for h0 where
  start: "heap_reach h0 h0"
| malloc: "heap_reach h0 h \<Longrightarrow> kmalloc n h = Some (p, h') \<Longrightarrow> heap_reach h0 h'"
| free: "heap_reach h0 h \<Longrightarrow> p = 0 \<or> (unat p, m) \<in> live h \<Longrightarrow> heap_reach h0 (kfree p h)"

lemma heap_reach_ok: "heap_reach h0 h \<Longrightarrow> heap_ok h0 \<Longrightarrow> heap_ok h"
proof (induction rule: heap_reach.induct)
  case (malloc h n p h')
  then show ?case using kheap.malloc_total [of h n] by auto
next
  case (free h p m)
  then show ?case using kheap.release_live [of h p m] kheap.release_null [of h] by (cases "p = 0") auto
qed simp

lemma heap_reach_start: "heap_reach h0 h \<Longrightarrow> heap_start h = heap_start h0"
  by (induction rule: heap_reach.induct)
    (auto simp: kmalloc_def Let_def split: if_splits option.splits)

lemma live_in_heap:
  assumes "heap_rep h ss" "(x, m) \<in> live h"
  shows "unat (heap_start h) + 24 \<le> x \<and> x + m \<le> unat (heap_start h) + 1048576 \<and> 8 dvd x"
proof -
  have in_segs: "(x, m) \<in> set (live_segs (unat (heap_start h)) ss)" using assms live_rep by simp
  then obtain xs ys where s: "ss = xs @ (m, False) # ys" "x = unat (heap_start h) + span xs + 24"
    by (rule live_segs_obtain)
  have "8 dvd span xs"
    using assms(1) unfolding heap_rep_def s(1) tiles_append by (elim conjE) (rule tiles_dvd)
  then show ?thesis
    using live_segs_range [OF in_segs] assms(1) s(2) by (auto simp: heap_rep_def mod_eq_0_iff_dvd)
qed

lemma used_bytes_live:
  "span (filter (\<lambda>s. \<not> snd s) ss) = (\<Sum>(x, m)\<leftarrow>live_segs a ss. 24 + m)"
  by (induction ss arbitrary: a) simp_all

lemma bfree_merge: "bfree (hdr (merge_with_next b h) x) = bfree (hdr h x)"
proof -
  have keep: "bfree (hdr (set_block b f h) x) = bfree (hdr h x)" if "\<And>r. bfree (f r) = bfree r" for f b h
    using that by simp
  show ?thesis by (simp add: merge_with_next_def Let_def keep del: hdr_set_block)
qed

section \<open>Properties\<close>

text \<open>
  (C4) \<open>kmalloc\<close> is first fit: for every request of \<open>1 \<dots> 0xFFFFFFF8\<close> bytes on a well-formed heap it
  terminates, takes the first free segment that holds the request rounded up to a multiple of 8,
  splits it exactly when the rest can hold a header and 8 bytes, and otherwise returns null and
  leaves the heap as it was.  The returned payload is 8-aligned, at least as big as asked and
  disjoint from every block in use.  (Beyond that bound the rounding wraps, \<open>kmalloc_huge_request\<close>.)
\<close>

theorem kmalloc_first_fit:
  assumes "heap_rep h ss" "n \<noteq> 0" "n \<le> 0xFFFFFFF8"
  shows "case seg_alloc ((unat n + 7) div 8 * 8) ss of
      None \<Rightarrow> kmalloc n h = Some (0, h)
    | Some (d, ss') \<Rightarrow> \<exists>p h' m. kmalloc n h = Some (p, h') \<and> unat p = unat (heap_start h) + d + 24 \<and>
        heap_rep h' ss' \<and> unat n \<le> m \<and> live h' = insert (unat p, m) (live h) \<and> 8 dvd unat p \<and>
        (\<forall>(x, k)\<in>live h. unat p + m \<le> x \<or> x + k \<le> unat p)"
  using assms
proof (cases rule: kmalloc_cases)
  case full
  then have "seg_alloc ((unat n + 7) div 8 * 8) ss = None"
    using assms(3) by (simp add: ALIGN_UP_nat seg_alloc_None)
  then show ?thesis using full(1) by simp
next
  case (block d m ss' p h')
  have eq: "seg_alloc ((unat n + 7) div 8 * 8) ss = Some (d, ss')"
    using block(3) assms(3) by (simp add: ALIGN_UP_nat)
  show ?thesis
    unfolding eq option.case prod.case
    by (intro exI [of _ p] exI [of _ h'] exI [of _ m] conjI) (use block in simp_all)
qed

definition example_heap :: kheap where
  "example_heap = \<lparr>heap_start = 0x100000, heap_bytes = 1048576,
     hdr = (\<lambda>_. \<lparr>bmagic = 0, bsize = 0, bfree = 0, bnext = 0, bprev = 0\<rparr>)
       (0x100000 := \<lparr>bmagic = BLOCK_MAGIC, bsize = 1048552, bfree = 1, bnext = 0, bprev = 0\<rparr>)\<rparr>"

lemma example_heap_rep: "heap_rep example_heap [(1048552, True)]"
  by (simp add: heap_rep_def example_heap_def)

theorem kmalloc_first_fit_witness:
  "\<exists>p h'. kmalloc 100 example_heap = Some (p, h') \<and> unat p = 0x100018 \<and>
     heap_rep h' [(104, False), (1048424, True)]"
  using kmalloc_first_fit [OF example_heap_rep, of 100]
  by (auto simp: seg_alloc_def seg_fits_def seg_split_def example_heap_def)

text \<open>
  (C5) \<open>kfree\<close> of a block in use releases exactly that block and merges it with free neighbours on
  both sides, so that a heap in which no two free blocks are adjacent stays so.
\<close>

theorem kfree_coalesces:
  assumes "heap_rep h (xs @ (m, False) # ys)" "coalesced (xs @ (m, False) # ys)" "0 < m"
  shows "\<exists>p. unat p = unat (heap_start h) + span xs + 24 \<and> heap_rep (kfree p h) (seg_free xs m ys) \<and>
    coalesced (seg_free xs m ys) \<and> live (kfree p h) = live h - {(unat p, m)}"
proof -
  let ?x = "unat (heap_start h) + span xs + 24"
  define p where "p = (word_of_nat ?x :: u32)"
  have p: "unat p = ?x"
    unfolding p_def by (rule unat32_of_nat) (use assms in \<open>simp add: heap_rep_def\<close>)
  then have "p \<noteq> 0" by auto
  moreover have "(unat p, m) \<in> live h"
    using live_rep [OF assms(1)] p by (simp add: live_segs_append)
  moreover have "heap_ok h" using assms by (auto simp: heap_ok_def)
  ultimately have "live (kfree p h) = live h - {(unat p, m)}" using kheap.release_live by blast
  moreover have "heap_rep (kfree p h) (seg_free xs m ys)"
    using kfree_rep [OF assms(1)] \<open>p \<noteq> 0\<close> unfolding p_def by blast
  ultimately show ?thesis using p coalesced_seg_free [OF assms(2)] by blast
qed

definition example_heap2 :: kheap where
  "example_heap2 = \<lparr>heap_start = 0x100000, heap_bytes = 1048576,
     hdr = (\<lambda>_. \<lparr>bmagic = 0, bsize = 0, bfree = 0, bnext = 0, bprev = 0\<rparr>)
       (0x100000 := \<lparr>bmagic = BLOCK_MAGIC, bsize = 16, bfree = 1, bnext = 0x100028, bprev = 0\<rparr>,
        0x100028 := \<lparr>bmagic = BLOCK_MAGIC, bsize = 64, bfree = 0, bnext = 0x100080, bprev = 0x100000\<rparr>,
        0x100080 := \<lparr>bmagic = BLOCK_MAGIC, bsize = 1048424, bfree = 1, bnext = 0, bprev = 0x100028\<rparr>)\<rparr>"

lemma example_heap2_rep: "heap_rep example_heap2 ([(16, True)] @ (64, False) # [(1048424, True)])"
  by (simp add: heap_rep_def example_heap2_def)

theorem kfree_coalesces_witness:
  "\<exists>p. unat p = 0x100040 \<and> heap_rep (kfree p example_heap2) [(1048552, True)]"
proof -
  have "heap_start example_heap2 = 0x100000" by (simp add: example_heap2_def)
  then show ?thesis
    using kfree_coalesces [OF example_heap2_rep] by (auto simp: seg_free_def Let_def)
qed

text \<open>
  (C6) The heap after boot: whenever the page frames for it were available, every history of
  allocations and releases leaves a heap in which the blocks in use are 8-aligned, inside the
  megabyte, separated by at least a header, and no two free blocks are adjacent; and
  \<open>kheap_stats\<close> terminates with exactly the bytes and the block count of the segments.
\<close>

theorem heap_history_safe:
  assumes "pmm_ok p" "pmm_alloc_frames HEAP_FRAMES p = (base, p')" "base \<noteq> 0"
    and "heap_reach (fst (kheap_init p h0)) h"
  shows "\<exists>ss. heap_rep h ss \<and> coalesced ss \<and>
    (\<forall>(x, m)\<in>live h. unat base + 24 \<le> x \<and> x + m \<le> unat base + 1048576 \<and> 8 dvd x) \<and>
    (\<forall>(x, m)\<in>live h. \<forall>(y, n)\<in>live h. (x, m) = (y, n) \<or> x + m + 24 \<le> y \<or> y + n + 24 \<le> x) \<and>
    kheap_stats h = Some (HEAP_SIZE,
      word_of_nat (\<Sum>(x, m)\<leftarrow>live_segs (unat base) ss. 24 + m), word_of_nat (length ss))"
proof -
  have i: "heap_rep (fst (kheap_init p h0)) [(1048552, True)]" "heap_start (fst (kheap_init p h0)) = base"
    using kheap_init_rep [of p base p' h0] assms by simp_all
  then have "heap_ok (fst (kheap_init p h0))" by (auto simp: heap_ok_def)
  then obtain ss where ss: "heap_rep h ss" "coalesced ss"
    using heap_reach_ok [OF assms(4)] by (auto simp: heap_ok_def)
  have base: "heap_start h = base" using heap_reach_start [OF assms(4)] i(2) by simp
  have "\<forall>(x, m)\<in>live h. unat base + 24 \<le> x \<and> x + m \<le> unat base + 1048576 \<and> 8 dvd x"
    using live_in_heap [OF ss(1)] base by auto
  moreover have "\<forall>(x, m)\<in>live h. \<forall>(y, n)\<in>live h. (x, m) = (y, n) \<or> x + m + 24 \<le> y \<or> y + n + 24 \<le> x"
    using live_rep [OF ss(1)] live_segs_disjoint by blast
  ultimately show ?thesis
    using ss kheap_stats_rep [OF ss(1)] used_bytes_live [of ss "unat base"]
    by (intro exI [of _ ss]) simp
qed

definition example_frames :: pmm where
  "example_frames = frame_set 0 \<lparr>bitmap = (\<lambda>_. 0), total_frames = 1024, used_frames = 1\<rparr>"

lemma example_frames_test: "frame_test g example_frames \<longleftrightarrow> g = 0"
  by (simp add: example_frames_def) (simp add: frame_test_def read32_def)

lemma example_frames_ok: "pmm_ok example_frames"
proof -
  have "used_set example_frames = {0}"
    by (auto simp: used_set_def example_frames_test) (simp add: example_frames_def)
  then show ?thesis by (simp add: pmm_ok_def pmm_inv_def) (simp add: example_frames_def)
qed

lemma example_frames_run: "\<exists>base p'. pmm_alloc_frames HEAP_FRAMES example_frames = (base, p') \<and> base \<noteq> 0"
proof (cases "fst (pmm_alloc_frames HEAP_FRAMES example_frames) = 0")
  case True
  have "frame_test (word_of_nat (1 + i)) example_frames \<longleftrightarrow> False" if "i < 256" for i
    using that addr_neq_0 [of "1 + i"] by (simp add: example_frames_test)
  then have run: "free_run example_frames 1 (unat HEAP_FRAMES)"
    by (simp add: free_run_def) (simp add: example_frames_def)
  have "HEAP_FRAMES \<noteq> 0" by simp
  then show ?thesis
  proof (cases rule: pmm_alloc_frames_cases [of HEAP_FRAMES example_frames])
    case (run s)
    then have "claim_run 0 HEAP_FRAMES (word_of_nat s) example_frames = example_frames"
      using True pmm.allocs_none [OF example_frames_ok] by simp
    moreover note claim_run_owned(4) [OF _ run(1), of "word_of_nat s"]
    ultimately have False
      using run(1) example_frames_ok free_run_first [OF run(1)] claim_run_owned(1) [OF _ run(1)]
      by (simp add: pmm_ok_def)
    then show ?thesis ..
  qed (use run in blast)
qed (metis prod.collapse)

theorem heap_history_safe_witness:
  "\<exists>h ss. heap_reach (fst (kheap_init example_frames example_heap)) h \<and> heap_rep h ss \<and> coalesced ss"
proof -
  obtain base p' where "pmm_alloc_frames HEAP_FRAMES example_frames = (base, p')" "base \<noteq> 0"
    using example_frames_run by blast
  from heap_history_safe [OF example_frames_ok this heap_reach.start] show ?thesis
    using heap_reach.start by blast
qed

text \<open>
  Freeing a pointer a second time changes nothing, whatever the pointer and the state of the
  heap: the release leaves the block marked free even where its header is absorbed.
\<close>

theorem kfree_twice: "kfree p (kfree p h) = kfree p h"
proof (cases "p = 0 \<or> bmagic (hdr h (header_of p)) \<noteq> BLOCK_MAGIC \<or> bfree (hdr h (header_of p)) \<noteq> 0")
  case True
  then have "kfree p h = h" by (auto simp: kfree_def Let_def)
  then show ?thesis by simp
next
  case False
  then have "bfree (hdr (kfree p h) (header_of p)) \<noteq> 0"
    by (simp add: kfree_def Let_def bfree_merge)
  then show ?thesis by (auto simp: kfree_def [of p "kfree p h"] Let_def)
qed

text \<open>
  The rounding of the request wraps for the last seven sizes: \<open>kmalloc\<close> of
  \<open>0xFFFFFFF9 \<dots> 0xFFFFFFFF\<close> bytes succeeds whenever some block is free, and hands out a block of no
  bytes or, when the first free block is too small to split, of fewer than 32.
\<close>

theorem kmalloc_huge_request:
  assumes "heap_rep h ss" "0xFFFFFFF8 < n" "seg_alloc 0 ss = Some (d, ss')"
  shows "\<exists>h' m. kmalloc n h = Some (word_of_nat (unat (heap_start h) + d + 24), h') \<and>
    heap_rep h' ss' \<and> m < 32 \<and> (unat (heap_start h) + d + 24, m) \<in> live h'"
proof -
  have "unat (n + 7) = unat n + 7 - 4294967296" "unat n + 7 - 4294967296 < 8"
    using assms(2) unat32_lt [of n] by (simp_all add: word_less_nat_alt unat_word_ariths mod_if)
  then have "unat (n + 7) < 8" by simp
  then have "drop_bit 3 (n + 7) = 0"
    by (simp add: drop_bit_eq_div word_unat_eq_iff unat_div)
  then have zero: "ALIGN_UP n = 0"
    using and_not_mask_shift [of "n + 7" 3] by (simp add: ALIGN_UP_def mask_eq_exp_minus_1)
  have n0: "n \<noteq> 0" using assms(2) by auto
  obtain xs m ys where s: "ss = xs @ (m, True) # ys" "d = span xs" "ss' = xs @ seg_split 0 m @ ys"
    using assms(3) by (rule seg_alloc_SomeE) simp
  have live: "\<exists>k<32. (unat (heap_start h) + d + 24, k) \<in> set (live_segs (unat (heap_start h)) ss')"
    by (rule exI [of _ "if m < 32 then m else 0"]) (auto simp: s seg_split_def live_segs_append)
  from assms(1) n0 show ?thesis
  proof (cases rule: kmalloc_rep)
    case (block d' ss2 h')
    then show ?thesis using live live_rep [OF block(3)] assms(3) zero by auto
  qed (use assms(3) zero in simp)
qed

theorem kmalloc_huge_request_witness:
  "\<exists>h' m. kmalloc 0xFFFFFFFF example_heap = Some (0x100018, h') \<and> m < 32 \<and> (0x100018, m) \<in> live h'"
proof -
  have "seg_alloc 0 [(1048552, True)] = Some (0, [(0, False), (1048528, True)])"
    by (simp add: seg_alloc_def seg_fits_def seg_split_def)
  then show ?thesis
    using kmalloc_huge_request [OF example_heap_rep, where n = "0xFFFFFFFF" and d = 0] by (auto simp: example_heap_def)
qed

end
