(* ===== verification/Ata.thy ===== *)
theory Ata
  imports Prelude
begin

text \<open>
  The PIO disk driver of \<open>drivers/ata.c\<close> and the port accessors of \<open>include/io.h\<close>.

  The drive itself is hardware: it is a parameter \<open>io\<close>, the four port accesses on a device state
  of any type.  The locale \<open>ata_protocol\<close> states what the ATA standard documents about a drive in
  PIO mode (task file registers, BSY and DRQ, 256 data words per sector), in particular that BSY may
  be set once the last word of a sector has been taken.  The standard leaves open what a command does
  that is written while BSY is set, and \<open>ata_write_sector\<close> writes one: it sends FLUSH right after the
  last word.  \<open>pio_drive\<close> adds the one thing the driver therefore needs beyond the protocol, that such
  a FLUSH does no harm (a drive that ignores it, as the disk of QEMU does, or that does not raise BSY).
  The theorems hold for every such drive, \<open>ref_io\<close> is a concrete one, on which the FLUSH is
  lost, and \<open>abort_io\<close> is a drive that follows the protocol and on which the driver loses the sector.
\<close>

section \<open>Port accesses\<close>

record 'd ports =
  port_inb :: "u16 \<Rightarrow> 'd \<Rightarrow> u8 \<times> 'd"
  port_outb :: "u16 \<Rightarrow> u8 \<Rightarrow> 'd \<Rightarrow> 'd"
  port_inw :: "u16 \<Rightarrow> 'd \<Rightarrow> u16 \<times> 'd"
  port_outw :: "u16 \<Rightarrow> u16 \<Rightarrow> 'd \<Rightarrow> 'd"

record 'd ata =
  total_sectors :: u32
  present :: bool
  dev :: 'd

definition outb :: "'d ports \<Rightarrow> u16 \<Rightarrow> u8 \<Rightarrow> 'd \<Rightarrow> 'd" where
  "outb io port v d = port_outb io port v d"

definition inb :: "'d ports \<Rightarrow> u16 \<Rightarrow> 'd \<Rightarrow> u8 \<times> 'd" where
  "inb io port d = port_inb io port d"

definition outw :: "'d ports \<Rightarrow> u16 \<Rightarrow> u16 \<Rightarrow> 'd \<Rightarrow> 'd" where
  "outw io port v d = port_outw io port v d"

definition inw :: "'d ports \<Rightarrow> u16 \<Rightarrow> 'd \<Rightarrow> u16 \<times> 'd" where
  "inw io port d = port_inw io port d"

definition ATA_DATA :: u16 where "ATA_DATA = 0x1F0"
definition ATA_ERROR :: u16 where "ATA_ERROR = 0x1F1"
definition ATA_SECCOUNT :: u16 where "ATA_SECCOUNT = 0x1F2"
definition ATA_LBA_LOW :: u16 where "ATA_LBA_LOW = 0x1F3"
definition ATA_LBA_MID :: u16 where "ATA_LBA_MID = 0x1F4"
definition ATA_LBA_HIGH :: u16 where "ATA_LBA_HIGH = 0x1F5"
definition ATA_DRIVE :: u16 where "ATA_DRIVE = 0x1F6"
definition ATA_STATUS :: u16 where "ATA_STATUS = 0x1F7"
definition ATA_COMMAND :: u16 where "ATA_COMMAND = 0x1F7"

definition STATUS_ERR :: u8 where "STATUS_ERR = 0x01"
definition STATUS_DRQ :: u8 where "STATUS_DRQ = 0x08"
definition STATUS_DF :: u8 where "STATUS_DF = 0x20"
definition STATUS_BSY :: u8 where "STATUS_BSY = 0x80"

definition CMD_READ :: u8 where "CMD_READ = 0x20"
definition CMD_WRITE :: u8 where "CMD_WRITE = 0x30"
definition CMD_FLUSH :: u8 where "CMD_FLUSH = 0xE7"
definition CMD_IDENTIFY :: u8 where "CMD_IDENTIFY = 0xEC"

abbreviation SECTOR_SIZE :: nat where
  "SECTOR_SIZE \<equiv> 512"

section \<open>The driver\<close>

definition ata_delay :: "'d ports \<Rightarrow> 'd \<Rightarrow> 'd" where
  "ata_delay io d = ((\<lambda>d. snd (inb io ATA_STATUS d)) ^^ 4) d"

text \<open>The polling loops, with the number of polls that are left.\<close>

fun poll_not_busy :: "'d ports \<Rightarrow> nat \<Rightarrow> 'd \<Rightarrow> bool \<times> 'd" where
  "poll_not_busy io 0 d = (False, d)"
| "poll_not_busy io (Suc n) d =
     (case inb io ATA_STATUS d of (status, d') \<Rightarrow>
        if status AND STATUS_BSY = 0 then (True, d') else poll_not_busy io n d')"

definition wait_not_busy :: "'d ports \<Rightarrow> 'd \<Rightarrow> bool \<times> 'd" where
  "wait_not_busy io d = poll_not_busy io 100000 d"

fun poll_ready :: "'d ports \<Rightarrow> nat \<Rightarrow> 'd \<Rightarrow> bool \<times> 'd" where
  "poll_ready io 0 d = (False, d)"
| "poll_ready io (Suc n) d =
     (case inb io ATA_STATUS d of (status, d') \<Rightarrow>
        if status AND (STATUS_ERR OR STATUS_DF) \<noteq> 0 then (False, d')
        else if status AND STATUS_DRQ \<noteq> 0 then (True, d')
        else poll_ready io n d')"

definition wait_ready :: "'d ports \<Rightarrow> 'd \<Rightarrow> bool \<times> 'd" where
  "wait_ready io d =
     (case wait_not_busy io d of (ok, d') \<Rightarrow>
        if \<not> ok then (False, d') else poll_ready io 100000 d')"

definition select_sector :: "'d ports \<Rightarrow> u32 \<Rightarrow> u8 \<Rightarrow> 'd \<Rightarrow> 'd" where
  "select_sector io lba count d =
     (let d = outb io ATA_DRIVE (ucast (0xE0 OR (drop_bit 24 lba AND 0x0F))) d;
          d = outb io ATA_ERROR 0 d;
          d = outb io ATA_SECCOUNT count d;
          d = outb io ATA_LBA_LOW (ucast (lba AND 0xFF)) d;
          d = outb io ATA_LBA_MID (ucast (drop_bit 8 lba AND 0xFF)) d
      in outb io ATA_LBA_HIGH (ucast (drop_bit 16 lba AND 0xFF)) d)"

fun read_words :: "'d ports \<Rightarrow> nat \<Rightarrow> 'd \<Rightarrow> u16 list \<times> 'd" where
  "read_words io 0 d = ([], d)"
| "read_words io (Suc n) d =
     (case inw io ATA_DATA d of (w, d') \<Rightarrow>
        case read_words io n d' of (ws, d'') \<Rightarrow> (w # ws, d''))"

fun write_words :: "'d ports \<Rightarrow> u16 list \<Rightarrow> 'd \<Rightarrow> 'd" where
  "write_words io [] d = d"
| "write_words io (w # ws) d = write_words io ws (outw io ATA_DATA w d)"

text \<open>A sector buffer is 512 bytes; the driver accesses it as 256 little-endian words.\<close>

fun bytes_of_words :: "u16 list \<Rightarrow> u8 list" where
  "bytes_of_words [] = []"
| "bytes_of_words (w # ws) = ucast w # ucast (drop_bit 8 w) # bytes_of_words ws"

fun words_of_bytes :: "u8 list \<Rightarrow> u16 list" where
  "words_of_bytes (a # b # bs) = (ucast a OR push_bit 8 (ucast b)) # words_of_bytes bs"
| "words_of_bytes _ = []"

definition ata_init :: "'d ports \<Rightarrow> 'd ata \<Rightarrow> bool \<times> 'd ata" where
  "ata_init io a =
     (let d = ata_delay io (outb io ATA_DRIVE 0xA0 (dev a))
      in case inb io ATA_STATUS d of (status, d) \<Rightarrow>
           if status = 0 then (False, a\<lparr>dev := d\<rparr>)
           else
             let d = ata_delay io (outb io ATA_COMMAND CMD_IDENTIFY (select_sector io 0 0 d))
             in case inb io ATA_STATUS d of (status, d) \<Rightarrow>
                  if status = 0 then (False, a\<lparr>dev := d\<rparr>)
                  else
                    case wait_ready io d of (ok, d) \<Rightarrow>
                      if \<not> ok then (False, a\<lparr>dev := d\<rparr>)
                      else
                        case read_words io 256 d of (identify, d) \<Rightarrow>
                          (True, \<lparr>total_sectors = ucast (identify ! 60) OR push_bit 16 (ucast (identify ! 61)),
                                  present = True, dev = d\<rparr>))"

text \<open>\<open>None\<close> is the return value 0; the buffer is not written then.\<close>

definition ata_read_sector :: "'d ports \<Rightarrow> u32 \<Rightarrow> 'd ata \<Rightarrow> u8 list option \<times> 'd ata" where
  "ata_read_sector io lba a =
     (if \<not> present a then (None, a)
      else
        case wait_not_busy io (dev a) of (ok, d) \<Rightarrow>
          if \<not> ok then (None, a\<lparr>dev := d\<rparr>)
          else
            let d = ata_delay io (outb io ATA_COMMAND CMD_READ (select_sector io lba 1 d))
            in case wait_ready io d of (ok, d) \<Rightarrow>
                 if \<not> ok then (None, a\<lparr>dev := d\<rparr>)
                 else
                   case read_words io (SECTOR_SIZE div 2) d of (out, d) \<Rightarrow>
                     (Some (bytes_of_words out), a\<lparr>dev := d\<rparr>))"

definition ata_write_sector :: "'d ports \<Rightarrow> u32 \<Rightarrow> u8 list \<Rightarrow> 'd ata \<Rightarrow> bool \<times> 'd ata" where
  "ata_write_sector io lba buffer a =
     (if \<not> present a then (False, a)
      else
        case wait_not_busy io (dev a) of (ok, d) \<Rightarrow>
          if \<not> ok then (False, a\<lparr>dev := d\<rparr>)
          else
            let d = ata_delay io (outb io ATA_COMMAND CMD_WRITE (select_sector io lba 1 d))
            in case wait_ready io d of (ok, d) \<Rightarrow>
                 if \<not> ok then (False, a\<lparr>dev := d\<rparr>)
                 else
                   let d = write_words io (take (SECTOR_SIZE div 2) (words_of_bytes buffer)) d;
                       d = outb io ATA_COMMAND CMD_FLUSH d
                   in (True, a\<lparr>dev := snd (wait_not_busy io d)\<rparr>))"

definition ata_sector_count :: "'d ata \<Rightarrow> u32" where
  "ata_sector_count a = total_sectors a"

section \<open>Words and bytes\<close>

lemma length_bytes_of_words [simp]: "length (bytes_of_words ws) = 2 * length ws"
  by (induction ws) simp_all

lemma length_words_of_bytes: "length (words_of_bytes bs) = length bs div 2"
  by (induction bs rule: words_of_bytes.induct) simp_all

lemma byte_halves:
  "ucast (ucast a OR push_bit 8 (ucast b) :: u16) = (a :: u8)"
  "ucast (drop_bit 8 (ucast a OR push_bit 8 (ucast b) :: u16)) = (b :: u8)"
proof -
  show "ucast (ucast a OR push_bit 8 (ucast b) :: u16) = a"
    by (rule bit_word_eqI) (simp add: bit_ucast_iff bit_or_iff bit_push_bit_iff)
  show "ucast (drop_bit 8 (ucast a OR push_bit 8 (ucast b) :: u16)) = b"
    by (rule bit_word_eqI)
      (auto simp: bit_ucast_iff bit_or_iff bit_push_bit_iff bit_drop_bit_eq dest: bit_imp_le_length)
qed

lemma bytes_words_id: "even (length bs) \<Longrightarrow> bytes_of_words (words_of_bytes bs) = bs"
  by (induction bs rule: words_of_bytes.induct) (simp_all add: byte_halves del: drop_bit_or)

text \<open>The LBA28 sector number held by the task file registers.\<close>

definition lba_of :: "(u16 \<Rightarrow> u8) \<Rightarrow> u32" where
  "lba_of r = ucast (r ATA_LBA_LOW) OR push_bit 8 (ucast (r ATA_LBA_MID)) OR
     push_bit 16 (ucast (r ATA_LBA_HIGH)) OR push_bit 24 (ucast (r ATA_DRIVE AND 0x0F))"

lemma lba28_registers:
  assumes "unat lba < 2 ^ 28"
    and "r ATA_LBA_LOW = ucast (lba AND 0xFF)" "r ATA_LBA_MID = ucast (drop_bit 8 lba AND 0xFF)"
    and "r ATA_LBA_HIGH = ucast (drop_bit 16 lba AND 0xFF)"
    and "r ATA_DRIVE = ucast (0xE0 OR (drop_bit 24 lba AND 0x0F))"
  shows "lba_of r = lba"
proof -
  have top: "\<not> bit lba k" if "28 \<le> k" for k
  proof -
    have "unat lba < 2 ^ k" using assms(1) that by (meson less_le_trans power_increasing one_le_numeral)
    then have "take_bit k (unat lba) = unat lba" by (simp add: take_bit_nat_eq_self)
    then have "\<not> bit (unat lba) k" by (metis bit_take_bit_iff less_irrefl)
    then show ?thesis by (simp add: bit_unsigned_iff)
  qed
  have ff: "(0xFF :: u32) = mask 8" "(0x0F :: u32) = mask 4" "(0x0F :: u8) = mask 4"
    by (simp_all add: mask_eq_exp_minus_1)
  have e0: "\<not> bit (0xE0 :: u32) k" if "k < 4" for k
    using that by (auto simp: less_Suc_eq numeral_eq_Suc)
  show ?thesis
  proof (rule bit_word_eqI)
    fix k
    assume "k < LENGTH(32)"
    then consider "k < 8" | "8 \<le> k" "k < 16" | "16 \<le> k" "k < 24" | "24 \<le> k" "k < 28" | "28 \<le> k" "k < 32"
      by fastforce
    then show "bit (lba_of r) k = bit lba k"
      unfolding lba_of_def assms ff
      using e0 [of "k - 24"]
      by cases (simp_all add: bit_or_iff bit_push_bit_iff bit_ucast_iff bit_and_iff bit_mask_iff
          bit_drop_bit_eq top, auto)
  qed
qed

section \<open>What the ATA standard documents of a drive\<close>

text \<open>
  The transfer a drive is in the middle of: none, the words of a sector still to be read, or the
  words of a sector received so far.
\<close>

datatype phase = Idle | Reading "u16 list" | Writing u32 "u16 list"

text \<open>
  \<open>busy d\<close> is the number of status reads for which BSY stays set; \<open>busy_bound\<close> is the bound of the
  polling loops, beyond which the driver gives up.  After a command and after the last word of a
  sector the drive may be busy (\<open>cmd_read\<close>, \<open>cmd_write\<close>, \<open>cmd_flush\<close>, \<open>cmd_identify\<close> and \<open>data_last\<close> say nothing of
  \<open>busy\<close> but what \<open>busy_bound\<close> gives); between the words of one sector it is not.
\<close>

locale ata_protocol =
  fixes io :: "'d ports"
    and sectors :: "'d \<Rightarrow> u32 \<Rightarrow> u8 list"
    and phase :: "'d \<Rightarrow> phase"
    and reg :: "'d \<Rightarrow> u16 \<Rightarrow> u8"
    and busy :: "'d \<Rightarrow> nat"
    and good :: "'d \<Rightarrow> bool"
    and capacity :: u32
  assumes capacity_lba28: "unat capacity \<le> 2 ^ 28"
    and sector_length: "good d \<Longrightarrow> length (sectors d lba) = 512"
    and busy_bound: "good d \<Longrightarrow> busy d < 100000"
    and status_keeps: "good d \<Longrightarrow> inb io ATA_STATUS d = (st, d') \<Longrightarrow>
      good d' \<and> phase d' = phase d \<and> sectors d' = sectors d \<and> reg d' = reg d \<and> busy d' = busy d - 1"
    and status_bits: "good d \<Longrightarrow> inb io ATA_STATUS d = (st, d') \<Longrightarrow>
      (st AND STATUS_BSY = 0 \<longleftrightarrow> busy d = 0) \<and>
      (busy d = 0 \<longrightarrow> st AND (STATUS_ERR OR STATUS_DF) = 0 \<and>
         (st AND STATUS_DRQ \<noteq> 0 \<longleftrightarrow> phase d \<noteq> Idle) \<and> st \<noteq> 0)"
    and taskfile: "good d \<Longrightarrow> busy d = 0 \<Longrightarrow> phase d = Idle \<Longrightarrow>
      port \<in> {ATA_ERROR, ATA_SECCOUNT, ATA_LBA_LOW, ATA_LBA_MID, ATA_LBA_HIGH, ATA_DRIVE} \<Longrightarrow>
      good (outb io port v d) \<and> busy (outb io port v d) = 0 \<and> phase (outb io port v d) = Idle \<and>
      sectors (outb io port v d) = sectors d \<and> reg (outb io port v d) = (reg d)(port := v)"
    and cmd_read: "good d \<Longrightarrow> busy d = 0 \<Longrightarrow> phase d = Idle \<Longrightarrow> reg d ATA_SECCOUNT = 1 \<Longrightarrow>
      lba_of (reg d) < capacity \<Longrightarrow>
      good (outb io ATA_COMMAND CMD_READ d) \<and> sectors (outb io ATA_COMMAND CMD_READ d) = sectors d \<and>
      phase (outb io ATA_COMMAND CMD_READ d) = Reading (words_of_bytes (sectors d (lba_of (reg d))))"
    and cmd_write: "good d \<Longrightarrow> busy d = 0 \<Longrightarrow> phase d = Idle \<Longrightarrow> reg d ATA_SECCOUNT = 1 \<Longrightarrow>
      lba_of (reg d) < capacity \<Longrightarrow>
      good (outb io ATA_COMMAND CMD_WRITE d) \<and> sectors (outb io ATA_COMMAND CMD_WRITE d) = sectors d \<and>
      phase (outb io ATA_COMMAND CMD_WRITE d) = Writing (lba_of (reg d)) []"
    and cmd_flush: "good d \<Longrightarrow> busy d = 0 \<Longrightarrow> phase d = Idle \<Longrightarrow>
      good (outb io ATA_COMMAND CMD_FLUSH d) \<and> sectors (outb io ATA_COMMAND CMD_FLUSH d) = sectors d \<and>
      phase (outb io ATA_COMMAND CMD_FLUSH d) = Idle"
    and cmd_identify: "good d \<Longrightarrow> busy d = 0 \<Longrightarrow> phase d = Idle \<Longrightarrow>
      good (outb io ATA_COMMAND CMD_IDENTIFY d) \<and>
      sectors (outb io ATA_COMMAND CMD_IDENTIFY d) = sectors d \<and>
      (\<exists>ws. phase (outb io ATA_COMMAND CMD_IDENTIFY d) = Reading ws \<and> length ws = 256 \<and>
         ucast (ws ! 60) OR push_bit 16 (ucast (ws ! 61)) = capacity)"
    and data_in: "good d \<Longrightarrow> busy d = 0 \<Longrightarrow> phase d = Reading (w # ws) \<Longrightarrow>
      \<exists>d'. inw io ATA_DATA d = (w, d') \<and> good d' \<and> busy d' = 0 \<and> sectors d' = sectors d \<and>
           phase d' = (if ws = [] then Idle else Reading ws)"
    and data_out: "good d \<Longrightarrow> busy d = 0 \<Longrightarrow> phase d = Writing lba ws \<Longrightarrow> length ws < 255 \<Longrightarrow>
      good (outw io ATA_DATA w d) \<and> busy (outw io ATA_DATA w d) = 0 \<and>
      phase (outw io ATA_DATA w d) = Writing lba (ws @ [w]) \<and> sectors (outw io ATA_DATA w d) = sectors d"
    and data_last: "good d \<Longrightarrow> busy d = 0 \<Longrightarrow> phase d = Writing lba ws \<Longrightarrow> length ws = 255 \<Longrightarrow>
      good (outw io ATA_DATA w d) \<and> phase (outw io ATA_DATA w d) = Idle \<and>
      sectors (outw io ATA_DATA w d) = (sectors d)(lba := bytes_of_words (ws @ [w]))"
begin

lemma delay_keeps:
  assumes "good d"
  shows "good (ata_delay io d) \<and> phase (ata_delay io d) = phase d \<and> sectors (ata_delay io d) = sectors d"
proof -
  have step: "good (snd (inb io ATA_STATUS d)) \<and> phase (snd (inb io ATA_STATUS d)) = phase d \<and>
      sectors (snd (inb io ATA_STATUS d)) = sectors d" if "good d" for d
    using status_keeps [OF that] by (cases "inb io ATA_STATUS d") auto
  have "good (((\<lambda>d. snd (inb io ATA_STATUS d)) ^^ n) d) \<and>
      phase (((\<lambda>d. snd (inb io ATA_STATUS d)) ^^ n) d) = phase d \<and>
      sectors (((\<lambda>d. snd (inb io ATA_STATUS d)) ^^ n) d) = sectors d" for n
    by (induction n) (use assms step in auto)
  then show ?thesis by (simp add: ata_delay_def)
qed

lemma poll_not_busy_clears:
  assumes "good d" "busy d < n"
  obtains d' where "poll_not_busy io n d = (True, d')" "good d'" "busy d' = 0" "phase d' = phase d"
    "sectors d' = sectors d"
proof -
  have "\<exists>d'. poll_not_busy io n d = (True, d') \<and> good d' \<and> busy d' = 0 \<and> phase d' = phase d \<and>
      sectors d' = sectors d"
    using assms
  proof (induction n arbitrary: d)
    case (Suc n)
    obtain st d1 where d1: "inb io ATA_STATUS d = (st, d1)" by (cases "inb io ATA_STATUS d")
    note k = status_keeps [OF Suc.prems(1) d1] status_bits [OF Suc.prems(1) d1]
    show ?case
    proof (cases "busy d = 0")
      case True
      then show ?thesis using d1 k by simp
    next
      case False
      then have "busy d1 < n" using k Suc.prems(2) by simp
      then show ?thesis using Suc.IH [of d1] d1 k False by simp
    qed
  qed simp
  then show ?thesis using that by blast
qed

lemma wait_not_busy_clears:
  assumes "good d"
  obtains d' where "wait_not_busy io d = (True, d')" "good d'" "busy d' = 0" "phase d' = phase d"
    "sectors d' = sectors d"
  using poll_not_busy_clears [OF assms busy_bound [OF assms]] unfolding wait_not_busy_def by metis

lemma wait_ready_transfer:
  assumes "good d" "phase d \<noteq> Idle"
  obtains d' where "wait_ready io d = (True, d')" "good d'" "busy d' = 0" "phase d' = phase d"
    "sectors d' = sectors d"
proof -
  obtain d1 where d1: "wait_not_busy io d = (True, d1)" "good d1" "busy d1 = 0" "phase d1 = phase d"
    "sectors d1 = sectors d" using wait_not_busy_clears [OF assms(1)] .
  obtain st d2 where d2: "inb io ATA_STATUS d1 = (st, d2)" by (cases "inb io ATA_STATUS d1")
  have "poll_ready io 100000 d1 = (True, d2)"
    using status_bits [OF d1(2) d2] d1 d2 assms(2) poll_ready.simps(2) [of io 99999 d1] by simp
  then show ?thesis
    using that [of d2] status_keeps [OF d1(2) d2] d1 by (simp add: wait_ready_def)
qed

lemma select_sector_keeps:
  assumes "good d" "busy d = 0" "phase d = Idle"
  shows "good (select_sector io lba n d) \<and> busy (select_sector io lba n d) = 0 \<and>
    phase (select_sector io lba n d) = Idle \<and> sectors (select_sector io lba n d) = sectors d"
  unfolding select_sector_def Let_def using assms by (simp add: taskfile)

lemma select_sector_loads:
  assumes "good d" "busy d = 0" "phase d = Idle" "lba < capacity"
  defines "d' \<equiv> select_sector io lba 1 d"
  shows "good d'" "busy d' = 0" "phase d' = Idle" "sectors d' = sectors d"
    "lba_of (reg d') = lba" "reg d' ATA_SECCOUNT = 1"
proof -
  have ports: "ATA_DRIVE \<noteq> ATA_ERROR" "ATA_DRIVE \<noteq> ATA_SECCOUNT" "ATA_DRIVE \<noteq> ATA_LBA_LOW"
    "ATA_DRIVE \<noteq> ATA_LBA_MID" "ATA_DRIVE \<noteq> ATA_LBA_HIGH" "ATA_SECCOUNT \<noteq> ATA_LBA_LOW"
    "ATA_SECCOUNT \<noteq> ATA_LBA_MID" "ATA_SECCOUNT \<noteq> ATA_LBA_HIGH" "ATA_LBA_LOW \<noteq> ATA_LBA_MID"
    "ATA_LBA_LOW \<noteq> ATA_LBA_HIGH" "ATA_LBA_MID \<noteq> ATA_LBA_HIGH"
    by (simp_all add: ATA_DRIVE_def ATA_ERROR_def ATA_SECCOUNT_def ATA_LBA_LOW_def ATA_LBA_MID_def
        ATA_LBA_HIGH_def)
  have st: "good d' \<and> busy d' = 0 \<and> phase d' = Idle \<and> sectors d' = sectors d \<and>
     reg d' = (reg d)(ATA_DRIVE := ucast (0xE0 OR (drop_bit 24 lba AND 0x0F)), ATA_ERROR := 0,
       ATA_SECCOUNT := 1, ATA_LBA_LOW := ucast (lba AND 0xFF),
       ATA_LBA_MID := ucast (drop_bit 8 lba AND 0xFF), ATA_LBA_HIGH := ucast (drop_bit 16 lba AND 0xFF))"
    unfolding d'_def select_sector_def Let_def using assms(1,2,3) by (simp add: taskfile)
  moreover have "unat lba < 2 ^ 28" using assms(4) capacity_lba28 by (simp add: word_less_nat_alt)
  ultimately show "lba_of (reg d') = lba" using ports by (intro lba28_registers) auto
  show "good d'" "busy d' = 0" "phase d' = Idle" "sectors d' = sectors d" "reg d' ATA_SECCOUNT = 1"
    using st ports by auto
qed

lemma read_words_all:
  assumes "good d" "busy d = 0" "phase d = (if ws = [] then Idle else Reading ws)"
  shows "\<exists>d'. read_words io (length ws) d = (ws, d') \<and> good d' \<and> busy d' = 0 \<and> phase d' = Idle \<and>
    sectors d' = sectors d"
  using assms
proof (induction ws arbitrary: d)
  case (Cons w ws)
  then obtain d1 where "inw io ATA_DATA d = (w, d1)" "good d1" "busy d1 = 0" "sectors d1 = sectors d"
    "phase d1 = (if ws = [] then Idle else Reading ws)"
    using data_in [of d w ws] by auto
  then show ?case using Cons.IH [of d1] by auto
qed simp

lemma write_words_all:
  assumes "good d" "busy d = 0" "phase d = Writing lba us" "length us + length ws = 256" "ws \<noteq> []"
  shows "good (write_words io ws d) \<and> phase (write_words io ws d) = Idle \<and>
    sectors (write_words io ws d) = (sectors d)(lba := bytes_of_words (us @ ws))"
  using assms
proof (induction ws arbitrary: d us)
  case (Cons w ws)
  show ?case
  proof (cases "ws = []")
    case True
    then show ?thesis using data_last [OF Cons.prems(1-3), of w] Cons.prems(4) by simp
  next
    case False
    then have "length us < 255" using Cons.prems(4) by (cases ws) auto
    then show ?thesis
      using data_out [OF Cons.prems(1-3), of w] Cons.IH [of "outw io ATA_DATA w d" "us @ [w]"] Cons.prems(4) False
      by simp
  qed
qed simp

lemma read_sector_correct:
  assumes "present a" "good (dev a)" "phase (dev a) = Idle" "lba < capacity"
  shows "\<exists>d'. ata_read_sector io lba a = (Some (sectors (dev a) lba), a\<lparr>dev := d'\<rparr>) \<and> good d' \<and>
    phase d' = Idle \<and> sectors d' = sectors (dev a)"
proof -
  obtain d1 where d1: "wait_not_busy io (dev a) = (True, d1)" "good d1" "busy d1 = 0" "phase d1 = Idle"
    "sectors d1 = sectors (dev a)" using wait_not_busy_clears [OF assms(2)] assms(3) by metis
  define d2 where "d2 = ata_delay io (outb io ATA_COMMAND CMD_READ (select_sector io lba 1 d1))"
  let ?ws = "words_of_bytes (sectors (dev a) lba)"
  note sel = select_sector_loads [OF d1(2-4) assms(4)]
  have ws: "length ?ws = 256" using sector_length [OF assms(2)] by (simp add: length_words_of_bytes)
  have d2: "good d2" "phase d2 = Reading ?ws" "sectors d2 = sectors (dev a)"
    using cmd_read [OF sel(1-3) sel(6)] delay_keeps sel(4,5) d1(5) assms(4) by (simp_all add: d2_def)
  obtain d3 where d3: "wait_ready io d2 = (True, d3)" "good d3" "busy d3 = 0" "phase d3 = Reading ?ws"
    "sectors d3 = sectors (dev a)" using wait_ready_transfer [OF d2(1)] d2 by (metis phase.distinct(1))
  obtain d4 where "read_words io 256 d3 = (?ws, d4)" "good d4" "phase d4 = Idle" "sectors d4 = sectors (dev a)"
    using read_words_all [OF d3(2,3), of ?ws] d3(4,5) ws list.size(3) by (metis (full_types) zero_neq_numeral)
  then show ?thesis
    using assms(1) d1(1) d3(1) sector_length [OF assms(2)]
    by (intro exI [of _ d4]) (simp add: ata_read_sector_def Let_def bytes_words_id flip: d2_def)
qed

text \<open>A write up to the last word; what is left of it is the flush command and the wait after it.\<close>

lemma write_sector_data:
  assumes "present a" "good (dev a)" "phase (dev a) = Idle" "lba < capacity" "length buf = 512"
  obtains d d' where "ata_write_sector io lba buf a =
      (True, a\<lparr>dev := snd (wait_not_busy io (outb io ATA_COMMAND CMD_FLUSH d'))\<rparr>)"
    "d' = write_words io (words_of_bytes buf) d"
    "d = snd (wait_ready io (ata_delay io (outb io ATA_COMMAND CMD_WRITE
       (select_sector io lba 1 (snd (wait_not_busy io (dev a)))))))"
    "good d" "busy d = 0" "phase d = Writing lba []" "sectors d = sectors (dev a)"
    "good d'" "phase d' = Idle" "sectors d' = (sectors (dev a))(lba := buf)"
proof -
  obtain d1 where d1: "wait_not_busy io (dev a) = (True, d1)" "good d1" "busy d1 = 0" "phase d1 = Idle"
    "sectors d1 = sectors (dev a)" using wait_not_busy_clears [OF assms(2)] assms(3) by metis
  define d2 where "d2 = ata_delay io (outb io ATA_COMMAND CMD_WRITE (select_sector io lba 1 d1))"
  let ?ws = "words_of_bytes buf"
  note sel = select_sector_loads [OF d1(2-4) assms(4)]
  have ws: "length ?ws = 256" using assms(5) by (simp add: length_words_of_bytes)
  have d2: "good d2" "phase d2 = Writing lba []" "sectors d2 = sectors (dev a)"
    using cmd_write [OF sel(1-3) sel(6)] delay_keeps sel(4,5) d1(5) assms(4) by (simp_all add: d2_def)
  obtain d3 where d3: "wait_ready io d2 = (True, d3)" "good d3" "busy d3 = 0" "phase d3 = Writing lba []"
    "sectors d3 = sectors (dev a)" using wait_ready_transfer [OF d2(1)] d2 by (metis phase.distinct(3))
  define d4 where "d4 = write_words io ?ws d3"
  have "?ws \<noteq> []" using ws by auto
  then have d4: "good d4" "phase d4 = Idle" "sectors d4 = (sectors (dev a))(lba := buf)"
    using write_words_all [OF d3(2-4)] ws d3(5) assms(5) by (simp_all add: d4_def bytes_words_id)
  show thesis
  proof (rule that [OF _ d4_def _ d3(2-5) d4])
    show "d3 = snd (wait_ready io (ata_delay io (outb io ATA_COMMAND CMD_WRITE
        (select_sector io lba 1 (snd (wait_not_busy io (dev a)))))))"
      using d1(1) d3(1) by (simp flip: d2_def)
  next
    show "ata_write_sector io lba buf a =
        (True, a\<lparr>dev := snd (wait_not_busy io (outb io ATA_COMMAND CMD_FLUSH d4))\<rparr>)"
      using assms(1) d1(1) d3(1) ws by (simp add: ata_write_sector_def Let_def flip: d2_def d4_def)
  qed
qed

lemma status_nonzero:
  assumes "good d" "inb io ATA_STATUS d = (st, d')"
  shows "st \<noteq> 0"
  using status_bits [OF assms] by (cases "busy d = 0") auto

lemma delay_busy: "good d \<Longrightarrow> busy d = 0 \<Longrightarrow> busy (ata_delay io d) = 0"
proof -
  have step: "good (snd (inb io ATA_STATUS d)) \<and> busy (snd (inb io ATA_STATUS d)) = 0"
    if "good d" "busy d = 0" for d
    using status_keeps [OF that(1)] that(2) by (cases "inb io ATA_STATUS d") auto
  assume "good d" "busy d = 0"
  then show ?thesis by (simp add: ata_delay_def numeral_eq_Suc step)
qed

lemma init_correct:
  assumes "good (dev a)" "busy (dev a) = 0" "phase (dev a) = Idle"
  shows "\<exists>d'. ata_init io a = (True, \<lparr>total_sectors = capacity, present = True, dev = d'\<rparr>) \<and> good d' \<and>
    phase d' = Idle \<and> sectors d' = sectors (dev a)"
proof -
  define d1 where "d1 = ata_delay io (outb io ATA_DRIVE 0xA0 (dev a))"
  have d1: "good d1" "busy d1 = 0" "phase d1 = Idle" "sectors d1 = sectors (dev a)"
    using taskfile [OF assms, where port = ATA_DRIVE] delay_keeps delay_busy by (simp_all add: d1_def)
  obtain st1 d2 where s1: "inb io ATA_STATUS d1 = (st1, d2)" by (cases "inb io ATA_STATUS d1")
  have d2: "st1 \<noteq> 0" "good d2" "busy d2 = 0" "phase d2 = Idle" "sectors d2 = sectors (dev a)"
    using status_nonzero [OF d1(1) s1] status_keeps [OF d1(1) s1] d1 by auto
  define d3 where "d3 = ata_delay io (outb io ATA_COMMAND CMD_IDENTIFY (select_sector io 0 0 d2))"
  obtain ws where ws: "length ws = 256" "ucast (ws ! 60) OR push_bit 16 (ucast (ws ! 61)) = capacity"
    and d3: "good d3" "phase d3 = Reading ws" "sectors d3 = sectors (dev a)"
    using select_sector_keeps [OF d2(2-4), of 0 0] cmd_identify [of "select_sector io 0 0 d2"] delay_keeps d2(5)
    unfolding d3_def by metis
  obtain st2 d4 where s2: "inb io ATA_STATUS d3 = (st2, d4)" by (cases "inb io ATA_STATUS d3")
  have d4: "st2 \<noteq> 0" "good d4" "phase d4 = Reading ws" "sectors d4 = sectors (dev a)"
    using status_nonzero [OF d3(1) s2] status_keeps [OF d3(1) s2] d3 by auto
  obtain d5 where d5: "wait_ready io d4 = (True, d5)" "good d5" "busy d5 = 0" "phase d5 = Reading ws"
    "sectors d5 = sectors (dev a)" using wait_ready_transfer [OF d4(2)] d4 by (metis phase.distinct(1))
  obtain d6 where d6: "read_words io 256 d5 = (ws, d6)" "good d6" "phase d6 = Idle" "sectors d6 = sectors (dev a)"
    using read_words_all [OF d5(2,3), of ws] d5(4,5) ws list.size(3) by (metis (full_types) zero_neq_numeral)
  then show ?thesis
    using s1 s2 d2(1) d4(1) d5(1) ws(2)
    by (intro exI [of _ d6]) (simp add: ata_init_def Let_def flip: d1_def d3_def)
qed

end

text \<open>
  The drive the driver needs: one that follows the protocol and is not disturbed by a FLUSH that
  arrives while BSY is still set after the last word.  The protocol forbids the host to send it and
  says nothing of what it does; a drive may ignore it (and then the sector is not flushed).
\<close>

locale pio_drive = ata_protocol +
  assumes flush_while_busy: "good d \<Longrightarrow> 0 < busy d \<Longrightarrow> phase d = Idle \<Longrightarrow>
      good (outb io ATA_COMMAND CMD_FLUSH d) \<and> sectors (outb io ATA_COMMAND CMD_FLUSH d) = sectors d \<and>
      phase (outb io ATA_COMMAND CMD_FLUSH d) = Idle"
begin

lemma flush_harmless:
  assumes "good d" "phase d = Idle"
  shows "good (outb io ATA_COMMAND CMD_FLUSH d) \<and> sectors (outb io ATA_COMMAND CMD_FLUSH d) = sectors d \<and>
    phase (outb io ATA_COMMAND CMD_FLUSH d) = Idle"
  using cmd_flush [OF assms(1) _ assms(2)] flush_while_busy [OF assms(1) _ assms(2)] by (cases "busy d") simp_all

lemma write_sector_correct:
  assumes "present a" "good (dev a)" "phase (dev a) = Idle" "lba < capacity" "length buf = 512"
  shows "\<exists>d'. ata_write_sector io lba buf a = (True, a\<lparr>dev := d'\<rparr>) \<and> good d' \<and> phase d' = Idle \<and>
    sectors d' = (sectors (dev a))(lba := buf)"
proof -
  obtain d d1 where w: "ata_write_sector io lba buf a =
      (True, a\<lparr>dev := snd (wait_not_busy io (outb io ATA_COMMAND CMD_FLUSH d1))\<rparr>)"
    and d1: "good d1" "phase d1 = Idle" "sectors d1 = (sectors (dev a))(lba := buf)"
    using write_sector_data [OF assms] .
  obtain d2 where "wait_not_busy io (outb io ATA_COMMAND CMD_FLUSH d1) = (True, d2)" "good d2"
    "phase d2 = Idle" "sectors d2 = sectors d1"
    using wait_not_busy_clears flush_harmless [OF d1(1,2)] by metis
  then show ?thesis using w d1 by (intro exI [of _ d2]) simp
qed

end

section \<open>The sector interface\<close>

text \<open>What the file system relies on: an array of sectors with working reads and writes.\<close>

locale sector_disk =
  fixes rd :: "u32 \<Rightarrow> 's \<Rightarrow> u8 list option \<times> 's"
    and wr :: "u32 \<Rightarrow> u8 list \<Rightarrow> 's \<Rightarrow> bool \<times> 's"
    and count :: "'s \<Rightarrow> u32"
    and view :: "'s \<Rightarrow> u32 \<Rightarrow> u8 list"
    and ready :: "'s \<Rightarrow> bool"
  assumes view_length: "ready s \<Longrightarrow> length (view s lba) = 512"
    and rd_ok: "ready s \<Longrightarrow> lba < count s \<Longrightarrow>
      \<exists>s'. rd lba s = (Some (view s lba), s') \<and> ready s' \<and> view s' = view s \<and> count s' = count s"
    and wr_ok: "ready s \<Longrightarrow> lba < count s \<Longrightarrow> length buf = 512 \<Longrightarrow>
      \<exists>s'. wr lba buf s = (True, s') \<and> ready s' \<and> view s' = (view s)(lba := buf) \<and> count s' = count s"

definition ata_ready :: "('d \<Rightarrow> phase) \<Rightarrow> ('d \<Rightarrow> bool) \<Rightarrow> u32 \<Rightarrow> 'd ata \<Rightarrow> bool" where
  "ata_ready phase good capacity a \<longleftrightarrow>
     present a \<and> good (dev a) \<and> phase (dev a) = Idle \<and> total_sectors a = capacity"

sublocale pio_drive \<subseteq> ata: sector_disk "ata_read_sector io" "ata_write_sector io" ata_sector_count
  "\<lambda>a. sectors (dev a)" "ata_ready phase good capacity"
proof
  fix a lba
  assume a: "ata_ready phase good capacity a"
  then show "length (sectors (dev a) lba) = 512" by (simp add: ata_ready_def sector_length)
next
  fix a lba
  assume a: "ata_ready phase good capacity a" "lba < ata_sector_count a"
  then show "\<exists>a'. ata_read_sector io lba a = (Some (sectors (dev a) lba), a') \<and>
      ata_ready phase good capacity a' \<and> sectors (dev a') = sectors (dev a) \<and>
      ata_sector_count a' = ata_sector_count a"
    using read_sector_correct [of a lba] by (auto simp: ata_ready_def ata_sector_count_def)
next
  fix a lba and buf :: "u8 list"
  assume a: "ata_ready phase good capacity a" "lba < ata_sector_count a" "length buf = 512"
  then show "\<exists>a'. ata_write_sector io lba buf a = (True, a') \<and> ata_ready phase good capacity a' \<and>
      sectors (dev a') = (sectors (dev a))(lba := buf) \<and> ata_sector_count a' = ata_sector_count a"
    using write_sector_correct [of a lba buf] by (auto simp: ata_ready_def ata_sector_count_def)
qed

section \<open>A reference drive\<close>

text \<open>
  A drive of 256 sectors that is busy for three status reads after each command and after the last
  word of a sector, and ignores a command it is sent meanwhile.  \<open>d_flushes\<close> counts the FLUSH commands
  it has carried out; \<open>d_before\<close> holds the sectors as they were before the last write.
\<close>

record drive =
  d_sectors :: "u32 \<Rightarrow> u8 list"
  d_phase :: phase
  d_reg :: "u16 \<Rightarrow> u8"
  d_busy :: nat
  d_before :: "u32 \<Rightarrow> u8 list"
  d_flushes :: nat

definition ref_capacity :: u32 where
  "ref_capacity = 256"

definition ref_inb :: "u16 \<Rightarrow> drive \<Rightarrow> u8 \<times> drive" where
  "ref_inb port d =
     (if port = ATA_STATUS
      then (if d_busy d > 0 then 0x80 else if d_phase d = Idle then 0x40 else 0x48,
            d\<lparr>d_busy := d_busy d - 1\<rparr>)
      else (d_reg d port, d))"

definition ref_command :: "u8 \<Rightarrow> drive \<Rightarrow> drive" where
  "ref_command c d =
     (if d_busy d > 0 then d
      else if c = CMD_READ
      then d\<lparr>d_phase := Reading (words_of_bytes (d_sectors d (lba_of (d_reg d)))), d_busy := 3\<rparr>
      else if c = CMD_WRITE then d\<lparr>d_phase := Writing (lba_of (d_reg d)) [], d_busy := 3\<rparr>
      else if c = CMD_IDENTIFY
      then d\<lparr>d_phase := Reading ((replicate 256 0)[60 := ucast ref_capacity]), d_busy := 3\<rparr>
      else if c = CMD_FLUSH then d\<lparr>d_busy := 3, d_flushes := Suc (d_flushes d)\<rparr>
      else d\<lparr>d_busy := 3\<rparr>)"

definition ref_outb :: "u16 \<Rightarrow> u8 \<Rightarrow> drive \<Rightarrow> drive" where
  "ref_outb port v d =
     (if port = ATA_COMMAND then ref_command v d else d\<lparr>d_reg := (d_reg d)(port := v)\<rparr>)"

definition ref_inw :: "u16 \<Rightarrow> drive \<Rightarrow> u16 \<times> drive" where
  "ref_inw port d =
     (case d_phase d of
        Reading (w # ws) \<Rightarrow> (w, d\<lparr>d_phase := if ws = [] then Idle else Reading ws\<rparr>)
      | _ \<Rightarrow> (0, d))"

definition ref_outw :: "u16 \<Rightarrow> u16 \<Rightarrow> drive \<Rightarrow> drive" where
  "ref_outw port w d =
     (case d_phase d of
        Writing lba ws \<Rightarrow>
          if length ws < 255 then d\<lparr>d_phase := Writing lba (ws @ [w])\<rparr>
          else d\<lparr>d_phase := Idle, d_sectors := (d_sectors d)(lba := bytes_of_words (ws @ [w])),
                 d_before := d_sectors d, d_busy := 3\<rparr>
      | _ \<Rightarrow> d)"

definition ref_io :: "drive ports" where
  "ref_io = \<lparr>port_inb = ref_inb, port_outb = ref_outb, port_inw = ref_inw, port_outw = ref_outw\<rparr>"

definition ref_good :: "drive \<Rightarrow> bool" where
  "ref_good d \<longleftrightarrow> (\<forall>lba. length (d_sectors d lba) = 512) \<and> d_busy d < 100000 \<and>
     (\<forall>lba ws. d_phase d = Writing lba ws \<longrightarrow> length ws < 256)"

lemmas ref_defs = inb_def outb_def inw_def outw_def ref_io_def ref_inb_def ref_outb_def ref_inw_def
  ref_outw_def ref_command_def ref_good_def

lemmas port_defs = ATA_STATUS_def ATA_COMMAND_def ATA_ERROR_def ATA_SECCOUNT_def ATA_LBA_LOW_def
  ATA_LBA_MID_def ATA_LBA_HIGH_def ATA_DRIVE_def CMD_READ_def CMD_WRITE_def CMD_FLUSH_def
  CMD_IDENTIFY_def STATUS_BSY_def STATUS_ERR_def STATUS_DF_def STATUS_DRQ_def

interpretation ref: pio_drive ref_io d_sectors d_phase d_reg d_busy ref_good ref_capacity
proof (unfold_locales, goal_cases)
  case (5 d st d')
  then show ?case by (auto simp: ref_defs port_defs split: if_splits)
next
  case (6 d port v)
  then show ?case by (auto simp: ref_defs port_defs)
next
  case (12 d lba ws w)
  then show ?case by (auto simp: ref_defs)
next
  case (13 d lba ws w)
  then show ?case by (auto simp: ref_defs)
qed (auto simp: ref_defs port_defs ref_capacity_def)

section \<open>The flush command\<close>

text \<open>
  Another drive that follows the protocol: a command written while it is busy aborts the write that
  keeps it busy.
\<close>

definition abort_outb :: "u16 \<Rightarrow> u8 \<Rightarrow> drive \<Rightarrow> drive" where
  "abort_outb port v d =
     (if port = ATA_COMMAND \<and> d_busy d > 0 then d\<lparr>d_sectors := d_before d\<rparr> else ref_outb port v d)"

definition abort_io :: "drive ports" where
  "abort_io = ref_io\<lparr>port_outb := abort_outb\<rparr>"

definition abort_good :: "drive \<Rightarrow> bool" where
  "abort_good d \<longleftrightarrow> ref_good d \<and> (\<forall>lba. length (d_before d lba) = 512)"

lemmas abort_defs = abort_io_def abort_outb_def abort_good_def ref_defs

interpretation abort: ata_protocol abort_io d_sectors d_phase d_reg d_busy abort_good ref_capacity
proof (unfold_locales, goal_cases)
  case (5 d st d')
  then show ?case by (auto simp: abort_defs port_defs split: if_splits)
next
  case (6 d port v)
  then show ?case by (auto simp: abort_defs port_defs)
next
  case (12 d lba ws w)
  then show ?case by (auto simp: abort_defs)
next
  case (13 d lba ws w)
  then show ?case by (auto simp: abort_defs)
qed (auto simp: abort_defs port_defs ref_capacity_def)

lemma write_words_busy:
  assumes "d_phase d = Writing lba us" "length us + length ws = 256" "ws \<noteq> []"
    and "port_outw io = ref_outw"
  shows "d_busy (write_words io ws d) = 3 \<and> d_before (write_words io ws d) = d_sectors d \<and>
    d_flushes (write_words io ws d) = d_flushes d"
  using assms
proof (induction ws arbitrary: d us)
  case (Cons w ws)
  show ?case
  proof (cases "ws = []")
    case True
    then show ?thesis using Cons.prems by (simp add: outw_def ref_outw_def)
  next
    case False
    then have "length us < 255" using Cons.prems(2) by (cases ws) auto
    then show ?thesis
      using Cons.IH [of "outw io ATA_DATA w d" "us @ [w]"] Cons.prems False by (simp add: outw_def ref_outw_def)
  qed
qed simp

theorem ata_write_aborted:
  assumes "present a" "abort_good (dev a)" "d_phase (dev a) = Idle" "lba < 256" "length buf = 512"
  shows "\<exists>a'. ata_write_sector abort_io lba buf a = (True, a') \<and> d_sectors (dev a') = d_sectors (dev a)"
proof -
  obtain d d1 where w: "ata_write_sector abort_io lba buf a =
      (True, a\<lparr>dev := snd (wait_not_busy abort_io (outb abort_io ATA_COMMAND CMD_FLUSH d1))\<rparr>)"
    and d: "d1 = write_words abort_io (words_of_bytes buf) d" "d_phase d = Writing lba []"
      "d_sectors d = d_sectors (dev a)" and d1: "abort_good d1" "d_phase d1 = Idle"
    using abort.write_sector_data [of a lba buf] assms unfolding ref_capacity_def by metis
  have "length (words_of_bytes buf) = 256" using assms(5) by (simp add: length_words_of_bytes)
  then have "d_busy d1 = 3 \<and> d_before d1 = d_sectors (dev a)"
    using write_words_busy [OF d(2), of "words_of_bytes buf" abort_io] d(1,3) by (force simp: abort_io_def ref_io_def)
  then have f: "outb abort_io ATA_COMMAND CMD_FLUSH d1 = d1\<lparr>d_sectors := d_sectors (dev a)\<rparr>"
    by (simp add: outb_def abort_io_def abort_outb_def)
  have "abort_good (d1\<lparr>d_sectors := d_sectors (dev a)\<rparr>)"
    using d1(1) assms(2) by (simp add: abort_good_def ref_good_def)
  from abort.wait_not_busy_clears [OF this] obtain d2 where
    "wait_not_busy abort_io (d1\<lparr>d_sectors := d_sectors (dev a)\<rparr>) = (True, d2)" "d_sectors d2 = d_sectors (dev a)"
    by auto
  then show ?thesis using w f by simp
qed

text \<open>On the reference drive nothing but a FLUSH that finds the drive idle counts as one.\<close>

lemma poll_flushes [simp]:
  "d_flushes (snd (inb ref_io port d)) = d_flushes d"
  "d_flushes (ata_delay ref_io d) = d_flushes d"
  "d_flushes (snd (poll_not_busy ref_io n d)) = d_flushes d"
  "d_flushes (snd (poll_ready ref_io n d)) = d_flushes d"
proof -
  show inb: "d_flushes (snd (inb ref_io port d)) = d_flushes d" for port d
    by (simp add: inb_def ref_io_def ref_inb_def)
  show "d_flushes (ata_delay ref_io d) = d_flushes d" by (simp add: ata_delay_def numeral_eq_Suc inb)
  show "d_flushes (snd (poll_not_busy ref_io n d)) = d_flushes d"
    by (induction n arbitrary: d) (use inb in \<open>auto split: prod.splits simp: prod_eq_iff\<close>)
  show "d_flushes (snd (poll_ready ref_io n d)) = d_flushes d"
    by (induction n arbitrary: d) (use inb in \<open>auto split: prod.splits simp: prod_eq_iff\<close>)
qed

lemma outb_flushes:
  "port \<noteq> ATA_COMMAND \<or> v \<noteq> CMD_FLUSH \<or> 0 < d_busy d \<Longrightarrow> d_flushes (outb ref_io port v d) = d_flushes d"
  by (auto simp: outb_def ref_io_def ref_outb_def ref_command_def)

lemma transfer_flushes [simp]:
  "d_flushes (snd (wait_not_busy ref_io d)) = d_flushes d"
  "d_flushes (snd (wait_ready ref_io d)) = d_flushes d"
  "d_flushes (select_sector ref_io lba n d) = d_flushes d"
proof -
  show w: "d_flushes (snd (wait_not_busy ref_io d)) = d_flushes d" for d by (simp add: wait_not_busy_def)
  show "d_flushes (snd (wait_ready ref_io d)) = d_flushes d"
    using w [of d] by (cases "wait_not_busy ref_io d") (simp add: wait_ready_def)
  show "d_flushes (select_sector ref_io lba n d) = d_flushes d"
    by (simp add: select_sector_def Let_def outb_flushes port_defs)
qed

theorem ata_flush_lost:
  assumes "present a" "ref_good (dev a)" "d_phase (dev a) = Idle" "lba < 256" "length buf = 512"
  shows "\<exists>a'. ata_write_sector ref_io lba buf a = (True, a') \<and>
    d_sectors (dev a') = (d_sectors (dev a))(lba := buf) \<and> d_flushes (dev a') = d_flushes (dev a)"
proof -
  obtain d d1 where w: "ata_write_sector ref_io lba buf a =
      (True, a\<lparr>dev := snd (wait_not_busy ref_io (outb ref_io ATA_COMMAND CMD_FLUSH d1))\<rparr>)"
    and d: "d1 = write_words ref_io (words_of_bytes buf) d" "d_phase d = Writing lba []"
      "d = snd (wait_ready ref_io (ata_delay ref_io (outb ref_io ATA_COMMAND CMD_WRITE
         (select_sector ref_io lba 1 (snd (wait_not_busy ref_io (dev a)))))))"
    using ref.write_sector_data [of a lba buf] assms unfolding ref_capacity_def by metis
  have "length (words_of_bytes buf) = 256" using assms(5) by (simp add: length_words_of_bytes)
  then have "d_busy d1 = 3 \<and> d_flushes d1 = d_flushes d"
    using write_words_busy [OF d(2), of "words_of_bytes buf" ref_io] d(1) by (force simp: ref_io_def)
  moreover have "d_flushes d = d_flushes (dev a)" unfolding d(3) by (simp add: outb_flushes CMD_WRITE_def CMD_FLUSH_def)
  ultimately have "d_flushes (dev (snd (ata_write_sector ref_io lba buf a))) = d_flushes (dev a)"
    using w by (simp add: outb_flushes)
  then show ?thesis using ref.write_sector_correct [of a lba buf] assms by (auto simp: ref_capacity_def)
qed

section \<open>Properties\<close>





end
