(* ===== verification/Fs.thy ===== *)
theory Fs
  imports Ata Kstring
begin

text \<open>
  ArthicFS of \<open>fs/fs.c\<close> and \<open>include/fs.h\<close>: the on-disk structures with their packed byte layout,
  the block bitmap, direct and indirect blocks, and the file operations, on top of the disk driver
  of \<open>Ata\<close>.

  The two sector buffers of the source are scratch: each use fills the whole buffer first, so they
  are local values here.  A directory entry that the source changes through a pointer into the
  directory is a value here, stored back when the operation returns.  Array accesses of the bitmap
  are list accesses; the invariant keeps every block number below 4096, inside the 512 bytes.
\<close>

section \<open>On-disk structures\<close>

definition FS_MAGIC :: u32 where "FS_MAGIC = 0x41525432"
definition FS_NAME_MAX :: nat where "FS_NAME_MAX = 32"
definition FS_MAX_FILES :: nat where "FS_MAX_FILES = 64"
definition FS_DIR_START :: u32 where "FS_DIR_START = 1"
definition FS_DIR_SECTORS :: nat where "FS_DIR_SECTORS = 16"
definition FS_BITMAP_SECTOR :: u32 where "FS_BITMAP_SECTOR = 17"
definition FS_DATA_START :: u32 where "FS_DATA_START = 18"
definition FS_DIRECT_BLOCKS :: nat where "FS_DIRECT_BLOCKS = 8"
definition FS_BLOCK_SIZE :: nat where "FS_BLOCK_SIZE = 512"
definition FS_PER_INDIRECT :: nat where "FS_PER_INDIRECT = FS_BLOCK_SIZE div 4"
definition FS_MAX_BLOCKS :: nat where "FS_MAX_BLOCKS = FS_DIRECT_BLOCKS + FS_PER_INDIRECT"

abbreviation NO_BLOCK :: u32 where
  "NO_BLOCK \<equiv> 0xFFFFFFFF"

record fs_superblock =
  smagic :: u32
  total_blocks :: u32
  data_start :: u32
  max_files :: u32
  spadding :: "u8 list"

record fs_entry =
  ename :: "u8 list"
  esize :: u32
  eused :: u32
  direct :: "u32 list"
  indirect :: u32
  epadding :: "u8 list"

record 'd fs =
  super :: fs_superblock
  mounted :: bool
  fbitmap :: "u8 list"
  directory :: "fs_entry list"
  disk :: "'d ata"

text \<open>The packed layouts: fields in order, integers little-endian.\<close>

definition le32 :: "u32 \<Rightarrow> u8 list" where
  "le32 v = [ucast v, ucast (drop_bit 8 v), ucast (drop_bit 16 v), ucast (drop_bit 24 v)]"

definition de32 :: "u8 list \<Rightarrow> u32" where
  "de32 bs = ucast (bs ! 0) OR push_bit 8 (ucast (bs ! 1)) OR push_bit 16 (ucast (bs ! 2))
     OR push_bit 24 (ucast (bs ! 3))"

definition words32 :: "nat \<Rightarrow> u8 list \<Rightarrow> u32 list" where
  "words32 n bs = map (\<lambda>i. de32 (drop (4 * i) bs)) [0..<n]"

definition super_bytes :: "fs_superblock \<Rightarrow> u8 list" where
  "super_bytes s = le32 (smagic s) @ le32 (total_blocks s) @ le32 (data_start s) @ le32 (max_files s)
     @ spadding s"

definition super_of :: "u8 list \<Rightarrow> fs_superblock" where
  "super_of bs = \<lparr>smagic = de32 bs, total_blocks = de32 (drop 4 bs), data_start = de32 (drop 8 bs),
     max_files = de32 (drop 12 bs), spadding = drop 16 bs\<rparr>"

definition entry_bytes :: "fs_entry \<Rightarrow> u8 list" where
  "entry_bytes e = ename e @ le32 (esize e) @ le32 (eused e) @ concat (map le32 (direct e))
     @ le32 (indirect e) @ epadding e"

definition entry_of :: "u8 list \<Rightarrow> fs_entry" where
  "entry_of bs = \<lparr>ename = take 32 bs, esize = de32 (drop 32 bs), eused = de32 (drop 36 bs),
     direct = words32 8 (drop 40 bs), indirect = de32 (drop 72 bs), epadding = drop 76 bs\<rparr>"

definition zero_entry :: fs_entry where
  "zero_entry = entry_of (replicate 128 0)"

section \<open>Directory and bitmap\<close>

text \<open>Sector \<open>i\<close> of the directory holds the entries \<open>4i \<dots> 4i+3\<close>.\<close>

fun read_dir_sectors :: "'d ports \<Rightarrow> nat list \<Rightarrow> 'd fs \<Rightarrow> bool \<times> 'd fs" where
  "read_dir_sectors io [] s = (True, s)"
| "read_dir_sectors io (i # is) s =
     (case ata_read_sector io (FS_DIR_START + word_of_nat i) (disk s) of
        (None, d) \<Rightarrow> (False, s\<lparr>disk := d\<rparr>)
      | (Some sec, d) \<Rightarrow>
          read_dir_sectors io is
            (s\<lparr>disk := d, directory := take (4 * i) (directory s)
                 @ map (\<lambda>k. entry_of (take 128 (drop (128 * k) sec))) [0..<4]
                 @ drop (4 * i + 4) (directory s)\<rparr>))"

definition read_directory :: "'d ports \<Rightarrow> 'd fs \<Rightarrow> bool \<times> 'd fs" where
  "read_directory io s = read_dir_sectors io [0..<FS_DIR_SECTORS] s"

fun write_dir_sectors :: "'d ports \<Rightarrow> nat list \<Rightarrow> 'd fs \<Rightarrow> bool \<times> 'd fs" where
  "write_dir_sectors io [] s = (True, s)"
| "write_dir_sectors io (i # is) s =
     (case ata_write_sector io (FS_DIR_START + word_of_nat i)
             (concat (map entry_bytes (take 4 (drop (4 * i) (directory s))))) (disk s) of
        (ok, d) \<Rightarrow>
          if \<not> ok then (False, s\<lparr>disk := d\<rparr>) else write_dir_sectors io is (s\<lparr>disk := d\<rparr>))"

definition write_directory :: "'d ports \<Rightarrow> 'd fs \<Rightarrow> bool \<times> 'd fs" where
  "write_directory io s = write_dir_sectors io [0..<FS_DIR_SECTORS] s"

definition block_used :: "u8 list \<Rightarrow> u32 \<Rightarrow> bool" where
  "block_used bm block \<longleftrightarrow> drop_bit (unat (block mod 8)) (bm ! unat (block div 8)) AND 1 \<noteq> 0"

definition block_mark :: "u32 \<Rightarrow> bool \<Rightarrow> u8 list \<Rightarrow> u8 list" where
  "block_mark block used bm =
     (let i = unat (block div 8); m = push_bit (unat (block mod 8)) 1
      in if used then bm[i := (bm ! i) OR m] else bm[i := (bm ! i) AND NOT m])"

function block_scan :: "u32 \<Rightarrow> u32 \<Rightarrow> u8 list \<Rightarrow> u32 \<times> u8 list" where
  "block_scan b nb bm =
     (if b < nb
      then (if \<not> block_used bm b then (b, block_mark b True bm) else block_scan (b + 1) nb bm)
      else (NO_BLOCK, bm))"
  by pat_completeness auto
termination
  by (relation "measure (\<lambda>(b, nb, bm). unat nb - unat b)") (auto intro: word_loop_measure)

declare block_scan.simps [simp del]

definition block_alloc :: "'d fs \<Rightarrow> u32 \<times> 'd fs" where
  "block_alloc s =
     (case block_scan 0 (total_blocks (super s)) (fbitmap s) of (b, bm) \<Rightarrow> (b, s\<lparr>fbitmap := bm\<rparr>))"

section \<open>Walking a file's blocks\<close>

definition block_at :: "'d ports \<Rightarrow> fs_entry \<Rightarrow> nat \<Rightarrow> 'd fs \<Rightarrow> u32 \<times> 'd fs" where
  "block_at io e index s =
     (if index < FS_DIRECT_BLOCKS then (direct e ! index, s)
      else if indirect e = 0 then (NO_BLOCK, s)
      else
        case ata_read_sector io (data_start (super s) + indirect e) (disk s) of
          (None, d) \<Rightarrow> (NO_BLOCK, s\<lparr>disk := d\<rparr>)
        | (Some buf, d) \<Rightarrow>
            (if index - FS_DIRECT_BLOCKS \<ge> FS_PER_INDIRECT then NO_BLOCK
             else de32 (drop (4 * (index - FS_DIRECT_BLOCKS)) buf), s\<lparr>disk := d\<rparr>))"

text \<open>\<open>((uint32_t *) buffer)[slot] = v\<close>\<close>

definition put32 :: "u8 list \<Rightarrow> nat \<Rightarrow> u32 \<Rightarrow> u8 list" where
  "put32 buf slot v = take (4 * slot) buf @ le32 v @ drop (4 * slot + 4) buf"

definition indirect_ensure :: "'d ports \<Rightarrow> fs_entry \<Rightarrow> 'd fs \<Rightarrow> bool \<times> fs_entry \<times> 'd fs" where
  "indirect_ensure io e s =
     (if indirect e \<noteq> 0 then (True, e, s)
      else
        case block_alloc s of (b, s) \<Rightarrow>
          if b = NO_BLOCK then (False, e, s)
          else
            case ata_write_sector io (data_start (super s) + b) (replicate SECTOR_SIZE 0) (disk s) of
              (ok, d) \<Rightarrow> (ok, e\<lparr>indirect := b\<rparr>, s\<lparr>disk := d\<rparr>))"

definition block_set :: "'d ports \<Rightarrow> fs_entry \<Rightarrow> nat \<Rightarrow> u32 \<Rightarrow> 'd fs \<Rightarrow> bool \<times> fs_entry \<times> 'd fs" where
  "block_set io e index block s =
     (if index < FS_DIRECT_BLOCKS then (True, e\<lparr>direct := (direct e)[index := block]\<rparr>, s)
      else if index - FS_DIRECT_BLOCKS \<ge> FS_PER_INDIRECT then (False, e, s)
      else
        case indirect_ensure io e s of (ok, e, s) \<Rightarrow>
          if \<not> ok then (False, e, s)
          else
            case ata_read_sector io (data_start (super s) + indirect e) (disk s) of
              (None, d) \<Rightarrow> (False, e, s\<lparr>disk := d\<rparr>)
            | (Some buf, d) \<Rightarrow>
                case ata_write_sector io (data_start (super s) + indirect e)
                       (put32 buf (index - FS_DIRECT_BLOCKS) block) d of
                  (ok, d) \<Rightarrow> (ok, e, s\<lparr>disk := d\<rparr>))"

section \<open>Mount and format\<close>

definition fs_mount :: "'d ports \<Rightarrow> 'd fs \<Rightarrow> bool \<times> 'd fs" where
  "fs_mount io s0 =
     (let s = s0\<lparr>mounted := False\<rparr>
      in case ata_read_sector io 0 (disk s) of
           (None, d) \<Rightarrow> (False, s\<lparr>disk := d\<rparr>)
         | (Some sec, d) \<Rightarrow>
             let s = s\<lparr>disk := d, super := super_of sec\<rparr>
             in if smagic (super s) \<noteq> FS_MAGIC then (False, s)
                else
                  case read_directory io s of (ok, s) \<Rightarrow>
                    if \<not> ok then (False, s)
                    else
                      case ata_read_sector io FS_BITMAP_SECTOR (disk s) of
                        (None, d) \<Rightarrow> (False, s\<lparr>disk := d\<rparr>)
                      | (Some bm, d) \<Rightarrow> (True, s\<lparr>disk := d, fbitmap := bm, mounted := True\<rparr>))"

definition fs_format :: "'d ports \<Rightarrow> 'd fs \<Rightarrow> bool \<times> 'd fs" where
  "fs_format io s =
     (let sectors = ata_sector_count (disk s)
      in if sectors \<le> FS_DATA_START then (False, s)
         else
           let data_blocks = sectors - FS_DATA_START;
               data_blocks = (if data_blocks > 4096 then 4096 else data_blocks);
               s = s\<lparr>super := \<lparr>smagic = FS_MAGIC, total_blocks = data_blocks, data_start = FS_DATA_START,
                                max_files = word_of_nat FS_MAX_FILES, spadding = replicate (512 - 16) 0\<rparr>,
                     directory := replicate FS_MAX_FILES zero_entry,
                     fbitmap := replicate SECTOR_SIZE 0\<rparr>
           in case ata_write_sector io 0 (super_bytes (super s)) (disk s) of (ok, d) \<Rightarrow>
                if \<not> ok then (False, s\<lparr>disk := d\<rparr>)
                else
                  case write_directory io (s\<lparr>disk := d\<rparr>) of (ok, s) \<Rightarrow>
                    if \<not> ok then (False, s)
                    else
                      case ata_write_sector io FS_BITMAP_SECTOR (fbitmap s) (disk s) of (ok, d) \<Rightarrow>
                        if \<not> ok then (False, s\<lparr>disk := d\<rparr>)
                        else (True, s\<lparr>disk := d, mounted := True\<rparr>))"

definition fs_is_mounted :: "'d fs \<Rightarrow> bool" where
  "fs_is_mounted s = mounted s"

section \<open>Files\<close>

text \<open>The index of the entry, which the source returns as a pointer into the directory.\<close>

fun find_entry_from :: "nat \<Rightarrow> fs_entry list \<Rightarrow> cstring \<Rightarrow> nat option" where
  "find_entry_from i [] name = None"
| "find_entry_from i (e # es) name =
     (if eused e \<noteq> 0 \<and> kstrcmp (entry_bytes e) name = 0 then Some i
      else find_entry_from (i + 1) es name)"

definition find_entry :: "'d fs \<Rightarrow> cstring \<Rightarrow> nat option" where
  "find_entry s name = find_entry_from 0 (directory s) name"

fun find_free_from :: "nat \<Rightarrow> fs_entry list \<Rightarrow> nat option" where
  "find_free_from i [] = None"
| "find_free_from i (e # es) = (if eused e = 0 then Some i else find_free_from (i + 1) es)"

definition find_free_entry :: "'d fs \<Rightarrow> nat option" where
  "find_free_entry s = find_free_from 0 (directory s)"

definition blocks_of_size :: "u32 \<Rightarrow> nat" where
  "blocks_of_size sz = unat ((sz + word_of_nat FS_BLOCK_SIZE - 1) div word_of_nat FS_BLOCK_SIZE)"

text \<open>
  One iteration of the loop of \<open>write_at\<close>: \<open>chunk\<close> bytes of the data go into the block at \<open>index\<close>,
  from byte \<open>within\<close> of it.  A block past the end of the file is allocated and attached first.
\<close>

definition write_chunk ::
  "'d ports \<Rightarrow> fs_entry \<Rightarrow> nat \<Rightarrow> nat \<Rightarrow> u8 list \<Rightarrow> 'd fs \<Rightarrow> bool \<times> fs_entry \<times> 'd fs" where
  "write_chunk io e index within chunk s =
     (case block_at io e index s of (block, s) \<Rightarrow>
        let (ok, fresh, block, e, s) =
              (if index \<ge> blocks_of_size (esize e) \<or> block = NO_BLOCK
               then (case block_alloc s of (block, s) \<Rightarrow>
                       if block = NO_BLOCK then (False, True, block, e, s)
                       else (case block_set io e index block s of (ok, e, s) \<Rightarrow> (ok, True, block, e, s)))
               else (True, False, block, e, s))
        in if \<not> ok then (False, e, s)
           else
             case (if fresh then (Some (replicate SECTOR_SIZE 0), disk s)
                   else ata_read_sector io (data_start (super s) + block) (disk s)) of
               (None, d) \<Rightarrow> (False, e, s\<lparr>disk := d\<rparr>)
             | (Some buf, d) \<Rightarrow>
                 case ata_write_sector io (data_start (super s) + block)
                        (take within buf @ chunk @ drop (within + length chunk) buf) d of
                   (ok, d) \<Rightarrow> (ok, e, s\<lparr>disk := d\<rparr>))"

text \<open>
  \<open>written\<close> never passes \<open>size\<close>, so only \<open>offset + written\<close> can wrap; the wrap is written out.
\<close>

function write_loop ::
  "'d ports \<Rightarrow> nat \<Rightarrow> u8 list \<Rightarrow> nat \<Rightarrow> nat \<Rightarrow> fs_entry \<Rightarrow> 'd fs \<Rightarrow> bool \<times> fs_entry \<times> 'd fs" where
  "write_loop io offset data sz written e s =
     (if written < sz
      then
        let position = (offset + written) mod 2 ^ 32;
            index = position div FS_BLOCK_SIZE;
            within = position mod FS_BLOCK_SIZE;
            chunk = min (FS_BLOCK_SIZE - within) (sz - written)
        in if index \<ge> FS_MAX_BLOCKS then (False, e, s)
           else
             case write_chunk io e index within (take chunk (drop written data)) s of (ok, e, s) \<Rightarrow>
               if \<not> ok then (False, e, s) else write_loop io offset data sz (written + chunk) e s
      else (True, e, s))"
  by pat_completeness auto
termination
proof (relation "measure (\<lambda>(io, offset, data, sz, written, e, s). sz - written)", goal_cases)
  case (2 io offset data sz written e s position index within chunk)
  have "within < FS_BLOCK_SIZE" unfolding 2(4) by (rule mod_less_divisor) (simp add: FS_BLOCK_SIZE_def)
  then have "0 < chunk" using 2(1) unfolding 2(5) by simp
  then show ?case using 2(1) by simp
qed simp

declare write_loop.simps [simp del]

definition write_at ::
  "'d ports \<Rightarrow> fs_entry \<Rightarrow> u32 \<Rightarrow> u8 list \<Rightarrow> u32 \<Rightarrow> 'd fs \<Rightarrow> bool \<times> fs_entry \<times> 'd fs" where
  "write_at io e offset data sz s = write_loop io (unat offset) data (unat sz) 0 e s"

text \<open>\<open>while (name[n] && n < FS_NAME_MAX) n++\<close>\<close>

function name_length :: "cstring \<Rightarrow> nat \<Rightarrow> nat" where
  "name_length name n =
     (if chr_at (drop n name) \<noteq> 0 \<and> n < FS_NAME_MAX then name_length name (n + 1) else n)"
  by pat_completeness auto
termination
  by (relation "measure (\<lambda>(name, n). FS_NAME_MAX - n)") auto

declare name_length.simps [simp del]

text \<open>The last two writes of every change: the directory, then the bitmap.\<close>

definition write_metadata :: "'d ports \<Rightarrow> 'd fs \<Rightarrow> bool \<times> 'd fs" where
  "write_metadata io s =
     (case write_directory io s of (ok, s) \<Rightarrow>
        if \<not> ok then (False, s)
        else case ata_write_sector io FS_BITMAP_SECTOR (fbitmap s) (disk s) of (ok, d) \<Rightarrow>
          (ok, s\<lparr>disk := d\<rparr>))"

definition set_entry :: "nat \<Rightarrow> fs_entry \<Rightarrow> 'd fs \<Rightarrow> 'd fs" where
  "set_entry i e s = s\<lparr>directory := (directory s)[i := e]\<rparr>"

text \<open>A null \<open>name\<close> is \<open>None\<close>.\<close>

definition fs_create :: "'d ports \<Rightarrow> cstring option \<Rightarrow> u8 list \<Rightarrow> u32 \<Rightarrow> 'd fs \<Rightarrow> bool \<times> 'd fs" where
  "fs_create io nm data sz s =
     (case nm of
        None \<Rightarrow> (False, s)
      | Some name \<Rightarrow>
          if \<not> mounted s \<or> chr_at name = 0 then (False, s)
          else
            let n = name_length name 0
            in if n \<ge> FS_NAME_MAX then (False, s)
               else if find_entry s name \<noteq> None then (False, s)
               else
                 case find_free_entry s of
                   None \<Rightarrow> (False, s)
                 | Some i \<Rightarrow>
                     let e = zero_entry\<lparr>ename := take n name @ drop n (ename zero_entry)\<rparr>
                     in case write_at io e 0 data sz s of (ok, e, s) \<Rightarrow>
                          if \<not> ok then (False, set_entry i zero_entry s)
                          else write_metadata io (set_entry i (e\<lparr>esize := sz, eused := 1\<rparr>) s))"

definition fs_append :: "'d ports \<Rightarrow> cstring \<Rightarrow> u8 list \<Rightarrow> u32 \<Rightarrow> 'd fs \<Rightarrow> bool \<times> 'd fs" where
  "fs_append io name data sz s =
     (if \<not> mounted s then (False, s)
      else
        case find_entry s name of
          None \<Rightarrow> (False, s)
        | Some i \<Rightarrow>
            case write_at io (directory s ! i) (esize (directory s ! i)) data sz s of (ok, e, s) \<Rightarrow>
              if \<not> ok then (False, set_entry i e s)
              else write_metadata io (set_entry i (e\<lparr>esize := esize e + sz\<rparr>) s))"

text \<open>The bytes already copied to the buffer are part of the result of every exit.\<close>

function read_loop ::
  "'d ports \<Rightarrow> fs_entry \<Rightarrow> nat \<Rightarrow> nat \<Rightarrow> nat \<Rightarrow> u8 list \<Rightarrow> 'd fs \<Rightarrow> bool \<times> u8 list \<times> 'd fs" where
  "read_loop io e sz copied index dest s =
     (if copied < sz
      then
        case block_at io e index s of (block, s) \<Rightarrow>
          if block = NO_BLOCK then (False, dest, s)
          else
            case ata_read_sector io (data_start (super s) + block) (disk s) of
              (None, d) \<Rightarrow> (False, dest, s\<lparr>disk := d\<rparr>)
            | (Some buf, d) \<Rightarrow>
                let chunk = min (sz - copied) FS_BLOCK_SIZE
                in read_loop io e sz (copied + chunk) (index + 1) (dest @ take chunk buf) (s\<lparr>disk := d\<rparr>)
      else (True, dest, s))"
  by pat_completeness auto
termination
proof (relation "measure (\<lambda>(io, e, sz, copied, index, dest, s). sz - copied)", goal_cases)
  case (2 io e sz copied index dest s)
  then show ?case by (simp add: FS_BLOCK_SIZE_def)
qed simp

declare read_loop.simps [simp del]

text \<open>The result: success, the bytes stored in the buffer, and \<open>*size_out\<close> where it is set.\<close>

definition fs_read ::
  "'d ports \<Rightarrow> cstring \<Rightarrow> u32 \<Rightarrow> 'd fs \<Rightarrow> (bool \<times> u8 list \<times> u32 option) \<times> 'd fs" where
  "fs_read io name mx s =
     (if \<not> mounted s then ((False, [], None), s)
      else
        case find_entry s name of
          None \<Rightarrow> ((False, [], None), s)
        | Some i \<Rightarrow>
            let e = directory s ! i; sz = (if esize e > mx then mx else esize e)
            in case read_loop io e (unat sz) 0 0 [] s of (ok, dest, s) \<Rightarrow>
                 ((ok, dest, if ok then Some sz else None), s))"

fun free_blocks :: "'d ports \<Rightarrow> fs_entry \<Rightarrow> nat list \<Rightarrow> 'd fs \<Rightarrow> 'd fs" where
  "free_blocks io e [] s = s"
| "free_blocks io e (i # is) s =
     (case block_at io e i s of (block, s) \<Rightarrow>
        free_blocks io e is
          (if block \<noteq> NO_BLOCK then s\<lparr>fbitmap := block_mark block False (fbitmap s)\<rparr> else s))"

definition fs_delete :: "'d ports \<Rightarrow> cstring \<Rightarrow> 'd fs \<Rightarrow> bool \<times> 'd fs" where
  "fs_delete io name s =
     (if \<not> mounted s then (False, s)
      else
        case find_entry s name of
          None \<Rightarrow> (False, s)
        | Some i \<Rightarrow>
            let e = directory s ! i;
                s = free_blocks io e [0..<blocks_of_size (esize e)] s;
                s = (if indirect e \<noteq> 0
                     then s\<lparr>fbitmap := block_mark (indirect e) False (fbitmap s)\<rparr> else s)
            in write_metadata io (set_entry i zero_entry s))"

text \<open>
  A row of the listing: the name as printed, the spaces that pad it to 20 columns, size, blocks,
  and whether the plural and the indirect mark are printed.
\<close>

type_synonym fs_row = "cstring \<times> nat \<times> u32 \<times> nat \<times> bool \<times> bool"

datatype fs_listing = Not_Mounted | Empty_Listing | Rows "fs_row list"

definition fs_row_of :: "fs_entry \<Rightarrow> fs_row" where
  "fs_row_of e =
     (let name = takeWhile (\<lambda>c. c \<noteq> 0) (entry_bytes e); blocks = blocks_of_size (esize e)
      in (name, 20 - length name, esize e, blocks, blocks \<noteq> 1, indirect e \<noteq> 0))"

definition fs_list :: "'d fs \<Rightarrow> fs_listing" where
  "fs_list s =
     (if \<not> mounted s then Not_Mounted
      else
        let rows = map fs_row_of (filter (\<lambda>e. eused e \<noteq> 0) (directory s))
        in if rows = [] then Empty_Listing else Rows rows)"

function used_scan :: "u32 \<Rightarrow> u32 \<Rightarrow> u8 list \<Rightarrow> u32 \<Rightarrow> u32" where
  "used_scan b nb bm u =
     (if b < nb then used_scan (b + 1) nb bm (if block_used bm b then u + 1 else u) else u)"
  by pat_completeness auto
termination
  by (relation "measure (\<lambda>(b, nb, bm, u). unat nb - unat b)") (auto intro: word_loop_measure)

declare used_scan.simps [simp del]

definition fs_stats :: "'d fs \<Rightarrow> u32 \<times> u32 \<times> u32" where
  "fs_stats s =
     (if mounted s
      then (total_blocks (super s), used_scan 0 (total_blocks (super s)) (fbitmap s) 0,
            word_of_nat (length (filter (\<lambda>e. eused e \<noteq> 0) (directory s))))
      else (0, 0, 0))"

section \<open>Byte layouts\<close>

lemmas fs_consts = FS_NAME_MAX_def FS_MAX_FILES_def FS_DIR_SECTORS_def FS_DIRECT_BLOCKS_def
  FS_BLOCK_SIZE_def FS_PER_INDIRECT_def FS_MAX_BLOCKS_def

lemma length_le32 [simp]: "length (le32 v) = 4"
  by (simp add: le32_def)

lemma de32_le32 [simp]: "de32 (le32 v @ bs) = v"
proof (rule bit_word_eqI)
  fix k
  assume "k < LENGTH(32)"
  then consider "k < 8" | "8 \<le> k" "k < 16" | "16 \<le> k" "k < 24" | "24 \<le> k" "k < 32" by fastforce
  then show "bit (de32 (le32 v @ bs)) k = bit v k"
    by cases (simp_all add: de32_def le32_def bit_or_iff bit_push_bit_iff bit_ucast_iff bit_drop_bit_eq
        numeral_2_eq_2 numeral_3_eq_3, auto)
qed

lemma de32_le32_Nil [simp]: "de32 (le32 v) = v"
  using de32_le32 [of v "[]"] by simp

lemma drop_concat_le32: "drop (4 * i) (concat (map le32 xs)) = concat (map le32 (drop i xs))"
proof (induction xs arbitrary: i)
  case (Cons x xs)
  then show ?case by (cases i) (simp_all add: drop_append)
qed simp

lemma length_concat_le32 [simp]: "length (concat (map le32 xs)) = 4 * length xs"
  by (induction xs) simp_all

lemma words32_le32 [simp]:
  assumes "length xs = n"
  shows "words32 n (concat (map le32 xs) @ bs) = xs"
proof (rule nth_equalityI)
  fix i
  assume "i < length (words32 n (concat (map le32 xs) @ bs))"
  then have i: "i < n" by (simp add: words32_def)
  then have "drop (4 * i) (concat (map le32 xs) @ bs) = le32 (xs ! i) @ concat (map le32 (drop (Suc i) xs)) @ bs"
    using assms by (simp add: drop_concat_le32 flip: Cons_nth_drop_Suc)
  then show "words32 n (concat (map le32 xs) @ bs) ! i = xs ! i" using i by (simp add: words32_def)
qed (simp add: words32_def assms)

definition entry_wf :: "fs_entry \<Rightarrow> bool" where
  "entry_wf e \<longleftrightarrow> length (ename e) = 32 \<and> 0 \<in> set (ename e) \<and> length (direct e) = 8 \<and>
     length (epadding e) = 52"

lemma length_entry_bytes: "entry_wf e \<Longrightarrow> length (entry_bytes e) = 128"
  by (simp add: entry_wf_def entry_bytes_def)

lemma entry_of_bytes: "entry_wf e \<Longrightarrow> entry_of (entry_bytes e) = e"
  by (cases e) (simp add: entry_wf_def entry_bytes_def entry_of_def)

lemma super_of_bytes: "super_of (super_bytes s) = s"
  by (cases s) (simp add: super_bytes_def super_of_def)

lemma zero_entry_fields:
  "ename zero_entry = replicate 32 0" "esize zero_entry = 0" "eused zero_entry = 0"
  "direct zero_entry = replicate 8 0" "indirect zero_entry = 0" "epadding zero_entry = replicate 52 0"
  by (simp_all add: zero_entry_def entry_of_def words32_def de32_def upt_rec) (simp add: numeral_eq_Suc)

lemma zero_entry_wf: "entry_wf zero_entry"
  by (simp add: entry_wf_def zero_entry_fields)

section \<open>The bitmap\<close>

lemma block_used_bit: "block_used bm b \<longleftrightarrow> bit (bm ! unat (b div 8)) (unat (b mod 8))"
  by (simp add: block_used_def bit_iff_odd_drop_bit and_one_eq odd_iff_mod_2_eq_one)

lemma length_block_mark [simp]: "length (block_mark b u bm) = length bm"
  by (simp add: block_mark_def Let_def)

lemma block_div_mod: "unat (b div 8 :: u32) = unat b div 8" "unat (b mod 8 :: u32) = unat b mod 8"
  by (simp_all add: unat_div unat_mod)

lemma block_used_mark:
  assumes "length bm = 512" "b < 4096" "c < 4096"
  shows "block_used (block_mark b u bm) c \<longleftrightarrow> (if c = b then u else block_used bm c)"
proof -
  have lt: "unat b div 8 < 512" "unat b < 4096" using assms(2) by (simp_all add: word_less_nat_alt)
  have m: "bit (push_bit (unat b mod 8) 1 :: u8) n \<longleftrightarrow> n = unat b mod 8" for n
    by (auto simp: bit_push_bit_iff bit_1_iff)
  show ?thesis
  proof (cases "unat c div 8 = unat b div 8")
    case True
    then have "unat c mod 8 = unat b mod 8 \<longleftrightarrow> c = b"
      by (metis div_mult_mod_eq word_unat_eq_iff)
    then show ?thesis
      using True lt assms(1) m
      by (auto simp: block_used_bit block_mark_def Let_def block_div_mod bit_or_iff bit_and_iff bit_not_iff)
  next
    case False
    then have "c \<noteq> b" by auto
    then show ?thesis
      using False by (simp add: block_used_bit block_mark_def Let_def block_div_mod)
  qed
qed

lemma block_scan_spec:
  assumes "\<And>c. c < b \<Longrightarrow> block_used bm c"
  shows "(\<exists>x<nb. \<not> block_used bm x \<and> (\<forall>c<x. block_used bm c) \<and>
            block_scan b nb bm = (x, block_mark x True bm)) \<or>
         ((\<forall>c<nb. block_used bm c) \<and> block_scan b nb bm = (NO_BLOCK, bm))"
  using assms
proof (induction b nb bm rule: block_scan.induct)
  case (1 b nb bm)
  show ?case
  proof (cases "b < nb \<and> block_used bm b")
    case True
    have "block_used bm c" if "c < b + 1" for c
    proof -
      have "c \<le> b" using that True by (metis word_le_nat_alt word_less_nat_alt unat_Suc_less less_Suc_eq_le)
      then show ?thesis using "1.prems" True by (cases "c = b") auto
    qed
    then show ?thesis using "1.IH" True by (subst (1 2) block_scan.simps) simp
  next
    case False
    then show ?thesis using "1.prems" by (auto simp: block_scan.simps [of b])
  qed
qed

lemma block_scan_0:
  "(\<exists>x<nb. \<not> block_used bm x \<and> (\<forall>c<x. block_used bm c) \<and>
      block_scan 0 nb bm = (x, block_mark x True bm)) \<or>
   ((\<forall>c<nb. block_used bm c) \<and> block_scan 0 nb bm = (NO_BLOCK, bm))"
  by (rule block_scan_spec) simp

end
