(* ===== verification/FsCorrect.thy ===== *)
theory FsCorrect
  imports Fs
begin

text \<open>
  Correctness of ArthicFS.  A mounted file system represents a finite map from names to contents;
  \<open>fs_inv\<close> says that the blocks of the files are allocated, pairwise distinct and inside the disk.
  The proofs use the disk only through the laws of \<open>sector_disk\<close>.
\<close>

section \<open>Files on a disk\<close>

definition file_block :: "(u32 \<Rightarrow> u8 list) \<Rightarrow> fs_superblock \<Rightarrow> fs_entry \<Rightarrow> nat \<Rightarrow> u32" where
  "file_block v sb e i =
     (if i < 8 then direct e ! i
      else if indirect e = 0 \<or> 136 \<le> i then NO_BLOCK
      else de32 (drop (4 * (i - 8)) (v (data_start sb + indirect e))))"

definition owned :: "(u32 \<Rightarrow> u8 list) \<Rightarrow> fs_superblock \<Rightarrow> fs_entry \<Rightarrow> nat \<Rightarrow> u32 set" where
  "owned v sb e k = file_block v sb e ` {..<k} \<union> (if indirect e = 0 then {} else {indirect e})"


text \<open>The entry has \<open>k\<close> data blocks: they and the indirect block are distinct and allocated.\<close>

definition holds :: "(u32 \<Rightarrow> u8 list) \<Rightarrow> fs_superblock \<Rightarrow> u8 list \<Rightarrow> fs_entry \<Rightarrow> nat \<Rightarrow> bool" where
  "holds v sb bm e k \<longleftrightarrow>
     k \<le> 136 \<and> entry_wf e \<and> (8 < k \<longrightarrow> indirect e \<noteq> 0) \<and>
     inj_on (file_block v sb e) {..<k} \<and>
     (indirect e \<noteq> 0 \<longrightarrow> indirect e \<notin> file_block v sb e ` {..<k}) \<and>
     (\<forall>b\<in>owned v sb e k. b < total_blocks sb \<and> block_used bm b)"

definition content :: "(u32 \<Rightarrow> u8 list) \<Rightarrow> fs_superblock \<Rightarrow> fs_entry \<Rightarrow> nat \<Rightarrow> u8 list" where
  "content v sb e k = concat (map (\<lambda>i. v (data_start sb + file_block v sb e i)) [0..<k])"



definition fname :: "fs_entry \<Rightarrow> cstring" where
  "fname e = takeWhile (\<lambda>c. c \<noteq> 0) (ename e)"



section \<open>Sizes, slots and names\<close>











section \<open>What depends on which sectors\<close>


lemma file_block_meta [simp]:
  "file_block v sb (e\<lparr>esize := n\<rparr>) = file_block v sb e" "file_block v sb (e\<lparr>eused := u\<rparr>) = file_block v sb e"
  by (simp_all add: file_block_def fun_eq_iff)

lemma entry_meta [simp]:
  "owned v sb (e\<lparr>esize := n\<rparr>) = owned v sb e" "owned v sb (e\<lparr>eused := u\<rparr>) = owned v sb e"
  "content v sb (e\<lparr>esize := n\<rparr>) = content v sb e" "content v sb (e\<lparr>eused := u\<rparr>) = content v sb e"
  "holds v sb bm (e\<lparr>esize := n\<rparr>) = holds v sb bm e" "holds v sb bm (e\<lparr>eused := u\<rparr>) = holds v sb bm e"
  "entry_wf (e\<lparr>esize := n\<rparr>) = entry_wf e" "entry_wf (e\<lparr>eused := u\<rparr>) = entry_wf e"
  "fname (e\<lparr>esize := n\<rparr>) = fname e" "fname (e\<lparr>eused := u\<rparr>) = fname e"
  by (simp_all add: owned_def content_def holds_def entry_wf_def fname_def fun_eq_iff)













section \<open>The operations on a working disk\<close>


section \<open>Changing one entry\<close>









section \<open>Properties\<close>
















end
