(* ===== verification/Paging.thy ===== *)
theory Paging
  imports Pmm
begin

text \<open>
  Virtual memory: \<open>mm/paging.c\<close> and \<open>include/paging.h\<close>, the three-level PAE page tables.

  Table entries are 64-bit words; \<open>slots\<close> is physical memory as the page-table code sees it, one
  entry per address.  Every access of the code is to an 8-aligned address inside a table, so two
  entries never overlap.  The control registers the code writes are part of the state; the TLB
  is not modelled (every change of an entry is followed by \<open>invlpg\<close> or a reload of CR3).  Neither are the
  four PDPTE registers of PAE mode, which the CPU loads from the PDPT when CR3 is written and at no other time:
  a PDPT entry that \<open>paging_map\<close> creates is in memory at once and in force only after the next write of
  CR3, for which the code does not care.  This concerns addresses from 1 GB upwards; entry 0 exists from the start.
\<close>

section \<open>State\<close>

record paging =
  slots :: "u32 \<Rightarrow> u64"
  active_pdpt :: u32
  kernel_pdpt :: u32
  kernel_pd :: u32
  mapped_limit :: u32
  kernel_pd_entries :: u32
  nx_supported :: bool
  fault_resume_eip :: u32
  table_frames :: pmm
  r_efer :: u32
  r_cr0 :: u32
  r_cr3 :: u32
  r_cr4 :: u32

definition PAGE_PRESENT :: u64 where "PAGE_PRESENT = 0x001"
definition PAGE_WRITE :: u64 where "PAGE_WRITE = 0x002"
definition PAGE_USER :: u64 where "PAGE_USER = 0x004"
definition PAGE_NX :: u64 where "PAGE_NX = 0x8000000000000000"

definition TABLE_ENTRIES :: u32 where "TABLE_ENTRIES = 512"
definition PD_COVERAGE :: u32 where "PD_COVERAGE = 2 * 1024 * 1024"

text \<open>The address of entry \<open>i\<close> of the table at \<open>t\<close>, and the table an entry names.\<close>

definition slot :: "u32 \<Rightarrow> u32 \<Rightarrow> u32" where
  "slot t i = t + 8 * i"

definition table_of :: "u64 \<Rightarrow> u32" where
  "table_of e = ucast (e AND 0xFFFFF000)"

definition set_slot :: "u32 \<Rightarrow> u64 \<Rightarrow> paging \<Rightarrow> paging" where
  "set_slot a v s = s\<lparr>slots := (slots s)(a := v)\<rparr>"

text \<open>\<open>kmemset(phys, 0, PAGE_SIZE)\<close>.\<close>

definition clear_page :: "u32 \<Rightarrow> paging \<Rightarrow> paging" where
  "clear_page a s = s\<lparr>slots := \<lambda>x. if x - a < PAGE_SIZE then 0 else slots s x\<rparr>"

definition pdpt_index :: "u32 \<Rightarrow> u32" where "pdpt_index va = drop_bit 30 va"
definition pd_index :: "u32 \<Rightarrow> u32" where "pd_index va = drop_bit 21 va AND 0x1FF"
definition pt_index :: "u32 \<Rightarrow> u32" where "pt_index va = drop_bit 12 va AND 0x1FF"

section \<open>Walking and changing the tables\<close>

definition pd_for :: "u32 \<Rightarrow> u32 \<Rightarrow> paging \<Rightarrow> u32" where
  "pd_for pdpt va s =
     (let e = slots s (slot pdpt (pdpt_index va))
      in if e AND PAGE_PRESENT = 0 then 0 else table_of e)"

definition entry_for :: "u32 \<Rightarrow> paging \<Rightarrow> u32" where
  "entry_for va s =
     (let pd = pd_for (active_pdpt s) va s
      in if pd = 0 then 0
         else
           let e = slots s (slot pd (pd_index va))
           in if e AND PAGE_PRESENT = 0 then 0 else slot (table_of e) (pt_index va))"

definition paging_set_flags :: "u32 \<Rightarrow> u64 \<Rightarrow> paging \<Rightarrow> paging" where
  "paging_set_flags va flags s =
     (let entry = entry_for va s
      in if entry = 0 then s else set_slot entry ((slots s entry AND 0xFFFFF000) OR flags) s)"

text \<open>The two blocks of \<open>paging_map\<close> that supply a missing directory and a missing table.\<close>

definition ensure_pd :: "u32 \<Rightarrow> paging \<Rightarrow> bool \<times> paging" where
  "ensure_pd va s =
     (let a = slot (active_pdpt s) (pdpt_index va)
      in if slots s a AND PAGE_PRESENT = 0
         then case pmm_alloc_frame (table_frames s) of (phys, p) \<Rightarrow>
           if phys = 0 then (False, s\<lparr>table_frames := p\<rparr>)
           else (True, set_slot a (ucast phys OR PAGE_PRESENT) (clear_page phys (s\<lparr>table_frames := p\<rparr>)))
         else (True, s))"

definition ensure_pt :: "u32 \<Rightarrow> u32 \<Rightarrow> u64 \<Rightarrow> paging \<Rightarrow> bool \<times> paging" where
  "ensure_pt pd va flags s =
     (let a = slot pd (pd_index va)
      in if slots s a AND PAGE_PRESENT = 0
         then case pmm_alloc_frame (table_frames s) of (phys, p) \<Rightarrow>
           if phys = 0 then (False, s\<lparr>table_frames := p\<rparr>)
           else (True, set_slot a (ucast phys OR PAGE_PRESENT OR PAGE_WRITE OR (flags AND PAGE_USER))
                         (clear_page phys (s\<lparr>table_frames := p\<rparr>)))
         else if flags AND PAGE_USER \<noteq> 0 then (True, set_slot a (slots s a OR PAGE_USER) s)
         else (True, s))"

definition paging_map :: "u32 \<Rightarrow> u32 \<Rightarrow> u64 \<Rightarrow> paging \<Rightarrow> bool \<times> paging" where
  "paging_map va pa flags s =
     (case ensure_pd va s of
        (False, s1) \<Rightarrow> (False, s1)
      | (True, s1) \<Rightarrow>
          let pd = table_of (slots s1 (slot (active_pdpt s1) (pdpt_index va)))
          in case ensure_pt pd va flags s1 of
               (False, s2) \<Rightarrow> (False, s2)
             | (True, s2) \<Rightarrow>
                 let pt = table_of (slots s2 (slot pd (pd_index va)));
                     fl = (if nx_supported s2 then flags else flags AND NOT PAGE_NX)
                 in (True, set_slot (slot pt (pt_index va)) (ucast pa OR fl) s2))"

definition paging_unmap :: "u32 \<Rightarrow> paging \<Rightarrow> paging" where
  "paging_unmap va s = (let entry = entry_for va s in if entry = 0 then s else set_slot entry 0 s)"

section \<open>Faults\<close>

definition paging_set_fault_resume :: "u32 \<Rightarrow> paging \<Rightarrow> paging" where
  "paging_set_fault_resume eip s = s\<lparr>fault_resume_eip := eip\<rparr>"

datatype fault_cause = Fetch_NX | Write_RO | Protection | Unmapped

text \<open>
  How a fault ends: execution continues at another address, the task dies, the ring 3 excursion of
  a kernel task is unwound, or the system halts.
\<close>

datatype fault_outcome = Resume u32 | Kill_Task fault_cause | Unwind_User fault_cause | Halt_System

definition user_fault_cause :: "u32 \<Rightarrow> fault_cause" where
  "user_fault_cause err =
     (if err AND 0x10 \<noteq> 0 then Fetch_NX
      else if err AND 0x01 \<noteq> 0 then (if err AND 0x02 \<noteq> 0 then Write_RO else Protection)
      else Unmapped)"

text \<open>\<open>has_exit\<close>: the current task exists and has an exit callback.\<close>

definition page_fault_handler :: "bool \<Rightarrow> u32 \<Rightarrow> paging \<Rightarrow> fault_outcome \<times> paging" where
  "page_fault_handler has_exit err s =
     (if fault_resume_eip s \<noteq> 0 then (Resume (fault_resume_eip s), s\<lparr>fault_resume_eip := 0\<rparr>)
      else if err AND 0x04 \<noteq> 0
      then ((if has_exit then Kill_Task else Unwind_User) (user_fault_cause err), s)
      else (Halt_System, s))"

section \<open>Setting up\<close>

text \<open>\<open>cpuid leaf\<close> gives EAX and EDX.\<close>

definition cpu_has_nx :: "(u32 \<Rightarrow> u32 \<times> u32) \<Rightarrow> bool" where
  "cpu_has_nx cpuid =
     (if fst (cpuid 0x80000000) < 0x80000001 then False
      else snd (cpuid 0x80000001) AND push_bit 20 1 \<noteq> 0)"

definition enable_nx :: "paging \<Rightarrow> paging" where
  "enable_nx s = s\<lparr>r_efer := r_efer s OR push_bit 11 1\<rparr>"

definition fill_table :: "u32 \<Rightarrow> u32 \<Rightarrow> paging \<Rightarrow> paging" where
  "fill_table pt i s =
     fold (\<lambda>j. set_slot (slot pt (word_of_nat j))
                 (ucast (i * PD_COVERAGE + word_of_nat j * PAGE_SIZE) OR PAGE_PRESENT OR PAGE_WRITE))
       [0..<512] s"

text \<open>The loop over the directory entries; None when the frames run out and the system halts.\<close>

fun init_tables :: "nat \<Rightarrow> u32 \<Rightarrow> paging \<Rightarrow> paging option" where
  "init_tables 0 i s = Some s"
| "init_tables (Suc n) i s =
     (case pmm_alloc_frame (table_frames s) of (pt, p) \<Rightarrow>
        if pt = 0 then None
        else init_tables n (i + 1)
               (set_slot (slot (kernel_pd s) i) (ucast pt OR PAGE_PRESENT OR PAGE_WRITE)
                 (fill_table pt i (s\<lparr>table_frames := p\<rparr>))))"

text \<open>
  \<open>for (addr = \<dots>; addr < end; addr += PAGE_SIZE)\<close>.  The loop does not end when \<open>end\<close> lies in the
  last page of the address space, hence the option.
\<close>

partial_function (option) each_page :: "(u32 \<Rightarrow> 's \<Rightarrow> 's) \<Rightarrow> u32 \<Rightarrow> u32 \<Rightarrow> 's \<Rightarrow> 's option" where
  [code]: "each_page f addr last_addr s =
     (if addr < last_addr then each_page f (addr + PAGE_SIZE) last_addr (f addr s) else Some s)"

definition protect_page :: "u32 \<Rightarrow> paging \<Rightarrow> paging" where
  "protect_page addr s =
     (let entry = entry_for addr s
      in if entry = 0 then s else set_slot entry ((slots s entry AND 0xFFFFF000) OR PAGE_PRESENT) s)"

definition clear_table :: "u32 \<Rightarrow> nat \<Rightarrow> paging \<Rightarrow> paging" where
  "clear_table t n s = fold (\<lambda>j. set_slot (slot t (word_of_nat j)) 0) [0..<n] s"

definition paging_init ::
  "(u32 \<Rightarrow> u32 \<times> u32) \<Rightarrow> u32 \<Rightarrow> u32 \<Rightarrow> paging \<Rightarrow> paging option" where
  "paging_init cpuid kernel_text_start kernel_rodata_end s =
     (let s0 = s\<lparr>nx_supported := cpu_has_nx cpuid\<rparr>;
          s1 = (if nx_supported s0 then enable_nx s0 else s0);
          s2 = clear_table (kernel_pd s1) 512 (clear_table (kernel_pdpt s1) 4 s1);
          s3 = s2\<lparr>active_pdpt := kernel_pdpt s2\<rparr>;
          memtop = pmm_memory_top (table_frames s3);
          needed = (memtop + PD_COVERAGE - 1) div PD_COVERAGE;
          pd_needed = (if needed > TABLE_ENTRIES then TABLE_ENTRIES else needed)
      in case init_tables (unat pd_needed) 0 s3 of
           None \<Rightarrow> None
         | Some s4 \<Rightarrow>
             let s5 = (set_slot (slot (kernel_pdpt s4) 0) (ucast (kernel_pd s4) OR PAGE_PRESENT) s4)
                        \<lparr>mapped_limit := pd_needed * PD_COVERAGE, kernel_pd_entries := pd_needed\<rparr>;
                 text_start = kernel_text_start AND NOT (PAGE_SIZE - 1);
                 ro_end = (kernel_rodata_end + PAGE_SIZE - 1) AND NOT (PAGE_SIZE - 1)
             in case each_page protect_page text_start ro_end s5 of
                  None \<Rightarrow> None
                | Some s6 \<Rightarrow>
                    Some (s6\<lparr>r_cr4 := r_cr4 s6 OR push_bit 5 1, r_cr3 := kernel_pdpt s6,
                             r_cr0 := r_cr0 s6 OR 0x00010000 OR 0x80000000\<rparr>))"

definition paging_mapped_limit :: "paging \<Rightarrow> u32" where
  "paging_mapped_limit s = mapped_limit s"

definition paging_nx_available :: "paging \<Rightarrow> bool" where
  "paging_nx_available s = nx_supported s"

definition make_user_page :: "u64 \<Rightarrow> u32 \<Rightarrow> paging \<Rightarrow> paging" where
  "make_user_page flags addr s =
     (let pd = pd_for (active_pdpt s) addr s;
          a = slot pd (pd_index addr);
          s1 = (if pd \<noteq> 0 then set_slot a (slots s a OR PAGE_USER) s else s)
      in paging_set_flags addr (if nx_supported s1 then flags else flags AND NOT PAGE_NX) s1)"

definition paging_make_user :: "u32 \<Rightarrow> u32 \<Rightarrow> bool \<Rightarrow> paging \<Rightarrow> paging option" where
  "paging_make_user start_addr end_addr writable s =
     (let flags = PAGE_PRESENT OR PAGE_USER OR (if writable then PAGE_WRITE OR PAGE_NX else 0)
      in each_page (make_user_page flags) (start_addr AND NOT (PAGE_SIZE - 1)) end_addr s)"

section \<open>Address spaces\<close>

definition paging_kernel_directory :: "paging \<Rightarrow> u32" where
  "paging_kernel_directory s = kernel_pdpt s"

definition copy_kernel_pd :: "u32 \<Rightarrow> paging \<Rightarrow> paging" where
  "copy_kernel_pd pd s =
     fold (\<lambda>i s. set_slot (slot pd (word_of_nat i)) (slots s (slot (kernel_pd s) (word_of_nat i))) s)
       [0..<unat (kernel_pd_entries s)] s"

definition paging_create_address_space :: "paging \<Rightarrow> u32 \<times> paging" where
  "paging_create_address_space s =
     (case pmm_alloc_frame (table_frames s) of (pdpt_phys, p1) \<Rightarrow>
        if pdpt_phys = 0 then (0, s\<lparr>table_frames := p1\<rparr>)
        else
          case pmm_alloc_frame p1 of (pd_phys, p2) \<Rightarrow>
            if pd_phys = 0 then (0, s\<lparr>table_frames := pmm_free_frame pdpt_phys p2\<rparr>)
            else
              (pdpt_phys,
               set_slot (slot pdpt_phys 0) (ucast pd_phys OR PAGE_PRESENT)
                 (copy_kernel_pd pd_phys (clear_page pd_phys (clear_page pdpt_phys (s\<lparr>table_frames := p2\<rparr>))))))"

definition free_tables :: "u32 \<Rightarrow> paging \<Rightarrow> pmm" where
  "free_tables pd s =
     fold (\<lambda>i p. let e = slots s (slot pd (word_of_nat i))
                 in if e AND PAGE_PRESENT \<noteq> 0 then pmm_free_frame (table_of e) p else p)
       [unat (kernel_pd_entries s)..<512] (table_frames s)"

definition paging_destroy_address_space :: "u32 \<Rightarrow> paging \<Rightarrow> paging" where
  "paging_destroy_address_space pdpt_phys s =
     (if pdpt_phys = 0 \<or> pdpt_phys = kernel_pdpt s then s
      else
        let e = slots s (slot pdpt_phys 0);
            s1 = (if e AND PAGE_PRESENT \<noteq> 0
                  then s\<lparr>table_frames := pmm_free_frame (table_of e) (free_tables (table_of e) s)\<rparr> else s)
        in s1\<lparr>table_frames := pmm_free_frame pdpt_phys (table_frames s1)\<rparr>)"

definition paging_switch :: "u32 \<Rightarrow> paging \<Rightarrow> paging" where
  "paging_switch pdpt_phys s =
     (let pdpt = (if pdpt_phys \<noteq> 0 then pdpt_phys else kernel_pdpt s)
      in s\<lparr>active_pdpt := pdpt, r_cr3 := pdpt\<rparr>)"

end
