(* ===== verification/PagingCorrect.thy ===== *)
theory PagingCorrect
  imports Paging
begin

text \<open>
  Correctness of the page-table code against the walk the MMU performs: mapping a page changes the
  translation of that page and of no other, and a new address space translates kernel addresses as
  the kernel's own does.
\<close>

section \<open>Indices and table addresses\<close>

definition page_no :: "u32 \<Rightarrow> nat" where
  "page_no a = unat a div 4096"

lemma unat_drop_bit32:
  "unat (drop_bit 30 (x :: u32)) = unat x div 2 ^ 30" "unat (drop_bit 21 x) = unat x div 2 ^ 21"
  "unat (drop_bit 12 x) = unat x div 2 ^ 12"
  by (simp_all only: drop_bit_eq_div unat_div) simp_all

lemma unat_and_511: "unat (x AND 0x1FF :: u32) = unat x mod 512"
proof -
  have "x AND 0x1FF = take_bit 9 x" using take_bit_eq_mask [of 9 x] by (simp add: mask_eq_exp_minus_1)
  then show ?thesis by (simp only: take_bit_eq_mod unat_mod) simp
qed

lemma index_nat:
  "unat (pdpt_index va) = unat va div 2 ^ 30" "unat (pd_index va) = unat va div 2 ^ 21 mod 512"
  "unat (pt_index va) = unat va div 2 ^ 12 mod 512"
  by (simp_all only: pdpt_index_def pd_index_def pt_index_def unat_drop_bit32 unat_and_511)

lemma index_bound: "pdpt_index va < 4" "pd_index va < 512" "pt_index va < 512"
proof -
  have "unat va div 2 ^ 30 < 4" using unat32_lt [of va] by (simp add: less_mult_imp_div_less)
  then show "pdpt_index va < 4" by (simp add: word_less_nat_alt index_nat)
qed (simp_all add: word_less_nat_alt index_nat)

text \<open>The three indices determine the page.\<close>

lemma index_page:
  "pdpt_index va = pdpt_index vb \<and> pd_index va = pd_index vb \<and> pt_index va = pt_index vb \<longleftrightarrow>
   page_no va = page_no vb"
proof -
  have levels: "unat v div 2 ^ 21 = unat v div 2 ^ 12 div 512"
    "unat v div 2 ^ 30 = unat v div 2 ^ 12 div 512 div 512" for v :: u32
    by (simp_all add: div_mult2_eq [symmetric])
  have split: "page_no v = (unat (pdpt_index v) * 512 + unat (pd_index v)) * 512 + unat (pt_index v)" for v
  proof -
    have "unat v div 2 ^ 12 = (unat v div 2 ^ 30 * 512 + unat v div 2 ^ 21 mod 512) * 512 + unat v div 2 ^ 12 mod 512"
      unfolding levels by presburger
    then show ?thesis unfolding page_no_def index_nat by simp
  qed
  show ?thesis
  proof
    assume "page_no va = page_no vb"
    then have "unat va div 2 ^ 12 = unat vb div 2 ^ 12" by (simp add: page_no_def)
    then have "unat va div 2 ^ 12 div 512 = unat vb div 2 ^ 12 div 512"
      "unat va div 2 ^ 12 div 512 div 512 = unat vb div 2 ^ 12 div 512 div 512"
      "unat va div 2 ^ 12 mod 512 = unat vb div 2 ^ 12 mod 512" by simp_all
    then have "unat (pdpt_index va) = unat (pdpt_index vb)" "unat (pd_index va) = unat (pd_index vb)"
      "unat (pt_index va) = unat (pt_index vb)"
      unfolding index_nat levels by simp_all
    then show "pdpt_index va = pdpt_index vb \<and> pd_index va = pd_index vb \<and> pt_index va = pt_index vb"
      by (simp add: word_unat_eq_iff)
  qed (simp add: split)
qed

text \<open>A table whose entries \<open>0 \<dots> n\<close> lie in its page.\<close>

definition fits :: "u32 \<Rightarrow> u32 \<Rightarrow> bool" where
  "fits t i \<longleftrightarrow> unat t mod 4096 + 8 * unat i < 4096"

lemma slot_nat:
  assumes "fits t i"
  shows "unat (slot t i) = unat t + 8 * unat i" "page_no (slot t i) = page_no t"
proof -
  have i: "unat i < 512" using assms by (simp add: fits_def)
  have t: "unat t = unat t div 4096 * 4096 + unat t mod 4096" by simp
  have "unat t div 4096 < 1048576" using unat32_lt [of t] by (simp add: less_mult_imp_div_less)
  then have lt: "unat t + 8 * unat i < 4294967296" using assms t unfolding fits_def by linarith
  have "unat (8 * i) = 8 * unat i" using i by (subst unat32_mult) simp_all
  then show eq: "unat (slot t i) = unat t + 8 * unat i" using lt by (simp add: slot_def unat32_plus)
  have "(unat t div 4096 * 4096 + (unat t mod 4096 + 8 * unat i)) div 4096 = unat t div 4096"
    using assms by (subst div_mult_self3) (simp_all add: fits_def)
  then have "(unat t + 8 * unat i) div 4096 = unat t div 4096" using t by (simp add: add.assoc [symmetric])
  then show "page_no (slot t i) = page_no t" by (simp add: page_no_def eq)
qed

lemma slot_inj: "fits t i \<Longrightarrow> fits t j \<Longrightarrow> slot t i = slot t j \<Longrightarrow> i = j"
  by (metis add_left_cancel mult_left_cancel slot_nat(1) word_unat_eq_iff zero_neq_numeral)

lemma slot_other_page: "fits t i \<Longrightarrow> fits u j \<Longrightarrow> page_no t \<noteq> page_no u \<Longrightarrow> slot t i \<noteq> slot u j"
  using slot_nat(2) by metis

text \<open>A frame of the allocator is a whole page.\<close>

lemma aligned_fits: "unat t mod 4096 = 0 \<Longrightarrow> i < 512 \<Longrightarrow> fits t i"
  by (simp add: fits_def word_less_nat_alt)

lemma in_page:
  assumes "unat a mod 4096 = 0"
  shows "x - a < PAGE_SIZE \<longleftrightarrow> page_no x = page_no a"
proof
  assume less: "x - a < PAGE_SIZE"
  have a: "unat a \<le> 4294963200" using assms unat32_lt [of a] by (auto elim!: dvdE simp: mod_eq_0_iff_dvd)
  have d: "unat (x - a) < 4096" using less by (simp add: word_less_nat_alt)
  then have "unat (a + (x - a)) = unat a + unat (x - a)" using a by (intro unat32_plus) simp
  then have x: "unat x = unat (x - a) + unat a div 4096 * 4096"
    using assms div_mult_mod_eq [of "unat a" 4096] by simp
  show "page_no x = page_no a" unfolding page_no_def x using d by (subst div_mult_self1) simp_all
next
  assume p: "page_no x = page_no a"
  have "unat x = unat x div 4096 * 4096 + unat x mod 4096" "unat x mod 4096 < 4096"
    "unat a = unat a div 4096 * 4096" using assms by auto
  then have "unat a \<le> unat x" "unat x - unat a < 4096" using p unfolding page_no_def by linarith+
  then show "x - a < PAGE_SIZE" by (simp add: word_less_nat_alt unat_sub word_le_nat_alt)
qed

section \<open>Entries\<close>

definition present :: "u64 \<Rightarrow> bool" where
  "present e \<longleftrightarrow> e AND PAGE_PRESENT \<noteq> 0"

lemma flag_powers: "PAGE_PRESENT = 2 ^ 0" "PAGE_WRITE = 2 ^ 1" "PAGE_USER = 2 ^ 2" "PAGE_NX = 2 ^ 63"
  by (simp_all add: PAGE_PRESENT_def PAGE_WRITE_def PAGE_USER_def PAGE_NX_def)

lemma bit_flags:
  "bit PAGE_PRESENT n \<longleftrightarrow> n = 0" "bit PAGE_WRITE n \<longleftrightarrow> n = 1" "bit PAGE_USER n \<longleftrightarrow> n = 2" "bit PAGE_NX n \<longleftrightarrow> n = 63"
  unfolding flag_powers bit_single by auto

lemma and_single: "(x AND y \<noteq> 0) = (\<exists>n. bit x n \<and> bit y n)" for x y :: "'a::len word"
  by (auto simp: bit_eq_iff [of "x AND y"] bit_and_iff dest: bit_imp_le_length)

lemma flag_bit:
  "e AND PAGE_PRESENT \<noteq> 0 \<longleftrightarrow> bit e 0" "e AND PAGE_WRITE \<noteq> 0 \<longleftrightarrow> bit e 1" "e AND PAGE_USER \<noteq> 0 \<longleftrightarrow> bit e 2"
  "e AND PAGE_NX \<noteq> 0 \<longleftrightarrow> bit e 63"
  by (simp_all only: and_single bit_flags) auto

lemma flag_zero:
  "e AND PAGE_PRESENT = 0 \<longleftrightarrow> \<not> bit e 0" "e AND PAGE_WRITE = 0 \<longleftrightarrow> \<not> bit e 1" "e AND PAGE_USER = 0 \<longleftrightarrow> \<not> bit e 2"
  "e AND PAGE_NX = 0 \<longleftrightarrow> \<not> bit e 63"
  using flag_bit [of e] by blast+

lemma present_bit: "present e \<longleftrightarrow> bit e 0"
  by (simp add: present_def flag_bit)

lemma not_present_0 [simp]: "\<not> present 0"
  by (simp add: present_def)

lemma bit_addr_mask: "bit (0xFFFFF000 :: u64) n \<longleftrightarrow> 12 \<le> n \<and> n < 32"
proof -
  have "(0xFFFFF000 :: u64) = push_bit 12 (mask 20)" by (simp add: mask_eq_exp_minus_1 push_bit_eq_mult)
  then show ?thesis by (simp only: bit_push_bit_iff bit_mask_iff) auto
qed

lemma present_no_addr: "PAGE_PRESENT AND 0xFFFFF000 = 0"
  by (rule bit_word_eqI, unfold bit_and_iff bit_flags bit_addr_mask) auto

lemma bit_table_of: "bit (table_of e) n \<longleftrightarrow> 12 \<le> n \<and> n < 32 \<and> bit e n"
  unfolding table_of_def bit_ucast_iff bit_and_iff bit_addr_mask by auto

lemma aligned_bits: "unat (a :: u32) mod 4096 = 0 \<Longrightarrow> n < 12 \<Longrightarrow> \<not> bit a n"
proof -
  assume a: "unat a mod 4096 = 0" "n < 12"
  then have "unat (take_bit 12 a) = 0" by (simp only: take_bit_eq_mod unat_mod) simp
  then have "take_bit 12 a = 0" by (simp add: unat_eq_0)
  then show "\<not> bit a n" using a(2) by (metis bit_0_eq bit_take_bit_iff bot_apply bot_bool_def)
qed

lemma table_of_aligned: "unat (table_of e) mod 4096 = 0"
proof -
  have "take_bit 12 (table_of e) = 0" by (rule bit_eqI) (simp add: bit_take_bit_iff bit_table_of)
  then have "unat (take_bit 12 (table_of e)) = 0" by simp
  then show ?thesis by (simp only: take_bit_eq_mod unat_mod) simp
qed

text \<open>An entry made of a page-aligned address and flags names that address.\<close>

lemma table_of_entry:
  assumes "unat a mod 4096 = 0" "fl AND 0xFFFFF000 = 0"
  shows "table_of (ucast a OR fl) = a"
proof (rule bit_word_eqI)
  fix n assume "n < LENGTH(32)"
  moreover have "\<not> bit fl n" if "12 \<le> n" "n < 32"
    using assms(2) that by (metis bit_0_eq bit_addr_mask bit_and_iff bot_apply bot_bool_def)
  moreover have "bit a n \<Longrightarrow> 12 \<le> n" using aligned_bits [OF assms(1), of n] not_le by blast
  ultimately show "bit (table_of (ucast a OR fl)) n \<longleftrightarrow> bit a n"
    by (auto simp: bit_table_of bit_or_iff bit_ucast_iff not_le)
qed

lemma bit_entry_flag:
  assumes "unat (a :: u32) mod 4096 = 0" "n < 12 \<or> 32 \<le> n"
  shows "bit (ucast a OR fl :: u64) n \<longleftrightarrow> bit fl n"
  using assms aligned_bits [OF assms(1), of n] bit_imp_le_length [of a n]
  by (auto simp: bit_or_iff bit_ucast_iff)

section \<open>The walk of the MMU\<close>

definition pdpte :: "paging \<Rightarrow> u32 \<Rightarrow> u32 \<Rightarrow> u64" where
  "pdpte s r i = slots s (slot r i)"

definition pde :: "paging \<Rightarrow> u32 \<Rightarrow> u32 \<Rightarrow> u32 \<Rightarrow> u64" where
  "pde s r i j = slots s (slot (table_of (pdpte s r i)) j)"

definition pte :: "paging \<Rightarrow> u32 \<Rightarrow> u32 \<Rightarrow> u32 \<Rightarrow> u32 \<Rightarrow> u64" where
  "pte s r i j l = slots s (slot (table_of (pde s r i j)) l)"

text \<open>
  What the hardware makes of a virtual address in the space with root \<open>r\<close>: the physical page, and
  whether it is writable, accessible from ring 3, and not executable.  Write and user permission
  must be granted at both levels; the NX bit at either level forbids execution.  The walk reads the PDPT
  from memory, so it is the translation once CR3 has been loaded with \<open>r\<close>; for a PDPT entry created
  since then (above 1 GB only) the CPU still uses the old one.
\<close>

definition mmu :: "paging \<Rightarrow> u32 \<Rightarrow> u32 \<Rightarrow> (u32 \<times> bool \<times> bool \<times> bool) option" where
  "mmu s r va =
     (let i = pdpt_index va; j = pd_index va; l = pt_index va; d = pde s r i j; e = pte s r i j l
      in if present (pdpte s r i) \<and> present d \<and> present e
         then Some (table_of e, bit d 1 \<and> bit e 1, bit d 2 \<and> bit e 2, bit d 63 \<or> bit e 63)
         else None)"

section \<open>Well-formed address spaces\<close>

text \<open>The tables of a space, by the indices that lead to them.\<close>

definition paths :: "paging \<Rightarrow> u32 \<Rightarrow> u32 list set" where
  "paths s r = {[]} \<union> {[i] |i. i < 4 \<and> present (pdpte s r i)} \<union>
     {[i, j] |i j. i < 4 \<and> j < 512 \<and> present (pdpte s r i) \<and> present (pde s r i j)}"

fun table_at :: "paging \<Rightarrow> u32 \<Rightarrow> u32 list \<Rightarrow> u32" where
  "table_at s r [] = r"
| "table_at s r [i] = table_of (pdpte s r i)"
| "table_at s r (i # j # _) = table_of (pde s r i j)"

definition perms_ok :: "paging \<Rightarrow> u32 \<Rightarrow> bool" where
  "perms_ok s r \<longleftrightarrow> (\<forall>i<4. \<forall>j<512. present (pdpte s r i) \<and> present (pde s r i j) \<longrightarrow>
     bit (pde s r i j) 1 \<and> \<not> bit (pde s r i j) 63 \<and>
     (\<forall>l<512. present (pte s r i j l) \<and> bit (pte s r i j l) 2 \<longrightarrow> bit (pde s r i j) 2))"

lemma perms_ok_mono:
  assumes "perms_ok s r"
    "\<And>i j. i < 4 \<Longrightarrow> j < 512 \<Longrightarrow> present (pdpte s' r' i) \<Longrightarrow> present (pde s' r' i j) \<Longrightarrow>
       present (pdpte s r i) \<and> present (pde s r i j) \<and> bit (pde s' r' i j) 1 = bit (pde s r i j) 1 \<and>
       bit (pde s' r' i j) 63 = bit (pde s r i j) 63 \<and> (bit (pde s r i j) 2 \<longrightarrow> bit (pde s' r' i j) 2)"
    "\<And>i j l. i < 4 \<Longrightarrow> j < 512 \<Longrightarrow> l < 512 \<Longrightarrow> present (pdpte s' r' i) \<Longrightarrow> present (pde s' r' i j) \<Longrightarrow>
       pte s' r' i j l = pte s r i j l"
  shows "perms_ok s' r'"
  unfolding perms_ok_def
proof (intro allI impI)
  fix i j assume ij: "i < 4" "j < 512" "present (pdpte s' r' i) \<and> present (pde s' r' i j)"
  note f = assms(2) [OF ij(1,2) ij(3)[THEN conjunct1] ij(3)[THEN conjunct2]]
  have "bit (pde s r i j) 1 \<and> \<not> bit (pde s r i j) 63 \<and>
      (\<forall>l<512. present (pte s r i j l) \<and> bit (pte s r i j l) 2 \<longrightarrow> bit (pde s r i j) 2)"
    using assms(1) ij f unfolding perms_ok_def by blast
  then show "bit (pde s' r' i j) 1 \<and> \<not> bit (pde s' r' i j) 63 \<and>
      (\<forall>l<512. present (pte s' r' i j l) \<and> bit (pte s' r' i j l) 2 \<longrightarrow> bit (pde s' r' i j) 2)"
    using f assms(3) [OF ij(1,2) _ ij(3)[THEN conjunct1] ij(3)[THEN conjunct2]] by auto
qed

text \<open>
  No table is used twice in a space, all of them lie in frames the allocator has given away, and
  the permissions of the directory never restrict those of the pages below it.
\<close>

definition wf_space :: "paging \<Rightarrow> u32 \<Rightarrow> bool" where
  "wf_space s r \<longleftrightarrow> fits r 3 \<and> pmm_ok (table_frames s) \<and> inj_on (\<lambda>p. page_no (table_at s r p)) (paths s r) \<and>
     (\<forall>p\<in>paths s r. page_no (table_at s r p) \<in> frames_owned (table_frames s) \<and> page_no (table_at s r p) \<noteq> 0) \<and>
     perms_ok s r"

lemma pathsI:
  "[] \<in> paths s r" "i < 4 \<Longrightarrow> present (pdpte s r i) \<Longrightarrow> [i] \<in> paths s r"
  "i < 4 \<Longrightarrow> j < 512 \<Longrightarrow> present (pdpte s r i) \<Longrightarrow> present (pde s r i j) \<Longrightarrow> [i, j] \<in> paths s r"
  by (auto simp: paths_def)

lemma table_at_fits:
  assumes "fits r 3"
  shows "p = [] \<Longrightarrow> x < 4 \<Longrightarrow> fits (table_at s r p) x" "p \<noteq> [] \<Longrightarrow> x < 512 \<Longrightarrow> fits (table_at s r p) x"
proof -
  show "fits (table_at s r p) x" if "p = []" "x < 4"
    using that assms unfolding fits_def by (simp add: word_less_nat_alt)
  show "fits (table_at s r p) x" if "p \<noteq> []" "x < 512"
    using that table_of_aligned by (cases "(s, r, p)" rule: table_at.cases) (auto intro: aligned_fits)
qed

text \<open>An index that is in range for the table at a path.\<close>

definition in_range :: "u32 list \<Rightarrow> u32 \<Rightarrow> bool" where
  "in_range p x \<longleftrightarrow> (if p = [] then x < 4 else x < 512)"

lemma entries_apart:
  assumes "wf_space s r" "p \<in> paths s r" "q \<in> paths s r" "in_range p x" "in_range q y" "p \<noteq> q \<or> x \<noteq> y"
  shows "slot (table_at s r p) x \<noteq> slot (table_at s r q) y"
proof -
  have f: "fits (table_at s r p) x" "fits (table_at s r q) y"
    using assms table_at_fits by (auto simp: wf_space_def in_range_def split: if_splits)
  show ?thesis
  proof (cases "p = q")
    case True
    then show ?thesis using f assms(6) slot_inj by metis
  next
    case False
    then have "page_no (table_at s r p) \<noteq> page_no (table_at s r q)"
      using assms(1-3) by (auto simp: wf_space_def inj_on_def)
    then show ?thesis using f slot_other_page by blast
  qed
qed

text \<open>The effect of writing one entry of a table.\<close>

lemma set_slot_entries:
  assumes wf: "wf_space s r" and p: "p \<in> paths s r" "in_range p x"
  shows "i < 4 \<Longrightarrow> slots (set_slot (slot (table_at s r p) x) v s) (slot r i) =
      (if p = [] \<and> x = i then v else pdpte s r i)"
    and "i < 4 \<Longrightarrow> j < 512 \<Longrightarrow> present (pdpte s r i) \<Longrightarrow>
      slots (set_slot (slot (table_at s r p) x) v s) (slot (table_of (pdpte s r i)) j) =
      (if p = [i] \<and> x = j then v else pde s r i j)"
    and "i < 4 \<Longrightarrow> j < 512 \<Longrightarrow> l < 512 \<Longrightarrow> present (pdpte s r i) \<Longrightarrow> present (pde s r i j) \<Longrightarrow>
      slots (set_slot (slot (table_at s r p) x) v s) (slot (table_of (pde s r i j)) l) =
      (if p = [i, j] \<and> x = l then v else pte s r i j l)"
proof -
  show "slots (set_slot (slot (table_at s r p) x) v s) (slot r i) =
      (if p = [] \<and> x = i then v else pdpte s r i)" if "i < 4"
    using entries_apart [OF wf p(1) pathsI(1) p(2), of i] that
    by (auto simp: set_slot_def pdpte_def in_range_def)
  show "slots (set_slot (slot (table_at s r p) x) v s) (slot (table_of (pdpte s r i)) j) =
      (if p = [i] \<and> x = j then v else pde s r i j)" if "i < 4" "j < 512" "present (pdpte s r i)"
    using entries_apart [OF wf p(1) pathsI(2) [OF that(1,3)] p(2), of j] that
    by (auto simp: set_slot_def pde_def in_range_def)
  show "slots (set_slot (slot (table_at s r p) x) v s) (slot (table_of (pde s r i j)) l) =
      (if p = [i, j] \<and> x = l then v else pte s r i j l)"
    if "i < 4" "j < 512" "l < 512" "present (pdpte s r i)" "present (pde s r i j)"
    using entries_apart [OF wf p(1) pathsI(3) [OF that(1,2,4,5)] p(2), of l] that
    by (auto simp: set_slot_def pte_def in_range_def)
qed

text \<open>Clearing a page that is no table of the space.\<close>

lemma clear_page_keeps:
  assumes wf: "wf_space s r" and a: "unat a mod 4096 = 0" "page_no a \<notin> frames_owned (table_frames s)"
    and p: "p \<in> paths s r" "in_range p x"
  shows "slots (clear_page a s) (slot (table_at s r p) x) = slots s (slot (table_at s r p) x)"
proof -
  have "page_no (slot (table_at s r p) x) = page_no (table_at s r p)"
    using wf p table_at_fits by (intro slot_nat(2)) (auto simp: wf_space_def in_range_def split: if_splits)
  then have "page_no (slot (table_at s r p) x) \<noteq> page_no a" using wf p(1) a(2) by (auto simp: wf_space_def)
  then show ?thesis by (simp add: clear_page_def in_page [OF a(1)])
qed

lemma clear_page_zero: "unat a mod 4096 = 0 \<Longrightarrow> x < 512 \<Longrightarrow> slots (clear_page a s) (slot a x) = 0"
  using slot_nat(2) [OF aligned_fits] by (simp add: clear_page_def in_page)

text \<open>
  \<open>s'\<close> agrees with \<open>s\<close> on every entry of the tables of the space, except that entry \<open>x\<close> of the
  table at \<open>p\<close> is \<open>e\<close>.
\<close>

definition updates :: "paging \<Rightarrow> u32 \<Rightarrow> u32 list \<Rightarrow> u32 \<Rightarrow> u64 \<Rightarrow> paging \<Rightarrow> bool" where
  "updates s r p x e s' \<longleftrightarrow> (\<forall>q\<in>paths s r. \<forall>y. in_range q y \<longrightarrow>
     slots s' (slot (table_at s r q) y) = (if q = p \<and> y = x then e else slots s (slot (table_at s r q) y)))"

lemma updates_pdpte: "updates s r p x e s' \<Longrightarrow> i < 4 \<Longrightarrow> pdpte s' r i = (if p = [] \<and> i = x then e else pdpte s r i)"
  using pathsI(1) [of s r] by (fastforce simp: updates_def pdpte_def in_range_def)

lemma updates_pde:
  assumes "updates s r p x e s'" "i < 4" "j < 512" "present (pdpte s r i)" "pdpte s' r i = pdpte s r i"
  shows "pde s' r i j = (if p = [i] \<and> j = x then e else pde s r i j)"
  using assms(1,3,5) pathsI(2) [OF assms(2,4)] by (fastforce simp: updates_def pde_def in_range_def)

lemma updates_pte:
  assumes "updates s r p x e s'" "i < 4" "j < 512" "l < 512" "present (pdpte s r i)" "present (pde s r i j)"
    "table_of (pde s' r i j) = table_of (pde s r i j)"
  shows "pte s' r i j l = (if p = [i, j] \<and> l = x then e else pte s r i j l)"
  using assms(1,4,7) pathsI(3) [OF assms(2,3,5,6)] by (fastforce simp: updates_def pte_def in_range_def)

lemma set_slot_updates:
  assumes "wf_space s r" "p \<in> paths s r" "in_range p x"
  shows "updates s r p x e (set_slot (slot (table_at s r p) x) e s)"
  unfolding updates_def using entries_apart [OF assms(1) _ assms(2) _ assms(3)] by (auto simp: set_slot_def)

text \<open>A fresh table hung into entry \<open>x\<close> of the table at \<open>p\<close>.\<close>

lemma fresh_table_updates:
  fixes e :: u64 and f :: pmm
  assumes wf: "wf_space s r" and p: "p \<in> paths s r" "in_range p x"
    and a: "unat a mod 4096 = 0" "page_no a \<notin> frames_owned (table_frames s)"
  defines "s' \<equiv> set_slot (slot (table_at s r p) x) e (clear_page a (s\<lparr>table_frames := f\<rparr>))"
  shows "updates s r p x e s'" "y < 512 \<Longrightarrow> slots s' (slot a y) = 0" "table_frames s' = f"
    "active_pdpt s' = active_pdpt s" "nx_supported s' = nx_supported s"
proof -
  have c: "slots (clear_page a (s\<lparr>table_frames := f\<rparr>)) = slots (clear_page a s)"
    by (simp add: clear_page_def cong: if_cong)
  show "updates s r p x e s'"
    unfolding updates_def s'_def set_slot_def
    using entries_apart [OF wf _ p(1) _ p(2)] clear_page_keeps [OF wf a] by (auto simp: c)
  have "page_no (slot (table_at s r p) x) = page_no (table_at s r p)"
    using wf p table_at_fits by (intro slot_nat(2)) (auto simp: wf_space_def in_range_def split: if_splits)
  then have ne: "page_no (slot (table_at s r p) x) \<noteq> page_no a" using wf p(1) a(2) by (auto simp: wf_space_def)
  show "slots s' (slot a y) = 0" if "y < 512"
    using ne slot_nat(2) [OF aligned_fits [OF a(1) that]] clear_page_zero [OF a(1) that]
    by (auto simp: s'_def set_slot_def c)
qed (simp_all add: s'_def set_slot_def clear_page_def)

lemma wf_extend:
  assumes wf: "wf_space s r" and ps: "paths s' r = insert p (paths s r)"
    and same: "\<And>q. q \<in> paths s r \<Longrightarrow> table_at s' r q = table_at s r q"
    and new: "page_no (table_at s' r p) \<notin> frames_owned (table_frames s)" "page_no (table_at s' r p) \<noteq> 0"
    and own: "pmm_ok (table_frames s')"
      "frames_owned (table_frames s') = insert (page_no (table_at s' r p)) (frames_owned (table_frames s))"
    and perms: "perms_ok s' r"
  shows "wf_space s' r"
proof -
  have "inj_on (\<lambda>p. page_no (table_at s' r p)) (paths s r)"
    using wf same by (auto simp: wf_space_def inj_on_def)
  moreover have "page_no (table_at s' r p) \<noteq> page_no (table_at s' r q)" if "q \<in> paths s r" for q
    using that wf new(1) same [OF that] by (auto simp: wf_space_def)
  ultimately have "inj_on (\<lambda>p. page_no (table_at s' r p)) (insert p (paths s r))"
    unfolding inj_on_insert by auto
  then show ?thesis
    using wf same new own perms unfolding wf_space_def ps by auto
qed

lemma new_directory:
  assumes wf: "wf_space s r" and i0: "i0 < 4" "\<not> present (pdpte s r i0)"
    and a: "unat a mod 4096 = 0" "page_no a \<notin> frames_owned (table_frames s)" "page_no a \<noteq> 0"
    and f: "pmm_ok f" "frames_owned f = insert (page_no a) (frames_owned (table_frames s))"
    and e: "present e" "table_of e = a"
  defines "s' \<equiv> set_slot (slot r i0) e (clear_page a (s\<lparr>table_frames := f\<rparr>))"
  shows "wf_space s' r" "mmu s' r va = mmu s r va" "pdpte s' r i0 = e" "j < 512 \<Longrightarrow> pde s' r i0 j = 0"
proof -
  have rng: "in_range [] i0" using i0(1) by (simp add: in_range_def)
  have s': "s' = set_slot (slot (table_at s r []) i0) e (clear_page a (s\<lparr>table_frames := f\<rparr>))" by (simp add: s'_def)
  note up = fresh_table_updates [OF wf pathsI(1) rng a(1,2), where e = e and f = f, folded s']
  have p: "pdpte s' r i = (if i = i0 then e else pdpte s r i)" if "i < 4" for i
    using updates_pdpte [OF up(1) that] by simp
  show p0: "pdpte s' r i0 = e" using p i0(1) by simp
  show z: "pde s' r i0 j = 0" if "j < 512" for j using up(2) [OF that] e(2) p0 by (simp add: pde_def)
  have d: "pde s' r i j = pde s r i j" if "i < 4" "j < 512" "present (pdpte s r i)" for i j
    using updates_pde [OF up(1) that] p [OF that(1)] that(3) i0(2) by (cases "i = i0") auto
  have t: "pte s' r i j l = pte s r i j l"
    if "i < 4" "j < 512" "l < 512" "present (pdpte s r i)" "present (pde s r i j)" for i j l
    using updates_pte [OF up(1) that(1-5)] d [OF that(1,2,4)] by auto
  have ex: "present (pdpte s' r i) \<and> present (pde s' r i j) \<longleftrightarrow> present (pdpte s r i) \<and> present (pde s r i j)"
    if "i < 4" "j < 512" for i j
    using p [OF that(1)] d [OF that] z [OF that(2)] i0(2) e(1) by (cases "i = i0") auto
  have ps: "paths s' r = insert [i0] (paths s r)"
  proof -
    have "{[i] |i. i < 4 \<and> present (pdpte s' r i)} = insert [i0] {[i] |i. i < 4 \<and> present (pdpte s r i)}"
      using p i0 e(1) by (auto split: if_splits)
    moreover have "{[i, j] |i j. i < 4 \<and> j < 512 \<and> present (pdpte s' r i) \<and> present (pde s' r i j)} =
      {[i, j] |i j. i < 4 \<and> j < 512 \<and> present (pdpte s r i) \<and> present (pde s r i j)}" using ex by blast
    ultimately show ?thesis unfolding paths_def by auto
  qed
  have perms: "perms_ok s' r"
    unfolding perms_ok_def using ex d t wf by (auto simp: wf_space_def perms_ok_def)
  have same: "table_at s' r q = table_at s r q" if "q \<in> paths s r" for q
    using that p d i0(2) by (auto simp: paths_def)
  show "wf_space s' r"
    using wf ps same _ _ _ _ perms by (rule wf_extend) (use a e(2) f p0 up(3) in auto)
  show "mmu s' r va = mmu s r va"
    using ex [OF index_bound(1) [of va] index_bound(2) [of va]] d [OF index_bound(1) [of va] index_bound(2) [of va]]
      t [OF index_bound(1) [of va] index_bound(2) [of va] index_bound(3) [of va]]
    by (cases "present (pdpte s r (pdpt_index va)) \<and> present (pde s r (pdpt_index va) (pd_index va))")
      (auto simp: mmu_def Let_def)
qed

lemma new_table:
  assumes wf: "wf_space s r" and i0: "i0 < 4" "present (pdpte s r i0)" and j0: "j0 < 512" "\<not> present (pde s r i0 j0)"
    and a: "unat a mod 4096 = 0" "page_no a \<notin> frames_owned (table_frames s)" "page_no a \<noteq> 0"
    and f: "pmm_ok f" "frames_owned f = insert (page_no a) (frames_owned (table_frames s))"
    and e: "present e" "table_of e = a" "bit e 1" "\<not> bit e 63"
  defines "s' \<equiv> set_slot (slot (table_of (pdpte s r i0)) j0) e (clear_page a (s\<lparr>table_frames := f\<rparr>))"
  shows "wf_space s' r" "mmu s' r va = mmu s r va" "pdpte s' r i0 = pdpte s r i0" "pde s' r i0 j0 = e"
    "l < 512 \<Longrightarrow> pte s' r i0 j0 l = 0"
proof -
  have rng: "in_range [i0] j0" using j0(1) by (simp add: in_range_def)
  have s': "s' = set_slot (slot (table_at s r [i0]) j0) e (clear_page a (s\<lparr>table_frames := f\<rparr>))" by (simp add: s'_def)
  note up = fresh_table_updates [OF wf pathsI(2) [OF i0] rng a(1,2), where e = e and f = f, folded s']
  have p: "pdpte s' r i = pdpte s r i" if "i < 4" for i using updates_pdpte [OF up(1) that] by simp
  show "pdpte s' r i0 = pdpte s r i0" using p i0(1) by simp
  have d: "pde s' r i j = (if i = i0 \<and> j = j0 then e else pde s r i j)" if "i < 4" "j < 512" "present (pdpte s r i)" for i j
    using updates_pde [OF up(1) that p [OF that(1)]] by auto
  show d0: "pde s' r i0 j0 = e" using d i0 j0 by simp
  show z: "pte s' r i0 j0 l = 0" if "l < 512" for l using up(2) [OF that] e(2) d0 by (simp add: pte_def)
  have t: "pte s' r i j l = pte s r i j l"
    if "i < 4" "j < 512" "l < 512" "present (pdpte s r i)" "present (pde s r i j)" for i j l
    using updates_pte [OF up(1) that(1-5)] d [OF that(1,2,4)] that(5) j0(2) by (cases "i = i0 \<and> j = j0") auto
  have ps: "paths s' r = insert [i0, j0] (paths s r)"
    using p d i0 j0 e(1) by (auto simp: paths_def split: if_splits)
  have perms: "perms_ok s' r"
    unfolding perms_ok_def
  proof (intro allI impI)
    fix i j assume ij: "i < 4" "j < 512" "present (pdpte s' r i) \<and> present (pde s' r i j)"
    show "bit (pde s' r i j) 1 \<and> \<not> bit (pde s' r i j) 63 \<and>
      (\<forall>l<512. present (pte s' r i j l) \<and> bit (pte s' r i j l) 2 \<longrightarrow> bit (pde s' r i j) 2)"
    proof (cases "i = i0 \<and> j = j0")
      case True
      then show ?thesis using z e d0 by auto
    next
      case False
      then show ?thesis using ij p d t wf by (auto simp: wf_space_def perms_ok_def)
    qed
  qed
  have same: "table_at s' r q = table_at s r q" if "q \<in> paths s r" for q
    using that p d j0(2) by (auto simp: paths_def)
  show "wf_space s' r"
    using wf ps same _ _ _ _ perms by (rule wf_extend) (use a e(2) f d0 up(3) in auto)
  have "present (pdpte s' r i) \<and> present (pde s' r i j) \<and> present (pte s' r i j l) \<longleftrightarrow>
      present (pdpte s r i) \<and> present (pde s r i j) \<and> present (pte s r i j l)"
    if "i < 4" "j < 512" "l < 512" for i j l
    using p [OF that(1)] d [OF that(1,2)] t [OF that] z [OF that(3)] i0(2) j0(2) by (cases "i = i0 \<and> j = j0") auto
  from this [OF index_bound, of va] show "mmu s' r va = mmu s r va"
    using p [OF index_bound(1)] d [OF index_bound(1,2)] t [OF index_bound] j0(2) by (auto simp: mmu_def Let_def)
qed

text \<open>Setting the user bit of a directory entry is harmless below it.\<close>

lemma table_of_user: "table_of (e OR PAGE_USER) = table_of e"
  by (rule bit_word_eqI) (auto simp: bit_table_of bit_or_iff bit_flags)

lemma grant_user:
  assumes wf: "wf_space s r" and i0: "i0 < 4" "present (pdpte s r i0)" and j0: "j0 < 512" "present (pde s r i0 j0)"
  defines "s' \<equiv> set_slot (slot (table_of (pdpte s r i0)) j0) (pde s r i0 j0 OR PAGE_USER) s"
  shows "wf_space s' r" "mmu s' r va = mmu s r va" "pdpte s' r i0 = pdpte s r i0"
    "pde s' r i0 j0 = pde s r i0 j0 OR PAGE_USER"
proof -
  have rng: "in_range [i0] j0" using j0(1) by (simp add: in_range_def)
  have up: "updates s r [i0] j0 (pde s r i0 j0 OR PAGE_USER) s'"
    using set_slot_updates [OF wf pathsI(2) [OF i0] rng] by (simp add: s'_def)
  have p: "pdpte s' r i = pdpte s r i" if "i < 4" for i using updates_pdpte [OF up that] by simp
  show "pdpte s' r i0 = pdpte s r i0" using p i0(1) by simp
  have d: "pde s' r i j = (if i = i0 \<and> j = j0 then pde s r i j OR PAGE_USER else pde s r i j)"
    if "i < 4" "j < 512" "present (pdpte s r i)" for i j
    using updates_pde [OF up that p [OF that(1)]] by auto
  show "pde s' r i0 j0 = pde s r i0 j0 OR PAGE_USER" using d i0 j0 by simp
  have dt: "table_of (pde s' r i j) = table_of (pde s r i j)" "present (pde s' r i j) = present (pde s r i j)"
    "bit (pde s' r i j) 1 = bit (pde s r i j) 1" "bit (pde s' r i j) 63 = bit (pde s r i j) 63"
    "bit (pde s r i j) 2 \<Longrightarrow> bit (pde s' r i j) 2"
    if "i < 4" "j < 512" "present (pdpte s r i)" for i j
    using d [OF that] by (auto simp: table_of_user present_bit bit_or_iff bit_flags)
  have t: "pte s' r i j l = pte s r i j l"
    if "i < 4" "j < 512" "l < 512" "present (pdpte s r i)" "present (pde s r i j)" for i j l
    using updates_pte [OF up that(1-5)] dt(1) [OF that(1,2,4)] by auto
  have ps: "paths s' r = paths s r" using p dt(2) by (auto simp: paths_def)
  have same: "table_at s' r q = table_at s r q" if "q \<in> paths s r" for q
    using that p dt(1) by (auto simp: paths_def)
  have "perms_ok s r" using wf by (simp add: wf_space_def)
  then have perms: "perms_ok s' r" by (rule perms_ok_mono) (use p dt t in auto)
  have fr: "table_frames s' = table_frames s" by (simp add: s'_def set_slot_def)
  show "wf_space s' r"
    using wf same perms unfolding wf_space_def ps fr by (auto simp: inj_on_def)
  have "bit (pde s r i j) 2 \<and> bit (pte s r i j l) 2 \<longleftrightarrow> bit (pde s' r i j) 2 \<and> bit (pte s r i j l) 2"
    if "i < 4" "j < 512" "l < 512" "present (pdpte s r i)" "present (pde s r i j)" "present (pte s r i j l)" for i j l
    using wf that dt(5) [OF that(1,2,4)] unfolding wf_space_def perms_ok_def by blast
  from this [OF index_bound, of va] show "mmu s' r va = mmu s r va"
    using p [OF index_bound(1)] dt [OF index_bound(1,2)] t [OF index_bound] by (auto simp: mmu_def Let_def)
qed

text \<open>Writing a page-table entry changes the translation of that page only.\<close>

lemma set_pte:
  assumes wf: "wf_space s r" and i0: "i0 < 4" "present (pdpte s r i0)" and j0: "j0 < 512" "present (pde s r i0 j0)"
    and l0: "l0 < 512" and e: "present e \<and> bit e 2 \<longrightarrow> bit (pde s r i0 j0) 2"
  defines "s' \<equiv> set_slot (slot (table_of (pde s r i0 j0)) l0) e s"
  shows "wf_space s' r"
    "mmu s' r va = (if pdpt_index va = i0 \<and> pd_index va = j0 \<and> pt_index va = l0
       then (if present e then Some (table_of e, bit e 1, bit e 2, bit e 63) else None) else mmu s r va)"
proof -
  have rng: "in_range [i0, j0] l0" using l0 by (simp add: in_range_def)
  have up: "updates s r [i0, j0] l0 e s'"
    using set_slot_updates [OF wf pathsI(3) [OF i0(1) j0(1) i0(2) j0(2)] rng] by (simp add: s'_def)
  have p: "pdpte s' r i = pdpte s r i" if "i < 4" for i using updates_pdpte [OF up that] by simp
  have d: "pde s' r i j = pde s r i j" if "i < 4" "j < 512" "present (pdpte s r i)" for i j
    using updates_pde [OF up that p [OF that(1)]] by auto
  have t: "pte s' r i j l = (if i = i0 \<and> j = j0 \<and> l = l0 then e else pte s r i j l)"
    if "i < 4" "j < 512" "l < 512" "present (pdpte s r i)" "present (pde s r i j)" for i j l
    using updates_pte [OF up that(1-5)] d [OF that(1,2,4)] by auto
  have ps: "paths s' r = paths s r" using p d by (auto simp: paths_def)
  have same: "table_at s' r q = table_at s r q" if "q \<in> paths s r" for q
    using that p d by (auto simp: paths_def)
  have pw: "bit (pde s r i j) 1 \<and> \<not> bit (pde s r i j) 63 \<and>
     (\<forall>l<512. present (pte s r i j l) \<and> bit (pte s r i j l) 2 \<longrightarrow> bit (pde s r i j) 2)"
    if "i < 4" "j < 512" "present (pdpte s r i)" "present (pde s r i j)" for i j
    using wf that unfolding wf_space_def perms_ok_def by blast
  have perms: "perms_ok s' r"
    unfolding perms_ok_def
  proof (intro allI impI)
    fix i j assume ij: "i < 4" "j < 512" "present (pdpte s' r i) \<and> present (pde s' r i j)"
    then have o: "present (pdpte s r i)" "present (pde s r i j)" using p d by auto
    show "bit (pde s' r i j) 1 \<and> \<not> bit (pde s' r i j) 63 \<and>
      (\<forall>l<512. present (pte s' r i j l) \<and> bit (pte s' r i j l) 2 \<longrightarrow> bit (pde s' r i j) 2)"
      using pw [OF ij(1,2) o] d [OF ij(1,2) o(1)] t [OF ij(1,2) _ o] e by auto
  qed
  have fr: "table_frames s' = table_frames s" by (simp add: s'_def set_slot_def)
  show "wf_space s' r"
    using wf same perms unfolding wf_space_def ps fr by (auto simp: inj_on_def)
  show "mmu s' r va = (if pdpt_index va = i0 \<and> pd_index va = j0 \<and> pt_index va = l0
       then (if present e then Some (table_of e, bit e 1, bit e 2, bit e 63) else None) else mmu s r va)"
    using p [OF index_bound(1)] d [OF index_bound(1,2)] t [OF index_bound] i0 j0 e pw [OF i0(1) j0(1) i0(2) j0(2)]
    by (auto simp: mmu_def Let_def)
qed

section \<open>Mapping a page\<close>

lemma page_no_nonzero: "unat a mod 4096 = 0 \<Longrightarrow> a \<noteq> 0 \<Longrightarrow> page_no a \<noteq> 0"
  by (metis add.right_neutral div_mult_mod_eq mult_zero_left page_no_def unat_eq_zero)

lemma fresh_frame:
  assumes "pmm_ok f" "pmm_alloc_frame f = (a, f')" "a \<noteq> 0"
  shows "unat a mod 4096 = 0" "page_no a \<notin> frames_owned f" "page_no a \<noteq> 0" "pmm_ok f'"
    "frames_owned f' = insert (page_no a) (frames_owned f)"
  using pmm.alloc_some [OF assms] page_no_nonzero [OF _ assms(3)] by (auto simp: page_no_def)

lemma wf_space_frames: "wf_space s r \<Longrightarrow> pmm_ok (table_frames s)"
  by (simp add: wf_space_def)

text \<open>Failing allocations leave the state as it is.\<close>

lemma alloc_fails:
  assumes "pmm_ok (table_frames s)" "pmm_alloc_frame (table_frames s) = (0, f)"
  shows "s\<lparr>table_frames := f\<rparr> = s"
  using pmm.alloc_none [OF assms] by simp

lemma ensure_pd_correct:
  assumes wf: "wf_space s (active_pdpt s)" and run: "ensure_pd va s = (ok, s')"
  defines "r \<equiv> active_pdpt s"
  shows "active_pdpt s' = r" "nx_supported s' = nx_supported s" "wf_space s' r" "\<And>v. mmu s' r v = mmu s r v"
    "ok \<Longrightarrow> present (pdpte s' r (pdpt_index va))" "\<not> ok \<Longrightarrow> s' = s"
proof -
  let ?i = "pdpt_index va"
  obtain a f where al: "pmm_alloc_frame (table_frames s) = (a, f)" by fastforce
  consider "present (pdpte s r ?i)" "ok" "s' = s" | "\<not> present (pdpte s r ?i)" "a = 0" "\<not> ok" "s' = s"
    | "\<not> present (pdpte s r ?i)" "a \<noteq> 0" "ok"
      "s' = set_slot (slot r ?i) (ucast a OR PAGE_PRESENT) (clear_page a (s\<lparr>table_frames := f\<rparr>))"
  proof (cases "present (pdpte s r ?i)")
    case True
    then have "(ok, s') = (True, s)"
      using run by (auto simp: ensure_pd_def Let_def pdpte_def present_bit flag_zero r_def split: if_splits)
    then show ?thesis using True that(1) by simp
  next
    case False
    then have "(ok, s') = (if a = 0 then (False, s\<lparr>table_frames := f\<rparr>)
        else (True, set_slot (slot r ?i) (ucast a OR PAGE_PRESENT) (clear_page a (s\<lparr>table_frames := f\<rparr>))))"
      using run al by (auto simp: ensure_pd_def Let_def pdpte_def present_bit flag_zero r_def split: if_splits)
    then show ?thesis using False that(2,3) al alloc_fails [OF wf_space_frames [OF wf]] by (auto split: if_splits)
  qed
  then have "active_pdpt s' = r \<and> nx_supported s' = nx_supported s \<and> wf_space s' r \<and> (\<forall>v. mmu s' r v = mmu s r v) \<and>
    (ok \<longrightarrow> present (pdpte s' r ?i)) \<and> (\<not> ok \<longrightarrow> s' = s)"
  proof cases
    case 3
    note fr = fresh_frame [OF wf_space_frames [OF wf] al 3(2)]
    have e: "present (ucast a OR PAGE_PRESENT)" "table_of (ucast a OR PAGE_PRESENT) = a"
      using bit_entry_flag [OF fr(1), of 0 PAGE_PRESENT] table_of_entry [OF fr(1) present_no_addr]
      by (simp_all add: present_bit bit_flags)
    note nd = new_directory [OF wf [folded r_def] index_bound(1) 3(1) fr(1,2,3,4,5) e, folded 3(4)]
    have "active_pdpt s' = r" "nx_supported s' = nx_supported s"
      by (simp_all add: 3(4) set_slot_def clear_page_def r_def)
    then show ?thesis using nd(1-3) e(1) 3(3) by simp
  qed (use wf in \<open>auto simp: r_def\<close>)
  then show "active_pdpt s' = r" "nx_supported s' = nx_supported s" "wf_space s' r" "\<And>v. mmu s' r v = mmu s r v"
    "ok \<Longrightarrow> present (pdpte s' r ?i)" "\<not> ok \<Longrightarrow> s' = s" by auto
qed

lemma ensure_pt_correct:
  assumes wf: "wf_space s r" and i: "present (pdpte s r (pdpt_index va))"
    and run: "ensure_pt (table_of (pdpte s r (pdpt_index va))) va flags s = (ok, s')"
  shows "active_pdpt s' = active_pdpt s" "nx_supported s' = nx_supported s" "wf_space s' r" "\<And>v. mmu s' r v = mmu s r v"
    "pdpte s' r (pdpt_index va) = pdpte s r (pdpt_index va)"
    "ok \<Longrightarrow> present (pde s' r (pdpt_index va) (pd_index va)) \<and>
       (bit flags 2 \<longrightarrow> bit (pde s' r (pdpt_index va) (pd_index va)) 2)"
    "\<not> ok \<Longrightarrow> s' = s"
proof -
  let ?i = "pdpt_index va" and ?j = "pd_index va"
  let ?d = "slot (table_of (pdpte s r ?i)) ?j"
  obtain a f where al: "pmm_alloc_frame (table_frames s) = (a, f)" by fastforce
  let ?e = "ucast a OR (PAGE_PRESENT OR PAGE_WRITE OR (flags AND PAGE_USER)) :: u64"
  consider "present (pde s r ?i ?j)" "ok" "bit flags 2" "s' = set_slot ?d (pde s r ?i ?j OR PAGE_USER) s"
    | "present (pde s r ?i ?j)" "ok" "\<not> bit flags 2" "s' = s"
    | "\<not> present (pde s r ?i ?j)" "a = 0" "\<not> ok" "s' = s"
    | "\<not> present (pde s r ?i ?j)" "a \<noteq> 0" "ok" "s' = set_slot ?d ?e (clear_page a (s\<lparr>table_frames := f\<rparr>))"
  proof (cases "present (pde s r ?i ?j)")
    case True
    then have "(ok, s') = (if bit flags 2 then (True, set_slot ?d (pde s r ?i ?j OR PAGE_USER) s) else (True, s))"
      using run by (auto simp: ensure_pt_def Let_def pde_def present_bit flag_zero split: if_splits)
    then show ?thesis using True that(1,2) by (auto split: if_splits)
  next
    case False
    then have "(ok, s') = (if a = 0 then (False, s\<lparr>table_frames := f\<rparr>)
        else (True, set_slot ?d ?e (clear_page a (s\<lparr>table_frames := f\<rparr>))))"
      using run al by (auto simp: ensure_pt_def Let_def pde_def present_bit flag_zero split: if_splits)
    then show ?thesis using False that(3,4) al alloc_fails [OF wf_space_frames [OF wf]] by (auto split: if_splits)
  qed
  then have "active_pdpt s' = active_pdpt s \<and> nx_supported s' = nx_supported s \<and> wf_space s' r \<and> (\<forall>v. mmu s' r v = mmu s r v) \<and>
    pdpte s' r ?i = pdpte s r ?i \<and>
    (ok \<longrightarrow> present (pde s' r ?i ?j) \<and> (bit flags 2 \<longrightarrow> bit (pde s' r ?i ?j) 2)) \<and> (\<not> ok \<longrightarrow> s' = s)"
  proof cases
    case 1
    note g = grant_user [OF wf index_bound(1) i index_bound(2) 1(1), folded 1(4)]
    then show ?thesis using 1 by (auto simp: set_slot_def present_bit bit_or_iff bit_flags)
  next
    case 4
    note fr = fresh_frame [OF wf_space_frames [OF wf] al 4(2)]
    have "table_of ?e = a"
      by (rule table_of_entry [OF fr(1)], rule bit_word_eqI, unfold bit_and_iff bit_or_iff bit_flags bit_addr_mask) auto
    moreover
    let ?f = "PAGE_PRESENT OR PAGE_WRITE OR (flags AND PAGE_USER)"
    have "bit ?f 0" "bit ?f 1" "\<not> bit ?f 63" "bit ?f 2 = bit flags 2"
      by (simp_all add: bit_or_iff bit_and_iff bit_flags)
    moreover have "bit ?e n = bit ?f n" if "n < 12 \<or> 32 \<le> n" for n using bit_entry_flag [OF fr(1) that] .
    from this [of 0] this [of 1] this [of 2] this [of 63] calculation(2-5)
    have "present ?e" "bit ?e 1" "\<not> bit ?e 63" "bit ?e 2 = bit flags 2"
      unfolding present_bit by simp_all
    ultimately show ?thesis
      using new_table [OF wf index_bound(1) i index_bound(2) 4(1) fr, of ?e, folded 4(4)] 4
      by (simp add: set_slot_def clear_page_def)
  qed (use wf i in auto)
  then show "active_pdpt s' = active_pdpt s" "nx_supported s' = nx_supported s" "wf_space s' r" "\<And>v. mmu s' r v = mmu s r v"
    "pdpte s' r ?i = pdpte s r ?i"
    "ok \<Longrightarrow> present (pde s' r ?i ?j) \<and> (bit flags 2 \<longrightarrow> bit (pde s' r ?i ?j) 2)" "\<not> ok \<Longrightarrow> s' = s" by auto
qed

text \<open>What the page-table entry of \<open>paging_map\<close> allows.\<close>

definition mapping_of :: "u32 \<Rightarrow> u64 \<Rightarrow> bool \<Rightarrow> u32 \<times> bool \<times> bool \<times> bool" where
  "mapping_of pa flags nx = (pa, bit flags 1, bit flags 2, nx \<and> bit flags 63)"

lemma paging_map_cases:
  assumes wf: "wf_space s (active_pdpt s)" and pa: "unat pa mod 4096 = 0"
    and fl: "flags AND 0xFFFFF000 = 0" "bit flags 0" and run: "paging_map va pa flags s = (ok, s')"
  shows "active_pdpt s' = active_pdpt s \<and> nx_supported s' = nx_supported s \<and> wf_space s' (active_pdpt s) \<and>
    (\<forall>v. mmu s' (active_pdpt s) v = (if ok \<and> page_no v = page_no va
       then Some (mapping_of pa flags (nx_supported s)) else mmu s (active_pdpt s) v))"
proof -
  let ?r = "active_pdpt s" and ?i = "pdpt_index va" and ?j = "pd_index va" and ?l = "pt_index va"
  obtain ok1 s1 where e1: "ensure_pd va s = (ok1, s1)" by fastforce
  note p1 = ensure_pd_correct [OF wf e1]
  show ?thesis
  proof (cases ok1)
    case False
    then show ?thesis using run e1 p1 wf by (simp add: paging_map_def)
  next
    case True
    obtain ok2 s2 where e2: "ensure_pt (table_of (pdpte s1 ?r ?i)) va flags s1 = (ok2, s2)" by fastforce
    note p2 = ensure_pt_correct [OF p1(3) p1(5) [OF True] e2]
    have eq: "slots s1 (slot (active_pdpt s1) ?i) = pdpte s1 ?r ?i"
      "slots s2 (slot (table_of (pdpte s1 ?r ?i)) ?j) = pde s2 ?r ?i ?j"
      using p1(1) p2(5) by (simp_all add: pdpte_def pde_def)
    define fl where "fl = (if nx_supported s2 then flags else flags AND NOT PAGE_NX)"
    define e where "e = (ucast pa OR fl :: u64)"
    have res: "ok = ok2" "s' = (if ok2 then set_slot (slot (table_of (pde s2 ?r ?i ?j)) ?l) e s2 else s2)"
    proof -
      have "(case (ok2, s2) of (False, s2) \<Rightarrow> (False, s2)
        | (True, s2) \<Rightarrow> (True, set_slot (slot (table_of (slots s2 (slot (table_of (pdpte s1 ?r ?i)) ?j))) ?l)
            e s2)) = (ok, s')"
        using run e1 True e2 eq(1) unfolding e_def fl_def by (cases ok2) (simp_all add: paging_map_def Let_def split del: if_split)
      then show "ok = ok2" "s' = (if ok2 then set_slot (slot (table_of (pde s2 ?r ?i ?j)) ?l) e s2 else s2)"
        unfolding prod.case eq(2) by (cases ok2; simp)+
    qed
    show ?thesis
    proof (cases ok2)
      case False
      then show ?thesis using res p1 p2 by simp
    next
      case True
      note p2' = p2(6) [OF True]
      have fl': "fl AND 0xFFFFF000 = 0"
        using fl(1) by (auto simp: fl_def bit_eq_iff bit_and_iff bit_not_iff)
      have bits: "bit e n = bit fl n" if "n < 12 \<or> 32 \<le> n" for n using bit_entry_flag [OF pa that] by (simp add: e_def)
      have tbl: "table_of e = pa" using table_of_entry [OF pa fl'] by (simp add: e_def)
      have eb: "present e" "bit e 1 = bit flags 1" "bit e 2 = bit flags 2" "bit e 63 = (nx_supported s \<and> bit flags 63)"
        using bits [of 0] bits [of 1] bits [of 2] bits [of 63] fl(2) p1(2) p2(2)
        unfolding present_bit by (auto simp: fl_def bit_and_iff bit_not_iff bit_flags)
      have "present (pdpte s2 ?r ?i)" using p2(5) p1(5) \<open>ok1\<close> by simp
      note sp = set_pte [OF p2(3) index_bound(1) this index_bound(2) p2'[THEN conjunct1] index_bound(3), of e]
      have sp': "wf_space s' ?r" "\<And>v. mmu s' ?r v = (if page_no v = page_no va
          then Some (table_of e, bit e 1, bit e 2, bit e 63) else mmu s2 ?r v)"
        using sp p2' eb(1,3) res True index_page [of _ va] by (auto simp: present_bit)
      have "active_pdpt s' = ?r" "nx_supported s' = nx_supported s"
        using res True p1(1,2) p2(1,2) by (simp_all add: set_slot_def)
      then show ?thesis using sp' p1(4) p2(4) eb tbl res True by (simp add: mapping_of_def)
    qed
  qed
qed

section \<open>New address spaces\<close>

lemma copy_loop:
  assumes "unat pd mod 4096 = 0" "fits kpd 511" "page_no pd \<noteq> page_no kpd" "n \<le> 512"
  defines "f \<equiv> \<lambda>i s. set_slot (slot pd (word_of_nat i)) (slots s (slot kpd (word_of_nat i))) s"
  shows "(\<forall>j<512. slots (fold f [0..<n] s) (slot pd (word_of_nat j)) =
      (if j < n then slots s (slot kpd (word_of_nat j)) else slots s (slot pd (word_of_nat j)))) \<and>
    (\<forall>x. page_no x \<noteq> page_no pd \<longrightarrow> slots (fold f [0..<n] s) x = slots s x) \<and>
    (\<exists>m. fold f [0..<n] s = s\<lparr>slots := m\<rparr>)"
  using assms(4)
proof (induction n)
  case 0
  show ?case by (auto intro: exI [of _ "slots s"])
next
  case (Suc n)
  let ?s = "fold f [0..<n] s"
  have small: "word_of_nat j < (512 :: u32)" "unat (word_of_nat j :: u32) = j" if "j < 512" for j
    using that by (simp_all add: word_less_nat_alt unat32_of_nat)
  have fit: "fits pd (word_of_nat j)" "fits kpd (word_of_nat j)" if "j < 512" for j
    using that assms(1,2) small [OF that] by (auto simp: fits_def)
  have neq: "slot pd (word_of_nat j) \<noteq> slot pd (word_of_nat n)" if "j < 512" "j \<noteq> n" for j
    using slot_inj [OF fit(1) [OF that(1)] fit(1) [of n]] small [of j] small [of n] that Suc.prems by auto
  have pg: "page_no (slot pd (word_of_nat n)) = page_no pd" "page_no (slot kpd (word_of_nat j)) = page_no kpd"
    if "j < 512" for j using slot_nat(2) [OF fit(1) [of n]] slot_nat(2) [OF fit(2) [OF that]] Suc.prems by simp_all
  have ih: "\<And>j. j < 512 \<Longrightarrow> slots ?s (slot pd (word_of_nat j)) =
      (if j < n then slots s (slot kpd (word_of_nat j)) else slots s (slot pd (word_of_nat j)))"
    "\<And>x. page_no x \<noteq> page_no pd \<Longrightarrow> slots ?s x = slots s x" "\<exists>m. ?s = s\<lparr>slots := m\<rparr>"
    using Suc by auto
  have k: "slots ?s (slot kpd (word_of_nat n)) = slots s (slot kpd (word_of_nat n))"
    using ih(2) pg(2) [of n] assms(3) Suc.prems by simp
  have step: "fold f [0..<Suc n] s = set_slot (slot pd (word_of_nat n)) (slots s (slot kpd (word_of_nat n))) ?s"
    by (simp add: f_def k [unfolded f_def])
  have "slots (fold f [0..<Suc n] s) (slot pd (word_of_nat j)) =
      (if j < Suc n then slots s (slot kpd (word_of_nat j)) else slots s (slot pd (word_of_nat j)))" if "j < 512" for j
    using ih(1) [OF that] neq [OF that] unfolding step set_slot_def by (cases "j = n") auto
  moreover have "slots (fold f [0..<Suc n] s) x = slots s x" if "page_no x \<noteq> page_no pd" for x
    using ih(2) [OF that] pg(1) [of 0] that unfolding step set_slot_def by auto
  moreover have "\<exists>m. fold f [0..<Suc n] s = s\<lparr>slots := m\<rparr>"
    using ih(3) unfolding step set_slot_def by auto
  ultimately show ?case by blast
qed

lemma copy_kernel_pd_eq:
  "copy_kernel_pd pd s = fold (\<lambda>i s'. set_slot (slot pd (word_of_nat i)) (slots s' (slot (kernel_pd s) (word_of_nat i))) s')
     [0..<unat (kernel_pd_entries s)] s"
proof -
  have "fold (\<lambda>i s. set_slot (slot pd (word_of_nat i)) (slots s (slot (kernel_pd s) (word_of_nat i))) s) [0..<m] s =
      fold (\<lambda>i s'. set_slot (slot pd (word_of_nat i)) (slots s' (slot (kernel_pd s) (word_of_nat i))) s') [0..<m] s \<and>
    kernel_pd (fold (\<lambda>i s'. set_slot (slot pd (word_of_nat i)) (slots s' (slot (kernel_pd s) (word_of_nat i))) s') [0..<m] s) =
      kernel_pd s" for m
    by (induction m) (simp_all add: set_slot_def)
  then show ?thesis by (simp add: copy_kernel_pd_def)
qed

text \<open>The kernel's own space, as \<open>paging_init\<close> leaves it.\<close>

definition kernel_space :: "paging \<Rightarrow> bool" where
  "kernel_space s \<longleftrightarrow> wf_space s (kernel_pdpt s) \<and> present (pdpte s (kernel_pdpt s) 0) \<and>
     table_of (pdpte s (kernel_pdpt s) 0) = kernel_pd s \<and> kernel_pd_entries s \<le> 512"

text \<open>Two states that agree outside pages no table of a space uses give the same translations.\<close>

lemma space_untouched:
  assumes wf: "wf_space s r" and same: "\<And>x. page_no x \<in> frames_owned (table_frames s) \<Longrightarrow> slots s' x = slots s x"
    and own: "pmm_ok (table_frames s')" "frames_owned (table_frames s) \<subseteq> frames_owned (table_frames s')"
  shows "wf_space s' r" "mmu s' r va = mmu s r va" "i < 4 \<Longrightarrow> pdpte s' r i = pdpte s r i"
    "i < 4 \<Longrightarrow> j < 512 \<Longrightarrow> present (pdpte s r i) \<Longrightarrow> pde s' r i j = pde s r i j"
    "i < 4 \<Longrightarrow> j < 512 \<Longrightarrow> l < 512 \<Longrightarrow> present (pdpte s r i) \<Longrightarrow> present (pde s r i j) \<Longrightarrow> pte s' r i j l = pte s r i j l"
proof -
  have sl: "slots s' (slot (table_at s r p) x) = slots s (slot (table_at s r p) x)"
    if "p \<in> paths s r" "in_range p x" for p x
  proof -
    have "fits (table_at s r p) x"
      using wf that table_at_fits by (auto simp: wf_space_def in_range_def split: if_splits)
    then show ?thesis using same slot_nat(2) wf that(1) by (simp add: wf_space_def)
  qed
  show p: "pdpte s' r i = pdpte s r i" if "i < 4" for i
    using sl [OF pathsI(1), of i] that by (simp add: pdpte_def in_range_def)
  show d: "pde s' r i j = pde s r i j" if "i < 4" "j < 512" "present (pdpte s r i)" for i j
    using sl [OF pathsI(2) [OF that(1,3)], of j] that p by (simp add: pde_def in_range_def)
  show t: "pte s' r i j l = pte s r i j l"
    if "i < 4" "j < 512" "l < 512" "present (pdpte s r i)" "present (pde s r i j)" for i j l
    using sl [OF pathsI(3) [OF that(1,2,4,5)], of l] that d by (simp add: pte_def in_range_def)
  have ps: "paths s' r = paths s r" using p d by (auto simp: paths_def)
  have tb: "table_at s' r q = table_at s r q" if "q \<in> paths s r" for q using that p d by (auto simp: paths_def)
  have "perms_ok s r" using wf by (simp add: wf_space_def)
  then have "perms_ok s' r" by (rule perms_ok_mono) (use p d t in auto)
  then show "wf_space s' r" using wf tb own unfolding wf_space_def ps by (auto simp: inj_on_def)
  show "mmu s' r va = mmu s r va"
    using p [OF index_bound(1) [of va]] d [OF index_bound(1) [of va] index_bound(2) [of va]]
      t [OF index_bound(1) [of va] index_bound(2) [of va] index_bound(3) [of va]] by (auto simp: mmu_def Let_def)
qed

text \<open>What \<open>paging_create_address_space\<close> builds: root \<open>a\<close> and directory \<open>pd\<close> in fresh frames.\<close>

definition space_layout :: "paging \<Rightarrow> u32 \<Rightarrow> u32 \<Rightarrow> paging \<Rightarrow> bool" where
  "space_layout s a pd s' \<longleftrightarrow>
     unat a mod 4096 = 0 \<and> unat pd mod 4096 = 0 \<and> page_no a \<noteq> page_no pd \<and>
     page_no a \<notin> frames_owned (table_frames s) \<and> page_no pd \<notin> frames_owned (table_frames s) \<and>
     page_no a \<noteq> 0 \<and> page_no pd \<noteq> 0 \<and> pmm_ok (table_frames s') \<and>
     frames_owned (table_frames s') = {page_no a, page_no pd} \<union> frames_owned (table_frames s) \<and>
     (\<forall>x. page_no x \<notin> {page_no a, page_no pd} \<longrightarrow> slots s' x = slots s x) \<and>
     (\<forall>i<4. pdpte s' a i = (if i = 0 then ucast pd OR PAGE_PRESENT else 0)) \<and>
     (\<forall>j<512. slots s' (slot pd j) = (if j < kernel_pd_entries s then pde s (kernel_pdpt s) 0 j else 0)) \<and>
     kernel_pdpt s' = kernel_pdpt s \<and> kernel_pd s' = kernel_pd s \<and> kernel_pd_entries s' = kernel_pd_entries s \<and>
     nx_supported s' = nx_supported s \<and> active_pdpt s' = active_pdpt s"

lemma create_space_slots:
  assumes ks: "kernel_space s" and run: "paging_create_address_space s = (a, s')" and a: "a \<noteq> 0"
  shows "\<exists>pd. space_layout s a pd s'"
proof -
  have wf: "wf_space s (kernel_pdpt s)" and kpd: "table_of (pdpte s (kernel_pdpt s) 0) = kernel_pd s"
    "present (pdpte s (kernel_pdpt s) 0)" "kernel_pd_entries s \<le> 512" using ks by (auto simp: kernel_space_def)
  have kpd_own: "page_no (kernel_pd s) \<in> frames_owned (table_frames s)"
    using wf pathsI(2) [of 0 s "kernel_pdpt s"] kpd by (force simp: wf_space_def)
  have kpd_al: "unat (kernel_pd s) mod 4096 = 0" using kpd(1) table_of_aligned by metis
  obtain f1 where al1: "pmm_alloc_frame (table_frames s) = (a, f1)"
    using run a by (auto simp: paging_create_address_space_def split: prod.splits if_splits)
  note fa = fresh_frame [OF wf_space_frames [OF wf] al1 a]
  obtain pd f2 where al2: "pmm_alloc_frame f1 = (pd, f2)" "pd \<noteq> 0" and s':
    "s' = set_slot (slot a 0) (ucast pd OR PAGE_PRESENT)
       (copy_kernel_pd pd (clear_page pd (clear_page a (s\<lparr>table_frames := f2\<rparr>))))"
    using run a al1 by (auto simp: paging_create_address_space_def split: prod.splits if_splits)
  note fp = fresh_frame [OF fa(4) al2]
  define s1 where "s1 = clear_page pd (clear_page a (s\<lparr>table_frames := f2\<rparr>))"
  have s1: "slots s1 x = (if page_no x \<in> {page_no a, page_no pd} then 0 else slots s x)" for x
    unfolding s1_def clear_page_def by (simp add: in_page [OF fa(1)] in_page [OF fp(1)])
  have s1f: "kernel_pd s1 = kernel_pd s" "kernel_pd_entries s1 = kernel_pd_entries s" "table_frames s1 = f2"
    "kernel_pdpt s1 = kernel_pdpt s" "nx_supported s1 = nx_supported s" "active_pdpt s1 = active_pdpt s"
    by (simp_all add: s1_def clear_page_def)
  define n where "n = unat (kernel_pd_entries s)"
  have n: "n \<le> 512" using kpd(3) by (simp add: n_def word_le_nat_alt)
  have fpn: "page_no pd \<notin> frames_owned (table_frames s)" "page_no pd \<noteq> page_no a"
    using fp(2) unfolding fa(5) by simp_all
  have ne: "page_no pd \<noteq> page_no (kernel_pd s)" "page_no a \<noteq> page_no (kernel_pd s)" "page_no pd \<noteq> page_no a"
    using kpd_own fpn fa(2) by metis+
  have kfit: "fits (kernel_pd s) j" if "j < 512" for j using aligned_fits [OF kpd_al that] .
  define s2 where "s2 = copy_kernel_pd pd s1"
  have "s2 = fold (\<lambda>i s'. set_slot (slot pd (word_of_nat i)) (slots s' (slot (kernel_pd s) (word_of_nat i))) s') [0..<n] s1"
    by (simp add: s2_def copy_kernel_pd_eq s1f n_def)
  then have s2: "\<And>j. j < 512 \<Longrightarrow> slots s2 (slot pd (word_of_nat j)) =
      (if j < n then slots s1 (slot (kernel_pd s) (word_of_nat j)) else slots s1 (slot pd (word_of_nat j)))"
    "\<And>x. page_no x \<noteq> page_no pd \<Longrightarrow> slots s2 x = slots s1 x" "\<exists>m. s2 = s1\<lparr>slots := m\<rparr>"
    using copy_loop [OF fp(1) kfit [of 511] ne(1) n, of s1] by simp_all
  have fita: "fits a i" if "i < 512" for i using aligned_fits [OF fa(1) that] .
  have fitp: "fits pd i" if "i < 512" for i using aligned_fits [OF fp(1) that] .
  have pga: "page_no (slot a i) = page_no a" if "i < 512" for i using slot_nat(2) [OF fita [OF that]] .
  have pgp: "page_no (slot pd i) = page_no pd" if "i < 512" for i using slot_nat(2) [OF fitp [OF that]] .
  have s'2: "s' = set_slot (slot a 0) (ucast pd OR PAGE_PRESENT) s2" by (simp add: s' s2_def s1_def)
  have f: "table_frames s' = f2" using s2(3) by (auto simp: s'2 set_slot_def s1f)
  moreover have "frames_owned f2 = {page_no a, page_no pd} \<union> frames_owned (table_frames s)"
    using fp(5) fa(5) by auto
  moreover have "slots s' x = slots s x" if "page_no x \<notin> {page_no a, page_no pd}" for x
      using that s2(2) [of x] s1 [of x] pga [of 0] by (auto simp: s'2 set_slot_def)
  moreover have "pdpte s' a i = (if i = 0 then ucast pd OR PAGE_PRESENT else 0)" if "i < 4" for i
    proof -
      have i: "i < 512" using that by (simp add: word_less_nat_alt)
      have "slots s2 (slot a i) = 0" using s2(2) [of "slot a i"] s1 [of "slot a i"] pga [OF i] ne(3) by simp
      moreover have "slot a i = slot a 0 \<Longrightarrow> i = 0" using slot_inj [OF fita [OF i] fita] by simp
      ultimately show ?thesis by (auto simp: s'2 set_slot_def pdpte_def)
    qed
  moreover have "slots s' (slot pd j) = (if j < kernel_pd_entries s then pde s (kernel_pdpt s) 0 j else 0)" if "j < 512" for j
    proof -
      have ju: "unat j < 512" using that by (simp add: word_less_nat_alt)
      have "slot pd j \<noteq> slot a 0" using pgp [OF that] pga [of 0] ne(3) by auto
      then have "slots s' (slot pd j) = slots s2 (slot pd (word_of_nat (unat j)))" by (simp add: s'2 set_slot_def)
      also have "\<dots> = (if j < kernel_pd_entries s then slots s1 (slot (kernel_pd s) j) else slots s1 (slot pd j))"
        using s2(1) [OF ju] by (simp add: n_def word_less_nat_alt)
      also have "slots s1 (slot pd j) = 0" using s1 pgp [OF that] by simp
      also have "slots s1 (slot (kernel_pd s) j) = pde s (kernel_pdpt s) 0 j"
        using s1 [of "slot (kernel_pd s) j"] slot_nat(2) [OF kfit [OF that]] ne kpd(1) by (simp add: pde_def)
      finally show ?thesis .
    qed
  moreover have "kernel_pdpt s' = kernel_pdpt s" "kernel_pd s' = kernel_pd s" "kernel_pd_entries s' = kernel_pd_entries s"
      "nx_supported s' = nx_supported s" "active_pdpt s' = active_pdpt s"
    using s2(3) s1f by (auto simp: s'2 set_slot_def)
  ultimately have "space_layout s a pd s'"
    using fa(1,2,3) fp(1,3,4) fpn unfolding space_layout_def by simp
  then show ?thesis ..
qed

lemma create_space_correct:
  assumes ks: "kernel_space s" and run: "paging_create_address_space s = (a, s')" and a: "a \<noteq> 0"
  shows "wf_space s' a" "kernel_space s'" "\<And>r v. wf_space s r \<Longrightarrow> wf_space s' r \<and> mmu s' r v = mmu s r v"
    "mmu s' a va = (if unat va div 2097152 < unat (kernel_pd_entries s) then mmu s (kernel_pdpt s) va else None)"
proof -
  let ?k = "kernel_pdpt s"
  have wf: "wf_space s ?k" and kpd: "table_of (pdpte s ?k 0) = kernel_pd s" "present (pdpte s ?k 0)"
    "kernel_pd_entries s \<le> 512" using ks by (auto simp: kernel_space_def)
  from create_space_slots [OF ks run a] obtain pd where "space_layout s a pd s'" ..
  then have al: "unat a mod 4096 = 0" "unat pd mod 4096 = 0" "page_no a \<noteq> page_no pd"
    and fr: "page_no a \<notin> frames_owned (table_frames s)" "page_no pd \<notin> frames_owned (table_frames s)"
      "page_no a \<noteq> 0" "page_no pd \<noteq> 0" "pmm_ok (table_frames s')"
      "frames_owned (table_frames s') = {page_no a, page_no pd} \<union> frames_owned (table_frames s)"
    and sl: "\<And>x. page_no x \<notin> {page_no a, page_no pd} \<Longrightarrow> slots s' x = slots s x"
      "\<And>i. i < 4 \<Longrightarrow> pdpte s' a i = (if i = 0 then ucast pd OR PAGE_PRESENT else 0)"
      "\<And>j. j < 512 \<Longrightarrow> slots s' (slot pd j) = (if j < kernel_pd_entries s then pde s (kernel_pdpt s) 0 j else 0)"
    and ks': "kernel_pdpt s' = kernel_pdpt s" "kernel_pd s' = kernel_pd s" "kernel_pd_entries s' = kernel_pd_entries s"
    unfolding space_layout_def by blast+
  have untouched: "slots s' x = slots s x" if "page_no x \<in> frames_owned (table_frames s)" for x
    using sl(1) fr(1,2) that by (metis insertE singletonD)
  have sub: "frames_owned (table_frames s) \<subseteq> frames_owned (table_frames s')" using fr(6) by blast
  note keep = space_untouched [OF _ untouched fr(5) sub]
  show "wf_space s' r \<and> mmu s' r v = mmu s r v" if "wf_space s r" for r v using keep(1,2) [OF that] by simp
  show "kernel_space s'"
    using keep(1,3) [OF wf] ks' kpd by (simp add: kernel_space_def)
  have e: "present (ucast pd OR PAGE_PRESENT)" "table_of (ucast pd OR PAGE_PRESENT) = pd"
    using bit_entry_flag [OF al(2), of 0 PAGE_PRESENT] table_of_entry [OF al(2) present_no_addr]
    by (simp_all add: present_bit bit_flags)
  have pp: "present (pdpte s' a i) \<longleftrightarrow> i = 0" if "i < 4" for i using sl(2) [OF that] e(1) by simp
  have t0: "table_of (pdpte s' a 0) = pd" using sl(2) [of 0] e(2) by simp
  have pd: "pde s' a 0 j = (if j < kernel_pd_entries s then pde s ?k 0 j else 0)" if "j < 512" for j
    using sl(3) [OF that] t0 by (simp add: pde_def)
  have pdp: "present (pde s' a 0 j) \<longleftrightarrow> j < kernel_pd_entries s \<and> present (pde s ?k 0 j)" if "j < 512" for j
    using pd [OF that] by simp
  have pt: "pte s' a 0 j l = pte s ?k 0 j l"
    if "j < 512" "l < 512" "present (pde s' a 0 j)" for j l
  proof -
    have d: "pde s' a 0 j = pde s ?k 0 j" "present (pde s ?k 0 j)" using pd [OF that(1)] pdp [OF that(1)] that(3) by auto
    have "page_no (table_at s ?k [0, j]) \<in> frames_owned (table_frames s)"
      using wf pathsI(3) [of 0 j s ?k] kpd(2) d(2) that(1) by (force simp: wf_space_def)
    moreover have "fits (table_of (pde s ?k 0 j)) l" using aligned_fits [OF table_of_aligned that(2)] .
    ultimately have "slots s' (slot (table_of (pde s ?k 0 j)) l) = slots s (slot (table_of (pde s ?k 0 j)) l)"
      using untouched slot_nat(2) by simp
    then show ?thesis by (simp add: pte_def d(1))
  qed
  have "perms_ok s ?k" using wf by (simp add: wf_space_def)
  then have perms: "perms_ok s' a"
    by (rule perms_ok_mono) (use pp pd pdp pt kpd(2) in \<open>auto split: if_splits\<close>)
  have ps: "paths s' a = {[], [0]} \<union> {[0, j] |j. j < 512 \<and> j < kernel_pd_entries s \<and> present (pde s ?k 0 j)}"
    using pp pdp unfolding paths_def by (auto simp: word_less_nat_alt)
  have old: "page_no (table_at s' a [0, j]) = page_no (table_at s ?k [0, j]) \<and> [0, j] \<in> paths s ?k"
    if "j < 512" "j < kernel_pd_entries s" "present (pde s ?k 0 j)" for j
    using pd [OF that(1)] that kpd(2) pathsI(3) [of 0 j s ?k] by simp
  have own_k: "page_no (table_at s ?k p) \<in> frames_owned (table_frames s) \<and> page_no (table_at s ?k p) \<noteq> 0" if "p \<in> paths s ?k" for p
    using wf that by (simp add: wf_space_def)
  have inj_k: "inj_on (\<lambda>p. page_no (table_at s ?k p)) (paths s ?k)" using wf by (simp add: wf_space_def)
  have tp: "page_no (table_at s' a p) = (if p = [] then page_no a else if p = [0] then page_no pd else page_no (table_at s ?k p)) \<and>
      (p = [] \<or> p = [0] \<or> p \<in> paths s ?k)" if "p \<in> paths s' a" for p
    using that old t0 unfolding ps by auto
  have "inj_on (\<lambda>p. page_no (table_at s' a p)) (paths s' a)"
  proof (rule inj_onI)
    fix p q assume pq: "p \<in> paths s' a" "q \<in> paths s' a" "page_no (table_at s' a p) = page_no (table_at s' a q)"
    have out: "page_no (table_at s ?k u) \<noteq> page_no a" "page_no (table_at s ?k u) \<noteq> page_no pd" if "u \<in> paths s ?k" for u
      using own_k [OF that] fr(1,2) by metis+
    consider "p \<in> {[], [0]}" "q \<in> {[], [0]}" | "p \<in> {[], [0]}" "q \<notin> {[], [0]}" | "p \<notin> {[], [0]}" "q \<in> {[], [0]}"
      | "p \<notin> {[], [0]}" "q \<notin> {[], [0]}" by blast
    then show "p = q"
    proof cases
      case 1
      then show ?thesis using pq(3) tp [OF pq(1)] tp [OF pq(2)] al(3) by auto
    next
      case 2
      then show ?thesis using pq(3) tp [OF pq(1)] tp [OF pq(2)] out [of q] by auto
    next
      case 3
      then show ?thesis using pq(3) tp [OF pq(1)] tp [OF pq(2)] out [of p] by auto
    next
      case 4
      then show ?thesis using pq(3) tp [OF pq(1)] tp [OF pq(2)] inj_onD [OF inj_k, of p q] by auto
    qed
  qed
  moreover have "page_no (table_at s' a p) \<in> frames_owned (table_frames s') \<and> page_no (table_at s' a p) \<noteq> 0"
    if "p \<in> paths s' a" for p
    using tp [OF that] own_k [of p] fr(3,4,6) by (auto split: if_splits)
  moreover have "fits a 3" using aligned_fits [OF al(1)] by simp
  ultimately show "wf_space s' a" using perms fr(5) by (simp add: wf_space_def)
  show "mmu s' a va = (if unat va div 2097152 < unat (kernel_pd_entries s) then mmu s ?k va else None)"
  proof (cases "pdpt_index va = 0")
    case True
    have "unat va div 2 ^ 30 = 0" using True index_nat(1) [of va] by simp
    then have "unat va div 2097152 < 512" by (simp add: div_eq_0_iff less_mult_imp_div_less)
    then have "unat (pd_index va) = unat va div 2097152" using index_nat(2) [of va] by simp
    then have lt: "pd_index va < kernel_pd_entries s \<longleftrightarrow> unat va div 2097152 < unat (kernel_pd_entries s)"
      by (simp add: word_less_nat_alt)
    show ?thesis
      using pp [of 0] pd [OF index_bound(2) [of va]] pdp [OF index_bound(2) [of va]] kpd(2)
        pt [OF index_bound(2) [of va] index_bound(3) [of va]]
      by (auto simp: mmu_def Let_def True lt)
  next
    case False
    then have "0 < unat va div 2 ^ 30" using index_nat(1) [of va] by (simp add: unat_gt_0 [symmetric] word_neq_0_conv)
    then have "512 \<le> unat va div 2097152" by (simp add: div_greater_zero_iff less_eq_div_iff_mult_less_eq)
    moreover have "unat (kernel_pd_entries s) \<le> 512" using kpd(3) by (simp add: word_le_nat_alt)
    ultimately show ?thesis using pp [OF index_bound(1) [of va]] False by (simp add: mmu_def Let_def)
  qed
qed

text \<open>Destroying a space releases its root, its directory and the tables it added.\<close>

lemma free_tables_owned:
  assumes ok: "pmm_ok (table_frames s)" and big: "\<And>j. n \<le> j \<Longrightarrow> j < m \<Longrightarrow> present (slots s (slot pd (word_of_nat j))) \<Longrightarrow>
      page_no (table_of (slots s (slot pd (word_of_nat j)))) \<noteq> 0"
  defines "step \<equiv> \<lambda>i p. let e = slots s (slot pd (word_of_nat i))
      in if e AND PAGE_PRESENT \<noteq> 0 then pmm_free_frame (table_of e) p else p"
  shows "pmm_ok (fold step [n..<m] (table_frames s)) \<and>
    frames_owned (fold step [n..<m] (table_frames s)) = frames_owned (table_frames s) -
      {page_no (table_of (slots s (slot pd (word_of_nat j)))) |j. n \<le> j \<and> j < m \<and> present (slots s (slot pd (word_of_nat j)))}"
  using big
proof (induction m)
  case (Suc m)
  let ?e = "slots s (slot pd (word_of_nat m))"
  have ih: "pmm_ok (fold step [n..<m] (table_frames s))"
    "frames_owned (fold step [n..<m] (table_frames s)) = frames_owned (table_frames s) -
      {page_no (table_of (slots s (slot pd (word_of_nat j)))) |j. n \<le> j \<and> j < m \<and> present (slots s (slot pd (word_of_nat j)))}"
    using Suc by auto
  show ?case
  proof (cases "n \<le> m \<and> present ?e")
    case True
    then have "page_no (table_of ?e) \<noteq> 0" using Suc.prems by simp
    then have "4096 \<le> unat (table_of ?e)" by (simp add: page_no_def div_eq_0_iff)
    note rel = pmm.release_owned [OF ih(1) this]
    have "fold step [n..<Suc m] (table_frames s) = pmm_free_frame (table_of ?e) (fold step [n..<m] (table_frames s))"
      using True by (simp add: step_def present_def)
    then show ?thesis using rel ih(2) True by (auto simp: page_no_def less_Suc_eq)
  next
    case False
    then have "fold step [n..<Suc m] (table_frames s) = fold step [n..<m] (table_frames s)"
      by (auto simp: step_def present_def)
    then show ?thesis using ih False by (auto simp: less_Suc_eq)
  qed
qed (use ok in simp)

section \<open>Properties\<close>

text \<open>
  (C18) \<open>paging_map\<close> in a well-formed address space: on success the MMU translates every address of
  the page to the given frame with exactly the write, user and execute permissions asked for (NX
  only where the CPU has it), on failure nothing is mapped, and in both cases the translation of
  every other page is unchanged and the space is well formed.
\<close>

theorem paging_map_correct:
  assumes "wf_space s (active_pdpt s)" "unat pa mod 4096 = 0" "flags AND 0xFFFFF000 = 0" "bit flags 0"
    "paging_map va pa flags s = (ok, s')"
  shows "wf_space s' (active_pdpt s) \<and>
    (\<forall>v. mmu s' (active_pdpt s) v = (if ok \<and> page_no v = page_no va
       then Some (pa, bit flags 1, bit flags 2, nx_supported s \<and> bit flags 63) else mmu s (active_pdpt s) v))"
  using paging_map_cases [OF assms] by (simp add: mapping_of_def)

definition space_frames :: pmm where
  "space_frames = \<lparr>bitmap = (\<lambda>_. 0)(0 := 7), total_frames = 8, used_frames = 3\<rparr>"

definition example_space :: paging where
  "example_space = \<lparr>slots = (\<lambda>_. 0)(0x1000 := 0x2001), active_pdpt = 0x1000, kernel_pdpt = 0x1000,
     kernel_pd = 0x2000, mapped_limit = 0x200000, kernel_pd_entries = 1, nx_supported = True,
     fault_resume_eip = 0, table_frames = space_frames, r_efer = 0x800, r_cr0 = 0x80010001,
     r_cr3 = 0x1000, r_cr4 = 0x20\<rparr>"

lemma less_8_word: "f < 8 \<Longrightarrow> f < 3 \<or> f \<in> {3, 4, 5, 6, 7 :: u32}"
proof -
  assume "f < 8"
  then have "unat f < 3 \<or> unat f = 3 \<or> unat f = 4 \<or> unat f = 5 \<or> unat f = 6 \<or> unat f = 7"
    by (simp add: word_less_nat_alt) presburger
  then show ?thesis by (auto simp: word_less_nat_alt word_unat_eq_iff)
qed

lemma example_space_frames:
  "pmm_ok (table_frames example_space)" "frames_owned (table_frames example_space) = {0, 1, 2}"
proof -
  let ?p = "table_frames example_space"
  have low: "f < (3 :: u32) \<longleftrightarrow> f \<in> {0, 1, 2}" for f
  proof -
    have "unat f < 3 \<longleftrightarrow> unat f = 0 \<or> unat f = 1 \<or> unat f = 2" by presburger
    then show ?thesis by (simp add: word_less_nat_alt word_unat_eq_iff)
  qed
  have t: "total_frames ?p = 8" "frame_test 0 ?p" "frame_test 1 ?p" "frame_test 2 ?p" "\<not> frame_test 3 ?p"
    "\<not> frame_test 4 ?p" "\<not> frame_test 5 ?p" "\<not> frame_test 6 ?p" "\<not> frame_test 7 ?p"
    by (simp_all add: example_space_def space_frames_def frame_test_def read32_def)
  have used: "used_set ?p = {0, 1, 2}"
    unfolding used_set_def using t less_8_word low by (auto dest!: less_8_word)
  moreover have "card {0, 1, 2 :: u32} = 3" by simp
  ultimately show "pmm_ok ?p"
    by (simp add: pmm_ok_def pmm_inv_def) (simp add: example_space_def space_frames_def)
  show "frames_owned ?p = {0, 1, 2}" by (simp add: frames_owned_def used)
qed

lemma example_kernel_space: "kernel_space example_space"
proof -
  have fit: "fits 0x1000 i" if "i < 4" for i :: u32
    using that by (simp add: fits_def word_less_nat_alt)
  have p: "pdpte example_space 0x1000 i = (if i = 0 then 0x2001 else 0)" if "i < 4" for i
    using slot_inj [OF fit [OF that] fit, of 0] by (auto simp: pdpte_def example_space_def slot_def)
  have tb: "table_of 0x2001 = 0x2000" by (simp add: table_of_def)
  have pr: "present 0x2001" by (simp add: present_def PAGE_PRESENT_def)
  have d: "pde example_space 0x1000 0 j = 0" if "j < 512" for j
  proof -
    have "page_no (slot 0x2000 j) = page_no 0x2000" using that by (intro slot_nat(2) aligned_fits) simp_all
    then have "slot 0x2000 j \<noteq> 0x1000" by (auto simp: page_no_def)
    then show ?thesis using p [of 0] tb by (simp add: pde_def) (simp add: example_space_def)
  qed
  have ps: "paths example_space 0x1000 = {[], [0]}"
    using p d pr unfolding paths_def by (auto split: if_splits)
  have "perms_ok example_space 0x1000"
    using p d unfolding perms_ok_def by (auto split: if_splits)
  then have "wf_space example_space 0x1000"
    using example_space_frames p [of 0] tb unfolding wf_space_def ps
    by (auto simp: inj_on_def page_no_def fits_def)
  then show ?thesis
    using p [of 0] pr tb by (simp add: kernel_space_def) (simp add: example_space_def)
qed

theorem paging_map_correct_witness:
  "\<exists>ok s'. paging_map 0x400000 0x7000 7 example_space = (ok, s') \<and> wf_space s' 0x1000 \<and>
     (ok \<longrightarrow> mmu s' 0x1000 0x400123 = Some (0x7000, True, True, False))"
proof -
  obtain ok s' where run: "paging_map 0x400000 0x7000 7 example_space = (ok, s')" by fastforce
  have a: "active_pdpt example_space = 0x1000" "kernel_pdpt example_space = 0x1000" by (simp_all add: example_space_def)
  have wf: "wf_space example_space (active_pdpt example_space)"
    using example_kernel_space a by (simp add: kernel_space_def)
  have bits: "(7 :: u64) AND 0xFFFFF000 = 0" "bit (7 :: u64) 0" "bit (7 :: u64) 1" "bit (7 :: u64) 2" "\<not> bit (7 :: u64) 63"
    by (simp_all add: bit_numeral_rec)
  have "page_no 0x400123 = page_no 0x400000" by (simp add: page_no_def)
  then show ?thesis using paging_map_correct [OF wf _ bits(1,2) run] run a bits by auto
qed

text \<open>
  A new address space translates every kernel address exactly as the kernel's own tables do and
  maps nothing else; creating it changes no translation of any existing space.
\<close>

theorem address_space_shares_kernel:
  assumes "kernel_space s" "paging_create_address_space s = (a, s')" "a \<noteq> 0"
  shows "wf_space s' a \<and> kernel_space s' \<and>
    (\<forall>va. mmu s' a va = (if unat va div 2097152 < unat (kernel_pd_entries s) then mmu s (kernel_pdpt s) va else None)) \<and>
    (\<forall>r va. wf_space s r \<longrightarrow> wf_space s' r \<and> mmu s' r va = mmu s r va)"
  using create_space_correct [OF assms] by blast

lemma example_space_create: "fst (paging_create_address_space example_space) \<noteq> 0"
  by code_simp

theorem address_space_shares_kernel_witness:
  "\<exists>a s'. paging_create_address_space example_space = (a, s') \<and> a \<noteq> 0 \<and> wf_space s' a \<and> kernel_space s'"
  using address_space_shares_kernel [OF example_kernel_space prod.collapse [symmetric] example_space_create]
  by (metis example_space_create prod.collapse)

text \<open>
  Destroying a fresh address space gives back exactly the two frames it took.
\<close>

theorem address_space_roundtrip:
  assumes ks: "kernel_space s" and run: "paging_create_address_space s = (a, s')" and a: "a \<noteq> 0"
  shows "pmm_ok (table_frames (paging_destroy_address_space a s')) \<and>
    frames_owned (table_frames (paging_destroy_address_space a s')) = frames_owned (table_frames s)"
proof -
  from create_space_slots [OF ks run a] obtain pd where "space_layout s a pd s'" ..
  then have al: "unat a mod 4096 = 0" "unat pd mod 4096 = 0" "page_no a \<noteq> page_no pd"
    and fr: "page_no a \<notin> frames_owned (table_frames s)" "page_no pd \<notin> frames_owned (table_frames s)"
      "page_no a \<noteq> 0" "page_no pd \<noteq> 0" "pmm_ok (table_frames s')"
      "frames_owned (table_frames s') = {page_no a, page_no pd} \<union> frames_owned (table_frames s)"
    and sl: "\<And>x. page_no x \<notin> {page_no a, page_no pd} \<Longrightarrow> slots s' x = slots s x"
      "\<And>i. i < 4 \<Longrightarrow> pdpte s' a i = (if i = 0 then ucast pd OR PAGE_PRESENT else 0)"
      "\<And>j. j < 512 \<Longrightarrow> slots s' (slot pd j) = (if j < kernel_pd_entries s then pde s (kernel_pdpt s) 0 j else 0)"
    and ks': "kernel_pdpt s' = kernel_pdpt s" "kernel_pd s' = kernel_pd s" "kernel_pd_entries s' = kernel_pd_entries s"
    unfolding space_layout_def by blast+
  have e: "present (ucast pd OR PAGE_PRESENT)" "table_of (ucast pd OR PAGE_PRESENT) = pd"
    using bit_entry_flag [OF al(2), of 0 PAGE_PRESENT] table_of_entry [OF al(2) present_no_addr]
    by (simp_all add: present_bit bit_flags)
  have p0: "slots s' (slot a 0) = ucast pd OR PAGE_PRESENT" using sl(2) [of 0] by (simp add: pdpte_def)
  have "page_no (kernel_pdpt s) \<in> frames_owned (table_frames s)"
    using ks pathsI(1) [of s "kernel_pdpt s"] by (force simp: kernel_space_def wf_space_def)
  then have na: "a \<noteq> kernel_pdpt s'" using fr(1) ks'(1) by metis
  have none: "\<not> present (slots s' (slot pd (word_of_nat j)))" if "unat (kernel_pd_entries s) \<le> j" "j < 512" for j
    using sl(3) [of "word_of_nat j"] that by (simp add: word_less_nat_alt unat32_of_nat)
  have "{page_no (table_of (slots s' (slot pd (word_of_nat j)))) |j. unat (kernel_pd_entries s) \<le> j \<and> j < 512 \<and>
      present (slots s' (slot pd (word_of_nat j)))} = {}" using none by blast
  then have ft: "pmm_ok (free_tables pd s')" "frames_owned (free_tables pd s') = frames_owned (table_frames s')"
    using free_tables_owned [OF fr(5), of "unat (kernel_pd_entries s)" 512 pd] none unfolding free_tables_def ks'(3) by auto
  have big: "4096 \<le> unat a" "4096 \<le> unat pd" using fr(3,4) by (simp_all add: page_no_def div_eq_0_iff)
  have d: "table_frames (paging_destroy_address_space a s') = pmm_free_frame a (pmm_free_frame pd (free_tables pd s'))"
    using a na p0 e by (simp add: paging_destroy_address_space_def Let_def present_def)
  note r1 = pmm.release_owned [OF ft(1) big(2)]
  note r2 = pmm.release_owned [OF r1[THEN conjunct1] big(1)]
  show ?thesis
    unfolding d using r1 r2 ft(2) fr(1,2,6) al(3) by (auto simp: page_no_def)
qed

theorem address_space_roundtrip_witness:
  "\<exists>a s'. paging_create_address_space example_space = (a, s') \<and> a \<noteq> 0 \<and>
     frames_owned (table_frames (paging_destroy_address_space a s')) = {0, 1, 2}"
proof -
  obtain a s' where run: "paging_create_address_space example_space = (a, s')" by fastforce
  moreover have "a \<noteq> 0" using example_space_create run by simp
  ultimately show ?thesis
    using address_space_roundtrip [OF example_kernel_space run] example_space_frames(2) by auto
qed

section \<open>Loops over pages\<close>

lemma each_page_returns:
  fixes addr e :: u32
  assumes "unat addr mod 4096 = 0" "e \<le> 0xFFFFF000" "n = (unat e - unat addr + 4095) div 4096"
  shows "each_page f addr e s = Some (fold f (map (\<lambda>i. addr + word_of_nat i * PAGE_SIZE) [0..<n]) s)"
  using assms
proof (induction n arbitrary: addr s)
  case 0
  then have "\<not> addr < e" by (simp add: word_less_nat_alt)
  then show ?case by (simp add: each_page.simps [of f addr])
next
  case (Suc n)
  have lt: "addr < e" using Suc.prems(3) by (cases "unat addr < unat e") (simp_all add: word_less_nat_alt)
  have e: "unat e \<le> 0xFFFFF000" using Suc.prems(2) by (simp add: word_le_nat_alt)
  then have up: "unat (addr + PAGE_SIZE) = unat addr + 4096" using lt by (subst unat32_plus) (simp_all add: word_less_nat_alt)
  have "n = (unat e - unat (addr + PAGE_SIZE) + 4095) div 4096"
  proof (cases "unat addr + 4096 \<le> unat e")
    case True
    then have "unat e - unat addr + 4095 = (unat e - unat (addr + PAGE_SIZE) + 4095) + 1 * 4096" unfolding up by simp
    then show ?thesis using Suc.prems(3) by simp
  next
    case False
    then have "unat e - unat (addr + PAGE_SIZE) = 0" "unat e - unat addr + 4095 < 2 * 4096" using up by simp_all
    then show ?thesis using Suc.prems(3) by simp
  qed
  from Suc.IH [OF _ Suc.prems(2) this] Suc.prems(1) up
  have "each_page f (addr + PAGE_SIZE) e (f addr s) =
      Some (fold f (map (\<lambda>i. addr + PAGE_SIZE + word_of_nat i * PAGE_SIZE) [0..<n]) (f addr s))" by simp
  moreover have "map (\<lambda>i. addr + word_of_nat i * PAGE_SIZE) [0..<Suc n] =
      addr # map (\<lambda>i. addr + PAGE_SIZE + word_of_nat i * PAGE_SIZE) [0..<n]"
    by (rule nth_equalityI) (auto simp: nth_Cons nth_append less_Suc_eq algebra_simps simp del: upt_Suc split: nat.split)
  ultimately show ?case using lt by (simp add: each_page.simps [of f addr])
qed

lemma each_page_diverges:
  assumes "unat addr mod 4096 = 0" "\<not> e \<le> 0xFFFFF000"
  shows "each_page f addr e s = None"
proof (rule ccontr)
  assume "each_page f addr e s \<noteq> None"
  then obtain r where r: "each_page f addr e s = Some r" by auto
  have "unat addr mod 4096 = 0 \<longrightarrow> \<not> e \<le> 0xFFFFF000 \<longrightarrow> False"
  proof (rule each_page.raw_induct [OF _ r, where P = "\<lambda>f addr e s r. unat addr mod 4096 = 0 \<longrightarrow> \<not> e \<le> 0xFFFFF000 \<longrightarrow> False"])
    fix g f addr e s and r :: 'a
    assume IH: "\<And>f addr e s r. g f addr e s = Some r \<Longrightarrow> unat addr mod 4096 = 0 \<longrightarrow> \<not> e \<le> 0xFFFFF000 \<longrightarrow> False"
      and run: "(if addr < e then g f (addr + PAGE_SIZE) e (f addr s) else Some s) = Some r"
    show "unat addr mod 4096 = 0 \<longrightarrow> \<not> e \<le> 0xFFFFF000 \<longrightarrow> False"
    proof (intro impI)
      assume a: "unat addr mod 4096 = 0" "\<not> e \<le> 0xFFFFF000"
      then obtain q where q: "unat addr = 4096 * q" by (metis mod_0_imp_dvd dvdE)
      have "unat addr < 2 ^ 32" using unsigned_less [of addr] by simp
      then have "unat addr \<le> 0xFFFFF000" using q by simp
      then have lt: "addr < e" using a(2) by (simp add: word_less_nat_alt word_le_nat_alt)
      have "unat (addr + PAGE_SIZE) mod 4096 = 0"
      proof -
        have "unat (addr + PAGE_SIZE) = (unat addr + 4096) mod 2 ^ 32" by (simp add: unat_word_ariths)
        moreover have "(unat addr + 4096) mod 2 ^ 32 mod 4096 = (unat addr + 4096) mod 4096" by (rule mod_mod_cancel) simp
        ultimately show ?thesis using a(1) by simp
      qed
      then show False using IH [of f "addr + PAGE_SIZE" e "f addr s" r] run lt a(2) by simp
    qed
  qed
  then show False using assms by blast
qed

text \<open>
  (C30) The loop of \<open>paging_make_user\<close>: for every range that ends at or below the last page of the
  address space it returns and has treated exactly the pages of the range, in order; for a range that ends inside
  the last page it never returns, because the address wraps to 0 before it reaches the end.
\<close>

theorem paging_make_user_terminates:
  "paging_make_user start_addr end_addr writable s =
     (if end_addr \<le> 0xFFFFF000
      then Some (fold (make_user_page (PAGE_PRESENT OR PAGE_USER OR (if writable then PAGE_WRITE OR PAGE_NX else 0)))
             (map (\<lambda>i. (start_addr AND NOT 0xFFF) + word_of_nat i * PAGE_SIZE)
                [0..<(unat end_addr - unat (start_addr AND NOT 0xFFF) + 4095) div 4096]) s)
      else None)"
proof -
  have m: "PAGE_SIZE - 1 = (0xFFF :: u32)" by simp
  have al: "unat (start_addr AND NOT 0xFFF) mod 4096 = 0" using unat_page_floor [of start_addr] m by simp
  show ?thesis unfolding paging_make_user_def Let_def m
    using each_page_returns [OF al _ refl] each_page_diverges [OF al] by auto
qed

end
