(* ===== verification/PagingInit.thy ===== *)
theory PagingInit
  imports PagingCorrect
begin

text \<open>
  What \<open>paging_init\<close> leaves behind: the tables of the kernel, the identity mapping the MMU makes of them, and the
  read-only pages of the kernel image.
\<close>

section \<open>Runs of entries\<close>

lemma fold_slots:
  fixes t :: u32 and v :: "nat \<Rightarrow> u64"
  defines "w \<equiv> \<lambda>n. fold (\<lambda>j. set_slot (slot t (word_of_nat j)) (v j)) [0..<n]"
  assumes "n \<le> 512"
  shows "w n s = s\<lparr>slots := slots (w n s)\<rparr>"
    "(\<And>j. j < n \<Longrightarrow> x \<noteq> slot t (word_of_nat j)) \<Longrightarrow> slots (w n s) x = slots s x"
    "(\<And>j. j < n \<Longrightarrow> fits t (word_of_nat j)) \<Longrightarrow> j < n \<Longrightarrow> slots (w n s) (slot t (word_of_nat j)) = v j"
proof -
  have step: "w (Suc m) s = set_slot (slot t (word_of_nat m)) (v m) (w m s)" for m by (simp add: w_def)
  show "w n s = s\<lparr>slots := slots (w n s)\<rparr>"
  proof (induction n)
    case (Suc m)
    show ?case unfolding step by (subst Suc) (simp add: set_slot_def)
  qed (simp add: w_def)
  show "slots (w n s) x = slots s x" if "\<And>j. j < n \<Longrightarrow> x \<noteq> slot t (word_of_nat j)"
    using that by (induction n) (simp_all add: w_def set_slot_def)
  show "slots (w n s) (slot t (word_of_nat j)) = v j" if "\<And>j. j < n \<Longrightarrow> fits t (word_of_nat j)" "j < n"
    using that \<open>n \<le> 512\<close>
  proof (induction n)
    case (Suc m)
    show ?case
    proof (cases "j = m")
      case False
      then have "word_of_nat j \<noteq> (word_of_nat m :: u32)" using Suc.prems(2,3) by (simp add: word_unat_eq_iff unat32_of_nat)
      then have "slot t (word_of_nat j) \<noteq> slot t (word_of_nat m)"
        using slot_inj [of t "word_of_nat j" "word_of_nat m"] Suc.prems(1,2) False by auto
      then show ?thesis unfolding step using Suc False by (simp add: set_slot_def)
    qed (simp add: step set_slot_def)
  qed simp
qed

lemma fill_table_slots:
  assumes "unat pt mod 4096 = 0"
  shows "fill_table pt i s = s\<lparr>slots := slots (fill_table pt i s)\<rparr>"
    "page_no x \<noteq> page_no pt \<Longrightarrow> slots (fill_table pt i s) x = slots s x"
    "l < 512 \<Longrightarrow> slots (fill_table pt i s) (slot pt l) = ucast (i * PD_COVERAGE + l * PAGE_SIZE) OR PAGE_PRESENT OR PAGE_WRITE"
proof -
  have f: "fits pt (word_of_nat j)" if "j < 512" for j
    using assms that by (intro aligned_fits) (simp_all add: word_less_nat_alt unat32_of_nat)
  note r = fold_slots [of 512, where t = pt and s = s and
      v = "\<lambda>j. ucast (i * PD_COVERAGE + word_of_nat j * PAGE_SIZE) OR PAGE_PRESENT OR PAGE_WRITE", folded fill_table_def]
  show "fill_table pt i s = s\<lparr>slots := slots (fill_table pt i s)\<rparr>" using r(1) by simp
  show "slots (fill_table pt i s) x = slots s x" if "page_no x \<noteq> page_no pt"
    using that slot_nat(2) [OF f] by (intro r(2)) auto
  show "slots (fill_table pt i s) (slot pt l) = ucast (i * PD_COVERAGE + l * PAGE_SIZE) OR PAGE_PRESENT OR PAGE_WRITE"
    if "l < 512"
    using r(3) [of "unat l"] f that by (simp add: word_less_nat_alt)
qed

lemma clear_table_slots:
  assumes "n \<le> 512" "\<And>j. j < n \<Longrightarrow> fits t (word_of_nat j)"
  shows "clear_table t n s = s\<lparr>slots := slots (clear_table t n s)\<rparr>"
    "page_no x \<noteq> page_no t \<Longrightarrow> slots (clear_table t n s) x = slots s x"
    "unat l < n \<Longrightarrow> slots (clear_table t n s) (slot t l) = 0"
proof -
  note r = fold_slots [OF assms(1), where t = t and s = s and v = "\<lambda>_. 0", folded clear_table_def]
  show "clear_table t n s = s\<lparr>slots := slots (clear_table t n s)\<rparr>" by (rule r(1))
  show "slots (clear_table t n s) x = slots s x" if "page_no x \<noteq> page_no t"
    using that slot_nat(2) [OF assms(2)] by (intro r(2)) auto
  show "slots (clear_table t n s) (slot t l) = 0" if "unat l < n"
    using r(3) [of "unat l"] assms(2) that by simp
qed

section \<open>The tables of the kernel\<close>

text \<open>\<open>pts\<close> are the frames that became page tables for the directory entries from \<open>i\<close> on.\<close>

definition tables_built :: "paging \<Rightarrow> nat \<Rightarrow> u32 list \<Rightarrow> paging \<Rightarrow> bool" where
  "tables_built s i pts s' \<longleftrightarrow>
     s' = s\<lparr>slots := slots s', table_frames := table_frames s'\<rparr> \<and> pmm_ok (table_frames s') \<and>
     total_frames (table_frames s') = total_frames (table_frames s) \<and>
     unat (pmm_free_frames (table_frames s')) + length pts = unat (pmm_free_frames (table_frames s)) \<and>
     frames_owned (table_frames s') = page_no ` set pts \<union> frames_owned (table_frames s) \<and>
     page_no ` set pts \<inter> frames_owned (table_frames s) = {} \<and> distinct (map page_no pts) \<and>
     (\<forall>pt\<in>set pts. unat pt mod 4096 = 0) \<and>
     (\<forall>m<length pts. slots s' (slot (kernel_pd s) (word_of_nat (i + m))) = ucast (pts ! m) OR PAGE_PRESENT OR PAGE_WRITE) \<and>
     (\<forall>m<length pts. \<forall>l<512. slots s' (slot (pts ! m) l) =
        ucast (word_of_nat (i + m) * PD_COVERAGE + l * PAGE_SIZE) OR PAGE_PRESENT OR PAGE_WRITE) \<and>
     (\<forall>x. page_no x \<notin> page_no ` set pts \<longrightarrow> (\<forall>m<length pts. x \<noteq> slot (kernel_pd s) (word_of_nat (i + m))) \<longrightarrow>
        slots s' x = slots s x)"

text \<open>A frame is there exactly when the count of free frames is not zero.\<close>

lemma alloc_counts:
  assumes "pmm_ok p" "pmm_alloc_frame p = (a, p')"
  shows "a = 0 \<longleftrightarrow> pmm_free_frames p = 0" "total_frames p' = total_frames p"
    "a \<noteq> 0 \<Longrightarrow> unat (pmm_free_frames p') + 1 = unat (pmm_free_frames p)"
proof -
  have inv: "pmm_inv p" using assms(1) by (simp add: pmm_ok_def)
  let ?free = "{f. f < total_frames p \<and> \<not> frame_test f p}"
  have "(a = 0 \<longleftrightarrow> pmm_free_frames p = 0) \<and> total_frames p' = total_frames p \<and>
      (a \<noteq> 0 \<longrightarrow> unat (pmm_free_frames p') + 1 = unat (pmm_free_frames p))"
  proof (cases rule: pmm_alloc_frame_cases [of p])
    case (frame f)
    have "f \<in> ?free" using frame by simp
    then have "card ?free \<noteq> 0" by (subst card_0_eq) auto
    then have n: "unat (pmm_free_frames p) \<noteq> 0" using free_frames_count [OF inv] by simp
    have "f \<noteq> 0" using assms(1) frame(2) by (rule frame_zero_not_free)
    then have "unat f * 4096 \<noteq> 0" by (simp add: unat_eq_zero)
    then have a: "a \<noteq> 0" using unat_frame_addr [OF inv frame(1)] assms(2) frame(4) by (metis Pair_inject unat_0)
    have "pmm_free_frames p' = pmm_free_frames p - 1" using assms(2) frame(4) by (auto simp: pmm_free_frames_def)
    moreover have nz: "pmm_free_frames p \<noteq> 0" using n by (metis unat_0)
    ultimately have "unat (pmm_free_frames p') = unat (pmm_free_frames p) - 1" using unat_dec [OF nz] by simp
    then show ?thesis using a nz n assms(2) frame(4) by auto
  next
    case full
    have "?free = {}" using full(1) by auto
    then have "unat (pmm_free_frames p) = 0" using free_frames_count [OF inv] by simp
    then show ?thesis using full(2) assms(2) by (auto simp: unat_eq_0)
  qed
  then show "a = 0 \<longleftrightarrow> pmm_free_frames p = 0" "total_frames p' = total_frames p"
    "a \<noteq> 0 \<Longrightarrow> unat (pmm_free_frames p') + 1 = unat (pmm_free_frames p)" by blast+
qed


lemma first_table:
  assumes ok: "pmm_ok (table_frames s)" and pd: "unat (kernel_pd s) mod 4096 = 0"
      "page_no (kernel_pd s) \<in> frames_owned (table_frames s)"
    and i: "i < 512" and al: "pmm_alloc_frame (table_frames s) = (pt, p)" "pt \<noteq> 0"
  shows "tables_built s i [pt] (set_slot (slot (kernel_pd s) (word_of_nat i)) (ucast pt OR PAGE_PRESENT OR PAGE_WRITE)
      (fill_table pt (word_of_nat i) (s\<lparr>table_frames := p\<rparr>)))" (is "tables_built s i [pt] (set_slot ?a ?e ?f)")
proof -
  note fr = fresh_frame [OF ok al] and c = alloc_counts [OF ok al(1)]
  note ft = fill_table_slots [OF fr(1), where i = "word_of_nat i" and s = "s\<lparr>table_frames := p\<rparr>"]
  have fit: "fits (kernel_pd s) (word_of_nat i)"
    using pd(1) i by (intro aligned_fits) (simp_all add: word_less_nat_alt unat32_of_nat)
  have pa: "page_no ?a \<noteq> page_no pt" using slot_nat(2) [OF fit] pd(2) fr(2) by auto
  have fs: "set_slot ?a ?e ?f = s\<lparr>slots := (slots ?f)(?a := ?e), table_frames := p\<rparr>"
    by (subst ft(1)) (simp add: set_slot_def)
  have "slot pt l \<noteq> ?a" if "l < 512" for l
    using pa slot_nat(2) [OF aligned_fits [OF fr(1) that]] by auto
  then show ?thesis unfolding tables_built_def fs using fr c al(2) ft(2,3) by simp
qed

lemma tables_chain:
  assumes a: "tables_built s i [pt] s1" and b: "tables_built s1 (Suc i) pts s2" and len: "i + Suc (length pts) \<le> 512"
    and pd: "unat (kernel_pd s) mod 4096 = 0" "page_no (kernel_pd s) \<in> frames_owned (table_frames s)"
  shows "tables_built s i (pt # pts) s2"
proof -
  have fit: "fits (kernel_pd s) (word_of_nat j)" if "j < 512" for j
    using pd(1) that by (intro aligned_fits) (simp_all add: word_less_nat_alt unat32_of_nat)
  have A: "s1 = s\<lparr>slots := slots s1, table_frames := table_frames s1\<rparr>" "unat pt mod 4096 = 0"
    "page_no pt \<notin> frames_owned (table_frames s)" "frames_owned (table_frames s1) = insert (page_no pt) (frames_owned (table_frames s))"
    "slots s1 (slot (kernel_pd s) (word_of_nat i)) = ucast pt OR PAGE_PRESENT OR PAGE_WRITE"
    "\<And>l. l < 512 \<Longrightarrow> slots s1 (slot pt l) = ucast (word_of_nat i * PD_COVERAGE + l * PAGE_SIZE) OR PAGE_PRESENT OR PAGE_WRITE"
    "\<And>x. page_no x \<noteq> page_no pt \<Longrightarrow> x \<noteq> slot (kernel_pd s) (word_of_nat i) \<Longrightarrow> slots s1 x = slots s x"
    using a unfolding tables_built_def by simp_all
  have k: "kernel_pd s1 = kernel_pd s" by (subst A(1)) simp
  have B: "page_no ` set pts \<inter> frames_owned (table_frames s1) = {}"
    "\<And>x. page_no x \<notin> page_no ` set pts \<Longrightarrow> (\<forall>m<length pts. x \<noteq> slot (kernel_pd s) (word_of_nat (Suc i + m))) \<Longrightarrow> slots s2 x = slots s1 x"
    using b unfolding tables_built_def k by simp_all
  have pp: "page_no (slot (kernel_pd s) (word_of_nat j)) = page_no (kernel_pd s)" if "j < 512" for j using slot_nat(2) [OF fit [OF that]] .
  have ptl: "page_no (slot pt l) = page_no pt" if "l < 512" for l using slot_nat(2) [OF aligned_fits [OF A(2) that]] .
  have np: "page_no (kernel_pd s) \<noteq> page_no pt" using A(3) pd(2) by auto
  have keep_pt: "slots s2 (slot pt l) = slots s1 (slot pt l)" if "l < 512" for l
  proof (rule B(2))
    show "page_no (slot pt l) \<notin> page_no ` set pts" using B(1) A(4) ptl [OF that] by auto
    show "\<forall>m<length pts. slot pt l \<noteq> slot (kernel_pd s) (word_of_nat (Suc i + m))"
    proof (intro allI impI notI)
      fix m assume m: "m < length pts" "slot pt l = slot (kernel_pd s) (word_of_nat (Suc i + m))"
      then show False using pp [of "Suc i + m"] ptl [OF that] np len by simp
    qed
  qed
  have keep_pd: "slots s2 (slot (kernel_pd s) (word_of_nat i)) = slots s1 (slot (kernel_pd s) (word_of_nat i))"
  proof (rule B(2))
    show "page_no (slot (kernel_pd s) (word_of_nat i)) \<notin> page_no ` set pts" using B(1) A(4) pd(2) pp [of i] len by auto
    show "\<forall>m<length pts. slot (kernel_pd s) (word_of_nat i) \<noteq> slot (kernel_pd s) (word_of_nat (Suc i + m))"
    proof (intro allI impI notI)
      fix m assume m: "m < length pts" "slot (kernel_pd s) (word_of_nat i) = slot (kernel_pd s) (word_of_nat (Suc i + m))"
      have "(word_of_nat i :: u32) = word_of_nat (Suc i + m)"
        by (rule slot_inj [OF fit fit m(2)]) (use m(1) len in linarith)+
      from arg_cong [OF this, of unat] show False using m(1) len by (simp add: unat32_of_nat del: of_nat_Suc of_nat_add)
    qed
  qed
  have rec: "s2 = s\<lparr>slots := slots s2, table_frames := table_frames s2\<rparr>"
  proof -
    have "s2 = s1\<lparr>slots := slots s2, table_frames := table_frames s2\<rparr>" using b unfolding tables_built_def by blast
    moreover have "s1\<lparr>slots := u, table_frames := v\<rparr> = s\<lparr>slots := u, table_frames := v\<rparr>" for u v
      using arg_cong [OF A(1), of "\<lambda>z. z\<lparr>slots := u, table_frames := v\<rparr>"] by simp
    ultimately show ?thesis by (rule trans)
  qed
  have dir: "slots s2 (slot (kernel_pd s) (word_of_nat (i + m))) = ucast ((pt # pts) ! m) OR PAGE_PRESENT OR PAGE_WRITE"
    if "m < Suc (length pts)" for m
    using that b keep_pd A(5) unfolding tables_built_def k by (cases m) simp_all
  have tab: "slots s2 (slot ((pt # pts) ! m) l) = ucast (word_of_nat (i + m) * PD_COVERAGE + l * PAGE_SIZE) OR PAGE_PRESENT OR PAGE_WRITE"
    if "m < Suc (length pts)" "l < 512" for m l
    using that b keep_pt A(6) unfolding tables_built_def k by (cases m) simp_all
  have other: "slots s2 x = slots s x"
    if "page_no x \<notin> page_no ` set (pt # pts)" "\<forall>m<length (pt # pts). x \<noteq> slot (kernel_pd s) (word_of_nat (i + m))" for x
  proof -
    have "x \<noteq> slot (kernel_pd s) (word_of_nat (Suc i + m))" if "m < length pts" for m
      using \<open>\<forall>m<length (pt # pts). _ m\<close> [rule_format, of "Suc m"] that by (simp del: of_nat_Suc of_nat_add)
    then have "slots s2 x = slots s1 x" using that(1) by (intro B(2)) simp_all
    also have "\<dots> = slots s x" using that(1) that(2) [rule_format, of 0] by (intro A(7)) auto
    finally show ?thesis .
  qed
  show ?thesis unfolding tables_built_def
    using a b rec dir tab other B(1) A(4) unfolding tables_built_def by (intro conjI) auto
qed

lemma init_tables_cases:
  assumes "pmm_ok (table_frames s)" "i + n \<le> 512" "unat (kernel_pd s) mod 4096 = 0"
    "page_no (kernel_pd s) \<in> frames_owned (table_frames s)"
  shows "if n \<le> unat (pmm_free_frames (table_frames s))
     then \<exists>s' pts. init_tables n (word_of_nat i) s = Some s' \<and> length pts = n \<and> tables_built s i pts s'
     else init_tables n (word_of_nat i) s = None"
  using assms
proof (induction n arbitrary: i s)
  case 0
  then show ?case by (auto simp: tables_built_def)
next
  case (Suc n)
  obtain pt p where al: "pmm_alloc_frame (table_frames s) = (pt, p)" by fastforce
  note c = alloc_counts [OF Suc.prems(1) al]
  show ?case
  proof (cases "pt = 0")
    case True
    then show ?thesis using al c(1) by simp
  next
    case False
    define s1 where "s1 = set_slot (slot (kernel_pd s) (word_of_nat i)) (ucast pt OR PAGE_PRESENT OR PAGE_WRITE)
      (fill_table pt (word_of_nat i) (s\<lparr>table_frames := p\<rparr>))"
    have t1: "tables_built s i [pt] s1"
      unfolding s1_def using Suc.prems al False by (intro first_table) simp_all
    have run: "init_tables (Suc n) (word_of_nat i) s = init_tables n (word_of_nat (Suc i)) s1"
      using al False by (simp add: s1_def add.commute)
    have "s1 = s\<lparr>slots := slots s1, table_frames := table_frames s1\<rparr>" using t1 by (simp only: tables_built_def)
    from arg_cong [OF this, of kernel_pd] have k: "kernel_pd s1 = kernel_pd s" by simp
    have f: "pmm_ok (table_frames s1)" "page_no (kernel_pd s1) \<in> frames_owned (table_frames s1)"
      "unat (pmm_free_frames (table_frames s1)) + 1 = unat (pmm_free_frames (table_frames s))"
      using t1 Suc.prems(4) by (simp_all add: tables_built_def k)
    have le: "Suc n \<le> unat (pmm_free_frames (table_frames s)) \<longleftrightarrow> n \<le> unat (pmm_free_frames (table_frames s1))"
      using f(3) by linarith
    have IH: "if n \<le> unat (pmm_free_frames (table_frames s1))
       then \<exists>s' pts. init_tables n (word_of_nat (Suc i)) s1 = Some s' \<and> length pts = n \<and> tables_built s1 (Suc i) pts s'
       else init_tables n (word_of_nat (Suc i)) s1 = None"
      using Suc.prems f k by (intro Suc.IH) simp_all
    have "tables_built s i (pt # pts) s'" if "tables_built s1 (Suc i) pts s'" "length pts = n" for pts s'
      by (rule tables_chain [OF t1 that(1) _ Suc.prems(3,4)]) (use that(2) Suc.prems(2) in simp)
    note built = this
    show ?thesis
    proof (cases "n \<le> unat (pmm_free_frames (table_frames s1))")
      case True
      then obtain s' pts where r: "init_tables n (word_of_nat (Suc i)) s1 = Some s'" "length pts = n" "tables_built s1 (Suc i) pts s'"
        using IH by (simp only: if_True) blast
      have "init_tables (Suc n) (word_of_nat i) s = Some s' \<and> length (pt # pts) = Suc n \<and> tables_built s i (pt # pts) s'"
        using r built unfolding run by simp
      then show ?thesis unfolding le if_P [OF True] by blast
    next
      case False
      then show ?thesis using IH unfolding run le by simp
    qed
  qed
qed


text \<open>
  The tables below the root \<open>r\<close>: one directory \<open>pd\<close> with the page tables \<open>pts\<close>, every page of which is mapped to
  itself and writable unless its number satisfies \<open>ro\<close>.
\<close>

definition kernel_tables :: "u32 \<Rightarrow> u32 \<Rightarrow> u32 list \<Rightarrow> (nat \<Rightarrow> bool) \<Rightarrow> paging \<Rightarrow> bool" where
  "kernel_tables r pd pts ro s \<longleftrightarrow>
     (\<forall>i<4. pdpte s r i = (if i = 0 then ucast pd OR PAGE_PRESENT else 0)) \<and>
     (\<forall>j<512. pde s r 0 j = (if unat j < length pts then ucast (pts ! unat j) OR PAGE_PRESENT OR PAGE_WRITE else 0)) \<and>
     (\<forall>j<512. \<forall>l<512. unat j < length pts \<longrightarrow> pte s r 0 j l =
        ucast (j * PD_COVERAGE + l * PAGE_SIZE) OR (PAGE_PRESENT OR (if ro (unat j * 512 + unat l) then 0 else PAGE_WRITE)))"

text \<open>Where the tables lie: in different frames that the allocator has given away.\<close>

definition tables_placed :: "u32 \<Rightarrow> u32 \<Rightarrow> u32 list \<Rightarrow> paging \<Rightarrow> bool" where
  "tables_placed r pd pts s \<longleftrightarrow> fits r 3 \<and> pmm_ok (table_frames s) \<and> length pts \<le> 512 \<and>
     distinct (map page_no (r # pd # pts)) \<and> (\<forall>t\<in>set (pd # pts). unat t mod 4096 = 0) \<and>
     (\<forall>t\<in>set (r # pd # pts). page_no t \<in> frames_owned (table_frames s) \<and> page_no t \<noteq> 0)"

lemma frame_word:
  assumes "j < 512" "l < (512 :: u32)"
  shows "unat (j * PD_COVERAGE + l * PAGE_SIZE) = (unat j * 512 + unat l) * 4096"
proof -
  have u: "unat j < 512" "unat l < 512" using assms by (simp_all add: word_less_nat_alt)
  have "unat (j * PD_COVERAGE) = unat j * 2097152" using u by (subst unat32_mult) (simp_all add: PD_COVERAGE_def)
  moreover have "unat (l * PAGE_SIZE) = unat l * 4096" using u by (subst unat32_mult) simp_all
  ultimately show ?thesis using u by (subst unat32_plus) simp_all
qed

lemma entry_bits:
  assumes "unat a mod 4096 = 0"
  shows "table_of (ucast a OR (PAGE_PRESENT OR (if w then 0 else PAGE_WRITE))) = a"
    "present (ucast a OR (PAGE_PRESENT OR (if w then 0 else PAGE_WRITE)))"
    "bit (ucast a OR (PAGE_PRESENT OR (if w then 0 else PAGE_WRITE)) :: u64) 1 \<longleftrightarrow> \<not> w"
    "\<not> bit (ucast a OR (PAGE_PRESENT OR (if w then 0 else PAGE_WRITE)) :: u64) 2"
    "\<not> bit (ucast a OR (PAGE_PRESENT OR (if w then 0 else PAGE_WRITE)) :: u64) 63"
    "table_of (ucast a OR PAGE_PRESENT) = a" "present (ucast a OR PAGE_PRESENT)"
proof -
  have fl: "(PAGE_PRESENT OR (if w then 0 else PAGE_WRITE)) AND 0xFFFFF000 = 0"
    by (rule bit_word_eqI, unfold bit_and_iff bit_or_iff bit_addr_mask) (auto simp: bit_flags)
  show "table_of (ucast a OR (PAGE_PRESENT OR (if w then 0 else PAGE_WRITE))) = a" by (rule table_of_entry [OF assms fl])
  show "table_of (ucast a OR PAGE_PRESENT) = a" by (rule table_of_entry [OF assms present_no_addr])
  show "present (ucast a OR (PAGE_PRESENT OR (if w then 0 else PAGE_WRITE)))" "present (ucast a OR PAGE_PRESENT)"
    unfolding present_bit bit_entry_flag [OF assms, of 0, simplified] by (simp_all add: bit_or_iff bit_flags)
  show "bit (ucast a OR (PAGE_PRESENT OR (if w then 0 else PAGE_WRITE)) :: u64) 1 \<longleftrightarrow> \<not> w"
    "\<not> bit (ucast a OR (PAGE_PRESENT OR (if w then 0 else PAGE_WRITE)) :: u64) 2"
    "\<not> bit (ucast a OR (PAGE_PRESENT OR (if w then 0 else PAGE_WRITE)) :: u64) 63"
    by (subst bit_entry_flag [OF assms], simp, simp add: bit_or_iff bit_flags)+
qed


lemma low_index:
  assumes "pdpt_index va = 0"
  shows "unat (pd_index va) = unat va div 2097152" "page_no va = unat (pd_index va) * 512 + unat (pt_index va)"
proof -
  have "unat va < 2 ^ 30" using arg_cong [OF assms, of unat] by (simp add: index_nat div_eq_0_iff)
  then have lt: "unat va div 2 ^ 21 < 512" by simp
  then show "unat (pd_index va) = unat va div 2097152" by (simp add: index_nat)
  have "unat va div 2 ^ 12 = unat va div 2 ^ 21 * 512 + unat va div 2 ^ 12 mod 512"
    using div_mult_mod_eq [of "unat va div 2 ^ 12" 512] by (simp add: div_mult2_eq [symmetric])
  then show "page_no va = unat (pd_index va) * 512 + unat (pt_index va)" using lt by (simp add: index_nat page_no_def)
qed

lemma kernel_entries:
  assumes t: "kernel_tables r pd pts ro s" and pl: "tables_placed r pd pts s"
  shows "i < 4 \<Longrightarrow> present (pdpte s r i) \<longleftrightarrow> i = 0" "table_of (pdpte s r 0) = pd"
    "j < 512 \<Longrightarrow> present (pde s r 0 j) \<longleftrightarrow> unat j < length pts"
    "j < 512 \<Longrightarrow> unat j < length pts \<Longrightarrow> table_of (pde s r 0 j) = pts ! unat j"
    "j < 512 \<Longrightarrow> unat j < length pts \<Longrightarrow> bit (pde s r 0 j) 1"
    "j < 512 \<Longrightarrow> unat j < length pts \<Longrightarrow> \<not> bit (pde s r 0 j) 2"
    "j < 512 \<Longrightarrow> unat j < length pts \<Longrightarrow> \<not> bit (pde s r 0 j) 63"
    "j < 512 \<Longrightarrow> l < 512 \<Longrightarrow> unat j < length pts \<Longrightarrow>
      pte s r 0 j l = ucast (j * PD_COVERAGE + l * PAGE_SIZE) OR (PAGE_PRESENT OR (if ro (unat j * 512 + unat l) then 0 else PAGE_WRITE))"
proof -
  show "i < 4 \<Longrightarrow> present (pdpte s r i) \<longleftrightarrow> i = 0" "table_of (pdpte s r 0) = pd"
    using t pl entry_bits(6,7) [of pd] by (auto simp: kernel_tables_def tables_placed_def)
  have d: "pde s r 0 j = (if unat j < length pts then ucast (pts ! unat j) OR (PAGE_PRESENT OR (if False then 0 else PAGE_WRITE)) else 0)"
    if "j < 512" for j using t that by (simp add: kernel_tables_def or.assoc)
  have al: "unat (pts ! unat j) mod 4096 = 0" if "unat j < length pts" for j :: u32
    using pl that nth_mem by (auto simp: tables_placed_def)
  note e = entry_bits(1-5) [OF al, where w = False]
  show "present (pde s r 0 j) \<longleftrightarrow> unat j < length pts" if "j < 512" using d [OF that] e(2) not_present_0 by presburger
  show "table_of (pde s r 0 j) = pts ! unat j" "bit (pde s r 0 j) 1" "\<not> bit (pde s r 0 j) 2" "\<not> bit (pde s r 0 j) 63"
    if "j < 512" "unat j < length pts"
    unfolding d [OF that(1)] if_P [OF that(2)] using e(1,3,4,5) [OF that(2)] by blast+
  show "pte s r 0 j l = ucast (j * PD_COVERAGE + l * PAGE_SIZE) OR (PAGE_PRESENT OR (if ro (unat j * 512 + unat l) then 0 else PAGE_WRITE))"
    if "j < 512" "l < 512" "unat j < length pts" using t that by (simp add: kernel_tables_def)
qed

lemma kernel_pages:
  assumes t: "kernel_tables r pd pts ro s" and pl: "tables_placed r pd pts s"
    and jl: "j < 512" "l < 512" "unat j < length pts"
  shows "table_of (pte s r 0 j l) = j * PD_COVERAGE + l * PAGE_SIZE" "present (pte s r 0 j l)"
    "bit (pte s r 0 j l) 1 \<longleftrightarrow> \<not> ro (unat j * 512 + unat l)" "\<not> bit (pte s r 0 j l) 2" "\<not> bit (pte s r 0 j l) 63"
proof -
  have "unat (j * PD_COVERAGE + l * PAGE_SIZE) mod 4096 = 0" unfolding frame_word [OF jl(1,2)] by simp
  note e = entry_bits(1-5) [OF this, where w = "ro (unat j * 512 + unat l)"]
  show "table_of (pte s r 0 j l) = j * PD_COVERAGE + l * PAGE_SIZE" "present (pte s r 0 j l)"
    "bit (pte s r 0 j l) 1 \<longleftrightarrow> \<not> ro (unat j * 512 + unat l)" "\<not> bit (pte s r 0 j l) 2" "\<not> bit (pte s r 0 j l) 63"
    unfolding kernel_entries(8) [OF t pl jl] using e(1-5) by blast+
qed

text \<open>What the MMU makes of the tables.\<close>

lemma kernel_tables_mmu:
  assumes t: "kernel_tables r pd pts ro s" and pl: "tables_placed r pd pts s"
  shows "mmu s r va = (if unat va < length pts * 2097152
     then Some (va AND NOT 4095, \<not> ro (page_no va), False, False) else None)"
proof (cases "pdpt_index va = 0")
  case False
  then have "\<not> present (pdpte s r (pdpt_index va))" using kernel_entries(1) [OF t pl index_bound(1)] by simp
  moreover have "\<not> unat va < length pts * 2097152"
  proof -
    have "unat va div 2 ^ 30 \<noteq> 0" using False index_nat(1) [of va] by (metis unat_0 word_unat_eq_iff)
    then have "2 ^ 30 \<le> unat va" by (simp add: div_eq_0_iff)
    moreover have "length pts * 2097152 \<le> 512 * 2097152" using pl by (simp add: tables_placed_def)
    ultimately show ?thesis by simp
  qed
  ultimately show ?thesis by (simp add: mmu_def Let_def)
next
  case True
  note ix = low_index [OF True]
  have le: "unat va < length pts * 2097152 \<longleftrightarrow> unat (pd_index va) < length pts"
    unfolding ix(1) by (simp add: div_less_iff_less_mult)
  show ?thesis
  proof (cases "unat (pd_index va) < length pts")
    case False
    then show ?thesis using kernel_entries(3) [OF t pl index_bound(2) [of va]] le True by (simp add: mmu_def Let_def)
  next
    case lt: True
    have "unat (pd_index va * PD_COVERAGE + pt_index va * PAGE_SIZE) = unat (va AND NOT 4095)"
      unfolding frame_word [OF index_bound(2,3)] unat_page_floor ix(2) [symmetric] page_no_def by simp
    then have "pd_index va * PD_COVERAGE + pt_index va * PAGE_SIZE = va AND NOT 4095" by (simp add: word_unat_eq_iff)
    then show ?thesis
      using lt le True kernel_pages [OF t pl index_bound(2,3) lt] kernel_entries(1) [OF t pl, of 0]
        kernel_entries(3,5,6,7) [OF t pl index_bound(2) [of va]] ix(2)
      by (simp add: mmu_def Let_def)
  qed
qed

lemma kernel_tables_wf:
  assumes t: "kernel_tables r pd pts ro s" and pl: "tables_placed r pd pts s"
  shows "wf_space s r"
proof -
  note e = kernel_entries [OF t pl]
  have ps: "paths s r = {[], [0]} \<union> {[0, j] |j. j < 512 \<and> unat j < length pts}"
    using e(1,3) by (auto simp: paths_def)
  have own: "page_no (pts ! unat j) \<in> frames_owned (table_frames s) \<and> page_no (pts ! unat j) \<noteq> 0 \<and>
      page_no (pts ! unat j) \<noteq> page_no r \<and> page_no (pts ! unat j) \<noteq> page_no pd" if "unat j < length pts" for j :: u32
  proof -
    have "page_no r \<notin> page_no ` set pts" "page_no pd \<notin> page_no ` set pts" using pl by (simp_all add: tables_placed_def)
    then have "page_no (pts ! unat j) \<noteq> page_no r" "page_no (pts ! unat j) \<noteq> page_no pd"
      using nth_mem [OF that] by (metis imageI)+
    then show ?thesis using pl nth_mem [OF that] by (simp add: tables_placed_def)
  qed
  have d: "page_no (pts ! unat i) = page_no (pts ! unat j) \<longleftrightarrow> i = j" if "unat i < length pts" "unat j < length pts" for i j :: u32
    using pl that distinct_conv_nth [of "map page_no pts"] by (auto simp: tables_placed_def word_unat_eq_iff)
  have inj: "inj_on (\<lambda>p. page_no (table_at s r p)) (paths s r)"
    unfolding ps using e(2,4) own d pl by (auto simp: inj_on_def tables_placed_def)
  have perms: "perms_ok s r"
    unfolding perms_ok_def
  proof (intro allI impI)
    fix i j assume a: "i < 4" "j < 512" "present (pdpte s r i) \<and> present (pde s r i j)"
    then have i: "i = 0" and j: "unat j < length pts" using e(1,3) by auto
    show "bit (pde s r i j) 1 \<and> \<not> bit (pde s r i j) 63 \<and>
      (\<forall>l<512. present (pte s r i j l) \<and> bit (pte s r i j l) 2 \<longrightarrow> bit (pde s r i j) 2)"
      unfolding i using e(5,7) [OF a(2) j] kernel_pages(4) [OF t pl a(2) _ j] by blast
  qed
  have fr: "page_no (table_at s r p) \<in> frames_owned (table_frames s) \<and> page_no (table_at s r p) \<noteq> 0" if "p \<in> paths s r" for p
    using that own e(2,4) pl unfolding ps by (auto simp: tables_placed_def)
  show ?thesis unfolding wf_space_def using inj perms fr pl by (simp add: tables_placed_def)
qed


section \<open>Write protection of the kernel image\<close>

lemma protect_entry:
  fixes a :: u32
  assumes "unat a mod 4096 = 0"
  shows "((ucast a OR (PAGE_PRESENT OR (if w then 0 else PAGE_WRITE))) AND 0xFFFFF000) OR PAGE_PRESENT =
    (ucast a OR (PAGE_PRESENT OR (if True then 0 else PAGE_WRITE)) :: u64)"
proof (rule bit_word_eqI)
  fix n assume "n < LENGTH(64)"
  have "bit a n \<Longrightarrow> 12 \<le> n \<and> n < 32" using aligned_bits [OF assms, of n] bit_imp_le_length [of a n] by (auto simp: not_le [symmetric])
  then show "bit (((ucast a OR (PAGE_PRESENT OR (if w then 0 else PAGE_WRITE))) AND 0xFFFFF000) OR PAGE_PRESENT) n =
      bit (ucast a OR (PAGE_PRESENT OR (if True then 0 else PAGE_WRITE)) :: u64) n"
    unfolding bit_or_iff bit_and_iff bit_addr_mask bit_ucast_iff by (auto simp: bit_flags)
qed

lemma split_512: "b < 512 \<Longrightarrow> d < 512 \<Longrightarrow> a * 512 + b = c * 512 + d \<longleftrightarrow> a = c \<and> b = (d :: nat)"
  by (metis div_mult_self3 div_less mod_mult_self3 mod_less add.left_neutral add.commute zero_neq_numeral)

lemma protect_page_frame: "protect_page addr s = s\<lparr>slots := slots (protect_page addr s)\<rparr>"
  by (simp add: protect_page_def set_slot_def Let_def)

lemma protect_page_tables:
  assumes t: "kernel_tables r pd pts ro s" and pl: "tables_placed r pd pts s" and act: "active_pdpt s = r"
  shows "kernel_tables r pd pts (ro(page_no addr := True)) (protect_page addr s)"
proof (cases "pdpt_index addr = 0 \<and> unat (pd_index addr) < length pts")
  case False
  note e = kernel_entries [OF t pl]
  have "entry_for addr s = 0"
    using False e(1) [OF index_bound(1) [of addr]] e(2) e(3) [OF index_bound(2) [of addr]] act
    by (auto simp: entry_for_def pd_for_def present_def pdpte_def pde_def Let_def)
  then have "protect_page addr s = s" by (simp add: protect_page_def)
  moreover have "unat j * 512 + unat l \<noteq> page_no addr" if "j < 512" "l < 512" "unat j < length pts" for j l :: u32
  proof
    assume "unat j * 512 + unat l = page_no addr"
    then have eq: "page_no addr = unat j * 512 + unat l" by simp
    have u: "unat j < 512" "unat l < 512" using that by (simp_all add: word_less_nat_alt)
    have "unat addr div 2 ^ 30 = page_no addr div 512 div 512" by (simp add: page_no_def div_mult2_eq [symmetric])
    also have "\<dots> = 0" using eq u by simp
    finally have z: "pdpt_index addr = 0" using index_nat(1) [of addr] by (simp add: unat_eq_0)
    have "unat addr div 2097152 = page_no addr div 512" by (simp add: page_no_def div_mult2_eq [symmetric])
    then have "unat (pd_index addr) = unat j" using low_index(1) [OF z] eq u by simp
    then show False using False z that(3) by simp
  qed
  ultimately show ?thesis using t by (auto simp: kernel_tables_def)
next
  case True
  let ?j = "pd_index addr" and ?l = "pt_index addr"
  note e = kernel_entries [OF t pl] and wf = kernel_tables_wf [OF t pl]
  have pr: "present (pdpte s r 0)" "present (pde s r 0 ?j)" using e(1) [of 0] e(3) [OF index_bound(2)] True by simp_all
  have nz: "pd \<noteq> 0" "pts ! unat ?j \<noteq> 0" and al: "unat (pts ! unat ?j) mod 4096 = 0"
  proof -
    have m: "pts ! unat ?j \<in> set pts" using True by (intro nth_mem) simp
    then have "page_no pd \<noteq> 0" "page_no (pts ! unat ?j) \<noteq> 0" using pl by (simp_all add: tables_placed_def)
    then show "pd \<noteq> 0" "pts ! unat ?j \<noteq> 0" by (auto simp: page_no_def)
    show "unat (pts ! unat ?j) mod 4096 = 0" using pl m by (simp add: tables_placed_def)
  qed
  have fit: "fits (pts ! unat ?j) ?l" using al index_bound(3) by (rule aligned_fits)
  then have "unat (slot (pts ! unat ?j) ?l) \<noteq> 0" using slot_nat(1) nz(2) by (simp add: unat_eq_0)
  then have ne: "slot (pts ! unat ?j) ?l \<noteq> 0" by auto
  have ef: "entry_for addr s = slot (pts ! unat ?j) ?l"
    using True pr e(2) e(4) [OF index_bound(2) [of addr]] act nz(1)
    by (auto simp: entry_for_def pd_for_def present_def pdpte_def pde_def Let_def)
  define v where "v = (ucast (?j * PD_COVERAGE + ?l * PAGE_SIZE) OR (PAGE_PRESENT OR (if True then 0 else PAGE_WRITE)) :: u64)"
  have old: "slots s (slot (pts ! unat ?j) ?l) = pte s r 0 ?j ?l" using e(4) [OF index_bound(2)] True by (simp add: pte_def)
  have "unat (?j * PD_COVERAGE + ?l * PAGE_SIZE) mod 4096 = 0" unfolding frame_word [OF index_bound(2,3)] by simp
  then have "protect_page addr s = set_slot (slot (table_at s r [0, ?j]) ?l) v s"
    unfolding protect_page_def Let_def ef if_not_P [OF ne] old kernel_entries(8) [OF t pl index_bound(2,3) True [THEN conjunct2]] v_def
    using e(4) [OF index_bound(2)] True by (simp only: protect_entry table_at.simps)
  moreover have "updates s r [0, ?j] ?l v (set_slot (slot (table_at s r [0, ?j]) ?l) v s)"
    using wf pr index_bound by (intro set_slot_updates pathsI) (simp_all add: in_range_def)
  ultimately have up: "updates s r [0, ?j] ?l v (protect_page addr s)" by simp
  let ?s = "protect_page addr s"
  have p: "pdpte ?s r i = pdpte s r i" if "i < 4" for i using updates_pdpte [OF up that] by simp
  have d: "pde ?s r 0 j = pde s r 0 j" if "j < 512" for j
    using updates_pde [OF up _ that pr(1) p] by simp
  have pg: "pte ?s r 0 j l = (if j = ?j \<and> l = ?l then v else pte s r 0 j l)" if "j < 512" "l < 512" "unat j < length pts" for j l
    using updates_pte [OF up _ that(1,2) pr(1)] e(3) [OF that(1)] d [OF that(1)] that by auto
  have same: "j = ?j \<and> l = ?l \<longleftrightarrow> unat j * 512 + unat l = page_no addr" if "j < 512" "l < 512" for j l :: u32
  proof -
    have "unat j < 512" "unat l < 512" "unat ?j < 512" "unat ?l < 512"
      using that index_bound [of addr] by (simp_all add: word_less_nat_alt)
    then have "unat j * 512 + unat l = unat ?j * 512 + unat ?l \<longleftrightarrow> unat j = unat ?j \<and> unat l = unat ?l"
      by (intro split_512)
    then show ?thesis using low_index(2) [of addr] True by (simp add: word_unat_eq_iff)
  qed
  have "pte ?s r 0 j l = ucast (j * PD_COVERAGE + l * PAGE_SIZE) OR
      (PAGE_PRESENT OR (if (ro(page_no addr := True)) (unat j * 512 + unat l) then 0 else PAGE_WRITE))"
    if jl: "j < 512" "l < 512" "unat j < length pts" for j l
  proof (cases "j = ?j \<and> l = ?l")
    case True
    then have "unat j * 512 + unat l = page_no addr" using same [OF jl(1,2)] by blast
    then show ?thesis using pg [OF jl] True by (simp add: v_def)
  next
    case False
    then have "unat j * 512 + unat l \<noteq> page_no addr" using same [OF jl(1,2)] by blast
    then show ?thesis using pg [OF jl] kernel_entries(8) [OF t pl jl] False by (simp only: fun_upd_other if_False simp_thms not_False_eq_True)
  qed
  then show ?thesis using t p d unfolding kernel_tables_def by auto
qed

lemma protect_pages:
  assumes "kernel_tables r pd pts ro s" "tables_placed r pd pts s" "active_pdpt s = r"
  shows "kernel_tables r pd pts (\<lambda>q. ro q \<or> q \<in> page_no ` set as) (fold protect_page as s) \<and>
    tables_placed r pd pts (fold protect_page as s) \<and> fold protect_page as s = s\<lparr>slots := slots (fold protect_page as s)\<rparr>"
  using assms
proof (induction as arbitrary: ro s)
  case (Cons a as)
  let ?s = "protect_page a s"
  have fr: "tables_placed r pd pts ?s" "active_pdpt ?s = r"
    using Cons.prems protect_page_frame [of a s] by (auto simp: tables_placed_def protect_page_def set_slot_def Let_def)
  note ih = Cons.IH [OF protect_page_tables [OF Cons.prems] fr]
  have eq: "(\<lambda>q. (ro(page_no a := True)) q \<or> q \<in> page_no ` set as) = (\<lambda>q. ro q \<or> q \<in> page_no ` set (a # as))" by auto
  have eq2: "?s\<lparr>slots := u\<rparr> = s\<lparr>slots := u\<rparr>" for u by (simp add: protect_page_def set_slot_def Let_def)
  show ?case unfolding fold_simps by (rule ih [unfolded eq eq2])
qed simp


text \<open>The pages of the loop, by number.\<close>

lemma page_list:
  fixes a e :: u32
  assumes "unat a mod 4096 = 0" "unat e mod 4096 = 0"
  shows "page_no ` set (map (\<lambda>i. a + word_of_nat i * PAGE_SIZE) [0..<(unat e - unat a + 4095) div 4096]) = {page_no a..<page_no e}"
proof -
  obtain p q where pq: "unat a = 4096 * p" "unat e = 4096 * q" using assms by (metis mod_0_imp_dvd dvdE)
  have q: "q < 1048576" using pq(2) unat32_lt [of e] by simp
  have n: "(unat e - unat a + 4095) div 4096 = q - p"
  proof -
    have "unat e - unat a + 4095 = 4096 * (q - p) + 4095" unfolding pq by (simp add: right_diff_distrib')
    then show ?thesis by simp
  qed
  have "page_no (a + word_of_nat i * PAGE_SIZE) = p + i" if "i < q - p" for i
  proof -
    have "unat (word_of_nat i * PAGE_SIZE) = i * 4096" using that q by (subst unat32_mult) (simp_all add: unat32_of_nat)
    then have "unat (a + word_of_nat i * PAGE_SIZE) = 4096 * (p + i)" using that q pq(1) by (subst unat32_plus) simp_all
    then show ?thesis by (simp add: page_no_def)
  qed
  then have "page_no ` set (map (\<lambda>i. a + word_of_nat i * PAGE_SIZE) [0..<q - p]) = (\<lambda>i. p + i) ` {0..<q - p}"
    unfolding set_map set_upt image_image by (intro image_cong) simp_all
  also have "\<dots> = {p..<q}" by (simp add: image_add_atLeastLessThan) (auto simp: not_le intro: image_eqI [of _ _ "_ - p"])
  finally show ?thesis unfolding n by (simp add: page_no_def pq)
qed

lemma protect_range:
  fixes lo hi :: u32
  assumes t: "kernel_tables r pd pts (\<lambda>_. False) s" "tables_placed r pd pts s" "active_pdpt s = r" and hi: "hi \<le> 0xFFFFF000"
  shows "\<exists>s'. each_page protect_page (lo AND NOT (PAGE_SIZE - 1)) ((hi + PAGE_SIZE - 1) AND NOT (PAGE_SIZE - 1)) s = Some s' \<and>
    kernel_tables r pd pts (\<lambda>q. unat lo div 4096 \<le> q \<and> q < (unat hi + 4095) div 4096) s' \<and> tables_placed r pd pts s' \<and>
    s' = s\<lparr>slots := slots s'\<rparr>"
proof -
  let ?a = "lo AND NOT (4095 :: u32)" and ?e = "(hi + 4095) AND NOT (4095 :: u32)"
  have pm: "PAGE_SIZE - 1 = (4095 :: u32)" "hi + PAGE_SIZE - 1 = hi + 4095" by simp_all
  have al: "unat ?a mod 4096 = 0" "unat ?e mod 4096 = 0" unfolding unat_page_floor by simp_all
  then have "unat ?e \<le> 0xFFFFF000" using unat32_lt [of ?e] by (auto elim!: dvdE simp: mod_eq_0_iff_dvd)
  then have le: "?e \<le> 0xFFFFF000" by (simp add: word_le_nat_alt)
  have "unat (hi + 4095) = unat hi + 4095" using hi by (subst unat32_plus) (simp_all add: word_le_nat_alt)
  then have pg: "page_no ?a = unat lo div 4096" "page_no ?e = (unat hi + 4095) div 4096"
    unfolding page_no_def unat_page_floor by simp_all
  define ps where "ps = map (\<lambda>i. ?a + word_of_nat i * PAGE_SIZE) [0..<(unat ?e - unat ?a + 4095) div 4096]"
  have run: "each_page protect_page ?a ?e s = Some (fold protect_page ps s)"
    unfolding ps_def by (rule each_page_returns [OF al(1) le refl])
  have "page_no ` set ps = {unat lo div 4096..<(unat hi + 4095) div 4096}" unfolding ps_def page_list [OF al] pg ..
  then have "(\<lambda>q. False \<or> q \<in> page_no ` set ps) = (\<lambda>q. unat lo div 4096 \<le> q \<and> q < (unat hi + 4095) div 4096)" by auto
  from protect_pages [OF t, of ps, unfolded this] show ?thesis unfolding pm run by blast
qed

section \<open>The whole of paging\_init\<close>

text \<open>
  The number of page tables: one for every 2 MB of memory, at most 512, and none when the sum that rounds the top of
  memory up wraps to zero.
\<close>

definition tables_needed :: "pmm \<Rightarrow> nat" where
  "tables_needed p = (if total_frames p \<le> 0xFFE00 then min 512 ((unat (total_frames p) + 511) div 512) else 0)"

lemma pd_needed_nat:
  fixes p :: pmm
  assumes "pmm_inv p"
  defines "needed \<equiv> (pmm_memory_top p + PD_COVERAGE - 1) div PD_COVERAGE"
  shows "unat (if needed > TABLE_ENTRIES then TABLE_ENTRIES else needed) = tables_needed p"
proof -
  let ?t = "unat (total_frames p)"
  have t: "?t \<le> 1048576" using assms(1) by (simp add: pmm_inv_def)
  have "unat (pmm_memory_top p) = (?t * 4096) mod 4294967296" by (simp add: pmm_memory_top_def unat_word_ariths)
  moreover have c: "pmm_memory_top p + PD_COVERAGE - 1 = pmm_memory_top p + 2097151" by (simp add: PD_COVERAGE_def)
  ultimately have "unat (pmm_memory_top p + PD_COVERAGE - 1) = (?t * 4096 + 2097151) mod 4294967296"
    unfolding c by (simp add: unat_word_ariths mod_simps)
  then have n: "unat needed = (?t * 4096 + 2097151) mod 4294967296 div 2097152"
    by (simp add: needed_def unat_div) (simp add: PD_COVERAGE_def)
  show ?thesis
  proof (cases "?t \<le> 0xFFE00")
    case True
    then have "(?t * 4096 + 2097151) mod 4294967296 = ?t * 4096 + 2097151" by simp
    moreover have "(?t * 4096 + 2097151) div 2097152 = (?t + 511) div 512"
    proof -
      have "(?t * 4096 + 2097151) div (4096 * 512) = (?t * 4096 + 2097151) div 4096 div 512" by (rule div_mult2_eq)
      also have "(?t * 4096 + 2097151) div 4096 = ?t + 511" by simp
      finally show ?thesis by simp
    qed
    ultimately show ?thesis using n True
      by (simp add: tables_needed_def TABLE_ENTRIES_def word_less_nat_alt word_le_nat_alt min_def not_less)
  next
    case False
    then obtain d where d: "?t * 4096 + 2097151 = 4294967296 + d" "d < 2097152"
      using t that [of "?t * 4096 + 2097151 - 4294967296"] by simp
    have "unat needed = 0" unfolding n d(1) using d(2) by simp
    then show ?thesis using False by (simp add: tables_needed_def TABLE_ENTRIES_def word_less_nat_alt word_le_nat_alt)
  qed
qed


text \<open>
  Where the compiler and the linker put the two static tables: aligned as the declarations ask, in different pages of
  the kernel image, which the frame allocator has reserved.
\<close>

definition static_tables :: "paging \<Rightarrow> bool" where
  "static_tables s \<longleftrightarrow> pmm_ok (table_frames s) \<and> unat (kernel_pdpt s) mod 32 = 0 \<and> unat (kernel_pd s) mod 4096 = 0 \<and>
     page_no (kernel_pdpt s) \<noteq> page_no (kernel_pd s) \<and>
     {page_no (kernel_pdpt s), page_no (kernel_pd s)} \<subseteq> frames_owned (table_frames s) - {0}"

lemma aligned_32_fits: "unat r mod 32 = 0 \<Longrightarrow> i < 4 \<Longrightarrow> fits r i"
proof -
  assume a: "unat r mod 32 = 0" "i < 4"
  then obtain k where k: "unat r = 32 * k" by (metis mod_0_imp_dvd dvdE)
  have "unat r mod 4096 = 32 * (k mod 128)" unfolding k using mult_mod_right [of 32 k 128] by simp
  moreover have "k mod 128 < 128" by simp
  ultimately show "fits r i" using a(2) unfolding fits_def by (simp add: word_less_nat_alt)
qed

text \<open>The directories before the tables are hung in.\<close>

lemma cleared_tables:
  assumes "static_tables s"
  defines "s' \<equiv> clear_table (kernel_pd s) 512 (clear_table (kernel_pdpt s) 4 s)"
  shows "s' = s\<lparr>slots := slots s'\<rparr>" "i < 4 \<Longrightarrow> slots s' (slot (kernel_pdpt s) i) = 0" "j < 512 \<Longrightarrow> slots s' (slot (kernel_pd s) j) = 0"
proof -
  let ?r = "kernel_pdpt s" and ?pd = "kernel_pd s"
  have f4: "fits ?r (word_of_nat j)" if "j < 4" for j
    using assms(1) that by (intro aligned_32_fits) (simp_all add: static_tables_def word_less_nat_alt unat32_of_nat)
  have f5: "fits ?pd (word_of_nat j)" if "j < 512" for j
    using assms(1) that by (intro aligned_fits) (simp_all add: static_tables_def word_less_nat_alt unat32_of_nat)
  note c1 = clear_table_slots [of 4, OF _ f4, simplified] and c2 = clear_table_slots [of 512, OF _ f5, simplified]
  have s1: "(clear_table ?r 4 s)\<lparr>slots := u\<rparr> = s\<lparr>slots := u\<rparr>" for u
    using arg_cong [OF c1(1) [of s], of "\<lambda>z. z\<lparr>slots := u\<rparr>"] by simp
  show "s' = s\<lparr>slots := slots s'\<rparr>" unfolding s'_def by (rule c2(1) [of "clear_table ?r 4 s", unfolded s1])
  show "slots s' (slot ?pd j) = 0" if "j < 512" unfolding s'_def using that by (intro c2(3)) (simp add: word_less_nat_alt)
  show "slots s' (slot ?r i) = 0" if "i < 4"
  proof -
    have "page_no (slot ?r i) = page_no ?r" using assms(1) that by (intro slot_nat(2) aligned_32_fits) (simp_all add: static_tables_def)
    then have "page_no (slot ?r i) \<noteq> page_no ?pd" using assms(1) by (simp add: static_tables_def)
    then have "slots s' (slot ?r i) = slots (clear_table ?r 4 s) (slot ?r i)" unfolding s'_def by (rule c2(2))
    then show ?thesis using c1(3) [of i s] that by (simp add: word_less_nat_alt)
  qed
qed

text \<open>The tables once they are hung in.\<close>

lemma hung_tables:
  assumes st: "static_tables s" and b: "tables_built s 0 pts s1" and len: "length pts \<le> 512"
    and z: "\<And>i. i < 4 \<Longrightarrow> slots s (slot (kernel_pdpt s) i) = 0" "\<And>j. j < 512 \<Longrightarrow> slots s (slot (kernel_pd s) j) = 0"
  defines "s2 \<equiv> set_slot (slot (kernel_pdpt s) 0) (ucast (kernel_pd s) OR PAGE_PRESENT) s1"
  shows "kernel_tables (kernel_pdpt s) (kernel_pd s) pts (\<lambda>_. False) s2" "tables_placed (kernel_pdpt s) (kernel_pd s) pts s2"
proof -
  let ?r = "kernel_pdpt s" and ?pd = "kernel_pd s"
  have S: "unat ?r mod 32 = 0" "unat ?pd mod 4096 = 0" "page_no ?r \<noteq> page_no ?pd" "page_no ?r \<in> frames_owned (table_frames s)"
    "page_no ?pd \<in> frames_owned (table_frames s)" "page_no ?r \<noteq> 0" "page_no ?pd \<noteq> 0"
    using st by (auto simp: static_tables_def)
  have B: "pmm_ok (table_frames s1)" "frames_owned (table_frames s1) = page_no ` set pts \<union> frames_owned (table_frames s)"
    "page_no ` set pts \<inter> frames_owned (table_frames s) = {}" "distinct (map page_no pts)" "\<And>pt. pt \<in> set pts \<Longrightarrow> unat pt mod 4096 = 0"
    "\<And>m. m < length pts \<Longrightarrow> slots s1 (slot ?pd (word_of_nat m)) = ucast (pts ! m) OR PAGE_PRESENT OR PAGE_WRITE"
    "\<And>m l. m < length pts \<Longrightarrow> l < 512 \<Longrightarrow> slots s1 (slot (pts ! m) l) =
        ucast (word_of_nat m * PD_COVERAGE + l * PAGE_SIZE) OR PAGE_PRESENT OR PAGE_WRITE"
    "\<And>x. page_no x \<notin> page_no ` set pts \<Longrightarrow> (\<forall>m<length pts. x \<noteq> slot ?pd (word_of_nat m)) \<Longrightarrow> slots s1 x = slots s x"
    using b unfolding tables_built_def by simp_all
  have pr: "page_no (slot ?r i) = page_no ?r" if "i < 4" for i using slot_nat(2) [OF aligned_32_fits [OF S(1) that]] .
  have pp: "page_no (slot ?pd j) = page_no ?pd" if "j < 512" for j using slot_nat(2) [OF aligned_fits [OF S(2) that]] .
  have pt: "page_no (slot t l) = page_no t" "page_no t \<noteq> page_no ?r" if "t \<in> set pts" "l < 512" for t l
    using slot_nat(2) [OF aligned_fits [OF B(5) [OF that(1)] that(2)]] B(3) S(4) that(1) by auto
  have sl: "slots s2 x = (if x = slot ?r 0 then ucast ?pd OR PAGE_PRESENT else slots s1 x)" for x
    by (simp add: s2_def set_slot_def)
  have p: "pdpte s2 ?r i = (if i = 0 then ucast ?pd OR PAGE_PRESENT else 0)" if i: "i < 4" for i
  proof (cases "i = 0")
    case False
    have "slot ?r i \<noteq> slot ?r 0" using slot_inj [OF aligned_32_fits [OF S(1) i] aligned_32_fits [OF S(1)], of 0] False by auto
    moreover have "slots s1 (slot ?r i) = slots s (slot ?r i)"
    proof (rule B(8))
      show "page_no (slot ?r i) \<notin> page_no ` set pts" using pr [OF i] B(3) S(4) by auto
      show "\<forall>m<length pts. slot ?r i \<noteq> slot ?pd (word_of_nat m)"
      proof (intro allI impI notI)
        fix m assume m: "m < length pts" "slot ?r i = slot ?pd (word_of_nat m)"
        have "(word_of_nat m :: u32) < 512" using m(1) len by (simp add: word_less_nat_alt unat32_of_nat)
        then show False using pr [OF i] pp [of "word_of_nat m"] m(2) S(3) by simp
      qed
    qed
    ultimately show ?thesis using sl z(1) [OF i] False by (simp add: pdpte_def)
  qed (simp add: pdpte_def sl)
  have tp: "table_of (pdpte s2 ?r 0) = ?pd" using p [of 0] entry_bits(6) [OF S(2)] by simp
  have d: "pde s2 ?r 0 j = (if unat j < length pts then ucast (pts ! unat j) OR PAGE_PRESENT OR PAGE_WRITE else 0)" if j: "j < 512" for j
  proof -
    have "slot ?pd j \<noteq> slot ?r 0" using pp [OF j] pr [of 0] S(3) by auto
    then have e: "pde s2 ?r 0 j = slots s1 (slot ?pd j)" using sl tp by (simp add: pde_def)
    show ?thesis
    proof (cases "unat j < length pts")
      case True
      then show ?thesis using B(6) [of "unat j"] e by simp
    next
      case False
      have "slots s1 (slot ?pd j) = slots s (slot ?pd j)"
      proof (rule B(8))
        show "page_no (slot ?pd j) \<notin> page_no ` set pts" using pp [OF j] B(3) S(5) by auto
        show "\<forall>m<length pts. slot ?pd j \<noteq> slot ?pd (word_of_nat m)"
        proof (intro allI impI notI)
          fix m assume m: "m < length pts" "slot ?pd j = slot ?pd (word_of_nat m)"
          have w: "(word_of_nat m :: u32) < 512" using m(1) len by (simp add: word_less_nat_alt unat32_of_nat)
          have "j = word_of_nat m" by (rule slot_inj [OF aligned_fits [OF S(2) j] aligned_fits [OF S(2) w] m(2)])
          then show False using False m(1) len by (simp add: unat32_of_nat)
        qed
      qed
      then show ?thesis using z(2) [OF j] e False by simp
    qed
  qed
  have t: "pte s2 ?r 0 j l = ucast (j * PD_COVERAGE + l * PAGE_SIZE) OR (PAGE_PRESENT OR (if False then 0 else PAGE_WRITE))"
    if jl: "j < 512" "l < 512" "unat j < length pts" for j l
  proof -
    have m: "pts ! unat j \<in> set pts" using jl(3) by simp
    have "table_of (pde s2 ?r 0 j) = pts ! unat j"
      using d [OF jl(1)] jl(3) entry_bits(1) [OF B(5) [OF m], where w = False] by (simp add: or.assoc)
    moreover have "slot (pts ! unat j) l \<noteq> slot ?r 0" using pt [OF m jl(2)] pr [of 0] by auto
    ultimately show ?thesis using sl B(7) [OF jl(3,2)] by (simp add: pte_def or.assoc)
  qed
  show "kernel_tables ?r ?pd pts (\<lambda>_. False) s2" unfolding kernel_tables_def using p d t by simp
  have fr: "table_frames s2 = table_frames s1" by (simp add: s2_def set_slot_def)
  have nz: "page_no q \<noteq> 0" if "q \<in> set pts" for q
  proof -
    have "0 \<in> frames_owned (table_frames s)" using st by (auto simp: static_tables_def pmm_ok_def frames_owned_def intro: image_eqI [of _ _ 0])
    then show ?thesis using B(3) that by (metis IntI emptyE imageI)
  qed
  have nin: "page_no ?r \<notin> page_no ` set pts" "page_no ?pd \<notin> page_no ` set pts" using B(3) S(4,5) by auto
  show "tables_placed ?r ?pd pts s2"
    unfolding tables_placed_def fr using S B(1,2,4,5) nz nin len aligned_32_fits [OF S(1), of 3] by auto
qed


text \<open>The state after \<open>paging_init\<close>, with \<open>n\<close> page tables.\<close>

definition paged :: "u32 \<Rightarrow> u32 \<Rightarrow> paging \<Rightarrow> nat \<Rightarrow> paging \<Rightarrow> bool" where
  "paged lo hi s n s' \<longleftrightarrow> kernel_space s' \<and>
     (\<forall>va. mmu s' (kernel_pdpt s) va = (if unat va < n * 2097152
        then Some (va AND NOT 4095, \<not> (unat lo div 4096 \<le> page_no va \<and> page_no va < (unat hi + 4095) div 4096), False, False)
        else None)) \<and>
     active_pdpt s' = kernel_pdpt s \<and> r_cr3 s' = kernel_pdpt s \<and> kernel_pdpt s' = kernel_pdpt s \<and>
     unat (mapped_limit s') = n * 2097152 \<and> bit (r_cr0 s') 16 \<and> bit (r_cr0 s') 31 \<and> bit (r_cr4 s') 5 \<and>
     total_frames (table_frames s') = total_frames (table_frames s) \<and>
     unat (pmm_free_frames (table_frames s')) + n = unat (pmm_free_frames (table_frames s)) \<and>
     frames_owned (table_frames s) \<subseteq> frames_owned (table_frames s')"

lemma kernel_tables_cong:
  assumes "kernel_tables r pd pts ro s" "tables_placed r pd pts s" "slots s' = slots s" "table_frames s' = table_frames s"
  shows "kernel_tables r pd pts ro s'" "tables_placed r pd pts s'" "mmu s' r = mmu s r"
proof -
  have "pdpte s' = pdpte s" "pde s' = pde s" "pte s' = pte s"
    using assms(3) by (simp_all add: fun_eq_iff pte_def pde_def pdpte_def)
  then show "kernel_tables r pd pts ro s'" "tables_placed r pd pts s'" "mmu s' r = mmu s r"
    using assms(1,2,4) by (simp_all add: kernel_tables_def tables_placed_def mmu_def fun_eq_iff)
qed

lemma tables_needed_le: "tables_needed p \<le> 512"
  by (simp add: tables_needed_def)

lemma paging_init_cases:
  assumes st: "static_tables s" and hi: "hi \<le> 0xFFFFF000"
  shows "if tables_needed (table_frames s) \<le> unat (pmm_free_frames (table_frames s))
    then \<exists>s'. paging_init cpuid lo hi s = Some s' \<and> paged lo hi s (tables_needed (table_frames s)) s'
    else paging_init cpuid lo hi s = None"
proof -
  let ?n = "tables_needed (table_frames s)" and ?r = "kernel_pdpt s" and ?pd = "kernel_pd s"
  define s0 where "s0 = (let t = s\<lparr>nx_supported := cpu_has_nx cpuid\<rparr> in if nx_supported t then enable_nx t else t)"
  define s2 where "s2 = clear_table (kernel_pd s0) 512 (clear_table (kernel_pdpt s0) 4 s0)"
  define s3 where "s3 = s2\<lparr>active_pdpt := kernel_pdpt s2\<rparr>"
  have k0: "kernel_pdpt s0 = ?r" "kernel_pd s0 = ?pd" "table_frames s0 = table_frames s" by (simp_all add: s0_def enable_nx_def Let_def)
  have st0: "static_tables s0" using st by (simp add: static_tables_def k0)
  note c = cleared_tables [OF st0, folded s2_def]
  have k3: "kernel_pdpt s3 = ?r" "kernel_pd s3 = ?pd" "table_frames s3 = table_frames s" "active_pdpt s3 = ?r"
    using arg_cong [OF c(1), of kernel_pdpt] arg_cong [OF c(1), of kernel_pd] arg_cong [OF c(1), of table_frames] k0
    by (simp_all add: s3_def)
  have st3: "static_tables s3" using st by (simp add: static_tables_def k3)
  have z3: "i < 4 \<Longrightarrow> slots s3 (slot ?r i) = 0" "j < 512 \<Longrightarrow> slots s3 (slot ?pd j) = 0" for i j
    using c(2) [of i] c(3) [of j] by (simp_all add: s3_def k0)
  have inv: "pmm_inv (table_frames s)" using st by (simp add: static_tables_def pmm_ok_def)
  define needed where "needed = (pmm_memory_top (table_frames s) + PD_COVERAGE - 1) div PD_COVERAGE"
  define m where "m = (if needed > TABLE_ENTRIES then TABLE_ENTRIES else needed)"
  have m: "unat m = ?n" unfolding m_def needed_def by (rule pd_needed_nat [OF inv])
  have run: "paging_init cpuid lo hi s = (case init_tables ?n 0 s3 of None \<Rightarrow> None | Some s4 \<Rightarrow>
      (case each_page protect_page (lo AND NOT (PAGE_SIZE - 1)) ((hi + PAGE_SIZE - 1) AND NOT (PAGE_SIZE - 1))
         ((set_slot (slot (kernel_pdpt s4) 0) (ucast (kernel_pd s4) OR PAGE_PRESENT) s4)
            \<lparr>mapped_limit := m * PD_COVERAGE, kernel_pd_entries := m\<rparr>) of
         None \<Rightarrow> None
       | Some s6 \<Rightarrow> Some (s6\<lparr>r_cr4 := r_cr4 s6 OR push_bit 5 1, r_cr3 := kernel_pdpt s6,
             r_cr0 := r_cr0 s6 OR 0x00010000 OR 0x80000000\<rparr>)))"
    unfolding paging_init_def Let_def m [symmetric] unfolding m_def needed_def k3(3) [symmetric]
    unfolding s3_def s2_def s0_def Let_def by (rule refl)
  have it: "if ?n \<le> unat (pmm_free_frames (table_frames s))
     then \<exists>s' pts. init_tables ?n 0 s3 = Some s' \<and> length pts = ?n \<and> tables_built s3 0 pts s'
     else init_tables ?n 0 s3 = None"
  proof -
    have "pmm_ok (table_frames s3)" "0 + ?n \<le> 512" "unat (kernel_pd s3) mod 4096 = 0" "page_no (kernel_pd s3) \<in> frames_owned (table_frames s3)"
      using st3 tables_needed_le [of "table_frames s"] by (simp_all add: static_tables_def)
    note c = init_tables_cases [OF this]
    have w: "(word_of_nat 0 :: u32) = 0" by simp
    show ?thesis using c unfolding k3 w .
  qed
  show ?thesis
  proof (cases "?n \<le> unat (pmm_free_frames (table_frames s))")
    case False
    then show ?thesis using it run by simp
  next
    case True
    then obtain s4 pts where b: "init_tables ?n 0 s3 = Some s4" "length pts = ?n" "tables_built s3 0 pts s4"
      using it by (simp only: if_True) blast
    have fr4: "s4 = s3\<lparr>slots := slots s4, table_frames := table_frames s4\<rparr>" using b(3) by (simp only: tables_built_def)
    note k4 = arg_cong [OF fr4, of kernel_pdpt, simplified] arg_cong [OF fr4, of kernel_pd, simplified] arg_cong [OF fr4, of active_pdpt, simplified]
    define s5 where "s5 = (set_slot (slot ?r 0) (ucast ?pd OR PAGE_PRESENT) s4)\<lparr>mapped_limit := m * PD_COVERAGE, kernel_pd_entries := m\<rparr>"
    have len: "length pts \<le> 512" using b(2) tables_needed_le by simp
    note hung = hung_tables [OF st3 b(3) len z3 [folded k3(1,2)], unfolded k3(1,2)]
    have p5: "slots s5 = slots (set_slot (slot ?r 0) (ucast ?pd OR PAGE_PRESENT) s4)"
      "table_frames s5 = table_frames (set_slot (slot ?r 0) (ucast ?pd OR PAGE_PRESENT) s4)" by (simp_all add: s5_def)
    note h = kernel_tables_cong(1,2) [OF hung p5]
    have a5: "active_pdpt s5 = ?r" by (simp add: s5_def set_slot_def k4 k3)
    obtain s6 where s6: "each_page protect_page (lo AND NOT (PAGE_SIZE - 1)) ((hi + PAGE_SIZE - 1) AND NOT (PAGE_SIZE - 1)) s5 = Some s6"
      "kernel_tables ?r ?pd pts (\<lambda>q. unat lo div 4096 \<le> q \<and> q < (unat hi + 4095) div 4096) s6" "tables_placed ?r ?pd pts s6"
      "s6 = s5\<lparr>slots := slots s6\<rparr>"
      using protect_range [OF h a5 hi] by blast
    note k6 = arg_cong [OF s6(4), of kernel_pdpt, simplified] arg_cong [OF s6(4), of kernel_pd, simplified]
      arg_cong [OF s6(4), of active_pdpt, simplified] arg_cong [OF s6(4), of table_frames, simplified]
      arg_cong [OF s6(4), of mapped_limit, simplified] arg_cong [OF s6(4), of kernel_pd_entries, simplified]
    define s7 where "s7 = s6\<lparr>r_cr4 := r_cr4 s6 OR push_bit 5 1, r_cr3 := kernel_pdpt s6,
             r_cr0 := r_cr0 s6 OR 0x00010000 OR 0x80000000\<rparr>"
    have p7: "slots s7 = slots s6" "table_frames s7 = table_frames s6" by (simp_all add: s7_def)
    note t7 = kernel_tables_cong [OF s6(2,3) p7]
    have k7: "kernel_pdpt s7 = ?r" "kernel_pd s7 = ?pd" "active_pdpt s7 = ?r" "r_cr3 s7 = ?r" "kernel_pd_entries s7 = m"
      "mapped_limit s7 = m * PD_COVERAGE" "table_frames s7 = table_frames s4"
      by (simp_all add: s7_def k6 s5_def set_slot_def k4 k3)
    have e7: "paging_init cpuid lo hi s = Some s7"
      unfolding run b(1) option.case k4(1,2) k3(1,2) s5_def [symmetric] s6(1) s7_def ..
    have m5: "unat m \<le> 512" using m tables_needed_le by simp
    have lim: "unat (m * PD_COVERAGE) = ?n * 2097152"
      using m5 unfolding m [symmetric] by (subst unat32_mult) (simp_all add: PD_COVERAGE_def)
    have "kernel_space s7"
      unfolding kernel_space_def k7 using kernel_tables_wf [OF t7(1,2)] kernel_entries(1,2) [OF t7(1,2)] m5 by (simp add: word_le_nat_alt)
    moreover have "bit (r_cr0 s7) 16" "bit (r_cr0 s7) 31" "bit (r_cr4 s7) 5"
      by (simp_all add: s7_def bit_or_iff bit_push_bit_iff bit_numeral_rec)
    moreover have "unat (pmm_free_frames (table_frames s4)) + ?n = unat (pmm_free_frames (table_frames s))"
      "total_frames (table_frames s4) = total_frames (table_frames s)" "frames_owned (table_frames s) \<subseteq> frames_owned (table_frames s4)"
      using b(2,3) by (simp_all add: tables_built_def k3)
    ultimately have "paged lo hi s ?n s7"
      unfolding paged_def k7 lim using kernel_tables_mmu [OF t7(1,2)] b(2) by simp
    then show ?thesis using e7 True by simp
  qed
qed


text \<open>
  (C19) \<open>paging_init\<close> on a machine with at most 0xFFE00 frames (4 GB minus 2 MB; beyond that the rounding wraps), with its
  static tables in place and the constants of the kernel ending below 0xFFFFF000: when there are enough free frames
  for the page tables it returns with paging and write protection switched on, every address of the first \<open>n\<close> times
  2 MB (all of memory, at most 1 GB) is mapped to itself for the kernel only, read-only exactly in the pages from the
  start of the kernel's code (\<open>lo\<close>) to the end of its constants (\<open>hi\<close>) and writable elsewhere, the kernel's data and bss
  included, nothing else is mapped, and exactly \<open>n\<close> frames were taken; otherwise it does not return.
  No page is marked non-executable.
\<close>

theorem paging_init_identity:
  assumes "static_tables s" "total_frames (table_frames s) \<le> 0xFFE00" "hi \<le> 0xFFFFF000"
    "n = min 512 ((unat (total_frames (table_frames s)) + 511) div 512)"
  shows "if n \<le> unat (pmm_free_frames (table_frames s))
    then \<exists>s'. paging_init cpuid lo hi s = Some s' \<and> kernel_space s' \<and>
      (\<forall>va. mmu s' (r_cr3 s') va = (if unat va < n * 2097152
         then Some (va AND NOT 4095, \<not> (unat lo div 4096 \<le> page_no va \<and> page_no va < (unat hi + 4095) div 4096), False, False)
         else None)) \<and>
      active_pdpt s' = r_cr3 s' \<and> unat (mapped_limit s') = n * 2097152 \<and>
      bit (r_cr0 s') 16 \<and> bit (r_cr0 s') 31 \<and> bit (r_cr4 s') 5 \<and>
      unat (pmm_free_frames (table_frames s')) + n = unat (pmm_free_frames (table_frames s))
    else paging_init cpuid lo hi s = None"
proof -
  have n: "tables_needed (table_frames s) = n" using assms(2,4) by (simp add: tables_needed_def)
  note c = paging_init_cases [OF assms(1,3), of cpuid lo, unfolded n]
  show ?thesis
  proof (cases "n \<le> unat (pmm_free_frames (table_frames s))")
    case True
    then obtain s' where "paging_init cpuid lo hi s = Some s'" "paged lo hi s n s'" using c by (simp only: if_True) blast
    then have "paging_init cpuid lo hi s = Some s' \<and> kernel_space s' \<and>
      (\<forall>va. mmu s' (r_cr3 s') va = (if unat va < n * 2097152
         then Some (va AND NOT 4095, \<not> (unat lo div 4096 \<le> page_no va \<and> page_no va < (unat hi + 4095) div 4096), False, False)
         else None)) \<and>
      active_pdpt s' = r_cr3 s' \<and> unat (mapped_limit s') = n * 2097152 \<and>
      bit (r_cr0 s') 16 \<and> bit (r_cr0 s') 31 \<and> bit (r_cr4 s') 5 \<and>
      unat (pmm_free_frames (table_frames s')) + n = unat (pmm_free_frames (table_frames s))"
      unfolding paged_def by (simp only: simp_thms)
    then show ?thesis unfolding if_P [OF True] by (rule exI)
  next
    case False
    then show ?thesis using c by simp
  qed
qed

lemma example_static: "static_tables example_space"
  using example_space_frames by (simp add: static_tables_def page_no_def) (simp add: example_space_def)

theorem paging_init_identity_witness:
  "\<exists>s'. paging_init (\<lambda>_. (0, 0)) 0x1000 0x1800 example_space = Some s' \<and> mmu s' (r_cr3 s') 0x1234 = Some (0x1000, False, False, False) \<and>
     mmu s' (r_cr3 s') 0x2345 = Some (0x2000, True, False, False) \<and> mmu s' (r_cr3 s') 0x200000 = None"
proof -
  have t: "total_frames (table_frames example_space) = 8" "unat (pmm_free_frames (table_frames example_space)) = 5"
    by (simp_all add: example_space_def space_frames_def pmm_free_frames_def)
  have one: "(1 :: nat) = min 512 ((unat (total_frames (table_frames example_space)) + 511) div 512)" by (simp add: t)
  obtain s' where s': "paging_init (\<lambda>_. (0, 0)) 0x1000 0x1800 example_space = Some s'"
    "\<And>va. mmu s' (r_cr3 s') va = (if unat va < 1 * 2097152
         then Some (va AND NOT 4095, \<not> (unat (0x1000 :: u32) div 4096 \<le> page_no va \<and> page_no va < (unat (0x1800 :: u32) + 4095) div 4096), False, False)
         else None)"
    using paging_init_identity [OF example_static _ _ one, where hi = "0x1800" and lo = "0x1000" and cpuid = "\<lambda>_. (0, 0)"] t by auto
  show ?thesis using s'(1) by (simp add: s'(2) page_no_def)
qed

text \<open>
  (C20) With a top of memory above 4 GB minus 2 MB the sum \<open>top + PD_COVERAGE - 1\<close> wraps, no page table is built, and
  paging is switched on with no address mapped, the kernel's own included.
\<close>

theorem paging_init_near_4g:
  assumes "static_tables s" "0xFFE00 < total_frames (table_frames s)" "hi \<le> 0xFFFFF000"
  shows "\<exists>s'. paging_init cpuid lo hi s = Some s' \<and> bit (r_cr0 s') 31 \<and> r_cr3 s' = kernel_pdpt s \<and> mapped_limit s' = 0 \<and>
    (\<forall>va. mmu s' (r_cr3 s') va = None)"
proof -
  have n: "tables_needed (table_frames s) = 0" using assms(2) by (simp add: tables_needed_def)
  show ?thesis using paging_init_cases [OF assms(1,3), of cpuid lo] unfolding n paged_def by (auto simp: unat_eq_0)
qed

definition full_machine :: paging where
  "full_machine = example_space\<lparr>table_frames := \<lparr>bitmap = kmemset (\<lambda>_. 0) 0 0xFF ((0xFFFFF + 7) div 8),
     total_frames = 0xFFFFF, used_frames = 0xFFFFF\<rparr>\<rparr>"

lemma full_machine_static: "static_tables full_machine"
proof -
  let ?p = "table_frames full_machine"
  have b: "unat (0xFFFFF :: u32) \<le> 2 ^ 20" by simp
  have inv: "pmm_inv ?p" using boot_state_inv [OF b, of "\<lambda>_. 0"] by (simp add: full_machine_def)
  have t: "f \<in> used_set ?p" if "f < 0xFFFFF" for f :: u32
    using boot_bitmap_full [OF that b, of "\<lambda>_. 0" "0xFFFFF"] that by (simp add: used_set_def full_machine_def)
  have "unat f \<in> frames_owned ?p" if "f < 0xFFFFF" for f :: u32 using t [OF that] by (simp add: frames_owned_def)
  from this [of 1] this [of 2] have "1 \<in> frames_owned ?p" "2 \<in> frames_owned ?p" by simp_all
  then show ?thesis using inv t [of 0]
    by (simp add: static_tables_def pmm_ok_def page_no_def) (simp add: full_machine_def example_space_def)
qed

theorem paging_init_near_4g_witness:
  "\<exists>s'. paging_init (\<lambda>_. (0, 0)) 0x1000 0x1800 full_machine = Some s' \<and> bit (r_cr0 s') 31 \<and> mmu s' (r_cr3 s') 0x1000 = None"
  using paging_init_near_4g [OF full_machine_static, of "0x1800" "\<lambda>_. (0, 0)" "0x1000"] by (auto simp: full_machine_def)

end
