(* ===== verification/UserPages.thy ===== *)
theory UserPages
  imports PagingInit
begin

text \<open>
  \<open>paging_make_user\<close> against the walk of the MMU: the pages of the range become accessible to ring 3 with the
  permissions asked for, and no other page changes.
\<close>

section \<open>Pages for ring 3\<close>

lemma page_range:
  fixes a e :: u32
  assumes "unat a mod 4096 = 0" "e \<le> 0xFFFFF000"
  shows "page_no ` set (map (\<lambda>i. a + word_of_nat i * PAGE_SIZE) [0..<(unat e - unat a + 4095) div 4096]) =
    {page_no a..<(unat e + 4095) div 4096}"
proof -
  define e' where "e' = (e + 4095) AND NOT (4095 :: u32)"
  obtain p where p: "unat a = 4096 * p" using assms(1) by (metis mod_0_imp_dvd dvdE)
  have "unat (e + 4095) = unat e + 4095" using assms(2) by (subst unat32_plus) (simp_all add: word_le_nat_alt)
  then have e': "unat e' = (unat e + 4095) div 4096 * 4096" unfolding e'_def unat_page_floor by simp
  then have "unat e' mod 4096 = 0" by simp
  from page_list [OF assms(1) this] have "page_no ` set (map (\<lambda>i. a + word_of_nat i * PAGE_SIZE) [0..<(unat e' - unat a + 4095) div 4096]) =
    {page_no a..<(unat e + 4095) div 4096}" by (simp add: page_no_def e')
  moreover have "(unat e' - unat a + 4095) div 4096 = (unat e - unat a + 4095) div 4096"
  proof -
    let ?q = "(unat e + 4095) div 4096"
    have l: "unat e' - unat a + 4095 = 4096 * (?q - p) + 4095" unfolding e' p by (simp add: right_diff_distrib' mult.commute)
    have "(unat e - 4096 * p + 4095) div 4096 = ?q - p"
    proof (cases "4096 * p \<le> unat e")
      case True
      then have "unat e + 4095 = (unat e - 4096 * p + 4095) + p * 4096" by simp
      then have "?q = (unat e - 4096 * p + 4095) div 4096 + p" by simp
      then show ?thesis by simp
    next
      case False
      then have "unat e + 4095 < 4096 * p + 4096" by simp
      then have "?q \<le> p" by simp
      then show ?thesis using False by simp
    qed
    then show ?thesis using l p by simp
  qed
  ultimately show ?thesis by simp
qed

lemma mmu_page: "page_no v = page_no a \<Longrightarrow> mmu s r v = mmu s r a"
  using index_page [of v a] by (simp add: mmu_def)

lemma set_flags_entry:
  assumes "fl AND 0xFFFFF000 = 0"
  shows "table_of ((e AND 0xFFFFF000) OR fl) = table_of e" "n < 12 \<or> 32 \<le> n \<Longrightarrow> bit ((e AND 0xFFFFF000) OR fl) n = bit fl n"
proof -
  have z: "\<not> bit fl n" if "12 \<le> n" "n < 32" for n
    using assms that by (metis bit_0_eq bit_addr_mask bit_and_iff bot_apply bot_bool_def)
  show "table_of ((e AND 0xFFFFF000) OR fl) = table_of e"
    by (rule bit_word_eqI, unfold bit_table_of bit_or_iff bit_and_iff bit_addr_mask) (use z in auto)
  show "bit ((e AND 0xFFFFF000) OR fl) n = bit fl n" if "n < 12 \<or> 32 \<le> n"
    using that unfolding bit_or_iff bit_and_iff bit_addr_mask by auto
qed

lemma make_user_page_frame: "make_user_page fl addr s = s\<lparr>slots := slots (make_user_page fl addr s)\<rparr>"
  by (simp add: make_user_page_def paging_set_flags_def set_slot_def Let_def)

lemma make_user_page_mmu:
  assumes wf: "wf_space s r" and act: "active_pdpt s = r" and m: "mmu s r addr \<noteq> None"
    and fl: "fl AND 0xFFFFF000 = 0" "bit fl 0" "bit fl 2"
  shows "wf_space (make_user_page fl addr s) r"
    "mmu (make_user_page fl addr s) r v = (if page_no v = page_no addr
       then map_option (\<lambda>(pa, _). (pa, bit fl 1, True, nx_supported s \<and> bit fl 63)) (mmu s r v) else mmu s r v)"
proof -
  let ?i = "pdpt_index addr" and ?j = "pd_index addr" and ?l = "pt_index addr"
  have pr: "present (pdpte s r ?i)" "present (pde s r ?i ?j)" "present (pte s r ?i ?j ?l)"
    using m by (auto simp: mmu_def Let_def split: if_splits)
  have nz: "table_of (pdpte s r ?i) \<noteq> 0" "table_of (pde s r ?i ?j) \<noteq> 0"
  proof -
    have "page_no (table_at s r [?i]) \<noteq> 0" "page_no (table_at s r [?i, ?j]) \<noteq> 0"
      using wf pathsI(2) [OF index_bound(1) pr(1)] pathsI(3) [OF index_bound(1,2) pr(1,2)] unfolding wf_space_def by blast+
    then show "table_of (pdpte s r ?i) \<noteq> 0" "table_of (pde s r ?i ?j) \<noteq> 0" by (auto simp: page_no_def)
  qed
  define s1 where "s1 = set_slot (slot (table_of (pdpte s r ?i)) ?j) (pde s r ?i ?j OR PAGE_USER) s"
  note g = grant_user [OF wf index_bound(1) pr(1) index_bound(2) pr(2), folded s1_def]
  define f where "f = (if nx_supported s then fl else fl AND NOT PAGE_NX)"
  have fm: "f AND 0xFFFFF000 = 0"
    unfolding f_def using fl(1) by (auto simp: bit_eq_iff [of _ 0] bit_and_iff)
  have fb: "bit f 0" "bit f 2" "bit f 1 = bit fl 1" "bit f 63 \<longleftrightarrow> nx_supported s \<and> bit fl 63"
    unfolding f_def using fl(2,3) by (auto simp: bit_and_iff bit_not_iff bit_flags)
  have u: "bit (pde s1 r ?i ?j) 2" unfolding g(4) bit_or_iff by (simp add: bit_flags)
  have p1: "present (pdpte s1 r ?i)" "present (pde s1 r ?i ?j)" "table_of (pde s1 r ?i ?j) = table_of (pde s r ?i ?j)"
    using pr unfolding g(3,4) table_of_user present_bit bit_or_iff by simp_all
  have m1: "mmu s1 r addr = mmu s r addr" by (rule g(2))
  have act1: "active_pdpt s1 = r" "nx_supported s1 = nx_supported s" using act by (simp_all add: s1_def set_slot_def)
  have fit: "fits (table_of (pde s r ?i ?j)) ?l" using table_of_aligned index_bound(3) by (rule aligned_fits)
  have ne: "slot (table_of (pde s r ?i ?j)) ?l \<noteq> 0"
    using slot_nat(1) [OF fit] nz(2) by (metis add_is_0 unat_0 unat_eq_zero)
  have ef: "entry_for addr s1 = slot (table_of (pde s r ?i ?j)) ?l"
    using p1 nz(1) g(3) act1 by (simp add: entry_for_def pd_for_def present_def pdpte_def pde_def Let_def)
  define e where "e = (slots s1 (slot (table_of (pde s r ?i ?j)) ?l) AND 0xFFFFF000) OR f"
  have "make_user_page fl addr s = set_slot (slot (table_of (pde s1 r ?i ?j)) ?l) e s1"
  proof -
    have "pd_for (active_pdpt s) addr s = table_of (pdpte s r ?i)"
      using pr(1) act by (simp add: pd_for_def present_def pdpte_def Let_def)
    then have "make_user_page fl addr s = paging_set_flags addr f s1"
      using nz(1) act1 by (simp add: make_user_page_def Let_def f_def s1_def pde_def set_slot_def)
    then show ?thesis unfolding paging_set_flags_def Let_def ef if_not_P [OF ne] p1(3) e_def .
  qed
  note eq = this
  have old: "slots s1 (slot (table_of (pde s r ?i ?j)) ?l) = pte s1 r ?i ?j ?l" by (simp add: pte_def p1(3))
  note sf = set_flags_entry [OF fm, where e = "pte s1 r ?i ?j ?l", folded old, folded e_def]
  have eb: "present e" "bit e 1 = bit fl 1" "bit e 2" "bit e 63 \<longleftrightarrow> nx_supported s \<and> bit fl 63"
    using fb sf(2) [of 0] sf(2) [of 1] sf(2) [of 2] sf(2) [of 63] by (simp_all add: present_bit)
  note sp = set_pte [OF g(1) index_bound(1) p1(1) index_bound(2) p1(2) index_bound(3) [of addr], where e = e, folded eq]
  show "wf_space (make_user_page fl addr s) r" using u sp(1) by simp
  have "map_option fst (mmu s r addr) = Some (table_of e)"
    using pr m1 p1 sf(1) old by (auto simp: mmu_def Let_def split: if_splits)
  then show "mmu (make_user_page fl addr s) r v = (if page_no v = page_no addr
       then map_option (\<lambda>(pa, _). (pa, bit fl 1, True, nx_supported s \<and> bit fl 63)) (mmu s r v) else mmu s r v)"
    using sp(2) [of v] u eb g(2) index_page [of v addr] mmu_page [of v addr s r] by (auto simp: case_prod_unfold)
qed


text \<open>What a page becomes when it is opened to ring 3 with the flags \<open>fl\<close>.\<close>

definition opened :: "bool \<Rightarrow> u64 \<Rightarrow> (u32 \<times> bool \<times> bool \<times> bool) option \<Rightarrow> (u32 \<times> bool \<times> bool \<times> bool) option" where
  "opened nx fl = map_option (\<lambda>(pa, _). (pa, bit fl 1, True, nx \<and> bit fl 63))"

lemma opened_twice [simp]: "opened nx fl (opened nx fl x) = opened nx fl x"
  by (cases x) (simp_all add: opened_def case_prod_unfold)

lemma make_user_pages:
  assumes "wf_space s r" "active_pdpt s = r" "\<forall>a\<in>set as. mmu s r a \<noteq> None" "fl AND 0xFFFFF000 = 0" "bit fl 0" "bit fl 2"
  shows "wf_space (fold (make_user_page fl) as s) r \<and>
    fold (make_user_page fl) as s = s\<lparr>slots := slots (fold (make_user_page fl) as s)\<rparr> \<and>
    (\<forall>v. mmu (fold (make_user_page fl) as s) r v =
       (if page_no v \<in> page_no ` set as then opened (nx_supported s) fl (mmu s r v) else mmu s r v))"
  using assms(1-3)
proof (induction as arbitrary: s)
  case (Cons a as)
  let ?s = "make_user_page fl a s"
  have m: "mmu s r a \<noteq> None" using Cons.prems(3) by simp
  note u = make_user_page_mmu [OF Cons.prems(1,2) m assms(4-6), folded opened_def]
  have f: "active_pdpt ?s = r" "nx_supported ?s = nx_supported s"
    using Cons.prems(2) by (simp_all add: make_user_page_def paging_set_flags_def set_slot_def Let_def)
  have eq: "?s\<lparr>slots := w\<rparr> = s\<lparr>slots := w\<rparr>" for w by (simp add: make_user_page_def paging_set_flags_def set_slot_def Let_def)
  have "\<forall>b\<in>set as. mmu ?s r b \<noteq> None" using Cons.prems(3) u(2) by (auto simp: opened_def)
  note ih = Cons.IH [OF u(1) f(1) this, unfolded eq f(2)]
  have "(if page_no v \<in> page_no ` set as then opened (nx_supported s) fl (mmu ?s r v) else mmu ?s r v) =
      (if page_no v \<in> page_no ` set (a # as) then opened (nx_supported s) fl (mmu s r v) else mmu s r v)" for v
    unfolding u(2) by auto
  note eq2 = this
  show ?case unfolding fold_simps by (rule ih [unfolded eq2])
qed simp

lemma user_flags:
  fixes w :: bool
  defines "fl \<equiv> PAGE_PRESENT OR PAGE_USER OR (if w then PAGE_WRITE OR PAGE_NX else 0)"
  shows "fl AND 0xFFFFF000 = 0" "bit fl 0" "bit fl 2" "bit fl 1 = w" "bit fl 63 = w"
proof -
  have b: "bit fl n \<longleftrightarrow> n = 0 \<or> n = 2 \<or> w \<and> (n = 1 \<or> n = 63)" for n
    unfolding fl_def by (auto simp: bit_or_iff bit_flags)
  show "fl AND 0xFFFFF000 = 0" by (rule bit_word_eqI, unfold bit_and_iff b bit_addr_mask) auto
  show "bit fl 0" "bit fl 2" "bit fl 1 = w" "bit fl 63 = w" unfolding b by auto
qed

text \<open>\<open>paging_make_user\<close> on a range that is mapped.\<close>

lemma paging_make_user_mmu:
  assumes wf: "wf_space s r" "active_pdpt s = r" and e: "end_addr \<le> 0xFFFFF000"
    and mapped: "\<And>v. unat start_addr div 4096 \<le> page_no v \<Longrightarrow> page_no v < (unat end_addr + 4095) div 4096 \<Longrightarrow> mmu s r v \<noteq> None"
  shows "\<exists>s'. paging_make_user start_addr end_addr w s = Some s' \<and> wf_space s' r \<and> s' = s\<lparr>slots := slots s'\<rparr> \<and>
    (\<forall>v. mmu s' r v = (if unat start_addr div 4096 \<le> page_no v \<and> page_no v < (unat end_addr + 4095) div 4096
       then map_option (\<lambda>(pa, _). (pa, w, True, nx_supported s \<and> w)) (mmu s r v) else mmu s r v))"
proof -
  let ?a = "start_addr AND NOT (4095 :: u32)"
  define fl where "fl = PAGE_PRESENT OR PAGE_USER OR (if w then PAGE_WRITE OR PAGE_NX else 0)"
  note fb = user_flags [of w, folded fl_def]
  have al: "unat ?a mod 4096 = 0" unfolding unat_page_floor by simp
  define ps where "ps = map (\<lambda>i. ?a + word_of_nat i * PAGE_SIZE) [0..<(unat end_addr - unat ?a + 4095) div 4096]"
  have "page_no ?a = unat start_addr div 4096" unfolding page_no_def unat_page_floor by simp
  then have ps: "page_no ` set ps = {unat start_addr div 4096..<(unat end_addr + 4095) div 4096}"
    unfolding ps_def page_range [OF al e] by simp
  have "PAGE_SIZE - 1 = (4095 :: u32)" by simp
  then have run: "paging_make_user start_addr end_addr w s = Some (fold (make_user_page fl) ps s)"
    unfolding paging_make_user_def Let_def fl_def [symmetric] ps_def by (simp only: each_page_returns [OF al e refl])
  have "\<forall>a\<in>set ps. mmu s r a \<noteq> None" using mapped ps by (metis atLeastLessThan_iff imageI)
  note u = make_user_pages [OF wf this fb(1-3), unfolded ps opened_def fb(4,5) atLeastLessThan_iff]
  show ?thesis unfolding run using u by blast
qed

end
