(* ===== verification/Task.thy ===== *)
theory Task
  imports Kheap Kstring Paging
begin

text \<open>
  Kernel threads and the round-robin scheduler of \<open>kernel/task.c\<close> and \<open>include/task.h\<close>.

  The task structures are a store indexed by their address; the ring of tasks is the cycle of
  \<open>t_next\<close> links.  The kernel state holds the globals of the file and what the scheduler touches
  of other parts: the heap, the paging state with the page frames, memory (for the first stack of a
  thread), the TSS stack pointer, the timer ticks, the interrupt flag and the text sent to
  the console.  The last component belongs to the caller; the exit callback of a task
  (\<open>on_exit\<close>, a function pointer) is the parameter \<open>hook\<close> of the operations that may call it.

  \<open>task_switch\<close> itself is assembly: a call of \<open>task_schedule\<close> is modelled up to the switch,
  after which the CPU runs the new \<open>current\<close> task.
\<close>

section \<open>State\<close>

datatype task_state = TASK_READY | TASK_RUNNING | TASK_SLEEPING | TASK_BLOCKED | TASK_FINISHED

record task =
  t_esp :: u32
  t_id :: u32
  t_name :: "u8 list"
  t_state :: task_state
  t_stack_base :: u32
  t_stack_frames :: u32
  t_kernel_stack_top :: u32
  t_wake_tick :: u32
  t_page_dir :: u32
  t_uctx :: "u32 \<times> u32"
  t_arg :: u32
  t_on_exit :: u32
  t_out_buf :: "u8 list"
  t_out_len :: u32
  t_outbuf :: "u8 list"
  t_outlen :: u32
  t_next :: u32
  t_wait_next :: u32

record 'x kernel =
  tasks :: "u32 \<Rightarrow> task"
  current :: u32
  task_ring :: u32
  next_id :: u32
  enabled :: bool
  switches :: u32
  current_uctx :: u32
  heap :: kheap
  mm :: paging
  memory :: bytes
  esp0 :: u32
  ticks :: u32
  eflags :: u32
  console :: "u8 list"
  ext :: 'x

abbreviation frames :: "'x kernel \<Rightarrow> pmm" where
  "frames k \<equiv> table_frames (mm k)"

abbreviation set_frames :: "pmm \<Rightarrow> 'x kernel \<Rightarrow> 'x kernel" where
  "set_frames p k \<equiv> k\<lparr>mm := (mm k)\<lparr>table_frames := p\<rparr>\<rparr>"

abbreviation cr3 :: "'x kernel \<Rightarrow> u32" where
  "cr3 k \<equiv> r_cr3 (mm k)"

abbreviation kernel_dir :: "'x kernel \<Rightarrow> u32" where
  "kernel_dir k \<equiv> kernel_pdpt (mm k)"

definition TASK_NAME_MAX :: nat where
  "TASK_NAME_MAX = 16"

definition STACK_FRAMES :: u32 where
  "STACK_FRAMES = 2"

text \<open>\<open>sizeof(struct task)\<close>: the fields in order, all 4-byte aligned.\<close>

definition sizeof_task :: u32 where
  "sizeof_task = 328"

definition zero_task :: task where
  "zero_task = \<lparr>t_esp = 0, t_id = 0, t_name = replicate TASK_NAME_MAX 0, t_state = TASK_READY,
     t_stack_base = 0, t_stack_frames = 0, t_kernel_stack_top = 0, t_wake_tick = 0, t_page_dir = 0,
     t_uctx = (0, 0), t_arg = 0, t_on_exit = 0, t_out_buf = replicate 120 0, t_out_len = 0,
     t_outbuf = replicate 128 0, t_outlen = 0, t_next = 0, t_wait_next = 0\<rparr>"

definition set_task :: "u32 \<Rightarrow> (task \<Rightarrow> task) \<Rightarrow> 'x kernel \<Rightarrow> 'x kernel" where
  "set_task t f k = k\<lparr>tasks := (tasks k)(t := f (tasks k t))\<rparr>"

section \<open>Interrupt flag and collaborators\<close>

definition irq_save :: "'x kernel \<Rightarrow> u32 \<times> 'x kernel" where
  "irq_save k = (eflags k, k\<lparr>eflags := eflags k AND NOT 0x200\<rparr>)"

definition irq_restore :: "u32 \<Rightarrow> 'x kernel \<Rightarrow> 'x kernel" where
  "irq_restore flags k = (if flags AND 0x200 \<noteq> 0 then k\<lparr>eflags := eflags k OR 0x200\<rparr> else k)"

definition timer_get_ticks :: "'x kernel \<Rightarrow> u32" where
  "timer_get_ticks k = ticks k"

text \<open>IRQ 0, \<open>drivers/timer.c\<close>.\<close>

definition timer_handler :: "'x kernel \<Rightarrow> 'x kernel" where
  "timer_handler k = k\<lparr>ticks := ticks k + 1\<rparr>"

definition switch_space :: "u32 \<Rightarrow> 'x kernel \<Rightarrow> 'x kernel" where
  "switch_space dir k = k\<lparr>mm := paging_switch dir (mm k)\<rparr>"

definition tss_set_kernel_stack :: "u32 \<Rightarrow> 'x kernel \<Rightarrow> 'x kernel" where
  "tss_set_kernel_stack stk_top k = k\<lparr>esp0 := stk_top\<rparr>"

definition console_write :: "u8 list \<Rightarrow> 'x kernel \<Rightarrow> 'x kernel" where
  "console_write text k = k\<lparr>console := console k @ text\<rparr>"

section \<open>Creating tasks\<close>

text \<open>\<open>while (src[i] && i < TASK_NAME_MAX - 1)\<close>: the copied characters, then the terminator.\<close>

definition copy_name :: "u8 list \<Rightarrow> cstring \<Rightarrow> u8 list" where
  "copy_name dest src =
     (let cs = takeWhile (\<lambda>c. c \<noteq> 0) (take (TASK_NAME_MAX - 1) src)
      in cs @ 0 # drop (length cs + 1) dest)"

abbreviation str_kernel :: cstring where
  "str_kernel \<equiv> [0x6B, 0x65, 0x72, 0x6E, 0x65, 0x6C]"

text \<open>\<open>esp_now\<close> is the stack pointer the inline assembly reads; offset 48 is that of \<open>uctx\<close>.\<close>

definition uctx_of :: "u32 \<Rightarrow> u32" where
  "uctx_of t = t + 48"

definition task_init :: "u32 \<Rightarrow> 'x kernel \<Rightarrow> 'x kernel option" where
  "task_init esp_now k =
     (case kmalloc sizeof_task (heap k) of
        None \<Rightarrow> None
      | Some (t, h) \<Rightarrow>
          if t = 0 then Some (k\<lparr>heap := h\<rparr>)
          else
            Some ((set_task t
                (\<lambda>_. zero_task\<lparr>t_name := copy_name (t_name zero_task) str_kernel,
                   t_kernel_stack_top := esp_now - 256, t_id := next_id k, t_state := TASK_RUNNING,
                   t_next := t\<rparr>)
                (k\<lparr>heap := h\<rparr>))
              \<lparr>next_id := next_id k + 1, current := t, task_ring := t, enabled := True,
               current_uctx := uctx_of t\<rparr>))"

text \<open>The seven words a switch expects, from the top of the new stack downwards.\<close>

definition first_stack :: "u32 \<Rightarrow> u32 \<Rightarrow> u32 \<Rightarrow> bytes \<Rightarrow> u32 \<times> bytes" where
  "first_stack stk_top task_exit_addr entry m =
     fold (\<lambda>v (sp, m). (sp - 4, write32 m (sp - 4) v)) [task_exit_addr, entry, 0x202, 0, 0, 0, 0] (stk_top, m)"

definition task_create_ex ::
  "u32 \<Rightarrow> cstring \<Rightarrow> u32 \<Rightarrow> u32 \<Rightarrow> u32 \<Rightarrow> u32 \<Rightarrow> 'x kernel \<Rightarrow> (u32 \<times> 'x kernel) option" where
  "task_create_ex task_exit_addr name entry page_dir arg on_exit k =
     (if \<not> enabled k then Some (0, k)
      else
        case kmalloc sizeof_task (heap k) of
          None \<Rightarrow> None
        | Some (t, h) \<Rightarrow>
            if t = 0 then Some (0, k\<lparr>heap := h\<rparr>)
            else
              case pmm_alloc_frames STACK_FRAMES (frames k) of (stack, p) \<Rightarrow>
                if stack = 0
                then Some (0, (set_frames p (set_task t (\<lambda>_. zero_task) k))\<lparr>heap := kfree t h\<rparr>)
                else
                  let stk_top = stack + STACK_FRAMES * PAGE_SIZE;
                      (sp, m) = first_stack stk_top task_exit_addr entry (memory k);
                      new = zero_task\<lparr>t_stack_base := stack, t_stack_frames := STACK_FRAMES, t_esp := sp,
                              t_kernel_stack_top := stk_top, t_id := next_id k, t_state := TASK_READY,
                              t_page_dir := page_dir, t_arg := arg, t_on_exit := on_exit,
                              t_name := copy_name (t_name zero_task) name\<rparr>;
                      k1 = (set_frames p (set_task t (\<lambda>_. new) k))
                             \<lparr>heap := h, memory := m, next_id := next_id k + 1\<rparr>;
                      k2 = set_task t (\<lambda>x. x\<lparr>t_next := t_next (tasks k1 (current k1))\<rparr>) k1;
                      k3 = set_task (current k2) (\<lambda>x. x\<lparr>t_next := t\<rparr>) k2
                  in Some (t_id (tasks k3 t), k3\<lparr>eflags := eflags k3 OR 0x200\<rparr>))"

definition task_create ::
  "u32 \<Rightarrow> cstring \<Rightarrow> u32 \<Rightarrow> 'x kernel \<Rightarrow> (u32 \<times> 'x kernel) option" where
  "task_create task_exit_addr name entry k = task_create_ex task_exit_addr name entry 0 0 0 k"

section \<open>Scheduling\<close>

text \<open>The terminator is stored at \<open>out_buf[out_len]\<close>; printing stops at the first NUL.\<close>

definition task_flush_output :: "u32 \<Rightarrow> 'x kernel \<Rightarrow> 'x kernel" where
  "task_flush_output t k =
     (if t = 0 \<or> t_out_len (tasks k t) = 0 then k
      else
        let x = tasks k t;
            buf = (t_out_buf x)[unat (t_out_len x) := 0];
            k1 = set_task t (\<lambda>x. x\<lparr>t_out_buf := buf, t_out_len := 0\<rparr>) k
        in console_write (takeWhile (\<lambda>c. c \<noteq> 0) buf) k1)"

fun free_stack :: "u32 \<Rightarrow> nat \<Rightarrow> pmm \<Rightarrow> pmm" where
  "free_stack base 0 p = p"
| "free_stack base (Suc n) p = pmm_free_frame (base + word_of_nat n * PAGE_SIZE) (free_stack base n p)"

definition reap :: "(u32 \<Rightarrow> u32 \<Rightarrow> 'x kernel \<Rightarrow> 'x kernel) \<Rightarrow> u32 \<Rightarrow> u32 \<Rightarrow> 'x kernel \<Rightarrow> 'x kernel" where
  "reap hook prv dead k =
     (let k1 = set_task prv (\<lambda>x. x\<lparr>t_next := t_next (tasks k dead)\<rparr>) k;
          k2 = task_flush_output dead k1;
          k3 = (if t_on_exit (tasks k2 dead) \<noteq> 0
                then hook (t_on_exit (tasks k2 dead)) (t_arg (tasks k2 dead)) k2 else k2);
          k4 = set_frames (free_stack (t_stack_base (tasks k3 dead))
                    (unat (t_stack_frames (tasks k3 dead))) (frames k3)) k3
      in k4\<lparr>heap := kfree dead (heap k4)\<rparr>)"

text \<open>
  \<open>do \<dots> while (t != task_ring && guard++ < 64)\<close>: the loop body runs at most 65 times.
\<close>

fun wake_loop :: "nat \<Rightarrow> u32 \<Rightarrow> u32 \<Rightarrow> 'x kernel \<Rightarrow> 'x kernel" where
  "wake_loop n now t k =
     (let k1 = (if t_state (tasks k t) = TASK_SLEEPING \<and> now \<ge> t_wake_tick (tasks k t)
                then set_task t (\<lambda>x. x\<lparr>t_state := TASK_READY\<rparr>) k else k);
          t' = t_next (tasks k1 t)
      in if t' \<noteq> task_ring k1 \<and> n > 0 then wake_loop (n - 1) now t' k1 else k1)"

declare wake_loop.simps [simp del]

definition wake_sleepers :: "'x kernel \<Rightarrow> 'x kernel" where
  "wake_sleepers k = wake_loop 64 (timer_get_ticks k) (task_ring k) k"

text \<open>The walk of \<open>task_schedule\<close>; 0 when nothing else is ready.\<close>

fun sched_scan ::
  "(u32 \<Rightarrow> u32 \<Rightarrow> 'x kernel \<Rightarrow> 'x kernel) \<Rightarrow> nat \<Rightarrow> u32 \<Rightarrow> 'x kernel \<Rightarrow> u32 \<times> 'x kernel" where
  "sched_scan hook 0 scan k = (0, k)"
| "sched_scan hook (Suc n) scan k =
     (let candidate = t_next (tasks k scan)
      in if candidate = current k then (0, k)
         else if t_state (tasks k candidate) = TASK_FINISHED
         then sched_scan hook n scan (reap hook scan candidate k)
         else if t_state (tasks k candidate) = TASK_READY then (candidate, k)
         else sched_scan hook n candidate k)"

definition switch_to :: "u32 \<Rightarrow> 'x kernel \<Rightarrow> 'x kernel" where
  "switch_to nxt k =
     (let prv = current k;
          k1 = (if t_state (tasks k (current k)) = TASK_RUNNING
                then set_task (current k) (\<lambda>x. x\<lparr>t_state := TASK_READY\<rparr>) k else k);
          k2 = (set_task nxt (\<lambda>x. x\<lparr>t_state := TASK_RUNNING\<rparr>) k1)
                 \<lparr>current := nxt, switches := switches k1 + 1\<rparr>;
          k3 = (if t_page_dir (tasks k2 nxt) \<noteq> t_page_dir (tasks k2 prv)
                then switch_space (t_page_dir (tasks k2 nxt)) k2 else k2);
          k4 = (if t_kernel_stack_top (tasks k3 nxt) \<noteq> 0
                then tss_set_kernel_stack (t_kernel_stack_top (tasks k3 nxt)) k3 else k3)
      in k4\<lparr>current_uctx := uctx_of nxt\<rparr>)"

definition task_schedule :: "(u32 \<Rightarrow> u32 \<Rightarrow> 'x kernel \<Rightarrow> 'x kernel) \<Rightarrow> 'x kernel \<Rightarrow> 'x kernel" where
  "task_schedule hook k =
     (if \<not> enabled k \<or> current k = 0 then k
      else
        case irq_save k of (flags, k0) \<Rightarrow>
          case sched_scan hook 64 (current k0) (wake_sleepers k0) of (nxt, k1) \<Rightarrow>
            if nxt = 0
            then (if t_state (tasks k1 (current k1)) = TASK_RUNNING then irq_restore flags k1
                  else switch_to (task_ring k1) k1)
            else switch_to nxt k1)"

definition task_yield :: "(u32 \<Rightarrow> u32 \<Rightarrow> 'x kernel \<Rightarrow> 'x kernel) \<Rightarrow> 'x kernel \<Rightarrow> 'x kernel" where
  "task_yield hook k = task_schedule hook k"

definition task_block :: "(u32 \<Rightarrow> u32 \<Rightarrow> 'x kernel \<Rightarrow> 'x kernel) \<Rightarrow> 'x kernel \<Rightarrow> 'x kernel" where
  "task_block hook k =
     (if \<not> enabled k \<or> current k = 0 then k
      else if current k = task_ring k then task_yield hook k
      else task_schedule hook (set_task (current k) (\<lambda>x. x\<lparr>t_state := TASK_BLOCKED\<rparr>) k))"

definition task_unblock :: "u32 \<Rightarrow> 'x kernel \<Rightarrow> 'x kernel" where
  "task_unblock t k =
     (if t \<noteq> 0 \<and> t_state (tasks k t) = TASK_BLOCKED
      then set_task t (\<lambda>x. x\<lparr>t_state := TASK_READY\<rparr>) k else k)"

fun by_id_loop :: "nat \<Rightarrow> u32 \<Rightarrow> u32 \<Rightarrow> 'x kernel \<Rightarrow> u32" where
  "by_id_loop n i t k =
     (if t_id (tasks k t) = i then t
      else
        let t' = t_next (tasks k t)
        in if t' \<noteq> task_ring k \<and> n > 0 then by_id_loop (n - 1) i t' k else 0)"

declare by_id_loop.simps [simp del]

definition task_by_id :: "u32 \<Rightarrow> 'x kernel \<Rightarrow> u32" where
  "task_by_id i k = by_id_loop 64 i (task_ring k) k"

text \<open>
  \<open>task_terminate\<close> and \<open>task_exit\<close> call \<open>task_schedule\<close> for ever; the first call switches away, and
  a finished task is never resumed.
\<close>

definition task_terminate :: "(u32 \<Rightarrow> u32 \<Rightarrow> 'x kernel \<Rightarrow> 'x kernel) \<Rightarrow> 'x kernel \<Rightarrow> 'x kernel" where
  "task_terminate hook k =
     (let k1 = (if current k \<noteq> 0 then task_flush_output (current k) k else k);
          k2 = (if current k1 \<noteq> 0 then set_task (current k1) (\<lambda>x. x\<lparr>t_state := TASK_FINISHED\<rparr>) k1 else k1)
      in task_schedule hook k2)"

definition task_exit :: "(u32 \<Rightarrow> u32 \<Rightarrow> 'x kernel \<Rightarrow> 'x kernel) \<Rightarrow> 'x kernel \<Rightarrow> 'x kernel" where
  "task_exit hook k =
     task_schedule hook
       (if current k \<noteq> 0 then set_task (current k) (\<lambda>x. x\<lparr>t_state := TASK_FINISHED\<rparr>) k else k)"

definition task_kill :: "(u32 \<Rightarrow> u32 \<Rightarrow> 'x kernel \<Rightarrow> 'x kernel) \<Rightarrow> u32 \<Rightarrow> 'x kernel \<Rightarrow> int \<times> 'x kernel" where
  "task_kill hook i k =
     (if i = 0 then (0, k)
      else
        case irq_save k of (flags, k1) \<Rightarrow>
          let t = task_by_id i k1
          in if t = 0 \<or> t_state (tasks k1 t) = TASK_FINISHED then (0, irq_restore flags k1)
             else if t_state (tasks k1 t) = TASK_BLOCKED then (-1, irq_restore flags k1)
             else
               let k2 = irq_restore flags (set_task t (\<lambda>x. x\<lparr>t_state := TASK_FINISHED\<rparr>) k1)
               in (1, if t = current k2 then task_terminate hook k2 else k2))"

definition task_set_address_space :: "u32 \<Rightarrow> 'x kernel \<Rightarrow> 'x kernel" where
  "task_set_address_space dir k =
     (if current k = 0 then k
      else switch_space dir (set_task (current k) (\<lambda>x. x\<lparr>t_page_dir := dir\<rparr>) k))"

text \<open>Task 0, and everything before the scheduler runs, waits for the tick instead of sleeping.\<close>

datatype 'k sleep_outcome = Slept 'k | Busy_Wait u32 'k

definition task_sleep ::
  "(u32 \<Rightarrow> u32 \<Rightarrow> 'x kernel \<Rightarrow> 'x kernel) \<Rightarrow> u32 \<Rightarrow> 'x kernel \<Rightarrow> 'x kernel sleep_outcome" where
  "task_sleep hook n k =
     (if \<not> enabled k \<or> current k = 0 \<or> current k = task_ring k
      then Busy_Wait (timer_get_ticks k + n) k
      else Slept (task_schedule hook
             (set_task (current k)
               (\<lambda>x. x\<lparr>t_wake_tick := timer_get_ticks k + n, t_state := TASK_SLEEPING\<rparr>) k)))"

definition task_switch_count :: "'x kernel \<Rightarrow> u32" where
  "task_switch_count k = switches k"

definition task_current :: "'x kernel \<Rightarrow> u32" where
  "task_current k = current k"

text \<open>The rows that \<open>task_list\<close> prints: id, state and name; at most 33 of them.\<close>

fun list_loop :: "nat \<Rightarrow> u32 \<Rightarrow> 'x kernel \<Rightarrow> (u32 \<times> task_state \<times> cstring) list" where
  "list_loop n t k =
     (let x = tasks k t
      in (t_id x, t_state x, takeWhile (\<lambda>c. c \<noteq> 0) (t_name x)) #
         (if t_next x \<noteq> task_ring k \<and> n > 0 then list_loop (n - 1) (t_next x) k else []))"

declare list_loop.simps [simp del]

definition task_list :: "'x kernel \<Rightarrow> (u32 \<times> (u32 \<times> task_state \<times> cstring) list) option" where
  "task_list k =
     (if \<not> enabled k then None else Some (switches k, list_loop 32 (task_ring k) k))"

end
