(* ===== verification/TaskCorrect.thy ===== *)
theory TaskCorrect
  imports Task
begin

text \<open>
  Correctness of the scheduler: what \<open>wake_sleepers\<close>, \<open>reap\<close> and the scan of \<open>task_schedule\<close> do to
  the ring of tasks, which task runs next, that every operation keeps the scheduler's invariant,
  and that every ready task is reached.

  The ring is described by the list of its tasks from \<open>current\<close> onwards.  The exit callback of a
  task is a parameter; the locale \<open>exit_hook\<close> states what the scheduler needs of it.
\<close>

section \<open>The ring\<close>

primrec chain :: "(u32 \<Rightarrow> u32) \<Rightarrow> u32 \<Rightarrow> u32 list \<Rightarrow> u32 \<Rightarrow> bool" where
  "chain nx a [] b \<longleftrightarrow> a = b"
| "chain nx a (x # xs) b \<longleftrightarrow> a = x \<and> chain nx (nx x) xs b"

lemma chain_append [simp]: "chain nx a (xs @ ys) b \<longleftrightarrow> (\<exists>c. chain nx a xs c \<and> chain nx c ys b)"
  by (induction xs arbitrary: a) auto

lemma chain_cong: "chain nx a xs b \<Longrightarrow> (\<And>x. x \<in> set xs \<Longrightarrow> nx' x = nx x) \<Longrightarrow> chain nx' a xs b"
  by (induction xs arbitrary: a) auto

lemma chain_Cons_hd: "chain nx a (x # xs) b \<Longrightarrow> nx x = hd (xs @ [b])"
  by (cases xs) auto

abbreviation nexts :: "'x kernel \<Rightarrow> u32 \<Rightarrow> u32" where
  "nexts k \<equiv> \<lambda>t. t_next (tasks k t)"

abbreviation state_of :: "'x kernel \<Rightarrow> u32 \<Rightarrow> task_state" where
  "state_of k \<equiv> \<lambda>t. t_state (tasks k t)"

definition cycle :: "(u32 \<Rightarrow> u32) \<Rightarrow> u32 list \<Rightarrow> bool" where
  "cycle nx ts \<longleftrightarrow> ts \<noteq> [] \<and> distinct ts \<and> 0 \<notin> set ts \<and> chain nx (hd ts) ts (hd ts)"

definition rotate_to :: "u32 \<Rightarrow> u32 list \<Rightarrow> u32 list" where
  "rotate_to x ts = dropWhile (\<lambda>t. t \<noteq> x) ts @ takeWhile (\<lambda>t. t \<noteq> x) ts"

lemma set_rotate_to [simp]: "set (rotate_to x ts) = set ts"
proof -
  have "set (rotate_to x ts) = set (takeWhile (\<lambda>t. t \<noteq> x) ts @ dropWhile (\<lambda>t. t \<noteq> x) ts)"
    unfolding rotate_to_def set_append by (rule Un_commute)
  then show ?thesis by (simp only: takeWhile_dropWhile_id)
qed

lemma length_rotate_to [simp]: "length (rotate_to x ts) = length ts"
proof -
  have "length (rotate_to x ts) = length (takeWhile (\<lambda>t. t \<noteq> x) ts @ dropWhile (\<lambda>t. t \<noteq> x) ts)"
    unfolding rotate_to_def length_append by (rule add.commute)
  then show ?thesis by (simp only: takeWhile_dropWhile_id)
qed

lemma hd_rotate_to: "x \<in> set ts \<Longrightarrow> hd (rotate_to x ts) = x"
  by (induction ts) (auto simp: rotate_to_def)

lemma rotate_to_split: "x \<notin> set xs \<Longrightarrow> rotate_to x (xs @ x # ys) = x # ys @ xs"
  by (auto simp: rotate_to_def takeWhile_append dropWhile_append)

lemma rotate_to_hd [simp]: "rotate_to x (x # xs) = x # xs"
  using rotate_to_split [of x "[]"] by simp

lemma cycle_rotate_to:
  assumes "cycle nx ts" "x \<in> set ts"
  shows "cycle nx (rotate_to x ts)"
proof -
  obtain xs ys where "ts = xs @ x # ys" "x \<notin> set xs" using assms(2) split_list_first by metis
  then have "rotate_to x ts = x # ys @ xs" by (simp add: rotate_to_split)
  then show ?thesis using assms(1) \<open>ts = _\<close> by (cases xs) (auto simp: cycle_def)
qed

lemma cycle_cong: "cycle nx ts \<Longrightarrow> (\<And>t. t \<in> set ts \<Longrightarrow> nx' t = nx t) \<Longrightarrow> cycle nx' ts"
  unfolding cycle_def using chain_cong by blast

definition ring :: "'x kernel \<Rightarrow> u32 list \<Rightarrow> bool" where
  "ring k ts \<longleftrightarrow> cycle (nexts k) ts \<and> hd ts = current k \<and> task_ring k \<in> set ts"

section \<open>Waking the sleepers\<close>

definition woken :: "u32 \<Rightarrow> task \<Rightarrow> task" where
  "woken now x = (if t_state x = TASK_SLEEPING \<and> t_wake_tick x \<le> now then x\<lparr>t_state := TASK_READY\<rparr> else x)"

lemma woken_next [simp]: "t_next (woken now x) = t_next x"
  "t_page_dir (woken now x) = t_page_dir x" "t_kernel_stack_top (woken now x) = t_kernel_stack_top x"
  "t_id (woken now x) = t_id x"
  by (simp_all add: woken_def)

lemma woken_state: "t_state (woken now x) =
  (if t_state x = TASK_SLEEPING \<and> t_wake_tick x \<le> now then TASK_READY else t_state x)"
  by (simp add: woken_def)

lemma set_task_sel [simp]:
  "tasks (set_task t f k) = (tasks k)(t := f (tasks k t))"
  "current (set_task t f k) = current k" "task_ring (set_task t f k) = task_ring k"
  "next_id (set_task t f k) = next_id k" "enabled (set_task t f k) = enabled k"
  "switches (set_task t f k) = switches k" "current_uctx (set_task t f k) = current_uctx k"
  "heap (set_task t f k) = heap k" "mm (set_task t f k) = mm k"
  "memory (set_task t f k) = memory k" "esp0 (set_task t f k) = esp0 k"
  "ticks (set_task t f k) = ticks k" "eflags (set_task t f k) = eflags k"
  "console (set_task t f k) = console k" "ext (set_task t f k) = ext k"
  by (simp_all add: set_task_def)

lemma wake_step:
  "(if t_state (tasks k t) = TASK_SLEEPING \<and> now \<ge> t_wake_tick (tasks k t)
    then set_task t (\<lambda>x. x\<lparr>t_state := TASK_READY\<rparr>) k else k) = set_task t (woken now) k"
  by (simp add: set_task_def woken_def)

lemma wake_loop_eq:
  assumes "chain (nexts k) t ts (task_ring k)" "ts \<noteq> []" "distinct ts" "task_ring k \<notin> set (tl ts)"
    "length ts \<le> Suc n"
  shows "wake_loop n now t k =
    k\<lparr>tasks := \<lambda>u. if u \<in> set ts then woken now (tasks k u) else tasks k u\<rparr>"
  using assms
proof (induction ts arbitrary: n t k)
  case (Cons u us)
  let ?k1 = "set_task t (woken now) k"
  have t: "u = t" using Cons.prems(1) by simp
  show ?case
  proof (cases us)
    case Nil
    then have "t_next (tasks k t) = task_ring k" using Cons.prems(1) t by simp
    then show ?thesis unfolding wake_loop.simps [of n] Let_def wake_step
      by (simp add: Nil t) (simp add: set_task_def fun_upd_def cong: if_cong)
  next
    case (Cons v vs)
    have v: "t_next (tasks k t) = v" using Cons.prems(1) t Cons by simp
    have "v \<noteq> task_ring k" "0 < n" using Cons.prems Cons by auto
    have "wake_loop (n - 1) now v ?k1 =
      ?k1\<lparr>tasks := \<lambda>u. if u \<in> set us then woken now (tasks ?k1 u) else tasks ?k1 u\<rparr>"
    proof (rule Cons.IH)
      show "chain (nexts ?k1) v us (task_ring ?k1)"
        using Cons.prems(1,3) t v by (auto intro: chain_cong [where nx = "nexts k"])
      show "task_ring ?k1 \<notin> set (tl us)" using Cons.prems(4) Cons by auto
    qed (use Cons.prems Cons in auto)
    moreover have "wake_loop n now t k = wake_loop (n - 1) now v ?k1"
      unfolding wake_loop.simps [of n] Let_def wake_step using v \<open>v \<noteq> _\<close> \<open>0 < n\<close> by simp
    moreover have "t \<notin> set us" using Cons.prems(3) t by simp
    ultimately show ?thesis by (auto simp: t set_task_def fun_eq_iff)
  qed
qed simp

lemma wake_sleepers_eq:
  assumes "ring k ts" "length ts \<le> 65"
  shows "wake_sleepers k =
    k\<lparr>tasks := \<lambda>u. if u \<in> set ts then woken (ticks k) (tasks k u) else tasks k u\<rparr>"
proof -
  let ?us = "rotate_to (task_ring k) ts"
  have us: "cycle (nexts k) ?us" "hd ?us = task_ring k"
    using assms cycle_rotate_to hd_rotate_to by (auto simp: ring_def)
  then obtain vs where vs: "?us = task_ring k # vs" by (cases ?us) (auto simp: cycle_def)
  have "length ?us \<le> Suc 64" using assms(2) by simp
  then have "wake_loop 64 (ticks k) (task_ring k) k =
    k\<lparr>tasks := \<lambda>u. if u \<in> set ?us then woken (ticks k) (tasks k u) else tasks k u\<rparr>"
    using us by (intro wake_loop_eq) (auto simp: cycle_def vs)
  then show ?thesis by (simp add: wake_sleepers_def timer_get_ticks_def)
qed

section \<open>Reaping and scanning\<close>

text \<open>What the scheduler needs of the exit callbacks: they leave the tasks and its globals alone.\<close>

locale exit_hook =
  fixes hook :: "u32 \<Rightarrow> u32 \<Rightarrow> 'x kernel \<Rightarrow> 'x kernel"
  assumes hook_tasks: "tasks (hook f a k) = tasks k"
    and hook_current: "current (hook f a k) = current k" "task_ring (hook f a k) = task_ring k"
      "enabled (hook f a k) = enabled k" "next_id (hook f a k) = next_id k"
      "switches (hook f a k) = switches k" "current_uctx (hook f a k) = current_uctx k"
    and hook_cpu: "cr3 (hook f a k) = cr3 k" "kernel_dir (hook f a k) = kernel_dir k"
      "esp0 (hook f a k) = esp0 k" "ticks (hook f a k) = ticks k" "eflags (hook f a k) = eflags k"

text \<open>The fields the scan never changes, as one equation.\<close>

definition sched_frame :: "'x kernel \<Rightarrow> u32 \<times> u32 \<times> bool \<times> u32 \<times> u32 \<times> u32 \<times> u32 \<times> u32 \<times> u32 \<times> u32 \<times> u32" where
  "sched_frame k = (current k, task_ring k, enabled k, next_id k, switches k, current_uctx k, cr3 k,
     kernel_dir k, esp0 k, ticks k, eflags k)"

text \<open>Output pending in a task when it is reaped.\<close>

definition flushed :: "task \<Rightarrow> task" where
  "flushed x = (if t_out_len x = 0 then x
     else x\<lparr>t_out_buf := (t_out_buf x)[unat (t_out_len x) := 0], t_out_len := 0\<rparr>)"

lemma flushed_sel [simp]:
  "t_state (flushed x) = t_state x" "t_next (flushed x) = t_next x" "t_page_dir (flushed x) = t_page_dir x"
  "t_kernel_stack_top (flushed x) = t_kernel_stack_top x" "t_id (flushed x) = t_id x"
  "t_wake_tick (flushed x) = t_wake_tick x"
  by (simp_all add: flushed_def)

lemma task_flush_output_tasks:
  "d \<noteq> 0 \<Longrightarrow> tasks (task_flush_output d k) = (tasks k)(d := flushed (tasks k d))"
  by (auto simp: task_flush_output_def flushed_def console_write_def Let_def)

lemma task_flush_output_frame [simp]:
  "sched_frame (task_flush_output d k) = sched_frame k" "current (task_flush_output d k) = current k"
  "task_ring (task_flush_output d k) = task_ring k"  "enabled (task_flush_output d k) = enabled k"
  "heap (task_flush_output d k) = heap k"
  by (simp_all add: task_flush_output_def console_write_def Let_def sched_frame_def)

text \<open>The ring after the scan: finished tasks before the first ready one are gone.\<close>

primrec sweep :: "(u32 \<Rightarrow> task_state) \<Rightarrow> u32 list \<Rightarrow> u32 list" where
  "sweep st [] = []"
| "sweep st (t # ts) =
     (if st t = TASK_READY then t # ts else if st t = TASK_FINISHED then sweep st ts else t # sweep st ts)"

abbreviation next_ready :: "(u32 \<Rightarrow> task_state) \<Rightarrow> u32 list \<Rightarrow> u32 option" where
  "next_ready st ts \<equiv> find (\<lambda>t. st t = TASK_READY) ts"

lemma set_sweep: "set (sweep st ts) \<subseteq> set ts"
  by (induction ts) auto

lemma length_sweep: "length (sweep st ts) \<le> length ts"
  by (induction ts) auto

lemma distinct_sweep: "distinct ts \<Longrightarrow> distinct (sweep st ts)"
  using set_sweep by (induction ts) auto

lemma sweep_keeps: "t \<in> set ts \<Longrightarrow> st t \<noteq> TASK_FINISHED \<Longrightarrow> t \<in> set (sweep st ts)"
  by (induction ts) auto

lemma next_ready_sweep: "next_ready st ts = Some t \<Longrightarrow> t \<in> set (sweep st ts) \<and> st t = TASK_READY"
  by (induction ts) (auto split: if_splits)

lemma sweep_cong: "(\<And>t. t \<in> set ts \<Longrightarrow> st t = st' t) \<Longrightarrow> sweep st ts = sweep st' ts"
  by (induction ts) auto

context exit_hook
begin

lemma hook_frame [simp]: "sched_frame (hook f a k) = sched_frame k"
  by (simp add: sched_frame_def hook_current hook_cpu)

lemma reap_tasks:
  assumes "d \<noteq> 0" "p \<noteq> d"
  shows "tasks (reap hook p d k) =
    (tasks k)(p := (tasks k p)\<lparr>t_next := t_next (tasks k d)\<rparr>, d := flushed (tasks k d))"
  using assms by (auto simp: reap_def Let_def hook_tasks task_flush_output_tasks fun_eq_iff)

lemma reap_frame: "sched_frame (reap hook p d k) = sched_frame k"
proof -
  have "sched_frame ((set_frames f k')\<lparr>heap := h\<rparr>) = sched_frame k'" for k' :: "'x kernel" and f h
    by (simp add: sched_frame_def)
  moreover have "sched_frame (set_task t f k') = sched_frame k'" for t f and k' :: "'x kernel"
    by (simp add: sched_frame_def)
  ultimately show ?thesis by (simp add: reap_def Let_def)
qed

lemma sched_scan_spec:
  assumes "chain (nexts k) (t_next (tasks k scan)) todo (current k)" "scan \<notin> set todo" "distinct todo"
    "0 \<notin> set todo" "current k \<notin> set todo" "length todo \<le> n"
    "sched_scan hook n scan k = (nxt, k')"
  shows "nxt = (case next_ready (state_of k) todo of None \<Rightarrow> 0 | Some t \<Rightarrow> t) \<and>
    chain (nexts k') (t_next (tasks k' scan)) (sweep (state_of k) todo) (current k) \<and>
    (\<forall>t. t \<in> set todo \<and> state_of k t = TASK_FINISHED \<or>
       tasks k' t = (tasks k t)\<lparr>t_next := t_next (tasks k' t)\<rparr>) \<and>
    state_of k' = state_of k \<and>
    (\<forall>t. t \<noteq> scan \<and> t \<notin> set todo \<longrightarrow> tasks k' t = tasks k t) \<and> sched_frame k' = sched_frame k"
  using assms
proof (induction todo arbitrary: n scan k)
  case Nil
  then show ?case by (cases n) auto
next
  case (Cons d ds)
  obtain m where n: "n = Suc m" using Cons.prems(6) by (cases n) auto
  have d: "t_next (tasks k scan) = d" "d \<noteq> current k" "d \<noteq> 0" "scan \<noteq> d"
    and ds: "chain (nexts k) (t_next (tasks k d)) ds (current k)"
    using Cons.prems by auto
  consider "state_of k d = TASK_FINISHED" | "state_of k d = TASK_READY"
    | "state_of k d \<noteq> TASK_FINISHED" "state_of k d \<noteq> TASK_READY" by blast
  then show ?case
  proof cases
    case 1
    let ?k = "reap hook scan d k"
    have ts: "tasks ?k = (tasks k)(scan := (tasks k scan)\<lparr>t_next := t_next (tasks k d)\<rparr>, d := flushed (tasks k d))"
      using d by (intro reap_tasks) auto
    have st: "state_of ?k = state_of k" by (auto simp: ts fun_eq_iff)
    have nr: "next_ready (state_of ?k) ds = next_ready (state_of k) ds" using fun_cong [OF st] by simp
    have cur: "current ?k = current k" using reap_frame [of scan d k] by (simp add: sched_frame_def)
    have "chain (nexts ?k) (t_next (tasks ?k scan)) ds (current ?k)"
      using ds Cons.prems(2,3) d by (auto simp: ts cur intro: chain_cong [where nx = "nexts k"])
    moreover have "sched_scan hook m scan ?k = (nxt, k')"
      using Cons.prems(7) d 1 by (simp add: n)
    ultimately have ih: "nxt = (case next_ready (state_of ?k) ds of None \<Rightarrow> 0 | Some t \<Rightarrow> t)"
      "chain (nexts k') (t_next (tasks k' scan)) (sweep (state_of ?k) ds) (current ?k)"
      "\<forall>t. t \<in> set ds \<and> state_of ?k t = TASK_FINISHED \<or>
         tasks k' t = (tasks ?k t)\<lparr>t_next := t_next (tasks k' t)\<rparr>"
      "state_of k' = state_of ?k"
      "\<forall>t. t \<noteq> scan \<and> t \<notin> set ds \<longrightarrow> tasks k' t = tasks ?k t" "sched_frame k' = sched_frame ?k"
      using Cons.IH [of ?k scan m] Cons.prems n cur by auto
    have "t \<in> set (d # ds) \<and> state_of k t = TASK_FINISHED \<or>
         tasks k' t = (tasks k t)\<lparr>t_next := t_next (tasks k' t)\<rparr>" for t
    proof (cases "t = d")
      case False
      then show ?thesis using ih(3) [rule_format, of t] 1 unfolding st by (auto simp: ts split: if_splits)
    qed (use 1 in simp)
    then show ?thesis using ih(1,2,4,5,6) 1 unfolding nr unfolding st cur by (auto simp: ts reap_frame)
  next
    case 2
    then have "nxt = d" "k' = k" using Cons.prems(7) d by (auto simp: n)
    then show ?thesis using 2 Cons.prems by auto
  next
    case 3
    then have "sched_scan hook m d k = (nxt, k')" using Cons.prems(7) d by (simp add: n)
    then have ih: "nxt = (case next_ready (state_of k) ds of None \<Rightarrow> 0 | Some t \<Rightarrow> t)"
      "chain (nexts k') (t_next (tasks k' d)) (sweep (state_of k) ds) (current k)"
      "\<forall>t. t \<in> set ds \<and> state_of k t = TASK_FINISHED \<or>
         tasks k' t = (tasks k t)\<lparr>t_next := t_next (tasks k' t)\<rparr>"
      "state_of k' = state_of k"
      "\<forall>t. t \<noteq> d \<and> t \<notin> set ds \<longrightarrow> tasks k' t = tasks k t" "sched_frame k' = sched_frame k"
      using Cons.IH [of k d m] Cons.prems n ds by auto
    moreover have "t_next (tasks k' scan) = d" using ih(5) Cons.prems(2) d by auto
    ultimately show ?thesis using 3 by auto
  qed
qed

end

section \<open>The scheduling decision\<close>

text \<open>The page directory loaded for a task.\<close>

definition dir_of :: "'x kernel \<Rightarrow> u32 \<Rightarrow> u32" where
  "dir_of k t = (if t_page_dir (tasks k t) = 0 then kernel_dir k else t_page_dir (tasks k t))"

text \<open>The state of a task once \<open>wake_sleepers\<close> has run.\<close>

definition due_state :: "'x kernel \<Rightarrow> u32 \<Rightarrow> task_state" where
  "due_state k t = t_state (woken (ticks k) (tasks k t))"

text \<open>
  The scheduler's invariant for the tasks \<open>ts\<close>, listed from the current one: they form the ring,
  task 0 is one of them and never sleeps, blocks or ends, there are at most 65 of them, as many as the
  loops over the ring visit (\<open>guard\<close> in the code; no caller enforces it), no task but the current one is running,
  and the current task's directory is loaded.
\<close>

definition sched_ok :: "'x kernel \<Rightarrow> u32 list \<Rightarrow> bool" where
  "sched_ok k ts \<longleftrightarrow> ring k ts \<and> enabled k \<and> length ts \<le> 65 \<and>
     state_of k (task_ring k) \<in> {TASK_READY, TASK_RUNNING} \<and> t_id (tasks k (task_ring k)) = 0 \<and>
     (\<forall>t\<in>set ts. t \<noteq> current k \<longrightarrow> state_of k t \<noteq> TASK_RUNNING) \<and> cr3 k = dir_of k (current k)"

definition chosen :: "'x kernel \<Rightarrow> u32 list \<Rightarrow> u32" where
  "chosen k rest = (case next_ready (due_state k) rest of Some t \<Rightarrow> t
     | None \<Rightarrow> if state_of k (current k) = TASK_RUNNING then current k else task_ring k)"

lemma switch_to_sel [simp]:
  "current (switch_to n k) = n" "task_ring (switch_to n k) = task_ring k" "enabled (switch_to n k) = enabled k"
  "switches (switch_to n k) = switches k + 1" "current_uctx (switch_to n k) = uctx_of n"
  "kernel_dir (switch_to n k) = kernel_dir k" "next_id (switch_to n k) = next_id k"
  "ticks (switch_to n k) = ticks k" "heap (switch_to n k) = heap k"
  by (simp_all add: switch_to_def Let_def switch_space_def paging_switch_def tss_set_kernel_stack_def)

lemma switch_to_tasks:
  fixes k :: "'x kernel"
  shows "tasks (switch_to n k) =
  (let c = current k;
       ts = (if state_of k c = TASK_RUNNING then (tasks k)(c := (tasks k c)\<lparr>t_state := TASK_READY\<rparr>) else tasks k)
   in ts(n := (ts n)\<lparr>t_state := TASK_RUNNING\<rparr>))"
proof -
  have sel: "tasks (if b then switch_space d k else k) = tasks k"
    "tasks (if b then tss_set_kernel_stack d k else k) = tasks k" for b d and k :: "'x kernel"
    by (simp_all add: switch_space_def paging_switch_def tss_set_kernel_stack_def)
  have "tasks (switch_to n k) = tasks (set_task n (\<lambda>x. x\<lparr>t_state := TASK_RUNNING\<rparr>)
      (if state_of k (current k) = TASK_RUNNING
       then set_task (current k) (\<lambda>x. x\<lparr>t_state := TASK_READY\<rparr>) k else k))"
    unfolding switch_to_def Let_def by (simp add: sel split del: if_split)
  then show ?thesis by (simp add: Let_def)
qed

lemma switch_to_task [simp]:
  "t_next (tasks (switch_to n k) t) = t_next (tasks k t)" "t_page_dir (tasks (switch_to n k) t) = t_page_dir (tasks k t)"
  "t_id (tasks (switch_to n k) t) = t_id (tasks k t)" "t_wake_tick (tasks (switch_to n k) t) = t_wake_tick (tasks k t)"
  "t_kernel_stack_top (tasks (switch_to n k) t) = t_kernel_stack_top (tasks k t)"
  "t_wait_next (tasks (switch_to n k) t) = t_wait_next (tasks k t)"
  by (auto simp: switch_to_tasks Let_def)

lemma switch_to_state: "state_of (switch_to n k) t =
  (if t = n then TASK_RUNNING
   else if t = current k \<and> state_of k t = TASK_RUNNING then TASK_READY else state_of k t)"
  by (auto simp: switch_to_tasks Let_def)

lemma switch_to_cr3: "cr3 k = dir_of k (current k) \<Longrightarrow> cr3 (switch_to n k) = dir_of k n"
  by (simp add: switch_to_def Let_def switch_space_def paging_switch_def tss_set_kernel_stack_def dir_of_def)

lemma switch_to_esp0: "t_kernel_stack_top (tasks k n) \<noteq> 0 \<Longrightarrow> esp0 (switch_to n k) = t_kernel_stack_top (tasks k n)"
  by (simp add: switch_to_def Let_def switch_space_def paging_switch_def tss_set_kernel_stack_def)

lemma irq_restore_sel [simp]:
  "tasks (irq_restore fl k) = tasks k" "current (irq_restore fl k) = current k"
  "task_ring (irq_restore fl k) = task_ring k" "enabled (irq_restore fl k) = enabled k"
  "switches (irq_restore fl k) = switches k" "current_uctx (irq_restore fl k) = current_uctx k"
  "mm (irq_restore fl k) = mm k" "esp0 (irq_restore fl k) = esp0 k"
  "ticks (irq_restore fl k) = ticks k" "next_id (irq_restore fl k) = next_id k" "heap (irq_restore fl k) = heap k"
  by (simp_all add: irq_restore_def)

lemma ring_cong:
  assumes "ring k ts" "\<And>t. t \<in> set ts \<Longrightarrow> t_next (tasks k' t) = t_next (tasks k t)"
    "current k' = current k" "task_ring k' = task_ring k"
  shows "ring k' ts"
  using assms by (auto simp: ring_def intro: cycle_cong)

context exit_hook
begin

lemma scan_after_wake:
  assumes "sched_ok k (c # rest)"
    "sched_scan hook 64 (current k) (wake_sleepers (k\<lparr>eflags := fl\<rparr>)) = (nxt, k1)"
  shows "nxt = (case next_ready (due_state k) rest of None \<Rightarrow> 0 | Some t \<Rightarrow> t)"
    "cycle (nexts k1) (c # sweep (due_state k) rest)"
    "\<And>t. t \<in> set (c # rest) \<Longrightarrow> state_of k1 t = due_state k t"
    "\<And>t. t \<in> set (c # sweep (due_state k) rest) \<Longrightarrow> due_state k t \<noteq> TASK_FINISHED \<or> t = c \<Longrightarrow>
       tasks k1 t = (woken (ticks k) (tasks k t))\<lparr>t_next := t_next (tasks k1 t)\<rparr>"
    "\<And>t. t \<notin> set (c # rest) \<Longrightarrow> tasks k1 t = tasks k t"
    "sched_frame k1 = sched_frame (k\<lparr>eflags := fl\<rparr>)"
proof -
  have ok: "ring k (c # rest)" "length (c # rest) \<le> 65" "c = current k"
    using assms(1) by (auto simp: sched_ok_def ring_def)
  define kw where "kw = k\<lparr>eflags := fl, tasks := \<lambda>u. if u \<in> set (c # rest) then woken (ticks k) (tasks k u) else tasks k u\<rparr>"
  have "ring (k\<lparr>eflags := fl\<rparr>) (c # rest)" using ok(1) by (rule ring_cong) simp_all
  then have kw: "wake_sleepers (k\<lparr>eflags := fl\<rparr>) = kw"
    using wake_sleepers_eq [of "k\<lparr>eflags := fl\<rparr>" "c # rest"] ok(2) unfolding kw_def by (simp cong: if_cong)
  have st: "state_of kw t = due_state k t" if "t \<in> set (c # rest)" for t
    using that by (auto simp: kw_def due_state_def)
  have nx: "nexts kw = nexts k" by (auto simp: kw_def)
  have sf: "sched_frame kw = sched_frame (k\<lparr>eflags := fl\<rparr>)" "current kw = c"
    by (simp_all add: kw_def sched_frame_def ok(3))
  have cyc: "chain (nexts kw) (t_next (tasks kw c)) rest (current kw)" "distinct (c # rest)" "0 \<notin> set (c # rest)"
    using ok(1) unfolding nx sf(2) by (auto simp: ring_def cycle_def fun_cong [OF nx])
  have scan: "sched_scan hook 64 c kw = (nxt, k1)" using assms(2) kw ok(3) by simp
  have sp: "nxt = (case next_ready (state_of kw) rest of None \<Rightarrow> 0 | Some t \<Rightarrow> t)"
    "chain (nexts k1) (t_next (tasks k1 c)) (sweep (state_of kw) rest) (current kw)"
    "\<And>t. t \<in> set rest \<and> state_of kw t = TASK_FINISHED \<or> tasks k1 t = (tasks kw t)\<lparr>t_next := t_next (tasks k1 t)\<rparr>"
    "state_of k1 = state_of kw" "\<And>t. t \<noteq> c \<and> t \<notin> set rest \<longrightarrow> tasks k1 t = tasks kw t"
    "sched_frame k1 = sched_frame kw"
    using sched_scan_spec [OF cyc(1) _ _ _ _ _ scan] cyc(2,3) ok(2) sf(2) by auto
  have nr: "next_ready (state_of kw) rest = next_ready (due_state k) rest"
    using st by (auto intro!: find_cong)
  have sw: "sweep (state_of kw) rest = sweep (due_state k) rest" using st by (auto intro!: sweep_cong)
  show "nxt = (case next_ready (due_state k) rest of None \<Rightarrow> 0 | Some t \<Rightarrow> t)" using sp(1) unfolding nr .
  show "cycle (nexts k1) (c # sweep (due_state k) rest)"
    using sp(2) cyc(2,3) set_sweep [of "due_state k" rest] distinct_sweep [of rest "due_state k"]
    unfolding sw sf(2) by (auto simp: cycle_def)
  show "state_of k1 t = due_state k t" if "t \<in> set (c # rest)" for t
    using st [OF that] fun_cong [OF sp(4)] by simp
  show "tasks k1 t = (woken (ticks k) (tasks k t))\<lparr>t_next := t_next (tasks k1 t)\<rparr>"
    if "t \<in> set (c # sweep (due_state k) rest)" "due_state k t \<noteq> TASK_FINISHED \<or> t = c" for t
  proof -
    have t: "t \<in> set (c # rest)" using that set_sweep [of "due_state k" rest] by auto
    then have "tasks k1 t = (tasks kw t)\<lparr>t_next := t_next (tasks k1 t)\<rparr>"
      using sp(3) [of t] st [OF t] that(2) cyc(2) by auto
    then show ?thesis using t by (simp add: kw_def)
  qed
  show "tasks k1 t = tasks k t" if "t \<notin> set (c # rest)" for t
    using sp(5) [of t] that by (simp add: kw_def)
  show "sched_frame k1 = sched_frame (k\<lparr>eflags := fl\<rparr>)" using sp(6) sf(1) by simp
qed

text \<open>What \<open>task_schedule\<close> does: which task it chooses, and what becomes of the ring and the others.\<close>

lemma schedule_spec:
  assumes ok: "sched_ok k (c # rest)"
  defines "k' \<equiv> task_schedule hook k" and "n \<equiv> chosen k rest" and "ts \<equiv> c # sweep (due_state k) rest"
  shows "current k' = n" "n \<in> set ts" "cycle (nexts k') ts" "task_ring k' = task_ring k" "task_ring k \<in> set ts"
    "enabled k' = enabled k" "kernel_dir k' = kernel_dir k" "ticks k' = ticks k" "next_id k' = next_id k"
    "\<And>t. t \<in> set ts \<Longrightarrow> state_of k' t =
       (if t = n \<and> (n \<noteq> c \<or> state_of k c \<noteq> TASK_RUNNING) then TASK_RUNNING
        else if t = c \<and> n \<noteq> c \<and> state_of k c = TASK_RUNNING then TASK_READY else due_state k t)"
    "\<And>t. t \<in> set ts \<Longrightarrow> due_state k t \<noteq> TASK_FINISHED \<Longrightarrow>
       t_page_dir (tasks k' t) = t_page_dir (tasks k t) \<and> t_id (tasks k' t) = t_id (tasks k t) \<and>
       t_kernel_stack_top (tasks k' t) = t_kernel_stack_top (tasks k t) \<and>
       t_wake_tick (tasks k' t) = t_wake_tick (tasks k t) \<and> t_wait_next (tasks k' t) = t_wait_next (tasks k t)"
    "cr3 k' = dir_of k' n"
    "n \<noteq> c \<Longrightarrow> t_kernel_stack_top (tasks k n) \<noteq> 0 \<Longrightarrow>
       esp0 k' = t_kernel_stack_top (tasks k n) \<and> current_uctx k' = uctx_of n \<and> switches k' = switches k + 1"
proof -
  have c: "c = current k" "c \<noteq> 0" "enabled k" "distinct (c # rest)" "0 \<notin> set rest" "task_ring k \<in> set (c # rest)"
    "state_of k (task_ring k) \<in> {TASK_READY, TASK_RUNNING}" "cr3 k = dir_of k c"
    using ok by (auto simp: sched_ok_def ring_def cycle_def)
  define fl where "fl = eflags k AND NOT 0x200"
  obtain nxt k1 where scan: "sched_scan hook 64 (current k) (wake_sleepers (k\<lparr>eflags := fl\<rparr>)) = (nxt, k1)"
    by fastforce
  note sp = scan_after_wake [OF ok scan]
  have fr: "current k1 = c" "task_ring k1 = task_ring k" "enabled k1 = enabled k" "kernel_dir k1 = kernel_dir k"
    "ticks k1 = ticks k" "next_id k1 = next_id k" "cr3 k1 = cr3 k" "switches k1 = switches k"
    using sp(6) c(1) by (auto simp: sched_frame_def)
  have due_c: "state_of k1 c = due_state k c" using sp(3) by simp
  have due_run: "due_state k t = TASK_RUNNING \<longleftrightarrow> state_of k t = TASK_RUNNING" for t
    by (simp add: due_state_def woken_state)
  have ring0: "due_state k (task_ring k) \<noteq> TASK_FINISHED" using c(7) by (auto simp: due_state_def woken_state)
  have in0: "task_ring k \<in> set ts"
    using c(6) ring0 by (auto simp: ts_def intro: sweep_keeps)
  have k': "k' = (if n = c \<and> state_of k c = TASK_RUNNING then irq_restore (eflags k) k1 else switch_to n k1)"
  proof (cases "next_ready (due_state k) rest")
    case None
    then show ?thesis using sp(1) scan c(1-3) due_run [of c] due_c fr(1,2)
      by (auto simp: k'_def n_def chosen_def task_schedule_def irq_save_def fl_def)
  next
    case (Some t)
    then have "t \<in> set rest" using next_ready_sweep set_sweep by fastforce
    then have "t \<noteq> 0" "t \<noteq> c" using c(4,5) by auto
    then show ?thesis using Some sp(1) scan c(1-3)
      by (auto simp: k'_def n_def chosen_def task_schedule_def irq_save_def fl_def)
  qed
  show "current k' = n" using fr by (auto simp: k')
  show n: "n \<in> set ts"
    using in0 next_ready_sweep [of "due_state k" rest] c(1) by (auto simp: n_def chosen_def ts_def split: option.splits)
  show "cycle (nexts k') ts" using sp(2) by (auto simp: k' ts_def intro: cycle_cong)
  show "task_ring k' = task_ring k" "enabled k' = enabled k" "kernel_dir k' = kernel_dir k" "ticks k' = ticks k"
    "next_id k' = next_id k" using fr by (auto simp: k')
  show "task_ring k \<in> set ts" by (rule in0)
  have sub: "set ts \<subseteq> set (c # rest)" using set_sweep by (fastforce simp: ts_def)
  show "state_of k' t = (if t = n \<and> (n \<noteq> c \<or> state_of k c \<noteq> TASK_RUNNING) then TASK_RUNNING
        else if t = c \<and> n \<noteq> c \<and> state_of k c = TASK_RUNNING then TASK_READY else due_state k t)" if "t \<in> set ts" for t
  proof -
    have "state_of k1 t = due_state k t" using sp(3) that sub by blast
    then show ?thesis using due_run [of c] due_c fr(1) by (auto simp: k' switch_to_state)
  qed
  have same: "tasks k1 t = (woken (ticks k) (tasks k t))\<lparr>t_next := t_next (tasks k1 t)\<rparr>"
    if "t \<in> set ts" "due_state k t \<noteq> TASK_FINISHED \<or> t = c" for t using sp(4) that unfolding ts_def by blast
  have kept: "t_page_dir (tasks k1 t) = t_page_dir (tasks k t) \<and> t_id (tasks k1 t) = t_id (tasks k t) \<and>
       t_kernel_stack_top (tasks k1 t) = t_kernel_stack_top (tasks k t) \<and>
       t_wake_tick (tasks k1 t) = t_wake_tick (tasks k t) \<and> t_wait_next (tasks k1 t) = t_wait_next (tasks k t)"
    if "t \<in> set ts" "due_state k t \<noteq> TASK_FINISHED \<or> t = c" for t
    by (subst (1 2 3 4 5) same [OF that]) (simp add: woken_def)
  show "t_page_dir (tasks k' t) = t_page_dir (tasks k t) \<and> t_id (tasks k' t) = t_id (tasks k t) \<and>
       t_kernel_stack_top (tasks k' t) = t_kernel_stack_top (tasks k t) \<and>
       t_wake_tick (tasks k' t) = t_wake_tick (tasks k t) \<and> t_wait_next (tasks k' t) = t_wait_next (tasks k t)" if "t \<in> set ts" "due_state k t \<noteq> TASK_FINISHED" for t
    using kept [of t] that by (auto simp: k')
  have n_alive: "due_state k n \<noteq> TASK_FINISHED \<or> n = c"
    using next_ready_sweep [of "due_state k" rest] ring0 c(1) by (auto simp: n_def chosen_def split: option.splits)
  have "cr3 k1 = dir_of k1 (current k1)" using kept [of c] c(8) fr(1,4,7) by (simp add: ts_def dir_of_def)
  then show "cr3 k' = dir_of k' n" using switch_to_cr3 [of k1 n] fr(1) by (auto simp: k' dir_of_def)
  assume "n \<noteq> c" "t_kernel_stack_top (tasks k n) \<noteq> 0"
  then show "esp0 k' = t_kernel_stack_top (tasks k n) \<and> current_uctx k' = uctx_of n \<and> switches k' = switches k + 1"
    using switch_to_esp0 [of k1 n] kept [OF n n_alive] fr(8) by (simp add: k')
qed

end

section \<open>Operations keep the invariant\<close>

text \<open>Between two scheduling decisions the current task is running.\<close>

definition sched_inv :: "'x kernel \<Rightarrow> u32 list \<Rightarrow> bool" where
  "sched_inv k ts \<longleftrightarrow> sched_ok k ts \<and> state_of k (current k) = TASK_RUNNING"

lemma sched_ok_Cons: "sched_ok k ts \<Longrightarrow> \<exists>rest. ts = current k # rest"
  by (cases ts) (auto simp: sched_ok_def ring_def cycle_def)

lemma sched_ok_current: "sched_ok k ts \<Longrightarrow> current k \<noteq> 0 \<and> current k \<in> set ts"
  by (cases ts) (auto simp: sched_ok_def ring_def cycle_def)

lemma sched_ok_cong:
  assumes "sched_ok k ts"
    "\<And>t. t \<in> set ts \<Longrightarrow> t_next (tasks k' t) = t_next (tasks k t)"
    "\<And>t. t \<in> set ts \<Longrightarrow> t \<noteq> current k \<Longrightarrow> state_of k t \<noteq> TASK_RUNNING \<Longrightarrow> state_of k' t \<noteq> TASK_RUNNING"
    "state_of k' (task_ring k) \<in> {TASK_READY, TASK_RUNNING}"
    "t_id (tasks k' (task_ring k)) = t_id (tasks k (task_ring k))"
    "t_page_dir (tasks k' (current k)) = t_page_dir (tasks k (current k))"
    "current k' = current k" "task_ring k' = task_ring k" "enabled k' = enabled k" "cr3 k' = cr3 k"
    "kernel_dir k' = kernel_dir k"
  shows "sched_ok k' ts"
proof -
  have "ring k' ts" using assms by (auto simp: sched_ok_def intro: ring_cong)
  then show ?thesis using assms by (auto simp: sched_ok_def dir_of_def)
qed

lemma set_state_ok:
  assumes "sched_ok k ts" "t \<noteq> task_ring k" "t_state (f (tasks k t)) \<noteq> TASK_RUNNING"
    "t_next (f (tasks k t)) = t_next (tasks k t)" "t_page_dir (f (tasks k t)) = t_page_dir (tasks k t)"
  shows "sched_ok (set_task t f k) ts"
  using assms(1) by (rule sched_ok_cong) (use assms in \<open>auto simp: sched_ok_def\<close>)

lemma flush_ok:
  assumes "sched_ok k ts" "t \<noteq> 0"
  shows "sched_ok (task_flush_output t k) ts"
  using assms(1) by (rule sched_ok_cong) (use assms task_flush_output_frame(1) [of t k] in
    \<open>auto simp: task_flush_output_tasks sched_ok_def sched_frame_def\<close>)

lemma by_id_loop_id: "by_id_loop n i t k \<noteq> 0 \<Longrightarrow> t_id (tasks k (by_id_loop n i t k)) = i"
proof (induction n arbitrary: t)
  case 0
  then show ?case by (auto simp: by_id_loop.simps [of 0] Let_def split: if_splits)
next
  case (Suc n)
  show ?case
    by (use Suc in \<open>subst by_id_loop.simps, subst (asm) (2) by_id_loop.simps\<close>)
      (auto simp: Let_def split: if_splits)
qed

lemma task_by_id_eflags: "task_by_id i (k\<lparr>eflags := fl\<rparr>) = task_by_id i k"
proof -
  have "by_id_loop n i t (k\<lparr>eflags := fl\<rparr>) = by_id_loop n i t k" for n t
  proof (induction n arbitrary: t)
    case 0
    show ?case by (simp add: by_id_loop.simps [of 0])
  next
    case (Suc n)
    show ?case by (simp add: by_id_loop.simps [of "Suc n"] Suc Let_def)
  qed
  then show ?thesis by (simp add: task_by_id_def)
qed

lemma task_by_id_id: "task_by_id i k \<noteq> 0 \<Longrightarrow> t_id (tasks k (task_by_id i k)) = i"
  unfolding task_by_id_def by (rule by_id_loop_id)

text \<open>
  Every operation but creation changes at most the tasks \<open>X\<close> and then, perhaps, has the scheduler
  decide; up to that decision the heap and the other tasks are not touched.
\<close>

definition keeps :: "u32 set \<Rightarrow> 'x kernel \<Rightarrow> 'x kernel \<Rightarrow> bool" where
  "keeps X k k' \<longleftrightarrow> heap k' = heap k \<and> task_ring k' = task_ring k \<and> (\<forall>u. u \<notin> X \<longrightarrow> tasks k' u = tasks k u)"

definition leads ::
  "(u32 \<Rightarrow> u32 \<Rightarrow> 'x kernel \<Rightarrow> 'x kernel) \<Rightarrow> u32 set \<Rightarrow> 'x kernel \<Rightarrow> u32 list \<Rightarrow> 'x kernel \<Rightarrow> bool" where
  "leads hook X k ts k' \<longleftrightarrow> sched_inv k' ts \<and> keeps X k k' \<or>
     (\<exists>k2. k' = task_schedule hook k2 \<and> sched_ok k2 ts \<and> keeps X k k2)"

lemma keeps_set_task [simp]: "t \<in> X \<Longrightarrow> keeps X k (set_task t f k') \<longleftrightarrow> keeps X k k'"
  by (auto simp: keeps_def)

lemma keeps_refl [simp]: "keeps X k k"
  by (simp add: keeps_def)

lemma keeps_restore [simp]: "keeps X k (irq_restore fl k') \<longleftrightarrow> keeps X k k'"
  by (simp add: keeps_def)

lemma keeps_flush [simp]: "t \<in> X \<Longrightarrow> t \<noteq> 0 \<Longrightarrow> keeps X k (task_flush_output t k') \<longleftrightarrow> keeps X k k'"
  by (auto simp: keeps_def task_flush_output_tasks)

lemma keeps_timer [simp]: "keeps X k (timer_handler k)"
  by (simp add: keeps_def timer_handler_def)

context exit_hook
begin

lemma schedule_inv:
  assumes "sched_ok k (c # rest)"
  shows "sched_inv (task_schedule hook k) (rotate_to (chosen k rest) (c # sweep (due_state k) rest))"
proof -
  note sp = schedule_spec [OF assms]
  let ?k = "task_schedule hook k" and ?n = "chosen k rest" and ?ts = "c # sweep (due_state k) rest"
  have ok: "length (c # rest) \<le> 65" "state_of k (task_ring k) \<in> {TASK_READY, TASK_RUNNING}"
    "t_id (tasks k (task_ring k)) = 0" "enabled k" "c = current k"
    "\<And>t. t \<in> set (c # rest) \<Longrightarrow> t \<noteq> c \<Longrightarrow> state_of k t \<noteq> TASK_RUNNING"
    using assms by (auto simp: sched_ok_def ring_def)
  have due: "due_state k t = TASK_RUNNING \<longleftrightarrow> state_of k t = TASK_RUNNING"
    "state_of k t \<in> {TASK_READY, TASK_RUNNING} \<Longrightarrow> due_state k t = state_of k t" for t
    by (auto simp: due_state_def woken_state)
  have "ring ?k (rotate_to ?n ?ts)"
    using cycle_rotate_to [OF sp(3,2)] hd_rotate_to [OF sp(2)] sp(1,4,5) by (simp add: ring_def)
  moreover have "length ?ts \<le> 65" using ok(1) length_sweep [of "due_state k" rest] by simp
  moreover have "state_of ?k (task_ring k) \<in> {TASK_READY, TASK_RUNNING}"
    using sp(10) [OF sp(5)] due(2) [OF ok(2)] ok(2) by auto
  moreover have "t_id (tasks ?k (task_ring k)) = 0"
    using sp(11) [OF sp(5)] due(2) [OF ok(2)] ok(2,3) by auto
  moreover have "state_of ?k t \<noteq> TASK_RUNNING" if "t \<in> set ?ts" "t \<noteq> ?n" for t
    using sp(10) [OF that(1)] that ok(6) [of t] due(1) [of t] set_sweep [of "due_state k" rest] by auto
  ultimately have "sched_ok ?k (rotate_to ?n ?ts)"
    using sp(1,4,6,7,12) ok(4) unfolding sched_ok_def set_rotate_to length_rotate_to dir_of_def by simp
  moreover have "state_of ?k ?n = TASK_RUNNING"
    using sp(10) [OF sp(2)] due(1) [of c] by auto
  ultimately show ?thesis using sp(1) by (simp add: sched_inv_def)
qed

lemma timer_handler_ok: "sched_ok k ts \<Longrightarrow> sched_ok (timer_handler k) ts"
  by (rule sched_ok_cong [of k]) (auto simp: timer_handler_def sched_ok_def)

lemma timer_leads: "sched_inv k ts \<Longrightarrow> leads hook X k ts (task_schedule hook (timer_handler k))"
  using timer_handler_ok [of k ts] keeps_timer unfolding leads_def sched_inv_def by blast

lemma yield_leads: "sched_inv k ts \<Longrightarrow> leads hook X k ts (task_yield hook k)"
  unfolding leads_def sched_inv_def task_yield_def using keeps_refl by blast

lemma block_leads:
  assumes "sched_inv k ts"
  shows "leads hook {current k} k ts (task_block hook k)"
proof -
  have ok: "sched_ok k ts" "enabled k" "current k \<noteq> 0"
    using assms sched_ok_current by (auto simp: sched_inv_def sched_ok_def)
  show ?thesis
  proof (cases "current k = task_ring k")
    case True
    then show ?thesis using yield_leads [OF assms] ok by (simp add: task_block_def)
  next
    case False
    then have "sched_ok (set_task (current k) (\<lambda>x. x\<lparr>t_state := TASK_BLOCKED\<rparr>) k) ts"
      using ok by (intro set_state_ok) auto
    moreover have "keeps {current k} k (set_task (current k) (\<lambda>x. x\<lparr>t_state := TASK_BLOCKED\<rparr>) k)" by simp
    ultimately show ?thesis using ok False unfolding task_block_def leads_def by auto
  qed
qed

lemma sleep_leads:
  assumes "sched_inv k ts" "task_sleep hook n k = Slept k'"
  shows "leads hook {current k} k ts k'"
proof -
  have ok: "sched_ok k ts" "current k \<noteq> task_ring k"
    using assms by (auto simp: sched_inv_def task_sleep_def split: if_splits)
  let ?k = "set_task (current k) (\<lambda>x. x\<lparr>t_wake_tick := timer_get_ticks k + n, t_state := TASK_SLEEPING\<rparr>) k"
  have "sched_ok ?k ts" "keeps {current k} k ?k" using ok by (auto intro: set_state_ok)
  moreover have "k' = task_schedule hook ?k" using assms(2) by (auto simp: task_sleep_def split: if_splits)
  ultimately show ?thesis unfolding leads_def by blast
qed

lemma unblock_inv: "sched_inv k ts \<Longrightarrow> sched_inv (task_unblock t k) ts"
proof (cases "t \<noteq> 0 \<and> state_of k t = TASK_BLOCKED")
  case True
  assume inv: "sched_inv k ts"
  then have "t \<noteq> task_ring k" "t \<noteq> current k" using True by (auto simp: sched_inv_def sched_ok_def)
  then have "sched_ok (set_task t (\<lambda>x. x\<lparr>t_state := TASK_READY\<rparr>) k) ts"
    using inv by (intro set_state_ok) (auto simp: sched_inv_def)
  then show ?thesis using True inv \<open>t \<noteq> current k\<close> by (simp add: sched_inv_def task_unblock_def)
qed (auto simp: task_unblock_def)

lemma finish_ok:
  "sched_ok k ts \<Longrightarrow> t \<noteq> task_ring k \<Longrightarrow> sched_ok (set_task t (\<lambda>x. x\<lparr>t_state := TASK_FINISHED\<rparr>) k) ts"
  by (rule set_state_ok) auto

lemma unblock_leads: "sched_inv k ts \<Longrightarrow> leads hook {t} k ts (task_unblock t k)"
  using unblock_inv [of k ts t] by (simp add: leads_def task_unblock_def)

lemma terminate_leads:
  assumes "sched_ok k ts" "current k \<noteq> task_ring k"
  shows "leads hook {current k} k ts (task_terminate hook k)"
proof -
  have c: "current k \<noteq> 0" using sched_ok_current assms(1) by blast
  let ?k = "set_task (current k) (\<lambda>x. x\<lparr>t_state := TASK_FINISHED\<rparr>) (task_flush_output (current k) k)"
  have "sched_ok ?k ts" "keeps {current k} k ?k" using finish_ok [OF flush_ok [OF assms(1)]] assms(2) c by simp_all
  moreover have "task_terminate hook k = task_schedule hook ?k" using c by (simp add: task_terminate_def Let_def)
  ultimately show ?thesis unfolding leads_def by blast
qed

lemma exit_leads:
  assumes "sched_ok k ts" "current k \<noteq> task_ring k"
  shows "leads hook {current k} k ts (task_exit hook k)"
proof -
  let ?k = "set_task (current k) (\<lambda>x. x\<lparr>t_state := TASK_FINISHED\<rparr>) k"
  have "sched_ok ?k ts" "keeps {current k} k ?k" using finish_ok [OF assms] by simp_all
  moreover have "task_exit hook k = task_schedule hook ?k" using sched_ok_current [OF assms(1)] by (simp add: task_exit_def)
  ultimately show ?thesis unfolding leads_def by blast
qed

text \<open>A task that changes its own address space has the new directory loaded.\<close>

lemma address_space_leads:
  assumes "sched_inv k ts"
  shows "leads hook {current k} k ts (task_set_address_space dir k)"
proof -
  have ok: "sched_ok k ts" "current k \<noteq> 0" using assms sched_ok_current by (auto simp: sched_inv_def)
  define k' where "k' = task_set_address_space dir k"
  have k': "tasks k' = (tasks k)(current k := (tasks k (current k))\<lparr>t_page_dir := dir\<rparr>)" "current k' = current k"
    "task_ring k' = task_ring k" "enabled k' = enabled k" "kernel_dir k' = kernel_dir k" "heap k' = heap k"
    "cr3 k' = (if dir = 0 then kernel_dir k else dir)"
    using ok(2) by (simp_all add: k'_def task_set_address_space_def switch_space_def paging_switch_def Let_def)
  have "ring k ts" using ok(1) by (simp add: sched_ok_def)
  then have "ring k' ts" by (rule ring_cong) (simp_all add: k')
  then have "sched_inv k' ts" using assms by (auto simp: sched_inv_def sched_ok_def k' dir_of_def)
  then show ?thesis unfolding k'_def [symmetric] leads_def keeps_def using k' by simp
qed

lemma kill_leads:
  assumes inv: "sched_inv k ts"
  shows "leads hook {task_by_id i k} k ts (snd (task_kill hook i k))"
proof -
  define k1 where "k1 = snd (irq_save k)"
  have "sched_ok k ts" using inv by (simp add: sched_inv_def)
  then have k1: "sched_ok k1 ts"
    by (rule sched_ok_cong) (use \<open>sched_ok k ts\<close> in \<open>auto simp: sched_ok_def k1_def irq_save_def\<close>)
  then have "sched_ok (irq_restore fl k1) ts" for fl
    by (rule sched_ok_cong) (use k1 in \<open>auto simp: sched_ok_def\<close>)
  have same: "state_of k1 = state_of k" "current k1 = current k" "task_ring k1 = task_ring k" "keeps {task_by_id i k} k k1"
    by (simp_all add: k1_def irq_save_def keeps_def)
  then have restored: "sched_inv (irq_restore fl k1) ts" for fl
    using \<open>\<And>fl. sched_ok (irq_restore fl k1) ts\<close> inv fun_cong [OF same(1)] by (simp add: sched_inv_def)
  have by_id: "task_by_id i k1 = task_by_id i k" by (simp add: k1_def irq_save_def task_by_id_eflags)
  let ?t = "task_by_id i k1" and ?set = "\<lambda>t. set_task t (\<lambda>x. x\<lparr>t_state := TASK_FINISHED\<rparr>) k1"
  consider "i = 0" | "i \<noteq> 0" "?t = 0 \<or> state_of k1 ?t \<in> {TASK_FINISHED, TASK_BLOCKED}"
    | "i \<noteq> 0" "?t \<noteq> 0" "state_of k1 ?t \<notin> {TASK_FINISHED, TASK_BLOCKED}" by blast
  then show ?thesis
  proof cases
    case 1
    then show ?thesis using inv by (simp add: task_kill_def leads_def)
  next
    case 2
    then have "snd (task_kill hook i k) = irq_restore (eflags k) k1"
      by (auto simp: task_kill_def Let_def irq_save_def k1_def)
    then show ?thesis using restored same(4) by (simp add: leads_def)
  next
    case 3
    have "?t \<noteq> task_ring k1"
      using task_by_id_id [OF 3(2)] 3(1) k1 by (auto simp: sched_ok_def)
    then have ok: "sched_ok (?set ?t) ts" using k1 finish_ok by blast
    then have ok': "sched_ok (irq_restore fl (?set ?t)) ts" for fl
      by (rule sched_ok_cong) (use ok in \<open>auto simp: sched_ok_def\<close>)
    have eq: "snd (task_kill hook i k) = (let k2 = irq_restore (eflags k) (?set ?t)
        in if ?t = current k then task_terminate hook k2 else k2)"
      using 3 by (simp add: task_kill_def irq_save_def k1_def Let_def)
    show ?thesis
    proof (cases "?t = current k")
      case True
      let ?k2 = "irq_restore (eflags k) (?set ?t)"
      have "leads hook {current k} ?k2 ts (task_terminate hook ?k2)"
        using terminate_leads [OF ok' [of "eflags k"]] True \<open>?t \<noteq> task_ring k1\<close> same by simp
      moreover have "keeps {current k} k ?k2" using same(4) True by_id by simp
      then have "keeps {current k} ?k2 k3 \<Longrightarrow> keeps {current k} k k3" for k3 :: "'x kernel" by (simp add: keeps_def)
      ultimately have "leads hook {current k} k ts (task_terminate hook ?k2)" unfolding leads_def by blast
      then show ?thesis using True by_id by (simp add: eq Let_def)
    next
      case False
      then have "sched_inv (irq_restore (eflags k) (?set ?t)) ts"
        using ok' inv same by (auto simp: sched_inv_def fun_eq_iff)
      then show ?thesis using False same(4) by_id by (simp add: eq Let_def leads_def)
    qed
  qed
qed

end

section \<open>Creating tasks\<close>

definition ring_live :: "'x kernel \<Rightarrow> u32 list \<Rightarrow> bool" where
  "ring_live k ts \<longleftrightarrow> heap_ok (heap k) \<and> (\<forall>t\<in>set ts. \<exists>m. (unat t, m) \<in> live (heap k))"

text \<open>A new block is none of the tasks of the ring.\<close>

lemma fresh_task:
  assumes "ring_live k ts" "kmalloc sizeof_task (heap k) = Some (t, h)" "t \<noteq> 0"
  shows "t \<notin> set ts" "heap_ok h" "\<And>u. u \<in> set ts \<Longrightarrow> \<exists>m. (unat u, m) \<in> live h" "\<exists>m. (unat t, m) \<in> live h"
proof -
  have n: "sizeof_task \<le> 0xFFFFFFF8" "unat sizeof_task = 328" by (simp_all add: sizeof_task_def)
  have ok: "heap_ok (heap k)" using assms(1) by (simp add: ring_live_def)
  obtain m where m: "unat sizeof_task \<le> m" "live h = insert (unat t, m) (live (heap k))"
    "\<forall>(x, j)\<in>live (heap k). unat t + m \<le> x \<or> x + j \<le> unat t"
    using kheap.malloc_some [OF ok n(1) assms(2,3)] by blast
  show "heap_ok h" using kheap.malloc_total [OF ok, of sizeof_task] assms(2) by auto
  show "\<exists>m. (unat u, m) \<in> live h" if "u \<in> set ts" for u using that assms(1) m(2) by (auto simp: ring_live_def)
  show "\<exists>m. (unat t, m) \<in> live h" using m(2) by auto
  have "heap_ok (kfree t h) \<and> live (kfree t h) = live (heap k)"
    using kheap.malloc_release [OF ok _ n(1) assms(2)] by (simp add: sizeof_task_def)
  show "t \<notin> set ts"
  proof
    assume "t \<in> set ts"
    then obtain j where j: "(unat t, j) \<in> live (heap k)" using assms(1) by (auto simp: ring_live_def)
    then have "(unat t, j) \<in> live h" using m(2) by simp
    then have "live (kfree t h) = live h - {(unat t, j)}"
      using kheap.release_live [OF \<open>heap_ok h\<close>] assms(3) by blast
    then show False using \<open>heap_ok (kfree t h) \<and> _\<close> j by blast
  qed
qed

lemma sched_inv_splice:
  assumes inv: "sched_inv k (c # rest)" and t: "t \<notin> set (c # rest)" "t \<noteq> 0" "length rest < 64"
    and new: "t_state new = TASK_READY"
    and k': "tasks k' = (tasks k)(t := new\<lparr>t_next := t_next (tasks k c)\<rparr>, c := (tasks k c)\<lparr>t_next := t\<rparr>)"
      "current k' = current k" "task_ring k' = task_ring k" "enabled k' = enabled k" "cr3 k' = cr3 k"
      "kernel_dir k' = kernel_dir k"
  shows "sched_inv k' (c # t # rest)"
proof -
  have ok: "cycle (nexts k) (c # rest)" "c = current k" "task_ring k \<in> set (c # rest)"
    using inv by (auto simp: sched_inv_def sched_ok_def ring_def)
  have "chain (nexts k') (t_next (tasks k c)) rest c"
    using ok(1) t(1) k'(1) by (auto simp: cycle_def intro: chain_cong [where nx = "nexts k"])
  then have "ring k' (c # t # rest)"
    using ok t k' by (auto simp: ring_def cycle_def)
  then show ?thesis
    using inv t new k' ok by (auto simp: sched_inv_def sched_ok_def dir_of_def)
qed

lemma read32_write32_other:
  assumes "\<And>i j. i < 4 \<Longrightarrow> j < 4 \<Longrightarrow> a + word_of_nat i \<noteq> b + word_of_nat j"
  shows "read32 (write32 m b v) a = read32 m a"
proof -
  have "write32 m b v (a + word_of_nat i) = m (a + word_of_nat i)" if "i < 4" for i
    using assms [OF that, of 0] assms [OF that, of 1] assms [OF that, of 2] assms [OF that, of 3]
    by (simp add: write32_def)
  from this [of 0] this [of 1] this [of 2] this [of 3] show ?thesis by (simp add: read32_def)
qed

lemma slots_apart:
  assumes "x \<noteq> y" "x < 1000000" "y < 1000000"
  shows "read32 (write32 m (a - 4 * word_of_nat x) v) (a - 4 * word_of_nat y) = read32 m (a - 4 * word_of_nat y)"
proof (rule read32_write32_other)
  fix i j :: nat
  assume ij: "i < 4" "j < 4"
  have "word_of_nat (4 * x + i) \<noteq> (word_of_nat (4 * y + j) :: u32)"
  proof
    assume "word_of_nat (4 * x + i) = (word_of_nat (4 * y + j) :: u32)"
    then have "unat (word_of_nat (4 * x + i) :: u32) = unat (word_of_nat (4 * y + j) :: u32)" by simp
    moreover have "4 * x + i < 4294967296" "4 * y + j < 4294967296" using assms ij by auto
    ultimately have "4 * x + i = 4 * y + j" by (simp only: unat32_of_nat)
    then show False using assms(1) ij by presburger
  qed
  then show "a - 4 * word_of_nat y + word_of_nat i \<noteq> a - 4 * word_of_nat x + word_of_nat j"
    by (auto simp: algebra_simps)
qed

text \<open>The stack of a new thread: four zeroed registers, the flags, the entry point, \<open>task_exit\<close>.\<close>

lemma first_stack_frame:
  assumes "first_stack a exit_addr entry m = (sp, m')"
  shows "sp = a - 28" "map (\<lambda>i. read32 m' (sp + 4 * word_of_nat i)) [0..<7] = [0, 0, 0, 0, 0x202, entry, exit_addr]"
proof -
  let ?s = "\<lambda>i. a - 4 * word_of_nat i :: u32"
  have m': "m' = write32 (write32 (write32 (write32 (write32 (write32 (write32 m (?s 1) exit_addr) (?s 2) entry)
      (?s 3) 0x202) (?s 4) 0) (?s 5) 0) (?s 6) 0) (?s 7) 0" and sp: "sp = a - 28"
    using assms by (auto simp: first_stack_def)
  show "sp = a - 28" by (rule sp)
  have slot: "sp + 4 * word_of_nat i = ?s (7 - i)" if "i < 7" for i
    using that by (simp add: sp of_nat_diff algebra_simps)
  have "read32 m' (?s 7) = 0" "read32 m' (?s 6) = 0" "read32 m' (?s 5) = 0" "read32 m' (?s 4) = 0"
    "read32 m' (?s 3) = 0x202" "read32 m' (?s 2) = entry" "read32 m' (?s 1) = exit_addr"
    unfolding m' by (simp_all only: slots_apart read32_write32)
  then show "map (\<lambda>i. read32 m' (sp + 4 * word_of_nat i)) [0..<7] = [0, 0, 0, 0, 0x202, entry, exit_addr]"
    by (simp add: upt_rec sp)
qed

text \<open>What \<open>task_create_ex\<close> leaves behind when it succeeds.\<close>

definition created :: "u32 \<Rightarrow> cstring \<Rightarrow> u32 \<Rightarrow> u32 \<Rightarrow> u32 \<Rightarrow> u32 \<Rightarrow> 'x kernel \<Rightarrow> u32 \<Rightarrow> bool" where
  "created exit_addr name entry page_dir arg on_exit k t \<longleftrightarrow>
     (let x = tasks k t in
        t_state x = TASK_READY \<and> t_page_dir x = page_dir \<and> t_arg x = arg \<and> t_on_exit x = on_exit \<and>
        t_name x = copy_name (replicate TASK_NAME_MAX 0) name \<and>
        t_kernel_stack_top x = t_stack_base x + 8192 \<and> t_esp x = t_kernel_stack_top x - 28 \<and>
        map (\<lambda>i. read32 (memory k) (t_esp x + 4 * word_of_nat i)) [0..<7] =
          [0, 0, 0, 0, 0x202, entry, exit_addr])"

lemma task_create_ex_cases:
  assumes inv: "sched_inv k (c # rest)" and lv: "ring_live k (c # rest)" and room: "length rest < 64"
  obtains (null) k' where "task_create_ex ea name entry pd arg oe k = Some (0, k')"
      "sched_inv k' (c # rest)" "ring_live k' (c # rest)" "live (heap k') = live (heap k)"
  | (task) t k' where "task_create_ex ea name entry pd arg oe k = Some (next_id k, k')"
      "sched_inv k' (c # t # rest)" "ring_live k' (c # t # rest)" "t \<notin> set (c # rest)"
      "created ea name entry pd arg oe k' t" "t_id (tasks k' t) = next_id k" "next_id k' = next_id k + 1"
proof -
  have en: "enabled k" "sched_ok k (c # rest)" "c = current k" "heap_ok (heap k)"
    using inv lv by (auto simp: sched_inv_def sched_ok_def ring_def ring_live_def)
  obtain t h where mal: "kmalloc sizeof_task (heap k) = Some (t, h)" and h: "heap_ok h"
    using kheap.malloc_total [OF en(4)] by blast
  have sz: "sizeof_task \<noteq> 0" "sizeof_task \<le> 0xFFFFFFF8" by (simp_all add: sizeof_task_def)
  obtain st p where fr: "pmm_alloc_frames STACK_FRAMES (frames k) = (st, p)" by fastforce
  show ?thesis
  proof (cases "t = 0")
    case True
    have "h = heap k" using kheap.malloc_none [OF en(4) sz(2)] mal True by simp
    then have "task_create_ex ea name entry pd arg oe k = Some (0, k)"
      using en mal True by (simp add: task_create_ex_def)
    then show ?thesis using null inv lv by blast
  next
    case False
    note fresh = fresh_task [OF lv mal False]
    show ?thesis
    proof (cases "st = 0")
      case True
      let ?k = "(set_frames p (set_task t (\<lambda>_. zero_task) k))\<lparr>heap := kfree t h\<rparr>"
      have run: "task_create_ex ea name entry pd arg oe k = Some (0, ?k)"
        using en mal False fr True by (simp add: task_create_ex_def)
      have rel: "heap_ok (kfree t h) \<and> live (kfree t h) = live (heap k)"
        using kheap.malloc_release [OF en(4) sz mal] .
      have keep: "tasks ?k u = tasks k u" if "u \<in> set (c # rest)" for u using that fresh(1) by auto
      have "task_ring k \<in> set (c # rest)" using en(2) by (auto simp: sched_ok_def ring_def)
      then have "sched_ok ?k (c # rest)"
        using keep en(2,3) by (intro sched_ok_cong [OF en(2)]) (auto simp: sched_ok_def)
      moreover have "state_of ?k c = TASK_RUNNING" using keep [of c] inv en(3) by (simp add: sched_inv_def)
      ultimately show ?thesis
        using null [OF run] rel lv en(3) by (simp add: sched_inv_def ring_live_def)
    next
      case False
      obtain sp m where fs: "first_stack (st + 8192) ea entry (memory k) = (sp, m)" by fastforce
      define new where "new = zero_task\<lparr>t_stack_base := st, t_stack_frames := STACK_FRAMES, t_esp := sp,
        t_kernel_stack_top := st + 8192, t_id := next_id k, t_state := TASK_READY,
        t_page_dir := pd, t_arg := arg, t_on_exit := oe, t_name := copy_name (t_name zero_task) name\<rparr>"
      obtain k' where run: "task_create_ex ea name entry pd arg oe k = Some (next_id k, k')"
        and k': "tasks k' = (tasks k)(t := new\<lparr>t_next := t_next (tasks k c)\<rparr>, c := (tasks k c)\<lparr>t_next := t\<rparr>)"
        "current k' = current k" "task_ring k' = task_ring k" "enabled k' = enabled k" "cr3 k' = cr3 k"
        "kernel_dir k' = kernel_dir k" "heap k' = h" "memory k' = m" "next_id k' = next_id k + 1"
        using en mal \<open>t \<noteq> 0\<close> fr False fresh(1) fs
        by (auto simp: task_create_ex_def Let_def new_def STACK_FRAMES_def intro!: that)
      have "sched_inv k' (c # t # rest)"
        using inv fresh(1) \<open>t \<noteq> 0\<close> room _ k'(1-6) by (rule sched_inv_splice) (simp add: new_def)
      moreover have "ring_live k' (c # t # rest)"
        using fresh(2,3,4) k'(7) by (auto simp: ring_live_def)
      moreover have "created ea name entry pd arg oe k' t"
        using first_stack_frame [OF fs] fresh(1) k'(1,8)
        by (auto simp: created_def new_def Let_def zero_task_def)
      ultimately show ?thesis
        using task [OF run] fresh(1) k'(1,9) by (simp add: new_def)
    qed
  qed
qed

section \<open>Reaping and the heap\<close>

text \<open>
  Exit callbacks that also leave the heap alone, as \<open>program_cleanup\<close> does: then the scheduler frees
  the tasks it takes out of the ring, and no other.
\<close>

locale heap_hook = exit_hook +
  assumes hook_heap: "heap (hook f a k) = heap k"
begin

lemma reap_heap: "heap (reap hook prv d k) = kfree d (heap k)"
  by (simp add: reap_def Let_def hook_heap)

lemma scan_live:
  assumes "chain (nexts k) (t_next (tasks k scan)) todo (current k)" "scan \<notin> set todo" "distinct todo"
    "0 \<notin> set todo" "current k \<notin> set todo" "length todo \<le> n" "sched_scan hook n scan k = (nxt, k')"
    "ring_live k todo"
  shows "heap_ok (heap k')"
    and "(unat u, m) \<in> live (heap k) \<Longrightarrow> u \<notin> set todo \<or> u \<in> set (sweep (state_of k) todo) \<Longrightarrow>
      (unat u, m) \<in> live (heap k')"
proof -
  have "heap_ok (heap k') \<and> (\<forall>u m. (unat u, m) \<in> live (heap k) \<longrightarrow>
      u \<notin> set todo \<or> u \<in> set (sweep (state_of k) todo) \<longrightarrow> (unat u, m) \<in> live (heap k'))"
    using assms
  proof (induction todo arbitrary: n scan k)
    case Nil
    then show ?case by (cases n) (auto simp: ring_live_def)
  next
    case (Cons d ds)
    obtain j where n: "n = Suc j" using Cons.prems(6) by (cases n) auto
    have d: "t_next (tasks k scan) = d" "d \<noteq> current k" "d \<noteq> 0" "scan \<noteq> d" "d \<notin> set ds"
      and ds: "chain (nexts k) (t_next (tasks k d)) ds (current k)" "ring_live k ds"
      using Cons.prems by (auto simp: ring_live_def)
    consider "state_of k d = TASK_FINISHED" | "state_of k d = TASK_READY"
      | "state_of k d \<noteq> TASK_FINISHED" "state_of k d \<noteq> TASK_READY" by blast
    then show ?case
    proof cases
      case 1
      let ?k = "reap hook scan d k"
      have ts: "tasks ?k = (tasks k)(scan := (tasks k scan)\<lparr>t_next := t_next (tasks k d)\<rparr>, d := flushed (tasks k d))"
        using d by (intro reap_tasks) auto
      have st: "state_of ?k = state_of k" by (auto simp: ts fun_eq_iff)
      have cur: "current ?k = current k" using reap_frame [of scan d k] by (simp add: sched_frame_def)
      obtain m0 where "heap_ok (heap k)" "(unat d, m0) \<in> live (heap k)" using Cons.prems(8) by (auto simp: ring_live_def)
      then have h: "heap_ok (heap ?k)" "live (heap ?k) = live (heap k) - {(unat d, m0)}"
        using kheap.release_live d(3) by (simp_all add: reap_heap)
      have other: "(unat u, m) \<in> live (heap ?k)" if "(unat u, m) \<in> live (heap k)" "u \<noteq> d" for u m
        using that h(2) by (simp add: word_unat_eq_iff)
      have "\<exists>m. (unat u, m) \<in> live (heap ?k)" if "u \<in> set ds" for u
        using ds(2) other d(5) that unfolding ring_live_def by metis
      then have live: "ring_live ?k ds" using h(1) unfolding ring_live_def by simp
      have ch: "chain (nexts ?k) (t_next (tasks ?k scan)) ds (current ?k)"
        using ds Cons.prems(2,3) d by (auto simp: ts cur intro: chain_cong [where nx = "nexts k"])
      have run: "sched_scan hook j scan ?k = (nxt, k')" using Cons.prems(7) d 1 by (simp add: n)
      from Cons.IH [OF ch _ _ _ _ _ run live] Cons.prems n cur
      have ih: "heap_ok (heap k') \<and> (\<forall>u m. (unat u, m) \<in> live (heap ?k) \<longrightarrow>
          u \<notin> set ds \<or> u \<in> set (sweep (state_of k) ds) \<longrightarrow> (unat u, m) \<in> live (heap k'))"
        unfolding st by simp
      have sw: "sweep (state_of k) (d # ds) = sweep (state_of k) ds" using 1 by simp
      have "d \<notin> set (sweep (state_of k) ds)" using d(5) set_sweep by blast
      then show ?thesis unfolding sw using ih other by auto
    next
      case 2
      then have "k' = k" using Cons.prems(7) d by (auto simp: n)
      then show ?thesis using Cons.prems(8) by (auto simp: ring_live_def)
    next
      case 3
      then have run: "sched_scan hook j d k = (nxt, k')" using Cons.prems(7) d by (simp add: n)
      from Cons.IH [OF ds(1) d(5) _ _ _ _ run ds(2)] Cons.prems n 3 show ?thesis by auto
    qed
  qed
  then show "heap_ok (heap k')" "(unat u, m) \<in> live (heap k) \<Longrightarrow> u \<notin> set todo \<or> u \<in> set (sweep (state_of k) todo) \<Longrightarrow>
      (unat u, m) \<in> live (heap k')" by blast+
qed

lemma schedule_live:
  assumes ok: "sched_ok k (c # rest)" and lv: "ring_live k (c # rest)"
  shows "ring_live (task_schedule hook k) (c # sweep (due_state k) rest)"
proof -
  define fl where "fl = eflags k AND NOT 0x200"
  define kw where "kw = wake_sleepers (k\<lparr>eflags := fl\<rparr>)"
  obtain nxt k1 where scan: "sched_scan hook 64 c kw = (nxt, k1)" by fastforce
  have c: "ring k (c # rest)" "length (c # rest) \<le> 65" "c = current k" "c \<noteq> 0" "enabled k"
    using ok by (auto simp: sched_ok_def ring_def cycle_def)
  have "ring (k\<lparr>eflags := fl\<rparr>) (c # rest)" using c(1) by (rule ring_cong) simp_all
  then have kw: "kw = k\<lparr>eflags := fl, tasks := \<lambda>u. if u \<in> set (c # rest) then woken (ticks k) (tasks k u) else tasks k u\<rparr>"
    using wake_sleepers_eq [of "k\<lparr>eflags := fl\<rparr>" "c # rest"] c(2) unfolding kw_def by (simp cong: if_cong)
  have nx: "nexts kw = nexts k" and cur: "current kw = c" by (auto simp: kw c(3))
  have cyc: "chain (nexts kw) (t_next (tasks kw c)) rest (current kw)" "distinct (c # rest)" "0 \<notin> set (c # rest)"
    using c(1) unfolding nx cur by (auto simp: ring_def cycle_def fun_cong [OF nx])
  have sw: "sweep (state_of kw) rest = sweep (due_state k) rest" by (rule sweep_cong) (simp add: kw due_state_def)
  have lvw: "ring_live kw rest" using lv by (simp add: ring_live_def kw)
  have "heap_ok (heap k1)" "\<And>u m. (unat u, m) \<in> live (heap kw) \<Longrightarrow> u \<notin> set rest \<or> u \<in> set (sweep (state_of kw) rest) \<Longrightarrow>
      (unat u, m) \<in> live (heap k1)"
    using scan_live [OF cyc(1) _ _ _ _ _ scan lvw] cyc(2,3) c(2) cur by auto
  note k1 = this [unfolded sw]
  have "\<exists>m. (unat u, m) \<in> live (heap k1)" if u: "u \<in> set (c # sweep (due_state k) rest)" for u
  proof -
    have "u \<in> set (c # rest)" using u set_sweep [of "due_state k" rest] by auto
    then obtain m where "(unat u, m) \<in> live (heap kw)" using lv by (auto simp: ring_live_def kw)
    moreover have "u \<notin> set rest \<or> u \<in> set (sweep (due_state k) rest)" using u cyc(2) by auto
    ultimately show ?thesis using k1(2) by blast
  qed
  then have "ring_live k1 (c # sweep (due_state k) rest)" using k1(1) by (simp add: ring_live_def)
  moreover have "heap (task_schedule hook k) = heap k1"
    using scan c(3-5) by (simp add: task_schedule_def irq_save_def kw_def fl_def)
  ultimately show ?thesis by (simp add: ring_live_def)
qed

lemma leads_safe:
  assumes "leads hook X k ts k'" "ring_live k ts"
  shows "\<exists>ts'. sched_inv k' ts' \<and> ring_live k' ts'"
  using assms(1) unfolding leads_def
proof
  assume "sched_inv k' ts \<and> keeps X k k'"
  then show ?thesis using assms(2) by (auto simp: ring_live_def keeps_def)
next
  assume "\<exists>k2. k' = task_schedule hook k2 \<and> sched_ok k2 ts \<and> keeps X k k2"
  then obtain k2 where k2: "k' = task_schedule hook k2" "sched_ok k2 ts" "heap k2 = heap k" by (auto simp: keeps_def)
  obtain rest where ts: "ts = current k2 # rest" using sched_ok_Cons [OF k2(2)] by blast
  have "ring_live k2 ts" using assms(2) k2(3) by (simp add: ring_live_def)
  then have "ring_live k' (rotate_to (chosen k2 rest) (current k2 # sweep (due_state k2) rest))"
    using schedule_live k2(1,2) ts unfolding ring_live_def set_rotate_to by simp
  then show ?thesis using schedule_inv k2(1,2) ts by blast
qed

end

section \<open>Histories\<close>

text \<open>
  What can happen to the scheduler after \<open>task_init\<close>.  The last three steps have a condition that the
  code does not check: task 0 does not end itself, which would leave nothing to fall back on, and a task
  is created only while there are at most 64, since the loops over the ring stop after 65.
\<close>

inductive sched_step :: "(u32 \<Rightarrow> u32 \<Rightarrow> 'x kernel \<Rightarrow> 'x kernel) \<Rightarrow> 'x kernel \<Rightarrow> 'x kernel \<Rightarrow> bool"
  for hook :: "u32 \<Rightarrow> u32 \<Rightarrow> 'x kernel \<Rightarrow> 'x kernel" where
  timer: "sched_step hook k (task_schedule hook (timer_handler k))"
| yield: "sched_step hook k (task_yield hook k)"
| block: "sched_step hook k (task_block hook k)"
| sleep: "task_sleep hook n k = Slept k' \<Longrightarrow> sched_step hook k k'"
| unblock: "sched_step hook k (task_unblock t k)"
| kill: "sched_step hook k (snd (task_kill hook i k))"
| address_space: "sched_step hook k (task_set_address_space dir k)"
| terminate: "current k \<noteq> task_ring k \<Longrightarrow> sched_step hook k (task_terminate hook k)"
| exit: "current k \<noteq> task_ring k \<Longrightarrow> sched_step hook k (task_exit hook k)"
| create: "task_create_ex ea name entry pd arg oe k = Some (i, k') \<Longrightarrow> ring k ts \<Longrightarrow> length ts \<le> 64 \<Longrightarrow>
    sched_step hook k k'"

inductive_cases sched_stepE: "sched_step hook k k'"

lemma chain_unique: "chain nx a xs c \<Longrightarrow> chain nx a ys c \<Longrightarrow> c \<notin> set xs \<Longrightarrow> c \<notin> set ys \<Longrightarrow> xs = ys"
proof (induction xs arbitrary: a ys)
  case Nil
  then show ?case by (cases ys) auto
next
  case (Cons x xs)
  then show ?case by (cases ys) auto
qed

lemma ring_unique: "ring k ts \<Longrightarrow> ring k ts' \<Longrightarrow> ts = ts'"
  by (cases ts; cases ts') (auto simp: ring_def cycle_def intro: chain_unique)

lemma task_init_inv:
  assumes "task_init e b = Some k" "enabled k" "\<not> enabled b" "next_id b = 0" "cr3 b = kernel_dir b"
  shows "sched_inv k [current k]"
  using assms by (auto simp: task_init_def sched_inv_def sched_ok_def ring_def cycle_def dir_of_def zero_task_def
      Let_def split: option.splits if_splits)

lemma task_init_live:
  assumes "task_init e b = Some k" "enabled k" "\<not> enabled b" "heap_ok (heap b)"
  shows "ring_live k [current k]"
proof -
  obtain t h where t: "kmalloc sizeof_task (heap b) = Some (t, h)" "t \<noteq> 0" "heap k = h" "current k = t"
    using assms(1-3) by (auto simp: task_init_def split: option.splits if_splits)
  have "ring_live b []" using assms(4) by (simp add: ring_live_def)
  from fresh_task [OF this t(1,2)] show ?thesis using t(3,4) by (simp add: ring_live_def)
qed

context heap_hook
begin

lemma step_safe:
  assumes "sched_step hook k k'" "sched_inv k ts" "ring_live k ts"
  shows "\<exists>ts'. sched_inv k' ts' \<and> ring_live k' ts'"
proof (cases "\<exists>X. leads hook X k ts k'")
  case True
  then show ?thesis using leads_safe assms(3) by blast
next
  case False
  have ok: "sched_ok k ts" using assms(2) by (simp add: sched_inv_def)
  from assms(1) show ?thesis
  proof cases
    case (create ea name entry pd arg oe i us)
    have us: "us = ts" using ring_unique create(2) ok by (auto simp: sched_ok_def)
    obtain c rest where ts: "ts = c # rest" using sched_ok_Cons [OF ok] by blast
    have inv: "sched_inv k (c # rest)" "ring_live k (c # rest)" "length rest < 64"
      using assms(2,3) create(3) us ts by simp_all
    from inv show ?thesis
      by (rule task_create_ex_cases [of k c rest ea name entry pd arg oe]) (use create(1) in auto)
  qed (use False assms(2) ok timer_leads yield_leads block_leads sleep_leads unblock_leads kill_leads
      address_space_leads terminate_leads exit_leads in metis)+
qed

lemma steps_safe:
  "(sched_step hook)\<^sup>*\<^sup>* k k' \<Longrightarrow> sched_inv k ts \<Longrightarrow> ring_live k ts \<Longrightarrow> \<exists>ts'. sched_inv k' ts' \<and> ring_live k' ts'"
  by (induction arbitrary: ts rule: converse_rtranclp_induct) (use step_safe in blast)+

end

context exit_hook
begin

text \<open>Round robin: each timer interrupt brings a ready task strictly closer to the front of the ring.\<close>

lemma next_ready_before:
  "st t = TASK_READY \<Longrightarrow> \<exists>n. next_ready st (xs @ t # ys) = Some n \<and>
     (n = t \<or> (\<exists>xs1 xs2. xs = xs1 @ n # xs2 \<and> sweep st (xs @ t # ys) = sweep st xs1 @ n # xs2 @ t # ys))"
proof (induction xs)
  case (Cons x xs)
  show ?case
  proof (cases "st x = TASK_READY")
    case True
    then have "x # xs = [] @ x # xs" "sweep st ((x # xs) @ t # ys) = sweep st [] @ x # xs @ t # ys" by simp_all
    moreover have "next_ready st ((x # xs) @ t # ys) = Some x" using True by simp
    ultimately show ?thesis by blast
  next
    case False
    obtain n where n: "next_ready st (xs @ t # ys) = Some n" "n = t \<or> (\<exists>xs1 xs2. xs = xs1 @ n # xs2 \<and>
        sweep st (xs @ t # ys) = sweep st xs1 @ n # xs2 @ t # ys)" using Cons by blast
    from n(2) show ?thesis
    proof
      assume "\<exists>xs1 xs2. xs = xs1 @ n # xs2 \<and> sweep st (xs @ t # ys) = sweep st xs1 @ n # xs2 @ t # ys"
      then obtain xs1 xs2 where "xs = xs1 @ n # xs2" "sweep st (xs @ t # ys) = sweep st xs1 @ n # xs2 @ t # ys"
        by blast
      then have "x # xs = (x # xs1) @ n # xs2"
        "sweep st ((x # xs) @ t # ys) = sweep st (x # xs1) @ n # xs2 @ t # ys" using False by auto
      moreover have "next_ready st ((x # xs) @ t # ys) = Some n" using False n(1) by simp
      ultimately show ?thesis by blast
    qed (use False n(1) in auto)
  qed
qed auto

lemma timer_progress:
  assumes inv: "sched_inv k (c # xs @ t # ys)" and ready: "state_of k t = TASK_READY"
  defines "k' \<equiv> task_schedule hook (timer_handler k)"
  shows "current k' = t \<or> (\<exists>c' xs' ys'. sched_inv k' (c' # xs' @ t # ys') \<and> length xs' < length xs \<and>
    state_of k' t = TASK_READY)"
proof -
  let ?k = "timer_handler k" and ?st = "due_state (timer_handler k)" and ?rest = "xs @ t # ys"
  have ok: "sched_ok ?k (c # ?rest)" using inv timer_handler_ok [of k "c # ?rest"] by (simp add: sched_inv_def)
  have d: "distinct (c # ?rest)" using ok by (auto simp: sched_ok_def ring_def cycle_def)
  have rd: "?st t = TASK_READY" using ready by (simp add: due_state_def woken_state timer_handler_def)
  obtain n where n: "next_ready ?st ?rest = Some n" "n = t \<or> (\<exists>xs1 xs2. xs = xs1 @ n # xs2 \<and>
      sweep ?st ?rest = sweep ?st xs1 @ n # xs2 @ t # ys)" using next_ready_before [of ?st t, OF rd] by blast
  have ch: "chosen ?k ?rest = n" using n(1) by (simp add: chosen_def)
  note sp = schedule_spec [OF ok, unfolded ch]
  from n(2) show ?thesis
  proof
    assume "\<exists>xs1 xs2. xs = xs1 @ n # xs2 \<and> sweep ?st ?rest = sweep ?st xs1 @ n # xs2 @ t # ys"
    then obtain xs1 xs2 where x: "xs = xs1 @ n # xs2" "sweep ?st ?rest = sweep ?st xs1 @ n # xs2 @ t # ys" by blast
    have "n \<notin> set (c # sweep ?st xs1)" using d x(1) set_sweep [of ?st xs1] by auto
    then have "rotate_to n (c # sweep ?st ?rest) = n # xs2 @ t # ys @ c # sweep ?st xs1"
      using rotate_to_split [of n "c # sweep ?st xs1" "xs2 @ t # ys"] x(2) by simp
    then have "sched_inv k' (n # xs2 @ t # ys @ c # sweep ?st xs1)"
      using schedule_inv [OF ok] unfolding ch k'_def by simp
    moreover have "state_of k' t = TASK_READY"
      using sp(10) [of t] rd d x by (auto simp: k'_def)
    moreover have "length xs2 < length xs" using x(1) by simp
    ultimately show ?thesis by blast
  qed (use sp(1) in \<open>simp add: k'_def\<close>)
qed

lemma round_robin_reaches:
  assumes "sched_inv k (c # xs @ t # ys)" "state_of k t = TASK_READY"
  shows "\<exists>m \<le> Suc (length xs). current (((task_schedule hook \<circ> timer_handler) ^^ m) k) = t"
  using assms
proof (induction "length xs" arbitrary: k c xs ys rule: less_induct)
  case less
  let ?f = "task_schedule hook \<circ> timer_handler"
  from timer_progress [OF less.prems] show ?case
  proof
    assume "current (task_schedule hook (timer_handler k)) = t"
    then show ?thesis by (intro exI [of _ 1]) simp
  next
    assume "\<exists>c' xs' ys'. sched_inv (task_schedule hook (timer_handler k)) (c' # xs' @ t # ys') \<and>
      length xs' < length xs \<and> state_of (task_schedule hook (timer_handler k)) t = TASK_READY"
    then obtain c' xs' ys' where x: "sched_inv (?f k) (c' # xs' @ t # ys')" "length xs' < length xs"
      "state_of (?f k) t = TASK_READY" by auto
    from less.hyps [OF x(2,1,3)] obtain m where "m \<le> Suc (length xs')" "current ((?f ^^ m) (?f k)) = t" by blast
    then show ?thesis using x(2) by (intro exI [of _ "Suc m"]) (simp add: funpow_Suc_right del: funpow.simps)
  qed
qed

end

text \<open>Threads of the kernel itself have no exit callback.\<close>

interpretation no_hook: heap_hook "\<lambda>_ _ k. k"
  by unfold_locales simp_all

section \<open>Rings that are too long\<close>

text \<open>
  Nothing bounds the number of tasks, but the scan of \<open>task_schedule\<close> looks at 64 of them.  If the 64
  tasks after the current one are blocked, a ready task behind them never runs.
\<close>

lemma wake_loop_kept:
  "nexts (wake_loop n now t k) = nexts k \<and> current (wake_loop n now t k) = current k \<and>
   enabled (wake_loop n now t k) = enabled k \<and>
   (\<forall>u. state_of k u \<noteq> TASK_SLEEPING \<longrightarrow> state_of (wake_loop n now t k) u = state_of k u)"
proof (induction n arbitrary: t k)
  case 0
  show ?case by (subst (1 2 3 4) wake_loop.simps) (auto simp: Let_def)
next
  case (Suc n)
  let ?k = "if t_state (tasks k t) = TASK_SLEEPING \<and> now \<ge> t_wake_tick (tasks k t)
    then set_task t (\<lambda>x. x\<lparr>t_state := TASK_READY\<rparr>) k else k"
  have k: "nexts ?k = nexts k" "current ?k = current k" "enabled ?k = enabled k"
    "\<And>u. state_of k u \<noteq> TASK_SLEEPING \<Longrightarrow> state_of ?k u = state_of k u" by auto
  have "wake_loop (Suc n) now t k = (if t_next (tasks ?k t) \<noteq> task_ring ?k then wake_loop n now (t_next (tasks ?k t)) ?k else ?k)"
    by (subst wake_loop.simps) (simp add: Let_def)
  then have eq: "wake_loop (Suc n) now t k = ?k \<or> wake_loop (Suc n) now t k = wake_loop n now (t_next (tasks ?k t)) ?k" by meson
  note ih = Suc.IH [of "t_next (tasks ?k t)" ?k, unfolded k(1-3)]
  from eq show ?case
  proof
    assume e: "wake_loop (Suc n) now t k = ?k"
    show ?thesis unfolding e using k by blast
  next
    assume e: "wake_loop (Suc n) now t k = wake_loop n now (t_next (tasks ?k t)) ?k"
    show ?thesis unfolding e using ih k(4) by metis
  qed
qed

definition blocked_run :: "'x kernel \<Rightarrow> u32 list \<Rightarrow> u32 \<Rightarrow> bool" where
  "blocked_run k xs t \<longleftrightarrow> enabled k \<and> current k \<noteq> 0 \<and> state_of k (current k) = TASK_RUNNING \<and> t \<noteq> current k \<and>
     state_of k t = TASK_READY \<and> chain (nexts k) (t_next (tasks k (current k))) xs t \<and> length xs = 64 \<and>
     (\<forall>x\<in>set xs. x \<noteq> current k \<and> state_of k x = TASK_BLOCKED)"

lemma scan_blocked:
  assumes "chain (nexts k) (t_next (tasks k scan)) xs t" "length xs = n"
    "\<forall>x\<in>set xs. x \<noteq> current k \<and> state_of k x = TASK_BLOCKED"
  shows "sched_scan hook n scan k = (0, k)"
  using assms
proof (induction xs arbitrary: n scan)
  case (Cons x xs)
  then obtain m where "n = Suc m" "length xs = m" by auto
  then show ?case using Cons.IH [of x m] Cons.prems by simp
qed simp

lemma blocked_run_step:
  assumes "blocked_run k xs t"
  shows "current (task_schedule hook (timer_handler k)) = current k \<and>
    blocked_run (task_schedule hook (timer_handler k)) xs t"
proof -
  define k0 where "k0 = timer_handler k\<lparr>eflags := eflags k AND NOT 0x200\<rparr>"
  define kw where "kw = wake_sleepers k0"
  have k0: "nexts k0 = nexts k" "current k0 = current k" "enabled k0 = enabled k" "state_of k0 = state_of k"
    by (simp_all add: k0_def timer_handler_def)
  have kw: "nexts kw = nexts k" "current kw = current k" "enabled kw = enabled k"
    "\<And>u. state_of k u \<noteq> TASK_SLEEPING \<Longrightarrow> state_of kw u = state_of k u"
    using wake_loop_kept [of 64 "timer_get_ticks k0" "task_ring k0" k0] k0
    by (auto simp: kw_def wake_sleepers_def fun_eq_iff)
  have run: "blocked_run kw xs t" using assms kw by (auto simp: blocked_run_def fun_eq_iff)
  have "sched_scan hook 64 (current k) kw = (0, kw)"
    using run kw(2) by (intro scan_blocked) (auto simp: blocked_run_def)
  then have "task_schedule hook (timer_handler k) = irq_restore (eflags k) kw"
    using assms run kw(2) by (simp add: task_schedule_def irq_save_def blocked_run_def kw_def k0_def timer_handler_def)
  then show ?thesis using run kw(2) by (simp add: blocked_run_def)
qed

theorem long_ring_starves:
  assumes "blocked_run k xs t"
  shows "current (((task_schedule hook \<circ> timer_handler) ^^ m) k) = current k \<and>
    blocked_run (((task_schedule hook \<circ> timer_handler) ^^ m) k) xs t"
proof (induction m)
  case (Suc m)
  then show ?case
    using blocked_run_step [of "((task_schedule hook \<circ> timer_handler) ^^ m) k" xs t hook]
    unfolding funpow.simps(2) comp_def [of _ "_ ^^ m"] comp_apply [of "task_schedule hook"] by metis
qed (simp add: assms)

section \<open>Properties\<close>

text \<open>
  (C12) \<open>task_schedule\<close> on a ring of at most 65 tasks (a bound the code relies on and does not enforce,
  \<open>long_ring_starves\<close>): the task it switches to is the first one after
  the current task that is ready once the sleepers that are due have been woken; with none, the
  current task if it is still running, and task 0 otherwise.  The finished tasks it passes are
  unlinked and the others stay in the ring in their order; the chosen task is the only one that is
  running, and its page directory is the one loaded.  After a switch the TSS holds the kernel
  stack of the chosen task and \<open>current_uctx\<close> points into it.
\<close>

theorem task_schedule_picks:
  assumes "exit_hook hook" "sched_ok k (c # rest)"
  shows "let k' = task_schedule hook k; n = chosen k rest; ts = rotate_to n (c # sweep (due_state k) rest) in
    current k' = n \<and> ring k' ts \<and> (\<forall>t\<in>set ts. state_of k' t = TASK_RUNNING \<longleftrightarrow> t = n) \<and>
    cr3 k' = dir_of k' n \<and>
    (n \<noteq> c \<longrightarrow> switches k' = switches k + 1 \<and> esp0 k' = t_kernel_stack_top (tasks k n) \<and>
       current_uctx k' = uctx_of n \<or> t_kernel_stack_top (tasks k n) = 0)"
proof -
  note inv = exit_hook.schedule_inv [OF assms] and sp = exit_hook.schedule_spec [OF assms]
  show ?thesis
    unfolding Let_def using inv sp(1,12,13) by (auto simp: sched_inv_def sched_ok_def)
qed

definition example_task :: "u32 \<Rightarrow> task_state \<Rightarrow> u32 \<Rightarrow> u32 \<Rightarrow> task" where
  "example_task i st nx top_of_stack = zero_task\<lparr>t_id := i, t_state := st, t_next := nx, t_kernel_stack_top := top_of_stack\<rparr>"

definition example_paging :: paging where
  "example_paging = \<lparr>slots = (\<lambda>_. 0), active_pdpt = 0x8000, kernel_pdpt = 0x8000, kernel_pd = 0x9000,
     mapped_limit = 0x400000, kernel_pd_entries = 2, nx_supported = True, fault_resume_eip = 0,
     table_frames = example_pmm, r_efer = 0x800, r_cr0 = 0x80010001, r_cr3 = 0x8000, r_cr4 = 0x20\<rparr>"

definition example_kernel :: "unit kernel" where
  "example_kernel = \<lparr>tasks = (\<lambda>_. zero_task)(0x1000 := example_task 0 TASK_READY 0x4000 0x9000,
       0x2000 := example_task 1 TASK_RUNNING 0x3000 0xA000,
       0x3000 := (example_task 2 TASK_SLEEPING 0x5000 0xB000)\<lparr>t_wake_tick := 70\<rparr>,
       0x4000 := (example_task 3 TASK_SLEEPING 0x2000 0xC000)\<lparr>t_wake_tick := 50\<rparr>,
       0x5000 := example_task 4 TASK_FINISHED 0x1000 0xD000),
     current = 0x2000, task_ring = 0x1000, next_id = 5, enabled = True, switches = 7, current_uctx = 0x2030,
     heap = example_heap, mm = example_paging, memory = (\<lambda>_. 0), esp0 = 0xA000, ticks = 60, eflags = 0x202,
     console = [], ext = ()\<rparr>"

lemma example_kernel_inv: "sched_inv example_kernel [0x2000, 0x3000, 0x5000, 0x1000, 0x4000]"
  by (simp add: sched_inv_def sched_ok_def ring_def cycle_def dir_of_def example_kernel_def example_task_def
      zero_task_def example_paging_def)

theorem task_schedule_picks_witness:
  "current (task_schedule (\<lambda>_ _ k. k) example_kernel) = 0x1000 \<and>
   ring (task_schedule (\<lambda>_ _ k. k) example_kernel) [0x1000, 0x4000, 0x2000, 0x3000]"
proof -
  have ok: "sched_ok example_kernel (0x2000 # [0x3000, 0x5000, 0x1000, 0x4000])"
    using example_kernel_inv by (simp add: sched_inv_def)
  have st: "due_state example_kernel 0x3000 = TASK_SLEEPING" "due_state example_kernel 0x5000 = TASK_FINISHED"
    "due_state example_kernel 0x1000 = TASK_READY" "due_state example_kernel 0x4000 = TASK_READY"
    by (simp_all add: due_state_def woken_def example_kernel_def example_task_def)
  show ?thesis
    using task_schedule_picks [OF no_hook.exit_hook_axioms ok]
    by (simp add: st chosen_def rotate_to_def Let_def)
qed

text \<open>
  (C13) After \<open>task_init\<close>, whatever sequence follows of timer interrupts, yields, blocks, sleeps, wakeups,
  kills, changes of address space, exits of tasks other than task 0, and creations while there are at most
  64 tasks (task 0 included), with exit callbacks that leave the tasks, the scheduler's globals and the
  heap alone, as \<open>program_cleanup\<close> does: the tasks form one ring through \<open>current\<close> and task 0, at most 65
  of them, each of them a block of a consistent heap, so no task of the ring is ever freed or
  handed out again; the current task is the only one running, task 0 is ready or running, so there is
  always a task to switch to, and the loaded page directory is the current task's.
\<close>

theorem scheduler_history_safe:
  assumes "heap_hook hook" "task_init e b = Some k0" "enabled k0" "\<not> enabled b" "next_id b = 0"
    "cr3 b = kernel_dir b" "heap_ok (heap b)" "(sched_step hook)\<^sup>*\<^sup>* k0 k"
  shows "\<exists>ts. ring k ts \<and> length ts \<le> 65 \<and> enabled k \<and> ring_live k ts \<and>
    (\<forall>t\<in>set ts. state_of k t = TASK_RUNNING \<longleftrightarrow> t = current k) \<and>
    state_of k (task_ring k) \<in> {TASK_READY, TASK_RUNNING} \<and> cr3 k = dir_of k (current k)"
  using heap_hook.steps_safe [OF assms(1,8) task_init_inv [OF assms(2-6)] task_init_live [OF assms(2-4,7)]]
  by (auto simp: sched_inv_def sched_ok_def)

definition boot_kernel :: "unit kernel" where
  "boot_kernel = example_kernel\<lparr>tasks := \<lambda>_. zero_task, current := 0, task_ring := 0, next_id := 0,
     enabled := False\<rparr>"

lemma boot_kernel_init:
  "\<exists>k. task_init 0x9000 boot_kernel = Some k \<and> enabled k \<and> ring_live k [current k]"
proof -
  have ok: "heap_ok example_heap" using example_heap_rep by (auto simp: heap_ok_def)
  have "seg_alloc 328 [(1048552, True)] = Some (0, [(328, False), (1048200, True)])"
    by (simp add: seg_alloc_def seg_fits_def seg_split_def)
  then have fit: "seg_alloc (unat (ALIGN_UP sizeof_task)) [(1048552, True)] \<noteq> None"
    by (simp add: sizeof_task_def ALIGN_UP_nat)
  have sz: "sizeof_task \<noteq> 0" "sizeof_task \<le> 0xFFFFFFF8" by (simp_all add: sizeof_task_def)
  from example_heap_rep sz have "\<exists>p h. kmalloc sizeof_task example_heap = Some (p, h) \<and> p \<noteq> 0"
    by (cases rule: kmalloc_cases) (use fit in \<open>auto simp: seg_alloc_None\<close>)
  then obtain p h where p: "kmalloc sizeof_task example_heap = Some (p, h)" "p \<noteq> 0" by fastforce
  have "ring_live (boot_kernel :: unit kernel) []" using ok by (simp add: ring_live_def boot_kernel_def example_kernel_def)
  from fresh_task [OF this, of p h] p have "heap_ok h" "\<exists>m. (unat p, m) \<in> live h"
    by (simp_all add: boot_kernel_def example_kernel_def)
  then show ?thesis using p by (simp add: task_init_def boot_kernel_def example_kernel_def ring_live_def)
qed

theorem scheduler_history_safe_witness:
  "\<exists>k0 i k1 k ts. task_init 0x9000 boot_kernel = Some k0 \<and>
     task_create_ex 0x5000 [0x61] 0x6000 0 0 0 k0 = Some (i, k1) \<and>
     k = task_yield (\<lambda>_ _ k. k) (task_schedule (\<lambda>_ _ k. k) (timer_handler k1)) \<and> ring k ts \<and> ring_live k ts"
proof -
  obtain k0 where k0: "task_init 0x9000 boot_kernel = Some k0" "enabled k0" "ring_live k0 [current k0]"
    using boot_kernel_init by blast
  have b: "\<not> enabled boot_kernel" "next_id boot_kernel = 0" "cr3 boot_kernel = kernel_dir boot_kernel" "heap_ok (heap boot_kernel)"
    using example_heap_rep by (auto simp: boot_kernel_def example_kernel_def example_paging_def heap_ok_def)
  have inv: "sched_inv k0 [current k0]" using k0(1,2) b(1-3) by (rule task_init_inv)
  obtain i k1 where k1: "task_create_ex 0x5000 [0x61] 0x6000 0 0 0 k0 = Some (i, k1)"
    using inv k0(3) by (rule task_create_ex_cases [where ea = "0x5000" and name = "[0x61]" and entry = "0x6000" and
      pd = 0 and arg = 0 and oe = 0]) (use that in simp_all)
  let ?s = "sched_step (\<lambda>_ _ k. k)" and ?k = "task_schedule (\<lambda>_ _ k. k) (timer_handler k1)"
  have "?s k0 k1" using k1 inv by (auto simp: sched_inv_def sched_ok_def intro: sched_step.create)
  moreover have "?s k1 ?k" "?s ?k (task_yield (\<lambda>_ _ k. k) ?k)" by (rule sched_step.timer sched_step.yield)+
  ultimately have "?s\<^sup>*\<^sup>* k0 (task_yield (\<lambda>_ _ k. k) ?k)" by (meson r_into_rtranclp rtranclp.rtrancl_into_rtrancl)
  from scheduler_history_safe [OF no_hook.heap_hook_axioms k0(1,2) b this] k0(1) k1 show ?thesis by auto
qed

text \<open>A ring of 66 tasks: the current one, 64 that are blocked, and one that is ready and never runs.\<close>

definition long_ring :: "unit kernel" where
  "long_ring = example_kernel\<lparr>tasks := \<lambda>a. example_task a
       (if a = 0x1000 then TASK_RUNNING else if a = 0x42000 then TASK_READY else TASK_BLOCKED)
       (if a = 0x42000 then 0x1000 else a + 0x1000) 0x9000,
     current := 0x1000, task_ring := 0x1000\<rparr>"

lemma chain_upwards:
  assumes "\<And>i. i < n \<Longrightarrow> nx (a + 0x1000 * word_of_nat i) = a + 0x1000 * word_of_nat (Suc i)"
  shows "chain nx a (map (\<lambda>i. a + 0x1000 * word_of_nat i) [0..<n]) (a + 0x1000 * word_of_nat n)"
  using assms by (induction n) simp_all

lemma long_ring_blocked: "\<exists>xs. blocked_run long_ring xs 0x42000"
proof -
  let ?a = "\<lambda>i. 0x2000 + 0x1000 * word_of_nat i :: u32"
  have u: "unat (?a i) = 0x2000 + 0x1000 * i" if "i \<le> 64" for i
  proof -
    have m: "unat (0x1000 * word_of_nat i :: u32) = 0x1000 * i"
      using that unat_word_ariths(2) [of "0x1000 :: u32" "word_of_nat i"] by (simp add: unat32_of_nat)
    then show ?thesis using that unat32_plus [of "0x2000" "0x1000 * word_of_nat i"] by simp
  qed
  have ne: "?a i \<noteq> 0x1000 \<and> ?a i \<noteq> 0x42000" if "i < 64" for i
  proof -
    have "unat (?a i) \<noteq> unat (0x1000 :: u32)" "unat (?a i) \<noteq> unat (0x42000 :: u32)" using u [of i] that by simp_all
    then show ?thesis by metis
  qed
  have "nexts long_ring (?a i) = ?a (Suc i)" if "i < 64" for i
    using ne [OF that] by (simp add: long_ring_def example_task_def algebra_simps)
  then have "chain (nexts long_ring) 0x2000 (map ?a [0..<64]) (?a 64)" by (rule chain_upwards)
  moreover have "\<forall>x\<in>set (map ?a [0..<64]). x \<noteq> current long_ring \<and> state_of long_ring x = TASK_BLOCKED"
    using ne by (auto simp: long_ring_def example_task_def)
  moreover have "enabled long_ring" "current long_ring \<noteq> 0" "state_of long_ring (current long_ring) = TASK_RUNNING"
    "0x42000 \<noteq> current long_ring" "state_of long_ring 0x42000 = TASK_READY"
    "t_next (tasks long_ring (current long_ring)) = 0x2000" "?a 64 = 0x42000" "length (map ?a [0..<64]) = 64"
    by (simp_all add: long_ring_def example_task_def example_kernel_def)
  ultimately have "blocked_run long_ring (map ?a [0..<64]) 0x42000" unfolding blocked_run_def by metis
  then show ?thesis by blast
qed

text \<open>
  (C14) Round robin is fair in a ring of at most 65 tasks (a bound that \<open>task_create_ex\<close> does not
  enforce: the scan gives up after 64 tasks, \<open>long_ring_starves\<close>): a ready task with \<open>n\<close> tasks between the current one and it runs after
  at most \<open>n + 1\<close> timer interrupts, whatever the other tasks are doing.
\<close>

theorem round_robin_fair:
  assumes "exit_hook hook" "sched_inv k (c # xs @ t # ys)" "state_of k t = TASK_READY"
  shows "\<exists>m \<le> Suc (length xs). current (((task_schedule hook \<circ> timer_handler) ^^ m) k) = t"
  by (rule exit_hook.round_robin_reaches [OF assms])

theorem round_robin_fair_witness:
  "\<exists>m \<le> 3. current (((task_schedule (\<lambda>_ _ k. k) \<circ> timer_handler) ^^ m) example_kernel) = 0x1000"
proof -
  have "sched_inv example_kernel (0x2000 # [0x3000, 0x5000] @ 0x1000 # [0x4000])"
    using example_kernel_inv by simp
  moreover have "state_of example_kernel 0x1000 = TASK_READY" by (simp add: example_kernel_def example_task_def)
  ultimately have "\<exists>m \<le> Suc (length [0x3000 :: u32, 0x5000]).
      current (((task_schedule (\<lambda>_ _ k. k) \<circ> timer_handler) ^^ m) example_kernel) = 0x1000"
    by (rule round_robin_fair [OF no_hook.exit_hook_axioms])
  then show ?thesis by (simp only: list.size numeral_nat add_0 add_Suc)
qed

text \<open>
  \<open>task_create_ex\<close> terminates and either returns 0, with the ring and the heap's blocks as they
  were, or links a new task, in memory no task of the ring uses, directly after the current one:
  ready, with the address space, argument and exit callback it was given, and with a stack from
  which the first switch restores zeroed registers and interrupts enabled, enters \<open>entry\<close> and
  returns to \<open>task_exit\<close>.
\<close>

theorem task_create_ex_correct:
  assumes "sched_inv k (c # rest)" "ring_live k (c # rest)" "length rest < 64"
  shows "\<exists>i k'. task_create_ex ea name entry pd arg oe k = Some (i, k') \<and>
    (i = 0 \<and> sched_inv k' (c # rest) \<and> live (heap k') = live (heap k) \<or>
     (\<exists>t. i = next_id k \<and> t_id (tasks k' t) = i \<and> t \<notin> set (c # rest) \<and> sched_inv k' (c # t # rest) \<and>
        ring_live k' (c # t # rest) \<and> created ea name entry pd arg oe k' t))"
  by (rule task_create_ex_cases [OF assms, of ea name entry pd arg oe]) blast+

theorem task_create_ex_correct_witness:
  "\<exists>k0 i k'. task_init 0x9000 boot_kernel = Some k0 \<and>
     task_create_ex 0x5000 [0x61] 0x6000 0 0 0 k0 = Some (i, k') \<and> (\<exists>ts. sched_inv k' ts)"
proof -
  obtain k0 where k0: "task_init 0x9000 boot_kernel = Some k0" "enabled k0" "ring_live k0 [current k0]"
    using boot_kernel_init by blast
  have "sched_inv k0 [current k0]"
    using k0(1,2) by (rule task_init_inv) (simp_all add: boot_kernel_def example_kernel_def example_paging_def)
  from task_create_ex_correct [OF this k0(3), where ea = "0x5000" and name = "[0x61]" and entry = "0x6000" and
      pd = 0 and arg = 0 and oe = 0] k0(1) show ?thesis by auto
qed

text \<open>
  \<open>task_kill\<close>: 0 for task 0, an unknown id or a task already finished, and \<open>-1\<close> for a blocked
  task, in all these cases with the tasks untouched; otherwise 1, with the named task finished.
\<close>

theorem task_kill_result:
  "let t = task_by_id i k in
     if i = 0 \<or> t = 0 \<or> state_of k t = TASK_FINISHED
     then fst (task_kill hook i k) = 0 \<and> tasks (snd (task_kill hook i k)) = tasks k
     else if state_of k t = TASK_BLOCKED
     then fst (task_kill hook i k) = -1 \<and> tasks (snd (task_kill hook i k)) = tasks k
     else fst (task_kill hook i k) = 1 \<and>
       (let ts = (tasks k)(t := (tasks k t)\<lparr>t_state := TASK_FINISHED\<rparr>)
        in if t = current k
           then \<exists>k2. snd (task_kill hook i k) = task_terminate hook k2 \<and> tasks k2 = ts \<and> current k2 = current k
           else tasks (snd (task_kill hook i k)) = ts \<and> current (snd (task_kill hook i k)) = current k)"
  by (auto simp: task_kill_def irq_save_def Let_def task_by_id_eflags intro!: exI)

text \<open>
  The tick counter wraps: a task that asks to sleep past \<open>2\<^sup>3\<^sup>2\<close> ticks is due at once, at the very
  next scheduling decision, because \<open>wake_tick\<close> is then below the current tick.
\<close>

theorem task_sleep_wraps:
  assumes "enabled k" "current k \<noteq> 0" "current k \<noteq> task_ring k" "2 ^ 32 \<le> unat (ticks k) + unat n"
  shows "\<exists>k1. task_sleep hook n k = Slept (task_schedule hook k1) \<and> current k1 = current k \<and>
    state_of k1 (current k) = TASK_SLEEPING \<and> due_state k1 (current k) = TASK_READY"
proof -
  let ?k = "set_task (current k) (\<lambda>x. x\<lparr>t_wake_tick := timer_get_ticks k + n, t_state := TASK_SLEEPING\<rparr>) k"
  have "unat (ticks k + n) = unat (ticks k) + unat n - 2 ^ 32"
    using assms(4) unat32_lt [of "ticks k"] unat32_lt [of n]
    by (simp add: unat_word_ariths mod_if)
  then have "ticks k + n \<le> ticks k" using unat32_lt [of n] by (simp add: word_le_nat_alt)
  then show ?thesis
    using assms by (intro exI [of _ ?k]) (simp add: task_sleep_def due_state_def woken_def timer_get_ticks_def)
qed

theorem task_sleep_wraps_witness:
  "\<exists>k1. task_sleep (\<lambda>_ _ k. k) 0xFFFFFFFF example_kernel = Slept (task_schedule (\<lambda>_ _ k. k) k1) \<and>
     state_of k1 0x2000 = TASK_SLEEPING \<and> due_state k1 0x2000 = TASK_READY"
proof -
  have "current example_kernel = 0x2000" "enabled example_kernel" "task_ring example_kernel = 0x1000"
    "ticks example_kernel = 60" by (simp_all add: example_kernel_def)
  then show ?thesis
    using task_sleep_wraps [of example_kernel "0xFFFFFFFF" "\<lambda>_ _ k. k"] by auto
qed

end
