(* ===== verification/Lock.thy ===== *)
theory Lock
  imports TaskCorrect
begin

text \<open>
  The mutex of \<open>kernel/lock.c\<close>: a lock word, a FIFO queue of waiting tasks linked through
  \<open>wait_next\<close>, and blocking through the scheduler.

  Every iteration of \<open>mutex_lock\<close> and the whole of \<open>mutex_unlock\<close> run with interrupts off, so each
  is one step; threads interleave between them.  The locale \<open>wait_queue\<close> states what the users of
  a wait queue rely on; it is interpreted for the queue of the mutex here and for those of the
  pipe in \<open>Pipe\<close>.
\<close>

section \<open>Model\<close>

record mutex =
  locked :: u32
  contended :: u32
  wait_head :: u32
  wait_tail :: u32

definition mutex_init :: mutex where
  "mutex_init = \<lparr>locked = 0, contended = 0, wait_head = 0, wait_tail = 0\<rparr>"

definition enqueue :: "mutex \<Rightarrow> u32 \<Rightarrow> 'x kernel \<Rightarrow> mutex \<times> 'x kernel" where
  "enqueue m t k =
     (let k1 = set_task t (\<lambda>x. x\<lparr>t_wait_next := 0\<rparr>) k
      in if wait_tail m \<noteq> 0
         then (m\<lparr>wait_tail := t\<rparr>, set_task (wait_tail m) (\<lambda>x. x\<lparr>t_wait_next := t\<rparr>) k1)
         else (m\<lparr>wait_head := t, wait_tail := t\<rparr>, k1))"

definition dequeue :: "mutex \<Rightarrow> 'x kernel \<Rightarrow> u32 \<times> mutex \<times> 'x kernel" where
  "dequeue m k =
     (let t = wait_head m
      in if t = 0 then (0, m, k)
         else
           let m1 = m\<lparr>wait_head := t_wait_next (tasks k t)\<rparr>;
               m2 = (if wait_head m1 = 0 then m1\<lparr>wait_tail := 0\<rparr> else m1)
           in (t, m2, set_task t (\<lambda>x. x\<lparr>t_wait_next := 0\<rparr>) k))"

text \<open>\<open>atomic_xchg\<close>: the previous value, and the lock with the new one.\<close>

definition atomic_xchg :: "u32 \<Rightarrow> mutex \<Rightarrow> u32 \<times> mutex" where
  "atomic_xchg v m = (locked m, m\<lparr>locked := v\<rparr>)"

text \<open>
  One iteration of the loop of \<open>mutex_lock\<close>, up to the return or to the point where \<open>task_block\<close> has
  switched away; a thread that blocked continues with the next iteration when it is resumed.
\<close>

definition mutex_lock_step ::
  "(u32 \<Rightarrow> u32 \<Rightarrow> 'x kernel \<Rightarrow> 'x kernel) \<Rightarrow> mutex \<Rightarrow> 'x kernel \<Rightarrow> bool \<times> mutex \<times> 'x kernel" where
  "mutex_lock_step hook m k =
     (case irq_save k of (flags, k0) \<Rightarrow>
        case atomic_xchg 1 m of (old, m0) \<Rightarrow>
          if old = 0 then (True, m0, irq_restore flags k0)
          else
            let m1 = m0\<lparr>contended := contended m0 + 1\<rparr>
            in case enqueue m1 (task_current k0) k0 of (m2, k1) \<Rightarrow> (False, m2, task_block hook k1))"

definition mutex_unlock :: "mutex \<Rightarrow> 'x kernel \<Rightarrow> mutex \<times> 'x kernel" where
  "mutex_unlock m k =
     (case irq_save k of (flags, k0) \<Rightarrow>
        case dequeue (m\<lparr>locked := 0\<rparr>) k0 of (waiter, m1, k1) \<Rightarrow>
          (m1, irq_restore flags (if waiter \<noteq> 0 then task_unblock waiter k1 else k1)))"

section \<open>Wait queues\<close>

text \<open>The tasks parked on a queue with the given head and tail pointers, oldest first.\<close>

definition wait_list :: "'x kernel \<Rightarrow> u32 \<Rightarrow> u32 \<Rightarrow> u32 list \<Rightarrow> bool" where
  "wait_list k h l q \<longleftrightarrow> chain (\<lambda>t. t_wait_next (tasks k t)) h q 0 \<and> distinct q \<and> 0 \<notin> set q \<and>
     l = (if q = [] then 0 else last q)"

lemma wait_list_cong:
  assumes "wait_list k h l q" "\<And>t. t \<in> set q \<Longrightarrow> t_wait_next (tasks k' t) = t_wait_next (tasks k t)"
  shows "wait_list k' h l q"
  using assms chain_cong [of "\<lambda>t. t_wait_next (tasks k t)" h q 0 "\<lambda>t. t_wait_next (tasks k' t)"]
  by (simp add: wait_list_def)

text \<open>Only the \<open>wait_next\<close> links of the tasks may differ.\<close>

definition same_but_links :: "'x kernel \<Rightarrow> 'x kernel \<Rightarrow> bool" where
  "same_but_links k k' \<longleftrightarrow>
     k'\<lparr>tasks := \<lambda>t. (tasks k' t)\<lparr>t_wait_next := 0\<rparr>\<rparr> = k\<lparr>tasks := \<lambda>t. (tasks k t)\<lparr>t_wait_next := 0\<rparr>\<rparr>"

lemma same_but_links_refl [simp]: "same_but_links k k"
  by (simp add: same_but_links_def)

lemma same_but_links_trans: "same_but_links k k' \<Longrightarrow> same_but_links k' k'' \<Longrightarrow> same_but_links k k''"
  by (simp add: same_but_links_def)

lemma same_but_links_set [simp]: "same_but_links k (set_task t (\<lambda>x. x\<lparr>t_wait_next := v\<rparr>) k)"
  by (auto simp: same_but_links_def set_task_def fun_eq_iff)

lemma same_but_links_task:
  assumes "same_but_links k k'"
  shows "tasks k' t = (tasks k t)\<lparr>t_wait_next := t_wait_next (tasks k' t)\<rparr>"
proof -
  have "(tasks k' t)\<lparr>t_wait_next := 0\<rparr> = (tasks k t)\<lparr>t_wait_next := 0\<rparr>"
    using assms unfolding same_but_links_def
    by (metis (no_types, lifting) kernel.ext_inject kernel.surjective kernel.update_convs(1))
  then have "(tasks k' t)\<lparr>t_wait_next := 0, t_wait_next := t_wait_next (tasks k' t)\<rparr> =
    (tasks k t)\<lparr>t_wait_next := 0, t_wait_next := t_wait_next (tasks k' t)\<rparr>" by (rule arg_cong)
  then show ?thesis by simp
qed

lemma same_but_links_state: "same_but_links k k' \<Longrightarrow> state_of k' t = state_of k t"
  by (subst same_but_links_task [of k k' t]) simp_all

lemma same_but_links_sel:
  assumes "same_but_links k k'"
  shows "current k' = current k" "task_ring k' = task_ring k" "enabled k' = enabled k" "cr3 k' = cr3 k"
    "kernel_dir k' = kernel_dir k" "ticks k' = ticks k" "next_id k' = next_id k" "heap k' = heap k"
    "eflags k' = eflags k"
  using assms unfolding same_but_links_def by (auto dest: arg_cong [where f = current]
      arg_cong [where f = task_ring] arg_cong [where f = enabled] arg_cong [where f = mm]
      arg_cong [where f = ticks] arg_cong [where f = next_id]
      arg_cong [where f = heap] arg_cong [where f = eflags])

lemma same_but_links_inv:
  assumes "same_but_links k k'" "sched_ok k ts"
  shows "sched_ok k' ts"
proof -
  have "t_next (tasks k' t) = t_next (tasks k t)" "state_of k' t = state_of k t" "t_id (tasks k' t) = t_id (tasks k t)"
    "t_page_dir (tasks k' t) = t_page_dir (tasks k t)" for t
    by (subst same_but_links_task [OF assms(1)], simp)+
  then show ?thesis
    using assms(2) same_but_links_sel [OF assms(1)] by (intro sched_ok_cong [OF assms(2)]) (auto simp: sched_ok_def)
qed

text \<open>What the users of a wait queue rely on; \<open>rep\<close> relates a queue to the list of parked tasks.\<close>

locale wait_queue =
  fixes put :: "'q \<Rightarrow> u32 \<Rightarrow> 'x kernel \<Rightarrow> 'q \<times> 'x kernel"
    and get :: "'q \<Rightarrow> 'x kernel \<Rightarrow> u32 \<times> 'q \<times> 'x kernel"
    and rep :: "'x kernel \<Rightarrow> 'q \<Rightarrow> u32 list \<Rightarrow> bool"
  assumes put_rep: "rep k w q \<Longrightarrow> t \<noteq> 0 \<Longrightarrow> t \<notin> set q \<Longrightarrow> put w t k = (w', k') \<Longrightarrow> rep k' w' (q @ [t])"
    and put_same: "put w t k = (w', k') \<Longrightarrow> same_but_links k k'"
    and get_rep: "rep k w q \<Longrightarrow> get w k = (t, w', k') \<Longrightarrow> rep k' w' (tl q) \<and> t = (if q = [] then 0 else hd q)"
    and get_same: "get w k = (t, w', k') \<Longrightarrow> same_but_links k k'"
begin

text \<open>A task that joins the queue is served after exactly those that were there before it.\<close>

lemma fifo:
  assumes "rep k w q" "t \<noteq> 0" "t \<notin> set q" "put w t k = (w1, k1)"
    "get w1 k1 = (u, w2, k2)"
  shows "u = hd (q @ [t])" "rep k2 w2 (tl (q @ [t]))"
  using get_rep [OF put_rep [OF assms(1-4)] assms(5)] by simp_all

end

interpretation mq: wait_queue enqueue dequeue "\<lambda>k m q. wait_list k (wait_head m) (wait_tail m) q"
proof
  fix k :: "'x kernel" and m q t m' k'
  assume q: "wait_list k (wait_head m) (wait_tail m) q" "t \<noteq> 0" "t \<notin> set q" "enqueue m t k = (m', k')"
  show "wait_list k' (wait_head m') (wait_tail m') (q @ [t])"
  proof (cases q rule: rev_cases)
    case Nil
    then show ?thesis using q by (auto simp: wait_list_def enqueue_def Let_def)
  next
    case (snoc xs x)
    have "chain (\<lambda>t. t_wait_next (tasks k' t)) (wait_head m) xs x"
      using q snoc by (auto simp: wait_list_def enqueue_def Let_def intro!: chain_cong [where nx = "\<lambda>t. t_wait_next (tasks k t)"])
    then show ?thesis using q snoc by (auto simp: wait_list_def enqueue_def Let_def)
  qed
next
  fix k :: "'x kernel" and m t m' k'
  assume "enqueue m t k = (m', k')"
  then show "same_but_links k k'"
    by (auto simp: enqueue_def Let_def split: if_splits intro: same_but_links_trans [OF same_but_links_set same_but_links_set])
next
  fix k :: "'x kernel" and m q t m' k'
  assume q: "wait_list k (wait_head m) (wait_tail m) q" "dequeue m k = (t, m', k')"
  show "wait_list k' (wait_head m') (wait_tail m') (tl q) \<and> t = (if q = [] then 0 else hd q)"
  proof (cases q)
    case Nil
    then show ?thesis using q by (auto simp: wait_list_def dequeue_def)
  next
    case (Cons x xs)
    have "chain (\<lambda>t. t_wait_next (tasks k' t)) (t_wait_next (tasks k x)) xs 0"
      using q Cons by (auto simp: wait_list_def dequeue_def Let_def intro!: chain_cong [where nx = "\<lambda>t. t_wait_next (tasks k t)"])
    moreover have "t_wait_next (tasks k x) = 0 \<longleftrightarrow> xs = []"
      using q(1) Cons by (cases xs) (auto simp: wait_list_def)
    ultimately show ?thesis using q Cons by (auto simp: wait_list_def dequeue_def Let_def split: if_splits)
  qed
next
  fix k :: "'x kernel" and m t m' k'
  assume "dequeue m k = (t, m', k')"
  then show "same_but_links k k'" by (auto simp: dequeue_def Let_def split: if_splits)
qed

section \<open>Threads competing for the lock\<close>

text \<open>What a scheduling decision keeps of the tasks it does not reap.\<close>

context exit_hook
begin

lemma schedule_keeps:
  assumes ok: "sched_ok k ts"
  shows "\<exists>ts'. sched_inv (task_schedule hook k) ts' \<and> task_ring (task_schedule hook k) = task_ring k \<and>
    (\<forall>t\<in>set ts. state_of k t \<noteq> TASK_FINISHED \<longrightarrow>
       t \<in> set ts' \<and> state_of (task_schedule hook k) t \<noteq> TASK_FINISHED \<and>
       t_wait_next (tasks (task_schedule hook k) t) = t_wait_next (tasks k t) \<and>
       (state_of k t = TASK_BLOCKED \<longrightarrow> state_of (task_schedule hook k) t = TASK_BLOCKED) \<and>
       (state_of k t \<in> {TASK_READY, TASK_RUNNING} \<longrightarrow>
          state_of (task_schedule hook k) t \<in> {TASK_READY, TASK_RUNNING}))"
proof -
  obtain c rest where ts: "ts = c # rest" "c = current k" using sched_ok_Cons [OF ok] by blast
  note ok' = ok [unfolded ts(1)]
  let ?n = "chosen k rest" and ?ts = "c # sweep (due_state k) rest"
  have due: "due_state k t = TASK_FINISHED \<longleftrightarrow> state_of k t = TASK_FINISHED"
    "state_of k t \<in> {TASK_READY, TASK_RUNNING, TASK_BLOCKED} \<Longrightarrow> due_state k t = state_of k t" for t
    by (auto simp: due_state_def woken_state)
  have n: "?n = c \<and> state_of k c = TASK_RUNNING \<or> due_state k ?n = TASK_READY \<or> ?n = task_ring k"
    using next_ready_sweep [of "due_state k" rest] ts(2) by (auto simp: chosen_def split: option.splits)
  have ring0: "state_of k (task_ring k) \<in> {TASK_READY, TASK_RUNNING}" using ok by (simp add: sched_ok_def)
  have nb: "state_of k ?n \<noteq> TASK_BLOCKED" using n due(2) [of ?n] ring0 by auto
  have "t \<in> set (rotate_to ?n ?ts) \<and> state_of (task_schedule hook k) t \<noteq> TASK_FINISHED \<and>
       t_wait_next (tasks (task_schedule hook k) t) = t_wait_next (tasks k t) \<and>
       (state_of k t = TASK_BLOCKED \<longrightarrow> state_of (task_schedule hook k) t = TASK_BLOCKED) \<and>
       (state_of k t \<in> {TASK_READY, TASK_RUNNING} \<longrightarrow>
          state_of (task_schedule hook k) t \<in> {TASK_READY, TASK_RUNNING})"
    if t: "t \<in> set ts" "state_of k t \<noteq> TASK_FINISHED" for t
  proof -
    have m: "t \<in> set ?ts" using t sweep_keeps [of t rest "due_state k"] due(1) ts by auto
    show ?thesis
      using m schedule_spec(10,11) [OF ok' m] due(1) [of t] due(2) [of t] nb t(2) by auto
  qed
  then show ?thesis using schedule_inv [OF ok'] schedule_spec(4) [OF ok'] by blast
qed

end

text \<open>
  The system: the mutex, the kernel, the threads inside \<open>mutex_lock\<close> and the threads that have
  returned from it and not yet called \<open>mutex_unlock\<close>.  Two things the code allows are not among the
  steps, because the lock does not survive them: task 0 does not take the lock
  (\<open>mutex_idle_task_self_loop\<close>), and the threads that wait for it or hold it are not killed
  (\<open>mutex_kill_loses_wakeup\<close>); other threads may be killed and may end at any time.
\<close>

type_synonym 'x lock_sys = "mutex \<times> 'x kernel \<times> u32 set \<times> u32 set"

inductive lock_step :: "(u32 \<Rightarrow> u32 \<Rightarrow> 'x kernel \<Rightarrow> 'x kernel) \<Rightarrow> 'x lock_sys \<Rightarrow> 'x lock_sys \<Rightarrow> bool"
  for hook :: "u32 \<Rightarrow> u32 \<Rightarrow> 'x kernel \<Rightarrow> 'x kernel" where
  enter: "current k \<notin> T \<union> H \<Longrightarrow> current k \<noteq> task_ring k \<Longrightarrow>
    lock_step hook (m, k, T, H) (m, k, insert (current k) T, H)"
| acquire: "current k \<in> T \<Longrightarrow> mutex_lock_step hook m k = (True, m', k') \<Longrightarrow>
    lock_step hook (m, k, T, H) (m', k', T - {current k}, insert (current k) H)"
| contend: "current k \<in> T \<Longrightarrow> mutex_lock_step hook m k = (False, m', k') \<Longrightarrow>
    lock_step hook (m, k, T, H) (m', k', T, H)"
| release: "current k \<in> H \<Longrightarrow> mutex_unlock m k = (m', k') \<Longrightarrow>
    lock_step hook (m, k, T, H) (m', k', T, H - {current k})"
| timer: "lock_step hook (m, k, T, H) (m, task_schedule hook (timer_handler k), T, H)"
| sleep: "current k \<notin> T \<Longrightarrow> task_sleep hook n k = Slept k' \<Longrightarrow> lock_step hook (m, k, T, H) (m, k', T, H)"
| kill: "task_by_id i k \<notin> T \<union> H \<Longrightarrow> lock_step hook (m, k, T, H) (m, snd (task_kill hook i k), T, H)"
| exit: "current k \<notin> T \<union> H \<Longrightarrow> current k \<noteq> task_ring k \<Longrightarrow> lock_step hook (m, k, T, H) (m, task_exit hook k, T, H)"

definition lock_ok :: "u32 list \<Rightarrow> mutex \<Rightarrow> 'x kernel \<Rightarrow> u32 set \<Rightarrow> u32 set \<Rightarrow> u32 list \<Rightarrow> bool" where
  "lock_ok q m k T H ts \<longleftrightarrow> wait_list k (wait_head m) (wait_tail m) q \<and> set q \<subseteq> T \<and> T \<inter> H = {} \<and>
     T \<union> H \<subseteq> set ts \<and> task_ring k \<notin> T \<union> H \<and> (\<forall>t\<in>T \<union> H. state_of k t \<noteq> TASK_FINISHED) \<and>
     (\<forall>t\<in>set q. state_of k t = TASK_BLOCKED) \<and>
     (\<forall>t\<in>T - set q. state_of k t \<in> {TASK_READY, TASK_RUNNING}) \<and>
     (locked m = 0 \<and> H = {} \<or> locked m = 1 \<and> (\<exists>h. H = {h})) \<and>
     (locked m = 0 \<and> q \<noteq> [] \<longrightarrow> T - set q \<noteq> {})"

definition lock_inv :: "'x lock_sys \<Rightarrow> bool" where
  "lock_inv s = (case s of (m, k, T, H) \<Rightarrow> \<exists>ts q. sched_inv k ts \<and> lock_ok q m k T H ts)"

lemma lock_ok_cong:
  assumes "lock_ok q m k T H ts" "tasks k' = tasks k" "task_ring k' = task_ring k"
  shows "lock_ok q m k' T H ts"
  using assms by (auto simp: lock_ok_def wait_list_def)

context exit_hook
begin

lemma schedule_lock:
  assumes "sched_ok k ts" "lock_ok q m k T H ts"
  shows "lock_inv (m, task_schedule hook k, T, H)"
proof -
  obtain ts' where ts': "sched_inv (task_schedule hook k) ts'"
    "task_ring (task_schedule hook k) = task_ring k"
    "\<And>t. t \<in> set ts \<Longrightarrow> state_of k t \<noteq> TASK_FINISHED \<Longrightarrow>
       t \<in> set ts' \<and> state_of (task_schedule hook k) t \<noteq> TASK_FINISHED \<and>
       t_wait_next (tasks (task_schedule hook k) t) = t_wait_next (tasks k t) \<and>
       (state_of k t = TASK_BLOCKED \<longrightarrow> state_of (task_schedule hook k) t = TASK_BLOCKED) \<and>
       (state_of k t \<in> {TASK_READY, TASK_RUNNING} \<longrightarrow>
          state_of (task_schedule hook k) t \<in> {TASK_READY, TASK_RUNNING})"
    using schedule_keeps [OF assms(1)] by blast
  note lo = assms(2) [unfolded lock_ok_def]
  have alive: "t \<in> set ts \<and> state_of k t \<noteq> TASK_FINISHED" if "t \<in> T \<union> H" for t using that lo by blast
  have q: "t \<in> T" if "t \<in> set q" for t using that lo by blast
  have "wait_list (task_schedule hook k) (wait_head m) (wait_tail m) q"
    using lo ts'(3) alive q by (auto intro!: wait_list_cong [of k])
  moreover have "T \<union> H \<subseteq> set ts'" "\<forall>t\<in>T \<union> H. state_of (task_schedule hook k) t \<noteq> TASK_FINISHED"
    using ts'(3) alive by blast+
  moreover have "state_of (task_schedule hook k) t = TASK_BLOCKED" if "t \<in> set q" for t
    using ts'(3) [of t] alive [of t] q [OF that] lo that by auto
  moreover have "state_of (task_schedule hook k) t \<in> {TASK_READY, TASK_RUNNING}" if "t \<in> T - set q" for t
    using ts'(3) [of t] alive [of t] lo that by blast
  ultimately have "lock_ok q m (task_schedule hook k) T H ts'"
    using lo ts'(2) unfolding lock_ok_def by simp
  then show ?thesis using ts'(1) by (auto simp: lock_inv_def)
qed

text \<open>Operations on tasks that have nothing to do with the lock.\<close>

lemma leads_lock:
  assumes "leads hook X k ts k'" "X \<inter> (T \<union> H) = {}" "lock_ok q m k T H ts"
  shows "lock_inv (m, k', T, H)"
proof -
  have lo: "lock_ok q m k2 T H ts" if "keeps X k k2" for k2 :: "'x kernel"
  proof -
    have k2: "tasks k2 u = tasks k u" if "u \<in> T \<union> H" for u using that \<open>keeps X k k2\<close> assms(2) unfolding keeps_def by blast
    have q: "set q \<subseteq> T" "wait_list k (wait_head m) (wait_tail m) q" using assms(3) by (auto simp: lock_ok_def)
    have "wait_list k2 (wait_head m) (wait_tail m) q" using q(2) by (rule wait_list_cong) (use k2 q(1) in auto)
    moreover have "task_ring k2 = task_ring k" using that by (simp add: keeps_def)
    ultimately show ?thesis using assms(3) k2 q(1) unfolding lock_ok_def by auto
  qed
  from assms(1) show ?thesis unfolding leads_def
  proof
    assume "sched_inv k' ts \<and> keeps X k k'"
    then show ?thesis using lo unfolding lock_inv_def by blast
  next
    assume "\<exists>k2. k' = task_schedule hook k2 \<and> sched_ok k2 ts \<and> keeps X k k2"
    then show ?thesis using lo schedule_lock by blast
  qed
qed

lemma contend_lock:
  assumes inv: "sched_inv k ts" and lo: "lock_ok q m k T H ts" and c: "current k \<in> T" and l: "locked m \<noteq> 0"
    and run: "mutex_lock_step hook m k = (False, m', k')"
  shows "lock_inv (m', k', T, H)"
proof -
  let ?c = "current k"
  have run_c: "state_of k ?c = TASK_RUNNING" "sched_ok k ts" using inv by (simp_all add: sched_inv_def)
  define k0 where "k0 = k\<lparr>eflags := eflags k AND NOT 0x200\<rparr>"
  define m1 where "m1 = m\<lparr>locked := 1, contended := contended m + 1\<rparr>"
  obtain m2 k1 where enq: "enqueue m1 ?c k0 = (m2, k1)" by fastforce
  have m'k': "m' = m2" "k' = task_block hook k1"
    using run l enq by (auto simp: mutex_lock_step_def irq_save_def atomic_xchg_def task_current_def k0_def m1_def Let_def)
  have c_q: "?c \<notin> set q" "?c \<noteq> 0" "?c \<noteq> task_ring k" "locked m = 1"
    using lo run_c(1) c l sched_ok_current [OF run_c(2)] by (auto simp: lock_ok_def)
  have "wait_list k0 (wait_head m1) (wait_tail m1) q"
    using lo by (auto simp: lock_ok_def wait_list_def k0_def m1_def)
  from mq.put_rep [OF this c_q(2,1) enq] have w: "wait_list k1 (wait_head m2) (wait_tail m2) (q @ [?c])" .
  have same: "same_but_links k0 k1" using enq by (rule mq.put_same)
  have sel: "current k1 = ?c" "task_ring k1 = task_ring k" "enabled k1"
    using same_but_links_sel [OF same] run_c(2) by (simp_all add: k0_def sched_ok_def)
  have st: "state_of k1 t = state_of k t" for t using same_but_links_state [OF same, of t] by (simp add: k0_def)
  have lk: "locked m2 = 1" using enq by (auto simp: enqueue_def m1_def Let_def split: if_splits)
  have "sched_ok k0 ts" by (rule sched_ok_cong [OF run_c(2)]) (use run_c(2) in \<open>auto simp: k0_def sched_ok_def\<close>)
  then have ok1: "sched_ok k1 ts" by (rule same_but_links_inv [OF same])
  let ?k2 = "set_task ?c (\<lambda>x. x\<lparr>t_state := TASK_BLOCKED\<rparr>) k1"
  have ok2: "sched_ok ?k2 ts" using ok1 c_q(3) sel by (intro set_state_ok) auto
  have "wait_list ?k2 (wait_head m2) (wait_tail m2) (q @ [?c])" using w by (rule wait_list_cong) simp
  moreover have "\<forall>t\<in>T - set (q @ [?c]). state_of ?k2 t \<in> {TASK_READY, TASK_RUNNING}"
    using lo st by (auto simp: lock_ok_def)
  ultimately have "lock_ok (q @ [?c]) m2 ?k2 T H ts"
    using lo c sel(2) st lk c_q(4) unfolding lock_ok_def by auto
  from schedule_lock [OF ok2 this] show ?thesis
    using m'k' sel c_q(2,3) by (simp add: task_block_def)
qed

lemma release_lock:
  assumes inv: "sched_inv k ts" and lo: "lock_ok q m k T H ts" and c: "current k \<in> H"
    and run: "mutex_unlock m k = (m', k')"
  shows "lock_inv (m', k', T, H - {current k})"
proof -
  define k0 where "k0 = k\<lparr>eflags := eflags k AND NOT 0x200\<rparr>"
  obtain w m1 k1 where deq: "dequeue (m\<lparr>locked := 0\<rparr>) k0 = (w, m1, k1)" by (metis prod_cases3)
  have m'k': "m' = m1" "k' = irq_restore (eflags k) (if w \<noteq> 0 then task_unblock w k1 else k1)"
    using run deq by (auto simp: mutex_unlock_def irq_save_def k0_def)
  have "wait_list k0 (wait_head (m\<lparr>locked := 0\<rparr>)) (wait_tail (m\<lparr>locked := 0\<rparr>)) q"
    using lo by (auto simp: lock_ok_def wait_list_def k0_def)
  from mq.get_rep [OF this deq] have w: "wait_list k1 (wait_head m1) (wait_tail m1) (tl q)"
    "w = (if q = [] then 0 else hd q)" by simp_all
  have same: "same_but_links k0 k1" using deq by (rule mq.get_same)
  have st: "state_of k1 t = state_of k t" for t using same_but_links_state [OF same, of t] by (simp add: k0_def)
  have sel: "current k1 = current k" "task_ring k1 = task_ring k"
    using same_but_links_sel [OF same] by (simp_all add: k0_def)
  have lk: "locked m1 = 0" using deq by (auto simp: dequeue_def Let_def split: if_splits)
  have H: "H - {current k} = {}" using lo c by (auto simp: lock_ok_def)
  have ok: "sched_ok k ts" using inv by (simp add: sched_inv_def)
  have "sched_ok k0 ts" by (rule sched_ok_cong [OF ok]) (use ok in \<open>auto simp: k0_def sched_ok_def\<close>)
  then have inv1: "sched_inv k1 ts"
    using same_but_links_inv [OF same] inv st sel by (simp add: sched_inv_def)
  let ?k2 = "if w \<noteq> 0 then task_unblock w k1 else k1"
  have inv2: "sched_inv ?k2 ts" using unblock_inv [OF inv1] inv1 by simp
  have wq: "w \<in> set q \<and> state_of k1 w = TASK_BLOCKED \<and> w \<notin> set (tl q) \<and> w \<noteq> 0" if "q \<noteq> []"
    using that lo st w(2) by (cases q) (auto simp: lock_ok_def wait_list_def)
  have tk: "tasks ?k2 = (if q = [] then tasks k1 else (tasks k1)(w := (tasks k1 w)\<lparr>t_state := TASK_READY\<rparr>))"
    using wq w(2) by (auto simp: task_unblock_def)
  have rg: "task_ring ?k2 = task_ring k" using sel by (simp add: task_unblock_def)
  have "lock_ok (tl q) m1 ?k2 T {} ts"
  proof (cases q)
    case Nil
    then show ?thesis using lo w lk st rg unfolding lock_ok_def by (auto simp: tk)
  next
    case (Cons x xs)
    have "wait_list ?k2 (wait_head m1) (wait_tail m1) (tl q)"
      using w(1) by (rule wait_list_cong) (simp add: tk)
    moreover have "set (tl q) \<subseteq> T" "w \<in> T" "w \<notin> set (tl q)" using lo wq Cons unfolding lock_ok_def by auto
    moreover have "state_of ?k2 t = (if t = w then TASK_READY else state_of k t)" for t
      using st Cons by (simp add: tk)
    moreover have "state_of k t = TASK_BLOCKED" if "t \<in> set (tl q)" for t
      using that lo Cons unfolding lock_ok_def by auto
    moreover have "state_of k t \<in> {TASK_READY, TASK_RUNNING}" if "t \<in> T" "t \<notin> set (tl q)" "t \<noteq> w" for t
      using that lo Cons w(2) unfolding lock_ok_def by auto
    moreover have "T \<subseteq> set ts" "task_ring k \<notin> T" "\<And>t. t \<in> T \<Longrightarrow> state_of k t \<noteq> TASK_FINISHED"
      using lo unfolding lock_ok_def by auto
    ultimately show ?thesis using lk rg unfolding lock_ok_def by (intro conjI) (simp_all, blast+)
  qed
  then have "lock_ok (tl q) m1 k' T {} ts" by (rule lock_ok_cong) (simp_all add: m'k')
  moreover have "sched_inv k' ts"
  proof -
    have "sched_ok ?k2 ts" using inv2 by (simp add: sched_inv_def)
    then have "sched_ok k' ts" by (rule sched_ok_cong) (use \<open>sched_ok ?k2 ts\<close> in \<open>auto simp: m'k' sched_ok_def\<close>)
    then show ?thesis using inv2 by (simp add: sched_inv_def m'k')
  qed
  ultimately show ?thesis unfolding lock_inv_def H m'k'(1) by blast
qed

lemma acquire_lock:
  assumes inv: "sched_inv k ts" and lo: "lock_ok q m k T H ts" and c: "current k \<in> T" and l: "locked m = 0"
    and run: "mutex_lock_step hook m k = (True, m', k')"
  shows "lock_inv (m', k', T - {current k}, insert (current k) H)"
proof -
  have m'k': "m' = m\<lparr>locked := 1\<rparr>" "k' = irq_restore (eflags k) (k\<lparr>eflags := eflags k AND NOT 0x200\<rparr>)"
    using run l by (auto simp: mutex_lock_step_def irq_save_def atomic_xchg_def)
  have eq: "tasks k' = tasks k" "task_ring k' = task_ring k" "current k' = current k" "enabled k' = enabled k"
    "cr3 k' = cr3 k" "kernel_dir k' = kernel_dir k" by (simp_all add: m'k')
  have ok: "sched_ok k ts" using inv by (simp add: sched_inv_def)
  then have "sched_ok k' ts" by (rule sched_ok_cong) (use ok eq in \<open>auto simp: sched_ok_def\<close>)
  then have "sched_inv k' ts" using inv eq by (simp add: sched_inv_def)
  moreover have "current k \<notin> set q" using lo inv c by (auto simp: lock_ok_def sched_inv_def)
  then have "lock_ok q m' k' (T - {current k}) (insert (current k) H) ts"
    using lo c l eq unfolding lock_ok_def by (auto simp: m'k'(1) wait_list_def)
  ultimately show ?thesis by (auto simp: lock_inv_def)
qed

lemma lock_step_inv: "lock_step hook s s' \<Longrightarrow> lock_inv s \<Longrightarrow> lock_inv s'"
proof (induction rule: lock_step.induct)
  case (enter k T H m)
  then obtain ts q where i: "sched_inv k ts" "lock_ok q m k T H ts" by (auto simp: lock_inv_def)
  have "current k \<in> set ts" "state_of k (current k) = TASK_RUNNING"
    using i(1) sched_ok_current by (auto simp: sched_inv_def)
  then have "lock_ok q m k (insert (current k) T) H ts" using i(2) enter(1,2) unfolding lock_ok_def by auto
  then show ?case using i(1) by (auto simp: lock_inv_def)
next
  case (acquire k T m m' k' H)
  then obtain ts q where i: "sched_inv k ts" "lock_ok q m k T H ts" by (auto simp: lock_inv_def)
  moreover have "locked m = 0"
    using acquire(2) by (auto simp: mutex_lock_step_def irq_save_def atomic_xchg_def Let_def split: if_splits prod.splits)
  ultimately show ?case using acquire acquire_lock by blast
next
  case (contend k T m m' k' H)
  then obtain ts q where i: "sched_inv k ts" "lock_ok q m k T H ts" by (auto simp: lock_inv_def)
  moreover have "locked m \<noteq> 0"
    using contend(2) by (auto simp: mutex_lock_step_def irq_save_def atomic_xchg_def)
  ultimately show ?case using contend contend_lock by blast
next
  case (release k H m m' k' T)
  then show ?case using release_lock by (auto simp: lock_inv_def)
next
  case (timer m k T H)
  then obtain ts q where i: "sched_inv k ts" "lock_ok q m k T H ts" by (auto simp: lock_inv_def)
  have "lock_ok q m (timer_handler k) T H ts" using i(2) by (rule lock_ok_cong) (simp_all add: timer_handler_def)
  moreover have "sched_ok (timer_handler k) ts" using i(1) timer_handler_ok [of k ts] by (simp add: sched_inv_def)
  ultimately show ?case using schedule_lock by blast
next
  case (sleep k T n k' m H)
  then obtain ts q where i: "sched_inv k ts" "lock_ok q m k T H ts" by (auto simp: lock_inv_def)
  let ?k = "set_task (current k) (\<lambda>x. x\<lparr>t_wake_tick := timer_get_ticks k + n, t_state := TASK_SLEEPING\<rparr>) k"
  have k': "k' = task_schedule hook ?k" "current k \<noteq> task_ring k"
    using sleep(2) by (auto simp: task_sleep_def split: if_splits)
  have "sched_ok ?k ts" using i(1) k'(2) by (intro set_state_ok) (auto simp: sched_inv_def)
  moreover have "lock_ok q m ?k T H ts"
    using i(2) sleep(1) unfolding lock_ok_def by (auto intro: wait_list_cong [of k])
  ultimately show ?case using schedule_lock k'(1) by blast
next
  case (kill i k T H m)
  then obtain ts q where i: "sched_inv k ts" "lock_ok q m k T H ts" by (auto simp: lock_inv_def)
  show ?case using leads_lock [OF kill_leads [OF i(1)] _ i(2)] kill(1) by simp
next
  case (exit k T H m)
  then obtain ts q where i: "sched_ok k ts" "lock_ok q m k T H ts" by (auto simp: lock_inv_def sched_inv_def)
  show ?case using leads_lock [OF exit_leads [OF i(1) exit(2)] _ i(2)] exit(1) by simp
qed

lemma lock_reach_inv:
  assumes "(lock_step hook)\<^sup>*\<^sup>* s0 s" "lock_inv s0"
  shows "lock_inv s"
  using assms by (induction rule: rtranclp_induct) (use lock_step_inv in blast)+

end

lemma mutex_init_inv: "sched_inv k ts \<Longrightarrow> lock_inv (mutex_init, k, {}, {})"
proof -
  assume "sched_inv k ts"
  moreover have "lock_ok [] mutex_init k {} {} ts" by (simp add: lock_ok_def mutex_init_def wait_list_def)
  ultimately show ?thesis unfolding lock_inv_def by blast
qed

section \<open>Properties\<close>

text \<open>
  (C15) Mutual exclusion: however the threads interleave, at most one of them is between
  \<open>mutex_lock\<close> and \<open>mutex_unlock\<close>, and the lock word is 1 exactly then.
\<close>

theorem mutex_mutual_exclusion:
  assumes "exit_hook hook" "sched_inv k0 ts"
    "(lock_step hook)\<^sup>*\<^sup>* (mutex_init, k0, {}, {}) (m, k, T, H)"
  shows "H = {} \<and> locked m = 0 \<or> (\<exists>h. H = {h} \<and> locked m = 1)"
  using exit_hook.lock_reach_inv [OF assms(1,3) mutex_init_inv [OF assms(2)]]
  by (auto simp: lock_inv_def lock_ok_def)

lemma example_lock_run:
  "\<exists>m k. (lock_step (\<lambda>_ _ k. k))\<^sup>*\<^sup>* (mutex_init, example_kernel, {}, {}) (m, k, {}, {0x2000})"
proof -
  have c: "current example_kernel = 0x2000" "task_ring example_kernel = 0x1000" by (simp_all add: example_kernel_def)
  obtain m k where run: "mutex_lock_step (\<lambda>_ _ k. k) mutex_init example_kernel = (True, m, k)"
    by (auto simp: mutex_lock_step_def irq_save_def atomic_xchg_def mutex_init_def)
  have "lock_step (\<lambda>_ _ k. k) (mutex_init, example_kernel, {}, {}) (mutex_init, example_kernel, {0x2000}, {})"
    using lock_step.enter [of example_kernel "{}" "{}"] c by simp
  moreover have "lock_step (\<lambda>_ _ k. k) (mutex_init, example_kernel, {0x2000}, {}) (m, k, {}, {0x2000})"
    using lock_step.acquire [OF _ run, of "{0x2000}" "{}"] c by simp
  ultimately show ?thesis by (meson r_into_rtranclp rtranclp.rtrancl_into_rtrancl)
qed

theorem mutex_mutual_exclusion_witness:
  "\<exists>m k. (lock_step (\<lambda>_ _ k. k))\<^sup>*\<^sup>* (mutex_init, example_kernel, {}, {}) (m, k, {}, {0x2000}) \<and> locked m = 1"
  using example_lock_run mutex_mutual_exclusion [OF no_hook.exit_hook_axioms example_kernel_inv] by blast

text \<open>
  (C16) No lost wakeup, as long as task 0 does not take the lock and the threads that wait for it or
  hold it are not killed (the steps of \<open>lock_step\<close>; the code allows both): whenever the lock is free and
  threads are waiting for it, one of them is ready or running, so it is reached by the round robin and
  tries again.
\<close>

theorem mutex_no_lost_wakeup:
  assumes "exit_hook hook" "sched_inv k0 ts"
    "(lock_step hook)\<^sup>*\<^sup>* (mutex_init, k0, {}, {}) (m, k, T, H)" "locked m = 0" "T \<noteq> {}"
  shows "\<exists>t\<in>T. state_of k t \<in> {TASK_READY, TASK_RUNNING} \<and> (\<exists>ts'. ring k ts' \<and> t \<in> set ts')"
proof -
  obtain ts' q where i: "sched_inv k ts'" "lock_ok q m k T H ts'"
    using exit_hook.lock_reach_inv [OF assms(1,3) mutex_init_inv [OF assms(2)]] by (auto simp: lock_inv_def)
  then have "T - set q \<noteq> {}" using assms(4,5) by (auto simp: lock_ok_def)
  then obtain t where "t \<in> T - set q" by blast
  then show ?thesis using i by (intro bexI [of _ t]) (auto simp: lock_ok_def sched_inv_def sched_ok_def)
qed

theorem mutex_no_lost_wakeup_witness:
  "\<exists>t\<in>{0x2000}. state_of example_kernel t \<in> {TASK_READY, TASK_RUNNING}"
proof -
  have "(lock_step (\<lambda>_ _ k. k))\<^sup>*\<^sup>* (mutex_init, example_kernel, {}, {}) (mutex_init, example_kernel, {0x2000}, {})"
    using lock_step.enter [of example_kernel "{}" "{}"]
    by (auto simp: example_kernel_def intro!: r_into_rtranclp)
  from mutex_no_lost_wakeup [OF no_hook.exit_hook_axioms example_kernel_inv this] show ?thesis
    by (auto simp: mutex_init_def)
qed

text \<open>
  A waiter must not be killed: \<open>task_kill\<close> refuses a blocked task only, so the one waiter that
  \<open>mutex_unlock\<close> has woken can be killed before it runs.  The lock is free then, and every other waiter stays
  blocked with nobody left to wake it.
\<close>

theorem mutex_kill_loses_wakeup:
  assumes "lock_ok q m k T H ts" "locked m = 0" "T - set q = {t}" "t \<noteq> current k" "state_of k t = TASK_READY"
    "task_by_id i k = t" "t \<noteq> 0" "i \<noteq> 0" "task_kill hook i k = (r, k')"
  shows "r = 1 \<and> state_of k' t = TASK_FINISHED \<and> H = {} \<and> (\<forall>u\<in>T - {t}. state_of k' u = TASK_BLOCKED)"
proof -
  have "t \<notin> set q" using assms(3) by blast
  have r: "r = 1 \<and> tasks k' = (tasks k)(t := (tasks k t)\<lparr>t_state := TASK_FINISHED\<rparr>)"
    using assms(4-9) by (auto simp: task_kill_def irq_save_def task_by_id_eflags Let_def)
  have "state_of k u = TASK_BLOCKED" if "u \<in> T - {t}" for u using that assms(1,3) unfolding lock_ok_def by blast
  moreover have "H = {}" using assms(1,2) by (auto simp: lock_ok_def)
  ultimately show ?thesis using r by auto
qed

text \<open>
  Task 0 must not wait for a mutex: \<open>task_block\<close> only yields for it, so when it runs again while
  the lock is still held and it is the last in the queue, it queues itself a second time and its
  \<open>wait_next\<close> link points to itself; from then on the queue never becomes empty.
\<close>

theorem mutex_idle_task_self_loop:
  assumes "exit_hook hook" "sched_inv k ts" "current k = task_ring k" "locked m \<noteq> 0"
    "wait_tail m = current k" "mutex_lock_step hook m k = (b, m', k')"
  shows "\<not> b \<and> wait_tail m' = current k \<and> t_wait_next (tasks k' (current k)) = current k"
proof -
  let ?c = "current k"
  define k0 where "k0 = k\<lparr>eflags := eflags k AND NOT 0x200\<rparr>"
  define m1 where "m1 = m\<lparr>locked := 1, contended := contended m + 1\<rparr>"
  have ok: "sched_ok k ts" "?c \<noteq> 0" "?c \<in> set ts" "state_of k ?c = TASK_RUNNING" "enabled k"
    using assms(2) sched_ok_current [of k ts] by (auto simp: sched_inv_def sched_ok_def)
  obtain m2 k1 where enq: "enqueue m1 ?c k0 = (m2, k1)" by fastforce
  have e: "wait_tail m2 = ?c" "t_wait_next (tasks k1 ?c) = ?c"
    using enq assms(5) ok(2) by (auto simp: enqueue_def m1_def Let_def)
  have same: "same_but_links k0 k1" using enq by (rule mq.put_same)
  have sel: "current k1 = ?c" "task_ring k1 = ?c" "enabled k1" "state_of k1 ?c = TASK_RUNNING"
    using same_but_links_sel [OF same] same_but_links_state [OF same, of ?c] ok assms(3) by (simp_all add: k0_def)
  have run: "b = False" "m' = m2" "k' = task_schedule hook k1"
    using assms(4,6) enq sel ok(2)
    by (auto simp: mutex_lock_step_def irq_save_def atomic_xchg_def task_current_def k0_def m1_def Let_def
        task_block_def task_yield_def)
  have "sched_ok k0 ts" by (rule sched_ok_cong [OF ok(1)]) (use ok(1) in \<open>auto simp: k0_def sched_ok_def\<close>)
  then have "sched_ok k1 ts" by (rule same_but_links_inv [OF same])
  from exit_hook.schedule_keeps [OF assms(1) this] ok(3) sel(4) have "t_wait_next (tasks k' ?c) = t_wait_next (tasks k1 ?c)"
    unfolding run by auto
  then show ?thesis using e run by simp
qed

definition idle_kernel :: "unit kernel" where
  "idle_kernel = example_kernel\<lparr>current := 0x1000, tasks := (tasks example_kernel)
     (0x1000 := example_task 0 TASK_RUNNING 0x4000 0x9000, 0x2000 := example_task 1 TASK_READY 0x3000 0xA000)\<rparr>"

theorem mutex_idle_task_self_loop_witness:
  "\<exists>b m k. mutex_lock_step (\<lambda>_ _ k. k) \<lparr>locked = 1, contended = 1, wait_head = 0x1000, wait_tail = 0x1000\<rparr>
     idle_kernel = (b, m, k) \<and> t_wait_next (tasks k 0x1000) = 0x1000"
proof -
  have inv: "sched_inv idle_kernel [0x1000, 0x4000, 0x2000, 0x3000, 0x5000]"
    by (simp add: sched_inv_def sched_ok_def ring_def cycle_def dir_of_def idle_kernel_def example_kernel_def
        example_task_def zero_task_def example_paging_def)
  have c: "current idle_kernel = 0x1000" "task_ring idle_kernel = 0x1000"
    by (simp_all add: idle_kernel_def example_kernel_def)
  obtain b m k where run: "mutex_lock_step (\<lambda>_ _ k. k)
    \<lparr>locked = 1, contended = 1, wait_head = 0x1000, wait_tail = 0x1000\<rparr> idle_kernel = (b, m, k)"
    by (metis prod_cases3)
  from mutex_idle_task_self_loop [OF no_hook.exit_hook_axioms inv _ _ _ run] c run show ?thesis by auto
qed

end
