(* ===== verification/Pipe.thy ===== *)
theory Pipe
  imports Lock
begin

text \<open>
  The bounded channel of \<open>kernel/pipe.c\<close>: a ring buffer of \<open>PIPE_CAPACITY\<close> bytes with two wait
  queues.

  Each iteration of the loops of \<open>pipe_write\<close> and \<open>pipe_read\<close> runs with interrupts off and is one
  step.  A call runs until it returns or until \<open>task_block\<close> has switched away; the continuation of a
  blocked call is the same call for the bytes that remain.
\<close>

section \<open>Model\<close>

definition PIPE_CAPACITY :: u32 where
  "PIPE_CAPACITY = 256"

record pipe =
  buffer :: "u8 list"
  read_pos :: u32
  write_pos :: u32
  count :: u32
  readers_head :: u32
  readers_tail :: u32
  writers_head :: u32
  writers_tail :: u32
  blocked_reads :: u32
  blocked_writes :: u32

definition pipe_init :: pipe where
  "pipe_init = \<lparr>buffer = replicate 256 0, read_pos = 0, write_pos = 0, count = 0, readers_head = 0,
     readers_tail = 0, writers_head = 0, writers_tail = 0, blocked_reads = 0, blocked_writes = 0\<rparr>"

text \<open>The static \<open>enqueue\<close> of this file, on a pair of head and tail pointers.\<close>

definition pipe_enqueue :: "u32 \<times> u32 \<Rightarrow> u32 \<Rightarrow> 'x kernel \<Rightarrow> (u32 \<times> u32) \<times> 'x kernel" where
  "pipe_enqueue ht t k =
     (let k1 = set_task t (\<lambda>x. x\<lparr>t_wait_next := 0\<rparr>) k
      in if snd ht \<noteq> 0
         then ((fst ht, t), set_task (snd ht) (\<lambda>x. x\<lparr>t_wait_next := t\<rparr>) k1)
         else ((t, t), k1))"

text \<open>The unlinking half of \<open>wake_one\<close>, and the whole of it.\<close>

definition unlink_first :: "u32 \<times> u32 \<Rightarrow> 'x kernel \<Rightarrow> u32 \<times> (u32 \<times> u32) \<times> 'x kernel" where
  "unlink_first ht k =
     (let t = fst ht
      in if t = 0 then (0, ht, k)
         else
           let h = t_wait_next (tasks k t)
           in (t, (h, if h = 0 then 0 else snd ht), set_task t (\<lambda>x. x\<lparr>t_wait_next := 0\<rparr>) k))"

definition wake_one :: "u32 \<times> u32 \<Rightarrow> 'x kernel \<Rightarrow> (u32 \<times> u32) \<times> 'x kernel" where
  "wake_one ht k =
     (case unlink_first ht k of (t, ht', k') \<Rightarrow> (ht', if t = 0 then k' else task_unblock t k'))"

text \<open>One iteration of the inner loop of \<open>pipe_write\<close>; True when the byte was stored.\<close>

definition pipe_put ::
  "(u32 \<Rightarrow> u32 \<Rightarrow> 'x kernel \<Rightarrow> 'x kernel) \<Rightarrow> u8 \<Rightarrow> pipe \<Rightarrow> 'x kernel \<Rightarrow> bool \<times> pipe \<times> 'x kernel" where
  "pipe_put hook b p k =
     (case irq_save k of (flags, k0) \<Rightarrow>
        if count p < PIPE_CAPACITY
        then
          let p1 = p\<lparr>buffer := (buffer p)[unat (write_pos p) := b],
                     write_pos := (write_pos p + 1) mod PIPE_CAPACITY, count := count p + 1\<rparr>
          in case wake_one (readers_head p1, readers_tail p1) k0 of
               ((h, l), k1) \<Rightarrow> (True, p1\<lparr>readers_head := h, readers_tail := l\<rparr>, irq_restore flags k1)
        else
          let p1 = p\<lparr>blocked_writes := blocked_writes p + 1\<rparr>
          in case pipe_enqueue (writers_head p1, writers_tail p1) (task_current k0) k0 of
               ((h, l), k1) \<Rightarrow> (False, p1\<lparr>writers_head := h, writers_tail := l\<rparr>, task_block hook k1))"

text \<open>The bytes still to be written when the call returns (none) or blocks.\<close>

fun pipe_write ::
  "(u32 \<Rightarrow> u32 \<Rightarrow> 'x kernel \<Rightarrow> 'x kernel) \<Rightarrow> u8 list \<Rightarrow> pipe \<Rightarrow> 'x kernel \<Rightarrow> u8 list \<times> pipe \<times> 'x kernel" where
  "pipe_write hook [] p k = ([], p, k)"
| "pipe_write hook (b # bs) p k =
     (case pipe_put hook b p k of
        (True, p', k') \<Rightarrow> pipe_write hook bs p' k'
      | (False, p', k') \<Rightarrow> (b # bs, p', k'))"

datatype pipe_get_outcome = Byte u8 | Enough | Blocked

text \<open>One iteration of the loop of \<open>pipe_read\<close>; the flag says whether bytes were read before.\<close>

definition pipe_get ::
  "(u32 \<Rightarrow> u32 \<Rightarrow> 'x kernel \<Rightarrow> 'x kernel) \<Rightarrow> bool \<Rightarrow> pipe \<Rightarrow> 'x kernel \<Rightarrow> pipe_get_outcome \<times> pipe \<times> 'x kernel" where
  "pipe_get hook some p k =
     (case irq_save k of (flags, k0) \<Rightarrow>
        if count p > 0
        then
          let b = buffer p ! unat (read_pos p);
              p1 = p\<lparr>read_pos := (read_pos p + 1) mod PIPE_CAPACITY, count := count p - 1\<rparr>
          in case wake_one (writers_head p1, writers_tail p1) k0 of
               ((h, l), k1) \<Rightarrow> (Byte b, p1\<lparr>writers_head := h, writers_tail := l\<rparr>, irq_restore flags k1)
        else if some then (Enough, p, irq_restore flags k0)
        else
          let p1 = p\<lparr>blocked_reads := blocked_reads p + 1\<rparr>
          in case pipe_enqueue (readers_head p1, readers_tail p1) (task_current k0) k0 of
               ((h, l), k1) \<Rightarrow> (Blocked, p1\<lparr>readers_head := h, readers_tail := l\<rparr>, task_block hook k1))"

text \<open>\<open>got\<close> bytes are in \<open>out\<close>; the result says whether the call returned.\<close>

fun pipe_read_loop ::
  "(u32 \<Rightarrow> u32 \<Rightarrow> 'x kernel \<Rightarrow> 'x kernel) \<Rightarrow> nat \<Rightarrow> u8 list \<Rightarrow> pipe \<Rightarrow> 'x kernel \<Rightarrow> bool \<times> u8 list \<times> pipe \<times> 'x kernel" where
  "pipe_read_loop hook 0 out p k = (True, out, p, k)"
| "pipe_read_loop hook (Suc n) out p k =
     (case pipe_get hook (out \<noteq> []) p k of
        (Byte b, p', k') \<Rightarrow> pipe_read_loop hook n (out @ [b]) p' k'
      | (Enough, p', k') \<Rightarrow> (True, out, p', k')
      | (Blocked, p', k') \<Rightarrow> (False, out, p', k'))"

definition pipe_read ::
  "(u32 \<Rightarrow> u32 \<Rightarrow> 'x kernel \<Rightarrow> 'x kernel) \<Rightarrow> u32 \<Rightarrow> pipe \<Rightarrow> 'x kernel \<Rightarrow> bool \<times> u8 list \<times> pipe \<times> 'x kernel" where
  "pipe_read hook n p k = pipe_read_loop hook (unat n) [] p k"

definition pipe_available :: "pipe \<Rightarrow> u32" where
  "pipe_available p = count p"

definition pipe_stats :: "pipe \<Rightarrow> u32 \<times> u32" where
  "pipe_stats p = (blocked_reads p, blocked_writes p)"

section \<open>The wait queues\<close>

interpretation pq: wait_queue pipe_enqueue unlink_first "\<lambda>k ht q. wait_list k (fst ht) (snd ht) q"
proof
  fix k :: "'x kernel" and ht q t ht' k'
  assume q: "wait_list k (fst ht) (snd ht) q" "t \<noteq> 0" "t \<notin> set q" "pipe_enqueue ht t k = (ht', k')"
  show "wait_list k' (fst ht') (snd ht') (q @ [t])"
    using mq.put_rep [of k "\<lparr>locked = 0, contended = 0, wait_head = fst ht, wait_tail = snd ht\<rparr>" q t] q
    by (auto simp: pipe_enqueue_def enqueue_def Let_def split: if_splits)
next
  fix k :: "'x kernel" and ht t ht' k'
  assume "pipe_enqueue ht t k = (ht', k')"
  then show "same_but_links k k'"
    by (auto simp: pipe_enqueue_def Let_def split: if_splits
        intro: same_but_links_trans [OF same_but_links_set same_but_links_set])
next
  fix k :: "'x kernel" and ht q t ht' k'
  assume q: "wait_list k (fst ht) (snd ht) q" "unlink_first ht k = (t, ht', k')"
  show "wait_list k' (fst ht') (snd ht') (tl q) \<and> t = (if q = [] then 0 else hd q)"
    using mq.get_rep [of k "\<lparr>locked = 0, contended = 0, wait_head = fst ht, wait_tail = snd ht\<rparr>" q] q
    by (auto simp: unlink_first_def dequeue_def Let_def split: if_splits)
next
  fix k :: "'x kernel" and ht t ht' k'
  assume "unlink_first ht k = (t, ht', k')"
  then show "same_but_links k k'" by (auto simp: unlink_first_def Let_def split: if_splits)
qed

section \<open>The ring buffer as a bounded queue\<close>

definition pipe_ok :: "pipe \<Rightarrow> bool" where
  "pipe_ok p \<longleftrightarrow> length (buffer p) = 256 \<and> read_pos p < 256 \<and> count p \<le> 256 \<and>
     unat (write_pos p) = (unat (read_pos p) + unat (count p)) mod 256"

definition contents :: "pipe \<Rightarrow> u8 list" where
  "contents p = map (\<lambda>i. buffer p ! ((unat (read_pos p) + i) mod 256)) [0..<unat (count p)]"

lemma pipe_init_ok [simp]: "pipe_ok pipe_init" "contents pipe_init = []"
  by (simp_all add: pipe_ok_def pipe_init_def contents_def)

lemma contents_length [simp]: "length (contents p) = unat (count p)"
  by (simp add: contents_def)

lemma pipe_ok_queues [simp]:
  "pipe_ok (p\<lparr>readers_head := a, readers_tail := b\<rparr>) = pipe_ok p"
  "pipe_ok (p\<lparr>writers_head := a, writers_tail := b\<rparr>) = pipe_ok p"
  "pipe_ok (p\<lparr>blocked_reads := c\<rparr>) = pipe_ok p" "pipe_ok (p\<lparr>blocked_writes := c\<rparr>) = pipe_ok p"
  "contents (p\<lparr>readers_head := a, readers_tail := b\<rparr>) = contents p"
  "contents (p\<lparr>writers_head := a, writers_tail := b\<rparr>) = contents p"
  "contents (p\<lparr>blocked_reads := c\<rparr>) = contents p" "contents (p\<lparr>blocked_writes := c\<rparr>) = contents p"
  by (simp_all add: pipe_ok_def contents_def)

lemma unat_succ_mod:
  assumes "x < (256 :: u32)"
  shows "unat ((x + 1) mod 256) = Suc (unat x) mod 256"
proof -
  have "unat (x + 1) = Suc (unat x)" using assms by (rule unat_Suc_less)
  then show ?thesis by (simp only: unat_mod) simp
qed

lemma contents_push:
  fixes b :: u8
  assumes "pipe_ok p" "count p < 256"
  defines "p' \<equiv> p\<lparr>buffer := (buffer p)[unat (write_pos p) := b], write_pos := (write_pos p + 1) mod 256,
      count := count p + 1\<rparr>"
  shows "pipe_ok p'" "contents p' = contents p @ [b]"
proof -
  have c: "unat (count p + 1) = Suc (unat (count p))" "unat (count p) < 256"
    using assms(2) unat_Suc_less [OF assms(2)] by (simp_all add: word_less_nat_alt)
  have r: "unat (read_pos p) < 256" "length (buffer p) = 256"
    and w: "unat (write_pos p) = (unat (read_pos p) + unat (count p)) mod 256"
    using assms(1) by (simp_all add: pipe_ok_def word_less_nat_alt)
  have "write_pos p < 256" using w by (simp add: word_less_nat_alt)
  then show "pipe_ok p'"
    using r c w assms(1) by (simp add: p'_def pipe_ok_def word_le_nat_alt unat_succ_mod mod_Suc_eq)
  have "(unat (read_pos p) + i) mod 256 \<noteq> unat (write_pos p)" if "i < unat (count p)" for i
  proof
    assume "(unat (read_pos p) + i) mod 256 = unat (write_pos p)"
    then have "i mod 256 = unat (count p) mod 256" unfolding w by (simp add: nat_mod_eq_iff)
    then show False using that c(2) by simp
  qed
  then show "contents p' = contents p @ [b]"
    using c r w by (auto simp: p'_def contents_def) (metis nth_list_update_neq)
qed

lemma contents_pop:
  assumes "pipe_ok p" "0 < count p"
  defines "p' \<equiv> p\<lparr>read_pos := (read_pos p + 1) mod 256, count := count p - 1\<rparr>"
  shows "pipe_ok p'" "contents p = buffer p ! unat (read_pos p) # contents p'"
proof -
  have c: "unat (count p) = Suc (unat (count p - 1))" using assms(2) unat_dec [of "count p"] by (simp add: word_gt_0)
  have r: "read_pos p < 256" "unat (read_pos p) < 256" "unat (count p) \<le> 256"
    and w: "unat (write_pos p) = (unat (read_pos p) + unat (count p)) mod 256"
    using assms(1) by (simp_all add: pipe_ok_def word_less_nat_alt word_le_nat_alt)
  show "pipe_ok p'"
    using r c w assms(1) by (simp add: p'_def pipe_ok_def word_le_nat_alt word_less_nat_alt unat_succ_mod mod_simps)
  have "contents p = map (\<lambda>i. buffer p ! ((unat (read_pos p) + i) mod 256)) (0 # map Suc [0..<unat (count p - 1)])"
    unfolding contents_def c by (simp only: upt_conv_Cons map_Suc_upt)
  then show "contents p = buffer p ! unat (read_pos p) # contents p'"
    using r by (simp add: p'_def contents_def unat_succ_mod mod_simps)
qed

section \<open>Channels\<close>

text \<open>What a writer and a reader rely on: a first-in first-out queue of at most \<open>cap\<close> bytes.\<close>

locale byte_channel =
  fixes put :: "u8 \<Rightarrow> 'c \<Rightarrow> 's \<Rightarrow> bool \<times> 'c \<times> 's"
    and get :: "bool \<Rightarrow> 'c \<Rightarrow> 's \<Rightarrow> pipe_get_outcome \<times> 'c \<times> 's"
    and ok :: "'c \<Rightarrow> bool"
    and cont :: "'c \<Rightarrow> u8 list"
    and cap :: nat
  assumes put_law: "ok p \<Longrightarrow> put b p k = (d, p', k') \<Longrightarrow>
      ok p' \<and> d = (length (cont p) < cap) \<and> cont p' = (if d then cont p @ [b] else cont p)"
    and get_law: "ok p \<Longrightarrow> get s p k = (r, p', k') \<Longrightarrow>
      ok p' \<and> (case cont p of [] \<Rightarrow> r = (if s then Enough else Blocked) \<and> cont p' = []
               | b # bs \<Rightarrow> r = Byte b \<and> cont p' = bs)"
    and bound: "ok p \<Longrightarrow> length (cont p) \<le> cap"

text \<open>
  A history of a channel: single steps of writers and readers, each in whatever state the rest of
  the kernel is then; the two lists record the bytes written and read so far.
\<close>

inductive channel_step ::
  "(u8 \<Rightarrow> 'c \<Rightarrow> 's \<Rightarrow> bool \<times> 'c \<times> 's) \<Rightarrow> (bool \<Rightarrow> 'c \<Rightarrow> 's \<Rightarrow> pipe_get_outcome \<times> 'c \<times> 's) \<Rightarrow>
   'c \<times> u8 list \<times> u8 list \<Rightarrow> 'c \<times> u8 list \<times> u8 list \<Rightarrow> bool"
  for put :: "u8 \<Rightarrow> 'c \<Rightarrow> 's \<Rightarrow> bool \<times> 'c \<times> 's"
    and get :: "bool \<Rightarrow> 'c \<Rightarrow> 's \<Rightarrow> pipe_get_outcome \<times> 'c \<times> 's" where
  stored: "put b p k = (True, p', k') \<Longrightarrow> channel_step put get (p, w, r) (p', w @ [b], r)"
| full: "put b p k = (False, p', k') \<Longrightarrow> channel_step put get (p, w, r) (p', w, r)"
| taken: "get s p k = (Byte b, p', k') \<Longrightarrow> channel_step put get (p, w, r) (p', w, r @ [b])"
| enough: "get s p k = (Enough, p', k') \<Longrightarrow> channel_step put get (p, w, r) (p', w, r)"
| empty: "get s p k = (Blocked, p', k') \<Longrightarrow> channel_step put get (p, w, r) (p', w, r)"

context byte_channel
begin

lemma step_fifo:
  "channel_step put get s s' \<Longrightarrow> (case s of (p, w, r) \<Rightarrow> ok p \<and> w = r @ cont p) \<Longrightarrow>
   (case s' of (p, w, r) \<Rightarrow> ok p \<and> w = r @ cont p)"
proof (induction rule: channel_step.induct)
  case (stored b p k p' k' w r)
  then show ?case using put_law [of p b k True p' k'] by simp
next
  case (full b p k p' k' w r)
  then show ?case using put_law [of p b k False p' k'] by simp
next
  case (taken s p k b p' k' w r)
  then show ?case using get_law [of p s k "Byte b" p' k'] by (cases "cont p") (auto split: if_splits)
next
  case (enough s p k p' k' w r)
  then show ?case using get_law [of p s k Enough p' k'] by (cases "cont p") (auto split: if_splits)
next
  case (empty s p k p' k' w r)
  then show ?case using get_law [of p s k Blocked p' k'] by (cases "cont p") (auto split: if_splits)
qed

lemma history_fifo:
  assumes "(channel_step put get)\<^sup>*\<^sup>* (p0, [], []) (p, w, r)" "ok p0" "cont p0 = []"
  shows "ok p" "w = r @ cont p" "length (cont p) \<le> cap"
proof -
  have "case (p, w, r) of (p, w, r) \<Rightarrow> ok p \<and> w = r @ cont p"
    using assms by (induction rule: rtranclp_induct) (use step_fifo in auto)
  then show "ok p" "w = r @ cont p" "length (cont p) \<le> cap" using bound by auto
qed

end

lemma pipe_put_law:
  assumes "pipe_ok p" "pipe_put hook b p k = (d, p', k')"
  shows "pipe_ok p' \<and> d = (length (contents p) < 256) \<and> contents p' = (if d then contents p @ [b] else contents p)"
proof (cases "count p < 256")
  case True
  then show ?thesis
    using assms contents_push [OF assms(1) True, of b]
    by (auto simp: pipe_put_def PIPE_CAPACITY_def irq_save_def Let_def word_less_nat_alt split: prod.splits)
next
  case False
  then show ?thesis
    using assms by (auto simp: pipe_put_def PIPE_CAPACITY_def irq_save_def Let_def word_less_nat_alt split: prod.splits)
qed

lemma pipe_get_law:
  assumes "pipe_ok p" "pipe_get hook s p k = (r, p', k')"
  shows "pipe_ok p' \<and> (case contents p of [] \<Rightarrow> r = (if s then Enough else Blocked) \<and> contents p' = []
    | b # bs \<Rightarrow> r = Byte b \<and> contents p' = bs)"
proof (cases "count p = 0")
  case True
  then have "contents p = []" by (simp add: contents_def)
  then show ?thesis
    using assms True by (auto simp: pipe_get_def irq_save_def Let_def split: prod.splits if_splits)
next
  case False
  then have "0 < count p" by (simp add: word_gt_0)
  then show ?thesis
    using assms contents_pop [OF assms(1)]
    by (auto simp: pipe_get_def PIPE_CAPACITY_def irq_save_def Let_def split: prod.splits)
qed

interpretation pipe_chan: byte_channel "pipe_put hook" "pipe_get hook" pipe_ok contents 256
  by unfold_locales (rule pipe_put_law pipe_get_law, assumption+ | simp add: pipe_ok_def word_le_nat_alt)+

lemma pipe_write_takes:
  assumes "pipe_ok p" "pipe_write hook data p k = (rest, p', k')"
  shows "pipe_ok p' \<and> rest = drop (256 - length (contents p)) data \<and>
    contents p' = contents p @ take (256 - length (contents p)) data"
  using assms
proof (induction data arbitrary: p k)
  case (Cons b bs)
  obtain d p1 k1 where put: "pipe_put hook b p k = (d, p1, k1)" by (metis prod_cases3)
  note law = pipe_chan.put_law [OF Cons.prems(1) put]
  have "length (contents p) \<le> 256" by (rule pipe_chan.bound [OF Cons.prems(1)])
  show ?case
  proof (cases d)
    case True
    then have "pipe_write hook bs p1 k1 = (rest, p', k')" using Cons.prems(2) put by simp
    moreover have "256 - length (contents p) = Suc (256 - Suc (length (contents p)))"
      using Suc_diff_Suc [of "length (contents p)" 256] law True by simp
    ultimately show ?thesis using Cons.IH [of p1 k1] law True by simp
  next
    case False
    then show ?thesis using Cons.prems(2) put law by simp
  qed
qed simp

lemma pipe_read_loop_takes:
  assumes "pipe_ok p" "pipe_read_loop hook n out p k = (done, out', p', k')"
  shows "pipe_ok p' \<and> out' = out @ take n (contents p) \<and> contents p' = drop n (contents p) \<and>
    (done \<longleftrightarrow> n = 0 \<or> out \<noteq> [] \<or> contents p \<noteq> [])"
  using assms
proof (induction n arbitrary: out p k)
  case (Suc n)
  obtain r p1 k1 where get: "pipe_get hook (out \<noteq> []) p k = (r, p1, k1)" by (metis prod_cases3)
  note law = pipe_chan.get_law [OF Suc.prems(1) get]
  show ?case
  proof (cases "contents p")
    case Nil
    then show ?thesis using law Suc.prems(2) get by (auto split: if_splits)
  next
    case (Cons b bs)
    then show ?thesis using law Suc.prems(2) get Suc.IH [of p1 "out @ [b]" k1] by auto
  qed
qed simp

section \<open>Properties\<close>

text \<open>
  (C17) The pipe is a first-in first-out channel: in every interleaving of writers and readers, at
  every moment, the bytes read are a prefix of the bytes written and the rest, at most 256 of
  them, is what the ring buffer holds, in order.
\<close>

theorem pipe_fifo:
  assumes "(channel_step (pipe_put hook) (pipe_get hook))\<^sup>*\<^sup>* (pipe_init, [], []) (p, w, r)"
  shows "pipe_ok p \<and> w = r @ contents p \<and> length (contents p) \<le> 256"
  using pipe_chan.history_fifo [OF assms] by simp

theorem pipe_fifo_witness:
  "\<exists>p. (channel_step (pipe_put (\<lambda>_ _ k. k :: unit kernel)) (pipe_get (\<lambda>_ _ k. k)))\<^sup>*\<^sup>* (pipe_init, [], []) (p, [7], []) \<and>
     contents p = [7]"
proof -
  obtain d p k where run: "pipe_put (\<lambda>_ _ k. k) 7 pipe_init example_kernel = (d, p, k)" by (metis prod_cases3)
  then have d using pipe_chan.put_law [OF _ run] by simp
  with run have "pipe_put (\<lambda>_ _ k. k) 7 pipe_init example_kernel = (True, p, k)" by simp
  then have "channel_step (pipe_put (\<lambda>_ _ k. k :: unit kernel)) (pipe_get (\<lambda>_ _ k. k)) (pipe_init, [], []) (p, [] @ [7], [])"
    by (rule channel_step.stored)
  then have reach: "(channel_step (pipe_put (\<lambda>_ _ k. k :: unit kernel)) (pipe_get (\<lambda>_ _ k. k)))\<^sup>*\<^sup>* (pipe_init, [], []) (p, [7], [])"
    by simp
  from pipe_fifo [OF this] reach show ?thesis by (intro exI [of _ p]) simp
qed

text \<open>
  A call of \<open>pipe_write\<close> stores as many bytes as there is room for and blocks exactly when some
  remain; a call of \<open>pipe_read\<close> takes as many bytes as are available, up to the maximum asked, and
  blocks exactly when the pipe is empty and at least one byte was asked for.
\<close>

theorem pipe_transfer:
  assumes "pipe_ok p"
  shows "(\<exists>p' k'. pipe_write hook data p k = (drop (256 - length (contents p)) data, p', k') \<and> pipe_ok p' \<and>
      contents p' = contents p @ take (256 - length (contents p)) data) \<and>
    (\<exists>p' k'. pipe_read hook n p k = (n = 0 \<or> contents p \<noteq> [], take (unat n) (contents p), p', k') \<and>
      pipe_ok p' \<and> contents p' = drop (unat n) (contents p))"
proof (rule conjI)
  obtain rest p' k' where w: "pipe_write hook data p k = (rest, p', k')" by (metis prod_cases3)
  show "\<exists>p' k'. pipe_write hook data p k = (drop (256 - length (contents p)) data, p', k') \<and> pipe_ok p' \<and>
      contents p' = contents p @ take (256 - length (contents p)) data"
    using pipe_write_takes [OF assms w] w by blast
  obtain d out p2 k2 where r: "pipe_read_loop hook (unat n) [] p k = (d, out, p2, k2)" by (metis prod_cases4)
  have "unat n = 0 \<longleftrightarrow> n = 0" by (simp add: unat_eq_0)
  then show "\<exists>p' k'. pipe_read hook n p k = (n = 0 \<or> contents p \<noteq> [], take (unat n) (contents p), p', k') \<and>
      pipe_ok p' \<and> contents p' = drop (unat n) (contents p)"
    using pipe_read_loop_takes [OF assms r] r by (auto simp: pipe_read_def)
qed

theorem pipe_transfer_witness:
  "\<exists>p' k'. pipe_write (\<lambda>_ _ k. k) [1, 2, 3] pipe_init example_kernel = ([], p', k') \<and> contents p' = [1, 2, 3]"
  using pipe_transfer [OF pipe_init_ok(1), where hook = "\<lambda>_ _ k. k" and data = "[1, 2, 3]" and k = example_kernel and n = 0]
  by auto

end
