(* ===== verification/Terminal.thy ===== *)
theory Terminal
  imports Ata Kstring
begin

text \<open>
  The VGA text console of \<open>drivers/terminal.c\<close>: the 80 by 25 cell grid, the hardware cursor,
  scrolling, number formatting and \<open>kprintf\<close>.

  The frame buffer is a function from cell offsets to cells, so that a write outside the grid
  would show.  The VGA controller is reached through ports and is a parameter \<open>io\<close>, as in the disk
  driver.  The variable arguments of \<open>kprintf\<close> are the stack words that follow the format,
  and \<open>str_at\<close> gives the string at an address.
\<close>

section \<open>State and cells\<close>

datatype vga_colour =
    VGA_BLACK | VGA_BLUE | VGA_GREEN | VGA_CYAN | VGA_RED | VGA_MAGENTA | VGA_BROWN | VGA_LIGHT_GREY
  | VGA_DARK_GREY | VGA_LIGHT_BLUE | VGA_LIGHT_GREEN | VGA_LIGHT_CYAN | VGA_LIGHT_RED | VGA_PINK
  | VGA_YELLOW | VGA_WHITE

primrec vga_code :: "vga_colour \<Rightarrow> u8" where
  "vga_code VGA_BLACK = 0" | "vga_code VGA_BLUE = 1" | "vga_code VGA_GREEN = 2"
| "vga_code VGA_CYAN = 3" | "vga_code VGA_RED = 4" | "vga_code VGA_MAGENTA = 5"
| "vga_code VGA_BROWN = 6" | "vga_code VGA_LIGHT_GREY = 7" | "vga_code VGA_DARK_GREY = 8"
| "vga_code VGA_LIGHT_BLUE = 9" | "vga_code VGA_LIGHT_GREEN = 10" | "vga_code VGA_LIGHT_CYAN = 11"
| "vga_code VGA_LIGHT_RED = 12" | "vga_code VGA_PINK = 13" | "vga_code VGA_YELLOW = 14"
| "vga_code VGA_WHITE = 15"

record 'd terminal =
  terminal_row :: u32
  terminal_column :: u32
  terminal_colour :: u8
  terminal_buffer :: "u32 \<Rightarrow> u16"
  vga :: 'd
  cpu_flags :: u32

definition VGA_WIDTH :: u32 where "VGA_WIDTH = 80"
definition VGA_HEIGHT :: u32 where "VGA_HEIGHT = 25"
definition VGA_CTRL_PORT :: u16 where "VGA_CTRL_PORT = 0x3D4"
definition VGA_DATA_PORT :: u16 where "VGA_DATA_PORT = 0x3D5"

definition console_lock :: "'d terminal \<Rightarrow> u32 \<times> 'd terminal" where
  "console_lock t = (cpu_flags t, t\<lparr>cpu_flags := cpu_flags t AND NOT 0x200\<rparr>)"

definition console_unlock :: "u32 \<Rightarrow> 'd terminal \<Rightarrow> 'd terminal" where
  "console_unlock flags t =
     (if flags AND 0x200 \<noteq> 0 then t\<lparr>cpu_flags := cpu_flags t OR 0x200\<rparr> else t)"

definition vga_entry_colour :: "vga_colour \<Rightarrow> vga_colour \<Rightarrow> u8" where
  "vga_entry_colour fg bg = vga_code fg OR push_bit 4 (vga_code bg)"

definition vga_entry :: "u8 \<Rightarrow> u8 \<Rightarrow> u16" where
  "vga_entry ch colour = ucast ch OR push_bit 8 (ucast colour)"

section \<open>The hardware cursor\<close>

definition terminal_enable_cursor :: "'d ports \<Rightarrow> u8 \<Rightarrow> u8 \<Rightarrow> 'd terminal \<Rightarrow> 'd terminal" where
  "terminal_enable_cursor io start_line end_line t =
     (let d1 = outb io VGA_CTRL_PORT 0x0A (vga t)
      in case inb io VGA_DATA_PORT d1 of (v, d2) \<Rightarrow>
           let d3 = outb io VGA_CTRL_PORT 0x0B (outb io VGA_DATA_PORT ((v AND 0xC0) OR start_line) d2)
           in case inb io VGA_DATA_PORT d3 of (w, d4) \<Rightarrow>
                t\<lparr>vga := outb io VGA_DATA_PORT ((w AND 0xE0) OR end_line) d4\<rparr>)"

definition terminal_move_cursor :: "'d ports \<Rightarrow> u32 \<Rightarrow> u32 \<Rightarrow> 'd terminal \<Rightarrow> 'd terminal" where
  "terminal_move_cursor io x y t =
     (let pos = ucast (y * VGA_WIDTH + x) :: u16;
          d1 = outb io VGA_CTRL_PORT 0x0F (vga t);
          d2 = outb io VGA_DATA_PORT (ucast (pos AND 0xFF)) d1;
          d3 = outb io VGA_CTRL_PORT 0x0E d2
      in t\<lparr>vga := outb io VGA_DATA_PORT (ucast (drop_bit 8 pos AND 0xFF)) d3\<rparr>)"

section \<open>Writing cells\<close>

definition set_cell :: "u32 \<Rightarrow> u16 \<Rightarrow> 'd terminal \<Rightarrow> 'd terminal" where
  "set_cell i c t = t\<lparr>terminal_buffer := (terminal_buffer t)(i := c)\<rparr>"

text \<open>The two nested loops over rows and columns.\<close>

definition blank_cell :: "nat \<Rightarrow> nat \<Rightarrow> 'd terminal \<Rightarrow> 'd terminal" where
  "blank_cell y x t =
     set_cell (word_of_nat y * VGA_WIDTH + word_of_nat x) (vga_entry 32 (terminal_colour t)) t"

definition blank_all :: "'d terminal \<Rightarrow> 'd terminal" where
  "blank_all t = fold (\<lambda>y. fold (blank_cell y) [0..<80]) [0..<25] t"

definition terminal_initialise :: "'d ports \<Rightarrow> 'd terminal \<Rightarrow> 'd terminal" where
  "terminal_initialise io t =
     (let t1 = t\<lparr>terminal_row := 0, terminal_column := 0,
                 terminal_colour := vga_entry_colour VGA_LIGHT_GREY VGA_BLACK\<rparr>
      in terminal_move_cursor io 0 0 (blank_all (terminal_enable_cursor io 14 15 t1)))"

definition terminal_set_colour :: "u8 \<Rightarrow> 'd terminal \<Rightarrow> 'd terminal" where
  "terminal_set_colour colour t = t\<lparr>terminal_colour := colour\<rparr>"

definition terminal_put_at :: "u8 \<Rightarrow> u8 \<Rightarrow> u32 \<Rightarrow> u32 \<Rightarrow> 'd terminal \<Rightarrow> 'd terminal" where
  "terminal_put_at ch colour x y t = set_cell (y * VGA_WIDTH + x) (vga_entry ch colour) t"

definition terminal_clear :: "'d ports \<Rightarrow> 'd terminal \<Rightarrow> 'd terminal" where
  "terminal_clear io t =
     terminal_move_cursor io 0 0 ((blank_all t)\<lparr>terminal_row := 0, terminal_column := 0\<rparr>)"

definition terminal_backspace :: "'d ports \<Rightarrow> 'd terminal \<Rightarrow> 'd terminal" where
  "terminal_backspace io t =
     (if terminal_column t > 0
      then
        let t1 = t\<lparr>terminal_column := terminal_column t - 1\<rparr>;
            t2 = terminal_put_at 32 (terminal_colour t1) (terminal_column t1) (terminal_row t1) t1
        in terminal_move_cursor io (terminal_column t2) (terminal_row t2) t2
      else t)"

definition shift_cell :: "nat \<Rightarrow> nat \<Rightarrow> 'd terminal \<Rightarrow> 'd terminal" where
  "shift_cell y x t =
     set_cell ((word_of_nat y - 1) * VGA_WIDTH + word_of_nat x)
       (terminal_buffer t (word_of_nat y * VGA_WIDTH + word_of_nat x)) t"

definition terminal_scroll :: "'d terminal \<Rightarrow> 'd terminal" where
  "terminal_scroll t =
     fold (blank_cell 24) [0..<80] (fold (\<lambda>y. fold (shift_cell y) [0..<80]) [1..<25] t)"

definition terminal_putchar :: "'d ports \<Rightarrow> u8 \<Rightarrow> 'd terminal \<Rightarrow> 'd terminal" where
  "terminal_putchar io ch t =
     (let t1 =
        (if ch = 10
         then t\<lparr>terminal_column := 0, terminal_row := terminal_row t + 1\<rparr>
         else
           let p = terminal_put_at ch (terminal_colour t) (terminal_column t) (terminal_row t) t;
               q = p\<lparr>terminal_column := terminal_column p + 1\<rparr>
           in if terminal_column q = VGA_WIDTH
              then q\<lparr>terminal_column := 0, terminal_row := terminal_row q + 1\<rparr> else q);
          t2 = (if terminal_row t1 = VGA_HEIGHT
                then (terminal_scroll t1)\<lparr>terminal_row := VGA_HEIGHT - 1\<rparr> else t1)
      in terminal_move_cursor io (terminal_column t2) (terminal_row t2) t2)"

definition terminal_write :: "'d ports \<Rightarrow> cstring \<Rightarrow> 'd terminal \<Rightarrow> 'd terminal" where
  "terminal_write io str t =
     (case console_lock t of (flags, t1) \<Rightarrow> console_unlock flags (fold (terminal_putchar io) str t1))"

section \<open>Numbers and formats\<close>

abbreviation digits :: "u8 list" where
  "digits \<equiv> [0x30, 0x31, 0x32, 0x33, 0x34, 0x35, 0x36, 0x37, 0x38, 0x39, 0x61, 0x62, 0x63, 0x64, 0x65, 0x66]"

text \<open>
  \<open>while (value != 0)\<close>: with base 1 the loop would not end, hence the option.  \<open>i\<close> is the index
  into \<open>buf\<close>, an array of 32 bytes.  The loop is the same at every width.
\<close>

partial_function (option) digit_loop :: "'w::len word \<Rightarrow> 'w word \<Rightarrow> nat \<Rightarrow> u8 list \<Rightarrow> (nat \<times> u8 list) option" where
  [code]: "digit_loop v base i buf =
     (if v \<noteq> 0 then digit_loop (v div base) base (i + 1) (buf[i := digits ! unat (v mod base)])
      else Some (i, buf))"

fun emit_back :: "'d ports \<Rightarrow> nat \<Rightarrow> u8 list \<Rightarrow> 'd terminal \<Rightarrow> 'd terminal" where
  "emit_back io 0 buf t = t"
| "emit_back io (Suc i) buf t = emit_back io i buf (terminal_putchar io (buf ! i) t)"

text \<open>The array starts with whatever the stack holds: \<open>junk\<close>.\<close>

definition terminal_write_uint ::
  "'d ports \<Rightarrow> u8 list \<Rightarrow> u32 \<Rightarrow> u32 \<Rightarrow> 'd terminal \<Rightarrow> 'd terminal option" where
  "terminal_write_uint io junk v base t =
     (if v = 0 then Some (terminal_putchar io 0x30 t)
      else case digit_loop v base 0 junk of
             None \<Rightarrow> None
           | Some (i, buf) \<Rightarrow> Some (emit_back io i buf t))"

definition terminal_write_int :: "'d ports \<Rightarrow> u8 list \<Rightarrow> u32 \<Rightarrow> 'd terminal \<Rightarrow> 'd terminal option" where
  "terminal_write_int io junk v t =
     (if v <s 0 then terminal_write_uint io junk (- v) 10 (terminal_putchar io 0x2D t)
      else terminal_write_uint io junk v 10 t)"

text \<open>
  The loop of \<open>kprintf\<close>: \<open>va n\<close> is the \<open>n\<close>-th word after the format on the stack.  At a trailing
  \<open>%\<close> the index is put back, and the loop ends at the terminator.
\<close>

fun kprintf_loop ::
  "'d ports \<Rightarrow> (u32 \<Rightarrow> cstring) \<Rightarrow> u8 list \<Rightarrow> (nat \<Rightarrow> u32) \<Rightarrow> cstring \<Rightarrow> nat \<Rightarrow> 'd terminal \<Rightarrow> 'd terminal option" where
  "kprintf_loop io str_at junk va [] n t = Some t"
| "kprintf_loop io str_at junk va [c] n t = Some (if c \<noteq> 0x25 then terminal_putchar io c t else t)"
| "kprintf_loop io str_at junk va (c # d # cs) n t =
     (if c \<noteq> 0x25 then kprintf_loop io str_at junk va (d # cs) n (terminal_putchar io c t)
      else if d = 0x64
      then Option.bind (terminal_write_int io junk (va n) t) (kprintf_loop io str_at junk va cs (n + 1))
      else if d = 0x75
      then Option.bind (terminal_write_uint io junk (va n) 10 t) (kprintf_loop io str_at junk va cs (n + 1))
      else if d = 0x78
      then Option.bind (terminal_write_uint io junk (va n) 16 t) (kprintf_loop io str_at junk va cs (n + 1))
      else if d = 0x73
      then kprintf_loop io str_at junk va cs (n + 1) (terminal_write io (str_at (va n)) t)
      else if d = 0x63
      then kprintf_loop io str_at junk va cs (n + 1) (terminal_putchar io (ucast (va n)) t)
      else if d = 0x25
      then kprintf_loop io str_at junk va cs n (terminal_putchar io 0x25 t)
      else kprintf_loop io str_at junk va cs n (terminal_putchar io d (terminal_putchar io 0x25 t)))"

definition kprintf ::
  "'d ports \<Rightarrow> (u32 \<Rightarrow> cstring) \<Rightarrow> u8 list \<Rightarrow> (nat \<Rightarrow> u32) \<Rightarrow> cstring \<Rightarrow> 'd terminal \<Rightarrow> 'd terminal option" where
  "kprintf io str_at junk va fmt t =
     (case console_lock t of (flags, t1) \<Rightarrow>
        map_option (console_unlock flags) (kprintf_loop io str_at junk va fmt 0 t1))"

section \<open>Closed forms of the loops\<close>

lemma cell_index [simp]: "word_of_nat y * VGA_WIDTH + word_of_nat x = (word_of_nat (y * 80 + x) :: u32)"
  by (simp add: VGA_WIDTH_def)

lemma eq_word_of_nat_iff: "m < 4294967296 \<Longrightarrow> i = (word_of_nat m :: u32) \<longleftrightarrow> unat i = m"
  by (metis unat32_of_nat word_of_nat_unat)

lemma empty_range [simp]: "(\<lambda>i. if a \<le> g i \<and> g i < (a :: nat) then b i else f i) = f"
  by (auto simp: fun_eq_iff)

lemma blank_row:
  assumes "y < 25" "n \<le> 80"
  shows "fold (blank_cell y) [0..<n] t = t\<lparr>terminal_buffer := \<lambda>i.
    if y * 80 \<le> unat i \<and> unat i < y * 80 + n then vga_entry 32 (terminal_colour t) else terminal_buffer t i\<rparr>"
  using assms(2)
proof (induction n)
  case (Suc n)
  have "i = word_of_nat (y * 80 + n) \<longleftrightarrow> unat i = y * 80 + n" for i :: u32
    using assms(1) Suc.prems by (intro eq_word_of_nat_iff) simp
  then show ?case using Suc by (auto simp: blank_cell_def set_cell_def fun_upd_def fun_eq_iff)
qed simp

lemma blank_all_eq:
  "blank_all t = t\<lparr>terminal_buffer := \<lambda>i.
    if unat i < 2000 then vga_entry 32 (terminal_colour t) else terminal_buffer t i\<rparr>"
proof -
  have "fold (\<lambda>y. fold (blank_cell y) [0..<80]) [0..<n] t = t\<lparr>terminal_buffer := \<lambda>i.
      if unat i < n * 80 then vga_entry 32 (terminal_colour t) else terminal_buffer t i\<rparr>" if "n \<le> 25" for n
    using that by (induction n) (auto simp: blank_row fun_eq_iff)
  from this [of 25] show ?thesis by (simp add: blank_all_def)
qed

lemma buffer_update:
  "terminal_buffer (t\<lparr>terminal_buffer := A\<rparr>) = A" "t\<lparr>terminal_buffer := A, terminal_buffer := C\<rparr> = t\<lparr>terminal_buffer := C\<rparr>"
  by simp_all

lemma shift_row:
  assumes "1 \<le> y" "y < 25" "n \<le> 80"
  shows "fold (shift_cell y) [0..<n] t = t\<lparr>terminal_buffer := \<lambda>i.
    if (y - 1) * 80 \<le> unat i \<and> unat i < (y - 1) * 80 + n then terminal_buffer t (i + 80) else terminal_buffer t i\<rparr>"
  using assms(3)
proof (induction n)
  case (Suc n)
  let ?m = "(y - 1) * 80 + n"
  have y: "word_of_nat y - 1 = (word_of_nat (y - 1) :: u32)" using assms(1) by (simp add: of_nat_diff)
  have "y * 80 + n = ?m + 80" using assms(1) by (cases y) simp_all
  then have src: "(word_of_nat (y * 80 + n) :: u32) = word_of_nat ?m + 80" by simp
  have usrc: "unat (word_of_nat (y * 80 + n) :: u32) = y * 80 + n" using assms(2) Suc.prems by (intro unat32_of_nat) simp
  have dst: "i = word_of_nat ?m \<longleftrightarrow> unat i = ?m" for i :: u32
    using assms(2) Suc.prems by (intro eq_word_of_nat_iff) simp
  have keep: "\<not> (unat (word_of_nat (y * 80 + n) :: u32) < (y - 1) * 80 + n)" using usrc by simp
  define B where "B = (\<lambda>i. if (y - 1) * 80 \<le> unat i \<and> unat i < ?m then terminal_buffer t (i + 80) else terminal_buffer t i)"
  have ih: "fold (shift_cell y) [0..<n] t = t\<lparr>terminal_buffer := B\<rparr>" using Suc unfolding B_def by simp
  have "B (word_of_nat (y * 80 + n)) = terminal_buffer t (word_of_nat ?m + 80)" using keep unfolding B_def src by (simp only: if_False HOL.simp_thms)
  then have "fold (shift_cell y) [0..<Suc n] t =
      t\<lparr>terminal_buffer := B(word_of_nat ?m := terminal_buffer t (word_of_nat ?m + 80))\<rparr>"
    unfolding upt_Suc_append [OF le0] fold_append comp_def ih by (simp only: shift_cell_def set_cell_def y cell_index fold.simps id_apply comp_def buffer_update)
  moreover have "B(word_of_nat ?m := terminal_buffer t (word_of_nat ?m + 80)) =
      (\<lambda>i. if (y - 1) * 80 \<le> unat i \<and> unat i < (y - 1) * 80 + Suc n then terminal_buffer t (i + 80)
        else terminal_buffer t i)"
    unfolding fun_eq_iff fun_upd_def B_def
  proof (intro allI)
    fix i :: u32
    show "(if i = word_of_nat ?m then terminal_buffer t (word_of_nat ?m + 80)
        else if (y - 1) * 80 \<le> unat i \<and> unat i < ?m then terminal_buffer t (i + 80) else terminal_buffer t i) =
      (if (y - 1) * 80 \<le> unat i \<and> unat i < (y - 1) * 80 + Suc n then terminal_buffer t (i + 80) else terminal_buffer t i)"
      using dst [of i] by (cases "unat i = ?m") auto
  qed
  ultimately show ?case by (simp only:)
qed simp

lemma terminal_scroll_eq:
  "terminal_scroll t = t\<lparr>terminal_buffer := \<lambda>i.
    if unat i < 1920 then terminal_buffer t (i + 80)
    else if unat i < 2000 then vga_entry 32 (terminal_colour t) else terminal_buffer t i\<rparr>"
proof -
  have "fold (\<lambda>y. fold (shift_cell y) [0..<80]) [1..<Suc n] t = t\<lparr>terminal_buffer := \<lambda>i.
      if unat i < n * 80 then terminal_buffer t (i + 80) else terminal_buffer t i\<rparr>" if "n < 25" for n
    using that
  proof (induction n)
    case (Suc n)
    let ?B = "\<lambda>i. if unat i < n * 80 then terminal_buffer t (i + 80) else terminal_buffer t i"
    have far: "unat (i + 80) = unat i + 80" if "unat i < Suc n * 80" for i :: u32
      using that Suc.prems unat32_plus [of i 80] by simp
    have "[1..<Suc (Suc n)] = [1..<Suc n] @ [Suc n]" by simp
    then have "fold (\<lambda>y. fold (shift_cell y) [0..<80]) [1..<Suc (Suc n)] t =
        fold (shift_cell (Suc n)) [0..<80] (t\<lparr>terminal_buffer := ?B\<rparr>)" using Suc by simp
    also have "\<dots> = t\<lparr>terminal_buffer := \<lambda>i. if n * 80 \<le> unat i \<and> unat i < n * 80 + 80 then ?B (i + 80) else ?B i\<rparr>"
      using Suc.prems by (simp add: shift_row cong: if_cong)
    also have "(\<lambda>i. if n * 80 \<le> unat i \<and> unat i < n * 80 + 80 then ?B (i + 80) else ?B i) =
        (\<lambda>i. if unat i < Suc n * 80 then terminal_buffer t (i + 80) else terminal_buffer t i)"
      using far by (auto simp: fun_eq_iff)
    finally show ?case .
  qed simp
  from this [of 24] show ?thesis by (simp add: terminal_scroll_def blank_row fun_eq_iff)
qed

section \<open>The screen\<close>

text \<open>
  The abstract console: the rows of cells and the position of the cursor.  \<open>put_char\<close> is what a
  character does to it in a given colour.
\<close>

type_synonym screen = "u16 list list \<times> nat \<times> nat"

definition rows_of :: "'d terminal \<Rightarrow> u16 list list" where
  "rows_of t = map (\<lambda>y. map (\<lambda>x. terminal_buffer t (word_of_nat (y * 80 + x))) [0..<80]) [0..<25]"

definition screen_of :: "'d terminal \<Rightarrow> screen" where
  "screen_of t = (rows_of t, unat (terminal_row t), unat (terminal_column t))"

fun line_feed :: "u8 \<Rightarrow> screen \<Rightarrow> screen" where
  "line_feed col (rows, r, c) =
     (if r + 1 = 25 then (tl rows @ [replicate 80 (vga_entry 32 col)], r, 0) else (rows, r + 1, 0))"

fun put_char :: "u8 \<Rightarrow> u8 \<Rightarrow> screen \<Rightarrow> screen" where
  "put_char col ch (rows, r, c) =
     (if ch = 10 then line_feed col (rows, r, c)
      else
        let rows' = rows[r := (rows ! r)[c := vga_entry ch col]]
        in if c + 1 = 80 then line_feed col (rows', r, c) else (rows', r, c + 1))"

definition term_ok :: "'d terminal \<Rightarrow> bool" where
  "term_ok t \<longleftrightarrow> terminal_row t < 25 \<and> terminal_column t < 80"

lemma rows_of_nth: "y < 25 \<Longrightarrow> x < 80 \<Longrightarrow> rows_of t ! y ! x = terminal_buffer t (word_of_nat (y * 80 + x))"
  by (simp add: rows_of_def)

lemma rows_of_length [simp]: "length (rows_of t) = 25" "y < 25 \<Longrightarrow> length (rows_of t ! y) = 80"
  by (simp_all add: rows_of_def)

lemma rows_eqI:
  assumes "length rows = 25" "\<And>y. y < 25 \<Longrightarrow> length (rows ! y) = 80"
    "\<And>y x. y < 25 \<Longrightarrow> x < 80 \<Longrightarrow> terminal_buffer t (word_of_nat (y * 80 + x)) = rows ! y ! x"
  shows "rows_of t = rows"
  using assms by (auto intro!: nth_equalityI simp: rows_of_nth)

lemma unat_cell: "y < 25 \<Longrightarrow> x < 80 \<Longrightarrow> unat (word_of_nat (y * 80 + x) :: u32) = y * 80 + x"
  by (rule unat32_of_nat) simp

lemma rows_of_scroll:
  "rows_of (terminal_scroll t) = tl (rows_of t) @ [replicate 80 (vga_entry 32 (terminal_colour t))]"
proof (rule rows_eqI)
  fix y x :: nat
  assume yx: "y < 25" "x < 80"
  show "terminal_buffer (terminal_scroll t) (word_of_nat (y * 80 + x)) =
      (tl (rows_of t) @ [replicate 80 (vga_entry 32 (terminal_colour t))]) ! y ! x"
  proof (cases "y < 24")
    case True
    have "(word_of_nat (y * 80 + x) + 80 :: u32) = word_of_nat (Suc y * 80 + x)" by simp
    then have "terminal_buffer t (word_of_nat (y * 80 + x) + 80) = rows_of t ! Suc y ! x"
      using True yx(2) rows_of_nth [of "Suc y" x t] by (simp add: algebra_simps)
    then show ?thesis using True yx
      by (simp add: terminal_scroll_eq unat_cell nth_append nth_tl del: of_nat_add of_nat_mult)
  next
    case False
    then have "y = 24" using yx by simp
    then show ?thesis using yx unat_cell [OF yx]
      by (simp add: terminal_scroll_eq nth_append del: of_nat_add of_nat_mult)
  qed
next
  fix y :: nat
  assume "y < 25"
  then show "length ((tl (rows_of t) @ [replicate 80 (vga_entry 32 (terminal_colour t))]) ! y) = 80"
    by (cases "y < 24") (simp_all add: nth_append nth_tl)
qed simp

lemma cell_of_cursor:
  assumes "r < 25" "c < 80"
  shows "unat (r * VGA_WIDTH + c) = unat r * 80 + unat c"
proof -
  have "unat r < 25" "unat c < 80" using assms by (simp_all add: word_less_nat_alt)
  then show ?thesis unfolding VGA_WIDTH_def
    by (subst unat32_plus; subst unat32_mult; simp)+
qed

lemma grid_index_unique:
  fixes a b c d :: nat
  assumes "c < 80" "d < 80"
  shows "a * 80 + c = b * 80 + d \<longleftrightarrow> a = b \<and> c = d"
proof -
  have "(a * 80 + c) div 80 = a" "(b * 80 + d) div 80 = b" using assms by simp_all
  then show ?thesis by (metis add_left_cancel)
qed

lemma rows_of_put_at:
  assumes "r < 25" "c < 80"
  shows "rows_of (terminal_put_at ch col c r t) =
    (rows_of t)[unat r := (rows_of t ! unat r)[unat c := vga_entry ch col]]"
proof -
  have u: "unat r < 25" "unat c < 80" using assms by (simp_all add: word_less_nat_alt)
  show ?thesis
  proof (rule rows_eqI)
    fix y x :: nat
    assume yx: "y < 25" "x < 80"
    have "word_of_nat (y * 80 + x) = r * VGA_WIDTH + c \<longleftrightarrow> y * 80 + x = unat r * 80 + unat c"
      unfolding word_unat_eq_iff cell_of_cursor [OF assms] unat_cell [OF yx] by simp
    also have "\<dots> \<longleftrightarrow> y = unat r \<and> x = unat c" by (rule grid_index_unique [OF yx(2) u(2)])
    finally show "terminal_buffer (terminal_put_at ch col c r t) (word_of_nat (y * 80 + x)) =
        (rows_of t)[unat r := (rows_of t ! unat r)[unat c := vga_entry ch col]] ! y ! x"
      using u yx by (auto simp: terminal_put_at_def set_cell_def nth_list_update rows_of_nth simp del: of_nat_add of_nat_mult)
  next
    fix y :: nat
    assume "y < 25"
    then show "length ((rows_of t)[unat r := (rows_of t ! unat r)[unat c := vga_entry ch col]] ! y) = 80"
      using u by (simp add: nth_list_update)
  qed simp
qed

lemma move_cursor_fields [simp]:
  "terminal_buffer (terminal_move_cursor io x y t) = terminal_buffer t"
  "terminal_row (terminal_move_cursor io x y t) = terminal_row t"
  "terminal_column (terminal_move_cursor io x y t) = terminal_column t"
  "terminal_colour (terminal_move_cursor io x y t) = terminal_colour t"
  "cpu_flags (terminal_move_cursor io x y t) = cpu_flags t"
  by (simp_all add: terminal_move_cursor_def Let_def)

lemma rows_of_cong: "terminal_buffer t = terminal_buffer t' \<Longrightarrow> rows_of t = rows_of t'"
  by (simp add: rows_of_def)

text \<open>The state of the terminal just before the cursor is moved at the end of \<open>terminal_putchar\<close>.\<close>

definition advance :: "u8 \<Rightarrow> 'd terminal \<Rightarrow> 'd terminal" where
  "advance ch t =
     (let t1 = (if ch = 10 then t else terminal_put_at ch (terminal_colour t) (terminal_column t) (terminal_row t) t)
      in if ch \<noteq> 10 \<and> terminal_column t + 1 \<noteq> 80 then t1\<lparr>terminal_column := terminal_column t + 1\<rparr>
         else if terminal_row t + 1 = 25 then (terminal_scroll t1)\<lparr>terminal_column := 0, terminal_row := 24\<rparr>
         else t1\<lparr>terminal_column := 0, terminal_row := terminal_row t + 1\<rparr>)"

lemma scroll_position:
  "terminal_scroll (t\<lparr>terminal_column := x, terminal_row := y\<rparr>) = (terminal_scroll t)\<lparr>terminal_column := x, terminal_row := y\<rparr>"
  "terminal_scroll (t\<lparr>terminal_row := y\<rparr>) = (terminal_scroll t)\<lparr>terminal_row := y\<rparr>"
  "terminal_scroll (t\<lparr>terminal_column := x\<rparr>) = (terminal_scroll t)\<lparr>terminal_column := x\<rparr>"
  by (simp_all add: terminal_scroll_eq cong: if_cong)

lemma put_at_fields [simp]:
  "terminal_row (terminal_put_at ch col x y t) = terminal_row t"
  "terminal_column (terminal_put_at ch col x y t) = terminal_column t"
  "terminal_colour (terminal_put_at ch col x y t) = terminal_colour t"
  "vga (terminal_put_at ch col x y t) = vga t" "cpu_flags (terminal_put_at ch col x y t) = cpu_flags t"
  by (simp_all add: terminal_put_at_def set_cell_def)

lemma putchar_advance:
  assumes "term_ok t"
  shows "terminal_putchar io ch t =
    terminal_move_cursor io (terminal_column (advance ch t)) (terminal_row (advance ch t)) (advance ch t)"
proof -
  have "terminal_row t \<noteq> 25" using assms by (auto simp: term_ok_def)
  then show ?thesis
    by (cases "ch = 10"; cases "terminal_column t + 1 = 80"; cases "terminal_row t + 1 = 25")
      (simp_all add: terminal_putchar_def advance_def Let_def VGA_WIDTH_def VGA_HEIGHT_def scroll_position)
qed

lemma word_inc_less:
  assumes "(x :: u32) < n" "n \<le> 80"
  shows "x + 1 = n \<longleftrightarrow> unat x + 1 = unat n" "unat (x + 1) = unat x + 1"
proof -
  show u: "unat (x + 1) = unat x + 1" using unat_Suc_less [OF assms(1)] by simp
  show "x + 1 = n \<longleftrightarrow> unat x + 1 = unat n" unfolding word_unat_eq_iff u ..
qed

lemma advance_correct:
  assumes "term_ok t"
  shows "screen_of (advance ch t) = put_char (terminal_colour t) ch (screen_of t)" (is ?screen)
    and "term_ok (advance ch t)" (is ?ok)
    and "2000 \<le> unat i \<Longrightarrow> terminal_buffer (advance ch t) i = terminal_buffer t i"
    and "terminal_colour (advance ch t) = terminal_colour t"
    and "vga (advance ch t) = vga t" and "cpu_flags (advance ch t) = cpu_flags t"
proof -
  have rc: "terminal_row t < 25" "terminal_column t < 80" using assms by (simp_all add: term_ok_def)
  define t1 where "t1 = (if ch = 10 then t
    else terminal_put_at ch (terminal_colour t) (terminal_column t) (terminal_row t) t)"
  have t1: "terminal_row t1 = terminal_row t" "terminal_column t1 = terminal_column t"
    "terminal_colour t1 = terminal_colour t" "vga t1 = vga t" "cpu_flags t1 = cpu_flags t"
    by (simp_all add: t1_def terminal_put_at_def set_cell_def)
  have rows: "rows_of t1 = (if ch = 10 then rows_of t else (rows_of t)[unat (terminal_row t) :=
      (rows_of t ! unat (terminal_row t))[unat (terminal_column t) := vga_entry ch (terminal_colour t)]])"
    using rows_of_put_at [OF rc, of ch "terminal_colour t" t] by (simp add: t1_def)
  have out: "2000 \<le> unat i \<Longrightarrow> terminal_buffer t1 i = terminal_buffer t i" for i
    using cell_of_cursor [OF rc] rc by (auto simp: t1_def terminal_put_at_def set_cell_def word_less_nat_alt)
  have a: "advance ch t = (if ch \<noteq> 10 \<and> terminal_column t + 1 \<noteq> 80 then t1\<lparr>terminal_column := terminal_column t + 1\<rparr>
      else if terminal_row t + 1 = 25 then (terminal_scroll t1)\<lparr>terminal_column := 0, terminal_row := 24\<rparr>
      else t1\<lparr>terminal_column := 0, terminal_row := terminal_row t + 1\<rparr>)"
    by (simp add: advance_def Let_def t1_def)
  have u: "terminal_row t + 1 = 25 \<longleftrightarrow> unat (terminal_row t) + 1 = 25"
    "terminal_column t + 1 = 80 \<longleftrightarrow> unat (terminal_column t) + 1 = 80"
    "unat (terminal_row t + 1) = unat (terminal_row t) + 1"
    "unat (terminal_column t + 1) = unat (terminal_column t) + 1"
    using word_inc_less [OF rc(1)] word_inc_less [OF rc(2)] by simp_all
  have c: "rows_of (t1\<lparr>terminal_column := x\<rparr>) = rows_of t1" "rows_of (t1\<lparr>terminal_column := x, terminal_row := y\<rparr>) = rows_of t1"
    "rows_of ((terminal_scroll t1)\<lparr>terminal_column := x, terminal_row := y\<rparr>) = rows_of (terminal_scroll t1)" for x y
    by (rule rows_of_cong; simp)+
  consider "ch \<noteq> 10" "unat (terminal_column t) + 1 \<noteq> 80"
    | "ch = 10 \<or> unat (terminal_column t) + 1 = 80" "unat (terminal_row t) + 1 = 25"
    | "ch = 10 \<or> unat (terminal_column t) + 1 = 80" "unat (terminal_row t) + 1 \<noteq> 25" by blast
  then have "?screen \<and> ?ok"
  proof cases
    case 1
    then show ?thesis using rc u
      by (simp add: a screen_of_def c rows Let_def term_ok_def word_less_nat_alt t1)
  next
    case 2
    then show ?thesis using rc u
      by (auto simp: a screen_of_def c rows Let_def term_ok_def word_less_nat_alt rows_of_scroll t1)
  next
    case 3
    then show ?thesis using rc u
      by (auto simp: a screen_of_def c rows Let_def term_ok_def word_less_nat_alt)
  qed
  then show ?screen ?ok by blast+
  show "2000 \<le> unat i \<Longrightarrow> terminal_buffer (advance ch t) i = terminal_buffer t i"
    using out [of i] by (simp add: a terminal_scroll_eq)
  show "terminal_colour (advance ch t) = terminal_colour t" "vga (advance ch t) = vga t"
    "cpu_flags (advance ch t) = cpu_flags t"
    by (simp_all add: a terminal_scroll_eq t1)
qed

section \<open>The cursor registers\<close>

lemma unat_low_byte: "unat (ucast (p :: u16) :: u8) = unat p mod 256"
  by (simp add: unsigned_ucast_eq take_bit_eq_mod)

text \<open>
  What the VGA documents of the CRT controller: the index port selects a register, the data port
  writes it.
\<close>

definition cursor_of :: "(u8 \<Rightarrow> u8) \<Rightarrow> nat" where
  "cursor_of r = unat (r 0x0E) * 256 + unat (r 0x0F)"

locale crt_controller =
  fixes io :: "'d ports" and index :: "'d \<Rightarrow> u8" and reg :: "'d \<Rightarrow> u8 \<Rightarrow> u8"
  assumes select_index: "index (port_outb io 0x3D4 v d) = v" "reg (port_outb io 0x3D4 v d) = reg d"
    and write_reg: "reg (port_outb io 0x3D5 v d) = (reg d)(index d := v)" "index (port_outb io 0x3D5 v d) = index d"
begin

lemma move_cursor_registers:
  "reg (vga (terminal_move_cursor io x y t)) =
    (reg (vga t))(0x0F := ucast (ucast (y * VGA_WIDTH + x) :: u16), 0x0E := ucast (drop_bit 8 (ucast (y * VGA_WIDTH + x) :: u16)))"
proof -
  have m: "(0xFF :: u16) = mask 8" by (simp add: mask_eq_exp_minus_1)
  have "bit (0xFF :: u16) n" if "n < 8" for n using that unfolding m bit_mask_iff by simp
  then have "ucast (p AND 0xFF) = (ucast p :: u8)" for p :: u16
    by (intro bit_word_eqI) (simp add: bit_ucast_iff bit_and_iff)
  then show ?thesis
    by (simp add: terminal_move_cursor_def Let_def outb_def VGA_CTRL_PORT_def VGA_DATA_PORT_def write_reg select_index)
qed

lemma move_cursor_position:
  assumes "y < 25" "x < 80"
  shows "cursor_of (reg (vga (terminal_move_cursor io x y t))) = unat y * 80 + unat x"
proof -
  let ?p = "ucast (y * VGA_WIDTH + x) :: u16"
  have lt: "unat y * 80 + unat x < 2000" using assms by (simp add: word_less_nat_alt)
  have p: "unat ?p = unat y * 80 + unat x"
    using lt cell_of_cursor [OF assms] by (simp add: unsigned_ucast_eq take_bit_nat_eq_self)
  have lo: "unat (ucast ?p :: u8) = unat ?p mod 256" by (rule unat_low_byte)
  have hi: "unat (ucast (drop_bit 8 ?p) :: u8) = unat ?p div 256"
  proof -
    have "unat (drop_bit 8 ?p) = unat ?p div 256" by (simp only: drop_bit_eq_div unat_div) simp
    moreover have "unat ?p div 256 < 256" using p lt by simp
    ultimately show ?thesis by (simp add: unsigned_ucast_eq take_bit_nat_eq_self)
  qed
  have "cursor_of (reg (vga (terminal_move_cursor io x y t))) = unat ?p div 256 * 256 + unat ?p mod 256"
    unfolding cursor_of_def move_cursor_registers using lo hi by simp
  then show ?thesis using p by (simp only: div_mult_mod_eq)
qed

text \<open>The console and its cursor after any text.\<close>

lemma text_correct:
  fixes cs :: cstring
  assumes "term_ok t" "cursor_of (reg (vga t)) = unat (terminal_row t) * 80 + unat (terminal_column t)"
  defines "t' \<equiv> fold (terminal_putchar io) cs t"
  shows "screen_of t' = fold (put_char (terminal_colour t)) cs (screen_of t) \<and> term_ok t' \<and>
    (\<forall>i. 2000 \<le> unat i \<longrightarrow> terminal_buffer t' i = terminal_buffer t i) \<and>
    cursor_of (reg (vga t')) = unat (terminal_row t') * 80 + unat (terminal_column t') \<and>
    terminal_colour t' = terminal_colour t \<and> cpu_flags t' = cpu_flags t"
  using assms(1,2) unfolding t'_def
proof (induction cs arbitrary: t)
  case (Cons ch cs)
  let ?a = "advance ch t" and ?t = "terminal_putchar io ch t"
  note ac = advance_correct [OF Cons.prems(1)]
  have t: "?t = terminal_move_cursor io (terminal_column ?a) (terminal_row ?a) ?a"
    by (rule putchar_advance [OF Cons.prems(1)])
  have ok: "terminal_row ?a < 25" "terminal_column ?a < 80" using ac(2) by (simp_all add: term_ok_def)
  have "screen_of ?t = put_char (terminal_colour t) ch (screen_of t)" "term_ok ?t"
    using ac(1,2) rows_of_cong [of ?t ?a] t by (simp_all add: screen_of_def term_ok_def)
  moreover have "cursor_of (reg (vga ?t)) = unat (terminal_row ?t) * 80 + unat (terminal_column ?t)"
    using move_cursor_position [OF ok] t by simp
  moreover have "terminal_colour ?t = terminal_colour t" "cpu_flags ?t = cpu_flags t"
    "\<forall>i. 2000 \<le> unat i \<longrightarrow> terminal_buffer ?t i = terminal_buffer t i"
    using ac(3,4,6) t by simp_all
  ultimately show ?case using Cons.IH [of ?t] by simp
qed simp

end

text \<open>A controller that does what the documentation says and nothing else.\<close>

definition crt_io :: "(u8 \<times> (u8 \<Rightarrow> u8)) ports" where
  "crt_io = \<lparr>port_inb = \<lambda>p d. (snd d (fst d), d),
     port_outb = \<lambda>p v d. if p = 0x3D4 then (v, snd d) else if p = 0x3D5 then (fst d, (snd d)(fst d := v)) else d,
     port_inw = \<lambda>p d. (0, d), port_outw = \<lambda>p v d. d\<rparr>"

interpretation crt: crt_controller crt_io fst snd
  by unfold_locales (simp_all add: crt_io_def)

section \<open>Numbers\<close>

text \<open>The reference: the digits of a number in a base, most significant first.\<close>

function radix :: "nat \<Rightarrow> nat \<Rightarrow> u8 list" where
  "radix b n = (if n < b \<or> b < 2 then [digits ! (n mod b)] else radix b (n div b) @ [digits ! (n mod b)])"
  by pat_completeness auto
termination
  by (relation "measure (\<lambda>(b, n). n)") auto

declare radix.simps [simp del]

lemma digit_loop_correct:
  assumes "2 \<le> unat base" "v \<noteq> 0" "i + m \<le> length buf" "unat v < unat base ^ m"
  shows "\<exists>buf'. digit_loop v base i buf = Some (i + length (radix (unat base) (unat v)), buf') \<and>
    length buf' = length buf \<and> take i buf' = take i buf \<and>
    take (length (radix (unat base) (unat v))) (drop i buf') = rev (radix (unat base) (unat v)) \<and>
    i + length (radix (unat base) (unat v)) \<le> length buf"
  using assms(2-)
proof (induction m arbitrary: v i buf)
  case (Suc m)
  let ?b = "unat base" and ?n = "unat v"
  note b = assms(1)
  have dm: "unat (v div base) = ?n div ?b" "unat (v mod base) = ?n mod ?b" by (simp_all add: unat_div unat_mod)
  let ?buf = "buf[i := digits ! (?n mod ?b)]"
  have step: "digit_loop v base i buf = digit_loop (v div base) base (i + 1) ?buf"
    using Suc.prems(1) by (subst digit_loop.simps) (simp add: dm)
  have i: "i < length buf" using Suc.prems(2) by simp
  then have ti: "take (i + 1) ?buf = take i buf @ [digits ! (?n mod ?b)]" by (simp add: take_Suc_conv_app_nth)
  show ?case
  proof (cases "?n < ?b")
    case True
    then have "v div base = 0" using dm(1) by (metis div_less unat_eq_zero)
    then have "digit_loop v base i buf = Some (i + 1, ?buf)" unfolding step by (subst digit_loop.simps) simp
    moreover have "radix ?b ?n = [digits ! (?n mod ?b)]" using True by (subst radix.simps) simp
    ultimately show ?thesis using i by (auto simp: take_Suc_conv_app_nth drop_update_swap Cons_nth_drop_Suc [symmetric])
  next
    case False
    have r: "radix ?b ?n = radix ?b (?n div ?b) @ [digits ! (?n mod ?b)]" using False b by (subst radix.simps) simp
    have "?n div ?b \<noteq> 0" using False b by (simp add: div_eq_0_iff)
    then have nz: "v div base \<noteq> 0" using dm(1) by (metis unat_0)
    have "?n < ?b ^ m * ?b" using Suc.prems(3) by (simp add: mult.commute)
    then have "unat (v div base) < ?b ^ m" unfolding dm(1) by (rule less_mult_imp_div_less)
    from Suc.IH [OF nz _ this, of "i + 1" ?buf] Suc.prems(2)
    obtain buf' where IH: "digit_loop (v div base) base (i + 1) ?buf = Some (i + 1 + length (radix ?b (?n div ?b)), buf')"
      "length buf' = length buf" "take (i + 1) buf' = take (i + 1) ?buf"
      "take (length (radix ?b (?n div ?b))) (drop (i + 1) buf') = rev (radix ?b (?n div ?b))"
      "i + 1 + length (radix ?b (?n div ?b)) \<le> length buf" unfolding dm(1) by auto
    have "take i buf' = take i buf" "buf' ! i = digits ! (?n mod ?b)"
      using IH(3) ti i IH(2) by (auto simp: take_Suc_conv_app_nth)
    moreover have "drop i buf' = buf' ! i # drop (i + 1) buf'" using i IH(2) by (simp add: Cons_nth_drop_Suc)
    ultimately show ?thesis using IH step r by (intro exI [of _ buf']) simp
  qed
qed (simp add: unat_eq_zero)

lemma emit_back_eq: "n \<le> length buf \<Longrightarrow> emit_back io n buf t = fold (terminal_putchar io) (rev (take n buf)) t"
  by (induction n arbitrary: t) (simp_all add: take_Suc_conv_app_nth)

lemma write_uint_eq:
  assumes "base = 10 \<or> base = 16" "length junk = 32"
  shows "terminal_write_uint io junk v base t = Some (fold (terminal_putchar io) (radix (unat base) (unat v)) t)"
proof (cases "v = 0")
  case True
  moreover have "radix (unat base) 0 = [0x30]" using assms(1) by (subst radix.simps) auto
  ultimately show ?thesis by (simp add: terminal_write_uint_def)
next
  case False
  have b: "2 \<le> base" "2 \<le> unat base" using assms(1) by auto
  have "(2::nat) ^ 32 \<le> unat base ^ 32" using b(2) by (rule power_mono) simp
  then have "unat v < unat base ^ 32" using unat32_lt [of v] by simp
  from digit_loop_correct [OF b(2) False _ this, of 0 junk] assms(2) obtain buf where
    "digit_loop v base 0 junk = Some (length (radix (unat base) (unat v)), buf)"
    "take (length (radix (unat base) (unat v))) buf = rev (radix (unat base) (unat v))"
    "length (radix (unat base) (unat v)) \<le> length buf" by auto
  then show ?thesis using False by (simp add: terminal_write_uint_def emit_back_eq)
qed

section \<open>Formats\<close>

text \<open>The reference for \<open>kprintf\<close>: the format as a list of pieces, and the text they stand for.\<close>

datatype piece = Lit u8 | Signed_Decimal | Decimal | Hexadecimal | String_Arg | Char_Arg

fun pieces :: "cstring \<Rightarrow> piece list" where
  "pieces [] = []"
| "pieces [c] = (if c = 0x25 then [] else [Lit c])"
| "pieces (c # d # cs) =
     (if c \<noteq> 0x25 then Lit c # pieces (d # cs)
      else if d = 0x64 then Signed_Decimal # pieces cs
      else if d = 0x75 then Decimal # pieces cs
      else if d = 0x78 then Hexadecimal # pieces cs
      else if d = 0x73 then String_Arg # pieces cs
      else if d = 0x63 then Char_Arg # pieces cs
      else if d = 0x25 then Lit 0x25 # pieces cs
      else Lit 0x25 # Lit d # pieces cs)"

definition signed_text :: "int \<Rightarrow> u8 list" where
  "signed_text i = (if i < 0 then 0x2D # radix 10 (nat (- i)) else radix 10 (nat i))"

fun render :: "(u32 \<Rightarrow> cstring) \<Rightarrow> (nat \<Rightarrow> u32) \<Rightarrow> nat \<Rightarrow> piece list \<Rightarrow> u8 list" where
  "render str_at va n [] = []"
| "render str_at va n (Lit c # ps) = c # render str_at va n ps"
| "render str_at va n (Signed_Decimal # ps) = signed_text (sint (va n)) @ render str_at va (n + 1) ps"
| "render str_at va n (Decimal # ps) = radix 10 (unat (va n)) @ render str_at va (n + 1) ps"
| "render str_at va n (Hexadecimal # ps) = radix 16 (unat (va n)) @ render str_at va (n + 1) ps"
| "render str_at va n (String_Arg # ps) = str_at (va n) @ render str_at va (n + 1) ps"
| "render str_at va n (Char_Arg # ps) = ucast (va n) # render str_at va (n + 1) ps"

lemma putchar_flags [simp]: "cpu_flags (terminal_putchar io c t) = cpu_flags t"
  by (simp add: terminal_putchar_def Let_def terminal_scroll_eq)

lemma fold_putchar_flags [simp]: "cpu_flags (fold (terminal_putchar io) cs t) = cpu_flags t"
  by (induction cs arbitrary: t) simp_all

lemma putchar_set_flags:
  "terminal_putchar io c (t\<lparr>cpu_flags := f\<rparr>) = (terminal_putchar io c t)\<lparr>cpu_flags := f\<rparr>"
  by (simp add: terminal_putchar_def Let_def terminal_scroll_eq terminal_move_cursor_def terminal_put_at_def
      set_cell_def cong: if_cong)

lemma fold_putchar_set_flags:
  "fold (terminal_putchar io) cs (t\<lparr>cpu_flags := f\<rparr>) = (fold (terminal_putchar io) cs t)\<lparr>cpu_flags := f\<rparr>"
  by (induction cs arbitrary: t) (simp_all add: putchar_set_flags)

lemma locked_flags: "f AND 0x200 = 0 \<Longrightarrow> f AND NOT 0x200 = (f :: u32)"
  "f AND 0x200 \<noteq> 0 \<Longrightarrow> (f AND NOT 0x200) OR 0x200 = (f :: u32)"
proof -
  have b: "f AND 0x200 = 0 \<longleftrightarrow> \<not> bit f 9" for f :: u32
    by (simp add: bit_iff_and_push_bit_not_eq_0 [of f 9] push_bit_eq_mult)
  have m: "bit (0x200 :: u32) n \<longleftrightarrow> n = 9" for n
    using bit_single [where 'a = 32, of 9 n] by simp
  show "f AND 0x200 = 0 \<Longrightarrow> f AND NOT 0x200 = f" unfolding b
    by (rule bit_word_eqI) (simp only: bit_and_iff bit_not_iff m, auto)
  show "f AND 0x200 \<noteq> 0 \<Longrightarrow> (f AND NOT 0x200) OR 0x200 = f" unfolding b
    by (rule bit_word_eqI) (simp only: bit_and_iff bit_or_iff bit_not_iff m, auto)
qed

lemma locked_section:
  "console_unlock (cpu_flags t) (fold (terminal_putchar io) cs (snd (console_lock t))) = fold (terminal_putchar io) cs t"
proof -
  have "cpu_flags (fold (terminal_putchar io) cs t) = cpu_flags t" by simp
  then show ?thesis
    using locked_flags [of "cpu_flags t"] fold_putchar_set_flags [where io = io and cs = cs and t = t]
    by (auto simp: console_lock_def console_unlock_def)
qed

lemma terminal_write_eq: "terminal_write io cs t = fold (terminal_putchar io) cs t"
  using locked_section [of t io cs] by (simp add: terminal_write_def console_lock_def)

lemma unat_of_int: "0 \<le> k \<Longrightarrow> k < 2 ^ 32 \<Longrightarrow> unat (word_of_int k :: u32) = nat k"
  by (simp add: unsigned_of_int take_bit_int_eq_self)

lemma write_int_eq:
  assumes "length junk = 32"
  shows "terminal_write_int io junk v t = Some (fold (terminal_putchar io) (signed_text (sint v)) t)"
proof (cases "v <s 0")
  case True
  then have neg: "sint v < 0" by (simp add: word_sless_alt)
  have "- v = word_of_int (- sint v)" by simp
  moreover note unat_of_int
  moreover have "- sint v < 2 ^ 32" "0 \<le> - sint v" using neg sint_greater_eq [of v] by simp_all
  ultimately have "unat (- v) = nat (- sint v)" by metis
  then show ?thesis using True neg assms
    by (simp add: terminal_write_int_def write_uint_eq signed_text_def)
next
  case False
  then have nn: "0 \<le> sint v" by (simp add: word_sless_alt)
  have "v = word_of_int (sint v)" by simp
  moreover have "sint v < 2 ^ 32" using sint_less [of v] by simp
  ultimately have "nat (sint v) = unat v" using unat_of_int nn by metis
  then show ?thesis using False nn assms by (simp add: terminal_write_int_def write_uint_eq signed_text_def)
qed

lemma kprintf_loop_eq:
  assumes "length junk = 32"
  shows "kprintf_loop io str_at junk va fmt n t =
    Some (fold (terminal_putchar io) (render str_at va n (pieces fmt)) t)"
proof (induction fmt arbitrary: n t rule: pieces.induct)
  case (3 c d cs)
  note ih = 3
  show ?case
  proof (cases "c = 0x25")
    case False
    then show ?thesis using ih(1) by simp
  next
    case True
    note c = this
    consider "d = 0x64" | "d = 0x75" | "d = 0x78" | "d = 0x73" | "d = 0x63" | "d = 0x25"
      | "d \<noteq> 0x64" "d \<noteq> 0x75" "d \<noteq> 0x78" "d \<noteq> 0x73" "d \<noteq> 0x63" "d \<noteq> 0x25" by blast
    then show ?thesis
    proof cases
      case 1
      then show ?thesis using ih(2) c assms by (simp add: write_int_eq)
    next
      case 2
      then show ?thesis using ih(3) c assms by (simp add: write_uint_eq)
    next
      case 3
      then show ?thesis using ih(4) c assms by (simp add: write_uint_eq)
    next
      case 4
      then show ?thesis using ih(5) c by (simp add: terminal_write_eq)
    next
      case 5
      then show ?thesis using ih(6) c by simp
    next
      case 6
      then show ?thesis using ih(7) c by simp
    next
      case 7
      then show ?thesis using ih(8) c by simp
    qed
  qed
qed simp_all

section \<open>Reading numbers back\<close>

definition digit_value :: "u8 \<Rightarrow> nat" where
  "digit_value d = (if d < 0x61 then unat d - 0x30 else unat d - 0x57)"

definition number_value :: "nat \<Rightarrow> u8 list \<Rightarrow> nat" where
  "number_value b ds = fold (\<lambda>d acc. acc * b + digit_value d) ds 0"

definition read_signed :: "u8 list \<Rightarrow> int" where
  "read_signed cs = (if cs \<noteq> [] \<and> hd cs = 0x2D then - int (number_value 10 (tl cs)) else int (number_value 10 cs))"

lemma all_digits: "n < 16 \<Longrightarrow> digit_value (digits ! n) = n \<and> digits ! n \<noteq> 0x2D"
proof -
  have "list_all (\<lambda>n. digit_value (digits ! n) = n \<and> digits ! n \<noteq> 0x2D) [0..<16]" by code_simp
  then show "n < 16 \<Longrightarrow> ?thesis" by (simp add: list_all_iff)
qed

lemma radix_value:
  assumes "2 \<le> b" "b \<le> 16"
  shows "number_value b (radix b n) = n \<and> hd (radix b n) \<noteq> 0x2D \<and> radix b n \<noteq> []"
proof (induction n rule: less_induct)
  case (less n)
  have d: "digit_value (digits ! (n mod b)) = n mod b" "digits ! (n mod b) \<noteq> 0x2D"
    using all_digits [of "n mod b"] assms by (simp_all add: less_le_trans [OF mod_less_divisor])
  show ?case
  proof (cases "n < b")
    case True
    then have "radix b n = [digits ! (n mod b)]" by (subst radix.simps) simp
    then show ?thesis using d True by (simp add: number_value_def)
  next
    case False
    then have "radix b n = radix b (n div b) @ [digits ! (n mod b)]" using assms by (subst radix.simps) simp
    moreover have "n div b < n" using False assms by simp
    ultimately show ?thesis using less.IH [of "n div b"] d by (simp add: number_value_def)
  qed
qed

lemma radix_length:
  assumes "2 \<le> b" "n < b ^ m" "0 < m"
  shows "length (radix b n) \<le> m"
  using assms(2,3)
proof (induction m arbitrary: n)
  case (Suc m)
  show ?case
  proof (cases "n < b")
    case True
    then show ?thesis by (subst radix.simps) simp
  next
    case False
    then have "0 < m" using Suc.prems by (cases m) simp_all
    moreover have "n div b < b ^ m" using Suc.prems(1) by (intro less_mult_imp_div_less) (simp add: mult.commute)
    ultimately have "length (radix b (n div b)) \<le> m" by (rule Suc.IH [rotated])
    then show ?thesis using False assms(1) by (subst radix.simps) simp
  qed
qed simp

section \<open>Properties\<close>

text \<open>
  (C21) Writing any text to the console in a consistent state, on any VGA controller that behaves
  as documented, does to the 25 rows of 80 cells exactly what the abstract console does (placing
  characters, wrapping at the right edge, scrolling at the bottom in the current colour), never
  touches a cell outside the grid, leaves the hardware cursor on the cell where the next
  character goes, and gives back the interrupt flag as it was.
\<close>

theorem terminal_write_correct:
  assumes "crt_controller io idx reg" "term_ok t"
    "cursor_of (reg (vga t)) = unat (terminal_row t) * 80 + unat (terminal_column t)"
  shows "screen_of (terminal_write io cs t) = fold (put_char (terminal_colour t)) cs (screen_of t) \<and>
    term_ok (terminal_write io cs t) \<and>
    (\<forall>i. 2000 \<le> unat i \<longrightarrow> terminal_buffer (terminal_write io cs t) i = terminal_buffer t i) \<and>
    cursor_of (reg (vga (terminal_write io cs t))) =
      unat (terminal_row (terminal_write io cs t)) * 80 + unat (terminal_column (terminal_write io cs t)) \<and>
    cpu_flags (terminal_write io cs t) = cpu_flags t"
  using crt_controller.text_correct [OF assms] unfolding terminal_write_eq by blast

definition example_terminal :: "(u8 \<times> (u8 \<Rightarrow> u8)) terminal" where
  "example_terminal = \<lparr>terminal_row = 24, terminal_column = 79, terminal_colour = 7,
     terminal_buffer = \<lambda>_. 0x720, vga = (0, (\<lambda>_. 0)(0x0E := 7, 0x0F := 0xCF)), cpu_flags = 0x202\<rparr>"

theorem terminal_write_correct_witness:
  "screen_of (terminal_write crt_io [0x41, 0x42] example_terminal) =
     fold (put_char 7) [0x41, 0x42] (screen_of example_terminal) \<and>
   cursor_of (snd (vga (terminal_write crt_io [0x41, 0x42] example_terminal))) =
      unat (terminal_row (terminal_write crt_io [0x41, 0x42] example_terminal)) * 80 +
      unat (terminal_column (terminal_write crt_io [0x41, 0x42] example_terminal))"
proof -
  have "term_ok example_terminal" "terminal_colour example_terminal = 7"
    "cursor_of (snd (vga example_terminal)) = unat (terminal_row example_terminal) * 80 + unat (terminal_column example_terminal)"
    by (simp_all add: term_ok_def example_terminal_def cursor_of_def)
  then show ?thesis
    using terminal_write_correct [OF crt.crt_controller_axioms, of example_terminal "[0x41, 0x42]"] by metis
qed

text \<open>
  (C22) \<open>kprintf\<close> always returns, whatever the format and the arguments, and has the same effect
  as printing the text of the reference formatter: pieces of the format rendered one after the
  other, numbers in base 10 and 16 with no leading zeros, a trailing percent sign dropped
  and an unknown directive printed literally.
\<close>

theorem kprintf_equiv:
  assumes "length junk = 32"
  shows "kprintf io str_at junk va fmt t = Some (fold (terminal_putchar io) (render str_at va 0 (pieces fmt)) t)"
  using assms locked_section [of t io "render str_at va 0 (pieces fmt)"]
  by (simp add: kprintf_def kprintf_loop_eq console_lock_def)

theorem kprintf_equiv_witness:
  "kprintf crt_io (\<lambda>_. []) (replicate 32 0) (\<lambda>_. 0xFFFFFFF6) [0x25, 0x64, 0x25, 0x78, 0x25] example_terminal =
     Some (fold (terminal_putchar crt_io)
       [0x2D, 0x31, 0x30, 0x66, 0x66, 0x66, 0x66, 0x66, 0x66, 0x66, 0x36] example_terminal)"
proof -
  have "render (\<lambda>_. []) (\<lambda>_. 0xFFFFFFF6) 0 (pieces [0x25, 0x64, 0x25, 0x78, 0x25]) =
      [0x2D, 0x31, 0x30, 0x66, 0x66, 0x66, 0x66, 0x66, 0x66, 0x66, 0x36]"
    by (simp add: signed_text_def radix.simps [of 10] radix.simps [of 16])
  then show ?thesis
    using kprintf_equiv [of "replicate 32 0" crt_io "\<lambda>_. []" "\<lambda>_. 0xFFFFFFF6" "[0x25, 0x64, 0x25, 0x78, 0x25]" example_terminal]
    by simp
qed

text \<open>
  The text that \<open>terminal_write_int\<close> puts on the console reads back as the number, for
  every 32-bit value including the most negative one, and fits in 11 characters.
\<close>

theorem write_int_roundtrip:
  assumes "length junk = 32"
  shows "\<exists>cs. terminal_write_int io junk v t = Some (fold (terminal_putchar io) cs t) \<and>
    length cs \<le> 11 \<and> read_signed cs = sint v"
proof (intro exI conjI)
  show "terminal_write_int io junk v t = Some (fold (terminal_putchar io) (signed_text (sint v)) t)"
    by (rule write_int_eq [OF assms])
  have "- (2 ^ 31) \<le> sint v" "sint v < 2 ^ 31" using sint_greater_eq [of v] sint_less [of v] by simp_all
  then have "nat (- sint v) < 10 ^ 10" "nat (sint v) < 10 ^ 10" by simp_all
  then have "length (radix 10 (nat (- sint v))) \<le> 10" "length (radix 10 (nat (sint v))) \<le> 10"
    by (intro radix_length; simp)+
  then show "length (signed_text (sint v)) \<le> 11" by (simp add: signed_text_def)
  show "read_signed (signed_text (sint v)) = sint v"
    using radix_value [of 10 "nat (- sint v)"] radix_value [of 10 "nat (sint v)"]
    by (auto simp: signed_text_def read_signed_def)
qed

theorem write_int_roundtrip_witness:
  "\<exists>cs. terminal_write_int crt_io (replicate 32 0) 0x80000000 example_terminal =
      Some (fold (terminal_putchar crt_io) cs example_terminal) \<and>
    length cs \<le> 11 \<and> read_signed cs = - 2147483648"
  using write_int_roundtrip [of "replicate 32 0" crt_io "0x80000000" example_terminal] by simp

end
