(* ===== verification/Gdt.thy ===== *)
theory Gdt
  imports Prelude
begin

text \<open>
  The segment descriptors of \<open>kernel/gdt.c\<close> and the task state segment of \<open>kernel/tss.c\<close>.

  The tables are kept as the C structures; the segment registers and the task register that the
  inline assembly loads are part of the state.  The decoding functions below say how the CPU reads a
  descriptor, and the property is about what it reads after the two install functions.
\<close>

section \<open>Model\<close>

record gdt_entry =
  g_limit_low :: u16
  g_base_low :: u16
  g_base_middle :: u8
  g_access :: u8
  g_granularity :: u8
  g_base_high :: u8

record gdt_ptr =
  gp_limit :: u16
  gp_base :: u32

record tss_entry =
  ts_prev_tss :: u32
  ts_esp0 :: u32
  ts_ss0 :: u32
  ts_ring12 :: "u32 list"
  ts_registers :: "u32 list"
  ts_segments :: "u32 list"
  ts_ldt :: u32
  ts_trap :: u16
  ts_iomap_base :: u16

record segmentation =
  gdt :: "gdt_entry list"
  gdt_pointer :: gdt_ptr
  gdtr :: gdt_ptr
  seg_cs :: u16
  seg_data :: "u16 list"
  tss :: tss_entry
  task_reg :: u16

definition GDT_KERNEL_CODE :: u16 where "GDT_KERNEL_CODE = 0x08"
definition GDT_KERNEL_DATA :: u16 where "GDT_KERNEL_DATA = 0x10"
definition GDT_USER_CODE :: u16 where "GDT_USER_CODE = 0x18 OR 3"
definition GDT_USER_DATA :: u16 where "GDT_USER_DATA = 0x20 OR 3"
definition GDT_TSS :: u16 where "GDT_TSS = 0x28"

definition gdt_set_gate :: "nat \<Rightarrow> u32 \<Rightarrow> u32 \<Rightarrow> u8 \<Rightarrow> u8 \<Rightarrow> segmentation \<Rightarrow> segmentation" where
  "gdt_set_gate index base limit access granularity s =
     s\<lparr>gdt := (gdt s)[index :=
        \<lparr>g_limit_low = ucast (limit AND 0xFFFF), g_base_low = ucast (base AND 0xFFFF),
         g_base_middle = ucast (drop_bit 16 base AND 0xFF), g_access = access,
         g_granularity = ucast (drop_bit 16 limit AND 0x0F) OR (granularity AND 0xF0),
         g_base_high = ucast (drop_bit 24 base AND 0xFF)\<rparr>]\<rparr>"

text \<open>\<open>lgdt\<close>, the far jump that loads CS, and the data segment registers DS, ES, FS, GS, SS.\<close>

definition gdt_flush :: "segmentation \<Rightarrow> segmentation" where
  "gdt_flush s = s\<lparr>gdtr := gdt_pointer s, seg_cs := 0x08, seg_data := replicate 5 0x10\<rparr>"

definition gdt_set_tss :: "u32 \<Rightarrow> u32 \<Rightarrow> segmentation \<Rightarrow> segmentation" where
  "gdt_set_tss base limit s = gdt_set_gate 5 base (limit - 1) 0x89 0x00 s"

text \<open>\<open>gdt_addr\<close> is the address of the table; \<open>sizeof(gdt)\<close> is 48.\<close>

definition gdt_install :: "u32 \<Rightarrow> segmentation \<Rightarrow> segmentation" where
  "gdt_install gdt_addr s =
     (let s0 = s\<lparr>gdt_pointer := \<lparr>gp_limit = 48 - 1, gp_base = gdt_addr\<rparr>\<rparr>;
          s1 = gdt_set_gate 0 0 0 0 0 s0;
          s2 = gdt_set_gate 1 0 0xFFFFF 0x9A 0xCF s1;
          s3 = gdt_set_gate 2 0 0xFFFFF 0x92 0xCF s2;
          s4 = gdt_set_gate 3 0 0xFFFFF 0xFA 0xCF s3;
          s5 = gdt_set_gate 4 0 0xFFFFF 0xF2 0xCF s4;
          s6 = gdt_set_gate 5 0 0 0 0 s5
      in gdt_flush s6)"

text \<open>\<open>sizeof(tss)\<close>: 25 words and two half words.\<close>

definition sizeof_tss :: u32 where
  "sizeof_tss = 104"

definition zero_tss :: tss_entry where
  "zero_tss = \<lparr>ts_prev_tss = 0, ts_esp0 = 0, ts_ss0 = 0, ts_ring12 = replicate 4 0,
     ts_registers = replicate 11 0, ts_segments = replicate 6 0, ts_ldt = 0, ts_trap = 0, ts_iomap_base = 0\<rparr>"

definition tss_install :: "u32 \<Rightarrow> u32 \<Rightarrow> segmentation \<Rightarrow> segmentation" where
  "tss_install tss_addr kernel_stack_top s =
     (let s1 = s\<lparr>tss := zero_tss\<lparr>ts_ss0 := ucast GDT_KERNEL_DATA, ts_esp0 := kernel_stack_top,
                   ts_iomap_base := ucast sizeof_tss\<rparr>\<rparr>
      in (gdt_set_tss tss_addr sizeof_tss s1)\<lparr>task_reg := GDT_TSS\<rparr>)"

section \<open>How the CPU reads descriptors\<close>

definition seg_base :: "gdt_entry \<Rightarrow> u32" where
  "seg_base e = ucast (g_base_low e) OR push_bit 16 (ucast (g_base_middle e)) OR push_bit 24 (ucast (g_base_high e))"

definition seg_limit_field :: "gdt_entry \<Rightarrow> u32" where
  "seg_limit_field e = ucast (g_limit_low e) OR push_bit 16 (ucast (g_granularity e AND 0x0F))"

text \<open>The last offset of the segment, in bytes or in pages.\<close>

definition seg_limit :: "gdt_entry \<Rightarrow> nat" where
  "seg_limit e = (if bit (g_granularity e) 7 then unat (seg_limit_field e) * 4096 + 4095 else unat (seg_limit_field e))"

definition seg_present :: "gdt_entry \<Rightarrow> bool" where
  "seg_present e = bit (g_access e) 7"

definition seg_dpl :: "gdt_entry \<Rightarrow> u8" where
  "seg_dpl e = drop_bit 5 (g_access e) AND 3"

definition seg_code :: "gdt_entry \<Rightarrow> bool" where
  "seg_code e \<longleftrightarrow> bit (g_access e) 4 \<and> bit (g_access e) 3"

definition seg_data_writable :: "gdt_entry \<Rightarrow> bool" where
  "seg_data_writable e \<longleftrightarrow> bit (g_access e) 4 \<and> \<not> bit (g_access e) 3 \<and> bit (g_access e) 1"

definition seg_tss :: "gdt_entry \<Rightarrow> bool" where
  "seg_tss e \<longleftrightarrow> g_access e AND 0x1F = 9"

text \<open>The descriptor a selector names.\<close>

definition descriptor :: "segmentation \<Rightarrow> u16 \<Rightarrow> gdt_entry" where
  "descriptor s sel = gdt s ! unat (drop_bit 3 sel)"

text \<open>
  Whether ring 3 may use a port: with the I/O privilege level at 0 the CPU looks up the bitmap in
  the TSS and refuses when it lies beyond the segment limit.
\<close>

definition port_bitmap_reachable :: "segmentation \<Rightarrow> bool" where
  "port_bitmap_reachable s \<longleftrightarrow> unat (ts_iomap_base (tss s)) \<le> seg_limit (descriptor s (task_reg s))"

section \<open>Encoding and decoding\<close>

lemma bit_masks:
  "bit (0xFFFF :: u32) n \<longleftrightarrow> n < 16" "bit (0xFF :: u32) n \<longleftrightarrow> n < 8" "bit (0x0F :: u32) n \<longleftrightarrow> n < 4"
  "bit (0x0F :: u8) n \<longleftrightarrow> n < 4" "bit (0xF0 :: u8) n \<longleftrightarrow> 4 \<le> n \<and> n < 8"
proof -
  have "(0xFFFF :: u32) = mask 16" "(0xFF :: u32) = mask 8" "(0x0F :: u32) = mask 4" "(0x0F :: u8) = mask 4"
    "(0xF0 :: u8) = push_bit 4 (mask 4)"
    by (simp_all add: mask_eq_exp_minus_1)
  then show "bit (0xFFFF :: u32) n \<longleftrightarrow> n < 16" "bit (0xFF :: u32) n \<longleftrightarrow> n < 8" "bit (0x0F :: u32) n \<longleftrightarrow> n < 4"
    "bit (0x0F :: u8) n \<longleftrightarrow> n < 4" "bit (0xF0 :: u8) n \<longleftrightarrow> 4 \<le> n \<and> n < 8"
    by (simp_all only: bit_mask_iff bit_push_bit_iff) auto
qed

lemma gate_decode:
  fixes base limit :: u32 and access granularity :: u8
  assumes "index < length (gdt s)"
  defines "e \<equiv> gdt (gdt_set_gate index base limit access granularity s) ! index"
  shows "seg_base e = base" "limit < 0x100000 \<Longrightarrow> seg_limit_field e = limit" "g_access e = access"
    "bit (g_granularity e) 7 = bit granularity 7"
proof -
  have e: "e = \<lparr>g_limit_low = ucast (limit AND 0xFFFF), g_base_low = ucast (base AND 0xFFFF),
       g_base_middle = ucast (drop_bit 16 base AND 0xFF), g_access = access,
       g_granularity = ucast (drop_bit 16 limit AND 0x0F) OR (granularity AND 0xF0),
       g_base_high = ucast (drop_bit 24 base AND 0xFF)\<rparr>"
    using assms(1) by (simp add: e_def gdt_set_gate_def)
  show "g_access e = access" by (simp add: e)
  show "bit (g_granularity e) 7 = bit granularity 7"
    unfolding e by (simp add: bit_or_iff bit_and_iff bit_ucast_iff bit_masks)
  show "seg_base e = base"
  proof (rule bit_word_eqI)
    fix n assume n: "n < LENGTH(32)"
    consider "n < 16" | "16 \<le> n" "n < 24" | "24 \<le> n" "n < 32" using n by fastforce
    then show "bit (seg_base e) n = bit base n"
      by cases (simp_all only: seg_base_def e gdt_entry.select_convs bit_or_iff bit_and_iff bit_ucast_iff bit_push_bit_iff
          bit_drop_bit_eq bit_masks comp_def, auto)
  qed
  show "seg_limit_field e = limit" if lim: "limit < 0x100000"
  proof (rule bit_word_eqI)
    fix n assume n: "n < LENGTH(32)"
    have high: "\<not> bit limit n" if "20 \<le> n"
    proof -
      have "unat limit < 2 ^ 20" using lim by (simp add: word_less_nat_alt)
      then have "unat limit < 2 ^ n" using that by (meson less_le_trans one_le_numeral power_increasing)
      then have "\<not> bit (unat limit) n" by (simp add: bit_iff_odd)
      then show ?thesis using n by (simp add: bit_unsigned_iff)
    qed
    consider "n < 16" | "16 \<le> n" "n < 20" | "20 \<le> n" using n by fastforce
    then show "bit (seg_limit_field e) n = bit limit n"
      using high n
      by cases (simp_all only: seg_limit_field_def e gdt_entry.select_convs bit_or_iff bit_and_iff bit_ucast_iff
          bit_push_bit_iff bit_drop_bit_eq bit_masks comp_def, auto)
  qed
qed

lemma gdt_set_gate_other: "i \<noteq> index \<Longrightarrow> gdt (gdt_set_gate index b l a g s) ! i = gdt s ! i"
  by (simp add: gdt_set_gate_def)

lemma gdt_set_gate_fields [simp]:
  "length (gdt (gdt_set_gate index b l a g s)) = length (gdt s)"
  "gdt_pointer (gdt_set_gate index b l a g s) = gdt_pointer s" "tss (gdt_set_gate index b l a g s) = tss s"
  "gdtr (gdt_set_gate index b l a g s) = gdtr s" "seg_cs (gdt_set_gate index b l a g s) = seg_cs s"
  "seg_data (gdt_set_gate index b l a g s) = seg_data s"
  by (simp_all add: gdt_set_gate_def)

text \<open>A flat segment: it starts at 0, ends at 4 GB, and has the given access byte.\<close>

definition flat :: "u8 \<Rightarrow> gdt_entry \<Rightarrow> bool" where
  "flat access e \<longleftrightarrow> seg_base e = 0 \<and> seg_limit e = 2 ^ 32 - 1 \<and> g_access e = access"

lemma flat_gate: "i < length (gdt s) \<Longrightarrow> flat a (gdt (gdt_set_gate i 0 0xFFFFF a 0xCF s) ! i)"
  using gate_decode [where index = i and s = s and base = 0 and limit = "0xFFFFF" and access = a and granularity = "0xCF"] by (simp add: flat_def seg_limit_def)

lemma gdt_install_entries:
  assumes "length (gdt s) = 6"
  shows "flat 0x9A (gdt (gdt_install addr s) ! 1)" "flat 0x92 (gdt (gdt_install addr s) ! 2)"
    "flat 0xFA (gdt (gdt_install addr s) ! 3)" "flat 0xF2 (gdt (gdt_install addr s) ! 4)"
    "g_access (gdt (gdt_install addr s) ! 0) = 0" "length (gdt (gdt_install addr s)) = 6"
proof -
  have "g_access (gdt (gdt_set_gate 0 b l a g s) ! 0) = a" if "length (gdt s) = 6" for b l a g s
    by (rule gate_decode(3)) (use that in simp)
  then show "flat 0x9A (gdt (gdt_install addr s) ! 1)" "flat 0x92 (gdt (gdt_install addr s) ! 2)"
    "flat 0xFA (gdt (gdt_install addr s) ! 3)" "flat 0xF2 (gdt (gdt_install addr s) ! 4)"
    "g_access (gdt (gdt_install addr s) ! 0) = 0" "length (gdt (gdt_install addr s)) = 6"
    using assms by (simp_all add: gdt_install_def gdt_flush_def Let_def gdt_set_gate_other flat_gate)
qed

text \<open>
  (C24) After \<open>gdt_install\<close> and \<open>tss_install\<close> the CPU sees the flat model: the four code and data
  segments cover all 4 GB, the kernel ones at privilege 0 and the user ones at privilege 3 and with
  matching selectors, the null descriptor unusable, the table limit exact, and the task register
  naming the TSS at its address with the kernel stack for entries from ring 3, which is ring 0
  data.  The I/O bitmap lies outside the TSS, so that ring 3 has no access to any port.
\<close>

theorem gdt_protection:
  assumes "length (gdt s0) = 6" "s = tss_install tss_addr stack (gdt_install gdt_addr s0)"
  shows "flat 0x9A (descriptor s GDT_KERNEL_CODE) \<and> flat 0x92 (descriptor s GDT_KERNEL_DATA) \<and>
    flat 0xFA (descriptor s GDT_USER_CODE) \<and> flat 0xF2 (descriptor s GDT_USER_DATA) \<and>
    seg_code (descriptor s GDT_KERNEL_CODE) \<and> seg_dpl (descriptor s GDT_KERNEL_CODE) = 0 \<and>
    seg_data_writable (descriptor s GDT_KERNEL_DATA) \<and> seg_dpl (descriptor s GDT_KERNEL_DATA) = 0 \<and>
    seg_code (descriptor s GDT_USER_CODE) \<and> seg_dpl (descriptor s GDT_USER_CODE) = 3 \<and> GDT_USER_CODE AND 3 = 3 \<and>
    seg_data_writable (descriptor s GDT_USER_DATA) \<and> seg_dpl (descriptor s GDT_USER_DATA) = 3 \<and> GDT_USER_DATA AND 3 = 3 \<and>
    \<not> seg_present (descriptor s 0) \<and> unat (gp_limit (gdtr s)) + 1 = 8 * length (gdt s) \<and> gp_base (gdtr s) = gdt_addr \<and>
    seg_cs s = GDT_KERNEL_CODE \<and> seg_data s = replicate 5 GDT_KERNEL_DATA \<and>
    seg_tss (descriptor s (task_reg s)) \<and> seg_base (descriptor s (task_reg s)) = tss_addr \<and>
    seg_present (descriptor s (task_reg s)) \<and> seg_dpl (descriptor s (task_reg s)) = 0 \<and>
    seg_limit (descriptor s (task_reg s)) + 1 = unat sizeof_tss \<and>
    ts_esp0 (tss s) = stack \<and> ts_ss0 (tss s) = ucast GDT_KERNEL_DATA \<and> \<not> port_bitmap_reachable s"
proof -
  note inst = gdt_install_entries [OF assms(1), of gdt_addr]
  define s1 where "s1 = (gdt_install gdt_addr s0)\<lparr>tss := zero_tss\<lparr>ts_ss0 := ucast GDT_KERNEL_DATA, ts_esp0 := stack,
    ts_iomap_base := ucast sizeof_tss\<rparr>\<rparr>"
  have s: "s = (gdt_set_gate 5 tss_addr (sizeof_tss - 1) 0x89 0 s1)\<lparr>task_reg := GDT_TSS\<rparr>"
    unfolding assms(2) tss_install_def gdt_set_tss_def Let_def s1_def ..
  have len: "length (gdt s1) = 6" using inst by (simp add: s1_def)
  have lo: "gdt s ! i = gdt (gdt_install gdt_addr s0) ! i" if "i < 5" for i
    using that by (simp add: s gdt_set_gate_other) (simp add: s1_def)
  have sel: "descriptor s GDT_KERNEL_CODE = gdt s ! 1" "descriptor s GDT_KERNEL_DATA = gdt s ! 2"
    "descriptor s GDT_USER_CODE = gdt s ! 3" "descriptor s GDT_USER_DATA = gdt s ! 4"
    "descriptor s 0 = gdt s ! 0" "descriptor s (task_reg s) = gdt s ! 5"
    by (simp_all add: descriptor_def GDT_KERNEL_CODE_def GDT_KERNEL_DATA_def GDT_USER_CODE_def GDT_USER_DATA_def
        s GDT_TSS_def)
  note d = gate_decode [where index = 5 and s = s1 and base = tss_addr and limit = "sizeof_tss - 1" and access = "0x89" and granularity = 0]
  have five: "seg_base (gdt s ! 5) = tss_addr" "seg_limit (gdt s ! 5) = 103" "g_access (gdt s ! 5) = 0x89"
    using d len by (simp_all add: s seg_limit_def sizeof_tss_def)
  have regs: "gdtr s = \<lparr>gp_limit = 47, gp_base = gdt_addr\<rparr>" "seg_cs s = 8" "seg_data s = replicate 5 0x10"
    "tss s = zero_tss\<lparr>ts_ss0 := ucast GDT_KERNEL_DATA, ts_esp0 := stack, ts_iomap_base := ucast sizeof_tss\<rparr>"
    by (simp_all add: s s1_def gdt_install_def gdt_flush_def Let_def)
  have acc: "g_access (gdt s ! 1) = 0x9A" "g_access (gdt s ! 2) = 0x92" "g_access (gdt s ! 3) = 0xFA"
    "g_access (gdt s ! 4) = 0xF2" "g_access (gdt s ! 0) = 0"
    using inst lo by (simp_all add: flat_def)
  show ?thesis unfolding sel port_bitmap_reachable_def
    using inst lo five acc len regs
    by (simp add: seg_code_def seg_dpl_def seg_data_writable_def seg_present_def seg_tss_def GDT_KERNEL_CODE_def
        GDT_KERNEL_DATA_def GDT_USER_CODE_def GDT_USER_DATA_def sizeof_tss_def s)
qed

definition boot_segmentation :: segmentation where
  "boot_segmentation = \<lparr>gdt = replicate 6 \<lparr>g_limit_low = 0, g_base_low = 0, g_base_middle = 0, g_access = 0,
       g_granularity = 0, g_base_high = 0\<rparr>, gdt_pointer = \<lparr>gp_limit = 0, gp_base = 0\<rparr>,
     gdtr = \<lparr>gp_limit = 0x17, gp_base = 0x9000\<rparr>, seg_cs = 0x10, seg_data = replicate 5 0x18, tss = zero_tss, task_reg = 0\<rparr>"

theorem gdt_protection_witness:
  "let s = tss_install 0x00108040 0x00120000 (gdt_install 0x00108000 boot_segmentation)
   in flat 0x9A (descriptor s GDT_KERNEL_CODE) \<and> seg_base (descriptor s (task_reg s)) = 0x00108040 \<and>
      \<not> port_bitmap_reachable s"
proof -
  have "length (gdt boot_segmentation) = 6" by (simp add: boot_segmentation_def)
  from gdt_protection [OF this refl, of "0x00108040" "0x00120000" "0x00108000"] show ?thesis
    unfolding Let_def by blast
qed

end
