(* ===== verification/Idt.thy ===== *)
theory Idt
  imports Gdt Ata Task
begin

text \<open>
  Interrupts: the descriptor table, the two interrupt controllers and the dispatch of exceptions
  and hardware interrupts, \<open>kernel/idt.c\<close>.

  A handler is its address; \<open>call\<close> is what calling it does to the saved registers and to the kernel
  state.  The stubs of \<open>boot/interrupts.s\<close> are their addresses, given by \<open>isr_stub\<close> and
  \<open>irq_stub\<close>.  The interrupt controllers are reached through ports and are a parameter \<open>io\<close>.
\<close>

section \<open>State\<close>

record idt_entry =
  i_base_low :: u16
  i_selector :: u16
  i_always_zero :: u8
  i_flags :: u8
  i_base_high :: u16

record idt_ptr =
  ip_limit :: u16
  ip_base :: u32

record 'd interrupts =
  idt :: "idt_entry list"
  idt_pointer :: idt_ptr
  idtr :: idt_ptr
  irq_handlers :: "u32 list"
  isr_handlers :: "u32 list"
  extra_handlers :: "(u32 \<times> u32) list"
  pic :: 'd

record registers =
  rg_ds :: u32
  rg_edi :: u32
  rg_esi :: u32
  rg_ebp :: u32
  rg_esp :: u32
  rg_ebx :: u32
  rg_edx :: u32
  rg_ecx :: u32
  rg_eax :: u32
  rg_int_no :: u32
  rg_err_code :: u32
  rg_eip :: u32
  rg_cs :: u32
  rg_eflags :: u32
  rg_useresp :: u32
  rg_ss :: u32

definition EXTRA_VECTORS :: nat where "EXTRA_VECTORS = 1"

definition exception_names :: "string list" where
  "exception_names =
    [''Divide By Zero'', ''Debug'', ''Non-Maskable Interrupt'', ''Breakpoint'', ''Overflow'',
     ''Bound Range Exceeded'', ''Invalid Opcode'', ''Device Not Available'', ''Double Fault'',
     ''Coprocessor Segment Overrun'', ''Invalid TSS'', ''Segment Not Present'', ''Stack-Segment Fault'',
     ''General Protection Fault'', ''Page Fault'', ''Reserved'', ''x87 Floating-Point'', ''Alignment Check'',
     ''Machine Check'', ''SIMD Floating-Point'', ''Virtualization'', ''Control Protection'', ''Reserved'',
     ''Reserved'', ''Reserved'', ''Reserved'', ''Reserved'', ''Reserved'', ''Hypervisor Injection'',
     ''VMM Communication'', ''Security Exception'', ''Reserved'']"

section \<open>Gates and controllers\<close>

definition idt_set_gate :: "u8 \<Rightarrow> u32 \<Rightarrow> u16 \<Rightarrow> u8 \<Rightarrow> 'd interrupts \<Rightarrow> 'd interrupts" where
  "idt_set_gate num base selector flags s =
     s\<lparr>idt := (idt s)[unat num :=
        \<lparr>i_base_low = ucast (base AND 0xFFFF), i_selector = selector, i_always_zero = 0, i_flags = flags,
         i_base_high = ucast (drop_bit 16 base AND 0xFFFF)\<rparr>]\<rparr>"

definition PIC1_COMMAND :: u16 where "PIC1_COMMAND = 0x20"
definition PIC1_DATA :: u16 where "PIC1_DATA = 0x21"
definition PIC2_COMMAND :: u16 where "PIC2_COMMAND = 0xA0"
definition PIC2_DATA :: u16 where "PIC2_DATA = 0xA1"
definition PIC_EOI :: u8 where "PIC_EOI = 0x20"

definition io_wait :: "'d ports \<Rightarrow> 'd \<Rightarrow> 'd" where
  "io_wait io d = outb io 0x80 0 d"

definition pic_remap :: "'d ports \<Rightarrow> 'd \<Rightarrow> 'd" where
  "pic_remap io d =
     (let d1 = io_wait io (outb io PIC1_COMMAND 0x11 d);
          d2 = io_wait io (outb io PIC2_COMMAND 0x11 d1);
          d3 = io_wait io (outb io PIC1_DATA 0x20 d2);
          d4 = io_wait io (outb io PIC2_DATA 0x28 d3);
          d5 = io_wait io (outb io PIC1_DATA 0x04 d4);
          d6 = io_wait io (outb io PIC2_DATA 0x02 d5);
          d7 = io_wait io (outb io PIC1_DATA 0x01 d6);
          d8 = io_wait io (outb io PIC2_DATA 0x01 d7)
      in outb io PIC2_DATA 0xFF (outb io PIC1_DATA 0xFF d8))"

definition irq_unmask :: "'d ports \<Rightarrow> u8 \<Rightarrow> 'd interrupts \<Rightarrow> 'd interrupts" where
  "irq_unmask io irq s =
     (let port = (if irq < 8 then PIC1_DATA else PIC2_DATA);
          line = (if irq \<ge> 8 then irq - 8 else irq)
      in case inb io port (pic s) of (v, d) \<Rightarrow>
           s\<lparr>pic := outb io port (v AND NOT (push_bit (unat line) 1)) d\<rparr>)"

text \<open>The first free slot, or the slot of the same vector, takes the handler.\<close>

fun install_extra :: "u32 \<Rightarrow> u32 \<Rightarrow> (u32 \<times> u32) list \<Rightarrow> (u32 \<times> u32) list" where
  "install_extra vector handler [] = []"
| "install_extra vector handler ((v, h) # es) =
     (if v = 0 \<or> v = vector then (vector, handler) # es else (v, h) # install_extra vector handler es)"

definition isr_install_handler_vector :: "u32 \<Rightarrow> u32 \<Rightarrow> 'd interrupts \<Rightarrow> 'd interrupts" where
  "isr_install_handler_vector vector handler s =
     s\<lparr>extra_handlers := install_extra vector handler (extra_handlers s)\<rparr>"

definition isr_install_handler :: "int \<Rightarrow> u32 \<Rightarrow> 'd interrupts \<Rightarrow> 'd interrupts" where
  "isr_install_handler exception handler s =
     (if exception < 0 \<or> exception > 31 then s
      else s\<lparr>isr_handlers := (isr_handlers s)[nat exception := handler]\<rparr>)"

definition irq_install_handler :: "'d ports \<Rightarrow> int \<Rightarrow> u32 \<Rightarrow> 'd interrupts \<Rightarrow> 'd interrupts" where
  "irq_install_handler io irq handler s =
     (if irq < 0 \<or> irq > 15 then s
      else irq_unmask io (word_of_int irq) (s\<lparr>irq_handlers := (irq_handlers s)[nat irq := handler]\<rparr>))"

section \<open>Dispatch\<close>

text \<open>An exception that nobody handles stops the machine, naming the exception.\<close>

datatype ('r, 'k) isr_outcome = Returned 'r 'k | Halted string

fun find_extra :: "u32 \<Rightarrow> (u32 \<times> u32) list \<Rightarrow> u32 option" where
  "find_extra n [] = None"
| "find_extra n ((v, h) # es) = (if v = n \<and> h \<noteq> 0 then Some h else find_extra n es)"

definition isr_handler ::
  "(u32 \<Rightarrow> registers \<Rightarrow> 'k \<Rightarrow> registers \<times> 'k) \<Rightarrow> 'd interrupts \<Rightarrow> registers \<Rightarrow> 'k \<Rightarrow> (registers, 'k) isr_outcome" where
  "isr_handler call s regs k =
     (if rg_int_no regs < 32 \<and> isr_handlers s ! unat (rg_int_no regs) \<noteq> 0
      then case call (isr_handlers s ! unat (rg_int_no regs)) regs k of (regs', k') \<Rightarrow> Returned regs' k'
      else
        case find_extra (rg_int_no regs) (extra_handlers s) of
          Some h \<Rightarrow> (case call h regs k of (regs', k') \<Rightarrow> Returned regs' k')
        | None \<Rightarrow>
            Halted (if rg_int_no regs < 32 then exception_names ! unat (rg_int_no regs) else ''Unknown''))"

definition irq_handler ::
  "'d ports \<Rightarrow> (u32 \<Rightarrow> u32 \<Rightarrow> 'x kernel \<Rightarrow> 'x kernel) \<Rightarrow> (u32 \<Rightarrow> registers \<Rightarrow> 'x kernel \<Rightarrow> registers \<times> 'x kernel) \<Rightarrow>
   registers \<Rightarrow> 'd interrupts \<Rightarrow> 'x kernel \<Rightarrow> registers \<times> 'd interrupts \<times> 'x kernel" where
  "irq_handler io hook call regs s k =
     (let irq = rg_int_no regs - 32
      in case (if irq < 16 \<and> irq_handlers s ! unat irq \<noteq> 0 then call (irq_handlers s ! unat irq) regs k else (regs, k)) of
           (regs1, k1) \<Rightarrow>
             let d1 = (if irq \<ge> 8 then outb io PIC2_COMMAND PIC_EOI (pic s) else pic s);
                 d2 = outb io PIC1_COMMAND PIC_EOI d1;
                 k2 = (if irq = 0 then task_schedule hook k1 else k1)
             in (regs1, s\<lparr>pic := d2\<rparr>, k2))"

section \<open>Installation\<close>

text \<open>\<open>idt_addr\<close> is the address of the table, of 256 entries of 8 bytes.\<close>

definition idt_install ::
  "'d ports \<Rightarrow> (nat \<Rightarrow> u32) \<Rightarrow> (nat \<Rightarrow> u32) \<Rightarrow> u32 \<Rightarrow> 'd interrupts \<Rightarrow> 'd interrupts" where
  "idt_install io isr_stub irq_stub idt_addr s =
     (let s0 = s\<lparr>idt_pointer := \<lparr>ip_limit = 2048 - 1, ip_base = idt_addr\<rparr>\<rparr>;
          s1 = fold (\<lambda>i. idt_set_gate (word_of_nat i) 0 0 0) [0..<256] s0;
          s2 = s1\<lparr>irq_handlers := replicate 16 0, isr_handlers := replicate 32 0,
                  extra_handlers := replicate EXTRA_VECTORS (0, 0)\<rparr>;
          s3 = s2\<lparr>pic := pic_remap io (pic s2)\<rparr>;
          s4 = fold (\<lambda>i. idt_set_gate (word_of_nat i) (isr_stub i) GDT_KERNEL_CODE 0x8E) [0..<32] s3;
          s5 = fold (\<lambda>i. idt_set_gate (word_of_nat (32 + i)) (irq_stub i) GDT_KERNEL_CODE 0x8E) [0..<16] s4;
          s6 = idt_set_gate 0x80 (isr_stub 128) GDT_KERNEL_CODE 0xEE s5
      in s6\<lparr>idtr := idt_pointer s6\<rparr>)"

text \<open>The drivers that register themselves: \<open>drivers/timer.c\<close>, IRQ 0.\<close>

definition timer_install :: "'d ports \<Rightarrow> u32 \<Rightarrow> 'd interrupts \<Rightarrow> 'd interrupts" where
  "timer_install io timer_handler_addr s = irq_install_handler io 0 timer_handler_addr s"

section \<open>How the CPU reads a gate\<close>

definition gate_base :: "idt_entry \<Rightarrow> u32" where
  "gate_base e = ucast (i_base_low e) OR push_bit 16 (ucast (i_base_high e))"

definition gate_present :: "idt_entry \<Rightarrow> bool" where
  "gate_present e = bit (i_flags e) 7"

text \<open>Software at ring \<open>r\<close> may use the gate with an \<open>int\<close> instruction.\<close>

definition gate_callable :: "nat \<Rightarrow> idt_entry \<Rightarrow> bool" where
  "gate_callable r e \<longleftrightarrow> gate_present e \<and> r \<le> unat (drop_bit 5 (i_flags e) AND 3)"

definition gate_for :: "u32 \<Rightarrow> u16 \<Rightarrow> u8 \<Rightarrow> idt_entry" where
  "gate_for base selector flags =
     \<lparr>i_base_low = ucast (base AND 0xFFFF), i_selector = selector, i_always_zero = 0, i_flags = flags,
      i_base_high = ucast (drop_bit 16 base AND 0xFFFF)\<rparr>"

lemma gate_base_for [simp]: "gate_base (gate_for base sel fl) = base"
proof (rule bit_word_eqI)
  fix n assume n: "n < LENGTH(32)"
  consider "n < 16" | "16 \<le> n" "n < 32" using n by fastforce
  then show "bit (gate_base (gate_for base sel fl)) n = bit base n"
    by cases (simp_all only: gate_base_def gate_for_def idt_entry.select_convs bit_or_iff bit_and_iff bit_ucast_iff
        bit_push_bit_iff bit_drop_bit_eq bit_masks comp_def, auto)
qed

lemma set_gate_nth:
  "length (idt s) = 256 \<Longrightarrow> n < 256 \<Longrightarrow> idt (idt_set_gate (word_of_nat i) b sel fl s) ! n =
    (if n = i mod 256 then gate_for b sel fl else idt s ! n)"
proof -
  have "unat (word_of_nat i :: u8) = i mod 256" by (simp add: unsigned_of_nat take_bit_eq_mod)
  then show "length (idt s) = 256 \<Longrightarrow> n < 256 \<Longrightarrow> ?thesis"
    by (auto simp: idt_set_gate_def gate_for_def nth_list_update)
qed

lemma set_gate_fields [simp]:
  "length (idt (idt_set_gate i b sel fl s)) = length (idt s)" "pic (idt_set_gate i b sel fl s) = pic s"
  "irq_handlers (idt_set_gate i b sel fl s) = irq_handlers s" "isr_handlers (idt_set_gate i b sel fl s) = isr_handlers s"
  "extra_handlers (idt_set_gate i b sel fl s) = extra_handlers s" "idt_pointer (idt_set_gate i b sel fl s) = idt_pointer s"
  by (simp_all add: idt_set_gate_def)

text \<open>A loop that fills the gates \<open>off, \<dots>, off + m - 1\<close>.\<close>

lemma fill_gates:
  fixes b :: "nat \<Rightarrow> u32" and sel :: u16 and fl :: u8
  assumes "length (idt s) = 256" "off + m \<le> 256"
  defines "s' \<equiv> fold (\<lambda>i. idt_set_gate (word_of_nat (off + i)) (b i) sel fl) [0..<m] s"
  shows "length (idt s') = 256 \<and> pic s' = pic s \<and> irq_handlers s' = irq_handlers s \<and> isr_handlers s' = isr_handlers s \<and>
    extra_handlers s' = extra_handlers s \<and> idt_pointer s' = idt_pointer s \<and>
    (\<forall>n<256. idt s' ! n = (if off \<le> n \<and> n < off + m then gate_for (b (n - off)) sel fl else idt s ! n))"
  using assms(2) unfolding s'_def
proof (induction m)
  case (Suc m)
  let ?s = "fold (\<lambda>i. idt_set_gate (word_of_nat (off + i)) (b i) sel fl) [0..<m] s"
  have "idt (idt_set_gate (word_of_nat (off + m)) (b m) sel fl ?s) ! n =
      (if n = off + m then gate_for (b m) sel fl else idt ?s ! n)" if "n < 256" for n
    using set_gate_nth [of ?s n "off + m"] Suc that by simp
  then show ?case using Suc by (auto simp del: of_nat_add)
qed (auto simp: assms(1))

text \<open>What the vector \<open>n\<close> leads to after \<open>idt_install\<close>.\<close>

definition installed_gate :: "(nat \<Rightarrow> u32) \<Rightarrow> (nat \<Rightarrow> u32) \<Rightarrow> nat \<Rightarrow> idt_entry" where
  "installed_gate isr_stub irq_stub n =
     (if n = 128 then gate_for (isr_stub 128) GDT_KERNEL_CODE 0xEE
      else if n < 32 then gate_for (isr_stub n) GDT_KERNEL_CODE 0x8E
      else if n < 48 then gate_for (irq_stub (n - 32)) GDT_KERNEL_CODE 0x8E
      else gate_for 0 0 0)"

lemma idt_install_eq:
  fixes isr_stub irq_stub :: "nat \<Rightarrow> u32" and io :: "'d ports" and addr :: u32
  assumes "length (idt s) = 256"
  defines "s' \<equiv> idt_install io isr_stub irq_stub addr s"
  shows "length (idt s') = 256" "n < 256 \<Longrightarrow> idt s' ! n = installed_gate isr_stub irq_stub n"
    "pic s' = pic_remap io (pic s)" "irq_handlers s' = replicate 16 0" "isr_handlers s' = replicate 32 0"
    "extra_handlers s' = [(0, 0)]" "idtr s' = \<lparr>ip_limit = 2047, ip_base = addr\<rparr>"
proof -
  define s0 where "s0 = s\<lparr>idt_pointer := \<lparr>ip_limit = 2048 - 1, ip_base = addr\<rparr>\<rparr>"
  define s1 where "s1 = fold (\<lambda>i. idt_set_gate (word_of_nat i) 0 0 0) [0..<256] s0"
  define s3 where "s3 = s1\<lparr>irq_handlers := replicate 16 0, isr_handlers := replicate 32 0,
    extra_handlers := replicate EXTRA_VECTORS (0, 0), pic := pic_remap io (pic s1)\<rparr>"
  define s4 where "s4 = fold (\<lambda>i. idt_set_gate (word_of_nat i) (isr_stub i) GDT_KERNEL_CODE 0x8E) [0..<32] s3"
  define s5 where "s5 = fold (\<lambda>i. idt_set_gate (word_of_nat (32 + i)) (irq_stub i) GDT_KERNEL_CODE 0x8E) [0..<16] s4"
  define s6 where "s6 = idt_set_gate 0x80 (isr_stub 128) GDT_KERNEL_CODE 0xEE s5"
  have s': "s' = s6\<lparr>idtr := idt_pointer s6\<rparr>"
    unfolding s'_def idt_install_def Let_def s6_def s5_def s4_def s3_def s1_def s0_def by simp
  have l0: "length (idt s0) = 256" using assms(1) by (simp add: s0_def)
  note f1 = fill_gates [OF l0, of 0 256 "\<lambda>_. 0" 0 0, simplified, folded s1_def]
  have l3: "length (idt s3) = 256" using f1 by (simp add: s3_def)
  note f4 = fill_gates [OF l3, of 0 32 isr_stub GDT_KERNEL_CODE "0x8E", simplified, folded s4_def]
  have l4: "length (idt s4) = 256" using f4 by simp
  have "32 + 16 \<le> (256 :: nat)" by simp
  note f5 = fill_gates [OF l4 this, of irq_stub GDT_KERNEL_CODE "0x8E", folded s5_def]
  have g6: "idt s6 ! n = (if n = 128 then gate_for (isr_stub 128) GDT_KERNEL_CODE 0xEE else idt s5 ! n)" if "n < 256" for n
    using set_gate_nth [of s5 n 128] f5 that unfolding s6_def by simp
  show "length (idt s') = 256" using f5 by (simp add: s' s6_def)
  show "n < 256 \<Longrightarrow> idt s' ! n = installed_gate isr_stub irq_stub n"
    using g6 f5 f4 f1 by (simp add: s' installed_gate_def s3_def)
  show "pic s' = pic_remap io (pic s)" "irq_handlers s' = replicate 16 0" "isr_handlers s' = replicate 32 0"
    "extra_handlers s' = [(0, 0)]" "idtr s' = \<lparr>ip_limit = 2047, ip_base = addr\<rparr>"
    using f1 f4 f5 by (simp_all add: s' s6_def s3_def s0_def EXTRA_VECTORS_def)
qed

section \<open>The interrupt controllers\<close>

text \<open>
  What the 8259 documents of its two ports, for the master (False) and the slave (True).  The state of
  a chip is the number of initialisation bytes it still expects, its vector base and its mask; the two bytes
  that describe the cascade and the mode are counted, not interpreted.
\<close>

type_synonym chip = "nat \<times> u8 \<times> u8"

fun chip_data :: "u8 \<Rightarrow> chip \<Rightarrow> chip" where
  "chip_data v (n, b, m) = (if n = 0 then (0, b, v) else (n - 1, if n = 3 then v else b, m))"

definition pic_command :: "bool \<Rightarrow> u16" where
  "pic_command slave = (if slave then 0xA0 else 0x20)"

definition pic_data :: "bool \<Rightarrow> u16" where
  "pic_data slave = (if slave then 0xA1 else 0x21)"

locale pic_pair =
  fixes io :: "'d ports" and chip :: "bool \<Rightarrow> 'd \<Rightarrow> chip"
  assumes start_init: "chip c' (port_outb io (pic_command c) 0x11 d) =
      (if c' = c then (3, fst (snd (chip c d)), 0) else chip c' d)"
    and acknowledge: "chip c' (port_outb io (pic_command c) 0x20 d) = chip c' d"
    and write_data: "chip c' (port_outb io (pic_data c) v d) = (if c' = c then chip_data v (chip c d) else chip c' d)"
    and read_data: "fst (chip c d) = 0 \<Longrightarrow> fst (port_inb io (pic_data c) d) = snd (snd (chip c d))"
      "chip c' (snd (port_inb io (pic_data c) d)) = chip c' d"
    and other_port: "chip c (port_outb io 0x80 v d) = chip c d"
begin

lemmas laws [simp] =
  start_init [where c = False, unfolded pic_command_def, simplified]
  start_init [where c = True, unfolded pic_command_def, simplified]
  write_data [where c = False, unfolded pic_data_def, simplified]
  write_data [where c = True, unfolded pic_data_def, simplified]
  acknowledge [where c = False, unfolded pic_command_def, simplified]
  acknowledge [where c = True, unfolded pic_command_def, simplified]
  other_port

text \<open>The remapping: IRQ 0 to 15 at the vectors 32 to 47, every line masked.\<close>

lemma remapped: "chip c (pic_remap io d) = (0, if c then 40 else 32, 0xFF)"
  by (cases c) (simp_all add: pic_remap_def Let_def io_wait_def outb_def PIC1_COMMAND_def PIC1_DATA_def
      PIC2_COMMAND_def PIC2_DATA_def)

lemma unmask:
  assumes "irq < 16" "chip (8 \<le> irq) (pic s) = (0, b, m)"
  shows "chip c (pic (irq_unmask io irq s)) =
    (if c = (8 \<le> irq) then (0, b, m AND NOT (push_bit (unat irq mod 8) 1)) else chip c (pic s))"
proof (cases "8 \<le> irq")
  case True
  have "unat (irq - 8) = unat irq - 8" using True by (simp add: unat_minus_le)
  moreover have "8 \<le> unat irq" "unat irq < 16" using True assms(1) by (simp_all add: word_le_nat_alt word_less_nat_alt)
  ultimately have "unat (irq - 8) = unat irq mod 8" by presburger
  moreover have "fst (port_inb io 0xA1 (pic s)) = m" "chip c (snd (port_inb io 0xA1 (pic s))) = chip c (pic s)" for c
    using read_data(1) [where c = True and d = "pic s"] read_data(2) [where c = True and d = "pic s"] assms(2) True by (simp_all add: pic_data_def)
  ultimately show ?thesis using True assms(2)
    by (auto simp: irq_unmask_def inb_def outb_def PIC2_DATA_def split: prod.splits)
next
  case False
  then have "unat irq < 8" by (simp add: word_le_nat_alt)
  moreover have "fst (port_inb io 0x21 (pic s)) = m" "chip c (snd (port_inb io 0x21 (pic s))) = chip c (pic s)" for c
    using read_data(1) [where c = False and d = "pic s"] read_data(2) [where c = False and d = "pic s"] assms(2) False by (simp_all add: pic_data_def)
  ultimately show ?thesis using False assms(2)
    by (auto simp: irq_unmask_def inb_def outb_def PIC1_DATA_def split: prod.splits)
qed

text \<open>Every interrupt is acknowledged without touching the masks.\<close>

lemma acknowledged: "chip c (pic (fst (snd (irq_handler io hook call regs s k)))) = chip c (pic s)"
  by (simp add: irq_handler_def Let_def outb_def PIC1_COMMAND_def PIC2_COMMAND_def PIC_EOI_def split: prod.splits)

end

text \<open>Two chips with exactly this behaviour.\<close>

definition pic_io :: "(bool \<Rightarrow> chip) ports" where
  "pic_io = \<lparr>port_inb = \<lambda>p d. (if p = 0x21 then snd (snd (d False)) else if p = 0xA1 then snd (snd (d True)) else 0, d),
     port_outb = \<lambda>p v d.
       if p = 0x20 \<or> p = 0xA0
       then if v = 0x11 then d(p = 0xA0 := (3, fst (snd (d (p = 0xA0))), 0)) else d
       else if p = 0x21 \<or> p = 0xA1 then d(p = 0xA1 := chip_data v (d (p = 0xA1))) else d,
     port_inw = \<lambda>p d. (0, d), port_outw = \<lambda>p v d. d\<rparr>"

interpretation pics: pic_pair pic_io "\<lambda>c d. d c"
  by unfold_locales (auto simp: pic_io_def pic_command_def pic_data_def)

section \<open>Properties\<close>

text \<open>
  (C25) After \<open>idt_install\<close>, on any pair of controllers that behaves as documented: vectors 0 to 31
  lead to the exception stubs, 32 to 47 to the IRQ stubs, 128 to the system call stub, all of
  them in the kernel code segment, and every other gate is absent; ring 3 can invoke vector 128
  and no other; the controllers raise IRQ n as vector 32 + n with every line masked; and
  installing a handler for IRQ n then unmasks that line and no other.
\<close>

theorem idt_install_correct:
  assumes "pic_pair io chip" "length (idt s) = 256" "s' = idt_install io isr_stub irq_stub addr s" "n < 256" "irq < 16"
  shows "(gate_present (idt s' ! n) \<longleftrightarrow> n < 48 \<or> n = 128) \<and>
    (gate_present (idt s' ! n) \<longrightarrow> i_selector (idt s' ! n) = GDT_KERNEL_CODE \<and>
       gate_base (idt s' ! n) = (if 32 \<le> n \<and> n < 48 then irq_stub (n - 32) else isr_stub n)) \<and>
    (gate_callable 3 (idt s' ! n) \<longleftrightarrow> n = 128) \<and>
    unat (ip_limit (idtr s')) + 1 = 8 * length (idt s') \<and>
    chip False (pic s') = (0, 32, 0xFF) \<and> chip True (pic s') = (0, 40, 0xFF) \<and>
    chip (8 \<le> irq) (pic (irq_install_handler io (int irq) h s')) =
      (0, if 8 \<le> irq then 40 else 32, NOT (push_bit (irq mod 8) 1)) \<and>
    chip (irq < 8) (pic (irq_install_handler io (int irq) h s')) = chip (irq < 8) (pic s') \<and>
    irq_handlers (irq_install_handler io (int irq) h s') = (replicate 16 0)[irq := h]"
proof -
  note eq = idt_install_eq [OF assms(2), where io = io and isr_stub = isr_stub and irq_stub = irq_stub and addr = addr, folded assms(3)]
  have fl: "bit (0x8E :: u8) 7" "bit (0xEE :: u8) 7" "unat (drop_bit 5 (0x8E :: u8) AND 3) = 0"
    "unat (drop_bit 5 (0xEE :: u8) AND 3) = 3" by simp_all
  have g: "idt s' ! n = installed_gate isr_stub irq_stub n" using eq(2) assms(4) by simp
  have gates: "(gate_present (idt s' ! n) \<longleftrightarrow> n < 48 \<or> n = 128) \<and>
    (gate_present (idt s' ! n) \<longrightarrow> i_selector (idt s' ! n) = GDT_KERNEL_CODE \<and>
       gate_base (idt s' ! n) = (if 32 \<le> n \<and> n < 48 then irq_stub (n - 32) else isr_stub n)) \<and>
    (gate_callable 3 (idt s' ! n) \<longleftrightarrow> n = 128)"
  proof -
    have p: "gate_present (gate_for b sel f) = bit f 7" "i_selector (gate_for b sel f) = sel"
      "gate_callable 3 (gate_for b sel f) \<longleftrightarrow> bit f 7 \<and> 3 \<le> unat (drop_bit 5 f AND 3)" for b sel f
      by (simp_all add: gate_present_def gate_for_def gate_callable_def)
    show ?thesis unfolding g installed_gate_def using fl by (auto simp: p)
  qed
  have masks: "chip False (pic s') = (0, 32, 0xFF)" "chip True (pic s') = (0, 40, 0xFF)"
    using pic_pair.remapped [OF assms(1)] eq(3) by simp_all
  let ?w = "word_of_nat irq :: u8"
  define s2 where "s2 = s'\<lparr>irq_handlers := (irq_handlers s')[irq := h]\<rparr>"
  have w: "unat ?w = irq" using assms(5) by (intro unat_of_nat_small) simp
  then have w': "8 \<le> ?w \<longleftrightarrow> 8 \<le> irq" "?w < 16" using assms(5) by (simp_all add: word_le_nat_alt word_less_nat_alt)
  have ins: "irq_install_handler io (int irq) h s' = irq_unmask io ?w s2"
    using assms(5) by (simp add: irq_install_handler_def s2_def)
  have "chip (8 \<le> ?w) (pic s2) = (0, if 8 \<le> irq then 40 else 32, 0xFF)"
    using masks w' by (simp add: s2_def)
  note um = pic_pair.unmask [OF assms(1) w'(2) this, unfolded w w'(1)]
  have ff: "(0xFF :: u8) = - 1" by code_simp
  have "(0xFF :: u8) AND y = y" for y unfolding ff by (rule and.left_neutral)
  then have "chip (8 \<le> irq) (pic (irq_unmask io ?w s2)) = (0, if 8 \<le> irq then 40 else 32, NOT (push_bit (irq mod 8) 1))"
    "chip (irq < 8) (pic (irq_unmask io ?w s2)) = chip (irq < 8) (pic s')"
    using um [of "8 \<le> irq"] um [of "irq < 8"] by (auto simp: s2_def)
  moreover have "irq_handlers (irq_unmask io ?w s2) = (replicate 16 0)[irq := h]"
    using eq(4) by (simp add: irq_unmask_def Let_def s2_def split: prod.splits)
  ultimately show ?thesis using gates masks eq(1,7) ins by simp
qed

definition boot_interrupts :: "(bool \<Rightarrow> chip) interrupts" where
  "boot_interrupts = \<lparr>idt = replicate 256 (gate_for 0 0 0), idt_pointer = \<lparr>ip_limit = 0, ip_base = 0\<rparr>,
     idtr = \<lparr>ip_limit = 0, ip_base = 0\<rparr>, irq_handlers = replicate 16 0, isr_handlers = replicate 32 0,
     extra_handlers = [(0, 0)], pic = \<lambda>_. (0, 8, 0)\<rparr>"

theorem idt_install_correct_witness:
  "let s' = idt_install pic_io (\<lambda>n. 0x100000 + 16 * word_of_nat n) (\<lambda>n. 0x101000 + 16 * word_of_nat n) 0x108000 boot_interrupts
   in gate_base (idt s' ! 33) = 0x101010 \<and> \<not> gate_callable 3 (idt s' ! 33) \<and> pic s' True = (0, 40, 0xFF) \<and>
      pic (irq_install_handler pic_io 9 0x102000 s') True = (0, 40, NOT 2)"
proof -
  have len: "length (idt boot_interrupts) = 256" by (simp add: boot_interrupts_def)
  note c = idt_install_correct [OF pics.pic_pair_axioms len refl, of 33 9 "\<lambda>n. 0x100000 + 16 * word_of_nat n"
      "\<lambda>n. 0x101000 + 16 * word_of_nat n" "0x108000" "0x102000", simplified]
  then show ?thesis by (simp add: Let_def)
qed

end
