(* ===== verification/Keyboard.thy ===== *)
theory Keyboard
  imports Idt
begin

text \<open>
  The PS/2 keyboard driver of \<open>drivers/keyboard.c\<close>: scancodes of set 1 to characters, with the
  shift and caps-lock state kept in software.

  The controller is a parameter \<open>io\<close>; the registered callback is a function on a state of any type.
  The correctness statement is about every sequence of keyboard interrupts.
\<close>

section \<open>Model\<close>

record keyboard =
  shift_held :: bool
  caps_lock :: bool

definition KEYBOARD_DATA_PORT :: u16 where "KEYBOARD_DATA_PORT = 0x60"
definition SC_LSHIFT :: u8 where "SC_LSHIFT = 0x2A"
definition SC_RSHIFT :: u8 where "SC_RSHIFT = 0x36"
definition SC_CAPSLOCK :: u8 where "SC_CAPSLOCK = 0x3A"
definition SC_RELEASED :: u8 where "SC_RELEASED = 0x80"

definition scancode_to_ascii :: "u8 list" where
  "scancode_to_ascii =
    [0, 0, 0x31, 0x32, 0x33, 0x34, 0x35, 0x36,
     0x37, 0x38, 0x39, 0x30, 0x2D, 0x3D, 0x08, 0x09,
     0x71, 0x77, 0x65, 0x72, 0x74, 0x79, 0x75, 0x69,
     0x6F, 0x70, 0x5B, 0x5D, 0x0A, 0, 0x61, 0x73,
     0x64, 0x66, 0x67, 0x68, 0x6A, 0x6B, 0x6C, 0x3B,
     0x27, 0x60, 0, 0x5C, 0x7A, 0x78, 0x63, 0x76,
     0x62, 0x6E, 0x6D, 0x2C, 0x2E, 0x2F, 0, 0x2A,
     0, 0x20, 0, 0, 0, 0, 0, 0] @ replicate 64 0"

definition scancode_to_ascii_shift :: "u8 list" where
  "scancode_to_ascii_shift =
    [0, 0, 0x21, 0x40, 0x23, 0x24, 0x25, 0x5E,
     0x26, 0x2A, 0x28, 0x29, 0x5F, 0x2B, 0x08, 0x09,
     0x51, 0x57, 0x45, 0x52, 0x54, 0x59, 0x55, 0x49,
     0x4F, 0x50, 0x7B, 0x7D, 0x0A, 0, 0x41, 0x53,
     0x44, 0x46, 0x47, 0x48, 0x4A, 0x4B, 0x4C, 0x3A,
     0x22, 0x7E, 0, 0x7C, 0x5A, 0x58, 0x43, 0x56,
     0x42, 0x4E, 0x4D, 0x3C, 0x3E, 0x3F, 0, 0x2A,
     0, 0x20, 0, 0, 0, 0, 0, 0] @ replicate 64 0"

text \<open>The flip of the case of a letter under caps lock.\<close>

definition caps_flip :: "u8 \<Rightarrow> u8" where
  "caps_flip c =
     (if 0x61 \<le> c \<and> c \<le> 0x7A then c - 0x61 + 0x41
      else if 0x41 \<le> c \<and> c \<le> 0x5A then c - 0x41 + 0x61 else c)"

definition keyboard_irq ::
  "'d ports \<Rightarrow> (u8 \<Rightarrow> 's \<Rightarrow> 's) option \<Rightarrow> keyboard \<times> 'd \<times> 's \<Rightarrow> keyboard \<times> 'd \<times> 's" where
  "keyboard_irq io on_key = (\<lambda>(k, d, s).
     case inb io KEYBOARD_DATA_PORT d of (scancode, d') \<Rightarrow>
       if scancode AND SC_RELEASED \<noteq> 0
       then
         let key = scancode AND NOT SC_RELEASED
         in (if key = SC_LSHIFT \<or> key = SC_RSHIFT then k\<lparr>shift_held := False\<rparr> else k, d', s)
       else if scancode = SC_LSHIFT \<or> scancode = SC_RSHIFT then (k\<lparr>shift_held := True\<rparr>, d', s)
       else if scancode = SC_CAPSLOCK then (k\<lparr>caps_lock := \<not> caps_lock k\<rparr>, d', s)
       else
         let c = (if shift_held k then scancode_to_ascii_shift else scancode_to_ascii) ! unat scancode
         in if c = 0 then (k, d', s)
            else
              let c = (if caps_lock k then caps_flip c else c)
              in (k, d', case on_key of None \<Rightarrow> s | Some f \<Rightarrow> f c s))"

text \<open>The callback is stored and IRQ 1 is given the handler at address \<open>keyboard_irq_addr\<close>.\<close>

definition keyboard_install ::
  "'d ports \<Rightarrow> u32 \<Rightarrow> (u8 \<Rightarrow> 's \<Rightarrow> 's) option \<Rightarrow> 'd interrupts \<Rightarrow> (u8 \<Rightarrow> 's \<Rightarrow> 's) option \<times> 'd interrupts" where
  "keyboard_install io keyboard_irq_addr callback s = (callback, irq_install_handler io 1 keyboard_irq_addr s)"

section \<open>Specification\<close>

text \<open>Which keys are held or latched after a history of scancodes, latest last.\<close>

definition shift_after :: "u8 list \<Rightarrow> bool" where
  "shift_after h =
     (let ev = filter (\<lambda>c. c AND 0x7F = 0x2A \<or> c AND 0x7F = 0x36) h in ev \<noteq> [] \<and> List.last ev < 0x80)"

definition caps_after :: "u8 list \<Rightarrow> bool" where
  "caps_after h = odd (length (filter (\<lambda>c. c = 0x3A) h))"

definition is_letter :: "u8 \<Rightarrow> bool" where
  "is_letter c \<longleftrightarrow> 0x61 \<le> c \<and> c \<le> 0x7A"

text \<open>
  The character a key press stands for: a letter is upper case when exactly one of shift and caps
  lock is on; any other key looks at shift only.
\<close>

definition key_char :: "bool \<Rightarrow> bool \<Rightarrow> u8 \<Rightarrow> u8 list" where
  "key_char shift caps c =
     (let l = scancode_to_ascii ! unat c; u = scancode_to_ascii_shift ! unat c
      in if 0x80 \<le> c \<or> l = 0 then []
         else if is_letter l then [if shift \<noteq> caps then l - 0x20 else l]
         else [if shift then u else l])"

definition typed :: "u8 list \<Rightarrow> u8 list" where
  "typed h = concat (map (\<lambda>i. key_char (shift_after (take i h)) (caps_after (take i h)) (h ! i)) [0..<length h])"

text \<open>The scancodes that \<open>n\<close> interrupts read.\<close>

fun scancodes :: "'d ports \<Rightarrow> nat \<Rightarrow> 'd \<Rightarrow> u8 list" where
  "scancodes io 0 d = []"
| "scancodes io (Suc n) d = (case inb io KEYBOARD_DATA_PORT d of (c, d') \<Rightarrow> c # scancodes io n d')"

fun device_after :: "'d ports \<Rightarrow> nat \<Rightarrow> 'd \<Rightarrow> 'd" where
  "device_after io 0 d = d"
| "device_after io (Suc n) d = device_after io n (snd (inb io KEYBOARD_DATA_PORT d))"

fun irqs :: "'d ports \<Rightarrow> (u8 \<Rightarrow> 's \<Rightarrow> 's) option \<Rightarrow> nat \<Rightarrow> keyboard \<times> 'd \<times> 's \<Rightarrow> keyboard \<times> 'd \<times> 's" where
  "irqs io f 0 s = s"
| "irqs io f (Suc n) s = irqs io f n (keyboard_irq io f s)"

lemma typed_snoc: "typed (h @ [c]) = typed h @ key_char (shift_after h) (caps_after h) c"
proof -
  have m: "map (\<lambda>i. key_char (shift_after (take i (h @ [c]))) (caps_after (take i (h @ [c]))) ((h @ [c]) ! i)) [0..<length h] =
      map (\<lambda>i. key_char (shift_after (take i h)) (caps_after (take i h)) (h ! i)) [0..<length h]"
    by (intro map_cong) (auto simp: nth_append)
  have u: "[0..<length (h @ [c])] = [0..<length h] @ [length h]" by simp
  show ?thesis unfolding typed_def u map_append concat_append m by simp
qed

text \<open>The tables, checked entry by entry.\<close>

lemma table_facts:
  fixes c :: u8
  assumes "c < 0x80"
  shows "c AND 0x80 = 0 \<and> c AND 0x7F = c \<and>
    (let l = scancode_to_ascii ! unat c; u = scancode_to_ascii_shift ! unat c
     in (l = 0 \<longleftrightarrow> u = 0) \<and> (l \<noteq> 0 \<longrightarrow> caps_flip l = (if is_letter l then l - 0x20 else l) \<and>
       caps_flip u = (if is_letter l then l else u) \<and> (is_letter l \<longrightarrow> u = l - 0x20)))"
proof -
  have all: "list_all (\<lambda>n. let c = word_of_nat n :: u8 in c AND 0x80 = 0 \<and> c AND 0x7F = c \<and>
    (let l = scancode_to_ascii ! n; u = scancode_to_ascii_shift ! n
     in (l = 0 \<longleftrightarrow> u = 0) \<and> (l \<noteq> 0 \<longrightarrow> caps_flip l = (if is_letter l then l - 0x20 else l) \<and>
       caps_flip u = (if is_letter l then l else u) \<and> (is_letter l \<longrightarrow> u = l - 0x20)))) [0..<128]"
    by code_simp
  have "unat c \<in> set [0..<128]" using assms by (simp add: word_less_nat_alt)
  from bspec [OF all [unfolded list_all_iff] this] show ?thesis unfolding Let_def word_of_nat_unat .
qed

lemma released_iff: "c AND 0x80 \<noteq> 0 \<longleftrightarrow> 0x80 \<le> (c :: u8)" "c AND NOT 0x80 = c AND 0x7F"
proof -
  have "list_all (\<lambda>n. (word_of_nat n AND 0x80 \<noteq> (0 :: u8) \<longleftrightarrow> 0x80 \<le> (word_of_nat n :: u8)) \<and>
      word_of_nat n AND NOT 0x80 = (word_of_nat n AND 0x7F :: u8)) [0..<256]" by code_simp
  moreover have "unat c < 256" using unat_lt2p [of c] by simp
  ultimately have "(c AND 0x80 \<noteq> 0 \<longleftrightarrow> 0x80 \<le> c) \<and> c AND NOT 0x80 = c AND 0x7F"
    unfolding list_all_iff by (metis atLeastLessThan_iff le0 set_upt word_of_nat_unat)
  then show "c AND 0x80 \<noteq> 0 \<longleftrightarrow> 0x80 \<le> c" "c AND NOT 0x80 = c AND 0x7F" by blast+
qed

lemma and_low7: "c AND - 129 = c AND (0x7F :: u8)"
  using released_iff(2) [of c] by simp

text \<open>One interrupt, after the history \<open>h\<close>.\<close>

lemma keyboard_irq_step:
  assumes "inb io KEYBOARD_DATA_PORT d = (c, d')" "shift_held k = shift_after h" "caps_lock k = caps_after h"
  shows "keyboard_irq io (Some f) (k, d, s) =
    (k\<lparr>shift_held := shift_after (h @ [c]), caps_lock := caps_after (h @ [c])\<rparr>, d',
     fold f (key_char (shift_after h) (caps_after h) c) s)"
proof -
  have k: "k = \<lparr>shift_held = shift_after h, caps_lock = caps_after h\<rparr>" using assms by simp
  have sh: "shift_after (h @ [c]) = (if c AND 0x7F = 0x2A \<or> c AND 0x7F = 0x36 then c < 0x80 else shift_after h)" for c
    by (simp add: shift_after_def Let_def)
  have ca: "caps_after (h @ [c]) = (if c = 0x3A then \<not> caps_after h else caps_after h)" for c by (simp add: caps_after_def)
  have kl: "key_char a b 0x2A = []" "key_char a b 0x36 = []" "key_char a b 0x3A = []" for a b
    by (simp_all add: key_char_def scancode_to_ascii_def scancode_to_ascii_shift_def)
  note defs = keyboard_irq_def assms(1) SC_RELEASED_def SC_LSHIFT_def SC_RSHIFT_def SC_CAPSLOCK_def released_iff(1) and_low7
  show ?thesis
  proof (cases "0x80 \<le> c")
    case True
    then have "\<not> c < 0x80" "c \<noteq> 0x3A" "key_char a b c = []" for a b by (auto simp: key_char_def)
    then show ?thesis using True by (simp add: defs sh ca Let_def k)
  next
    case False
    then have lt: "c < 0x80" by simp
    note tf = table_facts [OF lt]
    consider "c = 0x2A \<or> c = 0x36" | "c = 0x3A" | "c \<noteq> 0x2A" "c \<noteq> 0x36" "c \<noteq> 0x3A" by blast
    then show ?thesis
    proof cases
      case 3
      then show ?thesis using False tf lt
        by (auto simp: defs sh ca Let_def key_char_def k)
    qed (use False tf lt kl in \<open>auto simp: defs sh ca k\<close>)
  qed
qed

text \<open>
  (C23) For every controller and every number of keyboard interrupts since the driver was
  initialised, the registered callback has received, in order, exactly the characters that the
  scancodes stand for: no character for a release, letters in the case given by shift and caps
  lock together, other keys by shift alone, with shift following its last press or release and
  caps lock toggling on each press.
\<close>

theorem keyboard_history:
  "irqs io (Some f) n (\<lparr>shift_held = False, caps_lock = False\<rparr>, d, s) =
     (\<lparr>shift_held = shift_after (scancodes io n d), caps_lock = caps_after (scancodes io n d)\<rparr>,
      device_after io n d,
      fold f (typed (scancodes io n d)) s)"
proof -
  have "irqs io (Some f) n (k, d, s) =
      (\<lparr>shift_held = shift_after (h @ scancodes io n d), caps_lock = caps_after (h @ scancodes io n d)\<rparr>,
       device_after io n d, s')"
    if "shift_held k = shift_after h" "caps_lock k = caps_after h"
      "fold f (typed h) s0 = s" "fold f (typed (h @ scancodes io n d)) s0 = s'" for k h s s' s0 d
    using that
  proof (induction n arbitrary: k d s h)
    case 0
    then show ?case by simp
  next
    case (Suc n)
    obtain c d' where c: "inb io KEYBOARD_DATA_PORT d = (c, d')" by fastforce
    show ?case
      using Suc.IH [of "k\<lparr>shift_held := shift_after (h @ [c]), caps_lock := caps_after (h @ [c])\<rparr>" "h @ [c]" _ d'] Suc.prems
        keyboard_irq_step [OF c Suc.prems(1,2), of f s] c
      by (simp add: typed_snoc)
  qed
  from this [of _ "[]" s] show ?thesis by (simp add: shift_after_def caps_after_def typed_def)
qed

end
