(* ===== verification/Syscall.thy ===== *)
theory Syscall
  imports Pipe Idt Terminal PagingCorrect
begin

text \<open>
  The kernel/user boundary: \<open>kernel/syscall.c\<close>, \<open>kernel/cpuprot.c\<close> (SMEP and SMAP) and
  \<open>kernel/usermode.c\<close>.

  The globals of these files extend the kernel state in its last component.  A pointer
  from ring 3 is dereferenced through the page tables of the active address space, with the access
  rules of the CPU: the page must be present, writable for a store (CR0.WP is set), and with SMAP on a
  user page may only be touched while EFLAGS.AC is set.  A kernel access that breaks the rules raises a
  page fault in ring 0, which halts the system; so does \<open>stac\<close> on a CPU that lacks SMAP.
\<close>

section \<open>State\<close>

record sys =
  ipc_pipe :: pipe
  ipc_ready :: bool
  user_range_start :: u32
  user_range_end :: u32
  smep_ok :: bool
  smap_ok :: bool
  user_stack_base :: u32
  user_stack_top :: u32

definition set_sys :: "(('z) sys_scheme \<Rightarrow> 'z sys_scheme) \<Rightarrow> 'z sys_scheme kernel \<Rightarrow> 'z sys_scheme kernel" where
  "set_sys f k = k\<lparr>ext := f (ext k)\<rparr>"

text \<open>\<open>kprintf\<close> onto the console text.\<close>

definition ascii :: "string \<Rightarrow> cstring" where
  "ascii = map of_char"

definition say :: "cstring \<Rightarrow> u32 list \<Rightarrow> 'x kernel \<Rightarrow> 'x kernel" where
  "say fmt args k = console_write (render (\<lambda>_. []) (\<lambda>n. if n < length args then args ! n else 0) 0 (pieces fmt)) k"

definition SYSCALL_VECTOR :: u32 where "SYSCALL_VECTOR = 0x80"
definition SYS_WRITE :: u32 where "SYS_WRITE = 0"
definition SYS_TICKS :: u32 where "SYS_TICKS = 1"
definition SYS_EXIT :: u32 where "SYS_EXIT = 2"
definition SYS_SLEEP :: u32 where "SYS_SLEEP = 3"
definition SYS_ID :: u32 where "SYS_ID = 4"
definition SYS_PIPE_WRITE :: u32 where "SYS_PIPE_WRITE = 5"
definition SYS_PIPE_READ :: u32 where "SYS_PIPE_READ = 6"

section \<open>SMEP and SMAP\<close>

text \<open>\<open>ebx\<close> is what \<open>cpuid\<close> leaf 7 reports in EBX.\<close>

definition cpuprot_init :: "u32 \<Rightarrow> 'z sys_scheme kernel \<Rightarrow> bool \<times> 'z sys_scheme kernel" where
  "cpuprot_init ebx k =
     (let smep = ebx AND push_bit 7 1 \<noteq> 0;
          smap = ebx AND push_bit 20 1 \<noteq> 0;
          k1 = set_sys (\<lambda>s. s\<lparr>smep_ok := smep, smap_ok := smap\<rparr>) k;
          cr4 = r_cr4 (mm k1);
          cr4 = (if smep then cr4 OR push_bit 20 1 else cr4);
          cr4 = (if smap then cr4 OR push_bit 21 1 else cr4)
      in (smep \<and> smap, k1\<lparr>mm := (mm k1)\<lparr>r_cr4 := cr4\<rparr>\<rparr>))"

definition cpuprot_smep_available :: "'z sys_scheme kernel \<Rightarrow> bool" where
  "cpuprot_smep_available k = smep_ok (ext k)"

definition cpuprot_smap_available :: "'z sys_scheme kernel \<Rightarrow> bool" where
  "cpuprot_smap_available k = smap_ok (ext k)"

text \<open>Exceptions raised by kernel code; nothing handles them, so they halt the system.\<close>

datatype stop = Page_Fault u32 | Invalid_Opcode

text \<open>
  \<open>stac\<close> sets EFLAGS.AC, and is an invalid opcode on a CPU without SMAP, which is what \<open>smap_ok\<close>
  records of the CPU.
\<close>

definition user_access_begin :: "'z sys_scheme kernel \<Rightarrow> stop + 'z sys_scheme kernel" where
  "user_access_begin k =
     (if smap_ok (ext k) then Inr (k\<lparr>eflags := eflags k OR 0x40000\<rparr>) else Inl Invalid_Opcode)"

definition user_access_end :: "'z sys_scheme kernel \<Rightarrow> 'z sys_scheme kernel" where
  "user_access_end k = k\<lparr>eflags := eflags k AND NOT 0x40000\<rparr>"

section \<open>Dereferencing a user pointer\<close>

definition smap_blocks :: "'x kernel \<Rightarrow> bool \<Rightarrow> bool" where
  "smap_blocks k user_page \<longleftrightarrow> user_page \<and> bit (r_cr4 (mm k)) 21 \<and> \<not> bit (eflags k) 18"

definition user_load :: "'x kernel \<Rightarrow> u32 \<Rightarrow> stop + u8" where
  "user_load k va =
     (case mmu (mm k) (active_pdpt (mm k)) va of
        None \<Rightarrow> Inl (Page_Fault va)
      | Some (pa, w, u, nx) \<Rightarrow>
          if smap_blocks k u then Inl (Page_Fault va) else Inr (memory k (pa OR (va AND 0xFFF))))"

definition user_store :: "u32 \<Rightarrow> u8 \<Rightarrow> 'x kernel \<Rightarrow> stop + 'x kernel" where
  "user_store va b k =
     (case mmu (mm k) (active_pdpt (mm k)) va of
        None \<Rightarrow> Inl (Page_Fault va)
      | Some (pa, w, u, nx) \<Rightarrow>
          if \<not> w \<or> smap_blocks k u then Inl (Page_Fault va)
          else Inr (k\<lparr>memory := (memory k)(pa OR (va AND 0xFFF) := b)\<rparr>))"

text \<open>The bytes of a string up to its terminator; None when there is no terminator anywhere.\<close>

partial_function (option) user_text :: "'x kernel \<Rightarrow> u32 \<Rightarrow> (stop + u8 list) option" where
  [code]: "user_text k a =
     (case user_load k a of
        Inl e \<Rightarrow> Some (Inl e)
      | Inr b \<Rightarrow>
          if b = 0 then Some (Inr [])
          else Option.bind (user_text k (a + 1))
                 (\<lambda>r. Some (case r of Inl e \<Rightarrow> Inl e | Inr bs \<Rightarrow> Inr (b # bs))))"

fun user_bytes :: "'x kernel \<Rightarrow> u32 \<Rightarrow> nat \<Rightarrow> stop + u8 list" where
  "user_bytes k a 0 = Inr []"
| "user_bytes k a (Suc n) =
     (case user_load k a of
        Inl e \<Rightarrow> Inl e
      | Inr b \<Rightarrow> (case user_bytes k (a + 1) n of Inl e \<Rightarrow> Inl e | Inr bs \<Rightarrow> Inr (b # bs)))"

fun user_store_all :: "u32 \<Rightarrow> u8 list \<Rightarrow> 'x kernel \<Rightarrow> stop + 'x kernel" where
  "user_store_all a [] k = Inr k"
| "user_store_all a (b # bs) k =
     (case user_store a b k of Inl e \<Rightarrow> Inl e | Inr k' \<Rightarrow> user_store_all (a + 1) bs k')"

section \<open>Validation\<close>

definition syscall_set_user_range :: "u32 \<Rightarrow> u32 \<Rightarrow> 'z sys_scheme kernel \<Rightarrow> 'z sys_scheme kernel" where
  "syscall_set_user_range start_addr end_addr k =
     set_sys (\<lambda>s. s\<lparr>user_range_start := start_addr, user_range_end := end_addr\<rparr>) k"

definition user_buffer_ok :: "'z sys_scheme kernel \<Rightarrow> u32 \<Rightarrow> u32 \<Rightarrow> bool" where
  "user_buffer_ok k ptr n =
     (if n = 0 \<or> n > 4096 then False
      else if ptr < user_range_start (ext k) \<or> ptr \<ge> user_range_end (ext k) then False
      else if ptr + n < ptr then False
      else if ptr + n > user_range_end (ext k) then False
      else True)"

text \<open>The loop of \<open>user_string_ok\<close>, with the number of iterations left.\<close>

fun string_scan :: "'z sys_scheme kernel \<Rightarrow> nat \<Rightarrow> u32 \<Rightarrow> stop + bool" where
  "string_scan k 0 addr = Inr False"
| "string_scan k (Suc n) addr =
     (if addr \<ge> user_range_end (ext k) then Inr False
      else case user_load k addr of
             Inl e \<Rightarrow> Inl e
           | Inr b \<Rightarrow> if b = 0 then Inr True else string_scan k n (addr + 1))"

definition user_string_ok :: "u32 \<Rightarrow> u32 \<Rightarrow> 'z sys_scheme kernel \<Rightarrow> stop + (bool \<times> 'z sys_scheme kernel)" where
  "user_string_ok ptr max_length k =
     (if ptr < user_range_start (ext k) \<or> ptr \<ge> user_range_end (ext k) then Inr (False, k)
      else
        case user_access_begin k of
          Inl e \<Rightarrow> Inl e
        | Inr k1 \<Rightarrow>
            (case string_scan k1 (unat max_length) ptr of
               Inl e \<Rightarrow> Inl e
             | Inr ok \<Rightarrow> Inr (ok, user_access_end k1)))"

section \<open>Output\<close>

text \<open>One character of the loop of \<open>buffered_write\<close>; \<open>sizeof(outbuf)\<close> is 128.\<close>

definition buffer_char :: "u32 \<Rightarrow> u8 \<Rightarrow> 'x kernel \<Rightarrow> 'x kernel" where
  "buffer_char t c k =
     (let k1 = set_task t (\<lambda>x. x\<lparr>t_outbuf := (t_outbuf x)[unat (t_outlen x) := c], t_outlen := t_outlen x + 1\<rparr>) k
      in if c = 10 \<or> t_outlen (tasks k1 t) \<ge> 128 - 1
         then
           let k2 = set_task t (\<lambda>x. x\<lparr>t_outbuf := (t_outbuf x)[unat (t_outlen x) := 0]\<rparr>) k1;
               k3 = console_write (takeWhile (\<lambda>c. c \<noteq> 0) (t_outbuf (tasks k2 t))) k2
           in set_task t (\<lambda>x. x\<lparr>t_outlen := 0\<rparr>) k3
         else k1)"

definition buffered_write :: "u32 \<Rightarrow> cstring \<Rightarrow> 'x kernel \<Rightarrow> 'x kernel" where
  "buffered_write t cs k = (if t = 0 then console_write cs k else fold (buffer_char t) cs k)"

definition syscall_flush_output :: "u32 \<Rightarrow> 'x kernel \<Rightarrow> 'x kernel" where
  "syscall_flush_output t k =
     (if t \<noteq> 0 \<and> t_outlen (tasks k t) \<noteq> 0
      then
        let k1 = set_task t (\<lambda>x. x\<lparr>t_outbuf := (t_outbuf x)[unat (t_outlen x) := 0]\<rparr>) k;
            k2 = console_write (takeWhile (\<lambda>c. c \<noteq> 0) (t_outbuf (tasks k1 t))) k1
        in set_task t (\<lambda>x. x\<lparr>t_outlen := 0\<rparr>) k2
      else k)"

section \<open>Dispatch\<close>

text \<open>
  How a call ends: it returns to ring 3; it sleeps and then returns; it waits in the pipe with these
  bytes left, or for bytes to read; the task is over; or the ring 3 excursion of a kernel task is
  unwound.
\<close>

datatype 'k call_result =
    Done registers 'k
  | Sleeping registers "'k sleep_outcome"
  | Write_Waits "u8 list" 'k
  | Read_Waits 'k
  | Terminated 'k
  | Unwound 'k

definition ensure_pipe :: "'z sys_scheme kernel \<Rightarrow> 'z sys_scheme kernel" where
  "ensure_pipe k = (if \<not> ipc_ready (ext k) then set_sys (\<lambda>s. s\<lparr>ipc_pipe := pipe_init, ipc_ready := True\<rparr>) k else k)"

definition set_eax :: "u32 \<Rightarrow> registers \<Rightarrow> registers" where
  "set_eax v r = r\<lparr>rg_eax := v\<rparr>"

definition sys_write_call :: "registers \<Rightarrow> 'z sys_scheme kernel \<Rightarrow> (stop + 'z sys_scheme kernel call_result) option" where
  "sys_write_call regs k =
     (case user_string_ok (rg_ebx regs) 256 k of
        Inl e \<Rightarrow> Some (Inl e)
      | Inr (ok, k1) \<Rightarrow>
          if \<not> ok
          then Some (Inr (Done (set_eax (- 1) regs)
                 (say (ascii (''[syscall] rejected bad string pointer 0x%x'' @ [CHR 0x0A])) [rg_ebx regs] k1)))
          else
            case user_access_begin k1 of
              Inl e \<Rightarrow> Some (Inl e)
            | Inr k2 \<Rightarrow>
                Option.bind (user_text k2 (rg_ebx regs))
                  (\<lambda>r. Some (case r of
                     Inl e \<Rightarrow> Inl e
                   | Inr cs \<Rightarrow> Inr (Done (set_eax 0 regs) (user_access_end (buffered_write (task_current k2) cs k2))))))"

definition sys_pipe_write_call ::
  "(u32 \<Rightarrow> u32 \<Rightarrow> 'z sys_scheme kernel \<Rightarrow> 'z sys_scheme kernel) \<Rightarrow> registers \<Rightarrow> 'z sys_scheme kernel \<Rightarrow>
   stop + 'z sys_scheme kernel call_result" where
  "sys_pipe_write_call hook regs k =
     (let k1 = ensure_pipe k
      in if \<not> user_buffer_ok k1 (rg_ebx regs) (rg_ecx regs)
         then Inr (Done (set_eax (- 1) regs)
                (say (ascii (''[syscall] rejected bad write buffer 0x%x len %u'' @ [CHR 0x0A])) [rg_ebx regs, rg_ecx regs] k1))
         else
           case user_access_begin k1 of
             Inl e \<Rightarrow> Inl e
           | Inr k2 \<Rightarrow>
               (case user_bytes k2 (rg_ebx regs) (unat (rg_ecx regs)) of
                  Inl e \<Rightarrow> Inl e
                | Inr bs \<Rightarrow>
                    (case pipe_write hook bs (ipc_pipe (ext k2)) k2 of
                       (rest, p, k3) \<Rightarrow>
                         let k4 = set_sys (\<lambda>s. s\<lparr>ipc_pipe := p\<rparr>) k3
                         in Inr (if rest = [] then Done (set_eax (rg_ecx regs) regs) (user_access_end k4)
                                 else Write_Waits rest k4))))"

definition sys_pipe_read_call ::
  "(u32 \<Rightarrow> u32 \<Rightarrow> 'z sys_scheme kernel \<Rightarrow> 'z sys_scheme kernel) \<Rightarrow> registers \<Rightarrow> 'z sys_scheme kernel \<Rightarrow>
   stop + 'z sys_scheme kernel call_result" where
  "sys_pipe_read_call hook regs k =
     (let k1 = ensure_pipe k
      in if \<not> user_buffer_ok k1 (rg_ebx regs) (rg_ecx regs)
         then Inr (Done (set_eax (- 1) regs)
                (say (ascii (''[syscall] rejected bad read buffer 0x%x len %u'' @ [CHR 0x0A])) [rg_ebx regs, rg_ecx regs] k1))
         else
           case user_access_begin k1 of
             Inl e \<Rightarrow> Inl e
           | Inr k2 \<Rightarrow>
               (case pipe_read hook (rg_ecx regs) (ipc_pipe (ext k2)) k2 of
                  (returned, bs, p, k3) \<Rightarrow>
                    let k4 = set_sys (\<lambda>s. s\<lparr>ipc_pipe := p\<rparr>) k3
                    in if \<not> returned then Inr (Read_Waits k4)
                       else
                         case user_store_all (rg_ebx regs) bs k4 of
                           Inl e \<Rightarrow> Inl e
                         | Inr k5 \<Rightarrow> Inr (Done (set_eax (word_of_nat (length bs)) regs) (user_access_end k5))))"

definition sys_exit_call ::
  "(u32 \<Rightarrow> u32 \<Rightarrow> 'x kernel \<Rightarrow> 'x kernel) \<Rightarrow> 'x kernel \<Rightarrow> 'x kernel call_result" where
  "sys_exit_call hook k =
     (let t = task_current k; k1 = syscall_flush_output t k
      in if t \<noteq> 0 \<and> t_on_exit (tasks k1 t) \<noteq> 0 then Terminated (task_terminate hook k1) else Unwound k1)"

definition syscall_dispatch ::
  "(u32 \<Rightarrow> u32 \<Rightarrow> 'z sys_scheme kernel \<Rightarrow> 'z sys_scheme kernel) \<Rightarrow> registers \<Rightarrow> 'z sys_scheme kernel \<Rightarrow>
   (stop + 'z sys_scheme kernel call_result) option" where
  "syscall_dispatch hook regs k =
     (if rg_eax regs = SYS_WRITE then sys_write_call regs k
      else if rg_eax regs = SYS_TICKS then Some (Inr (Done (set_eax (timer_get_ticks k) regs) k))
      else if rg_eax regs = SYS_SLEEP
      then Some (Inr (Sleeping (set_eax 0 regs) (task_sleep hook (if rg_ebx regs > 200 then 200 else rg_ebx regs) k)))
      else if rg_eax regs = SYS_ID
      then Some (Inr (Done (set_eax (if task_current k \<noteq> 0 then t_id (tasks k (task_current k)) else 0) regs) k))
      else if rg_eax regs = SYS_PIPE_WRITE then Some (sys_pipe_write_call hook regs k)
      else if rg_eax regs = SYS_PIPE_READ then Some (sys_pipe_read_call hook regs k)
      else if rg_eax regs = SYS_EXIT then Some (Inr (sys_exit_call hook k))
      else Some (Inr (Done (set_eax (- 1) regs)
             (say (ascii (''[syscall] unknown call %u'' @ [CHR 0x0A])) [rg_eax regs] k))))"

definition syscall_install :: "u32 \<Rightarrow> 'd interrupts \<Rightarrow> 'd interrupts" where
  "syscall_install dispatch_addr s = isr_install_handler_vector SYSCALL_VECTOR dispatch_addr s"

section \<open>Ring 3 from a kernel task\<close>

definition USER_STACK_FRAMES :: u32 where "USER_STACK_FRAMES = 2"

text \<open>
  \<open>text_start\<close> and \<open>text_end\<close> are the linker symbols around the code for ring 3.  None when a loop of
  \<open>paging_make_user\<close> does not end.
\<close>

definition usermode_init :: "u32 \<Rightarrow> u32 \<Rightarrow> 'z sys_scheme kernel \<Rightarrow> 'z sys_scheme kernel option" where
  "usermode_init text_start text_end k =
     (case pmm_alloc_frames USER_STACK_FRAMES (frames k) of (base, p) \<Rightarrow>
        let k1 = set_sys (\<lambda>s. s\<lparr>user_stack_base := base\<rparr>) (set_frames p k)
        in if base = 0 then Some (say (ascii (''usermode: no memory for a user stack'' @ [CHR 0x0A])) [] k1)
           else
             let stk_top = base + USER_STACK_FRAMES * PAGE_SIZE;
                 k2 = set_sys (\<lambda>s. s\<lparr>user_stack_top := stk_top\<rparr>) k1
             in Option.bind (paging_make_user text_start text_end False (mm k2)) (\<lambda>m1.
                Option.bind (paging_make_user base stk_top True m1) (\<lambda>m2.
                Some (tss_set_kernel_stack 0 (syscall_set_user_range text_start stk_top (k2\<lparr>mm := m2\<rparr>))))))"

text \<open>Where ring 3 starts: entry point and stack pointer.\<close>

definition usermode_run :: "u32 \<Rightarrow> u32 \<Rightarrow> 'z sys_scheme kernel \<Rightarrow> (u32 \<times> u32) option \<times> 'z sys_scheme kernel" where
  "usermode_run user_program esp_now k =
     (if user_stack_top (ext k) = 0 then (None, say (ascii (''usermode: not initialised'' @ [CHR 0x0A])) [] k)
      else (Some (user_program, user_stack_top (ext k) - 16), tss_set_kernel_stack (esp_now - 256) k))"

end
