(* ===== verification/SyscallCorrect.thy ===== *)
theory SyscallCorrect
  imports Syscall
begin

text \<open>
  What the system calls promise: pointer validation without wrap-around, reads and writes confined to
  the window of ring 3, bounded scanning, and output buffering that keeps every byte in order and
  stays inside its 128-byte buffer.
\<close>

section \<open>Validation\<close>

lemma user_buffer_range:
  assumes "user_buffer_ok k ptr n"
  shows "0 < unat n" "unat n \<le> 4096" "unat (user_range_start (ext k)) \<le> unat ptr"
    "unat ptr + unat n \<le> unat (user_range_end (ext k))"
proof -
  have c: "n \<noteq> 0" "n \<le> 4096" "user_range_start (ext k) \<le> ptr" "ptr \<le> ptr + n" "ptr + n \<le> user_range_end (ext k)"
    using assms by (auto simp: user_buffer_ok_def split: if_splits)
  show "0 < unat n" using c(1) by (simp add: unat_gt_0)
  show n: "unat n \<le> 4096" "unat (user_range_start (ext k)) \<le> unat ptr"
    using c(2,3) by (simp_all add: word_le_nat_alt)
  have "unat ptr + unat n < 2 ^ 32"
  proof (rule ccontr)
    assume over: "\<not> unat ptr + unat n < 2 ^ 32"
    then have "unat (ptr + n) = unat ptr + unat n - 2 ^ 32"
      using unat32_lt [of ptr] n(1) by (simp add: unat_word_ariths mod_if)
    then have "unat ptr \<le> unat ptr + unat n - 2 ^ 32" using c(4) by (simp only: word_le_nat_alt)
    then show False using n(1) over by simp
  qed
  then have "unat (ptr + n) = unat ptr + unat n" by (simp add: unat32_plus)
  then show "unat ptr + unat n \<le> unat (user_range_end (ext k))" using c(5) by (simp add: word_le_nat_alt)
qed

text \<open>An address inside the window of ring 3.\<close>

definition in_window :: "'z sys_scheme kernel \<Rightarrow> u32 \<Rightarrow> bool" where
  "in_window k a \<longleftrightarrow> user_range_start (ext k) \<le> a \<and> a < user_range_end (ext k)"

text \<open>What a virtual address holds, and how a load with access opened by \<open>stac\<close> sees it.\<close>

definition user_byte :: "'x kernel \<Rightarrow> u32 \<Rightarrow> u8 option" where
  "user_byte k va = map_option (\<lambda>(pa, _). memory k (pa OR (va AND 0xFFF))) (mmu (mm k) (active_pdpt (mm k)) va)"

lemma user_load_open:
  "bit (eflags k) 18 \<Longrightarrow> user_load k a = (case user_byte k a of None \<Rightarrow> Inl (Page_Fault a) | Some b \<Rightarrow> Inr b)"
  by (auto simp: user_load_def user_byte_def smap_blocks_def split: option.splits)

lemma user_byte_cong:
  "memory k' = memory k \<Longrightarrow> mm k' = mm k \<Longrightarrow> user_byte k' a = user_byte k a"
  by (simp add: user_byte_def)

text \<open>
  A string of ring 3 at an address: fewer than \<open>m\<close> non-zero bytes and a zero byte, all of them in the
  window and readable.
\<close>

definition user_string :: "'z sys_scheme kernel \<Rightarrow> u32 \<Rightarrow> nat \<Rightarrow> u8 list \<Rightarrow> bool" where
  "user_string k a m cs \<longleftrightarrow> length cs < m \<and> 0 \<notin> set cs \<and>
     (\<forall>i\<le>length cs. in_window k (a + word_of_nat i) \<and>
        user_byte k (a + word_of_nat i) = Some (if i < length cs then cs ! i else 0))"

lemma in_window_next: "in_window k a \<Longrightarrow> a + 1 < user_range_end (ext k) \<Longrightarrow> in_window k (a + 1)"
proof -
  assume a: "in_window k a" "a + 1 < user_range_end (ext k)"
  have "unat (a + 1) = Suc (unat a)" using a(1) unat_Suc_less [of a] by (auto simp: in_window_def)
  then show ?thesis using a by (auto simp: in_window_def word_le_nat_alt)
qed

lemma user_string_Cons:
  "user_string k a (Suc m) (b # cs) \<longleftrightarrow> b \<noteq> 0 \<and> in_window k a \<and> user_byte k a = Some b \<and> user_string k (a + 1) m cs"
proof -
  have all: "(\<forall>i\<le>Suc n. P i) \<longleftrightarrow> P 0 \<and> (\<forall>i\<le>n. P (Suc i))" for P n
    by (metis Suc_le_mono le0 not0_implies_Suc)
  show ?thesis by (auto simp: user_string_def all add.assoc)
qed

lemma user_string_Nil: "user_string k a (Suc m) [] \<longleftrightarrow> in_window k a \<and> user_byte k a = Some 0"
  by (auto simp: user_string_def)

lemma user_string_0: "\<not> user_string k a 0 cs"
  by (simp add: user_string_def)

lemma user_string_start:
  assumes "user_string k a m cs"
  shows "in_window k a"
proof -
  have "in_window k (a + word_of_nat 0)" using assms unfolding user_string_def by blast
  then show ?thesis by simp
qed

text \<open>The scan finds a proper string exactly when there is one, or stops at an unmapped byte.\<close>

lemma string_scan_cases:
  assumes "bit (eflags k) 18" "in_window k a"
  shows "case string_scan k m a of
      Inr ok \<Rightarrow> ok \<longleftrightarrow> (\<exists>cs. user_string k a m cs)
    | Inl e \<Rightarrow> (\<nexists>cs. user_string k a m cs) \<and> (\<exists>b. e = Page_Fault b \<and> in_window k b \<and> user_byte k b = None)"
  using assms(2)
proof (induction m arbitrary: a)
  case 0
  show ?case by (simp add: user_string_0)
next
  case (Suc m)
  have lt: "\<not> user_range_end (ext k) \<le> a" using Suc.prems by (auto simp: in_window_def not_le)
  have split: "(\<exists>cs. user_string k a (Suc m) cs) \<longleftrightarrow>
      (user_byte k a = Some 0 \<or> (\<exists>b cs. b \<noteq> 0 \<and> user_byte k a = Some b \<and> user_string k (a + 1) m cs))"
    using Suc.prems user_string_Cons [of k a m] user_string_Nil [of k a m] by (metis list.exhaust)
  show ?case
  proof (cases "user_byte k a")
    case None
    then show ?thesis using Suc.prems lt user_load_open [OF assms(1), of a] split by simp
  next
    case (Some b)
    then have ld: "user_load k a = Inr b" using user_load_open [OF assms(1), of a] by simp
    show ?thesis
    proof (cases "b = 0")
      case True
      then show ?thesis using ld lt Some split by simp
    next
      case False
      have eq: "string_scan k (Suc m) a = string_scan k m (a + 1)" using ld False lt by simp
      have ex: "(\<exists>cs. user_string k a (Suc m) cs) \<longleftrightarrow> (\<exists>cs. user_string k (a + 1) m cs)"
        using split Some False by auto
      show ?thesis
      proof (cases "a + 1 < user_range_end (ext k)")
        case True
        then show ?thesis
          using Suc.IH [OF in_window_next [OF Suc.prems True]] ex unfolding eq by (simp split: sum.splits)
      next
        case False
        then have "string_scan k m (a + 1) = Inr False" by (cases m) auto
        moreover have "\<not> user_string k (a + 1) m cs" for cs
          using False user_string_start [of k "a + 1" m cs] by (auto simp: in_window_def)
        ultimately show ?thesis unfolding eq ex by simp
      qed
    qed
  qed
qed

lemma user_text_string:
  assumes "bit (eflags k) 18"
  shows "user_string k a m cs \<Longrightarrow> user_text k a = Some (Inr cs)"
proof (induction cs arbitrary: a m)
  case Nil
  have "m \<noteq> 0" using Nil user_string_0 by metis
  then obtain m' where "m = Suc m'" by (cases m) auto
  then have "user_load k a = Inr 0" using Nil user_load_open [OF assms] by (simp add: user_string_Nil)
  then show ?case by (subst user_text.simps) simp
next
  case (Cons b cs)
  have "m \<noteq> 0" using Cons.prems user_string_0 by metis
  then obtain m' where "m = Suc m'" by (cases m) auto
  then have "user_load k a = Inr b" "b \<noteq> 0" "user_string k (a + 1) m' cs"
    using Cons.prems user_load_open [OF assms] by (simp_all add: user_string_Cons)
  then show ?case using Cons.IH by (subst user_text.simps) simp
qed

section \<open>Buffered output\<close>

text \<open>The pending line of a task, and everything its output has come to so far.\<close>

definition pending :: "'x kernel \<Rightarrow> u32 \<Rightarrow> u8 list" where
  "pending k t = take (unat (t_outlen (tasks k t))) (t_outbuf (tasks k t))"

definition out_ok :: "'x kernel \<Rightarrow> u32 \<Rightarrow> bool" where
  "out_ok k t \<longleftrightarrow> length (t_outbuf (tasks k t)) = 128 \<and> unat (t_outlen (tasks k t)) < 127 \<and> 0 \<notin> set (pending k t)"

lemma takeWhile_terminated:
  "0 \<notin> set xs \<Longrightarrow> takeWhile (\<lambda>c. c \<noteq> (0 :: u8)) (xs @ 0 # ys) = xs"
  by (induction xs) auto

lemma take_update_snoc: "n < length xs \<Longrightarrow> take (Suc n) (xs[n := x]) = take n xs @ [x]"
  by (simp add: take_Suc_conv_app_nth)

lemma terminated_prefix:
  assumes "n < length xs" "0 \<notin> set (take n xs)"
  shows "takeWhile (\<lambda>c. c \<noteq> (0 :: u8)) (xs[n := 0]) = take n xs"
proof -
  have "xs[n := 0] = take n xs @ 0 # drop (Suc n) xs" using assms(1) by (rule upd_conv_take_nth_drop)
  then show ?thesis using assms(2) by (simp add: takeWhile_terminated)
qed

lemma buffer_char_correct:
  assumes "out_ok k t" "c \<noteq> 0"
  defines "k' \<equiv> buffer_char t c k"
  shows "out_ok k' t" "console k' @ pending k' t = console k @ pending k t @ [c]"
    "c = 10 \<Longrightarrow> pending k' t = []"
    "\<And>u. u \<noteq> t \<Longrightarrow> tasks k' u = tasks k u" "\<exists>tk con. k' = k\<lparr>tasks := tk, console := con\<rparr>"
proof -
  let ?n = "unat (t_outlen (tasks k t))" and ?b = "t_outbuf (tasks k t)"
  have b: "length ?b = 128" "?n < 127" "0 \<notin> set (take ?n ?b)"
    using assms(1) by (simp_all add: out_ok_def pending_def)
  have n1: "unat (t_outlen (tasks k t) + 1) = Suc ?n" using b(2) by (subst unat32_plus) simp_all
  have t1: "take (Suc ?n) (?b[?n := c]) = take ?n ?b @ [c]" using b by (intro take_update_snoc) simp
  define k1 where "k1 = set_task t (\<lambda>x. x\<lparr>t_outbuf := (t_outbuf x)[unat (t_outlen x) := c], t_outlen := t_outlen x + 1\<rparr>) k"
  have full: "t_outlen (tasks k1 t) \<ge> 128 - 1 \<longleftrightarrow> 127 \<le> Suc ?n"
    using n1 by (simp add: k1_def set_task_def word_le_nat_alt)
  have tw: "takeWhile (\<lambda>c. c \<noteq> 0) (?b[?n := c, Suc ?n := 0]) = take ?n ?b @ [c]"
    using terminated_prefix [of "Suc ?n" "?b[?n := c]"] b t1 assms(2) by simp
  have "out_ok k' t \<and> console k' @ pending k' t = console k @ pending k t @ [c] \<and> (c = 10 \<longrightarrow> pending k' t = []) \<and>
      (\<forall>u. u \<noteq> t \<longrightarrow> tasks k' u = tasks k u) \<and> (\<exists>tk con. k' = k\<lparr>tasks := tk, console := con\<rparr>)"
  proof (cases "c = 10 \<or> 127 \<le> Suc ?n")
    case True
    then have "k' = k\<lparr>tasks := (tasks k)(t := (tasks k t)\<lparr>t_outbuf := ?b[?n := c, Suc ?n := 0], t_outlen := 0\<rparr>),
        console := console k @ (take ?n ?b @ [c])\<rparr>"
      using full n1 tw by (simp add: k'_def buffer_char_def Let_def k1_def set_task_def console_write_def)
    then show ?thesis using b by (auto simp: out_ok_def pending_def)
  next
    case False
    then have "k' = k\<lparr>tasks := (tasks k)(t := (tasks k t)\<lparr>t_outbuf := ?b[?n := c], t_outlen := t_outlen (tasks k t) + 1\<rparr>)\<rparr>"
      using full by (simp add: k'_def buffer_char_def Let_def k1_def [symmetric] not_le) (simp add: k1_def set_task_def)
    moreover have "k = k\<lparr>console := console k\<rparr>" by simp
    ultimately show ?thesis using b n1 t1 False assms(2)
      by (auto simp: out_ok_def pending_def intro!: exI [of _ "console k"])
  qed
  then show "out_ok k' t" "console k' @ pending k' t = console k @ pending k t @ [c]"
    "c = 10 \<Longrightarrow> pending k' t = []" "\<And>u. u \<noteq> t \<Longrightarrow> tasks k' u = tasks k u"
    "\<exists>tk con. k' = k\<lparr>tasks := tk, console := con\<rparr>" by blast+
qed

text \<open>The same for a whole text, and what it leaves alone.\<close>

lemma buffered_write_correct:
  assumes "out_ok k t" "t \<noteq> 0" "0 \<notin> set cs"
  shows "out_ok (buffered_write t cs k) t \<and>
    console (buffered_write t cs k) @ pending (buffered_write t cs k) t = console k @ pending k t @ cs \<and>
    (\<forall>u. u \<noteq> t \<longrightarrow> tasks (buffered_write t cs k) u = tasks k u) \<and>
    (\<exists>tk con. buffered_write t cs k = k\<lparr>tasks := tk, console := con\<rparr>)"
  using assms(1,3)
proof (induction cs arbitrary: k)
  case Nil
  have "k = k\<lparr>tasks := tasks k, console := console k\<rparr>" by simp
  then have "\<exists>tk con. k = k\<lparr>tasks := tk, console := con\<rparr>" by blast
  then show ?case using Nil assms(2) by (simp add: buffered_write_def)
next
  case (Cons c cs)
  let ?k = "buffer_char t c k"
  have c: "c \<noteq> 0" "0 \<notin> set cs" using Cons.prems(2) by auto
  note b = buffer_char_correct [OF Cons.prems(1) c(1)]
  obtain tk con where k: "?k = k\<lparr>tasks := tk, console := con\<rparr>" using b(5) by blast
  have eq: "buffered_write t (c # cs) k = buffered_write t cs ?k" using assms(2) by (simp add: buffered_write_def)
  note ih = Cons.IH [OF b(1) c(2)]
  obtain tk' con' where k': "buffered_write t cs ?k = ?k\<lparr>tasks := tk', console := con'\<rparr>" using ih by blast
  have "buffered_write t cs ?k = k\<lparr>tasks := tk', console := con'\<rparr>" unfolding k' unfolding k by simp
  then show ?case unfolding eq using ih b(2,4) by (metis append.assoc append_Cons append_Nil)
qed

lemma user_string_no_zero: "user_string k a m cs \<Longrightarrow> 0 \<notin> set cs"
  by (simp add: user_string_def)

lemma user_string_flags: "user_string (k\<lparr>eflags := f\<rparr>) a m cs = user_string k a m cs"
  by (simp add: user_string_def in_window_def user_byte_def)

lemma bit_AC: "bit (f OR 0x40000 :: u32) 18"
proof -
  have "bit (2 ^ 18 :: u32) 18" by (simp only: bit_single) simp
  then show ?thesis by (simp add: bit_or_iff)
qed

section \<open>Writing\<close>

text \<open>The outcome of \<open>user_string_ok\<close>; the window check comes first.\<close>

lemma user_string_ok_cases:
  assumes "smap_ok (ext k) \<or> \<not> in_window k ptr"
  shows "case user_string_ok ptr 256 k of
      Inr (ok, k') \<Rightarrow> (ok \<longleftrightarrow> (\<exists>cs. user_string k ptr 256 cs)) \<and> (\<exists>f. k' = k\<lparr>eflags := f\<rparr>)
    | Inl e \<Rightarrow> (\<nexists>cs. user_string k ptr 256 cs) \<and> (\<exists>b. e = Page_Fault b \<and> in_window k b \<and> user_byte k b = None)"
proof (cases "in_window k ptr")
  case False
  then have "user_string_ok ptr 256 k = Inr (False, k)" by (auto simp: user_string_ok_def in_window_def not_le not_less)
  moreover have "\<not> user_string k ptr 256 cs" for cs using False user_string_start by metis
  moreover have "\<exists>f. k = k\<lparr>eflags := f\<rparr>" by (rule exI [of _ "eflags k"]) simp
  ultimately show ?thesis by simp
next
  case True
  let ?k = "k\<lparr>eflags := eflags k OR 0x40000\<rparr>"
  have "\<not> (ptr < user_range_start (ext k) \<or> user_range_end (ext k) \<le> ptr)"
    using True by (auto simp: in_window_def not_le not_less)
  then have eq: "user_string_ok ptr 256 k = (case string_scan ?k 256 ptr of Inl e \<Rightarrow> Inl e | Inr ok \<Rightarrow> Inr (ok, user_access_end ?k))"
    using assms True by (simp add: user_string_ok_def user_access_begin_def)
  have "bit (eflags ?k) 18" by (simp add: bit_AC)
  moreover have "in_window ?k ptr" using True by (simp add: in_window_def)
  ultimately have "case string_scan ?k 256 ptr of Inr ok \<Rightarrow> ok \<longleftrightarrow> (\<exists>cs. user_string ?k ptr 256 cs)
      | Inl e \<Rightarrow> (\<nexists>cs. user_string ?k ptr 256 cs) \<and> (\<exists>b. e = Page_Fault b \<and> in_window ?k b \<and> user_byte ?k b = None)"
    by (rule string_scan_cases)
  moreover have "in_window ?k = in_window k" "user_byte ?k = user_byte k"
    by (simp_all add: in_window_def user_byte_def fun_eq_iff)
  moreover have "\<exists>f. user_access_end ?k = k\<lparr>eflags := f\<rparr>" by (auto simp: user_access_end_def)
  ultimately show ?thesis unfolding eq user_string_flags
    by (cases "string_scan ?k 256 ptr") (simp_all only: sum.case prod.case simp_thms)
qed

lemma sys_write_cases:
  assumes "rg_eax regs = SYS_WRITE" "smap_ok (ext k) \<or> \<not> in_window k (rg_ebx regs)" "current k \<noteq> 0" "out_ok k (current k)"
  shows "(\<exists>cs k'. user_string k (rg_ebx regs) 256 cs \<and>
        syscall_dispatch hook regs k = Some (Inr (Done (set_eax 0 regs) k')) \<and>
        console k' @ pending k' (current k) = console k @ pending k (current k) @ cs \<and> out_ok k' (current k) \<and>
        memory k' = memory k \<and> mm k' = mm k \<and> (\<forall>u. u \<noteq> current k \<longrightarrow> tasks k' u = tasks k u)) \<or>
    ((\<nexists>cs. user_string k (rg_ebx regs) 256 cs) \<and>
     ((\<exists>k'. syscall_dispatch hook regs k = Some (Inr (Done (set_eax (- 1) regs) k')) \<and> tasks k' = tasks k \<and>
         memory k' = memory k \<and> mm k' = mm k) \<or>
      (\<exists>b. syscall_dispatch hook regs k = Some (Inl (Page_Fault b)) \<and> in_window k b \<and> user_byte k b = None)))"
proof -
  have d: "syscall_dispatch hook regs k = sys_write_call regs k" using assms(1) by (simp add: syscall_dispatch_def)
  note c = user_string_ok_cases [OF assms(2)]
  show ?thesis
  proof (cases "user_string_ok (rg_ebx regs) 256 k")
    case (Inl e)
    then show ?thesis using c d by (auto simp: sys_write_call_def)
  next
    case (Inr r)
    obtain ok k1 where r: "r = (ok, k1)" by (cases r)
    obtain f where k1: "k1 = k\<lparr>eflags := f\<rparr>" and ok: "ok \<longleftrightarrow> (\<exists>cs. user_string k (rg_ebx regs) 256 cs)"
      using c Inr r by auto
    show ?thesis
    proof (cases ok)
      case False
      then show ?thesis using Inr r ok d k1 by (auto simp: sys_write_call_def say_def console_write_def)
    next
      case True
      then obtain cs where cs: "user_string k (rg_ebx regs) 256 cs" using ok by blast
      have sm: "smap_ok (ext k)" using assms(2) user_string_start [OF cs] by blast
      let ?k = "k\<lparr>eflags := f OR 0x40000\<rparr>"
      have tx: "user_text ?k (rg_ebx regs) = Some (Inr cs)"
        using cs by (intro user_text_string) (simp_all add: bit_AC user_string_flags)
      have "out_ok ?k (current k)" using assms(4) by (simp add: out_ok_def pending_def)
      note bw = buffered_write_correct [OF this assms(3) user_string_no_zero [OF cs]]
      let ?k' = "user_access_end (buffered_write (current k) cs ?k)"
      have res: "syscall_dispatch hook regs k = Some (Inr (Done (set_eax 0 regs) ?k'))"
        using Inr r True d k1 sm tx by (simp add: sys_write_call_def user_access_begin_def task_current_def)
      obtain tk con where w: "buffered_write (current k) cs ?k = ?k\<lparr>tasks := tk, console := con\<rparr>" using bw by blast
      have "console ?k' @ pending ?k' (current k) = console k @ pending k (current k) @ cs \<and> out_ok ?k' (current k) \<and>
        memory ?k' = memory k \<and> mm ?k' = mm k \<and> (\<forall>u. u \<noteq> current k \<longrightarrow> tasks ?k' u = tasks k u)"
        using bw unfolding w by (simp add: user_access_end_def out_ok_def pending_def)
      then show ?thesis using res cs by blast
    qed
  qed
qed

text \<open>
  (C26) A write system call always ends.  On a CPU with SMAP, when the argument points to a string of
  fewer than 256 bytes, every byte of which with its terminator lies in the window of ring 3 and is
  mapped, the call returns 0 and exactly these bytes follow, in order, on the console or in the line
  buffer of the task, whose 128 bytes are never exceeded; otherwise the call returns -1, or faults at a
  byte of the window that is not mapped.  On a CPU without SMAP a pointer into the window ends in an
  invalid opcode, which halts the system, and any other pointer is rejected with -1.  Memory, page tables
  and other tasks are untouched by a call that returns.
\<close>

theorem sys_write_correct:
  assumes "rg_eax regs = SYS_WRITE" "current k \<noteq> 0" "out_ok k (current k)"
  shows "if \<not> smap_ok (ext k) \<and> in_window k (rg_ebx regs) then syscall_dispatch hook regs k = Some (Inl Invalid_Opcode)
    else (\<exists>cs k'. user_string k (rg_ebx regs) 256 cs \<and>
        syscall_dispatch hook regs k = Some (Inr (Done (set_eax 0 regs) k')) \<and>
        console k' @ pending k' (current k) = console k @ pending k (current k) @ cs \<and> out_ok k' (current k) \<and>
        memory k' = memory k \<and> mm k' = mm k \<and> (\<forall>u. u \<noteq> current k \<longrightarrow> tasks k' u = tasks k u)) \<or>
    ((\<nexists>cs. user_string k (rg_ebx regs) 256 cs) \<and>
     ((\<exists>k'. syscall_dispatch hook regs k = Some (Inr (Done (set_eax (- 1) regs) k')) \<and> tasks k' = tasks k \<and>
         memory k' = memory k \<and> mm k' = mm k) \<or>
      (\<exists>b. syscall_dispatch hook regs k = Some (Inl (Page_Fault b)) \<and> in_window k b \<and> user_byte k b = None)))"
proof (cases "\<not> smap_ok (ext k) \<and> in_window k (rg_ebx regs)")
  case True
  then have "syscall_dispatch hook regs k = Some (Inl Invalid_Opcode)"
    using assms(1) by (auto simp: syscall_dispatch_def sys_write_call_def user_string_ok_def user_access_begin_def in_window_def)
  then show ?thesis using True by simp
next
  case False
  then have sm: "smap_ok (ext k) \<or> \<not> in_window k (rg_ebx regs)" by blast
  show ?thesis unfolding if_not_P [OF False] by (rule sys_write_cases [OF assms(1) sm assms(2,3)])
qed

lemma user_string_unique:
  assumes "user_string k a m cs" "user_string k a m ds"
  shows "cs = ds"
proof -
  let ?k = "k\<lparr>eflags := eflags k OR 0x40000\<rparr>"
  have "bit (eflags ?k) 18" by (simp add: bit_AC)
  then have "user_text ?k a = Some (Inr cs)" "user_text ?k a = Some (Inr ds)"
    using assms by (auto intro!: user_text_string [where m = m] simp: user_string_flags)
  then show ?thesis by simp
qed

text \<open>A process with one page of data at the start of its window.\<close>

definition user_paging :: paging where
  "user_paging = example_paging\<lparr>slots := (\<lambda>_. 0)(0x8000 := 0x9001, 0x9800 := 0xA007, 0xA000 := 0x8000000000005007),
     r_cr4 := 0x300020\<rparr>"

definition user_kernel :: "sys kernel" where
  "user_kernel = \<lparr>tasks = tasks example_kernel, current = 0x2000, task_ring = 0x1000, next_id = 5, enabled = True,
     switches = 7, current_uctx = 0x2030, heap = example_heap, mm = user_paging,
     memory = (\<lambda>_. 0)(0x5000 := 0x48, 0x5001 := 0x69), esp0 = 0xA000, ticks = 60, eflags = 0x202, console = [0x3E],
     ext = \<lparr>ipc_pipe = pipe_init, ipc_ready = False, user_range_start = 0x20000000, user_range_end = 0x20200000,
       smep_ok = True, smap_ok = True, user_stack_base = 0, user_stack_top = 0\<rparr>\<rparr>"

definition write_regs :: "u32 \<Rightarrow> u32 \<Rightarrow> u32 \<Rightarrow> registers" where
  "write_regs a b c = \<lparr>rg_ds = 0x23, rg_edi = 0, rg_esi = 0, rg_ebp = 0, rg_esp = 0, rg_ebx = b, rg_edx = 0, rg_ecx = c,
     rg_eax = a, rg_int_no = 128, rg_err_code = 0, rg_eip = 0x20000010, rg_cs = 0x1B, rg_eflags = 0x202,
     rg_useresp = 0x20200000, rg_ss = 0x23\<rparr>"

lemma user_kernel_bytes:
  "user_byte user_kernel 0x20000000 = Some 0x48" "user_byte user_kernel 0x20000001 = Some 0x69"
  "user_byte user_kernel 0x20000002 = Some 0" "user_byte user_kernel 0x20001000 = None"
  "mmu user_paging 0x8000 0x20000000 = Some (0x5000, True, True, True)"
  by code_simp+

theorem sys_write_correct_witness:
  "\<exists>k'. syscall_dispatch (\<lambda>_ _ k. k) (write_regs 0 0x20000000 0) user_kernel =
        Some (Inr (Done (set_eax 0 (write_regs 0 0x20000000 0)) k')) \<and>
      console k' @ pending k' 0x2000 = [0x3E, 0x48, 0x69]"
proof -
  let ?r = "write_regs 0 0x20000000 0"
  have win: "in_window user_kernel 0x20000000" "in_window user_kernel 0x20000001" "in_window user_kernel 0x20000002"
    by (simp_all add: in_window_def user_kernel_def)
  have us: "user_string user_kernel 0x20000000 256 [0x48, 0x69]"
    using win user_kernel_bytes user_string_Cons [of user_kernel "0x20000000" 255 "0x48" "[0x69]"]
      user_string_Cons [of user_kernel "0x20000001" 254 "0x69" "[]"] user_string_Nil [of user_kernel "0x20000002" 253]
    by simp
  have pre: "rg_eax ?r = SYS_WRITE" "rg_ebx ?r = 0x20000000" "smap_ok (ext user_kernel)" "current user_kernel = 0x2000"
    "out_ok user_kernel 0x2000" "console user_kernel = [0x3E]" "pending user_kernel 0x2000 = []"
    by (simp_all add: write_regs_def SYS_WRITE_def user_kernel_def out_ok_def pending_def example_kernel_def example_task_def zero_task_def)
  then have "current user_kernel \<noteq> 0" "out_ok user_kernel (current user_kernel)" by simp_all
  from sys_write_correct [OF pre(1) this, of "\<lambda>_ _ k. k"] us pre
  obtain cs k' where "user_string user_kernel 0x20000000 256 cs"
    "syscall_dispatch (\<lambda>_ _ k. k) ?r user_kernel = Some (Inr (Done (set_eax 0 ?r) k'))"
    "console k' @ pending k' 0x2000 = [0x3E] @ [] @ cs" by auto
  then show ?thesis using user_string_unique [OF us] by auto
qed

section \<open>Reading from the pipe\<close>

text \<open>The pipe code never touches memory or page tables unless it blocks.\<close>

lemma wake_one_memory: "wake_one ht k = (ht', k') \<Longrightarrow> memory k' = memory k \<and> mm k' = mm k \<and> ext k' = ext k"
  by (auto simp: wake_one_def unlink_first_def task_unblock_def set_task_def Let_def split: prod.splits if_splits)

lemma pipe_get_memory:
  assumes "pipe_get hook got p k = (r, p', k')" "r \<noteq> Blocked"
  shows "memory k' = memory k \<and> mm k' = mm k \<and> ext k' = ext k"
  using assms
  by (auto simp: pipe_get_def irq_save_def irq_restore_def Let_def split: prod.splits if_splits dest!: wake_one_memory)

lemma pipe_read_memory:
  assumes "pipe_read_loop hook n out p k = (True, bs, p', k')"
  shows "memory k' = memory k \<and> mm k' = mm k \<and> ext k' = ext k \<and> length bs \<le> length out + n"
  using assms
proof (induction n arbitrary: out p k)
  case (Suc n)
  obtain r p1 k1 where g: "pipe_get hook (out \<noteq> []) p k = (r, p1, k1)" by (metis prod_cases3)
  show ?case
  proof (cases r)
    case (Byte b)
    then have "pipe_read_loop hook n (out @ [b]) p1 k1 = (True, bs, p', k')" using Suc.prems g by simp
    from Suc.IH [OF this] show ?thesis using pipe_get_memory [OF g] Byte by simp
  next
    case Enough
    then show ?thesis using Suc.prems g pipe_get_memory [OF g] by simp
  next
    case Blocked
    then show ?thesis using Suc.prems g by simp
  qed
qed simp

text \<open>
  The places in memory behind \<open>n\<close> bytes of the window, in writable pages.  Whether ring 3 itself may use
  such a page is left open, as the code leaves it open.
\<close>

definition behind :: "'x kernel \<Rightarrow> u32 \<Rightarrow> nat \<Rightarrow> u32 set" where
  "behind k a n = {pa OR ((a + word_of_nat i) AND 0xFFF) |i pa u nx.
     i < n \<and> mmu (mm k) (active_pdpt (mm k)) (a + word_of_nat i) = Some (pa, True, u, nx)}"

lemma behind_Suc:
  "behind k a (Suc n) = {pa OR (a AND 0xFFF) |pa u nx. mmu (mm k) (active_pdpt (mm k)) a = Some (pa, True, u, nx)} \<union>
    behind k (a + 1) n"
proof -
  have ex: "(\<exists>i<Suc n. P i) \<longleftrightarrow> P 0 \<or> (\<exists>i<n. P (Suc i))" for P by (rule Ex_less_Suc2)
  show ?thesis
    unfolding behind_def set_eq_iff Un_iff mem_Collect_eq
    using ex [of "\<lambda>i. \<exists>pa u nx. _ = pa OR ((a + word_of_nat i) AND 0xFFF) \<and>
      mmu (mm k) (active_pdpt (mm k)) (a + word_of_nat i) = Some (pa, True, u, nx)"]
    by (simp add: add.assoc) blast
qed

lemma store_all_memory:
  assumes "user_store_all a bs k = Inr k'"
  shows "mm k' = mm k \<and> (\<forall>p. p \<notin> behind k a (length bs) \<longrightarrow> memory k' p = memory k p)"
  using assms
proof (induction bs arbitrary: a k)
  case (Cons b bs)
  obtain k1 where k1: "user_store a b k = Inr k1" "user_store_all (a + 1) bs k1 = Inr k'"
    using Cons.prems by (auto split: sum.splits)
  obtain pa u nx where m: "mmu (mm k) (active_pdpt (mm k)) a = Some (pa, True, u, nx)"
    "k1 = k\<lparr>memory := (memory k)(pa OR (a AND 0xFFF) := b)\<rparr>"
    using k1(1) by (auto simp: user_store_def split: option.splits if_splits)
  have "behind k1 c n = behind k c n" for c n using m(2) by (simp add: behind_def)
  then show ?case using Cons.IH [OF k1(2)] m by (auto simp: behind_Suc)
qed simp

text \<open>
  (C27) A pipe read call that returns to ring 3 (nothing is said of one that blocks or faults) either
  rejects its buffer with -1 and leaves memory as it was, or stores the bytes it reports, at most as many
  as were asked for, in a buffer that lies wholly inside the window of system calls, however large the
  two arguments are; it changes no byte of memory except those behind the reported bytes of the
  buffer, in pages that are mapped writable, and never the page tables.  The pages need not be user
  pages: the check compares addresses with the window only, which after \<open>usermode_init\<close> also covers kernel
  data (\<open>pipe_read_into_supervisor_page\<close>).
\<close>

theorem sys_pipe_read_confined:
  assumes "rg_eax regs = SYS_PIPE_READ" "syscall_dispatch hook regs k = Some (Inr (Done regs' k'))"
  shows "mm k' = mm k \<and>
    (rg_eax regs' = - 1 \<and> memory k' = memory k \<or>
     unat (rg_eax regs') \<le> unat (rg_ecx regs) \<and>
     unat (user_range_start (ext k)) \<le> unat (rg_ebx regs) \<and>
     unat (rg_ebx regs) + unat (rg_ecx regs) \<le> unat (user_range_end (ext k)) \<and>
     (\<forall>p. p \<notin> behind k (rg_ebx regs) (unat (rg_eax regs')) \<longrightarrow> memory k' p = memory k p))"
proof -
  let ?k1 = "ensure_pipe k" and ?a = "rg_ebx regs" and ?n = "rg_ecx regs"
  have e: "memory ?k1 = memory k" "mm ?k1 = mm k" "user_range_start (ext ?k1) = user_range_start (ext k)"
    "user_range_end (ext ?k1) = user_range_end (ext k)" by (simp_all add: ensure_pipe_def set_sys_def)
  have d: "sys_pipe_read_call hook regs k = Inr (Done regs' k')"
    using assms by (simp add: syscall_dispatch_def SYS_PIPE_READ_def SYS_WRITE_def SYS_TICKS_def SYS_SLEEP_def SYS_ID_def
        SYS_PIPE_WRITE_def)
  show ?thesis
  proof (cases "user_buffer_ok ?k1 ?a ?n")
    case False
    then show ?thesis using d e by (auto simp: sys_pipe_read_call_def Let_def say_def console_write_def set_eax_def)
  next
    case True
    note rng = user_buffer_range [OF True, unfolded e]
    obtain k2 where k2: "user_access_begin ?k1 = Inr k2" using d True by (auto simp: sys_pipe_read_call_def Let_def split: sum.splits)
    then have m2: "memory k2 = memory k" "mm k2 = mm k" using e by (auto simp: user_access_begin_def split: if_splits)
    obtain ret bs p k3 where rd: "pipe_read hook ?n (ipc_pipe (ext k2)) k2 = (ret, bs, p, k3)" by (metis prod_cases4)
    let ?k4 = "set_sys (\<lambda>s. s\<lparr>ipc_pipe := p\<rparr>) k3"
    have "ret" using d True k2 rd by (auto simp: sys_pipe_read_call_def Let_def split: if_splits)
    then have m3: "memory k3 = memory k" "mm k3 = mm k" "length bs \<le> unat ?n"
      using pipe_read_memory [of hook "unat ?n" "[]"] rd m2 by (auto simp: pipe_read_def)
    obtain k5 where st: "user_store_all ?a bs ?k4 = Inr k5" "regs' = set_eax (word_of_nat (length bs)) regs" "k' = user_access_end k5"
      using d True k2 rd \<open>ret\<close> by (auto simp: sys_pipe_read_call_def Let_def split: sum.splits)
    have len: "unat (rg_eax regs') = length bs"
      using st(2) m3(3) rng(2) by (simp add: set_eax_def unat32_of_nat)
    have "behind ?k4 c n = behind k c n" for c n using m3 by (simp add: behind_def set_sys_def)
    then have "mm k5 = mm k \<and> (\<forall>q. q \<notin> behind k ?a (length bs) \<longrightarrow> memory k5 q = memory k q)"
      using store_all_memory [OF st(1)] m3 by (simp add: set_sys_def)
    then show ?thesis using len m3(3) rng st(3) by (simp add: user_access_end_def)
  qed
qed

text \<open>The same process with one byte waiting in the pipe.\<close>

definition reading_kernel :: "sys kernel" where
  "reading_kernel = user_kernel\<lparr>ext := (ext user_kernel)\<lparr>ipc_ready := True,
     ipc_pipe := pipe_init\<lparr>buffer := (buffer pipe_init)[255 := 0x21], read_pos := 255, count := 1\<rparr>\<rparr>\<rparr>"

definition read_one :: "(stop + sys kernel call_result) option \<Rightarrow> bool" where
  "read_one r = (case r of Some (Inr (Done regs k)) \<Rightarrow> rg_eax regs = 1 \<and> memory k 0x5000 = 0x21 | _ \<Rightarrow> False)"

theorem sys_pipe_read_confined_witness:
  "\<exists>regs' k'. syscall_dispatch (\<lambda>_ _ k. k) (write_regs 6 0x20000000 4) reading_kernel = Some (Inr (Done regs' k')) \<and>
    rg_eax regs' = 1 \<and> memory k' 0x5000 = 0x21 \<and>
    (\<forall>p. p \<notin> behind reading_kernel 0x20000000 1 \<longrightarrow> memory k' p = memory reading_kernel p)"
proof -
  let ?d = "syscall_dispatch (\<lambda>_ _ k. k) (write_regs 6 0x20000000 4) reading_kernel"
  have "read_one ?d" by code_simp
  then obtain regs' k' where r: "?d = Some (Inr (Done regs' k'))" "rg_eax regs' = 1" "memory k' 0x5000 = 0x21"
    by (auto simp: read_one_def split: option.splits sum.splits call_result.splits)
  have "rg_eax (write_regs 6 0x20000000 4) = SYS_PIPE_READ" "rg_ebx (write_regs 6 0x20000000 4) = 0x20000000"
    by (simp_all add: write_regs_def SYS_PIPE_READ_def)
  from sys_pipe_read_confined [OF this(1) r(1)] this(2) r show ?thesis by auto
qed

section \<open>Where validation is not enough\<close>

text \<open>
  A buffer in a supervisor page of the window, which ring 3 cannot write itself, is written by the kernel on
  its behalf: the same call with the user bits of the page cleared.
\<close>

definition supervisor_kernel :: "sys kernel" where
  "supervisor_kernel = reading_kernel\<lparr>mm := user_paging\<lparr>slots :=
     (\<lambda>_. 0)(0x8000 := 0x9001, 0x9800 := 0xA003, 0xA000 := 0x8000000000005003)\<rparr>\<rparr>"

lemma pipe_read_into_supervisor_page:
  "mmu (mm supervisor_kernel) (active_pdpt (mm supervisor_kernel)) 0x20000000 = Some (0x5000, True, False, True) \<and>
   memory supervisor_kernel 0x5000 = 0x48 \<and>
   read_one (syscall_dispatch (\<lambda>_ _ k. k) (write_regs 6 0x20000000 4) supervisor_kernel)"
  by code_simp

text \<open>
  A pointer inside the window whose page is not mapped passes the range check and is then
  dereferenced by the kernel, which faults in ring 0 and halts the system.
\<close>

lemma sys_write_unmapped_halts:
  assumes "rg_eax regs = SYS_WRITE" "smap_ok (ext k)" "in_window k (rg_ebx regs)" "user_byte k (rg_ebx regs) = None"
  shows "syscall_dispatch hook regs k = Some (Inl (Page_Fault (rg_ebx regs)))"
proof -
  let ?k = "k\<lparr>eflags := eflags k OR 0x40000\<rparr>"
  have "user_load ?k (rg_ebx regs) = Inl (Page_Fault (rg_ebx regs))"
    using user_load_open [of ?k "rg_ebx regs"] assms(4) user_byte_cong [of ?k k] by (simp add: bit_AC)
  moreover have "(256 :: nat) = Suc 255" by simp
  ultimately have "string_scan ?k 256 (rg_ebx regs) = Inl (Page_Fault (rg_ebx regs))"
    using assms(3) by (simp only: string_scan.simps) (auto simp: in_window_def)
  then show ?thesis using assms
    by (auto simp: syscall_dispatch_def sys_write_call_def user_string_ok_def user_access_begin_def in_window_def)
qed

text \<open>
  On a CPU without SMAP the \<open>stac\<close> that precedes every access to user memory is an invalid opcode:
  the first write call halts the system.
\<close>

lemma sys_write_without_smap:
  assumes "rg_eax regs = SYS_WRITE" "\<not> smap_ok (ext k)" "in_window k (rg_ebx regs)"
  shows "syscall_dispatch hook regs k = Some (Inl Invalid_Opcode)"
  using assms by (auto simp: syscall_dispatch_def sys_write_call_def user_string_ok_def user_access_begin_def in_window_def)

text \<open>
  The window that \<open>usermode_init\<close> sets reaches from the user code, inside the kernel image, to the
  top of the user stack: everything between them counts as memory of ring 3.
\<close>

lemma usermode_window:
  assumes "usermode_init text_start text_end k = Some k'" "user_stack_top (ext k') \<noteq> user_stack_top (ext k)"
  shows "in_window k' a \<longleftrightarrow> text_start \<le> a \<and> a < user_stack_top (ext k')"
  using assms
  by (auto simp: usermode_init_def Let_def in_window_def syscall_set_user_range_def set_sys_def tss_set_kernel_stack_def
      say_def console_write_def bind_eq_Some_conv split: prod.splits if_splits)

end
