(* ===== verification/Loader.thy ===== *)
theory Loader
  imports SyscallCorrect Fs
begin

text \<open>
  The program loader, \<open>kernel/loader.c\<close> and \<open>include/elf.h\<close>: an ELF file becomes an address space with
  its segments, a stack and an argument page, and a task that enters ring 3.

  The file is read into a heap buffer in byte memory and every header field is read from there, at the
  address the code computes, so that an offset outside the file reads whatever memory holds.  The table of
  programs and the mounted volume extend the state of the system call layer.  A pointer to
  \<open>programs[i]\<close> is \<open>i + 1\<close>.
\<close>

section \<open>State\<close>

definition USER_LOAD_ADDR :: u32 where "USER_LOAD_ADDR = 0x20000000"
definition USER_STACK_TOP :: u32 where "USER_STACK_TOP = 0x20200000"
definition USER_STACK_SIZE :: u32 where "USER_STACK_SIZE = 8192"
definition USER_ARGS_ADDR :: u32 where "USER_ARGS_ADDR = 0x20100000"
definition USER_ARGS_MAX :: u32 where "USER_ARGS_MAX = 256"
definition MAX_PROGRAM :: u32 where "MAX_PROGRAM = 64 * 1024"
definition MAX_SEGMENTS :: u32 where "MAX_SEGMENTS = 8"
definition MAX_PROGRAMS :: nat where "MAX_PROGRAMS = 4"

definition ELF_MAGIC :: "u8 list" where "ELF_MAGIC = [0x7F, 0x45, 0x4C, 0x46]"
definition ELFCLASS32 :: u8 where "ELFCLASS32 = 1"
definition ELFDATA2LSB :: u8 where "ELFDATA2LSB = 1"
definition ET_EXEC :: u16 where "ET_EXEC = 2"
definition EM_386 :: u16 where "EM_386 = 3"
definition PT_LOAD :: u32 where "PT_LOAD = 1"
definition PF_X :: u32 where "PF_X = 1"
definition PF_W :: u32 where "PF_W = 2"
definition PF_R :: u32 where "PF_R = 4"

record elf_header =
  e_ident :: "u8 list"
  e_type :: u16
  e_machine :: u16
  e_version :: u32
  e_entry :: u32
  e_phoff :: u32
  e_shoff :: u32
  e_flags :: u32
  e_ehsize :: u16
  e_phentsize :: u16
  e_phnum :: u16
  e_shentsize :: u16
  e_shnum :: u16
  e_shstrndx :: u16

definition sizeof_elf_header :: u32 where
  "sizeof_elf_header = 52"

definition elf_header_at :: "bytes \<Rightarrow> u32 \<Rightarrow> elf_header" where
  "elf_header_at m a =
     \<lparr>e_ident = map (\<lambda>i. m (a + word_of_nat i)) [0..<16], e_type = read16 m (a + 16), e_machine = read16 m (a + 18),
      e_version = read32 m (a + 20), e_entry = read32 m (a + 24), e_phoff = read32 m (a + 28),
      e_shoff = read32 m (a + 32), e_flags = read32 m (a + 36), e_ehsize = read16 m (a + 40),
      e_phentsize = read16 m (a + 42), e_phnum = read16 m (a + 44), e_shentsize = read16 m (a + 46),
      e_shnum = read16 m (a + 48), e_shstrndx = read16 m (a + 50)\<rparr>"

record elf_program_header =
  ph_type :: u32
  ph_offset :: u32
  ph_vaddr :: u32
  ph_paddr :: u32
  ph_filesz :: u32
  ph_memsz :: u32
  ph_flags :: u32
  ph_align :: u32

definition program_header_at :: "bytes \<Rightarrow> u32 \<Rightarrow> elf_program_header" where
  "program_header_at m a =
     \<lparr>ph_type = read32 m a, ph_offset = read32 m (a + 4), ph_vaddr = read32 m (a + 8), ph_paddr = read32 m (a + 12),
      ph_filesz = read32 m (a + 16), ph_memsz = read32 m (a + 20), ph_flags = read32 m (a + 24), ph_align = read32 m (a + 28)\<rparr>"

record segment =
  sg_vaddr :: u32
  sg_phys :: u32
  sg_pages :: u32

record program =
  p_page_dir :: u32
  p_entry :: u32
  p_segment :: "segment list"
  p_segments :: u32
  p_stack_phys :: u32
  p_args_phys :: u32
  p_name :: "u8 list"
  p_in_use :: bool

definition zero_program :: program where
  "zero_program = \<lparr>p_page_dir = 0, p_entry = 0, p_segment = replicate 8 \<lparr>sg_vaddr = 0, sg_phys = 0, sg_pages = 0\<rparr>,
     p_segments = 0, p_stack_phys = 0, p_args_phys = 0, p_name = replicate 32 0, p_in_use = False\<rparr>"

record 'd loader = sys +
  programs :: "program list"
  volume :: "'d fs"

definition prog :: "nat \<Rightarrow> ('d, 'z) loader_scheme kernel \<Rightarrow> program" where
  "prog i k = programs (ext k) ! i"

definition set_prog :: "nat \<Rightarrow> (program \<Rightarrow> program) \<Rightarrow> ('d, 'z) loader_scheme kernel \<Rightarrow> ('d, 'z) loader_scheme kernel" where
  "set_prog i f k = set_sys (\<lambda>s. s\<lparr>programs := (programs s)[i := f (programs s ! i)]\<rparr>) k"

definition set_volume :: "'d fs \<Rightarrow> ('d, 'z) loader_scheme kernel \<Rightarrow> ('d, 'z) loader_scheme kernel" where
  "set_volume v k = set_sys (\<lambda>s. s\<lparr>volume := v\<rparr>) k"

definition newline :: "u8 list" where
  "newline = [0x0A]"

definition tell :: "u8 list \<Rightarrow> 'x kernel \<Rightarrow> 'x kernel" where
  "tell msg k = console_write (msg @ newline) k"

section \<open>Segments\<close>

text \<open>\<open>prog_blob\<close> is the program image that the build embeds in the kernel.\<close>

definition loader_install :: "'d ports \<Rightarrow> u8 list \<Rightarrow> cstring \<Rightarrow> ('d, 'z) loader_scheme kernel \<Rightarrow> bool \<times> ('d, 'z) loader_scheme kernel" where
  "loader_install io prog_blob name k =
     (case fs_create io (Some name) prog_blob (word_of_nat (length prog_blob)) (volume (ext k)) of
        (ok, v) \<Rightarrow> (ok, set_volume v k))"

definition flags_for_segment :: "u32 \<Rightarrow> u64" where
  "flags_for_segment elf_flags =
     (let flags = PAGE_PRESENT OR PAGE_USER;
          flags = (if elf_flags AND PF_W \<noteq> 0 then flags OR PAGE_WRITE else flags)
      in if elf_flags AND PF_X = 0 then flags OR PAGE_NX else flags)"

text \<open>The loop over the pages of a segment or of the stack; it stops at the first failure.\<close>

fun map_pages :: "nat \<Rightarrow> u32 \<Rightarrow> u32 \<Rightarrow> u32 \<Rightarrow> u64 \<Rightarrow> paging \<Rightarrow> bool \<times> paging" where
  "map_pages 0 i va pa flags s = (True, s)"
| "map_pages (Suc n) i va pa flags s =
     (case paging_map (va + i * PAGE_SIZE) (pa + i * PAGE_SIZE) flags s of
        (False, s') \<Rightarrow> (False, s')
      | (True, s') \<Rightarrow> map_pages n (i + 1) va pa flags s')"

definition segment_pages :: "elf_program_header \<Rightarrow> u32" where
  "segment_pages ph =
     (let page_start = ph_vaddr ph AND NOT (PAGE_SIZE - 1); within = ph_vaddr ph - page_start
      in (within + ph_memsz ph + PAGE_SIZE - 1) div PAGE_SIZE)"

text \<open>The checks on an untrusted header.\<close>

definition segment_ok :: "program \<Rightarrow> u32 \<Rightarrow> elf_program_header \<Rightarrow> bool" where
  "segment_ok p file_size ph =
     (if segment_pages ph = 0 \<or> p_segments p \<ge> MAX_SEGMENTS then False
      else if ph_filesz ph > ph_memsz ph then False
      else if ph_offset ph > file_size \<or> ph_filesz ph > file_size - ph_offset ph then False
      else if ph_vaddr ph < USER_LOAD_ADDR \<or> ph_vaddr ph + ph_memsz ph > USER_STACK_TOP then False
      else True)"

definition letter :: "bool \<Rightarrow> u8 \<Rightarrow> u8 list" where
  "letter b c = [if b then c else 0x2D]"

text \<open>
  The new frames and the file are written and read at their addresses as \<open>memory\<close> has them: the code uses
  physical addresses as pointers, which is right inside the identity mapping that \<open>paging_init\<close> builds.
\<close>

definition load_segment :: "nat \<Rightarrow> u32 \<Rightarrow> u32 \<Rightarrow> elf_program_header \<Rightarrow> ('d, 'z) loader_scheme kernel \<Rightarrow> bool \<times> ('d, 'z) loader_scheme kernel" where
  "load_segment ix file file_size ph k =
     (let page_start = ph_vaddr ph AND NOT (PAGE_SIZE - 1);
          within = ph_vaddr ph - page_start;
          pages = segment_pages ph
      in if \<not> segment_ok (prog ix k) file_size ph then (False, k)
         else
           case pmm_alloc_frames pages (frames k) of (phys, f) \<Rightarrow>
             if phys = 0 then (False, set_frames f k)
             else
               let m1 = kmemset (memory k) phys 0 (pages * PAGE_SIZE);
                   m2 = kmemcpy m1 (phys + within) (file + ph_offset ph) (ph_filesz ph);
                   k1 = (set_frames f k)\<lparr>memory := m2\<rparr>
               in case map_pages (unat pages) 0 page_start phys (flags_for_segment (ph_flags ph)) (mm k1) of
                    (False, s) \<Rightarrow> (False, k1\<lparr>mm := s\<lparr>table_frames := free_stack phys (unat pages) (table_frames s)\<rparr>\<rparr>)
                  | (True, s) \<Rightarrow>
                      let k2 = set_prog ix (\<lambda>p. p\<lparr>p_segment := (p_segment p)[unat (p_segments p) :=
                                   \<lparr>sg_vaddr = page_start, sg_phys = phys, sg_pages = pages\<rparr>],
                                 p_segments := p_segments p + 1\<rparr>) (k1\<lparr>mm := s\<rparr>)
                      in (True, tell (ascii ''  segment at 0x'' @ radix 16 (unat (ph_vaddr ph)) @ ascii ''  '' @
                            radix 10 (unat (ph_filesz ph)) @ ascii '' bytes in file, '' @ radix 10 (unat (ph_memsz ph)) @
                            ascii '' in memory  '' @ letter (ph_flags ph AND PF_R \<noteq> 0) 0x72 @
                            letter (ph_flags ph AND PF_W \<noteq> 0) 0x77 @ letter (ph_flags ph AND PF_X \<noteq> 0) 0x78) k2))"

section \<open>Unloading\<close>

definition free_segments :: "program \<Rightarrow> pmm \<Rightarrow> pmm" where
  "free_segments p f =
     fold (\<lambda>sg. free_stack (sg_phys sg) (unat (sg_pages sg))) (take (unat (p_segments p)) (p_segment p)) f"

definition unload :: "nat \<Rightarrow> ('d, 'z) loader_scheme kernel \<Rightarrow> ('d, 'z) loader_scheme kernel" where
  "unload ix k =
     (let k1 = set_prog ix (\<lambda>p. p\<lparr>p_segments := 0\<rparr>) (set_frames (free_segments (prog ix k) (frames k)) k);
          k2 = (if p_args_phys (prog ix k1) \<noteq> 0
                then set_prog ix (\<lambda>p. p\<lparr>p_args_phys := 0\<rparr>)
                       (set_frames (pmm_free_frame (p_args_phys (prog ix k1)) (frames k1)) k1) else k1);
          k3 = (if p_stack_phys (prog ix k2) \<noteq> 0
                then set_prog ix (\<lambda>p. p\<lparr>p_stack_phys := 0\<rparr>)
                       (set_frames (free_stack (p_stack_phys (prog ix k2)) (unat (USER_STACK_SIZE div PAGE_SIZE)) (frames k2)) k2)
                else k2);
          k4 = (if p_page_dir (prog ix k3) \<noteq> 0
                then set_prog ix (\<lambda>p. p\<lparr>p_page_dir := 0\<rparr>)
                       (k3\<lparr>mm := paging_destroy_address_space (p_page_dir (prog ix k3)) (mm k3)\<rparr>)
                else k3)
      in set_prog ix (\<lambda>p. p\<lparr>p_in_use := False\<rparr>) k4)"

definition program_cleanup :: "u32 \<Rightarrow> ('d, 'z) loader_scheme kernel \<Rightarrow> ('d, 'z) loader_scheme kernel" where
  "program_cleanup arg k = (if arg \<noteq> 0 then unload (unat arg - 1) k else k)"

text \<open>The exit callback of tasks: the only one that is ever installed is \<open>program_cleanup\<close>.\<close>

definition program_hook :: "u32 \<Rightarrow> u32 \<Rightarrow> u32 \<Rightarrow> ('d, 'z) loader_scheme kernel \<Rightarrow> ('d, 'z) loader_scheme kernel" where
  "program_hook cleanup_addr f arg k = (if f = cleanup_addr then program_cleanup arg k else k)"

text \<open>Where the task enters ring 3: entry point and stack pointer.\<close>

definition program_task :: "('d, 'z) loader_scheme kernel \<Rightarrow> (u32 \<times> u32) option \<times> ('d, 'z) loader_scheme kernel" where
  "program_task k =
     (let arg = (if task_current k \<noteq> 0 then t_arg (tasks k (task_current k)) else 0)
      in if arg = 0 then (None, tell (ascii ''loader: task started with no program attached'') k)
         else (Some (p_entry (prog (unat arg - 1) k), USER_STACK_TOP - 16),
               syscall_set_user_range USER_LOAD_ADDR USER_STACK_TOP k))"

section \<open>Loading\<close>

fun store_bytes :: "u32 \<Rightarrow> u8 list \<Rightarrow> bytes \<Rightarrow> bytes" where
  "store_bytes a [] m = m"
| "store_bytes a (b # bs) m = store_bytes (a + 1) bs (m(a := b))"

text \<open>The first free entry of the table.\<close>

fun find_program :: "nat \<Rightarrow> program list \<Rightarrow> nat option" where
  "find_program i [] = None"
| "find_program i (p # ps) = (if \<not> p_in_use p then Some i else find_program (Suc i) ps)"

text \<open>
  The loop over the program headers; on failure the index of the bad one.  The bound \<open>elf->phnum\<close> is read again
  from the buffer before each round; it is a 16-bit number, so \<open>2 ^ 16\<close> rounds are never exceeded.
\<close>

fun load_segments ::
  "nat \<Rightarrow> u32 \<Rightarrow> u32 \<Rightarrow> nat \<Rightarrow> u32 \<Rightarrow> ('d, 'z) loader_scheme kernel \<Rightarrow> u32 option \<times> ('d, 'z) loader_scheme kernel" where
  "load_segments ix file sz 0 i k = (None, k)"
| "load_segments ix file sz (Suc n) i k =
     (let elf = elf_header_at (memory k) file;
          ph = program_header_at (memory k) (file + e_phoff elf + i * ucast (e_phentsize elf))
      in if i \<ge> ucast (e_phnum elf) then (None, k)
         else if ph_type ph \<noteq> PT_LOAD then load_segments ix file sz n (i + 1) k
         else
           case load_segment ix file sz ph k of
             (False, k') \<Rightarrow> (Some i, k')
           | (True, k') \<Rightarrow> load_segments ix file sz n (i + 1) k')"

definition elf_magic_ok :: "elf_header \<Rightarrow> bool" where
  "elf_magic_ok e \<longleftrightarrow> take 4 (e_ident e) = ELF_MAGIC"

definition elf_kind_ok :: "elf_header \<Rightarrow> bool" where
  "elf_kind_ok e \<longleftrightarrow> e_ident e ! 4 = ELFCLASS32 \<and> e_ident e ! 5 = ELFDATA2LSB \<and> e_type e = ET_EXEC \<and> e_machine e = EM_386"

definition elf_table_ok :: "u32 \<Rightarrow> elf_header \<Rightarrow> bool" where
  "elf_table_ok sz e \<longleftrightarrow> e_phoff e + ucast (e_phnum e) * ucast (e_phentsize e) \<le> sz"

text \<open>\<open>paging_switch(saved); unload(prog); return 0\<close>.\<close>

definition abandon :: "nat \<Rightarrow> u32 \<Rightarrow> ('d, 'z) loader_scheme kernel \<Rightarrow> ('d, 'z) loader_scheme kernel" where
  "abandon ix saved k = unload ix (switch_space saved k)"

definition map_stack :: "nat \<Rightarrow> ('d, 'z) loader_scheme kernel \<Rightarrow> bool \<times> ('d, 'z) loader_scheme kernel" where
  "map_stack ix k =
     (case map_pages (unat (USER_STACK_SIZE div PAGE_SIZE)) 0 (USER_STACK_TOP - USER_STACK_SIZE) (p_stack_phys (prog ix k))
             (PAGE_PRESENT OR PAGE_USER OR PAGE_WRITE OR PAGE_NX) (mm k) of
        (ok, s) \<Rightarrow> (ok, k\<lparr>mm := s\<rparr>))"

definition map_args :: "nat \<Rightarrow> cstring option \<Rightarrow> ('d, 'z) loader_scheme kernel \<Rightarrow> ('d, 'z) loader_scheme kernel" where
  "map_args ix args k =
     (case pmm_alloc_frame (frames k) of (phys, f) \<Rightarrow>
        let k1 = set_prog ix (\<lambda>p. p\<lparr>p_args_phys := phys\<rparr>) (set_frames f k)
        in if phys = 0 then k1
           else
             let m1 = kmemset (memory k1) phys 0 PAGE_SIZE;
                 cs = (case args of None \<Rightarrow> [] | Some a \<Rightarrow> takeWhile (\<lambda>c. c \<noteq> 0) (take (unat USER_ARGS_MAX - 1) a));
                 m2 = store_bytes phys (cs @ [0]) m1
             in k1\<lparr>memory := m2, mm := snd (paging_map USER_ARGS_ADDR phys (PAGE_PRESENT OR PAGE_USER OR PAGE_NX) (mm k1))\<rparr>)"

text \<open>From the loaded segments on: the stack, the arguments and the task.\<close>

definition start_program ::
  "u32 \<Rightarrow> u32 \<Rightarrow> u32 \<Rightarrow> nat \<Rightarrow> u32 \<Rightarrow> u32 \<Rightarrow> u32 \<Rightarrow> cstring \<Rightarrow> cstring option \<Rightarrow> ('d, 'z) loader_scheme kernel \<Rightarrow>
   (bool \<times> ('d, 'z) loader_scheme kernel) option" where
  "start_program task_exit_addr program_task_addr cleanup_addr ix saved file sz name args k =
     (if p_segments (prog ix k) = 0 then Some (False, abandon ix saved (tell (ascii ''loader: nothing to load'') k))
      else
        case pmm_alloc_frames (USER_STACK_SIZE div PAGE_SIZE) (frames k) of (phys, f) \<Rightarrow>
          let k1 = set_prog ix (\<lambda>p. p\<lparr>p_stack_phys := phys\<rparr>) (set_frames f k)
          in if phys = 0 then Some (False, abandon ix saved (tell (ascii ''loader: no memory for the stack'') k1))
             else
               case map_stack ix (k1\<lparr>memory := kmemset (memory k1) phys 0 USER_STACK_SIZE\<rparr>) of
                 (False, k2) \<Rightarrow> Some (False, abandon ix saved (tell (ascii ''loader: could not map the stack'') k2))
               | (True, k2) \<Rightarrow>
                   let k3 = switch_space saved (map_args ix args k2);
                       entry = e_entry (elf_header_at (memory k3) file);
                       k4 = set_prog ix (\<lambda>p. p\<lparr>p_entry := entry, p_in_use := True\<rparr>) k3;
                       k5 = tell (ascii ''loader: '' @ name @ ascii '', '' @ radix 10 (unat sz) @ ascii '' bytes, entry 0x'' @
                                  radix 16 (unat entry) @ ascii '', '' @ radix 10 (unat (p_segments (prog ix k4))) @
                                  ascii '' segments, own address space'') k4
                   in case task_create_ex task_exit_addr (ascii ''prog'') program_task_addr (p_page_dir (prog ix k5))
                             (word_of_nat (ix + 1)) cleanup_addr k5 of
                        None \<Rightarrow> None
                      | Some (i, k6) \<Rightarrow>
                          Some (if i = 0 then (False, unload ix (tell (ascii ''loader: could not create a task for it'') k6))
                                else (True, k6)))"

text \<open>
  The whole of \<open>loader_run\<close>; None when the heap list does not end.
\<close>

definition loader_run ::
  "'d ports \<Rightarrow> u32 \<Rightarrow> u32 \<Rightarrow> u32 \<Rightarrow> cstring \<Rightarrow> cstring option \<Rightarrow> ('d, 'z) loader_scheme kernel \<Rightarrow> (bool \<times> ('d, 'z) loader_scheme kernel) option" where
  "loader_run io task_exit_addr program_task_addr cleanup_addr name args k =
     (case find_program 0 (programs (ext k)) of
        None \<Rightarrow> Some (False, tell (ascii ''loader: too many programs running'') k)
      | Some ix \<Rightarrow>
          let k0 = set_prog ix (\<lambda>_. zero_program) k
          in case kmalloc MAX_PROGRAM (heap k0) of
               None \<Rightarrow> None
             | Some (file, h) \<Rightarrow>
                 let k1 = k0\<lparr>heap := h\<rparr>; release = (\<lambda>k. k\<lparr>heap := kfree file (heap k)\<rparr>)
                 in if file = 0 then Some (False, tell (ascii ''loader: out of heap'') k1)
                    else
                      case fs_read io name MAX_PROGRAM (volume (ext k1)) of ((ok, dest, got), v) \<Rightarrow>
                        let k2 = (set_volume v k1)\<lparr>memory := store_bytes file dest (memory k1)\<rparr>;
                            sz = (case got of None \<Rightarrow> 0 | Some n \<Rightarrow> n);
                            elf = elf_header_at (memory k2) file
                        in if \<not> ok \<or> sz < sizeof_elf_header
                           then Some (False, release (tell (ascii ''loader: cannot read '' @ name) k2))
                           else if \<not> elf_magic_ok elf
                           then Some (False, release (tell (ascii ''loader: '' @ name @ ascii '' is not an ELF file'') k2))
                           else if \<not> elf_kind_ok elf
                           then Some (False, release (tell (ascii ''loader: '' @ name @ ascii '' is not a 32-bit x86 executable'') k2))
                           else if \<not> elf_table_ok sz elf
                           then Some (False, release (tell (ascii ''loader: program header table runs past the end of the file'') k2))
                           else
                             case paging_create_address_space (mm k2) of (dir, s) \<Rightarrow>
                               let k3 = set_prog ix (\<lambda>p. p\<lparr>p_page_dir := dir\<rparr>) (k2\<lparr>mm := s\<rparr>)
                               in if dir = 0
                                  then Some (False, release (tell (ascii ''loader: no memory for an address space'') k3))
                                  else
                                    let saved = paging_kernel_directory (mm k3)
                                    in case load_segments ix file sz (2 ^ 16) 0 (switch_space dir k3) of
                                         (Some i, k4) \<Rightarrow>
                                           Some (False, release (abandon ix saved
                                             (tell (ascii ''loader: bad or unloadable segment '' @ radix 10 (unat i)) k4)))
                                       | (None, k4) \<Rightarrow>
                                           start_program task_exit_addr program_task_addr cleanup_addr ix saved file sz name args
                                             (release k4))"

end
