(* ===== verification/LoaderCorrect.thy ===== *)
theory LoaderCorrect
  imports Loader
begin

text \<open>
  Correctness of the loader: the permissions a segment gets, what \<open>load_segment\<close> maps and copies,
  where its range check fails, and that unloading as an exit callback respects the scheduler.
\<close>

section \<open>Permissions\<close>

lemma flags_for_segment_bits:
  "bit (flags_for_segment f) n \<longleftrightarrow> n = 0 \<or> n = 2 \<or> (n = 1 \<and> f AND PF_W \<noteq> 0) \<or> (n = 63 \<and> f AND PF_X = 0)"
  unfolding flags_for_segment_def Let_def by (auto simp: bit_or_iff bit_flags)

lemma flags_for_segment_low: "flags_for_segment f AND 0xFFFFF000 = 0"
  by (rule bit_word_eqI) (unfold bit_and_iff bit_addr_mask flags_for_segment_bits, auto)

section \<open>Mapping a run of pages\<close>

lemma page_no_step:
  assumes "unat va mod 4096 = 0" "unat va + j * 4096 < 2 ^ 32"
  shows "page_no (va + word_of_nat j * PAGE_SIZE) = page_no va + j"
    "unat (va + word_of_nat j * PAGE_SIZE) = unat va + j * 4096"
proof -
  have "unat (word_of_nat j * PAGE_SIZE :: u32) = j * 4096"
    using assms(2) by (subst unat32_mult) (simp_all add: unat32_of_nat)
  then show u: "unat (va + word_of_nat j * PAGE_SIZE) = unat va + j * 4096"
    using assms(2) by (subst unat32_plus) simp_all
  show "page_no (va + word_of_nat j * PAGE_SIZE) = page_no va + j" by (simp add: page_no_def u)
qed

lemma map_pages_correct:
  assumes "wf_space s r" "r = active_pdpt s" "unat va mod 4096 = 0" "unat pa mod 4096 = 0"
    "flags AND 0xFFFFF000 = 0" "bit flags 0" "unat va + (i + n) * 4096 \<le> 2 ^ 32" "unat pa + (i + n) * 4096 \<le> 2 ^ 32"
    "map_pages n (word_of_nat i) va pa flags s = (ok, s')"
  shows "wf_space s' r \<and> active_pdpt s' = r \<and> nx_supported s' = nx_supported s \<and>
    (ok \<longrightarrow> (\<forall>v. mmu s' r v = (if page_no va + i \<le> page_no v \<and> page_no v < page_no va + i + n
       then Some (mapping_of (pa + word_of_nat (page_no v - page_no va) * PAGE_SIZE) flags (nx_supported s)) else mmu s r v)))"
  using assms
proof (induction n arbitrary: i s)
  case 0
  then show ?case by auto
next
  case (Suc n)
  let ?va = "va + word_of_nat i * PAGE_SIZE" and ?pa = "pa + word_of_nat i * PAGE_SIZE"
  obtain ok1 s1 where m: "paging_map ?va ?pa flags s = (ok1, s1)" by fastforce
  have lt: "unat va + i * 4096 < 2 ^ 32" "unat pa + i * 4096 < 2 ^ 32" using Suc.prems(7,8) by simp_all
  have pa: "unat ?pa mod 4096 = 0" using page_no_step(2) [OF Suc.prems(4) lt(2)] Suc.prems(4) by simp
  have pv: "page_no ?va = page_no va + i" by (rule page_no_step(1) [OF Suc.prems(3) lt(1)])
  have "wf_space s (active_pdpt s)" using Suc.prems(1,2) by simp
  note c = paging_map_cases [OF this pa Suc.prems(5,6) m, folded Suc.prems(2)]
  show ?case
  proof (cases ok1)
    case False
    then show ?thesis using Suc.prems(9) m c by simp
  next
    case True
    have "word_of_nat i + 1 = (word_of_nat (Suc i) :: u32)" by simp
    then have run: "map_pages n (word_of_nat (Suc i)) va pa flags s1 = (ok, s')" using Suc.prems(9) m True by (simp add: add.commute)
    have "wf_space s1 r" "r = active_pdpt s1" using c by simp_all
    from Suc.IH [OF this Suc.prems(3-6) _ _ run] Suc.prems(7,8)
    have ih: "wf_space s' r" "active_pdpt s' = r" "nx_supported s' = nx_supported s1"
      "ok \<longrightarrow> (\<forall>v. mmu s' r v = (if page_no va + Suc i \<le> page_no v \<and> page_no v < page_no va + Suc i + n
         then Some (mapping_of (pa + word_of_nat (page_no v - page_no va) * PAGE_SIZE) flags (nx_supported s1)) else mmu s1 r v))"
      by simp_all
    have "mmu s' r v = (if page_no va + i \<le> page_no v \<and> page_no v < page_no va + i + Suc n
         then Some (mapping_of (pa + word_of_nat (page_no v - page_no va) * PAGE_SIZE) flags (nx_supported s)) else mmu s r v)"
      if ok for v
    proof (cases "page_no v = page_no va + i")
      case True
      then show ?thesis using ih(4) that c \<open>ok1\<close> pv by simp
    next
      case False
      then show ?thesis using ih(4) that c pv by auto
    qed
    then show ?thesis using ih c by simp
  qed
qed

section \<open>Segments in memory\<close>

lemma offset_range:
  fixes x a n :: u32
  assumes "x - a < n" "unat a + unat n \<le> 2 ^ 32"
  shows "unat a \<le> unat x \<and> unat x < unat a + unat n"
proof -
  have "unat (x - a) < unat n" using assms(1) by (simp add: word_less_nat_alt)
  moreover from this have "unat (a + (x - a)) = unat a + unat (x - a)" using assms(2) by (intro unat32_plus) simp
  ultimately show ?thesis by simp
qed

lemma last_page:
  fixes v m q :: nat
  assumes "v + m \<le> q * 4096"
  shows "v div 4096 + (v mod 4096 + m + 4095) div 4096 \<le> q"
proof -
  have "v + m + 4095 = (v mod 4096 + m + 4095) + v div 4096 * 4096"
    using div_mult_mod_eq [of v 4096] by linarith
  then have "(v + m + 4095) div 4096 = v div 4096 + (v mod 4096 + m + 4095) div 4096"
    by (simp only: div_mult_self1)
  moreover have "(v + m + 4095) div 4096 \<le> (q * 4096 + 4095) div 4096" using assms by (intro div_le_mono) simp
  moreover have "(q * 4096 + 4095) div 4096 = q" by simp
  ultimately show ?thesis by simp
qed

lemma ceil_pages: "(x :: nat) \<le> (x + 4095) div 4096 * 4096"
  using div_mult_mod_eq [of "x + 4095" 4096] mod_less_divisor [of 4096 "x + 4095"] by linarith

text \<open>The pages of a segment whose end does not wrap.\<close>

lemma segment_geometry:
  assumes "segment_ok p sz ph" "unat (ph_vaddr ph) + unat (ph_memsz ph) < 2 ^ 32"
  defines "within \<equiv> ph_vaddr ph - (ph_vaddr ph AND NOT (PAGE_SIZE - 1))"
  shows "unat within = unat (ph_vaddr ph) mod 4096" "0 < unat (segment_pages ph)"
    "unat within + unat (ph_memsz ph) \<le> unat (segment_pages ph) * 4096"
    "0x20000 \<le> page_no (ph_vaddr ph)" "page_no (ph_vaddr ph) + unat (segment_pages ph) \<le> 0x20200"
    "unat (ph_filesz ph) \<le> unat (ph_memsz ph)" "unat (ph_offset ph) + unat (ph_filesz ph) \<le> unat sz"
proof -
  let ?v = "ph_vaddr ph" and ?m = "ph_memsz ph" and ?w = "unat (ph_vaddr ph) mod 4096"
  have ok: "segment_pages ph \<noteq> 0" "ph_filesz ph \<le> ?m" "ph_offset ph \<le> sz" "ph_filesz ph \<le> sz - ph_offset ph"
    "USER_LOAD_ADDR \<le> ?v" "?v + ?m \<le> USER_STACK_TOP"
    using assms(1) by (auto simp: segment_ok_def split: if_splits)
  have vm: "unat (?v + ?m) = unat ?v + unat ?m" using assms(2) by (intro unat32_plus) simp
  have lo: "0x20000000 \<le> unat ?v" and hi: "unat ?v + unat ?m \<le> 0x20200000"
    using ok(5,6) vm by (simp_all add: USER_LOAD_ADDR_def USER_STACK_TOP_def word_le_nat_alt)
  have fl: "unat (?v AND NOT (PAGE_SIZE - 1)) = unat ?v div 4096 * 4096" using unat_page_floor [of ?v] by simp
  have "(?v AND NOT (PAGE_SIZE - 1)) \<le> ?v" unfolding word_le_nat_alt fl by simp
  then show w: "unat within = ?w" unfolding within_def using fl by (simp add: unat_sub minus_div_mult_eq_mod)
  have "within + ?m + PAGE_SIZE - 1 = within + ?m + 4095" by simp
  moreover have "unat (within + ?m) = ?w + unat ?m" using w hi by (subst unat32_plus) simp_all
  ultimately have "unat (within + ?m + PAGE_SIZE - 1) = ?w + unat ?m + 4095"
    using hi by (simp only:) (subst unat32_plus; simp)
  then have pg: "unat (segment_pages ph) = (?w + unat ?m + 4095) div 4096"
    unfolding segment_pages_def Let_def within_def [symmetric] by (simp add: unat_div)
  show "0 < unat (segment_pages ph)" using ok(1) by (simp add: unat_gt_0)
  show "unat within + unat ?m \<le> unat (segment_pages ph) * 4096" unfolding pg w by (rule ceil_pages)
  show "0x20000 \<le> page_no ?v" using div_le_mono [OF lo, of 4096] by (simp add: page_no_def)
  show "page_no ?v + unat (segment_pages ph) \<le> 0x20200"
    using last_page [of "unat ?v" "unat ?m" "0x20200"] hi unfolding pg page_no_def by simp
  show "unat (ph_filesz ph) \<le> unat ?m" using ok(2) by (simp add: word_le_nat_alt)
  show "unat (ph_offset ph) + unat (ph_filesz ph) \<le> unat sz"
    using ok(3,4) unat_minus_le [OF ok(3)] by (simp add: word_le_nat_alt)
qed

text \<open>Zeroing a run of fresh frames and copying the file into it.\<close>

lemma segment_memory:
  fixes phys within src pages filesz :: u32 and m :: bytes
  assumes run: "unat phys mod 4096 = 0" "unat phys + unat pages * 4096 \<le> 2 ^ 32" "phys \<noteq> 0"
    and fit: "unat within < 4096" "unat within + unat filesz \<le> unat pages * 4096" "0 < unat pages"
    and src: "\<And>i. i < unat filesz \<Longrightarrow> page_no (src + word_of_nat i) \<notin> {page_no phys ..< page_no phys + unat pages}"
  defines "m' \<equiv> kmemcpy (kmemset m phys 0 (pages * PAGE_SIZE)) (phys + within) src filesz"
  shows "i < unat pages * 4096 - unat within \<Longrightarrow> m' (phys + within + word_of_nat i) =
      (if i < unat filesz then m (src + word_of_nat i) else 0)"
    and "page_no a \<notin> {page_no phys ..< page_no phys + unat pages} \<Longrightarrow> m' a = m a"
proof -
  have "4096 \<le> unat phys" using run(1,3) by (metis dvd_imp_le mod_0_imp_dvd unat_gt_0 word_neq_0_conv)
  then have "unat pages * 4096 < 2 ^ 32" using run(2) by linarith
  then have sz: "unat (pages * PAGE_SIZE) = unat pages * 4096" by (subst unat32_mult) simp_all
  have inrun: "page_no x \<in> {page_no phys ..< page_no phys + unat pages}"
    if "unat phys \<le> unat x" "unat x < unat phys + unat pages * 4096" for x :: u32
  proof -
    obtain q where q: "unat phys = 4096 * q" using run(1) by (metis mod_0_imp_dvd dvdE)
    show ?thesis using that unfolding page_no_def q by auto
  qed
  have set: "kmemset m phys 0 (pages * PAGE_SIZE) x = m x"
    if "page_no x \<notin> {page_no phys ..< page_no phys + unat pages}" for x
    using that inrun offset_range [of x phys "pages * PAGE_SIZE"] run(2) sz by (auto simp: kmemset_apply)
  let ?d = "phys + within"
  have ud: "unat ?d = unat phys + unat within" using fit(1,3) run(2) by (intro unat32_plus) simp
  have "?d = src \<or> filesz \<le> ?d - src"
  proof (rule disjCI)
    assume "\<not> filesz \<le> ?d - src"
    then have "unat (?d - src) < unat filesz" by (simp add: word_le_nat_alt)
    from src [OF this] have "page_no ?d \<notin> {page_no phys ..< page_no phys + unat pages}" by simp
    moreover have "page_no ?d \<in> {page_no phys ..< page_no phys + unat pages}" using ud fit by (intro inrun) simp_all
    ultimately show "?d = src" by blast
  qed
  note cp = kmemcpy_apply [OF this, of "kmemset m phys 0 (pages * PAGE_SIZE)", folded m'_def]
  have dn: "unat ?d + unat filesz \<le> 2 ^ 32" using ud fit(2) run(2) by simp
  show "m' a = m a" if a: "page_no a \<notin> {page_no phys ..< page_no phys + unat pages}"
  proof -
    have "\<not> a - ?d < filesz" using offset_range [OF _ dn, of a] ud fit(2) inrun [of a] a by auto
    then show ?thesis using cp [of a] set [OF a] by simp
  qed
  show "m' (?d + word_of_nat i) = (if i < unat filesz then m (src + word_of_nat i) else 0)"
    if i: "i < unat pages * 4096 - unat within"
  proof -
    have ui: "unat (word_of_nat i :: u32) = i" using i \<open>unat pages * 4096 < 2 ^ 32\<close> by (intro unat32_of_nat) simp
    have lt: "word_of_nat i < filesz \<longleftrightarrow> i < unat filesz" by (simp add: word_less_nat_alt ui)
    have "unat (within + word_of_nat i) = unat within + i" using ui i \<open>unat pages * 4096 < 2 ^ 32\<close> by (subst unat32_plus) simp_all
    then have "within + word_of_nat i < pages * PAGE_SIZE" using i sz by (simp add: word_less_nat_alt)
    moreover have "?d + word_of_nat i - phys = within + word_of_nat i" by simp
    ultimately have z: "kmemset m phys 0 (pages * PAGE_SIZE) (?d + word_of_nat i) = 0" by (simp add: kmemset_apply)
    show ?thesis using cp [of "?d + word_of_nat i"] set [OF src, of i] z lt by simp
  qed
qed

text \<open>What a successful \<open>load_segment\<close> went through.\<close>

lemma load_segment_cases:
  assumes "load_segment ix file sz ph k = (True, k')"
  obtains phys f s where "segment_ok (prog ix k) sz ph" "pmm_alloc_frames (segment_pages ph) (frames k) = (phys, f)" "phys \<noteq> 0"
    "map_pages (unat (segment_pages ph)) 0 (ph_vaddr ph AND NOT (PAGE_SIZE - 1)) phys (flags_for_segment (ph_flags ph))
       ((mm k)\<lparr>table_frames := f\<rparr>) = (True, s)" "mm k' = s"
    "memory k' = kmemcpy (kmemset (memory k) phys 0 (segment_pages ph * PAGE_SIZE))
       (phys + (ph_vaddr ph - (ph_vaddr ph AND NOT (PAGE_SIZE - 1)))) (file + ph_offset ph) (ph_filesz ph)"
proof -
  have ok: "segment_ok (prog ix k) sz ph" using assms by (auto simp: load_segment_def Let_def split: if_splits)
  obtain phys f where al: "pmm_alloc_frames (segment_pages ph) (frames k) = (phys, f)" by fastforce
  have nz: "phys \<noteq> 0" using assms ok al by (auto simp: load_segment_def Let_def split: if_splits)
  obtain r s where mp: "map_pages (unat (segment_pages ph)) 0 (ph_vaddr ph AND NOT (PAGE_SIZE - 1)) phys
      (flags_for_segment (ph_flags ph)) ((mm k)\<lparr>table_frames := f\<rparr>) = (r, s)" by fastforce
  have r using assms ok al nz mp by (cases r) (simp_all add: load_segment_def Let_def)
  with ok al nz mp assms show thesis
    by (intro that) (auto simp: load_segment_def Let_def set_prog_def set_sys_def tell_def console_write_def)
qed

lemma frames_update_space:
  assumes "wf_space s r" "pmm_ok f" "frames_owned (table_frames s) \<subseteq> frames_owned f"
  shows "wf_space (s\<lparr>table_frames := f\<rparr>) r" "mmu (s\<lparr>table_frames := f\<rparr>) r v = mmu s r v"
  using space_untouched(1,2) [of s r "s\<lparr>table_frames := f\<rparr>"] assms by simp_all

text \<open>
  (C28) Loading a segment with \<open>vaddr + memsz\<close> below 4 GB (\<open>load_segment\<close> does not check it, and a sum that wraps
  passes the range check), into a well-formed address space, from a file that lies in allocated memory: when it succeeds,
  the pages of the segment, all of them in the window of programs, are mapped to a run of frames
  that nobody owned, readable by ring 3, writable exactly if the header says so and not executable
  unless it says so (where the CPU has NX), and no other page changes; the frames hold the bytes of
  the file followed by zeros up to the size in memory; only bytes inside the file were copied; and
  no byte in a frame that was in use has changed.
\<close>

theorem load_segment_correct:
  assumes "wf_space (mm k) (active_pdpt (mm k))" "unat (ph_vaddr ph) + unat (ph_memsz ph) < 2 ^ 32"
    "\<forall>i<unat (ph_filesz ph). page_no (file + ph_offset ph + word_of_nat i) \<in> frames_owned (frames k)"
    "load_segment ix file sz ph k = (True, k')"
  shows "\<exists>phys. 0x20000 \<le> page_no (ph_vaddr ph) \<and> page_no (ph_vaddr ph) + unat (segment_pages ph) \<le> 0x20200 \<and>
    {page_no phys ..< page_no phys + unat (segment_pages ph)} \<inter> frames_owned (frames k) = {} \<and>
    (\<forall>v. mmu (mm k') (active_pdpt (mm k)) v =
      (if page_no (ph_vaddr ph) \<le> page_no v \<and> page_no v < page_no (ph_vaddr ph) + unat (segment_pages ph)
       then Some (phys + word_of_nat (page_no v - page_no (ph_vaddr ph)) * PAGE_SIZE, ph_flags ph AND PF_W \<noteq> 0, True,
              nx_supported (mm k) \<and> ph_flags ph AND PF_X = 0)
       else mmu (mm k) (active_pdpt (mm k)) v)) \<and>
    (\<forall>i<unat (ph_memsz ph). memory k' (phys + (ph_vaddr ph - (ph_vaddr ph AND NOT (PAGE_SIZE - 1))) + word_of_nat i) =
      (if i < unat (ph_filesz ph) then memory k (file + ph_offset ph + word_of_nat i) else 0)) \<and>
    (\<forall>a. page_no a \<in> frames_owned (frames k) \<longrightarrow> memory k' a = memory k a) \<and>
    unat (ph_offset ph) + unat (ph_filesz ph) \<le> unat sz"
proof -
  let ?start = "ph_vaddr ph AND NOT (PAGE_SIZE - 1)"
  let ?w = "ph_vaddr ph - ?start" and ?n = "unat (segment_pages ph)" and ?r = "active_pdpt (mm k)"
  obtain phys f s where c: "segment_ok (prog ix k) sz ph" "pmm_alloc_frames (segment_pages ph) (frames k) = (phys, f)" "phys \<noteq> 0"
    "map_pages ?n 0 ?start phys (flags_for_segment (ph_flags ph)) ((mm k)\<lparr>table_frames := f\<rparr>) = (True, s)" "mm k' = s"
    "memory k' = kmemcpy (kmemset (memory k) phys 0 (segment_pages ph * PAGE_SIZE)) (phys + ?w) (file + ph_offset ph) (ph_filesz ph)"
    using assms(4) by (rule load_segment_cases)
  note g = segment_geometry [OF c(1) assms(2)]
  have pok: "pmm_ok (frames k)" using assms(1) by (simp add: wf_space_def)
  note al = pmm.allocs_some [OF pok c(2,3)]
  have ph: "page_no phys = unat phys div 4096" by (simp add: page_no_def)
  have fresh: "{page_no phys ..< page_no phys + ?n} \<inter> frames_owned (frames k) = {}" using al ph by simp
  have st: "unat ?start = page_no (ph_vaddr ph) * 4096" using unat_page_floor [of "ph_vaddr ph"] by (simp add: page_no_def)
  then have st': "unat ?start mod 4096 = 0" "page_no ?start = page_no (ph_vaddr ph)" by (simp_all add: page_no_def)
  have rng: "unat ?start + (0 + ?n) * 4096 \<le> 2 ^ 32" "unat phys + (0 + ?n) * 4096 \<le> 2 ^ 32" using st g(5) al by simp_all
  note sp = frames_update_space [OF assms(1), of f]
  have wf: "wf_space ((mm k)\<lparr>table_frames := f\<rparr>) ?r" "?r = active_pdpt ((mm k)\<lparr>table_frames := f\<rparr>)" using sp(1) al by auto
  have al': "unat phys mod 4096 = 0" using al by simp
  have fl: "bit (flags_for_segment (ph_flags ph)) 0" by (simp add: flags_for_segment_bits)
  have run: "map_pages ?n (word_of_nat 0) ?start phys (flags_for_segment (ph_flags ph)) ((mm k)\<lparr>table_frames := f\<rparr>) = (True, s)"
    using c(4) by simp
  have "\<forall>v. mmu s ?r v = (if page_no ?start \<le> page_no v \<and> page_no v < page_no ?start + ?n
       then Some (mapping_of (phys + word_of_nat (page_no v - page_no ?start) * PAGE_SIZE) (flags_for_segment (ph_flags ph)) (nx_supported (mm k)))
       else mmu ((mm k)\<lparr>table_frames := f\<rparr>) ?r v)"
    using map_pages_correct [OF wf st'(1) al' flags_for_segment_low fl rng run] by simp
  then have map: "\<forall>v. mmu (mm k') ?r v =
      (if page_no (ph_vaddr ph) \<le> page_no v \<and> page_no v < page_no (ph_vaddr ph) + ?n
       then Some (phys + word_of_nat (page_no v - page_no (ph_vaddr ph)) * PAGE_SIZE, ph_flags ph AND PF_W \<noteq> 0, True,
              nx_supported (mm k) \<and> ph_flags ph AND PF_X = 0)
       else mmu (mm k) ?r v)"
    using sp(2) al c(5) st'(2) by (simp add: mapping_of_def flags_for_segment_bits)
  have src: "page_no (file + ph_offset ph + word_of_nat i) \<notin> {page_no phys ..< page_no phys + ?n}"
    if "i < unat (ph_filesz ph)" for i using assms(3) that fresh by blast
  have pre: "unat phys mod 4096 = 0" "unat phys + ?n * 4096 \<le> 2 ^ 32" "unat ?w < 4096"
    "unat ?w + unat (ph_filesz ph) \<le> ?n * 4096" using al g by simp_all
  note mem = segment_memory [OF pre(1,2) c(3) pre(3,4) g(2) src, where m = "memory k", folded c(6)]
  have "\<forall>i<unat (ph_memsz ph). memory k' (phys + ?w + word_of_nat i) =
      (if i < unat (ph_filesz ph) then memory k (file + ph_offset ph + word_of_nat i) else 0)"
    using mem(1) g(3) by (auto simp del: mult.commute)
  moreover have "\<forall>a. page_no a \<in> frames_owned (frames k) \<longrightarrow> memory k' a = memory k a"
    using mem(2) fresh by blast
  ultimately show ?thesis using g(4,5,7) fresh map by blast
qed

lemma load_segment_success:
  assumes "segment_ok (prog ix k) sz ph" "pmm_alloc_frames (segment_pages ph) (frames k) = (phys, f)" "phys \<noteq> 0"
    "fst (map_pages (unat (segment_pages ph)) 0 (ph_vaddr ph AND NOT (PAGE_SIZE - 1)) phys (flags_for_segment (ph_flags ph))
       ((mm k)\<lparr>table_frames := f\<rparr>))"
  shows "\<exists>k'. load_segment ix file sz ph k = (True, k')"
proof -
  obtain r s where "map_pages (unat (segment_pages ph)) 0 (ph_vaddr ph AND NOT (PAGE_SIZE - 1)) phys
      (flags_for_segment (ph_flags ph)) ((mm k)\<lparr>table_frames := f\<rparr>) = (r, s)" by fastforce
  then show ?thesis using assms by (simp add: load_segment_def Let_def)
qed

definition example_header :: "u32 \<Rightarrow> u32 \<Rightarrow> u32 \<Rightarrow> u32 \<Rightarrow> elf_program_header" where
  "example_header va filesz memsz fl = \<lparr>ph_type = PT_LOAD, ph_offset = 0, ph_vaddr = va, ph_paddr = va, ph_filesz = filesz,
     ph_memsz = memsz, ph_flags = fl, ph_align = 4096\<rparr>"

definition loading_kernel :: "unit loader kernel" where
  "loading_kernel = \<lparr>tasks = tasks example_kernel, current = 0x2000, task_ring = 0x1000, next_id = 5, enabled = True,
     switches = 7, current_uctx = 0x2030, heap = example_heap, mm = example_space,
     memory = (\<lambda>_. 0), esp0 = 0xA000, ticks = 60, eflags = 0x202, console = [],
     ext = \<lparr>ipc_pipe = pipe_init, ipc_ready = False, user_range_start = 0, user_range_end = 0,
       smep_ok = True, smap_ok = True, user_stack_base = 0, user_stack_top = 0, programs = replicate 4 zero_program,
       volume = \<lparr>super = \<lparr>smagic = 0, total_blocks = 0, data_start = 0, max_files = 0, spadding = []\<rparr>, mounted = False, fbitmap = [],
         directory = [], disk = \<lparr>total_sectors = 0, present = False, dev = ()\<rparr>\<rparr>\<rparr>\<rparr>"

lemma loading_kernel_space:
  "wf_space (mm loading_kernel) (active_pdpt (mm loading_kernel))" "frames_owned (frames loading_kernel) = {0, 1, 2}"
  using example_kernel_space example_space_frames by (simp_all add: kernel_space_def loading_kernel_def example_space_def)

lemma loading_runs:
  "\<exists>k'. load_segment 0 0x1000 0x40 (example_header 0x20000010 2 0x100 5) loading_kernel = (True, k')"
proof (rule load_segment_success)
  show "segment_ok (prog 0 loading_kernel) 0x40 (example_header 0x20000010 2 0x100 5)" by code_simp
  show "pmm_alloc_frames (segment_pages (example_header 0x20000010 2 0x100 5)) (frames loading_kernel) =
    (0x3000, snd (pmm_alloc_frames 1 space_frames))" by code_simp
  show "(0x3000 :: u32) \<noteq> 0" by simp
  show "fst (map_pages (unat (segment_pages (example_header 0x20000010 2 0x100 5))) 0
      (ph_vaddr (example_header 0x20000010 2 0x100 5) AND NOT (PAGE_SIZE - 1)) 0x3000
      (flags_for_segment (ph_flags (example_header 0x20000010 2 0x100 5)))
      ((mm loading_kernel)\<lparr>table_frames := snd (pmm_alloc_frames 1 space_frames)\<rparr>))" by code_simp
qed

theorem load_segment_correct_witness:
  "\<exists>k' phys. load_segment 0 0x1000 0x40 (example_header 0x20000010 2 0x100 5) loading_kernel = (True, k') \<and>
     {page_no phys ..< page_no phys + 1} \<inter> {0, 1, 2} = {} \<and>
     mmu (mm k') 0x1000 0x20000123 = Some (phys, False, True, False)"
proof -
  let ?ph = "example_header 0x20000010 2 0x100 5"
  obtain k' where run: "load_segment 0 0x1000 0x40 ?ph loading_kernel = (True, k')" using loading_runs by blast
  have e: "ph_vaddr ?ph = 0x20000010" "ph_memsz ?ph = 0x100" "ph_filesz ?ph = 2" "ph_offset ?ph = 0" "ph_flags ?ph = 5"
    by (simp_all add: example_header_def)
  have n: "unat (segment_pages ?ph) = 1" "(5 :: u32) AND PF_W = 0" "(5 :: u32) AND PF_X \<noteq> 0" by code_simp+
  have a: "active_pdpt (mm loading_kernel) = 0x1000" by (simp add: loading_kernel_def example_space_def)
  have bound: "unat (ph_vaddr ?ph) + unat (ph_memsz ?ph) < 2 ^ 32" by (simp add: e)
  have src: "\<forall>i<unat (ph_filesz ?ph). page_no (0x1000 + ph_offset ?ph + word_of_nat i) \<in> frames_owned (frames loading_kernel)"
    by (auto simp: e loading_kernel_space(2) less_2_cases_iff page_no_def)
  have pg: "page_no 0x20000010 = 0x20000" "page_no 0x20000123 = 0x20000" by (simp_all add: page_no_def)
  from load_segment_correct [OF loading_kernel_space(1) bound src run]
  obtain phys where "{page_no phys ..< page_no phys + 1} \<inter> {0, 1, 2} = {}"
    "mmu (mm k') 0x1000 0x20000123 = Some (phys, False, True, False)"
    unfolding e n a pg loading_kernel_space(2) by (auto simp: pg n)
  then show ?thesis using run by blast
qed

lemma map_two_pages:
  assumes "map_pages (Suc (Suc 0)) 0 va pa fl s = (True, s')"
  obtains s1 where "paging_map va pa fl s = (True, s1)" "paging_map (va + PAGE_SIZE) (pa + PAGE_SIZE) fl s1 = (True, s')"
  using assms by (auto split: prod.splits bool.splits)

text \<open>
  (C29) The range check adds the size to the address in 32 bits: a header for two pages at \<open>0xFFFFF000\<close>
  passes it, and loading it in a well-formed address space maps virtual page 0, where the kernel's low
  memory is, to a frame of the program with access from ring 3.
\<close>

theorem load_segment_wraps_over_kernel:
  assumes "wf_space (mm k) (active_pdpt (mm k))" "ph_vaddr ph = 0xFFFFF000" "ph_memsz ph = 0x2000"
    "load_segment ix file sz ph k = (True, k')"
  shows "segment_ok (prog ix k) sz ph \<and>
    (\<exists>phys. page_no phys \<notin> frames_owned (frames k) \<and>
       (\<forall>v. page_no v = 0 \<longrightarrow> mmu (mm k') (active_pdpt (mm k)) v =
          Some (phys, ph_flags ph AND PF_W \<noteq> 0, True, nx_supported (mm k) \<and> ph_flags ph AND PF_X = 0)))"
proof -
  let ?fl = "flags_for_segment (ph_flags ph)" and ?r = "active_pdpt (mm k)"
  have n: "segment_pages ph = 2" by (simp add: segment_pages_def assms(2,3))
  have st: "(0xFFFFF000 :: u32) AND NOT (PAGE_SIZE - 1) = 0xFFFFF000" by code_simp
  have two: "unat (2 :: u32) = Suc (Suc 0)" by simp
  obtain phys f s where c: "segment_ok (prog ix k) sz ph" "pmm_alloc_frames 2 (frames k) = (phys, f)" "phys \<noteq> 0"
    "map_pages (Suc (Suc 0)) 0 0xFFFFF000 phys ?fl ((mm k)\<lparr>table_frames := f\<rparr>) = (True, s)" "mm k' = s"
    using load_segment_cases [OF assms(4)] unfolding n assms(2) st two by metis
  have pok: "pmm_ok (frames k)" using assms(1) by (simp add: wf_space_def)
  note al = pmm.allocs_some [OF pok c(2,3)]
  let ?s0 = "(mm k)\<lparr>table_frames := f\<rparr>"
  note sp = frames_update_space [OF assms(1), of f]
  have wf0: "wf_space ?s0 (active_pdpt ?s0)" using sp(1) al by auto
  have step: "0xFFFFF000 + PAGE_SIZE = (0 :: u32)" by simp
  obtain s1 where m1: "paging_map 0xFFFFF000 phys ?fl ?s0 = (True, s1)" and m2: "paging_map 0 (phys + PAGE_SIZE) ?fl s1 = (True, s)"
    using map_two_pages [OF c(4)] unfolding step by blast
  have fl: "?fl AND 0xFFFFF000 = 0" "bit ?fl 0" by (simp_all add: flags_for_segment_low flags_for_segment_bits)
  have pa: "unat phys mod 4096 = 0" "unat phys + 2 * 4096 \<le> 2 ^ 32" using al by simp_all
  note p1 = paging_map_cases [OF wf0 pa(1) fl m1]
  have up: "unat (phys + PAGE_SIZE) = unat phys + 4096" using pa(2) by (subst unat32_plus) simp_all
  then have pa2: "unat (phys + PAGE_SIZE) mod 4096 = 0" using pa(1) by simp
  have wf1: "wf_space s1 (active_pdpt s1)" using p1 by simp
  note p2 = paging_map_cases [OF wf1 pa2 fl m2]
  have "page_no (phys + PAGE_SIZE) = page_no phys + 1" unfolding page_no_def up by simp
  then have fresh: "page_no (phys + PAGE_SIZE) \<notin> frames_owned (frames k)"
    using al by (simp add: page_no_def disjoint_iff)
  have z: "page_no 0 = 0" by (simp add: page_no_def)
  have "\<forall>v. page_no v = 0 \<longrightarrow> mmu s ?r v =
      Some (phys + PAGE_SIZE, ph_flags ph AND PF_W \<noteq> 0, True, nx_supported (mm k) \<and> ph_flags ph AND PF_X = 0)"
    using p1 p2 z by (simp add: mapping_of_def flags_for_segment_bits)
  then show ?thesis using c(1,5) fresh by blast
qed

lemma wrapping_runs:
  "\<exists>k'. load_segment 0 0x1000 0x40 (example_header 0xFFFFF000 0 0x2000 7) loading_kernel = (True, k')"
proof (rule load_segment_success)
  let ?ph = "example_header 0xFFFFF000 0 0x2000 7" and ?f = "snd (pmm_alloc_frames 2 space_frames)"
  show "segment_ok (prog 0 loading_kernel) 0x40 ?ph" by code_simp
  show "pmm_alloc_frames (segment_pages ?ph) (frames loading_kernel) = (0x3000, ?f)" by code_simp
  show "(0x3000 :: u32) \<noteq> 0" by simp
  show "fst (map_pages (unat (segment_pages ?ph)) 0 (ph_vaddr ?ph AND NOT (PAGE_SIZE - 1)) 0x3000
      (flags_for_segment (ph_flags ?ph)) ((mm loading_kernel)\<lparr>table_frames := ?f\<rparr>))" by code_simp
qed

theorem load_segment_wraps_over_kernel_witness:
  "\<exists>k' phys. load_segment 0 0x1000 0x40 (example_header 0xFFFFF000 0 0x2000 7) loading_kernel = (True, k') \<and>
     mmu (mm k') 0x1000 0x123 = Some (phys, True, True, False)"
proof -
  obtain k' where run: "load_segment 0 0x1000 0x40 (example_header 0xFFFFF000 0 0x2000 7) loading_kernel = (True, k')"
    using wrapping_runs by blast
  have a: "active_pdpt (mm loading_kernel) = 0x1000" by (simp add: loading_kernel_def example_space_def)
  have fl: "(7 :: u32) AND PF_W \<noteq> 0" "(7 :: u32) AND PF_X \<noteq> 0" by code_simp+
  have "page_no 0x123 = 0" by (simp add: page_no_def)
  then show ?thesis using load_segment_wraps_over_kernel [OF loading_kernel_space(1) _ _ run] run a fl
    by (auto simp: example_header_def)
qed

section \<open>The exit callback\<close>

text \<open>The fields of the scheduler, which unloading a program leaves alone.\<close>

lemma sched_frame_ext: "sched_frame (k\<lparr>ext := e\<rparr>) = sched_frame k"
  unfolding sched_frame_def by simp

lemma sched_frame_mm:
  "r_cr3 s = cr3 k \<Longrightarrow> kernel_pdpt s = kernel_dir k \<Longrightarrow> sched_frame (k\<lparr>mm := s\<rparr>) = sched_frame k"
  unfolding sched_frame_def by simp

lemma set_prog_frame:
  "tasks (set_prog i f k) = tasks k" "sched_frame (set_prog i f k) = sched_frame k"
  by (simp_all only: set_prog_def set_sys_def sched_frame_ext) simp

lemma set_frames_frame:
  "tasks (set_frames f k) = tasks k" "sched_frame (set_frames f k) = sched_frame k"
  by simp (rule sched_frame_mm; simp)

lemma destroy_frame:
  "tasks (k\<lparr>mm := paging_destroy_address_space d (mm k)\<rparr>) = tasks k"
  "sched_frame (k\<lparr>mm := paging_destroy_address_space d (mm k)\<rparr>) = sched_frame k"
  by simp (rule sched_frame_mm; simp add: paging_destroy_address_space_def Let_def)

lemmas unloading_frame = set_prog_frame set_frames_frame destroy_frame

lemma unload_frame: "tasks (unload i k) = tasks k" "sched_frame (unload i k) = sched_frame k"
  by (simp_all only: unload_def Let_def unloading_frame if_distrib [of tasks] if_distrib [of sched_frame] if_cancel)

lemma program_hook_frame:
  "tasks (program_hook c f a k) = tasks k" "sched_frame (program_hook c f a k) = sched_frame k"
  by (simp_all only: program_hook_def program_cleanup_def unload_frame if_distrib [of tasks] if_distrib [of sched_frame] if_cancel)

lemma program_hook_fields:
  "current (program_hook c f a k) = current k" "task_ring (program_hook c f a k) = task_ring k"
  "enabled (program_hook c f a k) = enabled k" "next_id (program_hook c f a k) = next_id k"
  "switches (program_hook c f a k) = switches k" "current_uctx (program_hook c f a k) = current_uctx k"
  "cr3 (program_hook c f a k) = cr3 k" "kernel_dir (program_hook c f a k) = kernel_dir k"
  "esp0 (program_hook c f a k) = esp0 k" "ticks (program_hook c f a k) = ticks k" "eflags (program_hook c f a k) = eflags k"
  using program_hook_frame(2) [of c f a k] unfolding sched_frame_def by simp_all

lemma program_hook_heap: "heap (program_hook c f a k) = heap k"
proof -
  have sp: "heap (set_prog i f k) = heap k" for i f and k :: "('a, 'b) loader_scheme kernel"
    by (simp add: set_prog_def set_sys_def)
  have mu: "heap (mm_update g k) = heap k" for g and k :: "('a, 'b) loader_scheme kernel" by simp
  show ?thesis
    by (simp only: program_hook_def program_cleanup_def unload_def Let_def sp mu if_distrib [of heap] if_cancel)
qed

interpretation prog_hook: heap_hook "program_hook c"
  by unfold_locales (simp_all only: program_hook_frame(1) program_hook_fields program_hook_heap)

end
