(* ===== verification/Shell.thy ===== *)
theory Shell
  imports LoaderCorrect Pipe Lock Terminal
begin

text \<open>
  The command line, \<open>kernel/shell.c\<close>, with the stack protector of \<open>kernel/ssp.c\<close>: line editing, the
  commands over every other part of the kernel, and the threads that some commands start.

  The shell runs inside the keyboard interrupt, on the stack of whichever task was interrupted.  Text goes
  to the console of the kernel state and reaches the screen in order; \<open>drain\<close> writes what is pending before an
  operation on the screen itself.  Threads are functions from one scheduling point to the next.  Addresses of
  code that the linker assigns are the fields of \<open>symbols\<close>; \<open>io\<close> are the ports of the disk and \<open>vio\<close> those of
  the VGA controller.
\<close>

section \<open>State\<close>

definition SHELL_BUFFER_SIZE :: nat where "SHELL_BUFFER_SIZE = 128"
definition INCREMENTS :: u32 where "INCREMENTS = 200"

record symbols =
  a_task_exit :: u32
  a_program_task :: u32
  a_program_cleanup :: u32
  a_demo_thread :: u32
  a_counter_thread :: u32
  a_producer_thread :: u32
  a_consumer_thread :: u32
  a_spin_thread :: u32
  a_kernel_text_start :: u32
  a_user_program :: u32
  a_probe_write_fault :: u32

record ('d, 'v) shell = "'d loader" +
  line_buffer :: "u8 list"
  buffer_length :: u32
  shared_counter :: u32
  workers_done :: u32
  counter_lock :: mutex
  use_lock :: bool
  demo_pipe :: pipe
  pipe_running :: u32
  spin_counter :: u32
  screen :: "'v terminal"
  stack_chk_guard :: u32

text \<open>
  How a command ends: it returns; the task it ran on is gone and it never returns; it polls until both
  workers are done; it is in ring 3, to continue when the user program leaves; or the machine is halted.
\<close>

datatype 'k outcome =
    Returned 'k
  | Switched_Away 'k
  | Polling bool 'k
  | In_Ring3 "u32 \<times> u32" 'k
  | Halted 'k

section \<open>Output\<close>

datatype karg = Num u32 | Str cstring

definition karg_value :: "karg list \<Rightarrow> nat \<Rightarrow> u32" where
  "karg_value args n =
     (if n < length args then case args ! n of Num v \<Rightarrow> v | Str s \<Rightarrow> word_of_nat n else 0)"

definition karg_string :: "karg list \<Rightarrow> u32 \<Rightarrow> cstring" where
  "karg_string args a =
     (if unat a < length args then case args ! unat a of Num v \<Rightarrow> [] | Str s \<Rightarrow> s else [])"

text \<open>\<open>kprintf\<close>: the text of the reference formatter, where a string argument is found by its position.\<close>

definition print :: "string \<Rightarrow> karg list \<Rightarrow> 'x kernel \<Rightarrow> 'x kernel" where
  "print fmt args k = console_write (render (karg_string args) (karg_value args) 0 (pieces (ascii fmt))) k"

definition print_line :: "string \<Rightarrow> karg list \<Rightarrow> 'x kernel \<Rightarrow> 'x kernel" where
  "print_line fmt args k = print (fmt @ [CHR 0x0A]) args k"

definition drain :: "'v ports \<Rightarrow> ('d, 'v, 'z) shell_scheme kernel \<Rightarrow> ('d, 'v, 'z) shell_scheme kernel" where
  "drain vio k =
     (set_sys (\<lambda>s. s\<lparr>screen := terminal_write vio (console k) (screen s)\<rparr>) k)\<lparr>console := []\<rparr>"

definition on_screen ::
  "'v ports \<Rightarrow> ('v terminal \<Rightarrow> 'v terminal) \<Rightarrow> ('d, 'v, 'z) shell_scheme kernel \<Rightarrow> ('d, 'v, 'z) shell_scheme kernel" where
  "on_screen vio f k = set_sys (\<lambda>s. s\<lparr>screen := f (screen s)\<rparr>) (drain vio k)"

definition prompt :: "'x kernel \<Rightarrow> 'x kernel" where
  "prompt k = print ''arthic> '' [] k"

section \<open>The stack protector\<close>

text \<open>\<open>tsc\<close> is what \<open>rdtsc\<close> leaves in EAX.\<close>

definition ssp_init :: "u32 \<Rightarrow> ('d, 'v, 'z) shell_scheme kernel \<Rightarrow> ('d, 'v, 'z) shell_scheme kernel" where
  "ssp_init tsc k =
     set_sys (\<lambda>s. s\<lparr>stack_chk_guard := (if tsc XOR 0xCAFEBABE = 0 then 0xCAFEBABE else tsc XOR 0xCAFEBABE)\<rparr>) k"

definition stack_chk_fail :: "'x kernel \<Rightarrow> 'x kernel" where
  "stack_chk_fail k =
     (let k1 = print_line ([CHR 0x0A] @ ''*** STACK SMASHING DETECTED - halting immediately'') [] k;
          k2 = print_line ''    a local buffer overran its bounds and corrupted the stack.'' [] k1;
          k3 = print_line ''    continuing would run on memory that can no longer be trusted.'' [] k2
      in k3\<lparr>eflags := eflags k3 AND NOT 0x200\<rparr>)"

text \<open>
  The frame of \<open>smash_the_stack\<close>: the 16 bytes of the array, \<open>pad\<close> bytes that the compiler chooses, and the four
  bytes of the canary; the loop stores at offsets 0 to 47 from the start of the array.
\<close>

definition smashed_frame :: "nat \<Rightarrow> u32 \<Rightarrow> u8 list" where
  "smashed_frame pad guard =
     fold (\<lambda>i f. f[i := 0x58]) [0..<48] (replicate (16 + pad) 0 @ le32 guard @ replicate (48 - pad) 0)"

definition smash_the_stack ::
  "nat \<Rightarrow> ('d, 'v, 'z) shell_scheme kernel \<Rightarrow> ('d, 'v, 'z) shell_scheme kernel outcome" where
  "smash_the_stack pad k =
     (let guard = stack_chk_guard (ext k);
          k1 = print_line ''writing 48 bytes into a 16-byte buffer ...'' [] k;
          k2 = print_line ''SURVIVED - the stack protector did not catch this'' [] k1
      in if take 4 (drop (16 + pad) (smashed_frame pad guard)) = le32 guard then Returned k2
         else Halted (stack_chk_fail k2))"

section \<open>Commands on memory and time\<close>

definition help_lines :: "string list" where
  "help_lines =
     [''  help          this list'',
      ''  about         what Arthic is'',
      ''  ticks         milliseconds-ish since boot, from the timer'',
      ''  ssptest       deliberately overrun a buffer - should halt cleanly'',
      ''  echo <text>   print text back'',
      ''  mem           physical memory usage'',
      ''  alloc         allocate one 4 KB frame and print its address'',
      ''  heap          heap usage'',
      ''  heaptest      exercise kmalloc and kfree'',
      ''  tasks         list threads'',
      ''  spin          start a task that loops forever'',
      ''  kill <id>     terminate a task'',
      ''  pipetest      a producer and consumer sharing a pipe'',
      ''  pipestat      pipe contents and how often each side blocked'',
      ''  install       write the demo program to the disk'',
      ''  run <name> [arg]  load a program as its own process'',
      ''                    try: run prog read | write | nx'',
      ''  ls            list files'',
      ''  cat <name>    print a file'',
      ''  write <name> <text>   create a file'',
      ''  append <name> <text>  add to the end of a file'',
      ''  append <name> <text>  add to the end of a file'',
      ''  rm <name>     delete a file'',
      ''  bigfile       write and verify a 20 KB file (tests indirect blocks)'',
      ''  df            filesystem usage'',
      ''  format        create a fresh filesystem (erases the disk)'',
      ''  racetest      two threads, no lock - watch updates vanish'',
      ''  locktest      the same test with a mutex'',
      ''  spawn         start a thread that counts to five'',
      ''  user          drop to ring 3 and run a user program'',
      ''  wptest        try to write to kernel code (should be blocked)'',
      ''  clear         clear the screen'']"

definition command_help :: "'x kernel \<Rightarrow> 'x kernel" where
  "command_help k = fold (\<lambda>l. print_line l []) help_lines k"

definition command_about :: "'x kernel \<Rightarrow> 'x kernel" where
  "command_about k =
     fold (\<lambda>l. print_line l [])
       [''Arthic v1.8 - a 32-bit x86 kernel written from scratch.'',
        ''Own GDT and IDT, PIC remapped, timer and keyboard drivers.'',
        ''Processes, pipes, and files stored as block lists.''] k"

definition command_mem :: "'x kernel \<Rightarrow> 'x kernel" where
  "command_mem k =
     (let all = pmm_total_frames (frames k); used = pmm_used_frames (frames k); free = pmm_free_frames (frames k);
          k1 = print_line ''  total  %u frames  (%u KB)'' [Num all, Num (all * 4)] k;
          k2 = print_line ''  used   %u frames  (%u KB)'' [Num used, Num (used * 4)] k1
      in print_line ''  free   %u frames  (%u KB)'' [Num free, Num (free * 4)] k2)"

definition command_alloc :: "'x kernel \<Rightarrow> 'x kernel" where
  "command_alloc k =
     (case pmm_alloc_frame (frames k) of (addr, f) \<Rightarrow>
        let k1 = set_frames f k
        in if addr \<noteq> 0 then print_line ''allocated frame at physical 0x%x'' [Num addr] k1
           else print_line ''out of memory'' [] k1)"

text \<open>
  \<open>probe_write\<close> of \<open>kernel/interrupts.s\<close>: the resume address is set before the store, so a fault ends in the
  page fault handler's first branch, at the instruction that returns 0; it is cleared either way.
\<close>

definition paging_probe_write :: "u32 \<Rightarrow> u32 \<Rightarrow> u32 \<Rightarrow> 'x kernel \<Rightarrow> bool \<times> 'x kernel" where
  "paging_probe_write probe_write_fault addr v k =
     (let k1 = k\<lparr>mm := paging_set_fault_resume probe_write_fault (mm k)\<rparr>;
          disarm = (\<lambda>k. k\<lparr>mm := paging_set_fault_resume 0 (mm k)\<rparr>)
      in case mmu (mm k1) (active_pdpt (mm k1)) addr of
           None \<Rightarrow> (False, disarm (k1\<lparr>mm := snd (page_fault_handler False 2 (mm k1))\<rparr>))
         | Some (pa, w, u, nx) \<Rightarrow>
             if \<not> w \<or> smap_blocks k1 u then (False, disarm (k1\<lparr>mm := snd (page_fault_handler False 3 (mm k1))\<rparr>))
             else (True, disarm (k1\<lparr>memory := write32 (memory k1) (pa OR (addr AND 0xFFF)) v\<rparr>)))"

definition command_wptest :: "symbols \<Rightarrow> 'x kernel \<Rightarrow> 'x kernel" where
  "command_wptest sy k =
     (let code = a_kernel_text_start sy;
          k1 = print_line ''writing to kernel code at 0x%x ...'' [Num code] k
      in case paging_probe_write (a_probe_write_fault sy) code 0xDEADBEEF k1 of (ok, k2) \<Rightarrow>
           if ok then print_line ''SUCCEEDED - write protection is NOT working'' [] k2
           else print_line ''blocked by the MMU, and the kernel recovered.'' [] k2)"

definition command_ssptest :: "nat \<Rightarrow> ('d, 'v, 'z) shell_scheme kernel \<Rightarrow> ('d, 'v, 'z) shell_scheme kernel outcome" where
  "command_ssptest pad k = smash_the_stack pad k"

definition command_ticks :: "'x kernel \<Rightarrow> 'x kernel" where
  "command_ticks k =
     (let t = timer_get_ticks k
      in print_line ''%u ticks, roughly %u seconds since boot'' [Num t, Num (t div 18)] k)"

definition command_heap :: "'x kernel \<Rightarrow> 'x kernel option" where
  "command_heap k =
     (case kheap_stats (heap k) of
        None \<Rightarrow> None
      | Some (all, used, blocks) \<Rightarrow>
          let k1 = print_line ''  total  %u KB'' [Num (all div 1024)] k;
              k2 = print_line ''  used   %u bytes across %u blocks'' [Num used, Num blocks] k1
          in Some (print_line ''  free   %u KB'' [Num ((all - used) div 1024)] k2))"

definition take_block :: "u32 \<Rightarrow> 'x kernel \<Rightarrow> (u32 \<times> 'x kernel) option" where
  "take_block n k = (case kmalloc n (heap k) of None \<Rightarrow> None | Some (p, h) \<Rightarrow> Some (p, k\<lparr>heap := h\<rparr>))"

text \<open>\<open>kfree\<close> with the messages of its two guards.\<close>

definition give_block :: "u32 \<Rightarrow> 'x kernel \<Rightarrow> 'x kernel" where
  "give_block ptr k =
     (let b = hdr (heap k) (header_of ptr); k1 = k\<lparr>heap := kfree ptr (heap k)\<rparr>
      in if ptr = 0 then k1
         else if bmagic b \<noteq> BLOCK_MAGIC then print_line ''kfree: bad or corrupted block at 0x%x - ignoring'' [Num ptr] k1
         else if bfree b \<noteq> 0 then print_line ''kfree: double free at 0x%x - ignoring'' [Num ptr] k1
         else k1)"

definition command_heaptest :: "'x kernel \<Rightarrow> 'x kernel option" where
  "command_heaptest k =
     Option.bind (take_block 64 k) (\<lambda>(a, k1).
     Option.bind (take_block 128 k1) (\<lambda>(b, k2).
       if a = 0 \<or> b = 0 then Some (print_line ''allocation failed'' [] k2)
       else
         let k3 = print_line ''a = kmalloc(64)   -> 0x%x'' [Num a] k2;
             k4 = print_line ''b = kmalloc(128)  -> 0x%x'' [Num b] k3;
             k5 = k4\<lparr>memory := store_bytes a (replicate 63 0x78 @ [0]) (memory k4)\<rparr>;
             k6 = print_line ''wrote to a, reads back: %c%c%c...''
                    [Num (scast (memory k5 a)), Num (scast (memory k5 (a + 1))), Num (scast (memory k5 (a + 2)))] k5;
             k7 = print_line ''kfree(a)'' [] (give_block a k6)
         in Option.bind (take_block 32 k7) (\<lambda>(c, k8).
              let k9 = print_line ''c = kmalloc(32)   -> 0x%x  %s''
                         [Num c, Str (if c = a then ascii ''(reused a'' @ [0x27] @ ascii ''s space)'' else [])] k8;
                  k10 = print ''double free check: '' [] k9;
                  k11 = give_block b (give_block c (give_block c k10))
              in Some (print_line ''all freed'' [] k11))))"

section \<open>Threads\<close>

type_synonym 'k hook = "u32 \<Rightarrow> u32 \<Rightarrow> 'k \<Rightarrow> 'k"

text \<open>One round of the loop: sleep, and what follows when the thread runs again.\<close>

definition demo_thread_sleep :: "'x kernel hook \<Rightarrow> 'x kernel \<Rightarrow> 'x kernel sleep_outcome" where
  "demo_thread_sleep hook k = task_sleep hook 18 k"

definition demo_thread_report :: "u32 \<Rightarrow> u32 \<Rightarrow> 'x kernel \<Rightarrow> 'x kernel" where
  "demo_thread_report i n k = print_line ''[task %u] %u of 5'' [Num i, Num n] k"

text \<open>
  Where a worker is: about to take the lock for round \<open>i\<close>; about to read the counter; with the value it read, about to
  yield; about to write; about to give the lock back; about to store the number of finished workers it has read plus
  one; about to return; gone.  Each step is one access to shared memory or one call, so that a switch may happen
  between any two.
\<close>

datatype counter_pc =
    At_Lock u32 | At_Read u32 | At_Yield u32 u32 | At_Write u32 u32 | At_Unlock u32 | At_Finish u32 | Worker_Done | Worker_Gone

definition set_counter :: "u32 \<Rightarrow> ('d, 'v, 'z) shell_scheme kernel \<Rightarrow> ('d, 'v, 'z) shell_scheme kernel" where
  "set_counter v k = set_sys (\<lambda>s. s\<lparr>shared_counter := v\<rparr>) k"

definition set_lock :: "mutex \<Rightarrow> ('d, 'v, 'z) shell_scheme kernel \<Rightarrow> ('d, 'v, 'z) shell_scheme kernel" where
  "set_lock m k = set_sys (\<lambda>s. s\<lparr>counter_lock := m\<rparr>) k"

fun counter_thread ::
  "('d, 'v, 'z) shell_scheme kernel hook \<Rightarrow> counter_pc \<Rightarrow> ('d, 'v, 'z) shell_scheme kernel \<Rightarrow>
   counter_pc \<times> ('d, 'v, 'z) shell_scheme kernel" where
  "counter_thread hook (At_Lock i) k =
     (if i \<ge> INCREMENTS then (At_Finish (workers_done (ext k)), k)
      else if \<not> use_lock (ext k) then (At_Read i, k)
      else
        case mutex_lock_step hook (counter_lock (ext k)) k of (got, m, k1) \<Rightarrow>
          (if got then At_Read i else At_Lock i, set_lock m k1))"
| "counter_thread hook (At_Read i) k = (At_Yield i (shared_counter (ext k)), k)"
| "counter_thread hook (At_Yield i v) k = (At_Write i v, task_yield hook k)"
| "counter_thread hook (At_Write i v) k = (if use_lock (ext k) then At_Unlock i else At_Lock (i + 1), set_counter (v + 1) k)"
| "counter_thread hook (At_Unlock i) k =
     (case mutex_unlock (counter_lock (ext k)) k of (m, k1) \<Rightarrow> (At_Lock (i + 1), set_lock m k1))"
| "counter_thread hook (At_Finish n) k = (Worker_Done, set_sys (\<lambda>s. s\<lparr>workers_done := n + 1\<rparr>) k)"
| "counter_thread hook Worker_Done k = (Worker_Gone, task_exit hook k)"
| "counter_thread hook Worker_Gone k = (Worker_Gone, k)"

definition run_counter_test ::
  "symbols \<Rightarrow> bool \<Rightarrow> ('d, 'v, 'z) shell_scheme kernel \<Rightarrow> ('d, 'v, 'z) shell_scheme kernel outcome option" where
  "run_counter_test sy with_mutex k =
     (let k1 = set_sys (\<lambda>s. s\<lparr>shared_counter := 0, workers_done := 0, use_lock := with_mutex, counter_lock := mutex_init\<rparr>) k;
          k2 = print_line ''two threads, %u increments each, %s''
                 [Num INCREMENTS, Str (if with_mutex then ascii ''WITH a mutex'' else ascii ''with NO lock'')] k1;
          failed = (\<lambda>k. Returned (print_line ''could not create threads'' [] k))
      in Option.bind (task_create (a_task_exit sy) (ascii ''count'') (a_counter_thread sy) k2) (\<lambda>(i, k3).
           if i = 0 then Some (failed k3)
           else
             Option.bind (task_create (a_task_exit sy) (ascii ''count'') (a_counter_thread sy) k3) (\<lambda>(j, k4).
               if j = 0 then Some (failed k4) else Some (Polling with_mutex k4))))"

text \<open>After the loop that waits for both workers.\<close>

definition counter_report :: "bool \<Rightarrow> ('d, 'v, 'z) shell_scheme kernel \<Rightarrow> ('d, 'v, 'z) shell_scheme kernel" where
  "counter_report with_mutex k =
     (let expected = 2 * INCREMENTS; got = shared_counter (ext k);
          k1 = print ''expected %u, got %u'' [Num expected, Num got] k;
          k2 = (if got = expected then print_line ''  - correct'' [] k1
                else print_line ''  - LOST %u updates'' [Num (expected - got)] k1)
      in if with_mutex then print_line ''blocked on the lock %u times'' [Num (contended (counter_lock (ext k2)))] k2 else k2)"

definition counter_poll ::
  "('d, 'v, 'z) shell_scheme kernel hook \<Rightarrow> bool \<Rightarrow> ('d, 'v, 'z) shell_scheme kernel \<Rightarrow>
   ('d, 'v, 'z) shell_scheme kernel outcome" where
  "counter_poll hook with_mutex k =
     (if workers_done (ext k) < 2 then Polling with_mutex (task_yield hook k) else Returned (counter_report with_mutex k))"

definition command_racetest ::
  "symbols \<Rightarrow> ('d, 'v, 'z) shell_scheme kernel \<Rightarrow> ('d, 'v, 'z) shell_scheme kernel outcome option" where
  "command_racetest sy k = run_counter_test sy False k"

definition command_locktest ::
  "symbols \<Rightarrow> ('d, 'v, 'z) shell_scheme kernel \<Rightarrow> ('d, 'v, 'z) shell_scheme kernel outcome option" where
  "command_locktest sy k = run_counter_test sy True k"

section \<open>Commands on files\<close>

definition argument_after :: "cstring \<Rightarrow> cstring \<Rightarrow> cstring option" where
  "argument_after line command =
     (if \<not> kstartswith line command then None
      else
        let p = dropWhile (\<lambda>c. c = 0x20) (dropWhile (\<lambda>c. c \<noteq> 0x20) line)
        in if p = [] then None else Some p)"

text \<open>The name, cut off at \<open>FS_NAME_MAX - 1\<close> characters, and what follows it.\<close>

definition split_name :: "cstring \<Rightarrow> cstring \<times> cstring" where
  "split_name rest =
     (let name = takeWhile (\<lambda>c. c \<noteq> 0x20) (take (FS_NAME_MAX - 1) rest)
      in (name, dropWhile (\<lambda>c. c = 0x20) (drop (length name) rest)))"

definition on_volume ::
  "('d fs \<Rightarrow> 'a \<times> 'd fs) \<Rightarrow> ('d, 'z) loader_scheme kernel \<Rightarrow> 'a \<times> ('d, 'z) loader_scheme kernel" where
  "on_volume f k = (case f (volume (ext k)) of (r, v) \<Rightarrow> (r, set_volume v k))"

definition command_format :: "'d ports \<Rightarrow> ('d, 'z) loader_scheme kernel \<Rightarrow> ('d, 'z) loader_scheme kernel" where
  "command_format io k =
     (if ata_sector_count (disk (volume (ext k))) = 0 then print_line ''no disk attached'' [] k
      else
        case on_volume (fs_format io) (print_line ''formatting - this erases everything on the disk'' [] k) of (ok, k1) \<Rightarrow>
          if ok then print_line ''done. ArthicFS ready.'' [] k1 else print_line ''format failed'' [] k1)"

definition command_df :: "('d, 'z) loader_scheme kernel \<Rightarrow> ('d, 'z) loader_scheme kernel" where
  "command_df k =
     (case fs_stats (volume (ext k)) of (all, used, files) \<Rightarrow>
        if \<not> fs_is_mounted (volume (ext k)) then print_line ''no filesystem mounted'' [] k
        else print_line ''  %u files'' [Num files]
               (print_line ''  %u blocks total, %u used, %u free  (512 bytes each)'' [Num all, Num used, Num (all - used)] k))"

definition command_write :: "'d ports \<Rightarrow> cstring \<Rightarrow> ('d, 'z) loader_scheme kernel \<Rightarrow> ('d, 'z) loader_scheme kernel" where
  "command_write io line k =
     (case argument_after line (ascii ''write '') of
        None \<Rightarrow> print_line ''usage: write <name> <text>'' [] k
      | Some rest \<Rightarrow>
          case split_name rest of (name, content) \<Rightarrow>
            if content = [] then print_line ''usage: write <name> <text>'' [] k
            else
              case on_volume (fs_create io (Some name) content (word_of_nat (length content))) k of (ok, k1) \<Rightarrow>
                if ok then print_line ''wrote %u bytes to %s'' [Num (word_of_nat (length content)), Str name] k1
                else print_line ''could not write %s (exists, full, or no space)'' [Str name] k1)"

definition command_cat :: "'d ports \<Rightarrow> cstring \<Rightarrow> ('d, 'z) loader_scheme kernel \<Rightarrow> ('d, 'z) loader_scheme kernel" where
  "command_cat io line k =
     (case argument_after line (ascii ''cat '') of
        None \<Rightarrow> print_line ''usage: cat <name>'' [] k
      | Some name \<Rightarrow>
          case on_volume (fs_read io name 1023) k of ((ok, dest, got), k1) \<Rightarrow>
            if \<not> ok then print_line ''no such file: %s'' [Str name] k1
            else print_line ''%s'' [Str (takeWhile (\<lambda>c. c \<noteq> 0) dest)] k1)"

definition command_append :: "'d ports \<Rightarrow> cstring \<Rightarrow> ('d, 'z) loader_scheme kernel \<Rightarrow> ('d, 'z) loader_scheme kernel" where
  "command_append io line k =
     (case argument_after line (ascii ''append '') of
        None \<Rightarrow> print_line ''usage: append <name> <text>'' [] k
      | Some rest \<Rightarrow>
          case split_name rest of (name, content) \<Rightarrow>
            if content = [] then print_line ''usage: append <name> <text>'' [] k
            else
              case on_volume (fs_append io name content (word_of_nat (length content))) k of (ok, k1) \<Rightarrow>
                if ok then print_line ''appended %u bytes to %s'' [Num (word_of_nat (length content)), Str name] k1
                else print_line ''could not append to %s'' [Str name] k1)"

definition big_pattern :: "nat \<Rightarrow> u8 list" where
  "big_pattern n = map (\<lambda>i. ucast (word_of_nat i * 7 + drop_bit 8 (word_of_nat i) :: u32)) [0..<n]"

definition peek_bytes :: "bytes \<Rightarrow> u32 \<Rightarrow> nat \<Rightarrow> u8 list" where
  "peek_bytes m a n = map (\<lambda>i. m (a + word_of_nat i)) [0..<n]"

text \<open>From the read-back on, with both buffers allocated.\<close>

definition bigfile_verify :: "'d ports \<Rightarrow> u32 \<Rightarrow> u32 \<Rightarrow> ('d, 'z) loader_scheme kernel \<Rightarrow> ('d, 'z) loader_scheme kernel" where
  "bigfile_verify io data back k =
     (case on_volume (fs_read io (ascii ''bigfile'') 20000) k of ((ok, dest, got), k1) \<Rightarrow>
        let k2 = k1\<lparr>memory := store_bytes back dest (memory k1)\<rparr>;
            n = (case got of None \<Rightarrow> 0 | Some g \<Rightarrow> g);
            bad = word_of_nat (length (filter (\<lambda>i. memory k2 (back + word_of_nat i) \<noteq> memory k2 (data + word_of_nat i)) [0..<unat n])) :: u32;
            k3 = print_line ''wrote %u bytes, read back %u, %u wrong'' [Num 20000, Num n, Num bad] k2;
            k4 = print_line ''%s'' [Str (if n = 20000 \<and> bad = 0 then ascii ''indirect blocks work'' else ascii ''SOMETHING IS WRONG'')] k3
        in give_block back (give_block data (if ok then k4 else print_line ''could not read it back'' [] k2)))"

definition command_bigfile ::
  "'d ports \<Rightarrow> ('d, 'z) loader_scheme kernel \<Rightarrow> ('d, 'z) loader_scheme kernel option" where
  "command_bigfile io k =
     (if \<not> fs_is_mounted (volume (ext k)) then Some (print_line ''no filesystem - run 'format' first'' [] k)
      else
        Option.bind (take_block 20000 k) (\<lambda>(data, k1).
          if data = 0 then Some (print_line ''out of heap'' [] k1)
          else
            let k2 = k1\<lparr>memory := store_bytes data (big_pattern 20000) (memory k1)\<rparr>;
                k3 = snd (on_volume (fs_delete io (ascii ''bigfile'')) k2)
            in case on_volume (fs_create io (Some (ascii ''bigfile'')) (peek_bytes (memory k3) data 20000) 20000) k3 of (ok, k4) \<Rightarrow>
                 if \<not> ok then Some (give_block data (print_line ''could not create it'' [] k4))
                 else
                   Option.bind (take_block 20000 k4) (\<lambda>(back, k5).
                     if back = 0 then Some (give_block data (print_line ''out of heap for the read-back'' [] k5))
                     else Some (bigfile_verify io data back k5))))"

definition command_rm :: "'d ports \<Rightarrow> cstring \<Rightarrow> ('d, 'z) loader_scheme kernel \<Rightarrow> ('d, 'z) loader_scheme kernel" where
  "command_rm io line k =
     (case argument_after line (ascii ''rm '') of
        None \<Rightarrow> print_line ''usage: rm <name>'' [] k
      | Some name \<Rightarrow>
          case on_volume (fs_delete io name) k of (ok, k1) \<Rightarrow>
            if ok then print_line ''deleted %s'' [Str name] k1 else print_line ''no such file: %s'' [Str name] k1)"

definition command_install :: "'d ports \<Rightarrow> u8 list \<Rightarrow> ('d, 'z) loader_scheme kernel \<Rightarrow> ('d, 'z) loader_scheme kernel" where
  "command_install io prog_blob k =
     (if \<not> fs_is_mounted (volume (ext k)) then print_line ''no filesystem - run 'format' first'' [] k
      else
        case loader_install io prog_blob (ascii ''prog'') k of (ok, k1) \<Rightarrow>
          if ok then print_line (''wrote the demo program to the disk as '' @ [CHR 0x27] @ ''prog'' @ [CHR 0x27]) [] k1
          else print_line ''could not write it (already there? try 'rm prog')'' [] k1)"

definition command_run ::
  "'d ports \<Rightarrow> symbols \<Rightarrow> cstring \<Rightarrow> ('d, 'z) loader_scheme kernel \<Rightarrow> ('d, 'z) loader_scheme kernel option" where
  "command_run io sy line k =
     (case argument_after line (ascii ''run '') of
        None \<Rightarrow> Some (print_line ''usage: run <name> [argument]'' [] k)
      | Some rest \<Rightarrow>
          case split_name rest of (name, args) \<Rightarrow>
            map_option snd (loader_run io (a_task_exit sy) (a_program_task sy) (a_program_cleanup sy) name (Some args) k))"

section \<open>Pipes\<close>

definition set_demo_pipe :: "pipe \<Rightarrow> ('d, 'v, 'z) shell_scheme kernel \<Rightarrow> ('d, 'v, 'z) shell_scheme kernel" where
  "set_demo_pipe p k = set_sys (\<lambda>s. s\<lparr>demo_pipe := p\<rparr>) k"

definition pipe_side_done :: "('d, 'v, 'z) shell_scheme kernel \<Rightarrow> ('d, 'v, 'z) shell_scheme kernel" where
  "pipe_side_done k = set_sys (\<lambda>s. s\<lparr>pipe_running := pipe_running s - 1\<rparr>) k"

definition producer_message :: "nat \<Rightarrow> u8 list" where
  "producer_message i =
     (ascii ''message 00 from the producer'' @ [10])[8 := 0x30 + word_of_nat (i div 10 mod 10), 9 := 0x30 + word_of_nat (i mod 10)]"

text \<open>What is left to write of message \<open>i\<close>, or of the end mark; \<open>pipe_write\<close> returns with a rest when it blocks.\<close>

datatype producer_pc = Sending nat "u8 list" | Ending "u8 list" | Producer_Done

fun producer_thread ::
  "('d, 'v, 'z) shell_scheme kernel hook \<Rightarrow> producer_pc \<Rightarrow> ('d, 'v, 'z) shell_scheme kernel \<Rightarrow>
   producer_pc \<times> ('d, 'v, 'z) shell_scheme kernel" where
  "producer_thread hook (Sending i rest) k =
     (case pipe_write hook rest (demo_pipe (ext k)) k of (left, p, k1) \<Rightarrow>
        (if left \<noteq> [] then Sending i left
         else if i < 40 then Sending (i + 1) (producer_message (i + 1)) else Ending (ascii ''END''), set_demo_pipe p k1))"
| "producer_thread hook (Ending rest) k =
     (case pipe_write hook rest (demo_pipe (ext k)) k of (left, p, k1) \<Rightarrow>
        let k2 = set_demo_pipe p k1
        in if left \<noteq> [] then (Ending left, k2) else (Producer_Done, pipe_side_done k2))"
| "producer_thread hook Producer_Done k = (Producer_Done, k)"

datatype consumer_pc = At_Pipe | Pausing "u8 list" | Showing "u8 list" | Consumer_Done

fun has_end :: "u8 list \<Rightarrow> bool" where
  "has_end (a # b # c # cs) = (a = 0x45 \<and> b = 0x4E \<and> c = 0x44 \<or> has_end (b # c # cs))"
| "has_end _ = False"

fun consumer_thread ::
  "('d, 'v, 'z) shell_scheme kernel hook \<Rightarrow> consumer_pc \<Rightarrow> ('d, 'v, 'z) shell_scheme kernel \<Rightarrow>
   consumer_pc \<times> ('d, 'v, 'z) shell_scheme kernel" where
  "consumer_thread hook At_Pipe k =
     (case pipe_read hook 63 (demo_pipe (ext k)) k of (returned, chunk, p, k1) \<Rightarrow>
        (if returned then Pausing chunk else At_Pipe, set_demo_pipe p k1))"
| "consumer_thread hook (Pausing chunk) k =
     (case task_sleep hook 2 k of Slept k1 \<Rightarrow> (Showing chunk, k1) | Busy_Wait t k1 \<Rightarrow> (Showing chunk, k1))"
| "consumer_thread hook (Showing chunk) k =
     (let k1 = print ''%s'' [Str (takeWhile (\<lambda>c. c \<noteq> 0) chunk)] k
      in if has_end chunk then (Consumer_Done, pipe_side_done k1) else (At_Pipe, k1))"
| "consumer_thread hook Consumer_Done k = (Consumer_Done, k)"

definition command_pipetest ::
  "symbols \<Rightarrow> ('d, 'v, 'z) shell_scheme kernel \<Rightarrow> ('d, 'v, 'z) shell_scheme kernel option" where
  "command_pipetest sy k =
     (if pipe_running (ext k) \<noteq> 0 then Some (print_line ''a pipe test is already running'' [] k)
      else
        let k1 = set_sys (\<lambda>s. s\<lparr>demo_pipe := pipe_init, pipe_running := 2\<rparr>) k;
            k2 = print_line ''producer sends 40 messages through a %u byte pipe'' [Num PIPE_CAPACITY] k1;
            failed = (\<lambda>k. set_sys (\<lambda>s. s\<lparr>pipe_running := 0\<rparr>) (print_line ''could not create the threads'' [] k))
        in Option.bind (task_create (a_task_exit sy) (ascii ''producer'') (a_producer_thread sy) k2) (\<lambda>(i, k3).
             if i = 0 then Some (failed k3)
             else
               map_option (\<lambda>(j, k4). if j = 0 then failed k4 else k4)
                 (task_create (a_task_exit sy) (ascii ''consumer'') (a_consumer_thread sy) k3)))"

definition command_pipestat :: "('d, 'v, 'z) shell_scheme kernel \<Rightarrow> ('d, 'v, 'z) shell_scheme kernel" where
  "command_pipestat k =
     (case pipe_stats (demo_pipe (ext k)) of (reads, writes) \<Rightarrow>
        print_line ''  reader blocked %u times, writer blocked %u times'' [Num reads, Num writes]
          (print_line ''  %u bytes waiting in the pipe'' [Num (pipe_available (demo_pipe (ext k)))] k))"

section \<open>Tasks\<close>

fun parse_loop :: "u32 \<Rightarrow> cstring \<Rightarrow> u32" where
  "parse_loop v [] = v"
| "parse_loop v (c # cs) = (if 0x30 \<le> c \<and> c \<le> 0x39 then parse_loop (v * 10 + ucast (c - 0x30)) cs else v)"

definition parse_number :: "cstring \<Rightarrow> u32" where
  "parse_number s = parse_loop 0 s"

text \<open>
  When the task to kill is the one the keyboard interrupted, \<open>task_kill\<close> ends in \<open>task_terminate\<close>, which does not
  return: the rest of the command, of the line and of the interrupt handler is lost with the task.
\<close>

definition command_kill ::
  "('d, 'v, 'z) shell_scheme kernel hook \<Rightarrow> cstring \<Rightarrow> ('d, 'v, 'z) shell_scheme kernel \<Rightarrow>
   ('d, 'v, 'z) shell_scheme kernel outcome" where
  "command_kill hook line k =
     (case argument_after line (ascii ''kill '') of
        None \<Rightarrow> Returned (print_line ''usage: kill <id>   (see 'tasks')'' [] k)
      | Some arg \<Rightarrow>
          let i = parse_number arg
          in case task_kill hook i k of (result, k1) \<Rightarrow>
               if result = 1
               then if task_by_id i k = current k then Switched_Away k1 else Returned (print_line ''killed task %u'' [Num i] k1)
               else if result = -1
               then Returned (print_line ''task %u is blocked on something and cannot be killed yet'' [Num i] k1)
               else Returned (print_line ''no such task, or it is task 0'' [] k1))"

text \<open>One round of the endless loop.\<close>

definition spin_thread :: "('d, 'v, 'z) shell_scheme kernel \<Rightarrow> ('d, 'v, 'z) shell_scheme kernel" where
  "spin_thread k = set_sys (\<lambda>s. s\<lparr>spin_counter := spin_counter s + 1\<rparr>) k"

definition command_spin :: "symbols \<Rightarrow> 'x kernel \<Rightarrow> 'x kernel option" where
  "command_spin sy k =
     map_option (\<lambda>(i, k1).
         if i \<noteq> 0 then print_line ''task %u is now looping forever - 'kill %u' to stop it'' [Num i, Num i] k1
         else print_line ''could not create the task'' [] k1)
       (task_create (a_task_exit sy) (ascii ''spin'') (a_spin_thread sy) k)"

definition command_spawn :: "symbols \<Rightarrow> 'x kernel \<Rightarrow> 'x kernel option" where
  "command_spawn sy k =
     map_option (\<lambda>(i, k1).
         if i \<noteq> 0 then print_line ''spawned task %u - it runs alongside this shell'' [Num i] k1
         else print_line ''could not create task'' [] k1)
       (task_create (a_task_exit sy) (ascii ''demo'') (a_demo_thread sy) k)"

definition user_returned :: "'x kernel \<Rightarrow> 'x kernel" where
  "user_returned k = print_line ''back in ring 0.'' [] k"

definition command_user :: "symbols \<Rightarrow> u32 \<Rightarrow> 'z sys_scheme kernel \<Rightarrow> 'z sys_scheme kernel outcome" where
  "command_user sy esp_now k =
     (case usermode_run (a_user_program sy) esp_now (print_line ''entering ring 3 ...'' [] k) of
        (None, k1) \<Rightarrow> Returned (user_returned k1)
      | (Some entry, k1) \<Rightarrow> In_Ring3 entry k1)"

definition state_name :: "task_state \<Rightarrow> string" where
  "state_name st =
     (case st of TASK_RUNNING \<Rightarrow> ''running '' | TASK_READY \<Rightarrow> ''ready   '' | TASK_SLEEPING \<Rightarrow> ''sleeping''
      | TASK_BLOCKED \<Rightarrow> ''blocked '' | TASK_FINISHED \<Rightarrow> ''finished'')"

text \<open>The output of \<open>task_list\<close> and \<open>fs_list\<close>.\<close>

definition print_tasks :: "'x kernel \<Rightarrow> 'x kernel" where
  "print_tasks k =
     (case task_list k of
        None \<Rightarrow> print_line ''scheduler not running'' [] k
      | Some (n, rows) \<Rightarrow>
          fold (\<lambda>(i, st, name). print_line ''  %u   %s  %s'' [Num i, Str (ascii (state_name st)), Str name]) rows
            (print_line ''  id  state     name'' [] (print_line ''  %u context switches so far'' [Num n] k)))"

definition print_file :: "fs_row \<Rightarrow> 'x kernel \<Rightarrow> 'x kernel" where
  "print_file row k =
     (case row of (name, pad, sz, blocks, plural, ind) \<Rightarrow>
        print_line ''%u bytes  %u block%s%s''
          [Num sz, Num (word_of_nat blocks), Str (if plural then ascii ''s'' else []), Str (if ind then ascii '' + indirect'' else [])]
          (console_write (replicate pad 0x20) (print ''  %s'' [Str name] k)))"

definition print_files :: "('d, 'z) loader_scheme kernel \<Rightarrow> ('d, 'z) loader_scheme kernel" where
  "print_files k =
     (case fs_list (volume (ext k)) of
        Not_Mounted \<Rightarrow> print_line (''no filesystem mounted - try '' @ [CHR 0x27] @ ''format'' @ [CHR 0x27]) [] k
      | Empty_Listing \<Rightarrow> print_line ''  (empty)'' [] k
      | Rows rows \<Rightarrow> fold print_file rows k)"

section \<open>Lines\<close>

text \<open>What the machine and the build fix: ports, addresses, the embedded program, frame layout and stack pointer.\<close>

record ('d, 'v) machine =
  disk_io :: "'d ports"
  vga_io :: "'v ports"
  syms :: symbols
  prog_blob :: "u8 list"
  frame_pad :: nat
  esp_now :: u32

definition exit_callback :: "('d, 'v) machine \<Rightarrow> ('d, 'z) loader_scheme kernel hook" where
  "exit_callback mc = program_hook (a_program_cleanup (syms mc))"

definition execute ::
  "('d, 'v) machine \<Rightarrow> cstring \<Rightarrow> ('d, 'v, 'z) shell_scheme kernel \<Rightarrow> ('d, 'v, 'z) shell_scheme kernel outcome option" where
  "execute mc line k =
     (let this = (\<lambda>c. kstrcmp line (ascii c) = 0);
          starts = (\<lambda>c. kstartswith line (ascii c));
          ret = (\<lambda>k. Some (Returned k))
      in if line = [] then ret k
         else if this ''help'' then ret (command_help k)
         else if this ''about'' then ret (command_about k)
         else if this ''ticks'' then ret (command_ticks k)
         else if this ''ssptest'' then Some (command_ssptest (frame_pad mc) k)
         else if this ''mem'' then ret (command_mem k)
         else if this ''alloc'' then ret (command_alloc k)
         else if this ''heap'' then map_option Returned (command_heap k)
         else if this ''heaptest'' then map_option Returned (command_heaptest k)
         else if this ''tasks'' then ret (print_tasks k)
         else if this ''install'' then ret (command_install (disk_io mc) (prog_blob mc) k)
         else if starts ''run '' then map_option Returned (command_run (disk_io mc) (syms mc) line k)
         else if this ''ls'' then ret (print_files k)
         else if this ''bigfile'' then map_option Returned (command_bigfile (disk_io mc) k)
         else if this ''df'' then ret (command_df k)
         else if this ''format'' then ret (command_format (disk_io mc) k)
         else if starts ''write '' then ret (command_write (disk_io mc) line k)
         else if starts ''cat '' then ret (command_cat (disk_io mc) line k)
         else if starts ''append '' then ret (command_append (disk_io mc) line k)
         else if starts ''append '' then ret (command_append (disk_io mc) line k)
         else if starts ''rm '' then ret (command_rm (disk_io mc) line k)
         else if this ''spin'' then map_option Returned (command_spin (syms mc) k)
         else if starts ''kill '' then Some (command_kill (exit_callback mc) line k)
         else if this ''pipetest'' then map_option Returned (command_pipetest (syms mc) k)
         else if this ''pipestat'' then ret (command_pipestat k)
         else if this ''racetest'' then command_racetest (syms mc) k
         else if this ''locktest'' then command_locktest (syms mc) k
         else if this ''spawn'' then map_option Returned (command_spawn (syms mc) k)
         else if this ''user'' then Some (command_user (syms mc) (esp_now mc) k)
         else if this ''wptest'' then ret (command_wptest (syms mc) k)
         else if this ''clear'' then ret (on_screen (vga_io mc) (terminal_clear (vga_io mc)) k)
         else if this ''echo'' then ret (console_write [10] k)
         else if starts ''echo '' then ret (print_line ''%s'' [Str (drop 5 line)] k)
         else ret (print_line ''unknown command: %s  (try 'help')'' [Str line] k))"

definition set_length :: "u32 \<Rightarrow> ('d, 'v, 'z) shell_scheme kernel \<Rightarrow> ('d, 'v, 'z) shell_scheme kernel" where
  "set_length n k = set_sys (\<lambda>s. s\<lparr>buffer_length := n\<rparr>) k"

definition set_char :: "u32 \<Rightarrow> u8 \<Rightarrow> ('d, 'v, 'z) shell_scheme kernel \<Rightarrow> ('d, 'v, 'z) shell_scheme kernel" where
  "set_char i c k = set_sys (\<lambda>s. s\<lparr>line_buffer := (line_buffer s)[unat i := c]\<rparr>) k"

text \<open>What follows the call of \<open>execute\<close> when it returns.\<close>

definition finish_line :: "('d, 'v, 'z) shell_scheme kernel \<Rightarrow> ('d, 'v, 'z) shell_scheme kernel" where
  "finish_line k = prompt (set_length 0 k)"

definition after_execute ::
  "('d, 'v, 'z) shell_scheme kernel outcome \<Rightarrow> ('d, 'v, 'z) shell_scheme kernel outcome" where
  "after_execute r = (case r of Returned k \<Rightarrow> Returned (finish_line k) | _ \<Rightarrow> r)"

definition shell_input ::
  "('d, 'v) machine \<Rightarrow> u8 \<Rightarrow> ('d, 'v, 'z) shell_scheme kernel \<Rightarrow> ('d, 'v, 'z) shell_scheme kernel outcome option" where
  "shell_input mc c k =
     (if c = 10
      then
        let k1 = set_char (buffer_length (ext k)) 0 (console_write [10] k)
        in map_option after_execute (execute mc (takeWhile (\<lambda>c. c \<noteq> 0) (line_buffer (ext k1))) k1)
      else if c = 8
      then
        Some (Returned
          (if buffer_length (ext k) > 0
           then on_screen (vga_io mc) (terminal_backspace (vga_io mc)) (set_length (buffer_length (ext k) - 1) k)
           else k))
      else if buffer_length (ext k) < word_of_nat SHELL_BUFFER_SIZE - 1
      then Some (Returned (console_write [c] (set_length (buffer_length (ext k) + 1) (set_char (buffer_length (ext k)) c k))))
      else Some (Returned k))"

definition shell_init :: "('d, 'v, 'z) shell_scheme kernel \<Rightarrow> ('d, 'v, 'z) shell_scheme kernel" where
  "shell_init k = prompt (set_length 0 k)"

end
