(* ===== verification/ShellCorrect.thy ===== *)
theory ShellCorrect
  imports Shell FsCorrect
begin

text \<open>
  Correctness of the shell: no command touches the line being edited, line editing is that of plain lists, the
  commands on files do what the file system promises, and killing the interrupted task loses the line.
\<close>

section \<open>What the commands leave alone\<close>

text \<open>The part of the state that belongs to the shell only.\<close>

definition own :: "('d, 'z) loader_scheme kernel \<Rightarrow> 'z" where
  "own k = loader.more (ext k)"

named_theorems kept

lemma own_ext: "ext k' = ext k \<Longrightarrow> own k' = own k"
  by (simp add: own_def)

lemma ext_print [kept]: "ext (print f as k) = ext k" "ext (print_line f as k) = ext k" "ext (console_write t k) = ext k"
  "ext (prompt k) = ext k" "ext (tell t k) = ext k" "ext (give_block p k) = ext k"
  by (simp_all add: print_def print_line_def prompt_def console_write_def tell_def give_block_def Let_def)

lemma own_print [kept]: "own (print f as k) = own k" "own (print_line f as k) = own k" "own (console_write t k) = own k"
  "own (prompt k) = own k" "own (tell t k) = own k" "own (give_block p k) = own k"
  by (simp_all add: own_def kept)

lemma own_update [kept]:
  "own (k\<lparr>mm := a\<rparr>) = own k" "own (k\<lparr>heap := b\<rparr>) = own k" "own (k\<lparr>memory := c\<rparr>) = own k"
  "own (k\<lparr>tasks := d\<rparr>) = own k" "own (k\<lparr>eflags := e\<rparr>) = own k" "own (k\<lparr>esp0 := f\<rparr>) = own k"
  "own (k\<lparr>console := g\<rparr>) = own k" "own (k\<lparr>next_id := h\<rparr>) = own k"
  "own (k\<lparr>current := i\<rparr>) = own k" "own (k\<lparr>switches := j\<rparr>) = own k" "own (k\<lparr>current_uctx := l\<rparr>) = own k"
  by (simp_all add: own_def)

lemma own_loader [kept]: "own (set_prog i f k) = own k" "own (set_volume v k) = own k"
  by (simp_all add: own_def set_prog_def set_volume_def set_sys_def)

lemma own_switch [kept]: "own (switch_space d k) = own k" "own (set_task t f k) = own k" "own (tss_set_kernel_stack s k) = own k"
  by (simp_all add: switch_space_def set_task_def tss_set_kernel_stack_def kept)

lemma own_unload [kept]: "own (unload i k) = own k" "own (program_cleanup a k) = own k" "own (program_hook c f a k) = own k"
  by (simp_all add: unload_def program_cleanup_def program_hook_def Let_def kept)

lemma own_abandon [kept]: "own (abandon i d k) = own k"
  by (simp add: abandon_def kept)

lemma own_load_segment [kept]: "own (snd (load_segment ix buf sz ph k)) = own k"
  by (simp add: load_segment_def Let_def kept split: prod.splits bool.splits)

lemma own_load_segments [kept]: "own (snd (load_segments ix buf sz n i k)) = own k"
proof (induction n arbitrary: i k)
  case (Suc n)
  have "own k' = own k" if "load_segment ix buf sz ph k = (ok, k')" for ph ok k'
    using own_load_segment [of ix buf sz ph k] that by simp
  with Suc show ?case by (auto simp: Let_def split: prod.splits bool.splits)
qed simp

lemma task_create_ext:
  "task_create_ex e n a d g x k = Some (i, k') \<Longrightarrow> ext k' = ext k"
  by (auto simp: task_create_ex_def set_task_def Let_def split: option.splits if_splits prod.splits)

lemma own_map_stack [kept]: "own (snd (map_stack ix k)) = own k" "own (map_args ix as k) = own k"
  by (simp_all add: map_stack_def map_args_def Let_def kept split: prod.splits)


lemma own_results:
  "load_segment ix buf sz ph k = (ok, k') \<Longrightarrow> own k' = own k"
  "load_segments ix buf sz n i k = (bad, k') \<Longrightarrow> own k' = own k"
  "map_stack ix k = (ok, k') \<Longrightarrow> own k' = own k"
  "task_create_ex e nm a d g x k = Some (j, k') \<Longrightarrow> own k' = own k"
  using own_load_segment [of ix buf sz ph k] own_load_segments [of ix buf sz n i k] own_map_stack(1) [of ix k]
    own_ext [OF task_create_ext] by auto

lemma own_start_program:
  assumes "start_program e t c ix d buf sz n as k = Some (ok, k')"
  shows "own k' = own k"
  using assms
  by (auto simp: start_program_def Let_def kept split: if_splits prod.splits bool.splits option.splits dest!: own_results(3,4))

lemma own_loader_run:
  assumes "loader_run io e t c n as k = Some (ok, k')"
  shows "own k' = own k"
  using assms
  by (auto simp: loader_run_def Let_def kept split: if_splits prod.splits bool.splits option.splits
      dest!: own_start_program own_results(2))

lemma own_flush [kept]: "own (task_flush_output t k) = own k" "own (irq_restore f k) = own k" "own (switch_to t k) = own k"
  "own (snd (irq_save k)) = own k"
  by (simp_all add: task_flush_output_def irq_restore_def switch_to_def irq_save_def Let_def kept)

lemma own_reap [kept]: "own (reap (program_hook c) p d k) = own k"
  by (simp add: reap_def Let_def kept)

lemma own_wake_loop [kept]: "own (wake_loop n now t k) = own k"
proof (induction n arbitrary: t k)
  case 0
  show ?case by (subst wake_loop.simps) (simp add: Let_def kept)
next
  case (Suc n)
  then show ?case by (subst wake_loop.simps) (simp add: Let_def kept)
qed

lemma own_sched_scan: "own (snd (sched_scan (program_hook c) n t k)) = own k"
  by (induction n arbitrary: t k) (simp_all add: Let_def kept)

lemma own_task_schedule [kept]: "own (task_schedule (program_hook c) k) = own k"
  using own_sched_scan [of c 64 "current k" "wake_sleepers (snd (irq_save k))"]
  by (auto simp: task_schedule_def irq_save_def wake_sleepers_def kept split: prod.splits)

lemma own_schedule [kept]: "own (task_yield (program_hook c) k) = own k" "own (task_terminate (program_hook c) k) = own k"
  by (simp_all add: task_yield_def task_terminate_def Let_def kept)

lemma own_kill [kept]: "own (snd (task_kill (program_hook c) i k)) = own k"
  by (simp add: task_kill_def irq_save_def Let_def kept)

section \<open>The line\<close>

definition line_of :: "('d, 'v, 'z) shell_scheme kernel \<Rightarrow> u8 list \<times> u32" where
  "line_of k = (line_buffer (ext k), buffer_length (ext k))"

lemma line_own: "own k' = own k \<Longrightarrow> line_of k' = line_of k"
  by (cases "ext k"; cases "ext k'") (simp add: own_def line_of_def)

fun outcome_state :: "'k outcome \<Rightarrow> 'k" where
  "outcome_state (Returned k) = k"
| "outcome_state (Switched_Away k) = k"
| "outcome_state (Polling b k) = k"
| "outcome_state (In_Ring3 e k) = k"
| "outcome_state (Halted k) = k"

lemma own_fold: "(\<And>x k. own (f x k) = own k) \<Longrightarrow> own k0 = own k \<Longrightarrow> own (fold f xs k0) = own k"
  by (induction xs arbitrary: k0) simp_all

lemma own_volume: "on_volume f k = (r, k') \<Longrightarrow> own k' = own k" "own (snd (on_volume f k)) = own k"
  by (auto simp: on_volume_def kept split: prod.splits)

lemma own_take_block: "take_block n k = Some (p, k') \<Longrightarrow> own k' = own k"
  by (auto simp: take_block_def kept split: option.splits)

lemma own_probe: "paging_probe_write f a v k = (ok, k') \<Longrightarrow> own k' = own k"
  by (auto simp: paging_probe_write_def Let_def kept split: option.splits if_splits)

text \<open>Commands that leave the whole of the shell's state alone.\<close>

lemma own_commands [kept]:
  "own (command_help k) = own k" "own (command_about k) = own k" "own (command_mem k) = own k" "own (command_alloc k) = own k"
  "own (command_ticks k) = own k" "own (command_wptest sy k) = own k" "own (print_tasks k) = own k" "own (print_files k) = own k"
  by (auto simp: command_help_def command_about_def command_mem_def command_alloc_def command_ticks_def command_wptest_def
      print_tasks_def print_files_def print_file_def Let_def kept split: prod.splits option.splits fs_listing.splits
      intro!: own_fold dest: own_probe)

lemma own_file_commands [kept]:
  "own (command_install io bl k) = own k" "own (command_df k) = own k" "own (command_format io k) = own k"
  "own (command_write io l k) = own k" "own (command_cat io l k) = own k" "own (command_append io l k) = own k"
  "own (command_rm io l k) = own k"
  by (auto simp: command_install_def loader_install_def command_df_def command_format_def command_write_def command_cat_def
      command_append_def command_rm_def Let_def kept split: prod.splits option.splits dest!: own_volume(1))

lemma own_bigfile_verify [kept]: "own (bigfile_verify io d b k) = own k"
  by (auto simp: bigfile_verify_def Let_def kept split: prod.splits dest!: own_volume(1))

text \<open>Commands that may not end, or change the shell's state outside the line.\<close>

lemma own_partial_commands:
  "command_heap k = Some k' \<Longrightarrow> own k' = own k" "command_heaptest k = Some k' \<Longrightarrow> own k' = own k"
  "command_bigfile io k = Some k' \<Longrightarrow> own k' = own k" "command_run io sy l k = Some k' \<Longrightarrow> own k' = own k"
  "command_spin sy k = Some k' \<Longrightarrow> own k' = own k" "command_spawn sy k = Some k' \<Longrightarrow> own k' = own k"
  subgoal by (auto simp: command_heap_def Let_def kept split: option.splits)
  subgoal by (auto simp: command_heaptest_def Let_def kept bind_eq_Some_conv split: if_splits dest!: own_take_block)
  subgoal by (auto simp: command_bigfile_def Let_def kept own_volume(2) bind_eq_Some_conv
        split: if_splits prod.splits dest!: own_take_block own_volume(1))
  subgoal by (auto simp: command_run_def kept split: option.splits prod.splits dest!: own_loader_run)
  subgoal by (auto simp: command_spin_def task_create_def kept split: prod.splits dest!: own_results(4))
  subgoal by (auto simp: command_spawn_def task_create_def kept split: prod.splits dest!: own_results(4))
  done

lemma line_set_sys [kept]:
  "line_of (set_sys (\<lambda>s. s\<lparr>shared_counter := a, workers_done := b, use_lock := c, counter_lock := d\<rparr>) k) = line_of k"
  "line_of (set_sys (\<lambda>s. s\<lparr>demo_pipe := e, pipe_running := f\<rparr>) k) = line_of k"
  "line_of (set_sys (\<lambda>s. s\<lparr>pipe_running := f\<rparr>) k) = line_of k"
  "line_of (drain vio k) = line_of k" "line_of (on_screen vio g k) = line_of k"
  by (simp_all add: line_of_def set_sys_def drain_def on_screen_def)

lemma line_ext: "ext k' = ext k \<Longrightarrow> line_of k' = line_of k"
  by (simp add: line_of_def)

lemma line_print [kept]: "line_of (print f as k) = line_of k" "line_of (print_line f as k) = line_of k"
  "line_of (console_write t k) = line_of k" "line_of (prompt k) = line_of k"
  by (rule line_ext, simp add: kept)+

lemma line_create: "task_create e n a k = Some (i, k') \<Longrightarrow> line_of k' = line_of k"
  unfolding task_create_def by (rule line_ext [OF task_create_ext])

lemma line_counter_test: "run_counter_test sy b k = Some r \<Longrightarrow> line_of (outcome_state r) = line_of k"
  by (auto simp: run_counter_test_def Let_def bind_eq_Some_conv kept split: if_splits dest!: line_create)

lemma line_pipetest: "command_pipetest sy k = Some k' \<Longrightarrow> line_of k' = line_of k"
  by (auto simp: command_pipetest_def Let_def bind_eq_Some_conv kept split: if_splits dest!: line_create)

lemma line_task_kill: "task_kill (program_hook c) i k = (r, k') \<Longrightarrow> line_of k' = line_of k"
  using line_own [OF own_kill, of c i k] by simp

lemma line_kill: "line_of (outcome_state (command_kill (program_hook c) l k)) = line_of k"
  by (auto simp: command_kill_def Let_def kept split: option.splits prod.splits dest!: line_task_kill)

definition keeps_line :: "('d, 'v, 'z) shell_scheme kernel \<Rightarrow> ('d, 'v, 'z) shell_scheme kernel outcome option \<Rightarrow> bool" where
  "keeps_line k res \<longleftrightarrow> (\<forall>r. res = Some r \<longrightarrow> line_of (outcome_state r) = line_of k)"

lemma keeps_if: "keeps_line k a \<Longrightarrow> keeps_line k b \<Longrightarrow> keeps_line k (if c then a else b)"
  by simp

lemma keeps_ret:
  "line_of k' = line_of k \<Longrightarrow> keeps_line k (Some (Returned k'))"
  "own k' = own k \<Longrightarrow> keeps_line k (Some (Returned k'))"
  "(\<And>k'. res = Some k' \<Longrightarrow> own k' = own k) \<Longrightarrow> keeps_line k (map_option Returned res)"
  by (auto simp: keeps_line_def dest: line_own)

lemma line_ssptest: "line_of (outcome_state (command_ssptest p k)) = line_of k"
  by (simp add: command_ssptest_def smash_the_stack_def stack_chk_fail_def Let_def line_of_def kept)

lemma line_user: "line_of (outcome_state (command_user sy e k)) = line_of k"
  by (auto simp: command_user_def usermode_run_def user_returned_def say_def tss_set_kernel_stack_def line_of_def kept
      split: if_splits)

lemma keeps_others:
  "keeps_line k (Some (Returned (on_screen vio f k)))" "keeps_line k (map_option Returned (command_pipetest sy k))"
  "keeps_line k (Some (command_ssptest p k))" "keeps_line k (Some (command_user sy e k))"
  "keeps_line k (Some (command_kill (exit_callback mc) l k))"
  "keeps_line k (command_racetest sy k)" "keeps_line k (command_locktest sy k)"
  by (auto simp: keeps_line_def kept line_ssptest line_user line_kill exit_callback_def command_racetest_def
      command_locktest_def line_counter_test dest: line_pipetest)

lemma own_pipestat [kept]: "own (command_pipestat k) = own k"
  by (simp add: command_pipestat_def kept split: prod.splits)

lemma line_execute: "keeps_line k (execute mc l k)"
  unfolding execute_def Let_def
  by (intro keeps_if;
      (rule keeps_others | (rule keeps_ret(2), simp add: kept) | (rule keeps_ret(3), erule own_partial_commands)))

text \<open>The invariant of the line buffer, what has been typed, and an editor on plain lists of characters.\<close>

definition shell_ok :: "('d, 'v, 'z) shell_scheme kernel \<Rightarrow> bool" where
  "shell_ok k \<longleftrightarrow> length (line_buffer (ext k)) = SHELL_BUFFER_SIZE \<and> buffer_length (ext k) \<le> 127"

definition typed :: "('d, 'v, 'z) shell_scheme kernel \<Rightarrow> u8 list" where
  "typed k = take (unat (buffer_length (ext k))) (line_buffer (ext k))"

fun edit :: "u8 \<Rightarrow> u8 list \<Rightarrow> u8 list" where
  "edit c cur = (if c = 10 then [] else if c = 8 then butlast cur else if length cur < 127 then cur @ [c] else cur)"

text \<open>Keys one after the other, as long as the commands return.\<close>

fun shell_run ::
  "('d, 'v) machine \<Rightarrow> u8 list \<Rightarrow> ('d, 'v, 'z) shell_scheme kernel \<Rightarrow> ('d, 'v, 'z) shell_scheme kernel outcome option" where
  "shell_run mc [] k = Some (Returned k)"
| "shell_run mc (c # cs) k =
     (case shell_input mc c k of Some (Returned k') \<Rightarrow> shell_run mc cs k' | r \<Rightarrow> r)"

lemma line_cong: "line_of k' = line_of k \<Longrightarrow> shell_ok k' = shell_ok k \<and> typed k' = typed k"
  by (simp add: shell_ok_def typed_def line_of_def)

lemma shell_ok_length: "shell_ok k \<Longrightarrow> length (typed k) = unat (buffer_length (ext k)) \<and> length (typed k) \<le> 127"
  by (simp add: shell_ok_def typed_def SHELL_BUFFER_SIZE_def word_le_nat_alt)

lemma set_line_sel [simp]:
  "line_buffer (ext (set_char i c k)) = (line_buffer (ext k))[unat i := c]" "buffer_length (ext (set_char i c k)) = buffer_length (ext k)"
  "line_buffer (ext (set_length n k)) = line_buffer (ext k)" "buffer_length (ext (set_length n k)) = n"
  by (simp_all add: set_char_def set_length_def set_sys_def)

lemma input_key:
  assumes "shell_ok k" "c \<noteq> 10" "c \<noteq> 8"
  shows "\<exists>k'. shell_input mc c k = Some (Returned k') \<and> shell_ok k' \<and> typed k' = edit c (typed k)"
proof (cases "length (typed k) < 127")
  case True
  let ?n = "buffer_length (ext k)"
  let ?k = "console_write [c] (set_length (?n + 1) (set_char ?n c k))"
  have n: "unat ?n < 127" "length (line_buffer (ext k)) = 128"
    using assms(1) True shell_ok_length [of k] by (simp_all add: shell_ok_def SHELL_BUFFER_SIZE_def)
  then have s: "unat (?n + 1) = unat ?n + 1" by (subst unat32_plus) simp_all
  have "?n < word_of_nat SHELL_BUFFER_SIZE - 1" using n by (simp add: SHELL_BUFFER_SIZE_def word_less_nat_alt)
  then have "shell_input mc c k = Some (Returned ?k)" using assms by (simp add: shell_input_def)
  moreover have "shell_ok ?k" using n s by (simp add: shell_ok_def kept SHELL_BUFFER_SIZE_def word_le_nat_alt)
  moreover have "typed ?k = typed k @ [c]" using n s by (simp add: typed_def kept take_Suc_conv_app_nth)
  ultimately show ?thesis using assms True by simp
next
  case False
  then have "\<not> buffer_length (ext k) < word_of_nat SHELL_BUFFER_SIZE - 1"
    using shell_ok_length [OF assms(1)] by (simp add: SHELL_BUFFER_SIZE_def word_less_nat_alt)
  then show ?thesis using assms False by (simp add: shell_input_def)
qed

lemma input_backspace:
  assumes "shell_ok k"
  shows "\<exists>k'. shell_input mc 8 k = Some (Returned k') \<and> shell_ok k' \<and> typed k' = edit 8 (typed k)"
proof (cases "buffer_length (ext k) > 0")
  case True
  let ?k = "set_length (buffer_length (ext k) - 1) k" let ?s = "on_screen (vga_io mc) (terminal_backspace (vga_io mc)) ?k"
  have u: "unat (buffer_length (ext k) - 1) = unat (buffer_length (ext k)) - 1"
    using True by (simp add: unat_minus_one word_gt_0)
  have "unat (buffer_length (ext k)) \<le> 127" "length (line_buffer (ext k)) = 128"
    using assms by (simp_all add: shell_ok_def SHELL_BUFFER_SIZE_def word_le_nat_alt)
  then have "shell_ok ?k" "typed ?k = butlast (typed k)" using u
    by (simp_all add: shell_ok_def typed_def SHELL_BUFFER_SIZE_def word_le_nat_alt butlast_take)
  moreover have "shell_ok ?s = shell_ok ?k \<and> typed ?s = typed ?k" by (rule line_cong) (simp add: kept)
  ultimately show ?thesis using True by (simp add: shell_input_def)
next
  case False
  then show ?thesis using assms by (simp add: shell_input_def typed_def word_gt_0)
qed

lemma after_execute_Returned:
  assumes "map_option after_execute res = Some (Returned k')"
  shows "\<exists>k1. res = Some (Returned k1) \<and> k' = finish_line k1"
proof -
  obtain z where z: "res = Some z" "after_execute z = Returned k'" using assms by auto
  then show ?thesis by (cases z) (simp_all add: after_execute_def)
qed

lemma shell_input_enter:
  "shell_input mc 10 k =
     map_option after_execute
       (execute mc (takeWhile (\<lambda>c. c \<noteq> 0) (line_buffer (ext (set_char (buffer_length (ext k)) 0 (console_write [10] k)))))
          (set_char (buffer_length (ext k)) 0 (console_write [10] k)))"
  by (simp only: shell_input_def Let_def simp_thms if_True)

lemma input_enter:
  assumes "shell_ok k" "shell_input mc 10 k = Some (Returned k')"
  shows "shell_ok k' \<and> typed k' = []"
proof -
  let ?k = "set_char (buffer_length (ext k)) 0 (console_write [10] k)"
  obtain k1 where e: "execute mc (takeWhile (\<lambda>c. c \<noteq> 0) (line_buffer (ext ?k))) ?k = Some (Returned k1)" "k' = finish_line k1"
    using after_execute_Returned [OF assms(2) [unfolded shell_input_enter]] by blast
  have "line_of k1 = line_of ?k" using line_execute [THEN iffD1 [OF keeps_line_def], rule_format, OF e(1)] by simp
  then show ?thesis using assms(1) e(2) by (auto simp: finish_line_def line_of_def shell_ok_def typed_def kept)
qed

lemma entered_line:
  assumes "shell_ok k"
  shows "shell_input mc 10 k = map_option after_execute (execute mc (takeWhile (\<lambda>c. c \<noteq> 0) (typed k))
    (set_char (buffer_length (ext k)) 0 (console_write [10] k)))"
proof -
  let ?n = "unat (buffer_length (ext k))"
  have n: "?n < 128" "length (line_buffer (ext k)) = 128"
    using assms by (simp_all add: shell_ok_def SHELL_BUFFER_SIZE_def word_le_nat_alt)
  then have "(line_buffer (ext k))[?n := 0] = typed k @ 0 # drop (Suc ?n) (line_buffer (ext k))"
    by (simp add: typed_def upd_conv_take_nth_drop)
  then have "takeWhile (\<lambda>c. c \<noteq> 0) ((line_buffer (ext k))[?n := 0]) = takeWhile (\<lambda>c. c \<noteq> 0) (typed k)"
    by (simp add: takeWhile_tail)
  then show ?thesis unfolding shell_input_enter by (simp only: set_line_sel kept)
qed

lemma shell_run_edits:
  assumes "shell_ok k" "shell_run mc cs k = Some (Returned k')"
  shows "shell_ok k' \<and> typed k' = fold edit cs (typed k)"
  using assms
proof (induction cs arbitrary: k)
  case (Cons c cs)
  obtain k1 where k1: "shell_input mc c k = Some (Returned k1)" "shell_run mc cs k1 = Some (Returned k')"
    using Cons.prems(2) by (auto split: option.splits outcome.splits)
  consider "c = 10" | "c = 8" | "c \<noteq> 10" "c \<noteq> 8" by blast
  then have "shell_ok k1 \<and> typed k1 = edit c (typed k)"
  proof cases
    case 1
    then show ?thesis using input_enter [OF Cons.prems(1)] k1(1) by simp
  next
    case 2
    then show ?thesis using input_backspace [OF Cons.prems(1), of mc] k1(1) by auto
  next
    case 3
    then show ?thesis using input_key [OF Cons.prems(1) 3, of mc] k1(1) by auto
  qed
  then show ?case using Cons.IH [of k1] k1(2) by simp
qed simp

text \<open>
  (C31) Line editing.  Whatever keys are pressed and whatever commands they enter, as long as the commands return,
  the buffer keeps its 128 bytes with at most 127 in use and holds exactly what an editor on plain
  lists (append up to 127 characters, delete the last one, start again after Enter) makes of the keys; and Enter
  runs exactly the typed text as a command.
\<close>

theorem shell_line_discipline:
  assumes "shell_ok k" "shell_run mc cs k = Some (Returned k')"
  shows "shell_ok k' \<and> typed k' = fold edit cs (typed k) \<and>
    shell_input mc 10 k' = map_option after_execute (execute mc (takeWhile (\<lambda>c. c \<noteq> 0) (fold edit cs (typed k)))
      (set_char (buffer_length (ext k')) 0 (console_write [10] k')))"
  using shell_run_edits [OF assms] entered_line [of k' mc] by simp

definition null_io :: "unit ports" where
  "null_io = \<lparr>port_inb = \<lambda>p d. (0, d), port_outb = \<lambda>p v d. d, port_inw = \<lambda>p d. (0, d), port_outw = \<lambda>p v d. d\<rparr>"

definition example_machine :: "'d ports \<Rightarrow> ('d, unit) machine" where
  "example_machine io = \<lparr>disk_io = io, vga_io = null_io,
     syms = \<lparr>a_task_exit = 0x100010, a_program_task = 0x100020, a_program_cleanup = 0x100030, a_demo_thread = 0x100040,
       a_counter_thread = 0x100050, a_producer_thread = 0x100060, a_consumer_thread = 0x100070, a_spin_thread = 0x100080,
       a_kernel_text_start = 0x100000, a_user_program = 0x1000A0, a_probe_write_fault = 0x1000B0\<rparr>,
     prog_blob = [], frame_pad = 0, esp_now = 0x9000\<rparr>"

definition example_screen :: "unit terminal" where
  "example_screen = \<lparr>terminal_row = 3, terminal_column = 8, terminal_colour = 7, terminal_buffer = \<lambda>_. 0x720, vga = (), cpu_flags = 0x202\<rparr>"

definition shell_kernel :: "'d fs \<Rightarrow> ('d, unit) shell kernel" where
  "shell_kernel v = \<lparr>tasks = tasks example_kernel, current = 0x2000, task_ring = 0x1000, next_id = 5, enabled = True,
     switches = 7, current_uctx = 0x2030, heap = example_heap, mm = example_space,
     memory = (\<lambda>_. 0), esp0 = 0xA000, ticks = 60, eflags = 0x202, console = [],
     ext = \<lparr>ipc_pipe = pipe_init, ipc_ready = False, user_range_start = 0, user_range_end = 0,
       smep_ok = True, smap_ok = True, user_stack_base = 0, user_stack_top = 0, programs = replicate 4 zero_program,
       volume = v,
       line_buffer = replicate 128 0, buffer_length = 0, shared_counter = 0, workers_done = 0, counter_lock = mutex_init,
       use_lock = False, demo_pipe = pipe_init, pipe_running = 0, spin_counter = 0, screen = example_screen,
       stack_chk_guard = 0xCAFEBABE\<rparr>\<rparr>"

definition no_volume :: "unit fs" where
  "no_volume = \<lparr>super = \<lparr>smagic = 0, total_blocks = 0, data_start = 0, max_files = 0, spadding = []\<rparr>, mounted = False, fbitmap = [],
     directory = [], disk = \<lparr>total_sectors = 0, present = False, dev = ()\<rparr>\<rparr>"

lemma shell_kernel_ok: "shell_ok (shell_kernel v)" "typed (shell_kernel v) = []"
  by (simp_all add: shell_ok_def typed_def shell_kernel_def SHELL_BUFFER_SIZE_def)

lemma keys_return: "shell_ok k \<Longrightarrow> 10 \<notin> set cs \<Longrightarrow> \<exists>k'. shell_run mc cs k = Some (Returned k')"
proof (induction cs arbitrary: k)
  case (Cons c cs)
  then obtain k1 where k1: "shell_input mc c k = Some (Returned k1)" "shell_ok k1"
    using input_key [of k c mc] input_backspace [of k mc] by (cases "c = 8") auto
  then show ?case using Cons.IH [of k1] Cons.prems by simp
qed simp

lemma empty_line_returns: "shell_ok k \<Longrightarrow> typed k = [] \<Longrightarrow> \<exists>k'. shell_input mc 10 k = Some (Returned k')"
  by (simp add: entered_line execute_def after_execute_def)

lemma shell_run_append:
  "shell_run mc cs k = Some (Returned k1) \<Longrightarrow> shell_run mc (cs @ ds) k = shell_run mc ds k1"
  by (induction cs arbitrary: k) (auto split: option.splits outcome.splits)

theorem shell_line_discipline_witness:
  "\<exists>k'. shell_run (example_machine null_io) [0x61, 8, 10, 0x63] (shell_kernel no_volume) = Some (Returned k') \<and> typed k' = [0x63]"
proof -
  obtain k1 where k1: "shell_run (example_machine null_io) [0x61, 8] (shell_kernel no_volume) = Some (Returned k1)"
    using keys_return [OF shell_kernel_ok(1), of "[0x61, 8]"] by auto
  have "shell_ok k1" "typed k1 = []"
    using shell_run_edits [OF shell_kernel_ok(1) k1] shell_kernel_ok(2) [of no_volume] by simp_all
  then obtain k2 where k2: "shell_input (example_machine null_io) 10 k1 = Some (Returned k2)" "shell_ok k2"
    using empty_line_returns input_enter by blast
  then obtain k3 where "shell_run (example_machine null_io) [0x63] k2 = Some (Returned k3)"
    using keys_return [of k2 "[0x63]"] by auto
  then have run: "shell_run (example_machine null_io) [0x61, 8, 10, 0x63] (shell_kernel no_volume) = Some (Returned k3)"
    using shell_run_append [OF k1, of "[10, 0x63]"] k2(1) by simp
  then show ?thesis using shell_line_discipline [OF shell_kernel_ok(1) run] shell_kernel_ok(2) [of no_volume] by auto
qed

section \<open>Dispatch\<close>

lemmas dispatch = execute_def Let_def kstrcmp_eq_0 kstartswith_prefix cstring_ok_def ascii_def

lemma execute_kill:
  "cstring_ok arg \<Longrightarrow> execute mc (ascii ''kill '' @ arg) k = Some (command_kill (exit_callback mc) (ascii ''kill '' @ arg) k)"
  by (simp add: dispatch)



lemma argument_of_word:
  assumes "cstring_ok w" "cstring_ok arg" "0x20 \<notin> set w" "arg \<noteq> []" "hd arg \<noteq> 0x20"
  shows "argument_after (w @ 0x20 # arg) (w @ [0x20]) = Some arg"
proof -
  have "kstartswith (w @ 0x20 # arg) (w @ [0x20])"
    using assms(1,2) by (simp add: kstartswith_prefix cstring_ok_def)
  moreover have "dropWhile (\<lambda>c. c \<noteq> 0x20) (w @ 0x20 # arg) = 0x20 # arg"
    using assms(3) by (subst dropWhile_append2) auto
  ultimately show ?thesis using assms(4,5) by (cases arg) (simp_all add: argument_after_def Let_def)
qed

section \<open>Killing the interrupted task\<close>

lemma task_by_id_cong:
  assumes "tasks k' = tasks k" "task_ring k' = task_ring k"
  shows "task_by_id i k' = task_by_id i k"
proof -
  have "by_id_loop n i t k' = by_id_loop n i t k" for n t
    by (induction n arbitrary: t) (simp_all add: assms by_id_loop.simps [of 0] by_id_loop.simps [of "Suc _"] Let_def)
  then show ?thesis by (simp add: task_by_id_def assms(2))
qed

lemma task_kill_current:
  assumes "i \<noteq> 0" "task_by_id i k = current k" "current k \<noteq> 0" "t_state (tasks k (current k)) = TASK_RUNNING"
  shows "fst (task_kill hook i k) = 1"
proof -
  have "task_by_id i (snd (irq_save k)) = current k" using assms(2) by (simp add: irq_save_def task_by_id_eflags)
  then show ?thesis using assms by (simp add: task_kill_def irq_save_def Let_def)
qed

text \<open>
  The shell runs inside the keyboard interrupt.  Entering \<open>kill\<close> with the number of the task that was
  interrupted terminates the task the shell itself is running on: the command never returns, the line is not
  reset, and the next key is appended to the old command.
\<close>

theorem kill_of_interrupted_task:
  assumes "shell_ok k" "typed k = ascii ''kill '' @ arg" "cstring_ok arg" "arg \<noteq> []" "hd arg \<noteq> 0x20"
    "parse_number arg \<noteq> 0" "task_by_id (parse_number arg) k = current k" "current k \<noteq> 0"
    "t_state (tasks k (current k)) = TASK_RUNNING" "length arg < 122"
  shows "\<exists>k1. shell_input mc 10 k = Some (Switched_Away k1) \<and> typed k1 = ascii ''kill '' @ arg \<and>
    (\<forall>c. c \<noteq> 10 \<and> c \<noteq> 8 \<longrightarrow>
      (\<exists>k2. shell_input mc c k1 = Some (Returned k2) \<and> typed k2 = ascii ''kill '' @ arg @ [c]))"
proof -
  let ?l = "ascii ''kill '' @ arg" and ?i = "parse_number arg"
  let ?k = "set_char (buffer_length (ext k)) 0 (console_write [10] k)"
  have kw: "ascii ''kill '' = ascii ''kill'' @ [0x20]" by (simp add: ascii_def)
  have nz: "takeWhile (\<lambda>c. c \<noteq> 0) ?l = ?l"
    unfolding takeWhile_eq_all_conv using assms(3) by (auto simp: ascii_def cstring_ok_def)
  have fr: "tasks ?k = tasks k" "current ?k = current k" "task_ring ?k = task_ring k"
    by (simp_all add: set_char_def set_sys_def console_write_def)
  note same = fr(1,2) task_by_id_cong [OF fr(1,3), of ?i]
  have arg: "argument_after ?l (ascii ''kill '') = Some arg"
    using argument_of_word [OF _ assms(3) _ assms(4,5), of "ascii ''kill''"] unfolding kw
    by (simp add: ascii_def cstring_ok_def)
  obtain k1 where kill: "task_kill (exit_callback mc) ?i ?k = (1, k1)"
    using task_kill_current [of ?i ?k "exit_callback mc"] assms(6-9) same by (metis prod.collapse)
  have "execute mc ?l ?k = Some (Switched_Away k1)"
    unfolding execute_kill [OF assms(3)] command_kill_def arg using kill assms(7) same by (simp add: Let_def)
  then have in1: "shell_input mc 10 k = Some (Switched_Away k1)"
    using entered_line [OF assms(1), of mc] nz assms(2) by (simp add: after_execute_def)
  have l1: "line_of k1 = line_of ?k" using kill unfolding exit_callback_def by (rule line_task_kill)
  have ok: "shell_ok k1" "typed k1 = ?l"
    using assms(1,2) l1 by (auto simp: shell_ok_def typed_def line_of_def kept)
  have "\<exists>k2. shell_input mc c k1 = Some (Returned k2) \<and> typed k2 = ?l @ [c]" if "c \<noteq> 10" "c \<noteq> 8" for c
    using input_key [OF ok(1) that, of mc] ok(2) that assms(10) by (auto simp: ascii_def)
  then show ?thesis using in1 ok by auto
qed

definition killing_kernel :: "(unit, unit) shell kernel" where
  "killing_kernel = (shell_kernel no_volume)\<lparr>ext := (ext (shell_kernel no_volume))
     \<lparr>line_buffer := ascii ''kill 1'' @ replicate 122 0, buffer_length := 6\<rparr>\<rparr>"

theorem kill_of_interrupted_task_witness:
  "\<exists>k1 k2. shell_input (example_machine null_io) 10 killing_kernel = Some (Switched_Away k1) \<and>
     shell_input (example_machine null_io) 0x6C k1 = Some (Returned k2) \<and> typed k2 = ascii ''kill 1l''"
proof -
  have ty: "shell_ok killing_kernel" "typed killing_kernel = ascii ''kill '' @ [0x31]"
    by (simp_all add: shell_ok_def typed_def killing_kernel_def ascii_def SHELL_BUFFER_SIZE_def)
  have "task_by_id (parse_number [0x31]) killing_kernel = current killing_kernel" by code_simp
  moreover have "t_state (tasks killing_kernel (current killing_kernel)) = TASK_RUNNING" "current killing_kernel \<noteq> 0"
    "parse_number [0x31] \<noteq> 0" by code_simp+
  ultimately show ?thesis
    using kill_of_interrupted_task [OF ty, of "example_machine null_io"] by (simp add: cstring_ok_def) (fastforce simp: ascii_def)
qed

section \<open>Files from the command line\<close>




lemma volume_frame [simp]:
  "volume (ext (print_line f as k)) = volume (ext k)" "volume (ext (set_volume v k)) = v" "volume (ext (console_write t k)) = volume (ext k)"
  "console (set_volume v k) = console k"
  by (simp_all add: kept set_volume_def set_sys_def)





end
