(* ===== verification/Race.thy ===== *)
theory Race
  imports ShellCorrect
begin

text \<open>
  The counter test of the shell, \<open>locktest\<close>: two workers that read, yield and write a shared counter inside a
  mutex, under every interleaving of the scheduler.  The proof composes the shell with the scheduler
  and the invariant of the mutex.
\<close>

section \<open>The system of the shell and two workers\<close>

inductive race_step ::
  "('d, 'v, 'z) shell_scheme kernel hook \<Rightarrow> u32 \<Rightarrow> u32 \<Rightarrow>
   ('d, 'v, 'z) shell_scheme kernel \<times> counter_pc \<times> counter_pc \<Rightarrow>
   ('d, 'v, 'z) shell_scheme kernel \<times> counter_pc \<times> counter_pc \<Rightarrow> bool"
  for hook :: "('d, 'v, 'z) shell_scheme kernel hook" and t1 t2 :: u32 where
  first: "current k = t1 \<Longrightarrow> counter_thread hook p1 k = (p1', k') \<Longrightarrow> race_step hook t1 t2 (k, p1, p2) (k', p1', p2)"
| second: "current k = t2 \<Longrightarrow> counter_thread hook p2 k = (p2', k') \<Longrightarrow> race_step hook t1 t2 (k, p1, p2) (k', p1, p2')"
| poll: "current k \<noteq> t1 \<Longrightarrow> current k \<noteq> t2 \<Longrightarrow> race_step hook t1 t2 (k, p1, p2) (task_yield hook k, p1, p2)"
| tick: "race_step hook t1 t2 (k, p1, p2) (task_schedule hook (timer_handler k), p1, p2)"

section \<open>What the operations leave alone\<close>

lemma own_task_block [kept]: "own (task_block (program_hook c) k) = own k" "own (task_unblock t k) = own k"
  "own (task_exit (program_hook c) k) = own k"
  by (simp_all add: task_block_def task_unblock_def task_exit_def kept)

lemma own_timer [kept]: "own (timer_handler k) = own k"
  by (simp add: timer_handler_def own_def)

lemma own_mutex:
  "mutex_lock_step (program_hook c) m k = (got, m', k') \<Longrightarrow> own k' = own k"
  "mutex_unlock m k = (m', k') \<Longrightarrow> own k' = own k"
  by (auto simp: mutex_lock_step_def mutex_unlock_def irq_save_def enqueue_def dequeue_def Let_def kept
      split: prod.splits if_splits)

definition counters :: "('d, 'v, 'z) shell_scheme kernel \<Rightarrow> u32 \<times> u32 \<times> mutex \<times> bool" where
  "counters k = (shared_counter (ext k), workers_done (ext k), counter_lock (ext k), use_lock (ext k))"

lemma counters_own: "own k' = own k \<Longrightarrow> counters k' = counters k"
  by (cases "ext k"; cases "ext k'") (simp add: own_def counters_def)

lemma lock_inv_set_sys: "lock_inv (m, k, T, H) \<Longrightarrow> lock_inv (m, set_sys f k, T, H)"
proof -
  assume "lock_inv (m, k, T, H)"
  then obtain ts q where i: "sched_inv k ts" "lock_ok q m k T H ts" by (auto simp: lock_inv_def)
  have ok: "sched_ok k ts" using i(1) by (simp add: sched_inv_def)
  have "sched_ok (set_sys f k) ts" by (rule sched_ok_cong [OF ok]) (use ok in \<open>auto simp: sched_ok_def set_sys_def\<close>)
  then have "sched_inv (set_sys f k) ts" using i(1) by (simp add: sched_inv_def set_sys_def)
  moreover have "lock_ok q m (set_sys f k) T H ts" using i(2) by (rule lock_ok_cong) (simp_all add: set_sys_def)
  ultimately show ?thesis by (auto simp: lock_inv_def)
qed

context exit_hook
begin

lemma lock_inv_schedule:
  assumes "lock_inv (m, k, T, H)"
  shows "lock_inv (m, task_schedule hook k, T, H)"
  using assms schedule_lock by (auto simp: lock_inv_def sched_inv_def)

lemma lock_inv_exit:
  assumes "lock_inv (m, k, T, H)" "current k \<notin> T \<union> H" "current k \<noteq> task_ring k"
  shows "lock_inv (m, task_exit hook k, T, H)"
proof -
  obtain ts q where i: "sched_inv k ts" "lock_ok q m k T H ts" using assms(1) by (auto simp: lock_inv_def)
  let ?k = "set_task (current k) (\<lambda>x. x\<lparr>t_state := TASK_FINISHED\<rparr>) k"
  have c: "current k \<noteq> 0" using i(1) sched_ok_current by (auto simp: sched_inv_def)
  have "sched_ok ?k ts" using i(1) assms(3) by (intro set_state_ok) (auto simp: sched_inv_def)
  moreover have "lock_ok q m ?k T H ts"
    using i(2) assms(2) unfolding lock_ok_def by (auto intro: wait_list_cong [of k])
  ultimately show ?thesis using schedule_lock c by (simp add: task_exit_def)
qed

lemma ring_wake: "task_ring (wake_loop n now t k) = task_ring k"
proof (induction n arbitrary: t k)
  case 0
  show ?case by (subst wake_loop.simps) (simp add: Let_def set_task_def)
next
  case (Suc n)
  then show ?case by (subst wake_loop.simps) (simp add: Let_def set_task_def)
qed

lemma ring_reap: "task_ring (reap hook p d k) = task_ring k"
  using reap_frame [of p d k] unfolding sched_frame_def by simp

lemma ring_scan: "task_ring (snd (sched_scan hook n t k)) = task_ring k"
  by (induction n arbitrary: t k) (simp_all add: Let_def ring_reap)

lemma ring_switch: "task_ring (switch_to t k) = task_ring k"
  by (simp add: switch_to_def Let_def set_task_def switch_space_def tss_set_kernel_stack_def)

lemma ring_schedule: "task_ring (task_schedule hook k) = task_ring k"
  using ring_scan [of 64 "current k" "wake_sleepers (snd (irq_save k))"]
  by (auto simp: task_schedule_def irq_save_def irq_restore_def wake_sleepers_def ring_wake ring_switch split: prod.splits)

lemma ring_block: "task_ring (task_block hook k) = task_ring k" "task_ring (task_exit hook k) = task_ring k"
  by (simp_all add: task_block_def task_exit_def task_yield_def ring_schedule set_task_def)

lemma ring_mutex: "mutex_lock_step hook m k = (got, m', k') \<Longrightarrow> task_ring k' = task_ring k"
  by (auto simp: mutex_lock_step_def irq_save_def irq_restore_def enqueue_def set_task_def ring_block Let_def split: prod.splits if_splits)

end

section \<open>The invariant\<close>

fun critical :: "counter_pc \<Rightarrow> bool" where
  "critical (At_Read i) = True"
| "critical (At_Yield i v) = True"
| "critical (At_Write i v) = True"
| "critical (At_Unlock i) = True"
| "critical _ = False"

fun finished :: "counter_pc \<Rightarrow> bool" where
  "finished Worker_Done = True"
| "finished Worker_Gone = True"
| "finished _ = False"

text \<open>The increments a worker has made.\<close>

fun progress :: "counter_pc \<Rightarrow> nat" where
  "progress (At_Lock i) = unat i"
| "progress (At_Read i) = unat i"
| "progress (At_Yield i v) = unat i"
| "progress (At_Write i v) = unat i"
| "progress (At_Unlock i) = unat i + 1"
| "progress _ = 200"

text \<open>\<open>s\<close> is the counter and \<open>d\<close> the number of finished workers.\<close>

fun pc_ok :: "u32 \<Rightarrow> nat \<Rightarrow> counter_pc \<Rightarrow> bool" where
  "pc_ok s d (At_Lock i) \<longleftrightarrow> unat i \<le> 200"
| "pc_ok s d (At_Read i) \<longleftrightarrow> unat i < 200"
| "pc_ok s d (At_Yield i v) \<longleftrightarrow> unat i < 200 \<and> v = s"
| "pc_ok s d (At_Write i v) \<longleftrightarrow> unat i < 200 \<and> v = s"
| "pc_ok s d (At_Unlock i) \<longleftrightarrow> unat i < 200"
| "pc_ok s d (At_Finish n) \<longleftrightarrow> unat n \<le> d"
| "pc_ok s d _ \<longleftrightarrow> True"

fun waiting :: "counter_pc \<Rightarrow> bool" where
  "waiting (At_Lock i) \<longleftrightarrow> unat i < 200"
| "waiting _ \<longleftrightarrow> False"

definition holders :: "u32 \<Rightarrow> u32 \<Rightarrow> counter_pc \<Rightarrow> counter_pc \<Rightarrow> u32 set" where
  "holders t1 t2 p1 p2 = {t. t = t1 \<and> critical p1 \<or> t = t2 \<and> critical p2}"

definition locked_ok :: "u32 \<Rightarrow> u32 \<Rightarrow> mutex \<Rightarrow> 'x kernel \<Rightarrow> counter_pc \<Rightarrow> counter_pc \<Rightarrow> bool" where
  "locked_ok t1 t2 m k p1 p2 \<longleftrightarrow>
     (\<exists>T. T \<subseteq> {t. t = t1 \<and> waiting p1 \<or> t = t2 \<and> waiting p2} \<and> lock_inv (m, k, T, holders t1 t2 p1 p2))"

definition done_count :: "counter_pc \<Rightarrow> counter_pc \<Rightarrow> nat" where
  "done_count p1 p2 = (if finished p1 then 1 else 0) + (if finished p2 then 1 else 0)"

definition counts_ok :: "u32 \<Rightarrow> u32 \<Rightarrow> counter_pc \<Rightarrow> counter_pc \<Rightarrow> bool" where
  "counts_ok s w p1 p2 \<longleftrightarrow> pc_ok s (done_count p1 p2) p1 \<and> pc_ok s (done_count p1 p2) p2 \<and>
     unat s = progress p1 + progress p2 \<and> unat w \<le> done_count p1 p2"

definition race_inv ::
  "u32 \<Rightarrow> u32 \<Rightarrow> ('d, 'v, 'z) shell_scheme kernel \<times> counter_pc \<times> counter_pc \<Rightarrow> bool" where
  "race_inv t1 t2 x = (case x of (k, p1, p2) \<Rightarrow>
     t1 \<noteq> t2 \<and> task_ring k \<noteq> t1 \<and> task_ring k \<noteq> t2 \<and> use_lock (ext k) \<and>
     locked_ok t1 t2 (counter_lock (ext k)) k p1 p2 \<and> counts_ok (shared_counter (ext k)) (workers_done (ext k)) p1 p2)"

lemma race_inv_swap: "race_inv t1 t2 (k, p1, p2) \<Longrightarrow> race_inv t2 t1 (k, p2, p1)"
  by (simp add: race_inv_def locked_ok_def counts_ok_def holders_def done_count_def add.commute disj_commute eq_commute conj_commute)

lemma ring_unlock: "mutex_unlock m k = (m', k') \<Longrightarrow> task_ring k' = task_ring k"
  by (auto simp: mutex_unlock_def irq_save_def irq_restore_def dequeue_def set_task_def task_unblock_def Let_def
      split: prod.splits if_splits)

lemma not_both_critical: "locked_ok t1 t2 m k p1 p2 \<Longrightarrow> t1 \<noteq> t2 \<Longrightarrow> critical p1 \<longrightarrow> \<not> critical p2"
proof (intro impI notI)
  assume a: "locked_ok t1 t2 m k p1 p2" "t1 \<noteq> t2" "critical p1" "critical p2"
  then have "{t1, t2} \<subseteq> holders t1 t2 p1 p2" by (auto simp: holders_def)
  moreover have "holders t1 t2 p1 p2 = {} \<or> (\<exists>h. holders t1 t2 p1 p2 = {h})"
    using a(1) by (auto simp: locked_ok_def lock_inv_def lock_ok_def)
  ultimately show False using a(2) by auto
qed

text \<open>One step of the first worker keeps the counts.\<close>

lemma counts_step:
  assumes "counts_ok s w p1 p2" "critical p1 \<longrightarrow> \<not> critical p2"
  shows "p1 = At_Lock i \<Longrightarrow> 200 \<le> i \<Longrightarrow> counts_ok s w (At_Finish w) p2"
    "p1 = At_Lock i \<Longrightarrow> i < 200 \<Longrightarrow> counts_ok s w (At_Read i) p2"
    "p1 = At_Read i \<Longrightarrow> counts_ok s w (At_Yield i s) p2"
    "p1 = At_Yield i v \<Longrightarrow> counts_ok s w (At_Write i v) p2"
    "p1 = At_Write i v \<Longrightarrow> counts_ok (v + 1) w (At_Unlock i) p2"
    "p1 = At_Unlock i \<Longrightarrow> counts_ok s w (At_Lock (i + 1)) p2"
    "p1 = At_Finish n \<Longrightarrow> counts_ok s (n + 1) Worker_Done p2"
    "p1 = Worker_Done \<Longrightarrow> counts_ok s w Worker_Gone p2"
proof -
  have small: "progress p2 \<le> 200" using assms(1) by (cases p2) (auto simp: counts_ok_def)
  have free: "pc_ok s' d p2 = pc_ok s d p2" if "\<not> critical p2" for s' d using that by (cases p2) simp_all
  have mono: "pc_ok s d p2 \<Longrightarrow> d \<le> d' \<Longrightarrow> pc_ok s d' p2" for d d' by (cases p2) auto
  show "p1 = At_Lock i \<Longrightarrow> 200 \<le> i \<Longrightarrow> counts_ok s w (At_Finish w) p2"
    using assms(1) by (auto simp: counts_ok_def done_count_def word_le_nat_alt)
  show "p1 = At_Lock i \<Longrightarrow> i < 200 \<Longrightarrow> counts_ok s w (At_Read i) p2"
    using assms(1) by (auto simp: counts_ok_def done_count_def word_less_nat_alt)
  show "p1 = At_Read i \<Longrightarrow> counts_ok s w (At_Yield i s) p2" "p1 = At_Yield i v \<Longrightarrow> counts_ok s w (At_Write i v) p2"
    "p1 = Worker_Done \<Longrightarrow> counts_ok s w Worker_Gone p2"
    using assms(1) by (auto simp: counts_ok_def done_count_def)
  show "counts_ok (v + 1) w (At_Unlock i) p2" if p: "p1 = At_Write i v"
  proof -
    have v: "v = s" "unat s = unat i + progress p2" "unat i < 200" using assms(1) p by (auto simp: counts_ok_def)
    then have "unat (v + 1) = unat i + 1 + progress p2" using small by (subst unat32_plus) simp_all
    then show ?thesis using assms p v free [of "v + 1"] by (auto simp: counts_ok_def done_count_def)
  qed
  show "counts_ok s w (At_Lock (i + 1)) p2" if p: "p1 = At_Unlock i"
  proof -
    have i: "unat i < 200" using assms(1) p by (auto simp: counts_ok_def)
    then have "unat (i + 1) = unat i + 1" by (subst unat32_plus) simp_all
    then show ?thesis using assms(1) p i by (auto simp: counts_ok_def done_count_def)
  qed
  show "counts_ok s (n + 1) Worker_Done p2" if p: "p1 = At_Finish n"
  proof -
    have n: "unat n \<le> (if finished p2 then 1 else 0)" using assms(1) p by (auto simp: counts_ok_def done_count_def)
    then have "unat (n + 1) = unat n + 1" by (subst unat32_plus) (simp_all split: if_splits)
    then show ?thesis using assms(1) p n mono by (auto simp: counts_ok_def done_count_def split: if_splits)
  qed
qed

lemma locked_okI:
  "T \<subseteq> {t. t = t1 \<and> waiting p1 \<or> t = t2 \<and> waiting p2} \<Longrightarrow> lock_inv (m, k, T, holders t1 t2 p1 p2) \<Longrightarrow> locked_ok t1 t2 m k p1 p2"
  unfolding locked_ok_def by (rule exI, rule conjI)

lemma locked_okE:
  assumes "locked_ok t1 t2 m k p1 p2"
  obtains T where "T \<subseteq> {t. t = t1 \<and> waiting p1 \<or> t = t2 \<and> waiting p2}" "lock_inv (m, k, T, holders t1 t2 p1 p2)"
  using assms unfolding locked_ok_def by (elim exE conjE) (rule that)

lemma locked_ok_weaken:
  assumes "locked_ok t1 t2 m k p1 p2" "critical p1' = critical p1" "waiting p1 \<longrightarrow> waiting p1'"
  shows "locked_ok t1 t2 m k p1' p2"
proof -
  obtain T where T: "T \<subseteq> {t. t = t1 \<and> waiting p1 \<or> t = t2 \<and> waiting p2}" "lock_inv (m, k, T, holders t1 t2 p1 p2)"
    using assms(1) by (rule locked_okE)
  have "holders t1 t2 p1' p2 = holders t1 t2 p1 p2" using assms(2) by (simp add: holders_def)
  moreover have "T \<subseteq> {t. t = t1 \<and> waiting p1' \<or> t = t2 \<and> waiting p2}" using T(1) assms(3) by auto
  ultimately show ?thesis using T(2) by (intro locked_okI) simp_all
qed

lemma locked_ok_set_sys: "locked_ok t1 t2 m k p1 p2 \<Longrightarrow> locked_ok t1 t2 m (set_sys f k) p1 p2"
  by (elim locked_okE, rule locked_okI, assumption, rule lock_inv_set_sys)

context exit_hook
begin

lemma locked_ok_schedule: "locked_ok t1 t2 m k p1 p2 \<Longrightarrow> locked_ok t1 t2 m (task_schedule hook k) p1 p2"
  by (elim locked_okE, rule locked_okI, assumption, rule lock_inv_schedule)

lemma locked_ok_lock:
  fixes k :: "'x kernel"
  assumes "locked_ok t1 t2 m k (At_Lock i) p2" "unat i < 200" "t1 \<noteq> t2" "current k = t1" "task_ring k \<noteq> t1"
    "mutex_lock_step hook m k = (got, m', k')"
  shows "locked_ok t1 t2 m' k' (if got then At_Read i else At_Lock i) p2"
proof -
  let ?H = "holders t1 t2 (At_Lock i) p2"
  obtain T where T: "T \<subseteq> {t. t = t1 \<or> t = t2 \<and> waiting p2}" "lock_inv (m, k, T, ?H)"
    using assms(1) by (rule locked_okE) (use that assms(2) in auto)
  have h: "t1 \<notin> ?H" using assms(3) by (simp add: holders_def)
  have "lock_inv (m, k, insert t1 T, ?H)"
  proof (cases "t1 \<in> T")
    case False
    then have "lock_step hook (m, k, T, ?H) (m, k, insert t1 T, ?H)" using h assms(4,5) lock_step.enter [of k T ?H] by auto
    then show ?thesis using T(2) by (rule lock_step_inv)
  qed (use T(2) in \<open>simp add: insert_absorb\<close>)
  note inv = this
  show ?thesis
  proof (cases got)
    case True
    have "lock_step hook (m, k, insert t1 T, ?H) (m', k', insert t1 T - {t1}, insert t1 ?H)"
      using lock_step.acquire [of k "insert t1 T" hook m m' k' ?H] assms(4,6) True by simp
    then have "lock_inv (m', k', insert t1 T - {t1}, insert t1 ?H)" using inv by (rule lock_step_inv)
    moreover have "insert t1 ?H = holders t1 t2 (At_Read i) p2" by (auto simp: holders_def)
    moreover have "insert t1 T - {t1} \<subseteq> {t. t = t1 \<and> waiting (At_Read i) \<or> t = t2 \<and> waiting p2}" using T(1) by auto
    ultimately show ?thesis using True by (intro locked_okI [of "insert t1 T - {t1}"]) simp_all
  next
    case False
    have "lock_step hook (m, k, insert t1 T, ?H) (m', k', insert t1 T, ?H)"
      using lock_step.contend [of k "insert t1 T" hook m m' k' ?H] assms(4,6) False by simp
    then have "lock_inv (m', k', insert t1 T, ?H)" using inv by (rule lock_step_inv)
    moreover have "insert t1 T \<subseteq> {t. t = t1 \<and> waiting (At_Lock i) \<or> t = t2 \<and> waiting p2}" using T(1) assms(2) by auto
    ultimately show ?thesis using False by (intro locked_okI [of "insert t1 T"]) simp_all
  qed
qed

lemma locked_ok_unlock:
  fixes k :: "'x kernel"
  assumes "locked_ok t1 t2 m k (At_Unlock i) p2" "t1 \<noteq> t2" "current k = t1" "mutex_unlock m k = (m', k')"
  shows "locked_ok t1 t2 m' k' (At_Lock (i + 1)) p2"
proof -
  obtain T where T: "T \<subseteq> {t. t = t2 \<and> waiting p2}" "lock_inv (m, k, T, holders t1 t2 (At_Unlock i) p2)"
    using assms(1) by (rule locked_okE) (use that in auto)
  have "lock_step hook (m, k, T, holders t1 t2 (At_Unlock i) p2) (m', k', T, holders t1 t2 (At_Unlock i) p2 - {t1})"
    using lock_step.release [of k "holders t1 t2 (At_Unlock i) p2" m m' k' hook T] assms(3,4) by (simp add: holders_def)
  then have "lock_inv (m', k', T, holders t1 t2 (At_Unlock i) p2 - {t1})" using T(2) by (rule lock_step_inv)
  moreover have "holders t1 t2 (At_Unlock i) p2 - {t1} = holders t1 t2 (At_Lock (i + 1)) p2"
    using assms(2) by (auto simp: holders_def)
  moreover have "T \<subseteq> {t. t = t1 \<and> waiting (At_Lock (i + 1)) \<or> t = t2 \<and> waiting p2}" using T(1) by auto
  ultimately show ?thesis by (intro locked_okI [of T]) simp_all
qed

lemma locked_ok_exit:
  fixes k :: "'x kernel"
  assumes "locked_ok t1 t2 m k Worker_Done p2" "t1 \<noteq> t2" "current k = t1" "task_ring k \<noteq> t1"
  shows "locked_ok t1 t2 m (task_exit hook k) Worker_Gone p2"
proof -
  obtain T where T: "T \<subseteq> {t. t = t2 \<and> waiting p2}" "lock_inv (m, k, T, holders t1 t2 Worker_Done p2)"
    using assms(1) by (rule locked_okE) (use that in auto)
  have "current k \<notin> T \<union> holders t1 t2 Worker_Done p2" using T(1) assms(2,3) by (auto simp: holders_def)
  then have "lock_inv (m, task_exit hook k, T, holders t1 t2 Worker_Done p2)" using lock_inv_exit [OF T(2)] assms(3,4) by simp
  moreover have "holders t1 t2 Worker_Gone p2 = holders t1 t2 Worker_Done p2" by (simp add: holders_def)
  moreover have "T \<subseteq> {t. t = t1 \<and> waiting Worker_Gone \<or> t = t2 \<and> waiting p2}" using T(1) by auto
  ultimately show ?thesis by (intro locked_okI [of T]) simp_all
qed

end

section \<open>Every step keeps the invariant\<close>

text \<open>What a state keeps for the invariant when only the scheduler has run.\<close>

lemma race_inv_own:
  assumes "race_inv t1 t2 (k, p1, p2)" "own k' = own k" "task_ring k' = task_ring k"
    "locked_ok t1 t2 (counter_lock (ext k)) k p1 p2 \<Longrightarrow> locked_ok t1 t2 (counter_lock (ext k)) k' p1 p2"
  shows "race_inv t1 t2 (k', p1, p2)"
  using assms(1,3,4) counters_own [OF assms(2)] by (simp add: race_inv_def counters_def)

lemma race_inv_lock_step:
  assumes "race_inv t1 t2 (k, At_Lock i, p2)" "current k = t1" "i < 200"
    "mutex_lock_step (program_hook c) (counter_lock (ext k)) k = (got, m, k1)"
  shows "race_inv t1 t2 (set_lock m k1, if got then At_Read i else At_Lock i, p2)"
proof -
  have r: "t1 \<noteq> t2" "task_ring k \<noteq> t1" "task_ring k \<noteq> t2" "use_lock (ext k)" "locked_ok t1 t2 (counter_lock (ext k)) k (At_Lock i) p2"
    "counts_ok (shared_counter (ext k)) (workers_done (ext k)) (At_Lock i) p2" using assms(1) by (simp_all add: race_inv_def)
  have i: "unat i < 200" using assms(3) by (simp add: word_less_nat_alt)
  have cnt: "counts_ok (shared_counter (ext k)) (workers_done (ext k)) (if got then At_Read i else At_Lock i) p2"
    using counts_step(2) [OF r(6) not_both_critical [OF r(5,1)] refl assms(3)] r(6) by simp
  have "locked_ok t1 t2 m (set_lock m k1) (if got then At_Read i else At_Lock i) p2"
    unfolding set_lock_def by (rule locked_ok_set_sys [OF prog_hook.locked_ok_lock [OF r(5) i r(1) assms(2) r(2) assms(4)]])
  moreover have "counters k1 = counters k" by (rule counters_own [OF own_mutex(1) [OF assms(4)]])
  moreover have "task_ring k1 = task_ring k" by (rule prog_hook.ring_mutex [OF assms(4)])
  ultimately show ?thesis using r cnt by (simp add: race_inv_def counters_def set_lock_def set_sys_def)
qed

lemma race_inv_unlock_step:
  assumes "race_inv t1 t2 (k, At_Unlock i, p2)" "current k = t1" "mutex_unlock (counter_lock (ext k)) k = (m, k1)"
  shows "race_inv t1 t2 (set_lock m k1, At_Lock (i + 1), p2)"
proof -
  have r: "t1 \<noteq> t2" "task_ring k \<noteq> t1" "task_ring k \<noteq> t2" "use_lock (ext k)" "locked_ok t1 t2 (counter_lock (ext k)) k (At_Unlock i) p2"
    "counts_ok (shared_counter (ext k)) (workers_done (ext k)) (At_Unlock i) p2" using assms(1) by (simp_all add: race_inv_def)
  have cnt: "counts_ok (shared_counter (ext k)) (workers_done (ext k)) (At_Lock (i + 1)) p2"
    by (rule counts_step(6) [OF r(6) not_both_critical [OF r(5,1)] refl])
  have "locked_ok t1 t2 m (set_lock m k1) (At_Lock (i + 1)) p2"
    unfolding set_lock_def by (rule locked_ok_set_sys [OF prog_hook.locked_ok_unlock [OF r(5,1) assms(2,3)]])
  moreover have "counters k1 = counters k" by (rule counters_own [OF own_mutex(2) [OF assms(3)]])
  moreover have "task_ring k1 = task_ring k" by (rule ring_unlock [OF assms(3)])
  ultimately show ?thesis using r cnt by (simp add: race_inv_def counters_def set_lock_def set_sys_def)
qed

lemma race_inv_worker:
  assumes inv: "race_inv t1 t2 (k, p1, p2)" and c: "current k = t1"
    and run: "counter_thread (program_hook h) p1 k = (p1', k')"
  shows "race_inv t1 t2 (k', p1', p2)"
proof -
  let ?s = "shared_counter (ext k)" and ?w = "workers_done (ext k)" and ?m = "counter_lock (ext k)"
  have r: "t1 \<noteq> t2" "task_ring k \<noteq> t1" "task_ring k \<noteq> t2" "use_lock (ext k)" "locked_ok t1 t2 ?m k p1 p2"
    "counts_ok ?s ?w p1 p2" using inv by (simp_all add: race_inv_def)
  note step = counts_step [OF r(6) not_both_critical [OF r(5,1)]]
  show ?thesis
  proof (cases p1)
    case (At_Lock i)
    show ?thesis
    proof (cases "i < 200")
      case True
      then have "\<not> 200 \<le> i" by simp
      then show ?thesis using run r(4) race_inv_lock_step [OF inv [unfolded At_Lock] c True]
        by (auto simp: At_Lock INCREMENTS_def split: prod.splits)
    next
      case False
      then have "200 \<le> i" by (simp only: not_less)
      then have "p1' = At_Finish ?w" "k' = k" using run by (auto simp: At_Lock INCREMENTS_def)
      moreover have "locked_ok t1 t2 ?m k (At_Finish ?w) p2"
        using r(5) by (rule locked_ok_weaken) (use False in \<open>simp_all add: At_Lock word_less_nat_alt\<close>)
      ultimately show ?thesis using r step(1) [OF At_Lock \<open>200 \<le> i\<close>] by (simp add: race_inv_def)
    qed
  next
    case (At_Read i)
    have "locked_ok t1 t2 ?m k (At_Yield i ?s) p2" using r(5) by (rule locked_ok_weaken) (simp_all add: At_Read)
    then show ?thesis using run r step(3) [OF At_Read] by (auto simp: At_Read race_inv_def)
  next
    case (At_Yield i v)
    have "locked_ok t1 t2 ?m k (At_Write i v) p2" using r(5) by (rule locked_ok_weaken) (simp_all add: At_Yield)
    then have "race_inv t1 t2 (k, At_Write i v, p2)" using r step(4) [OF At_Yield] by (simp add: race_inv_def)
    then have "race_inv t1 t2 (task_yield (program_hook h) k, At_Write i v, p2)"
      by (rule race_inv_own) (simp_all add: kept task_yield_def prog_hook.ring_schedule prog_hook.locked_ok_schedule)
    then show ?thesis using run by (auto simp: At_Yield)
  next
    case (At_Write i v)
    have "locked_ok t1 t2 ?m k (At_Unlock i) p2" using r(5) by (rule locked_ok_weaken) (simp_all add: At_Write)
    then have "locked_ok t1 t2 ?m (set_counter (v + 1) k) (At_Unlock i) p2" unfolding set_counter_def by (rule locked_ok_set_sys)
    then show ?thesis using run r step(5) [OF At_Write] by (auto simp: At_Write race_inv_def set_counter_def set_sys_def)
  next
    case (At_Unlock i)
    then show ?thesis using run race_inv_unlock_step [OF inv [unfolded At_Unlock] c] by (auto split: prod.splits)
  next
    case (At_Finish n)
    have "locked_ok t1 t2 ?m k Worker_Done p2" using r(5) by (rule locked_ok_weaken) (simp_all add: At_Finish)
    then have "locked_ok t1 t2 ?m (set_sys (\<lambda>s. s\<lparr>workers_done := n + 1\<rparr>) k) Worker_Done p2" by (rule locked_ok_set_sys)
    then show ?thesis using run r step(7) [OF At_Finish] by (auto simp: At_Finish race_inv_def set_sys_def)
  next
    case Worker_Done
    have "locked_ok t1 t2 ?m (task_exit (program_hook h) k) Worker_Gone p2"
      by (rule prog_hook.locked_ok_exit [OF r(5) [unfolded Worker_Done] r(1) c r(2)])
    moreover have "counters (task_exit (program_hook h) k) = counters k" by (rule counters_own) (simp add: kept)
    ultimately show ?thesis using run r step(8) [OF Worker_Done]
      by (auto simp: Worker_Done race_inv_def counters_def prog_hook.ring_block)
  next
    case Worker_Gone
    then show ?thesis using run inv by simp
  qed
qed

lemma race_inv_step: "race_step (program_hook h) t1 t2 x y \<Longrightarrow> race_inv t1 t2 x \<Longrightarrow> race_inv t1 t2 y"
proof (induction rule: race_step.induct)
  case (first k p1 p1' k' p2)
  then show ?case using race_inv_worker by blast
next
  case (second k p2 p2' k' p1)
  then show ?case using race_inv_worker [OF race_inv_swap] race_inv_swap by blast
next
  case (poll k p1 p2)
  from poll(3) show ?case by (rule race_inv_own)
    (simp_all add: kept task_yield_def prog_hook.ring_schedule prog_hook.locked_ok_schedule)
next
  case (tick k p1 p2)
  have t: "timer_handler k = k\<lparr>ticks := ticks k + 1\<rparr>" by (simp add: timer_handler_def)
  have "lock_inv (m, timer_handler k, T, H)" if i0: "lock_inv (m, k, T, H)" for m T H
  proof -
    obtain ts q where i: "sched_inv k ts" "lock_ok q m k T H ts" using i0 by (auto simp: lock_inv_def)
    have "lock_ok q m (timer_handler k) T H ts" using i(2) by (rule lock_ok_cong) (simp_all add: t)
    moreover have "sched_inv (timer_handler k) ts" using i(1) prog_hook.timer_handler_ok [of k ts] by (simp add: sched_inv_def t)
    ultimately show ?thesis by (auto simp: lock_inv_def)
  qed
  then have "locked_ok t1 t2 m (timer_handler k) p1 p2" if "locked_ok t1 t2 m k p1 p2" for m
    using that by (elim locked_okE, intro locked_okI)
  then have "locked_ok t1 t2 m (task_schedule (program_hook h) (timer_handler k)) p1 p2" if "locked_ok t1 t2 m k p1 p2" for m
    using that by (intro prog_hook.locked_ok_schedule)
  moreover have "task_ring (task_schedule (program_hook h) (timer_handler k)) = task_ring k"
    by (simp add: prog_hook.ring_schedule t)
  ultimately show ?case by (intro race_inv_own [OF tick]) (simp_all only: kept)
qed

section \<open>Starting the test\<close>

lemma sched_inv_cong:
  assumes "sched_inv k ts" "tasks k' = tasks k" "current k' = current k" "task_ring k' = task_ring k" "enabled k' = enabled k"
    "cr3 k' = cr3 k" "kernel_dir k' = kernel_dir k"
  shows "sched_inv k' ts"
proof -
  have ok: "sched_ok k ts" using assms(1) by (simp add: sched_inv_def)
  have "sched_ok k' ts" by (rule sched_ok_cong [OF ok]) (use ok assms(2-7) in \<open>auto simp: sched_ok_def\<close>)
  then show ?thesis using assms by (simp add: sched_inv_def)
qed

lemma set_sys_frame:
  "tasks (print_line f as (set_sys g k)) = tasks k" "current (print_line f as (set_sys g k)) = current k"
  "task_ring (print_line f as (set_sys g k)) = task_ring k" "enabled (print_line f as (set_sys g k)) = enabled k"
  "mm (print_line f as (set_sys g k)) = mm k" "heap (print_line f as (set_sys g k)) = heap k"
  by (simp_all add: print_line_def print_def console_write_def set_sys_def)

lemma create_frame:
  "task_create e n a k = Some (i, k') \<Longrightarrow> ext k' = ext k" "task_create e n a k = Some (i, k') \<Longrightarrow> task_ring k' = task_ring k"
  subgoal unfolding task_create_def by (rule task_create_ext)
  subgoal by (auto simp: task_create_def task_create_ex_def set_task_def Let_def split: option.splits if_splits prod.splits)
  done

lemma task_create_some:
  assumes "sched_inv k (c # rest)" "ring_live k (c # rest)" "length rest < 64" "task_create e n a k = Some (i, k')" "i \<noteq> 0"
  obtains t where "sched_inv k' (c # t # rest)" "ring_live k' (c # t # rest)" "t \<notin> set (c # rest)"
proof -
  from assms(1-3) show thesis
  proof (cases rule: task_create_ex_cases [where ea = e and name = n and entry = a and pd = 0 and arg = 0 and oe = 0])
    case (null k1)
    then show thesis using assms(4,5) by (simp add: task_create_def)
  next
    case (task t k1)
    then have "k1 = k'" using assms(4) by (simp add: task_create_def)
    then show thesis using that task by blast
  qed
qed

lemma counter_test_start:
  assumes "sched_inv k (c # rest)" "ring_live k (c # rest)" "length rest < 63" "run_counter_test sy b k = Some (Polling b' k0)"
  obtains t1 t2 where "b' = b" "sched_inv k0 (c # t2 # t1 # rest)" "t1 \<noteq> t2" "t1 \<notin> set (c # rest)" "t2 \<notin> set (c # rest)"
    "task_ring k0 = task_ring k" "counters k0 = (0, 0, mutex_init, b)"
proof -
  let ?k1 = "set_sys (\<lambda>s. s\<lparr>shared_counter := 0, workers_done := 0, use_lock := b, counter_lock := mutex_init\<rparr>) k"
  define k2 where "k2 = print_line ''two threads, %u increments each, %s''
    [Num INCREMENTS, Str (if b then ascii ''WITH a mutex'' else ascii ''with NO lock'')] ?k1"
  obtain i k3 j where run: "task_create (a_task_exit sy) (ascii ''count'') (a_counter_thread sy) k2 = Some (i, k3)" "i \<noteq> 0"
    "task_create (a_task_exit sy) (ascii ''count'') (a_counter_thread sy) k3 = Some (j, k0)" "j \<noteq> 0" "b' = b"
    using assms(4) unfolding run_counter_test_def Let_def k2_def [symmetric]
    by (auto simp: bind_eq_Some_conv split: if_splits)
  have "sched_inv k2 (c # rest)" using assms(1) by (rule sched_inv_cong) (simp_all only: k2_def set_sys_frame)
  moreover have "ring_live k2 (c # rest)" using assms(2) unfolding ring_live_def k2_def set_sys_frame .
  moreover have "length rest < 64" using assms(3) by simp
  ultimately obtain t1 where t1: "sched_inv k3 (c # t1 # rest)" "ring_live k3 (c # t1 # rest)" "t1 \<notin> set (c # rest)"
    by (rule task_create_some [OF _ _ _ run(1,2)])
  have "length (t1 # rest) < 64" using assms(3) by simp
  then obtain t2 where t2: "sched_inv k0 (c # t2 # t1 # rest)" "t2 \<notin> set (c # t1 # rest)"
    by (rule task_create_some [OF t1(1,2) _ run(3,4)])
  have "ext k0 = ext k2" "task_ring k0 = task_ring k2" using create_frame [OF run(1)] create_frame [OF run(3)] by simp_all
  then have "ext k0 = ext ?k1" "task_ring k0 = task_ring k" unfolding k2_def by (simp_all only: kept set_sys_frame)
  moreover from this(1) have "counters k0 = (0, 0, mutex_init, b)" by (simp add: counters_def set_sys_def)
  ultimately show thesis using that t1 t2 run(5) by auto
qed

lemma race_start:
  assumes "sched_inv k0 ts" "t1 \<noteq> t2" "task_ring k0 \<notin> {t1, t2}" "counters k0 = (0, 0, mutex_init, True)"
  shows "race_inv t1 t2 (k0, At_Lock 0, At_Lock 0)"
proof -
  have "holders t1 t2 (At_Lock 0) (At_Lock 0) = {}" by (simp add: holders_def)
  then have "locked_ok t1 t2 mutex_init k0 (At_Lock 0) (At_Lock 0)"
    using mutex_init_inv [OF assms(1)] by (intro locked_okI [of "{}"]) simp_all
  then show ?thesis using assms(2-4) by (auto simp: race_inv_def counters_def counts_ok_def done_count_def)
qed

lemma race_result:
  assumes "race_inv t1 t2 (k, p1, p2)" "\<not> workers_done (ext k) < 2"
  shows "shared_counter (ext k) = 400"
proof -
  have c: "unat (shared_counter (ext k)) = progress p1 + progress p2" "unat (workers_done (ext k)) \<le> done_count p1 p2"
    using assms(1) by (simp_all add: race_inv_def counts_ok_def)
  moreover have "2 \<le> unat (workers_done (ext k))" using assms(2) by (simp add: word_less_nat_alt)
  ultimately have "finished p1" "finished p2" by (simp_all add: done_count_def split: if_splits)
  then have "progress p1 = 200" "progress p2 = 200" by (cases p1; simp) (use \<open>finished p2\<close> in \<open>cases p2; simp\<close>)
  then show ?thesis using c(1) by (intro word_unat_eq_iff [THEN iffD2]) simp
qed

lemma report_correct:
  assumes "shared_counter (ext k) = 400"
  shows "counter_report True k = console_write (ascii ''expected 400, got 400  - correct'' @ [10] @
    ascii ''blocked on the lock '' @ radix 10 (unat (contended (counter_lock (ext k)))) @ ascii '' times'' @ [10]) k"
proof -
  have p1: "print ''expected %u, got %u'' [Num 400, Num 400] k = console_write (ascii ''expected 400, got 400'') k" for k :: "'x kernel"
  proof -
    have "render (karg_string [Num 400, Num 400]) (karg_value [Num 400, Num 400]) 0 (pieces (ascii ''expected %u, got %u'')) =
      ascii ''expected 400, got 400''" by code_simp
    then show ?thesis by (simp add: print_def)
  qed
  have p2: "print_line ''  - correct'' [] k = console_write (ascii ''  - correct'' @ [10]) k" for k :: "'x kernel"
  proof -
    have "render (karg_string []) (karg_value []) 0 (pieces (ascii (''  - correct'' @ [CHR 0x0A]))) = ascii ''  - correct'' @ [10]" by code_simp
    then show ?thesis by (simp add: print_line_def print_def)
  qed
  have p3: "print_line ''blocked on the lock %u times'' [Num n] k =
      console_write (ascii ''blocked on the lock '' @ radix 10 (unat n) @ ascii '' times'' @ [10]) k" for n and k :: "'x kernel"
  proof -
    have "pieces (ascii (''blocked on the lock %u times'' @ [CHR 0x0A])) =
      map Lit (ascii ''blocked on the lock '') @ Decimal # map Lit (ascii '' times'' @ [10])" by code_simp
    then show ?thesis by (simp add: print_line_def print_def ascii_def karg_value_def)
  qed
  have join: "console_write b (console_write a k) = console_write (a @ b) k" for a b and k :: "'x kernel"
    by (simp add: console_write_def)
  have e: "2 * INCREMENTS = 400" by (simp add: INCREMENTS_def)
  have l: "ascii ''expected 400, got 400  - correct'' = ascii ''expected 400, got 400'' @ ascii ''  - correct''" by (simp add: ascii_def)
  show ?thesis unfolding counter_report_def Let_def e assms l by (simp add: p1 p2 p3 join kept)
qed

lemma race_reach:
  assumes "(race_step (program_hook h) t1 t2)\<^sup>*\<^sup>* x y" "race_inv t1 t2 x"
  shows "race_inv t1 t2 y"
  using assms by (induction rule: rtranclp_induct) (use race_inv_step in blast)+

text \<open>
  (C33) \<open>locktest\<close>, from a scheduler state with room for two more tasks: when the command gets as far as waiting for its
  workers it has created two new tasks, and however the scheduler interleaves them, each other, the shell and timer
  ticks, the waiting loop ends only with the counter at 400: no increment is lost, and the shell prints that the
  result is correct.
\<close>

theorem locktest_loses_nothing:
  assumes "sched_inv k (c # rest)" "ring_live k (c # rest)" "length rest < 63"
    "command_locktest sy k = Some (Polling b k0)"
  shows "\<exists>t1 t2. sched_inv k0 (c # t2 # t1 # rest) \<and> t1 \<noteq> t2 \<and> {t1, t2} \<inter> set (c # rest) = {} \<and>
    (\<forall>k1 p1 p2 k2. (race_step (program_hook h) t1 t2)\<^sup>*\<^sup>* (k0, At_Lock 0, At_Lock 0) (k1, p1, p2) \<and>
       counter_poll (program_hook h) b k1 = Returned k2 \<longrightarrow>
       shared_counter (ext k1) = 400 \<and>
       (\<exists>n. console k2 = console k1 @ ascii ''expected 400, got 400  - correct'' @ [10] @
          ascii ''blocked on the lock '' @ radix 10 n @ ascii '' times'' @ [10]))"
proof -
  have run: "run_counter_test sy True k = Some (Polling b k0)" using assms(4) by (simp add: command_locktest_def)
  obtain t1 t2 where t: "b = True" "sched_inv k0 (c # t2 # t1 # rest)" "t1 \<noteq> t2" "t1 \<notin> set (c # rest)" "t2 \<notin> set (c # rest)"
    "task_ring k0 = task_ring k" "counters k0 = (0, 0, mutex_init, True)"
    by (rule counter_test_start [OF assms(1-3) run])
  have "task_ring k0 \<notin> {t1, t2}" using t(4-6) assms(1) by (auto simp: sched_inv_def sched_ok_def ring_def)
  note start = race_start [OF t(2,3) this t(7)]
  have "shared_counter (ext k1) = 400 \<and> (\<exists>n. console k2 = console k1 @ ascii ''expected 400, got 400  - correct'' @ [10] @
      ascii ''blocked on the lock '' @ radix 10 n @ ascii '' times'' @ [10])"
    if r: "(race_step (program_hook h) t1 t2)\<^sup>*\<^sup>* (k0, At_Lock 0, At_Lock 0) (k1, p1, p2)"
      and p: "counter_poll (program_hook h) b k1 = Returned k2" for k1 p1 p2 k2
  proof -
    have w: "\<not> workers_done (ext k1) < 2" "k2 = counter_report True k1"
      using p t(1) by (auto simp: counter_poll_def split: if_splits)
    have s: "shared_counter (ext k1) = 400" by (rule race_result [OF race_reach [OF r start] w(1)])
    have "counter_report True k1 = console_write (ascii ''expected 400, got 400  - correct'' @ [10] @ ascii ''blocked on the lock '' @
        radix 10 (unat (contended (counter_lock (ext k1)))) @ ascii '' times'' @ [10]) k1"
      by (rule report_correct [OF s])
    then show ?thesis using s w(2) by (auto simp: console_write_def)
  qed
  then show ?thesis using t by blast
qed

definition starting_shell :: "(unit, unit) shell kernel" where
  "starting_shell = (shell_kernel no_volume)\<lparr>tasks := \<lambda>_. zero_task, current := 0, task_ring := 0, next_id := 0, enabled := False\<rparr>"

fun polls :: "'k outcome option \<Rightarrow> bool" where
  "polls (Some (Polling b k)) = True"
| "polls _ = False"

lemma polls_iff: "polls r \<longleftrightarrow> (\<exists>b k. r = Some (Polling b k))"
  by (cases r rule: polls.cases) simp_all

lemma starting_shell_init:
  obtains k where "task_init 0x9000 starting_shell = Some k" "sched_inv k [current k]" "ring_live k [current k]"
proof -
  have "(case task_init 0x9000 starting_shell of None \<Rightarrow> False | Some k \<Rightarrow> current k \<noteq> 0)" by code_simp
  then obtain k where k: "task_init 0x9000 starting_shell = Some k" "current k \<noteq> 0" by (auto split: option.splits)
  have h: "heap starting_shell = example_heap" "current starting_shell = 0"
    by (simp_all add: starting_shell_def shell_kernel_def)
  then obtain h where h: "kmalloc sizeof_task (heap starting_shell) = Some (current k, h)" "heap k = h" "enabled k"
    using k by (auto simp: task_init_def Let_def split: option.splits if_splits)
  have "ring_live starting_shell []"
    using example_heap_rep by (auto simp: ring_live_def heap_ok_def starting_shell_def shell_kernel_def)
  from fresh_task [OF this h(1) k(2)] have "ring_live k [current k]" using h(2) by (auto simp: ring_live_def)
  moreover have "sched_inv k [current k]"
    using k(1) h(3) by (rule task_init_inv) (simp_all add: starting_shell_def shell_kernel_def example_space_def)
  ultimately show thesis using that k(1) by blast
qed

theorem locktest_loses_nothing_witness:
  "\<exists>k k0 t1 t2. task_init 0x9000 starting_shell = Some k \<and>
     command_locktest (syms (example_machine null_io)) k = Some (Polling True k0) \<and>
     sched_inv k0 [current k, t2, t1] \<and> t1 \<noteq> t2"
proof -
  obtain k where k: "task_init 0x9000 starting_shell = Some k" "sched_inv k [current k]" "ring_live k [current k]"
    by (rule starting_shell_init)
  have "(case task_init 0x9000 starting_shell of None \<Rightarrow> False | Some k \<Rightarrow> polls (command_locktest (syms (example_machine null_io)) k))"
    by code_simp
  then obtain b k0 where run: "command_locktest (syms (example_machine null_io)) k = Some (Polling b k0)"
    using k(1) by (auto simp: polls_iff)
  then have "b = True" unfolding command_locktest_def by (elim counter_test_start [OF k(2,3), rotated]) simp_all
  then show ?thesis using locktest_loses_nothing [OF k(2,3) _ run, where h = 0] k(1) run by auto
qed

end
