(* ===== verification/Boot.thy ===== *)
theory Boot
  imports Race Gdt Idt Keyboard
begin

text \<open>
  \<open>kernel_main\<close> of \<open>kernel/main.c\<close>: the parts of the kernel brought up in order, ending with the shell in the idle
  task.  The state is that of the kernel with the shell, the descriptor tables and the interrupt tables.  Addresses
  that the linker assigns, the features the CPU reports and the registers that inline assembly reads are the fields
  of \<open>platform\<close>.
\<close>

section \<open>The boot sequence\<close>

definition MULTIBOOT_BOOTLOADER_MAGIC :: u32 where "MULTIBOOT_BOOTLOADER_MAGIC = 0x2BADB002"

record ('d, 'v, 'i) platform =
  mach :: "('d, 'v) machine"
  irq_io :: "'i ports"
  isr_stub :: "nat \<Rightarrow> u32"
  irq_stub :: "nat \<Rightarrow> u32"
  a_gdt :: u32
  a_idt :: u32
  a_tss :: u32
  a_page_fault_handler :: u32
  a_syscall_dispatch :: u32
  a_timer_handler :: u32
  a_keyboard_irq :: u32
  a_kernel_end :: u32
  a_rodata_end :: u32
  a_user_text_start :: u32
  a_user_text_end :: u32
  cpuid_leaf :: "u32 \<Rightarrow> u32 \<times> u32"
  cpuid7_ebx :: u32
  tsc_now :: u32
  esp_main :: u32

record ('d, 'v, 'i) system =
  kern :: "('d, 'v) shell kernel"
  seg :: segmentation
  ints :: "'i interrupts"

datatype 's boot_result = Refused 's | Up 's

definition colour :: "('d, 'v, 'i) platform \<Rightarrow> vga_colour \<Rightarrow> ('d, 'v) shell kernel \<Rightarrow> ('d, 'v) shell kernel" where
  "colour pf c k = on_screen (vga_io (mach pf)) (terminal_set_colour (vga_entry_colour c VGA_BLACK)) k"

definition write_text :: "string \<Rightarrow> 'x kernel \<Rightarrow> 'x kernel" where
  "write_text t k = console_write (ascii t @ [10]) k"

definition banner :: "('d, 'v, 'i) platform \<Rightarrow> ('d, 'v) shell kernel \<Rightarrow> ('d, 'v) shell kernel" where
  "banner pf k =
     (let b = [CHR 0x5C];
          k1 = colour pf VGA_LIGHT_CYAN k;
          k2 = write_text ''  _   _   _   _   _   _'' k1;
          k3 = write_text (concat (replicate 6 ('' / '' @ b))) k2;
          k4 = write_text ''( A | r | t | h | i | c )'' k3;
          k5 = write_text (concat (replicate 6 ('' '' @ b @ ''_/'')) @ [CHR 0x0A]) k4;
          k6 = colour pf VGA_LIGHT_GREY k5;
          k7 = write_text ''Arthic kernel v1.8'' k6;
          k8 = write_text (''Booted in 32-bit protected mode.'' @ [CHR 0x0A]) k7;
          k9 = colour pf VGA_DARK_GREY k8;
          k10 = write_text ''No scheduler. No memory manager. No drivers.'' k9
      in write_text (''Just this. Everything else is yours to add.'' @ [CHR 0x0A]) k10)"

text \<open>The messages after the subsystems are up.\<close>

definition report :: "('d, 'v, 'i) platform \<Rightarrow> bool \<Rightarrow> ('d, 'v) shell kernel \<Rightarrow> ('d, 'v) shell kernel" where
  "report pf protected_ok k =
     (let k1 = print_line ''SMEP %s, SMAP %s%s''
                 [Str (ascii (if cpuprot_smep_available k then ''on'' else ''NOT available'')),
                  Str (ascii (if cpuprot_smap_available k then ''on'' else ''NOT available'')),
                  Str (if protected_ok then [] else ascii '' - some ring-0 protections are missing'')] k;
          k2 = print_line ''IDT installed: 32 exception handlers, 16 IRQs, PIC remapped.'' [] k1;
          k3 = print_line ''PMM  installed: %u KB usable, %u KB in use.''
                 [Num (pmm_free_frames (frames k2) * 4), Num (pmm_used_frames (frames k2) * 4)] k2;
          k4 = print_line ''Paging enabled (PAE): %u MB mapped, kernel code read-only.''
                 [Num (paging_mapped_limit (mm k3) div (1024 * 1024))] k3
      in print_line ''NX %s - data pages %s non-executable.''
           [Str (ascii (if paging_nx_available (mm k4) then ''available'' else ''NOT available'')),
            Str (ascii (if paging_nx_available (mm k4) then ''are'' else ''cannot be''))] k4)"

definition report_disk :: "('d, 'v) shell kernel \<Rightarrow> ('d, 'v) shell kernel" where
  "report_disk k =
     (let n = ata_sector_count (disk (volume (ext k)))
      in if n \<noteq> 0
         then print_line ''Disk: %u sectors, %u MB. Filesystem %s.''
                [Num n, Num (n div 2048), Str (ascii (if fs_is_mounted (volume (ext k)) then ''mounted'' else ''not formatted''))] k
         else print_line ''No disk attached.'' [] k)"

definition kprintf_demo :: "('d, 'v, 'i) platform \<Rightarrow> ('d, 'v) shell kernel \<Rightarrow> ('d, 'v) shell kernel" where
  "kprintf_demo pf k =
     (let k1 = print_line (''kprintf is alive.'' @ [CHR 0x0A]) [] k;
          k2 = colour pf VGA_LIGHT_GREY k1;
          k3 = print_line ''  decimal      %d'' [Num 1234] k2;
          k4 = print_line ''  negative     %d'' [Num (- 4321)] k3;
          k5 = print_line ''  zero         %d'' [Num 0] k4;
          k6 = print_line ''  int minimum  %d'' [Num 0x80000000] k5;
          k7 = print_line ''  unsigned     %u'' [Num 4294967295] k6;
          k8 = print_line ''  hex          0x%x'' [Num 0xDEADBEEF] k7;
          k9 = print_line ''  string       %s'' [Str (ascii ''Arthic'')] k8;
          k10 = print_line ''  character    %c'' [Num 0x41] k9;
          k11 = print_line ''  percent      100%%'' [] k10;
          k12 = print_line ''  mixed        %s v%d.%d at 0x%x'' [Str (ascii ''kernel''), Num 1, Num 8, Num 0xB8000] k11;
          k13 = colour pf VGA_WHITE k12
      in print_line ([CHR 0x0A] @ ''Interrupts enabled. Keyboard live. Type 'help'.'' @ [CHR 0x0A]) [] k13)"

text \<open>The disk: a mount is tried only when a drive answers.\<close>

definition boot_disk :: "'d ports \<Rightarrow> ('d, 'v) shell kernel \<Rightarrow> ('d, 'v) shell kernel" where
  "boot_disk io k =
     (case ata_init io (disk (volume (ext k))) of (found, d) \<Rightarrow>
        let k1 = set_volume ((volume (ext k))\<lparr>disk := d\<rparr>) k
        in if found
           then case on_volume (fs_mount io) k1 of (ok, k2) \<Rightarrow>
                  if ok then k2 else print_line ''Disk found, no ArthicFS on it - run 'format'.'' [] k2
           else k1)"

text \<open>Memory: frames, page tables with the page fault handler, heap.  None when the kernel halts for lack of memory.\<close>

definition boot_memory :: "('d, 'v, 'i) platform \<Rightarrow> multiboot_info \<Rightarrow> ('d, 'v, 'i) system \<Rightarrow> ('d, 'v, 'i) system option" where
  "boot_memory pf mbi st =
     (let k = kern st
      in Option.bind (pmm_init (memory k) (a_kernel_end pf) (memory k) mbi) (\<lambda>p.
         Option.bind (paging_init (cpuid_leaf pf) (a_kernel_text_start (syms (mach pf))) (a_rodata_end pf)
                        ((mm k)\<lparr>table_frames := p\<rparr>)) (\<lambda>s.
           case kheap_init (table_frames s) (heap k) of (h, p2) \<Rightarrow>
             let k1 = k\<lparr>mm := s\<lparr>table_frames := p2\<rparr>, heap := h\<rparr>
             in Some (st\<lparr>kern := (if fst (pmm_alloc_frames HEAP_FRAMES (table_frames s)) = 0
                                  then print_line ''kheap: could not reserve %u KB'' [Num (HEAP_SIZE div 1024)] k1 else k1),
                         ints := isr_install_handler 14 (a_page_fault_handler pf) (ints st)\<rparr>))))"

text \<open>The keyboard callback: what \<open>shell_input\<close> does to the state.\<close>

definition shell_callback :: "('d, 'v) machine \<Rightarrow> u8 \<Rightarrow> ('d, 'v) shell kernel \<Rightarrow> ('d, 'v) shell kernel" where
  "shell_callback mc c k = (case shell_input mc c k of None \<Rightarrow> k | Some r \<Rightarrow> outcome_state r)"

definition kernel_main ::
  "('d, 'v, 'i) platform \<Rightarrow> u32 \<Rightarrow> multiboot_info \<Rightarrow> ('d, 'v, 'i) system \<Rightarrow> ('d, 'v, 'i) system boot_result option" where
  "kernel_main pf magic mbi st =
     (let vio = vga_io (mach pf); io = disk_io (mach pf);
          k1 = on_screen vio (terminal_initialise vio) (ssp_init (tsc_now pf) (kern st));
          st1 = st\<lparr>kern := banner pf k1, seg := gdt_install (a_gdt pf) (seg st),
                   ints := idt_install (irq_io pf) (isr_stub pf) (irq_stub pf) (a_idt pf) (ints st)\<rparr>
      in if magic \<noteq> MULTIBOOT_BOOTLOADER_MAGIC
         then Some (Refused (st1\<lparr>kern := print_line ''bad multiboot magic: 0x%x - refusing to continue'' [Num magic]
                                  (colour pf VGA_LIGHT_RED (kern st1))\<rparr>))
         else
           Option.bind (boot_memory pf mbi st1) (\<lambda>st2.
           let k2 = tss_set_kernel_stack (esp_main pf) (kern st2);
               seg2 = tss_install (a_tss pf) (esp_main pf) (seg st2);
               ints2 = syscall_install (a_syscall_dispatch pf) (ints st2)
           in Option.bind (usermode_init (a_user_text_start pf) (a_user_text_end pf) k2) (\<lambda>k3.
              Option.bind (task_init (esp_main pf) k3) (\<lambda>k4.
              let k5 = colour pf VGA_LIGHT_GREEN (boot_disk io k4);
                  k6 = print_line ''GDT installed: 5 entries, flat model, ring 0 + ring 3 ready.'' [] k5;
                  k7 = print_line ''Stack canaries active (real guard, not %%gs default).'' [] k6
              in case cpuprot_init (cpuid7_ebx pf) k7 of (protected_ok, k8) \<Rightarrow>
                   let k9 = report pf protected_ok k8
                   in Option.bind (kheap_stats (heap k9)) (\<lambda>(heap_total, u, n).
                      let k10 = print_line ''Heap  ready: %u KB, first-fit with coalescing.'' [Num (heap_total div 1024)] k9;
                          k11 = print_line ''TSS + ring 3 ready. Syscall gate at int 0x80, DPL 3.'' [] k10;
                          k12 = print_line ''Scheduler running: preemptive round robin, with sleeping.'' [] k11;
                          k13 = kprintf_demo pf (report_disk k12);
                          ints3 = timer_install (irq_io pf) (a_timer_handler pf) ints2;
                          (cb, ints4) = keyboard_install (irq_io pf) (a_keyboard_irq pf) (Some (shell_callback (mach pf))) ints3;
                          k14 = shell_init (k13\<lparr>eflags := eflags k13 OR 0x200\<rparr>)
                      in Some (Up \<lparr>kern = k14, seg = seg2, ints = ints4\<rparr>))))))"

end
