(* ===== verification/BootCorrect.thy ===== *)
theory BootCorrect
  imports Boot UserPages
begin

text \<open>
  What \<open>kernel_main\<close> hands over to the shell: the invariants that the theorems about the single parts start from, and
  the pages that ring 3 can reach.
\<close>

section \<open>Reporting changes nothing else\<close>

text \<open>The state apart from the screen, the disk, the guard, the TSS and the flags.\<close>

definition core ::
  "('d, 'v) shell kernel \<Rightarrow>
   bytes \<times> (u32 \<Rightarrow> task) \<times> (u32 \<times> u32 \<times> u32 \<times> bool) \<times> kheap \<times> paging \<times> (u8 list \<times> u32) \<times> u32" where
  "core k = (memory k, tasks k, (current k, task_ring k, next_id k, enabled k), heap k, mm k, line_of k, user_stack_base (ext k))"

named_theorems core_kept

lemma core_console [core_kept]: "core (console_write t k) = core k"
  by (simp add: core_def console_write_def line_of_def)

lemma core_print [core_kept]: "core (print f as k) = core k" "core (print_line f as k) = core k" "core (write_text t k) = core k"
  by (simp_all add: print_line_def write_text_def print_def Let_def core_kept)

lemma core_ext [core_kept]:
  "core (on_screen vio f k) = core k" "core (ssp_init t k) = core k" "core (colour pf c k) = core k" "core (set_volume v k) = core k"
  "core (tss_set_kernel_stack e k) = core k" "core (k\<lparr>eflags := fl\<rparr>) = core k"
  by (simp_all add: core_def on_screen_def drain_def ssp_init_def colour_def set_volume_def set_sys_def tss_set_kernel_stack_def
      line_of_def)

lemma core_report [core_kept]:
  "core (banner pf k) = core k" "core (report pf b k) = core k" "core (report_disk k) = core k" "core (kprintf_demo pf k) = core k"
  by (simp_all add: banner_def report_def report_disk_def kprintf_demo_def Let_def core_kept)

lemma core_boot_disk [core_kept]: "core (boot_disk io k) = core k"
  by (auto simp: boot_disk_def on_volume_def Let_def core_kept split: prod.splits)

lemma core_cpuprot:
  "cpuprot_init ebx k = (ok, k') \<Longrightarrow> core k' = core (k\<lparr>mm := (mm k)\<lparr>r_cr4 := r_cr4 (mm k')\<rparr>\<rparr>)"
  by (auto simp: cpuprot_init_def Let_def core_def set_sys_def line_of_def)

lemma core_eqD:
  assumes "core k' = core k"
  shows "memory k' = memory k" "tasks k' = tasks k" "current k' = current k" "task_ring k' = task_ring k" "next_id k' = next_id k"
    "enabled k' = enabled k" "heap k' = heap k" "mm k' = mm k" "line_of k' = line_of k" "user_stack_base (ext k') = user_stack_base (ext k)"
  using assms by (simp_all add: core_def)

section \<open>Where the image lies\<close>

text \<open>
  What the linker script promises about the addresses of the platform: the kernel is loaded at 1 MB, its static page
  tables are aligned and inside the image, and the code for ring 3 and the constants are inside it, too.
\<close>

definition image_ok :: "('d, 'v, 'i) platform \<Rightarrow> paging \<Rightarrow> bool" where
  "image_ok pf s \<longleftrightarrow> 0x100000 \<le> unat (a_kernel_end pf) \<and>
     unat (kernel_pdpt s) mod 32 = 0 \<and> unat (kernel_pd s) mod 4096 = 0 \<and> page_no (kernel_pdpt s) \<noteq> page_no (kernel_pd s) \<and>
     0x100000 \<le> unat (kernel_pdpt s) \<and> kernel_pdpt s < a_kernel_end pf \<and>
     0x100000 \<le> unat (kernel_pd s) \<and> kernel_pd s < a_kernel_end pf \<and>
     a_rodata_end pf \<le> a_kernel_end pf \<and> a_user_text_end pf \<le> a_kernel_end pf"

text \<open>The static data before the first instruction of \<open>kernel_main\<close>.\<close>

definition cold :: "('d, 'v) shell kernel \<Rightarrow> bool" where
  "cold k \<longleftrightarrow> heap_start (heap k) = 0 \<and> \<not> enabled k \<and> next_id k = 0 \<and> length (line_buffer (ext k)) = SHELL_BUFFER_SIZE"

text \<open>The frames of the image are reserved.\<close>

lemma image_reserved:
  assumes flag: "mb_flags mbi AND MULTIBOOT_INFO_MEM_MAP \<noteq> 0" and walk: "mmap_walk m mbi 0 es"
    and init: "pmm_init m ke m mbi = Some p" and ke: "0x100000 \<le> unat ke" "unat ke \<le> unat (total_frames p) * 4096"
      "total_frames p \<le> 0x40000"
  shows "pmm_ok p" "\<And>f. f * 4096 < unat ke \<Longrightarrow> f \<in> frames_owned p"
proof -
  have tp: "unat (total_frames p) \<le> 262144" using ke(3) by (simp add: word_le_nat_alt)
  then have le: "unat ke \<le> 0xF0000000" using ke(2) by simp
  obtain p' where p': "pmm_init m ke m mbi = Some p'" "pmm_inv p'"
    "\<forall>f < total_frames p'. unat f * 4096 < unat (bitmap_addr_of ke) + (unat (total_frames p') + 7) div 8 \<longrightarrow> frame_test f p'"
    using pmm_init_ok [OF flag walk ke(1) le, of m] by blast
  have p: "p' = p" using p'(1) init by simp
  have b: "unat ke \<le> unat (bitmap_addr_of ke)" using unat_bitmap_addr [of ke] le by simp
  show own: "f \<in> frames_owned p" if f: "f * 4096 < unat ke" for f
  proof -
    have lt: "f < unat (total_frames p)" using f ke(2) by linarith
    then have u: "unat (word_of_nat f :: u32) = f" using tp by (intro unat32_of_nat) simp
    then have w: "word_of_nat f < total_frames p" using lt by (simp add: word_less_nat_alt)
    have "f * 4096 < unat (bitmap_addr_of ke) + (unat (total_frames p) + 7) div 8" using f b by linarith
    then have "frame_test (word_of_nat f) p" using p'(3) [unfolded p, rule_format, OF w] u by simp
    then show ?thesis using frames_owned_iff [of "word_of_nat f" p] w u by simp
  qed
  from own [of 0] ke(1) have "0 \<in> frames_owned p" by simp
  then have "0 \<in> used_set p" by (auto simp: frames_owned_def unat_eq_0)
  then show "pmm_ok p" using p'(2) p by (simp add: pmm_ok_def)
qed

lemma image_tables:
  assumes "image_ok pf s" "\<And>f. f * 4096 < unat (a_kernel_end pf) \<Longrightarrow> f \<in> frames_owned p" "pmm_ok p"
  shows "static_tables (s\<lparr>table_frames := p\<rparr>)"
proof -
  have own: "page_no a \<in> frames_owned p \<and> page_no a \<noteq> 0" if "a < a_kernel_end pf" "0x100000 \<le> unat a" for a
  proof -
    have "page_no a * 4096 \<le> unat a" by (simp add: page_no_def)
    then show ?thesis using assms(2) [of "page_no a"] that by (simp add: word_less_nat_alt) (simp add: page_no_def)
  qed
  then show ?thesis using assms(1,3) by (simp add: static_tables_def image_ok_def)
qed


section \<open>The stages\<close>

lemma kheap_init_stage:
  assumes "pmm_ok p" "heap_start h0 = 0" "kheap_init p h0 = (h, p')"
  shows "pmm_ok p'" "frames_owned p \<subseteq> frames_owned p'" "total_frames p' = total_frames p"
    "h = h0 \<or> heap_rep h [(1048552, True)]"
proof -
  obtain b p1 where al: "pmm_alloc_frames HEAP_FRAMES p = (b, p1)" by fastforce
  have p': "p' = p1" and h: "b = 0 \<Longrightarrow> h = h0" using assms(3) al by (auto simp: kheap_init_def split: if_splits)
  show "pmm_ok p'" using pmm.allocs_ok [OF assms(1), of HEAP_FRAMES] al p' by simp
  show "frames_owned p \<subseteq> frames_owned p'"
    using pmm.allocs_none [OF assms(1)] pmm.allocs_some [OF assms(1) al] al p' by (cases "b = 0") auto
  show "total_frames p' = total_frames p" using pmm_alloc_frames_keeps [of p HEAP_FRAMES] assms(1) al p' by (simp add: pmm_ok_def)
  show "h = h0 \<or> heap_rep h [(1048552, True)]"
  proof (cases "b = 0")
    case False
    then show ?thesis using kheap_init_rep(1) [of p b p1 h0] al assms(1,3) by (simp add: HEAP_FRAMES_def)
  qed (use h in simp)
qed

lemma task_init_stage:
  assumes "heap_start (heap k) = 0 \<or> heap_rep (heap k) [(1048552, True)]" "\<not> enabled k" "next_id k = 0" "cr3 k = kernel_dir k"
  shows "\<exists>k'. task_init e k = Some k' \<and> mm k' = mm k \<and> ext k' = ext k \<and>
    (if enabled k' then sched_inv k' [current k'] \<and> ring_live k' [current k'] else heap_start (heap k') = 0) \<and>
    (\<exists>x. kheap_stats (heap k') = Some x)"
proof (cases "heap_start (heap k) = 0")
  case True
  then have "task_init e k = Some k" by (simp add: task_init_def kmalloc_def)
  then show ?thesis using True assms(2) by (simp add: kheap_stats_def stats_walk.simps)
next
  case False
  then have rep: "heap_rep (heap k) [(1048552, True)]" using assms(1) by simp
  have "seg_alloc 328 [(1048552, True)] = Some (0, [(328, False), (1048200, True)])"
    by (simp add: seg_alloc_def seg_fits_def seg_split_def)
  then have fit: "seg_alloc (unat (ALIGN_UP sizeof_task)) [(1048552, True)] \<noteq> None"
    by (simp add: sizeof_task_def ALIGN_UP_nat)
  have sz: "sizeof_task \<noteq> 0" "sizeof_task \<le> 0xFFFFFFF8" by (simp_all add: sizeof_task_def)
  from rep sz obtain t h where t: "kmalloc sizeof_task (heap k) = Some (t, h)" "t \<noteq> 0"
    by (cases rule: kmalloc_cases) (use fit in \<open>auto simp: seg_alloc_None\<close>)
  have ok: "heap_ok (heap k)" using rep by (auto simp: heap_ok_def)
  then have "ring_live k []" by (simp add: ring_live_def)
  note fr = fresh_task [OF this t]
  obtain k' where run: "task_init e k = Some k'" and k': "heap k' = h" "current k' = t" "enabled k'" "mm k' = mm k" "ext k' = ext k"
    using t by (auto simp: task_init_def set_task_def)
  have "sched_inv k' [current k']" using run k'(3) assms(2-4) by (rule task_init_inv)
  moreover have "ring_live k' [current k']" using fr(2,4) k' by (simp add: ring_live_def)
  moreover obtain ss where "heap_rep h ss" using fr(2) by (auto simp: heap_ok_def)
  then have "\<exists>x. kheap_stats (heap k') = Some x" using kheap_stats_rep k'(1) by blast
  ultimately show ?thesis using run k' by simp
qed


text \<open>
  The address space after boot: \<open>n\<close> bytes mapped to themselves; \<open>ro\<close> are the read-only pages of the kernel, \<open>b\<close> is the
  stack for ring 3 (0: none, and then nothing is open to ring 3), and the code for ring 3 lies from \<open>ts\<close> to \<open>te\<close>.
\<close>

definition boot_map ::
  "nat \<Rightarrow> (nat \<Rightarrow> bool) \<Rightarrow> bool \<Rightarrow> u32 \<Rightarrow> u32 \<Rightarrow> u32 \<Rightarrow> u32 \<Rightarrow> (u32 \<times> bool \<times> bool \<times> bool) option" where
  "boot_map n ro nx ts te b va =
     (let q = page_no va;
          code = (b \<noteq> 0 \<and> unat ts div 4096 \<le> q \<and> q < (unat te + 4095) div 4096);
          stk = (b \<noteq> 0 \<and> unat b div 4096 \<le> q \<and> q < unat b div 4096 + 2)
      in if unat va < n then Some (va AND NOT 4095, stk \<or> \<not> code \<and> \<not> ro q, code \<or> stk, stk \<and> nx) else None)"

lemma owned_below: "f \<in> frames_owned p \<Longrightarrow> f < unat (total_frames p)"
  by (auto simp: frames_owned_def used_set_def word_less_nat_alt)

lemma user_stack_frames:
  assumes "pmm_ok p" "pmm_alloc_frames USER_STACK_FRAMES p = (b, p')" "b \<noteq> 0" "total_frames p \<le> 0x40000"
  shows "pmm_ok p'" "unat b mod 4096 = 0" "unat b + 8192 \<le> unat (total_frames p) * 4096" "frames_owned p \<subseteq> frames_owned p'"
    "unat b div 4096 \<notin> frames_owned p" "unat (b + USER_STACK_FRAMES * PAGE_SIZE) = unat b + 8192"
proof -
  note a = pmm.allocs_some [OF assms(1,2,3), unfolded USER_STACK_FRAMES_def, simplified]
  show "pmm_ok p'" "unat b mod 4096 = 0" "frames_owned p \<subseteq> frames_owned p'" using a by auto
  have "unat b div 4096 \<in> {unat b div 4096..<Suc (Suc (unat b div 4096))}" by simp
  then show "unat b div 4096 \<notin> frames_owned p" using a by (metis IntI emptyE)
  have t: "total_frames p' = total_frames p"
    using pmm_alloc_frames_keeps [of p USER_STACK_FRAMES] assms(1,2) by (simp add: pmm_ok_def)
  have "unat b div 4096 + 1 \<in> frames_owned p'" using a by auto
  then have "unat b div 4096 + 1 < unat (total_frames p)" using owned_below t by metis
  then have "(unat b div 4096 + 2) * 4096 \<le> unat (total_frames p) * 4096" by (intro mult_le_mono1) simp
  moreover have "unat b = unat b div 4096 * 4096" using a by auto
  ultimately show le: "unat b + 8192 \<le> unat (total_frames p) * 4096" by (simp add: add_mult_distrib)
  have "unat (total_frames p) \<le> 262144" using assms(4) by (simp add: word_le_nat_alt)
  then show "unat (b + USER_STACK_FRAMES * PAGE_SIZE) = unat b + 8192"
    using le by (subst unat32_plus) (simp_all add: USER_STACK_FRAMES_def)
qed

lemma usermode_stage:
  assumes wf: "wf_space (mm k) r" "active_pdpt (mm k) = r" and tot: "total_frames (frames k) \<le> 0x40000" "unat (total_frames (frames k)) * 4096 \<le> n"
    and n: "4096 dvd n" "n \<le> 2 ^ 30" "unat te \<le> n"
    and m: "\<And>va. mmu (mm k) r va = (if unat va < n then Some (va AND NOT 4095, \<not> ro (page_no va), False, False) else None)"
  shows "\<exists>k' b. usermode_init ts te k = Some k' \<and> b = user_stack_base (ext k') \<and> pmm_ok (frames k') \<and> wf_space (mm k') r \<and>
    (\<forall>va. mmu (mm k') r va = boot_map n ro (nx_supported (mm k)) ts te b va) \<and>
    mm k' = (mm k)\<lparr>slots := slots (mm k'), table_frames := frames k'\<rparr> \<and> (b \<noteq> 0 \<longrightarrow> unat b div 4096 \<notin> frames_owned (frames k)) \<and>
    enabled k' = enabled k \<and> next_id k' = next_id k \<and> heap k' = heap k \<and> line_of k' = line_of k"
proof -
  have ok: "pmm_ok (frames k)" using wf(1) by (rule wf_space_frames)
  obtain b p where al: "pmm_alloc_frames USER_STACK_FRAMES (frames k) = (b, p)" by fastforce
  show ?thesis
  proof (cases "b = 0")
    case True
    have p: "p = frames k" using pmm.allocs_none [OF ok] al True by simp
    have "usermode_init ts te k = Some (say (ascii (''usermode: no memory for a user stack'' @ [CHR 0x0A])) [] (set_sys (\<lambda>s. s\<lparr>user_stack_base := 0\<rparr>) k))"
      using al True p by (simp add: usermode_init_def)
    then show ?thesis using ok wf(1) m True
      by (simp add: boot_map_def say_def console_write_def set_sys_def line_of_def Let_def)
  next
    case False
    note st = user_stack_frames [OF ok al False tot(1)]
    define m0 where "m0 = (mm k)\<lparr>table_frames := p\<rparr>"
    have same: "mmu m0 r va = mmu (mm k) r va" for va
      using space_untouched(2) [OF wf(1), of m0] st(1,4) by (simp add: m0_def)
    have wf0: "wf_space m0 r" "active_pdpt m0 = r"
      using space_untouched(1) [OF wf(1), of m0] st(1,4) wf(2) by (simp_all add: m0_def)
    have inn: "unat v < n" if "page_no v < (x + 4095) div 4096" "x \<le> n" for v x
    proof -
      obtain c where c: "n = 4096 * c" using n(1) by blast
      then have "(x + 4095) div 4096 \<le> c" using that(2) by simp
      then show ?thesis using that(1) c by (simp add: page_no_def)
    qed
    have te: "te \<le> 0xFFFFF000" using n(2,3) by (simp add: word_le_nat_alt)
    obtain m1 where m1: "paging_make_user ts te False m0 = Some m1" "wf_space m1 r" "m1 = m0\<lparr>slots := slots m1\<rparr>"
      "\<And>v. mmu m1 r v = (if unat ts div 4096 \<le> page_no v \<and> page_no v < (unat te + 4095) div 4096
         then map_option (\<lambda>(pa, _). (pa, False, True, nx_supported m0 \<and> False)) (mmu m0 r v) else mmu m0 r v)"
      using paging_make_user_mmu [OF wf0 te, of ts False] inn [OF _ n(3)] same m by auto
    note k1 = arg_cong [OF m1(3), of active_pdpt, simplified] arg_cong [OF m1(3), of nx_supported, simplified]
    let ?e = "b + USER_STACK_FRAMES * PAGE_SIZE"
    have e: "?e \<le> 0xFFFFF000" "(unat ?e + 4095) div 4096 = unat b div 4096 + 2" "unat ?e \<le> n"
      using st(2,3,6) tot n(2) by (auto simp: word_le_nat_alt)
    obtain m2 where m2: "paging_make_user b ?e True m1 = Some m2" "wf_space m2 r" "m2 = m1\<lparr>slots := slots m2\<rparr>"
      "\<And>v. mmu m2 r v = (if unat b div 4096 \<le> page_no v \<and> page_no v < unat b div 4096 + 2
         then map_option (\<lambda>(pa, _). (pa, True, True, nx_supported m1 \<and> True)) (mmu m1 r v) else mmu m1 r v)"
    proof -
      have mp: "mmu m1 r v \<noteq> None" if "page_no v < (unat ?e + 4095) div 4096" for v
        using inn [OF that e(3)] unfolding m1(4) same m by (simp del: not_None_eq)
      have "active_pdpt m1 = r" using k1(1) wf0(2) by simp
      from paging_make_user_mmu [OF m1(2) this e(1) mp, of b True, unfolded e(2)] show thesis
        using that by auto
    qed
    define k' where "k' = tss_set_kernel_stack 0 (syscall_set_user_range ts ?e
      ((set_sys (\<lambda>s. s\<lparr>user_stack_top := ?e\<rparr>) (set_sys (\<lambda>s. s\<lparr>user_stack_base := b\<rparr>) (set_frames p k)))\<lparr>mm := m2\<rparr>))"
    have run: "usermode_init ts te k = Some k'"
      using al False m1(1) m2(1) by (simp add: usermode_init_def k'_def set_sys_def Let_def m0_def)
    have K: "user_stack_base (ext k') = b" "mm k' = m2" "enabled k' = enabled k" "next_id k' = next_id k" "heap k' = heap k" "line_of k' = line_of k"
      by (simp_all add: k'_def tss_set_kernel_stack_def syscall_set_user_range_def set_sys_def line_of_def)
    have fr: "m2 = (mm k)\<lparr>slots := slots m2, table_frames := table_frames m2\<rparr>" "table_frames m2 = p"
    proof -
      have s1: "m1\<lparr>slots := u\<rparr> = (mm k)\<lparr>slots := u, table_frames := p\<rparr>" for u
        using arg_cong [OF m1(3), of "\<lambda>z. z\<lparr>slots := u\<rparr>"] by (simp add: m0_def)
      have e: "m2 = (mm k)\<lparr>slots := slots m2, table_frames := p\<rparr>" by (rule m2(3) [unfolded s1])
      from arg_cong [OF e, of table_frames] show p2: "table_frames m2 = p" by simp
      show "m2 = (mm k)\<lparr>slots := slots m2, table_frames := table_frames m2\<rparr>" unfolding p2 by (rule e)
    qed
    have map: "mmu m2 r va = boot_map n ro (nx_supported (mm k)) ts te b va" for va
    proof -
      have nx: "nx_supported m1 = nx_supported (mm k)" "nx_supported m0 = nx_supported (mm k)" by (simp_all add: k1(2) m0_def)
      show ?thesis unfolding m2(4) m1(4) same m nx boot_map_def Let_def using False
        by (auto simp del: map_option_eq_Some intro: exI [of _ True] exI [of _ False])
    qed
    show ?thesis using run K map m2(2) fr st(1,5) False by (intro exI [of _ k'] exI [of _ b]) simp
  qed
qed


section \<open>The boot sequence\<close>

text \<open>
  A machine on which the kernel can start: a walkable memory map, at most 1 GB of memory which holds the whole image,
  enough free frames for the page tables, and the static data as the loader leaves them.
\<close>

definition bootable ::
  "('d, 'v, 'i) platform \<Rightarrow> multiboot_info \<Rightarrow> multiboot_mmap_entry list \<Rightarrow> pmm \<Rightarrow> ('d, 'v) shell kernel \<Rightarrow> bool" where
  "bootable pf mbi es p k \<longleftrightarrow> mb_flags mbi AND MULTIBOOT_INFO_MEM_MAP \<noteq> 0 \<and> mmap_walk (memory k) mbi 0 es \<and>
     pmm_init (memory k) (a_kernel_end pf) (memory k) mbi = Some p \<and> image_ok pf (mm k) \<and>
     unat (a_kernel_end pf) \<le> unat (total_frames p) * 4096 \<and> total_frames p \<le> 0x40000 \<and>
     tables_needed p \<le> unat (pmm_free_frames p) \<and> cold k"

lemma tables_cover:
  assumes "total_frames p \<le> 0x40000"
  shows "unat (total_frames p) * 4096 \<le> tables_needed p * 2097152" "tables_needed p * 2097152 \<le> 2 ^ 30"
    "4096 dvd tables_needed p * 2097152"
proof -
  let ?t = "unat (total_frames p)"
  have t: "?t \<le> 262144" using assms by (simp add: word_le_nat_alt)
  then have "tables_needed p = (?t + 511) div 512" by (simp add: tables_needed_def word_le_nat_alt)
  moreover have "?t \<le> (?t + 511) div 512 * 512"
    using div_mult_mod_eq [of "?t + 511" 512] mod_less_divisor [of 512 "?t + 511"] by linarith
  ultimately show "?t * 4096 \<le> tables_needed p * 2097152" by simp
  show "tables_needed p * 2097152 \<le> 2 ^ 30" using tables_needed_le [of p] by simp
  show "4096 dvd tables_needed p * 2097152" by (intro dvd_mult) simp
qed

text \<open>The kernel with its memory set up.\<close>

definition memory_up ::
  "('d, 'v, 'i) platform \<Rightarrow> pmm \<Rightarrow> ('d, 'v) shell kernel \<Rightarrow> ('d, 'v) shell kernel \<Rightarrow> bool" where
  "memory_up pf p k k' \<longleftrightarrow> wf_space (mm k') (kernel_dir k) \<and> active_pdpt (mm k') = kernel_dir k \<and> cr3 k' = kernel_dir k \<and>
     kernel_dir k' = kernel_dir k \<and> total_frames (frames k') = total_frames p \<and> frames_owned p \<subseteq> frames_owned (frames k') \<and>
     (\<forall>va. mmu (mm k') (kernel_dir k) va = (if unat va < tables_needed p * 2097152
        then Some (va AND NOT 4095, \<not> (unat (a_kernel_text_start (syms (mach pf))) div 4096 \<le> page_no va \<and>
          page_no va < (unat (a_rodata_end pf) + 4095) div 4096), False, False) else None)) \<and>
     (heap_start (heap k') = 0 \<or> heap_rep (heap k') [(1048552, True)]) \<and>
     enabled k' = enabled k \<and> next_id k' = next_id k \<and> line_of k' = line_of k"

lemma boot_memory_stage:
  assumes b: "bootable pf mbi es p (kern st)"
  shows "\<exists>st'. boot_memory pf mbi st = Some st' \<and> memory_up pf p (kern st) (kern st')"
proof -
  let ?k = "kern st" and ?r = "kernel_dir (kern st)" and ?n = "tables_needed p"
  let ?lo = "a_kernel_text_start (syms (mach pf))" and ?hi = "a_rodata_end pf"
  have B: "mb_flags mbi AND MULTIBOOT_INFO_MEM_MAP \<noteq> 0" "mmap_walk (memory ?k) mbi 0 es"
    "pmm_init (memory ?k) (a_kernel_end pf) (memory ?k) mbi = Some p" "image_ok pf (mm ?k)"
    "unat (a_kernel_end pf) \<le> unat (total_frames p) * 4096" "total_frames p \<le> 0x40000"
    "?n \<le> unat (pmm_free_frames p)" "heap_start (heap ?k) = 0" using b by (simp_all add: bootable_def cold_def)
  have ke: "0x100000 \<le> unat (a_kernel_end pf)" using B(4) by (simp add: image_ok_def)
  note res = image_reserved [OF B(1,2,3) ke B(5,6)]
  define s0 where "s0 = (mm ?k)\<lparr>table_frames := p\<rparr>"
  have st: "static_tables s0" unfolding s0_def by (rule image_tables [OF B(4) res(2,1)])
  have "unat (a_kernel_end pf) \<le> 2 ^ 30" using B(5,6) by (simp add: word_le_nat_alt)
  then have hi: "?hi \<le> 0xFFFFF000" using B(4) by (simp add: image_ok_def word_le_nat_alt)
  obtain s where s: "paging_init (cpuid_leaf pf) ?lo ?hi s0 = Some s" "paged ?lo ?hi s0 ?n s"
    using paging_init_cases [OF st hi, of "cpuid_leaf pf" ?lo] B(7) by (auto simp: s0_def)
  have P: "kernel_space s" "active_pdpt s = ?r" "r_cr3 s = ?r" "kernel_pdpt s = ?r" "total_frames (table_frames s) = total_frames p"
    "frames_owned p \<subseteq> frames_owned (table_frames s)"
    "\<And>va. mmu s ?r va = (if unat va < ?n * 2097152
        then Some (va AND NOT 4095, \<not> (unat ?lo div 4096 \<le> page_no va \<and> page_no va < (unat ?hi + 4095) div 4096), False, False) else None)"
    using s(2) unfolding paged_def s0_def by simp_all
  have wf: "wf_space s ?r" using P(1,4) by (simp add: kernel_space_def)
  obtain h p2 where h: "kheap_init (table_frames s) (heap ?k) = (h, p2)" by fastforce
  note hs = kheap_init_stage [OF wf_space_frames [OF wf] B(8) h]
  define s2 where "s2 = s\<lparr>table_frames := p2\<rparr>"
  have u: "wf_space s2 ?r" "\<And>va. mmu s2 ?r va = mmu s ?r va"
    using space_untouched(1,2) [OF wf, of s2] hs(1,2) by (simp_all add: s2_def)
  define k1 where "k1 = ?k\<lparr>mm := s2, heap := h\<rparr>"
  define k2 where "k2 = (if fst (pmm_alloc_frames HEAP_FRAMES (table_frames s)) = 0
     then print_line ''kheap: could not reserve %u KB'' [Num (HEAP_SIZE div 1024)] k1 else k1)"
  define st2 where "st2 = st\<lparr>kern := k2, ints := isr_install_handler 14 (a_page_fault_handler pf) (ints st)\<rparr>"
  have "boot_memory pf mbi st = Some st2" unfolding st2_def
    using B(3) s(1) h by (simp add: boot_memory_def s0_def s2_def k1_def k2_def Let_def)
  moreover have "kern st2 = k2" by (simp add: st2_def)
  moreover have c: "core k2 = core k1" by (simp add: k2_def core_kept)
  have "memory_up pf p ?k k2"
    unfolding memory_up_def core_eqD [OF c] k1_def using u P(2-7) hs(2-4) B(8) by (auto simp: s2_def line_of_def)
  ultimately show ?thesis by simp
qed


lemma image_frames:
  assumes "bootable pf mbi es p k" "unat b div 4096 \<notin> frames_owned q" "frames_owned p \<subseteq> frames_owned q"
  shows "unat (a_kernel_end pf) \<le> unat b"
proof -
  have B: "mb_flags mbi AND MULTIBOOT_INFO_MEM_MAP \<noteq> 0" "mmap_walk (memory k) mbi 0 es"
    "pmm_init (memory k) (a_kernel_end pf) (memory k) mbi = Some p" "0x100000 \<le> unat (a_kernel_end pf)"
    "unat (a_kernel_end pf) \<le> unat (total_frames p) * 4096" "total_frames p \<le> 0x40000"
    using assms(1) by (simp_all add: bootable_def image_ok_def)
  have "\<not> unat b div 4096 * 4096 < unat (a_kernel_end pf)" using image_reserved(2) [OF B] assms(2,3) by blast
  moreover have "unat b div 4096 * 4096 \<le> unat b" by simp
  ultimately show ?thesis by linarith
qed

text \<open>The state the shell starts from.\<close>

definition booted :: "('d, 'v, 'i) platform \<Rightarrow> pmm \<Rightarrow> ('d, 'v) shell kernel \<Rightarrow> ('d, 'v) shell kernel \<Rightarrow> bool" where
  "booted pf p k0 k \<longleftrightarrow> pmm_ok (frames k) \<and> shell_ok k \<and> ShellCorrect.typed k = [] \<and> bit (eflags k) 9 \<and>
     (if enabled k then sched_inv k [current k] \<and> ring_live k [current k] else heap_start (heap k) = 0) \<and>
     cr3 k = kernel_dir k0 \<and> wf_space (mm k) (cr3 k) \<and>
     (\<forall>va. mmu (mm k) (cr3 k) va = boot_map (tables_needed p * 2097152)
        (\<lambda>q. unat (a_kernel_text_start (syms (mach pf))) div 4096 \<le> q \<and> q < (unat (a_rodata_end pf) + 4095) div 4096)
        (nx_supported (mm k)) (a_user_text_start pf) (a_user_text_end pf) (user_stack_base (ext k)) va) \<and>
     (user_stack_base (ext k) \<noteq> 0 \<longrightarrow> unat (a_kernel_end pf) \<le> unat (user_stack_base (ext k)))"

text \<open>Tasks and ring 3 on top of the memory.\<close>

lemma tasks_stage:
  assumes b: "bootable pf mbi es p k0" and up: "memory_up pf p k0 k" and cold: "\<not> enabled k0" "next_id k0 = 0"
  shows "\<exists>k1 k2. usermode_init (a_user_text_start pf) (a_user_text_end pf) (tss_set_kernel_stack e k) = Some k1 \<and>
    task_init e k1 = Some k2 \<and> (\<exists>x. kheap_stats (heap k2) = Some x) \<and> line_of k2 = line_of k0 \<and>
    (\<forall>k3 c. core k3 = core (k2\<lparr>mm := (mm k2)\<lparr>r_cr4 := c\<rparr>\<rparr>) \<longrightarrow> length (line_buffer (ext k0)) = SHELL_BUFFER_SIZE \<longrightarrow>
       booted pf p k0 (shell_init (k3\<lparr>eflags := eflags k3 OR 0x200\<rparr>)))"
proof -
  let ?k = "tss_set_kernel_stack e k" and ?r = "kernel_dir k0" and ?n = "tables_needed p * 2097152"
  let ?ro = "\<lambda>q. unat (a_kernel_text_start (syms (mach pf))) div 4096 \<le> q \<and> q < (unat (a_rodata_end pf) + 4095) div 4096"
  have c: "core ?k = core k" by (simp add: core_kept)
  have U: "wf_space (mm ?k) ?r" "active_pdpt (mm ?k) = ?r" "total_frames (frames ?k) = total_frames p" "cr3 ?k = ?r" "kernel_dir ?k = ?r"
    "frames_owned p \<subseteq> frames_owned (frames ?k)" "\<And>va. mmu (mm ?k) ?r va = (if unat va < ?n then Some (va AND NOT 4095, \<not> ?ro (page_no va), False, False) else None)"
    "heap_start (heap ?k) = 0 \<or> heap_rep (heap ?k) [(1048552, True)]" "enabled ?k = enabled k0" "next_id ?k = next_id k0" "line_of ?k = line_of k0"
    using up unfolding memory_up_def core_eqD [OF c] by simp_all
  have B: "total_frames p \<le> 0x40000" "unat (a_user_text_end pf) \<le> unat (total_frames p) * 4096"
    using b by (auto simp: bootable_def image_ok_def word_le_nat_alt)
  note N = tables_cover [OF B(1)]
  have le: "total_frames (frames ?k) \<le> 0x40000" "unat (total_frames (frames ?k)) * 4096 \<le> ?n" "unat (a_user_text_end pf) \<le> ?n"
    using B N(1) U(3) by simp_all
  obtain k1 bs where k1: "usermode_init (a_user_text_start pf) (a_user_text_end pf) ?k = Some k1" "bs = user_stack_base (ext k1)"
    "pmm_ok (frames k1)" "wf_space (mm k1) ?r"
    "\<And>va. mmu (mm k1) ?r va = boot_map ?n ?ro (nx_supported (mm ?k)) (a_user_text_start pf) (a_user_text_end pf) bs va"
    "mm k1 = (mm ?k)\<lparr>slots := slots (mm k1), table_frames := frames k1\<rparr>" "bs \<noteq> 0 \<longrightarrow> unat bs div 4096 \<notin> frames_owned (frames ?k)"
    "enabled k1 = enabled ?k" "next_id k1 = next_id ?k" "heap k1 = heap ?k" "line_of k1 = line_of ?k"
    using usermode_stage [OF U(1,2) le(1,2) N(3,2) le(3) U(7), of "a_user_text_start pf"] by blast
  note m1 = arg_cong [OF k1(6), of r_cr3, simplified] arg_cong [OF k1(6), of kernel_pdpt, simplified] arg_cong [OF k1(6), of nx_supported, simplified]
  have pre: "heap_start (heap k1) = 0 \<or> heap_rep (heap k1) [(1048552, True)]" "\<not> enabled k1" "next_id k1 = 0" "cr3 k1 = kernel_dir k1"
    using U(4,5,8,9,10) cold k1(8,9,10) m1(1,2) by simp_all
  from task_init_stage [OF pre, of e] obtain k2 where k2: "task_init e k1 = Some k2" "mm k2 = mm k1" "ext k2 = ext k1"
    "if enabled k2 then sched_inv k2 [current k2] \<and> ring_live k2 [current k2] else heap_start (heap k2) = 0"
    "\<exists>x. kheap_stats (heap k2) = Some x" by blast
  have ln: "line_of k2 = line_of k0" using k2(3) k1(11) U(11) by (simp add: line_of_def)
  have "booted pf p k0 (shell_init (k3\<lparr>eflags := eflags k3 OR 0x200\<rparr>))"
    if c3: "core k3 = core (k2\<lparr>mm := (mm k2)\<lparr>r_cr4 := c\<rparr>\<rparr>)" and sh: "length (line_buffer (ext k0)) = SHELL_BUFFER_SIZE" for k3 c
  proof -
    define k where "k = shell_init (k3\<lparr>eflags := eflags k3 OR 0x200\<rparr>)"
    note C = core_eqD [OF c3, simplified]
    have K: "tasks k = tasks k2" "current k = current k2" "task_ring k = task_ring k2" "enabled k = enabled k2" "heap k = heap k2"
      "mm k = (mm k2)\<lparr>r_cr4 := c\<rparr>" "user_stack_base (ext k) = bs" "bit (eflags k) 9"
      using C k1(2) k2(3)
      by (simp_all add: k_def shell_init_def prompt_def print_def console_write_def set_length_def set_sys_def Let_def bit_or_iff bit_numeral_rec)
    have L: "line_buffer (ext k) = line_buffer (ext k0)" "buffer_length (ext k) = 0"
      using C(9) ln by (simp_all add: k_def shell_init_def prompt_def print_def console_write_def set_length_def set_sys_def line_of_def Let_def)
    have cr: "cr3 k = ?r" "kernel_dir k = kernel_dir k2" "cr3 k2 = ?r" "nx_supported (mm k) = nx_supported (mm ?k)"
      using U(4) m1 k2(2) by (simp_all add: K(6))
    have wk: "wf_space (mm k) ?r" "mmu (mm k) ?r va = mmu (mm k1) ?r va" for va
      using space_untouched(1,2) [OF k1(4), of "mm k"] k1(3) by (simp_all add: K(6) k2(2))
    have "sched_inv k [current k]" if "enabled k"
      using k2(4) that K(1-4) cr(1-3) sched_inv_cong [of k2 "[current k2]" k] by simp
    moreover have "ring_live k [current k]" if "enabled k" using k2(4) that K(2,4,5) by (simp add: ring_live_def)
    moreover have "pmm_ok (frames k)" using k1(3) k2(2) by (simp add: K(6))
    moreover have "shell_ok k \<and> ShellCorrect.typed k = []" using sh L by (simp add: shell_ok_def ShellCorrect.typed_def)
    moreover have "bs \<noteq> 0 \<longrightarrow> unat (a_kernel_end pf) \<le> unat bs" using k1(7) image_frames [OF b _ U(6), of bs] by blast
    ultimately show ?thesis unfolding k_def [symmetric] booted_def cr(1) K(7) wk(2) k1(5) cr(4)
      using K(8,4,5) wk(1) k2(4) by simp
  qed
  then show ?thesis using k1(1) k2 ln by blast
qed


lemma bootable_cong:
  assumes "bootable pf mbi es p k" "core k' = core k"
  shows "bootable pf mbi es p k'"
  using assms(1) core_eqD [OF assms(2)] by (simp add: bootable_def cold_def line_of_def)

lemma kernel_main_up:
  assumes b: "bootable pf mbi es p (kern st)"
  shows "\<exists>st'. kernel_main pf MULTIBOOT_BOOTLOADER_MAGIC mbi st = Some (Up st') \<and> booted pf p (kern st) (kern st') \<and>
    seg st' = tss_install (a_tss pf) (esp_main pf) (gdt_install (a_gdt pf) (seg st))"
proof -
  let ?vio = "vga_io (mach pf)" and ?io = "disk_io (mach pf)"
  define st1 where "st1 = st\<lparr>kern := banner pf (on_screen ?vio (terminal_initialise ?vio) (ssp_init (tsc_now pf) (kern st))),
    seg := gdt_install (a_gdt pf) (seg st), ints := idt_install (irq_io pf) (isr_stub pf) (irq_stub pf) (a_idt pf) (ints st)\<rparr>"
  have s1: "kern st1 = banner pf (on_screen ?vio (terminal_initialise ?vio) (ssp_init (tsc_now pf) (kern st)))" "seg st1 = gdt_install (a_gdt pf) (seg st)"
    by (simp_all add: st1_def)
  have c1: "core (kern st1) = core (kern st)" by (simp add: s1 core_kept)
  have b1: "bootable pf mbi es p (kern st1)" using b c1 by (rule bootable_cong)
  obtain st2 where st2: "boot_memory pf mbi st1 = Some st2" "memory_up pf p (kern st1) (kern st2)"
    using boot_memory_stage [OF b1] by blast
  have sg: "seg st2 = seg st1" using st2(1) by (auto simp: boot_memory_def Let_def bind_eq_Some_conv case_prod_unfold)
  have cold: "\<not> enabled (kern st1)" "next_id (kern st1) = 0" "length (line_buffer (ext (kern st1))) = SHELL_BUFFER_SIZE"
    using b1 by (simp_all add: bootable_def cold_def)
  obtain k3 k4 where k: "usermode_init (a_user_text_start pf) (a_user_text_end pf) (tss_set_kernel_stack (esp_main pf) (kern st2)) = Some k3"
    "task_init (esp_main pf) k3 = Some k4" "\<exists>x. kheap_stats (heap k4) = Some x"
    "\<And>k5 c. core k5 = core (k4\<lparr>mm := (mm k4)\<lparr>r_cr4 := c\<rparr>\<rparr>) \<Longrightarrow> booted pf p (kern st1) (shell_init (k5\<lparr>eflags := eflags k5 OR 0x200\<rparr>))"
    using tasks_stage [OF b1 st2(2) cold(1,2), of "esp_main pf"] cold(3) by blast
  define k7 where "k7 = print_line ''Stack canaries active (real guard, not %%gs default).'' []
    (print_line ''GDT installed: 5 entries, flat model, ring 0 + ring 3 ready.'' [] (colour pf VGA_LIGHT_GREEN (boot_disk ?io k4)))"
  have c7: "core k7 = core k4" by (simp add: k7_def core_kept)
  obtain ok k8 where k8: "cpuprot_init (cpuid7_ebx pf) k7 = (ok, k8)" by fastforce
  define k9 where "k9 = report pf ok k8"
  have c9: "core k9 = core (k7\<lparr>mm := (mm k7)\<lparr>r_cr4 := r_cr4 (mm k8)\<rparr>\<rparr>)"
    using core_cpuprot [OF k8] by (simp add: k9_def core_kept)
  have "heap k9 = heap k4" using core_eqD(7) [OF c9] core_eqD(7) [OF c7] by simp
  then obtain t u n where hs: "kheap_stats (heap k9) = Some (t, u, n)" using k(3) by (metis prod_cases3)
  define k13 where "k13 = kprintf_demo pf (report_disk (print_line ''Scheduler running: preemptive round robin, with sleeping.'' []
    (print_line ''TSS + ring 3 ready. Syscall gate at int 0x80, DPL 3.'' []
      (print_line ''Heap  ready: %u KB, first-fit with coalescing.'' [Num (t div 1024)] k9))))"
  have c13: "core k13 = core k9" by (simp add: k13_def core_kept)
  define ints4 where "ints4 = snd (keyboard_install (irq_io pf) (a_keyboard_irq pf) (Some (shell_callback (mach pf)))
    (timer_install (irq_io pf) (a_timer_handler pf) (syscall_install (a_syscall_dispatch pf) (ints st2))))"
  define st' where "st' = \<lparr>kern = shell_init (k13\<lparr>eflags := eflags k13 OR 0x200\<rparr>),
    seg = tss_install (a_tss pf) (esp_main pf) (seg st2), ints = ints4\<rparr>"
  have run: "kernel_main pf MULTIBOOT_BOOTLOADER_MAGIC mbi st = Some (Up st')"
    unfolding kernel_main_def Let_def st1_def [symmetric]
    by (simp add: st2(1) k(1,2) k7_def [symmetric] k8 k9_def [symmetric] hs k13_def [symmetric] st'_def ints4_def keyboard_install_def)
  have "core k13 = core (k4\<lparr>mm := (mm k4)\<lparr>r_cr4 := r_cr4 (mm k8)\<rparr>\<rparr>)"
    using c13 c9 c7 by (simp add: core_def line_of_def)
  from k(4) [OF this] have "booted pf p (kern st1) (kern st')" by (simp add: st'_def)
  then have "booted pf p (kern st) (kern st')" unfolding booted_def core_eqD(8) [OF c1] .
  then show ?thesis using run sg s1(2) by (intro exI [of _ st']) (simp add: st'_def)
qed


section \<open>Properties\<close>


text \<open>
  (C35) The address space after boot: memory is mapped to itself; ring 3 reaches exactly the pages of its own code, read-only, and
  of its stack, writable and not executable where the CPU can forbid it; the stack lies behind the kernel image; the code and
  constants of the kernel are read-only for the kernel, too; and nothing is open to ring 3 when there was no memory for the stack.
\<close>

theorem boot_isolates_ring3:
  assumes "bootable pf mbi es p (kern st)" "kernel_main pf MULTIBOOT_BOOTLOADER_MAGIC mbi st = Some (Up st')"
    "k = kern st'" "b = user_stack_base (ext k)"
  shows "wf_space (mm k) (cr3 k) \<and>
    (\<forall>va. mmu (mm k) (cr3 k) va = (if unat va < tables_needed p * 2097152
       then let q = page_no va;
                code = (b \<noteq> 0 \<and> unat (a_user_text_start pf) div 4096 \<le> q \<and> q < (unat (a_user_text_end pf) + 4095) div 4096);
                stk = (b \<noteq> 0 \<and> unat b div 4096 \<le> q \<and> q < unat b div 4096 + 2);
                ro = (unat (a_kernel_text_start (syms (mach pf))) div 4096 \<le> q \<and> q < (unat (a_rodata_end pf) + 4095) div 4096)
            in Some (va AND NOT 4095, stk \<or> \<not> code \<and> \<not> ro, code \<or> stk, stk \<and> nx_supported (mm k))
       else None)) \<and>
    (b \<noteq> 0 \<longrightarrow> unat (a_kernel_end pf) \<le> unat b)"
  using kernel_main_up [OF assms(1)] assms(2-4) by (auto simp: booted_def boot_map_def Let_def)

definition example_platform :: "(unit, unit, bool \<Rightarrow> chip) platform" where
  "example_platform = \<lparr>mach = example_machine null_io, irq_io = pic_io, isr_stub = \<lambda>_. 0x100100, irq_stub = \<lambda>_. 0x100200,
     a_gdt = 0x112000, a_idt = 0x113000, a_tss = 0x114000, a_page_fault_handler = 0x100300, a_syscall_dispatch = 0x100400,
     a_timer_handler = 0x100500, a_keyboard_irq = 0x100600, a_kernel_end = 0x120000, a_rodata_end = 0x10F000,
     a_user_text_start = 0x108000, a_user_text_end = 0x109000, cpuid_leaf = \<lambda>_. (0, 0), cpuid7_ebx = 0, tsc_now = 7,
     esp_main = 0x11F000\<rparr>"

definition example_system :: "(unit, unit, bool \<Rightarrow> chip) system" where
  "example_system = \<lparr>kern = starting_shell\<lparr>memory := example_memory, heap := example_heap\<lparr>heap_start := 0\<rparr>,
       mm := example_space\<lparr>kernel_pdpt := 0x110000, kernel_pd := 0x111000\<rparr>\<rparr>,
     seg = boot_segmentation, ints = boot_interrupts\<rparr>"


text \<open>The allocator on the example machine: 1024 frames, those behind the image are free.\<close>

lemma example_pmm_init:
  obtains p where "pmm_init example_memory 0x120000 example_memory example_mbi = Some p" "total_frames p = 1024"
    "2 \<le> unat (pmm_free_frames p)"
proof -
  define e where "e = mmap_entry_at example_memory 0x1000"
  have w: "mmap_walk example_memory example_mbi 0 [e]"
    by (simp add: e_def example_mbi_def example_memory_def mmap_entry_at_def read32_def write32_def)
  have e: "multiboot_mmap_entry.e_type e = 1" "e_addr e = 0" "e_len e = 0x400000"
    by (simp_all add: e_def mmap_entry_at_def example_memory_def read32_def read64_def write32_def)
  define p0 where "p0 = \<lparr>bitmap = kmemset example_memory 0 0xFF ((1024 + 7) div 8), total_frames = 1024, used_frames = 1024\<rparr>"
  define p where "p = claim_kernel 0x120000 ((1024 + 7) div 8) (free_entry e p0)"
  have run: "pmm_init example_memory 0x120000 example_memory example_mbi = Some p"
  proof -
    have "mb_flags example_mbi AND MULTIBOOT_INFO_MEM_MAP \<noteq> 0" by (simp add: example_mbi_def MULTIBOOT_INFO_MEM_MAP_def)
    then show ?thesis using e by (simp add: pmm_init_def find_highest_walk [OF w] free_available_walk [OF w] raise_highest_def
        MULTIBOOT_MEMORY_AVAILABLE_def p_def p0_def Let_def)
  qed
  have t: "total_frames p = 1024" by (simp add: p_def p0_def)
  have inv: "pmm_inv p"
    unfolding p_def p0_def by (intro claim_kernel_inv free_entry_inv boot_state_inv) simp
  have free: "\<not> frame_test f p" if "f \<in> {0x200, 0x201}" for f
  proof -
    have f: "f < 1024" "unat f * 4096 < 0x400000" "0x200 \<le> unat f" using that by auto
    have "\<not> frame_test f (free_entry e p0)"
      using e f mark_region_test [of f p0 0 "0x400000" False]
      by (simp add: free_entry_def MULTIBOOT_MEMORY_AVAILABLE_def Let_def p0_def)
    moreover have "unat (bitmap_addr_of 0x120000) = 0x120000" by (simp add: unat_bitmap_addr)
    ultimately show ?thesis
      unfolding p_def using f by (subst claim_kernel_test) (simp_all add: p0_def unat_div)
  qed
  have "card {0x200, 0x201 :: u32} \<le> card {f. f < total_frames p \<and> \<not> frame_test f p}"
    using free t by (intro card_mono) auto
  then have "2 \<le> unat (pmm_free_frames p)" using free_frames_count [OF inv] by simp
  with run t show thesis by (rule that)
qed

lemma example_bootable:
  obtains p es where "bootable example_platform example_mbi es p (kern example_system)"
proof -
  obtain p where p: "pmm_init example_memory 0x120000 example_memory example_mbi = Some p" "total_frames p = 1024"
    "2 \<le> unat (pmm_free_frames p)" by (rule example_pmm_init)
  have w: "mmap_walk example_memory example_mbi 0 [mmap_entry_at example_memory 0x1000]"
    by (simp add: example_mbi_def example_memory_def mmap_entry_at_def read32_def write32_def)
  have "tables_needed p = 2" by (simp add: tables_needed_def p(2))
  then have "bootable example_platform example_mbi [mmap_entry_at example_memory 0x1000] p (kern example_system)"
    using p w by (simp add: bootable_def image_ok_def cold_def example_platform_def example_system_def page_no_def)
      (simp add: example_mbi_def MULTIBOOT_INFO_MEM_MAP_def starting_shell_def shell_kernel_def SHELL_BUFFER_SIZE_def)
  then show thesis by (rule that)
qed


theorem boot_isolates_ring3_witness:
  "\<exists>st'. kernel_main example_platform MULTIBOOT_BOOTLOADER_MAGIC example_mbi example_system = Some (Up st') \<and>
     mmu (mm (kern st')) (cr3 (kern st')) 0x100123 = Some (0x100000, False, False, False)"
proof -
  obtain p es where b: "bootable example_platform example_mbi es p (kern example_system)" by (rule example_bootable)
  then obtain st' where st': "kernel_main example_platform MULTIBOOT_BOOTLOADER_MAGIC example_mbi example_system = Some (Up st')"
    using kernel_main_up by blast
  have pf: "a_user_text_start example_platform = 0x108000" "a_user_text_end example_platform = 0x109000"
    "a_kernel_text_start (syms (mach example_platform)) = 0x100000" "a_rodata_end example_platform = 0x10F000"
    "a_kernel_end example_platform = 0x120000" by (simp_all add: example_platform_def example_machine_def)
  have "unat (0x120000 :: u32) \<le> tables_needed p * 2097152"
    using b tables_cover(1) [of p] pf(5) by (simp add: bootable_def)
  then have n: "unat (0x100123 :: u32) < tables_needed p * 2097152" by simp
  have q: "page_no 0x100123 = 0x100" by (simp add: page_no_def)
  let ?b = "user_stack_base (ext (kern st'))"
  note iso = boot_isolates_ring3 [OF b st' refl refl, unfolded pf]
  have "?b \<noteq> 0 \<longrightarrow> 0x120 \<le> unat ?b div 4096" using iso by (auto simp: less_eq_div_iff_mult_less_eq)
  then have "mmu (mm (kern st')) (cr3 (kern st')) 0x100123 = Some (0x100000, False, False, False)"
    using iso n by (auto simp: q Let_def)
  then show ?thesis using st' by blast
qed

end
