(* ===== verification/UserProg.thy ===== *)
theory UserProg
  imports Terminal Syscall Loader
begin

text \<open>
  The code that runs in ring 3: the program of \<open>user/prog.c\<close>, which the loader runs, and the demonstrations \<open>user_program\<close> of
  \<open>kernel/usermode.c\<close> and of the 64-bit port.  They see the kernel only through \<open>int 0x80\<close> or SYSCALL, so each is modelled as the tree of what the kernel sees of it: each node is a system call, or an access that may fault, and the program continues
  with the answer.  Strings are passed as their bytes instead of their addresses.  The tree is infinite where the
  program loops.
\<close>

section \<open>Events\<close>

datatype event =
    Write_Text cstring
  | Write_Address u32
  | Get_Ticks
  | Get_Id
  | Sleep u32
  | Exit_Call u32
  | Pipe_Write_Call "u8 list"
  | Pipe_Read_Call u32
  | Run_Stack_Code
  | Store_To_Code

text \<open>EAX of a system call, as the \<open>#define\<close>s of the program number them.\<close>

fun syscall_number :: "event \<Rightarrow> u32 option" where
  "syscall_number (Write_Text s) = Some 0"
| "syscall_number (Write_Address a) = Some 0"
| "syscall_number Get_Ticks = Some 1"
| "syscall_number (Exit_Call c) = Some 2"
| "syscall_number (Sleep n) = Some 3"
| "syscall_number Get_Id = Some 4"
| "syscall_number (Pipe_Write_Call bs) = Some 5"
| "syscall_number (Pipe_Read_Call n) = Some 6"
| "syscall_number Run_Stack_Code = None"
| "syscall_number Store_To_Code = None"

text \<open>An answer: the result in EAX, and the bytes the kernel has stored in the buffer.\<close>

type_synonym answer = "u32 \<times> u8 list"

codatatype uprog = Spin | Call (event_of: event) (after: "answer \<Rightarrow> uprog")

definition ARGS_ADDRESS :: u32 where "ARGS_ADDRESS = 0x20100000"

section \<open>The routines\<close>

fun streq :: "u8 list \<Rightarrow> cstring \<Rightarrow> bool" where
  "streq [] [] = True"
| "streq (a # as) (b # bs) = (a = b \<and> streq as bs)"
| "streq _ _ = False"

definition print_text :: "cstring \<Rightarrow> uprog \<Rightarrow> uprog" where
  "print_text s rest = Call (Write_Text s) (\<lambda>_. rest)"

text \<open>The digits as the loop collects them, least significant first.\<close>

function number_digits :: "u32 \<Rightarrow> u8 list" where
  "number_digits v = (if v = 0 then [] else (0x30 + ucast (v mod 10)) # number_digits (v div 10))"
  by pat_completeness auto
termination
proof (relation "measure unat")
  fix v :: u32 assume "v \<noteq> 0"
  then have "0 < unat v" by (simp add: unat_gt_0)
  then have "unat (v div 10) < unat v" by (simp add: unat_div)
  then show "(v div 10, v) \<in> measure unat" by simp
qed simp

declare number_digits.simps [simp del]

definition print_number :: "u32 \<Rightarrow> uprog \<Rightarrow> uprog" where
  "print_number v rest =
     (if v = 0 then print_text (ascii ''0'') rest else print_text (rev (number_digits v)) rest)"

definition nl :: string where "nl = [CHR 0x0A]"

definition run_nx_test :: "uprog \<Rightarrow> uprog" where
  "run_nx_test rest =
     print_text (ascii (''  [nx] wrote a ret instruction onto my own stack'' @ nl))
       (print_text (ascii (''  [nx] now calling it - NX should stop this'' @ nl))
         (Call Run_Stack_Code (\<lambda>_.
           print_text (ascii (''  [nx] SURVIVED - the stack is executable, W^X is NOT enforced'' @ nl)) rest)))"

text \<open>The line with the two digits written into it.\<close>

definition writer_line :: "nat \<Rightarrow> u8 list" where
  "writer_line i =
     (ascii (''line 00 through the pipe'' @ nl))[5 := 0x30 + word_of_nat (i div 10 mod 10), 6 := 0x30 + word_of_nat (i mod 10)]"

definition done_mark :: "u8 list" where "done_mark = ascii (''DONE'' @ nl)"

definition run_writer :: "uprog \<Rightarrow> uprog" where
  "run_writer rest =
     print_text (ascii (''  [writer] sending 20 lines'' @ nl))
       (foldr (\<lambda>i p. Call (Pipe_Write_Call (writer_line i)) (\<lambda>_. p)) [1..<21]
         (Call (Pipe_Write_Call done_mark) (\<lambda>_. print_text (ascii (''  [writer] finished'' @ nl)) rest)))"

text \<open>\<open>for (int i = 0; i + 3 < got; i++)\<close> over the bytes received.\<close>

definition has_done :: "u8 list \<Rightarrow> bool" where
  "has_done chunk \<longleftrightarrow> (\<exists>i<length chunk - 3. take 4 (drop i chunk) = ascii ''DONE'')"

text \<open>The loop of \<open>run_reader\<close>, cut at its two system calls.\<close>

datatype reader_point = Asking | Showing (shown: "u8 list")

primcorec reader_loop :: "uprog \<Rightarrow> reader_point \<Rightarrow> uprog" where
  "reader_loop rest p = (case p of
       Asking \<Rightarrow> Call (Pipe_Read_Call 64) (\<lambda>r. if fst r <=s 0 then rest else reader_loop rest (Showing (take (unat (fst r)) (snd r))))
     | Showing chunk \<Rightarrow> Call (Write_Text (takeWhile (\<lambda>c. c \<noteq> 0) chunk)) (\<lambda>_.
         if has_done chunk then print_text (ascii (''  [reader] finished'' @ nl)) rest else reader_loop rest Asking))"

definition run_reader :: "uprog \<Rightarrow> uprog" where
  "run_reader rest = print_text (ascii (''  [reader] waiting on the pipe'' @ nl)) (reader_loop rest Asking)"

text \<open>The sum over \<open>scratch\<close>, whose elements are signed characters.\<close>

definition bss_checksum :: "u8 list \<Rightarrow> u32" where
  "bss_checksum bss = fold (\<lambda>c s. s + scast c) bss 0"

definition main_rounds :: "u32 \<Rightarrow> uprog \<Rightarrow> uprog" where
  "main_rounds i rest =
     foldr (\<lambda>r p. print_text (ascii ''  [prog id '') (print_number i (print_text (ascii ''] round '') (print_number (word_of_nat r)
        (print_text (ascii ('' of 4, my code is at 0x20000000'' @ nl)) (Call (Sleep 18) (\<lambda>_. p))))))) [1..<5] rest"

definition main_part :: "u8 list \<Rightarrow> uprog" where
  "main_part bss =
     print_text (ascii (''  [prog] loaded from disk, running in ring 3'' @ nl))
       (print_text (ascii ''  [prog] .bss checksum (0 means properly zeroed): '')
         (print_number (bss_checksum bss)
           (print_text (ascii nl)
             (print_text (ascii (''  [prog] wrote to .bss without faulting'' @ nl))
               (Call Get_Id (\<lambda>(i, _). main_rounds i
                 (print_text (ascii (''  [prog] asking the kernel to read its own memory'' @ nl))
                   (Call (Write_Address 0x100000) (\<lambda>_.
                     print_text (ascii (''  [prog] now trying to write to my own code segment'' @ nl))
                       (Call Store_To_Code (\<lambda>_.
                         print_text (ascii (''  [prog] STILL HERE - the code segment is writable, which is wrong'' @ nl))
                           (Call (Exit_Call 0) (\<lambda>_. Spin)))))))))))))"

text \<open>\<open>_start\<close>, with the argument string and the bytes of \<open>scratch\<close>.  A kernel that returned from SYS\_EXIT would let it go on.\<close>

definition start_prog :: "cstring \<Rightarrow> u8 list \<Rightarrow> uprog" where
  "start_prog args bss =
     (let q3 = main_part bss;
          q2 = (if streq args (ascii ''read'') then run_reader (Call (Exit_Call 0) (\<lambda>_. q3)) else q3);
          q1 = (if streq args (ascii ''nx'') then run_nx_test (Call (Exit_Call 0) (\<lambda>_. q2)) else q2)
      in if streq args (ascii ''write'') then run_writer (Call (Exit_Call 0) (\<lambda>_. q1)) else q1)"

text \<open>The demonstration that is linked into the kernel.\<close>

definition user_program :: uprog where
  "user_program =
     print_text (ascii (''  [ring 3] hello from user mode'' @ nl))
       (print_text (ascii (''  [ring 3] asking the kernel for the tick count'' @ nl))
         (Call Get_Ticks (\<lambda>_.
           print_text (ascii (''  [ring 3] now trying to read kernel memory directly'' @ nl))
             (Call (Write_Address 0x100000) (\<lambda>_. Call (Exit_Call 0) (\<lambda>_. Spin))))))"

text \<open>The demonstration of the 64-bit port, which enters through SYSCALL; it has no \<open>exit\<close>, its last store ends it.\<close>

definition user_program64 :: uprog where
  "user_program64 =
     print_text (ascii (''  [ring 3] hello via SYSCALL, not int 0x80'' @ nl))
       (print_text (ascii (''  [ring 3] trying to read kernel memory'' @ nl))
         (Call (Write_Address 0x100000) (\<lambda>_.
           print_text (ascii (''  [ring 3] now writing to my own code segment'' @ nl))
             (Call Store_To_Code (\<lambda>_. Spin)))))"

section \<open>Running\<close>

text \<open>The events up to the one that is pending, when the kernel gives these answers.\<close>

primrec events :: "uprog \<Rightarrow> answer list \<Rightarrow> event list" where
  "events p [] = (case p of Spin \<Rightarrow> [] | Call e f \<Rightarrow> [e])"
| "events p (r # rs) = (case p of Spin \<Rightarrow> [] | Call e f \<Rightarrow> e # events (f r) rs)"


section \<open>Numbers\<close>

lemma ucast_u8_of_nat: "(ucast (x :: u32) :: u8) = word_of_nat (unat x)"
  by (simp add: of_nat_unat)

lemma digit_char: "n < 10 \<Longrightarrow> digits ! n = 0x30 + word_of_nat n"
proof -
  assume "n < 10"
  then have "n \<in> {0, 1, 2, 3, 4, 5, 6, 7, 8, 9}" by auto
  then show ?thesis by (auto simp: ascii_def)
qed

lemma number_digits_radix: "v \<noteq> 0 \<Longrightarrow> rev (number_digits v) = radix 10 (unat v)"
proof (induction v rule: number_digits.induct)
  case (1 v)
  have m: "0x30 + ucast (v mod 10) = digits ! (unat v mod 10)"
  proof -
    have "(ucast (v mod 10) :: u8) = word_of_nat (unat (v mod 10))" by (rule ucast_u8_of_nat)
    then show ?thesis using digit_char [of "unat v mod 10"] by (simp add: unat_mod)
  qed
  have e: "number_digits v = (0x30 + ucast (v mod 10)) # number_digits (v div 10)" using 1(2) by (subst number_digits.simps) simp
  show ?case
  proof (cases "v div 10 = 0")
    case True
    have "unat v div 10 = unat (v div 10)" by (simp add: unat_div)
    also have "\<dots> = 0" using True by simp
    finally have "unat v div 10 = 0" .
    then have "unat v < 10" by simp
    then have "radix 10 (unat v) = [digits ! (unat v mod 10)]" by (subst radix.simps) simp
    then show ?thesis using True by (simp add: e m number_digits.simps [of 0])
  next
    case False
    have "unat (v div 10) \<noteq> 0" using False by (simp add: unat_eq_0)
    then have "\<not> unat v < 10" by (simp add: unat_div)
    then have "radix 10 (unat v) = radix 10 (unat v div 10) @ [digits ! (unat v mod 10)]" by (subst radix.simps) simp
    moreover have "rev (number_digits (v div 10)) = radix 10 (unat v div 10)" using 1(1) [OF 1(2) False] by (simp add: unat_div)
    ultimately show ?thesis by (simp add: e m)
  qed
qed

lemma print_number_radix: "print_number v rest = print_text (radix 10 (unat v)) rest"
proof (cases "v = 0")
  case True
  have "radix 10 0 = [0x30]" by (subst radix.simps) (simp add: ascii_def)
  then show ?thesis using True by (simp add: print_number_def ascii_def)
qed (simp add: print_number_def number_digits_radix)

section \<open>The two ends of the pipe\<close>

lemma events_print [simp]:
  "events (print_text s p) [] = [Write_Text s]" "events (print_text s p) (r # rs) = Write_Text s # events p rs"
  by (simp_all add: print_text_def)

lemma streq_iff: "streq a b \<longleftrightarrow> a = b"
  by (induction a b rule: streq.induct) auto

primrec pipe_bytes :: "event list \<Rightarrow> u8 list" where
  "pipe_bytes [] = []"
| "pipe_bytes (e # es) = (case e of Pipe_Write_Call bs \<Rightarrow> bs | _ \<Rightarrow> []) @ pipe_bytes es"

definition stream :: "u8 list" where
  "stream = concat (map writer_line [1..<21]) @ done_mark"

lemma writer_events:
  assumes "length ans = length is"
  shows "events (foldr (\<lambda>i p. Call (Pipe_Write_Call (writer_line i)) (\<lambda>_. p)) is p) (ans @ rs) =
    map (\<lambda>i. Pipe_Write_Call (writer_line i)) is @ events p rs"
  using assms by (induction "is" ans rule: list_induct2') simp_all

lemma pipe_bytes_append: "pipe_bytes (as @ bs) = pipe_bytes as @ pipe_bytes bs"
  by (induction as) simp_all

lemma pipe_bytes_lines: "pipe_bytes (map (\<lambda>i. Pipe_Write_Call (writer_line i)) is) = concat (map writer_line is)"
  by (induction "is") simp_all

lemma run_writer_bytes:
  assumes "length ans = 22"
  shows "pipe_bytes (events (run_writer rest) ans) = stream"
proof -
  obtain a bs c where ans: "ans = a # bs @ [c]" "length bs = 20"
  proof -
    obtain a t where t: "ans = a # t" "length t = 21" using assms by (cases ans) simp_all
    then obtain bs c where "t = bs @ [c]" by (cases t rule: rev_cases) simp_all
    then show thesis using that t by simp
  qed
  have "events (run_writer rest) ans = Write_Text (ascii (''  [writer] sending 20 lines'' @ nl)) #
      map (\<lambda>i. Pipe_Write_Call (writer_line i)) [1..<21] @
      [Pipe_Write_Call done_mark, Write_Text (ascii (''  [writer] finished'' @ nl))]"
    unfolding run_writer_def ans events_print by (subst writer_events) (simp_all add: ans(2) print_text_def)
  then show ?thesis by (simp add: pipe_bytes_append pipe_bytes_lines stream_def)
qed

text \<open>The answers to a reader that gets these chunks, and the events they lead to.\<close>

definition chunk_answers :: "u8 list list \<Rightarrow> answer list" where
  "chunk_answers cs = concat (map (\<lambda>c. [(word_of_nat (length c), c), (0, [])]) cs)"

definition chunk_events :: "u8 list list \<Rightarrow> event list" where
  "chunk_events cs = concat (map (\<lambda>c. [Pipe_Read_Call 64, Write_Text c]) cs)"

lemma reader_step:
  assumes "c \<noteq> []" "length c \<le> 64" "0 \<notin> set c"
  shows "events (reader_loop rest Asking) ((word_of_nat (length c), c) # (0, []) # rs) = Pipe_Read_Call 64 # Write_Text c #
    events (if has_done c then print_text (ascii (''  [reader] finished'' @ nl)) rest else reader_loop rest Asking) rs"
proof -
  let ?n = "word_of_nat (length c) :: u32"
  have u: "unat ?n = length c" using assms(2) by (intro unat32_of_nat) simp
  have "\<not> ?n <=s 0"
  proof -
    have n: "0 < length c" using assms(1) by simp
    have "uint ?n = int (length c)" using u by (simp only: uint_nat)
    then have "sint ?n = int (length c)" using assms(2)
      by (simp add: sint_uint signed_take_bit_int_eq_self)
    then show ?thesis using n by (simp add: word_sle_eq)
  qed
  moreover have "takeWhile (\<lambda>b. b \<noteq> 0) c = c" using assms(3) by (simp add: takeWhile_eq_all_conv) blast
  ultimately show ?thesis
    by (subst (1) reader_loop.code) (simp add: u reader_loop.code [of rest "Showing c"])
qed

lemma reader_no_mark:
  assumes "\<forall>c\<in>set cs. c \<noteq> [] \<and> length c \<le> 64 \<and> 0 \<notin> set c \<and> \<not> has_done c"
  shows "events (reader_loop rest Asking) (chunk_answers cs @ rs) = chunk_events cs @ events (reader_loop rest Asking) rs"
  using assms
proof (induction cs)
  case (Cons c cs)
  then show ?case using reader_step [of c rest "chunk_answers cs @ rs"] by (simp add: chunk_answers_def chunk_events_def)
qed (simp add: chunk_answers_def chunk_events_def)

lemma reader_until_mark:
  assumes "\<forall>c\<in>set pre. c \<noteq> [] \<and> length c \<le> 64 \<and> 0 \<notin> set c \<and> \<not> has_done c"
    and "c \<noteq> [] \<and> length c \<le> 64 \<and> 0 \<notin> set c" "has_done c"
  shows "events (reader_loop rest Asking) (chunk_answers (pre @ [c]) @ rs) =
    chunk_events (pre @ [c]) @ events (print_text (ascii (''  [reader] finished'' @ nl)) rest) rs"
proof -
  have "chunk_answers (pre @ [c]) @ rs = chunk_answers pre @ (word_of_nat (length c), c) # (0, []) # rs"
    by (simp add: chunk_answers_def)
  then show ?thesis using reader_no_mark [OF assms(1), of rest] reader_step [of c rest rs] assms(2,3)
    by (simp add: chunk_events_def)
qed

lemma notin_update: "x \<notin> set xs \<Longrightarrow> x \<noteq> v \<Longrightarrow> x \<notin> set (xs[i := v])"
  using set_update_subset_insert [of xs i v] by blast

lemma writer_line_notin:
  assumes "x \<notin> set (ascii (''line 00 through the pipe'' @ nl))" "x \<notin> set (take 10 digits)"
  shows "x \<notin> set (writer_line i)"
proof -
  have d: "x \<noteq> 0x30 + word_of_nat n" if "n < 10" for n
  proof -
    have "take 10 digits ! n \<in> set (take 10 digits)" using that by (intro nth_mem) simp
    then show ?thesis unfolding nth_take [OF that] digit_char [OF that] using assms(2) by blast
  qed
  have "x \<notin> set ((ascii (''line 00 through the pipe'' @ nl))[5 := 0x30 + word_of_nat (i div 10 mod 10)])"
    using assms(1) d by (rule notin_update) simp
  then show ?thesis unfolding writer_line_def using d by (rule notin_update) simp
qed

lemma writer_line_nonzero: "0 \<notin> set (writer_line i)"
  by (rule writer_line_notin) (simp_all add: ascii_def nl_def)

lemma writer_line_length: "length (writer_line i) = 25"
  by (simp add: writer_line_def ascii_def nl_def)

lemma writer_line_no_mark: "\<not> has_done (writer_line i)"
proof
  assume "has_done (writer_line i)"
  then obtain k where "take 4 (drop k (writer_line i)) = ascii ''DONE''" unfolding has_done_def by blast
  then have "set (ascii ''DONE'') \<subseteq> set (writer_line i)" by (metis order_trans set_drop_subset set_take_subset)
  moreover have "0x44 \<notin> set (writer_line i)" by (rule writer_line_notin) (simp_all add: ascii_def nl_def)
  ultimately show False by (simp add: ascii_def)
qed

lemma stream_nonzero: "0 \<notin> set stream"
proof -
  have "0 \<notin> set (writer_line i)" for i by (rule writer_line_nonzero)
  moreover have "0 \<notin> set done_mark" by (simp add: done_mark_def ascii_def nl_def)
  ultimately show ?thesis by (auto simp: stream_def)
qed

text \<open>The numbers of the calls and the argument page are those of the kernel.\<close>

lemma prog_abi:
  "syscall_number (Write_Text s) = Some SYS_WRITE" "syscall_number Get_Ticks = Some SYS_TICKS" "syscall_number (Exit_Call c) = Some SYS_EXIT"
  "syscall_number (Sleep n) = Some SYS_SLEEP" "syscall_number Get_Id = Some SYS_ID"
  "syscall_number (Pipe_Write_Call bs) = Some SYS_PIPE_WRITE" "syscall_number (Pipe_Read_Call n) = Some SYS_PIPE_READ"
  "syscall_number (Write_Address a) = Some SYS_WRITE" "ARGS_ADDRESS = USER_ARGS_ADDR"
  by (simp_all add: SYS_WRITE_def SYS_TICKS_def SYS_EXIT_def SYS_SLEEP_def SYS_ID_def SYS_PIPE_WRITE_def SYS_PIPE_READ_def ARGS_ADDRESS_def
      USER_ARGS_ADDR_def)

lemma start_writer:
  "start_prog (ascii ''write'') bss = run_writer (Call (Exit_Call 0) (\<lambda>_. main_part bss))"
  by (simp add: start_prog_def streq_iff ascii_def)

lemma start_reader:
  "start_prog (ascii ''read'') bss = run_reader (Call (Exit_Call 0) (\<lambda>_. main_part bss))"
  by (simp add: start_prog_def streq_iff ascii_def)

text \<open>(C36) Two instances of the program over one pipe.  Whatever the kernel answers, the writer sends the twenty numbered
  lines and the end mark, in order and nothing else.  When that stream reaches the reader in pieces of 1 to 64 bytes,
  it prints every piece unchanged up to the first one that holds the whole word DONE, and then reports that it has finished and
  exits; if no single piece holds the word (the mark was split between two reads), it has printed the whole stream
  and its pending request is another read, so it never finishes.\<close>

theorem prog_pipe_session:
  assumes "concat cs = stream" and "\<forall>c\<in>set cs. c \<noteq> [] \<and> length c \<le> 64" and "length ans = 22"
  shows "pipe_bytes (events (start_prog (ascii ''write'') bss) ans) = concat cs \<and>
    (case dropWhile (\<lambda>c. \<not> has_done c) cs of
       [] \<Rightarrow> events (start_prog (ascii ''read'') bss') ((0, []) # chunk_answers cs) =
         Write_Text (ascii (''  [reader] waiting on the pipe'' @ nl)) # chunk_events cs @ [Pipe_Read_Call 64]
     | c # _ \<Rightarrow> (let got = takeWhile (\<lambda>c. \<not> has_done c) cs @ [c]
         in events (start_prog (ascii ''read'') bss') ((0, []) # chunk_answers got @ [(0, [])]) =
           Write_Text (ascii (''  [reader] waiting on the pipe'' @ nl)) # chunk_events got @
             [Write_Text (ascii (''  [reader] finished'' @ nl)), Exit_Call 0]))"
proof -
  let ?rest = "Call (Exit_Call 0) (\<lambda>_. main_part bss')"
  have ok: "\<forall>c\<in>set cs. c \<noteq> [] \<and> length c \<le> 64 \<and> 0 \<notin> set c"
  proof
    fix c assume c: "c \<in> set cs"
    then have "set c \<subseteq> set stream" unfolding assms(1) [symmetric] by auto
    then show "c \<noteq> [] \<and> length c \<le> 64 \<and> 0 \<notin> set c" using assms(2) c stream_nonzero by blast
  qed
  have start: "events (start_prog (ascii ''read'') bss') (r # rs) =
      Write_Text (ascii (''  [reader] waiting on the pipe'' @ nl)) # events (reader_loop ?rest Asking) rs" for r rs
    unfolding start_reader run_reader_def by (rule events_print(2))
  have w: "pipe_bytes (events (start_prog (ascii ''write'') bss) ans) = concat cs"
    unfolding start_writer using run_writer_bytes [OF assms(3)] assms(1) by simp
  show ?thesis
  proof (cases "dropWhile (\<lambda>c. \<not> has_done c) cs")
    case Nil
    then have "\<forall>c\<in>set cs. c \<noteq> [] \<and> length c \<le> 64 \<and> 0 \<notin> set c \<and> \<not> has_done c" using ok by (simp add: dropWhile_eq_Nil_conv)
    from reader_no_mark [OF this, of ?rest "[]"] show ?thesis using w
      by (simp only: start Nil list.case append_Nil2) (simp add: reader_loop.code [of _ Asking])
  next
    case (Cons c post)
    let ?pre = "takeWhile (\<lambda>c. \<not> has_done c) cs"
    have pre: "\<forall>c\<in>set ?pre. c \<noteq> [] \<and> length c \<le> 64 \<and> 0 \<notin> set c \<and> \<not> has_done c" using ok by (auto dest: set_takeWhileD)
    have "c \<in> set cs" using Cons by (metis list.set_intros(1) set_dropWhileD)
    moreover have "has_done c" using Cons by (metis hd_dropWhile list.sel(1) list.simps(3))
    ultimately have "events (reader_loop ?rest Asking) (chunk_answers (?pre @ [c]) @ [(0, [])]) =
        chunk_events (?pre @ [c]) @ [Write_Text (ascii (''  [reader] finished'' @ nl)), Exit_Call 0]"
      using reader_until_mark [OF pre, of c ?rest "[(0, [])]"] ok unfolding events_print(2) events.simps(1) uprog.case by blast
    then show ?thesis using w by (simp only: start Cons list.case Let_def simp_thms)
  qed
qed

theorem prog_pipe_session_witness:
  "let cs = map writer_line [1..<21] @ [take 2 done_mark, drop 2 done_mark]
   in pipe_bytes (events (start_prog (ascii ''write'') []) (replicate 22 (0, []))) = concat cs \<and>
      events (start_prog (ascii ''read'') []) ((0, []) # chunk_answers cs) =
        Write_Text (ascii (''  [reader] waiting on the pipe'' @ nl)) # chunk_events cs @ [Pipe_Read_Call 64]"
proof -
  let ?cs = "map writer_line [1..<21] @ [take 2 done_mark, drop 2 done_mark]"
  have t: "take 2 done_mark = ascii ''DO''" "drop 2 done_mark = ascii (''NE'' @ nl)" by (simp_all add: done_mark_def ascii_def)
  have n: "dropWhile (\<lambda>c. \<not> has_done c) ?cs = []"
    unfolding dropWhile_eq_Nil_conv t by (simp add: writer_line_no_mark) (simp add: has_done_def ascii_def nl_def)
  have "concat ?cs = stream" by (simp add: stream_def)
  moreover have "\<forall>c\<in>set ?cs. c \<noteq> [] \<and> length c \<le> 64"
  proof
    fix c assume "c \<in> set ?cs"
    then have "length c = 25 \<or> c = ascii ''DO'' \<or> c = ascii (''NE'' @ nl)" unfolding t by (auto simp: writer_line_length)
    then show "c \<noteq> [] \<and> length c \<le> 64" by (auto simp: ascii_def nl_def)
  qed
  ultimately show ?thesis
    using prog_pipe_session [of ?cs "replicate 22 (0, [])" "[]" "[]"] by (simp only: n list.case Let_def length_replicate simp_thms)
qed

end
