(* ===== verification/Serial.thy ===== *)
theory Serial
  imports Ata Terminal
begin

text \<open>
  The serial port driver of \<open>drivers/serial.c\<close>, which the build script does not link into the kernel.  The UART is a parameter: the locale \<open>uart\<close> states what the 16550 documents of its transmitter, and \<open>ref_uart\<close> is
  a device that obeys it.
\<close>

section \<open>The driver\<close>

definition SERIAL_PORT :: u16 where "SERIAL_PORT = 0x3F8"
definition SERIAL_DATA :: u16 where "SERIAL_DATA = 0"
definition SERIAL_MCR :: u16 where "SERIAL_MCR = 4"
definition SERIAL_LSR :: u16 where "SERIAL_LSR = 5"
definition SERIAL_LSR_THRE :: u8 where "SERIAL_LSR_THRE = 0x20"

text \<open>The polling loop of \<open>serial_putchar\<close> has no bound.\<close>

partial_function (option) serial_spin :: "'d ports \<Rightarrow> 'd \<Rightarrow> 'd option" where
  [code]: "serial_spin io d =
     (case inb io (SERIAL_PORT + SERIAL_LSR) d of (status, d') \<Rightarrow>
        if status AND SERIAL_LSR_THRE = 0 then serial_spin io d' else Some d')"

definition serial_putchar :: "'d ports \<Rightarrow> u8 \<Rightarrow> 'd \<Rightarrow> 'd option" where
  "serial_putchar io ch d = map_option (outb io (SERIAL_PORT + SERIAL_DATA) ch) (serial_spin io d)"

primrec serial_write :: "'d ports \<Rightarrow> cstring \<Rightarrow> 'd \<Rightarrow> 'd option" where
  "serial_write io [] d = Some d"
| "serial_write io (c # cs) d = Option.bind (serial_putchar io c d) (serial_write io cs)"

definition serial_initialise :: "'d ports \<Rightarrow> 'd \<Rightarrow> 'd" where
  "serial_initialise io d = outb io (SERIAL_PORT + SERIAL_MCR) 0x03 d"

section \<open>The transmitter\<close>

text \<open>
  A transmitter that is free again after some number of polls, and that then takes one byte: \<open>wire\<close> is what it has been given,
  \<open>busy_for\<close> the number of further polls that find it busy.  Both lines of the modem control register only announce
  the terminal.
\<close>

locale uart =
  fixes io :: "'d ports" and wire :: "'d \<Rightarrow> u8 list" and busy_for :: "'d \<Rightarrow> nat"
  assumes poll_busy: "0 < busy_for d \<Longrightarrow>
      fst (inb io 0x3FD d) AND 0x20 = 0 \<and> busy_for (snd (inb io 0x3FD d)) < busy_for d"
    and poll_free: "busy_for d = 0 \<Longrightarrow>
      fst (inb io 0x3FD d) AND 0x20 \<noteq> 0 \<and> busy_for (snd (inb io 0x3FD d)) = 0"
    and poll_wire: "wire (snd (inb io 0x3FD d)) = wire d"
    and send: "busy_for d = 0 \<Longrightarrow> wire (outb io 0x3F8 v d) = wire d @ [v]"
    and control: "wire (outb io 0x3FC v d) = wire d"
begin

lemma spin_returns: "\<exists>d'. serial_spin io d = Some d' \<and> busy_for d' = 0 \<and> wire d' = wire d"
proof (induction "busy_for d" arbitrary: d rule: less_induct)
  case less
  obtain status e where e: "inb io 0x3FD d = (status, e)" by fastforce
  have r: "serial_spin io d = (if status AND 0x20 = 0 then serial_spin io e else Some e)"
    by (subst serial_spin.simps) (simp add: e SERIAL_PORT_def SERIAL_LSR_def SERIAL_LSR_THRE_def)
  show ?case
  proof (cases "busy_for d = 0")
    case True
    then show ?thesis using poll_free [of d] poll_wire [of d] r e by auto
  next
    case False
    then have b: "status AND 0x20 = 0" "busy_for e < busy_for d" using poll_busy [of d] e by auto
    then show ?thesis using less [of e] poll_wire [of d] r e by auto
  qed
qed

lemma putchar_sends: "\<exists>d'. serial_putchar io c d = Some d' \<and> wire d' = wire d @ [c]"
  using spin_returns [of d] send by (auto simp: serial_putchar_def SERIAL_PORT_def SERIAL_DATA_def)

lemma write_sends: "\<exists>d'. serial_write io cs d = Some d' \<and> wire d' = wire d @ cs"
proof (induction cs arbitrary: d)
  case (Cons c cs)
  obtain e where e: "serial_putchar io c d = Some e" "wire e = wire d @ [c]" using putchar_sends by blast
  then show ?case using Cons.IH [of e] by auto
qed simp

lemma initialise_keeps: "wire (serial_initialise io d) = wire d"
  using control by (simp add: serial_initialise_def SERIAL_PORT_def SERIAL_MCR_def)

end

text \<open>A UART that needs a number of polls, fixed per device, to send a byte.\<close>

record uart_state =
  u_wire :: "u8 list"
  u_busy :: nat
  u_slow :: nat
  u_mcr :: u8

definition ref_uart :: "uart_state ports" where
  "ref_uart = \<lparr>
     port_inb = (\<lambda>p d. if p = 0x3FD then (if u_busy d = 0 then 0x60 else 0x40, d\<lparr>u_busy := u_busy d - 1\<rparr>) else (0, d)),
     port_outb = (\<lambda>p v d. if p = 0x3F8 then (if u_busy d = 0 then d\<lparr>u_wire := u_wire d @ [v], u_busy := u_slow d\<rparr> else d)
       else if p = 0x3FC then d\<lparr>u_mcr := v\<rparr> else d),
     port_inw = (\<lambda>p d. (0, d)), port_outw = (\<lambda>p v d. d)\<rparr>"

interpretation com1: uart ref_uart u_wire u_busy
  by unfold_locales (auto simp: ref_uart_def inb_def outb_def)

text \<open>On the reference UART, whatever its speed and state, the driver starts, returns and puts exactly the text on the
  wire.  With a transmitter that never becomes free it does not return: the polling loop has no limit.\<close>

lemma serial_write_sends:
  "\<exists>d'. serial_write ref_uart cs (serial_initialise ref_uart d) = Some d' \<and> u_wire d' = u_wire d @ cs"
  using com1.write_sends com1.initialise_keeps by metis

definition dead_uart :: "unit ports" where
  "dead_uart = \<lparr>port_inb = (\<lambda>p d. (0, d)), port_outb = (\<lambda>p v d. d), port_inw = (\<lambda>p d. (0, d)), port_outw = (\<lambda>p v d. d)\<rparr>"

lemma dead_poll: "inb dead_uart p d = (0, d)"
  by (simp add: dead_uart_def inb_def)

lemma dead_spin_aux: "serial_spin io d = Some r \<Longrightarrow> io \<noteq> dead_uart"
proof (erule serial_spin.raw_induct [rotated, where P = "\<lambda>io d r. io \<noteq> dead_uart"])
  fix spin and io :: "unit ports" and d r
  assume step: "\<And>io d r. spin io d = Some r \<Longrightarrow> io \<noteq> dead_uart"
    and now: "(case inb io (SERIAL_PORT + SERIAL_LSR) d of (status, d') \<Rightarrow> if status AND SERIAL_LSR_THRE = 0 then spin io d' else Some d') = Some r"
  show "io \<noteq> dead_uart"
  proof
    assume e: "io = dead_uart"
    then have "spin dead_uart d = Some r" using now by (simp add: dead_poll)
    from step [OF this] show False by blast
  qed
qed

lemma serial_absent_hangs: "cs \<noteq> [] \<Longrightarrow> serial_write dead_uart cs d = None"
proof -
  assume "cs \<noteq> []"
  moreover have "serial_spin dead_uart d = None" using dead_spin_aux by (cases "serial_spin dead_uart d") auto
  ultimately show ?thesis by (cases cs) (simp_all add: serial_putchar_def)
qed

end
