(* ===== verification/Gdt64.thy ===== *)
theory Gdt64
  imports Prelude
begin

text \<open>
  Segmentation in the 64-bit port: \<open>arthic64/kernel/gdt.c\<close> and \<open>arthic64/kernel/tss.c\<close>.  A descriptor is the 64-bit constant
  of the source; the functions of the second section read it as the CPU does in long mode.
\<close>

section \<open>Model\<close>

record tss_entry64 =
  t_reserved0 :: u32
  t_rsp0 :: u64
  t_rsp1 :: u64
  t_rsp2 :: u64
  t_reserved1 :: u64
  t_ist :: "u64 list"
  t_reserved2 :: u64
  t_reserved3 :: u16
  t_iomap_base :: u16

text \<open>The table register, the data segment registers (DS, ES, FS, SS) and the task register belong to the CPU.\<close>

record segments64 =
  gdt64 :: "u64 list"
  gdtr_limit64 :: u16
  gdtr_base64 :: u64
  data_selectors64 :: "u16 list"
  tss64 :: tss_entry64
  task_reg64 :: u16

definition GDT_KERNEL_CODE64 :: u16 where "GDT_KERNEL_CODE64 = 0x08"
definition GDT_KERNEL_DATA64 :: u16 where "GDT_KERNEL_DATA64 = 0x10"
definition GDT_USER_DATA64 :: u16 where "GDT_USER_DATA64 = 0x18 OR 3"
definition GDT_USER_CODE64 :: u16 where "GDT_USER_CODE64 = 0x20 OR 3"
definition GDT_TSS64 :: u16 where "GDT_TSS64 = 0x28"

definition tss_low64 :: "u64 \<Rightarrow> u32 \<Rightarrow> u64" where
  "tss_low64 base limit =
     ucast (limit AND 0xFFFF) OR push_bit 16 (base AND 0xFFFFFF) OR push_bit 40 0x89
       OR push_bit 48 (ucast (drop_bit 16 limit AND 0xF)) OR push_bit 56 (drop_bit 24 base AND 0xFF)"

definition gdt_set_tss64 :: "u64 \<Rightarrow> u32 \<Rightarrow> segments64 \<Rightarrow> segments64" where
  "gdt_set_tss64 base limit s =
     s\<lparr>gdt64 := (gdt64 s)[5 := tss_low64 base limit, 6 := drop_bit 32 base AND 0xFFFFFFFF]\<rparr>"

definition gdt_install64 :: "u64 \<Rightarrow> segments64 \<Rightarrow> segments64" where
  "gdt_install64 gdt_addr s =
     s\<lparr>gdt64 := [0, 0x00AF9A000000FFFF, 0x00CF92000000FFFF, 0x00CFF2000000FFFF, 0x00AFFA000000FFFF, 0, 0],
       gdtr_limit64 := 56 - 1, gdtr_base64 := gdt_addr, data_selectors64 := replicate 4 0x10\<rparr>"

definition sizeof_tss64 :: u32 where
  "sizeof_tss64 = 104"

definition zero_tss64 :: tss_entry64 where
  "zero_tss64 = \<lparr>t_reserved0 = 0, t_rsp0 = 0, t_rsp1 = 0, t_rsp2 = 0, t_reserved1 = 0, t_ist = replicate 7 0,
     t_reserved2 = 0, t_reserved3 = 0, t_iomap_base = 0\<rparr>"

definition tss_install64 :: "u64 \<Rightarrow> u64 \<Rightarrow> segments64 \<Rightarrow> segments64" where
  "tss_install64 tss_addr rsp0 s =
     (gdt_set_tss64 tss_addr sizeof_tss64
        (s\<lparr>tss64 := zero_tss64\<lparr>t_rsp0 := rsp0, t_iomap_base := ucast sizeof_tss64\<rparr>\<rparr>))\<lparr>task_reg64 := GDT_TSS64\<rparr>"

definition tss_set_kernel_stack64 :: "u64 \<Rightarrow> segments64 \<Rightarrow> segments64" where
  "tss_set_kernel_stack64 rsp0 s = s\<lparr>tss64 := (tss64 s)\<lparr>t_rsp0 := rsp0\<rparr>\<rparr>"

section \<open>How the CPU reads descriptors in long mode\<close>

definition descriptor64 :: "segments64 \<Rightarrow> u16 \<Rightarrow> u64" where
  "descriptor64 s sel = gdt64 s ! unat (drop_bit 3 sel)"

definition dpl64 :: "u64 \<Rightarrow> u64" where
  "dpl64 d = drop_bit 45 d AND 3"

text \<open>Present 64-bit code: L is set and D clear.\<close>

definition code64 :: "u64 \<Rightarrow> bool" where
  "code64 d \<longleftrightarrow> bit d 47 \<and> bit d 44 \<and> bit d 43 \<and> bit d 53 \<and> \<not> bit d 54"

definition writable_data64 :: "u64 \<Rightarrow> bool" where
  "writable_data64 d \<longleftrightarrow> bit d 47 \<and> bit d 44 \<and> \<not> bit d 43 \<and> bit d 41"

definition tss_type64 :: "u64 \<Rightarrow> bool" where
  "tss_type64 d \<longleftrightarrow> drop_bit 40 d AND 0xFF = 0x89"

definition tss_base64 :: "u64 \<Rightarrow> u64 \<Rightarrow> u64" where
  "tss_base64 low high =
     (drop_bit 16 low AND 0xFFFFFF) OR push_bit 24 (drop_bit 56 low AND 0xFF) OR push_bit 32 (high AND 0xFFFFFFFF)"

definition tss_limit64 :: "u64 \<Rightarrow> u64" where
  "tss_limit64 low = (low AND 0xFFFF) OR push_bit 16 (drop_bit 48 low AND 0xF)"

section \<open>Decoding what was written\<close>

lemma mask64_bits:
  "bit (0xFFFF :: u64) n \<longleftrightarrow> n < 16" "bit (0xFFFFFF :: u64) n \<longleftrightarrow> n < 24" "bit (0xFF :: u64) n \<longleftrightarrow> n < 8"
  "bit (0xFFFFFFFF :: u64) n \<longleftrightarrow> n < 32" "bit (0xF :: u64) n \<longleftrightarrow> n < 4" "bit (0xF :: u32) n \<longleftrightarrow> n < 4"
  "bit (0xFFFF :: u32) n \<longleftrightarrow> n < 16"
proof -
  have "(0xFFFF :: u64) = mask 16" "(0xFFFFFF :: u64) = mask 24" "(0xFF :: u64) = mask 8" "(0xFFFFFFFF :: u64) = mask 32"
    "(0xF :: u64) = mask 4" "(0xF :: u32) = mask 4" "(0xFFFF :: u32) = mask 16"
    by (simp_all add: mask_eq_exp_minus_1)
  then show "bit (0xFFFF :: u64) n \<longleftrightarrow> n < 16" "bit (0xFFFFFF :: u64) n \<longleftrightarrow> n < 24" "bit (0xFF :: u64) n \<longleftrightarrow> n < 8"
    "bit (0xFFFFFFFF :: u64) n \<longleftrightarrow> n < 32" "bit (0xF :: u64) n \<longleftrightarrow> n < 4" "bit (0xF :: u32) n \<longleftrightarrow> n < 4"
    "bit (0xFFFF :: u32) n \<longleftrightarrow> n < 16"
    by (simp_all only: bit_mask_iff) auto
qed

lemma access_byte_bits: "bit (0x89 :: u64) n \<longleftrightarrow> n = 0 \<or> n = 3 \<or> n = 7"
proof -
  have "(0x89 :: u64) = push_bit 7 1 OR push_bit 3 1 OR push_bit 0 1" by simp
  then show ?thesis by (simp only: bit_or_iff bit_push_bit_iff bit_1_iff) auto
qed

lemmas descriptor_bits = bit_or_iff bit_and_iff bit_ucast_iff bit_push_bit_iff bit_drop_bit_eq mask64_bits access_byte_bits comp_def

lemma tss_low64_bit:
  "n < 64 \<Longrightarrow> bit (tss_low64 base limit) n \<longleftrightarrow>
     n < 16 \<and> bit limit n \<or> 16 \<le> n \<and> n < 40 \<and> bit base (n - 16) \<or> n \<in> {40, 43, 47} \<or>
     48 \<le> n \<and> n < 52 \<and> bit limit (n - 32) \<or> 56 \<le> n \<and> bit base (n - 32)"
proof -
  assume n: "n < 64"
  consider "n < 16" | "16 \<le> n" "n < 40" | "40 \<le> n" "n < 48" | "48 \<le> n" "n < 56" | "56 \<le> n" by linarith
  then show ?thesis
  proof cases
    case 3
    then have "\<not> n < 16" "\<not> n < 40" "\<not> 48 \<le> n" "\<not> 56 \<le> n" "\<not> n - 16 < 24" by linarith+
    moreover have "n - 40 = 0 \<or> n - 40 = 3 \<or> n - 40 = 7 \<longleftrightarrow> n \<in> {40, 43, 47}" using 3 by auto
    ultimately show ?thesis using n 3 unfolding tss_low64_def by (simp only: descriptor_bits simp_thms) simp
  qed (use n in \<open>simp_all only: tss_low64_def descriptor_bits, auto\<close>)
qed

lemma tss_base64_encoded: "tss_base64 (tss_low64 base limit) (drop_bit 32 base AND 0xFFFFFFFF) = base"
proof (rule bit_word_eqI)
  fix n assume n: "n < LENGTH(64)"
  consider "n < 24" | "24 \<le> n" "n < 32" | "32 \<le> n" "n < 64" using n by fastforce
  then show "bit (tss_base64 (tss_low64 base limit) (drop_bit 32 base AND 0xFFFFFFFF)) n = bit base n"
    by cases (simp_all only: tss_base64_def descriptor_bits, auto simp: tss_low64_bit)
qed

lemma tss_type64_encoded: "tss_type64 (tss_low64 base limit)"
proof -
  have "drop_bit 40 (tss_low64 base limit) AND 0xFF = 0x89"
  proof (rule bit_word_eqI)
    fix n assume n: "n < LENGTH(64)"
    then show "bit (drop_bit 40 (tss_low64 base limit) AND 0xFF) n = bit (0x89 :: u64) n"
      by (cases "n < 8") (simp_all only: descriptor_bits, auto simp: tss_low64_bit)
  qed
  then show ?thesis by (simp add: tss_type64_def)
qed

lemma tss_limit64_encoded: "limit < 0x100000 \<Longrightarrow> tss_limit64 (tss_low64 base limit) = ucast limit"
proof (rule bit_word_eqI)
  fix n assume lim: "limit < 0x100000" and n: "n < LENGTH(64)"
  have high: "\<not> bit limit n" if "20 \<le> n"
  proof -
    have "unat limit < 2 ^ 20" using lim by (simp add: word_less_nat_alt)
    then have "unat limit < 2 ^ n" using that by (meson less_le_trans one_le_numeral power_increasing)
    then have "\<not> bit (unat limit) n" by (simp add: bit_iff_odd)
    then show ?thesis by (simp add: bit_unsigned_iff)
  qed
  consider "n < 16" | "16 \<le> n" "n < 20" | "20 \<le> n" "n < 64" using n by fastforce
  then show "bit (tss_limit64 (tss_low64 base limit)) n = bit (ucast limit :: u64) n"
    using high by cases (simp_all only: tss_limit64_def descriptor_bits, auto simp: tss_low64_bit)
qed

lemma table_constants64:
  "code64 0x00AF9A000000FFFF" "dpl64 0x00AF9A000000FFFF = 0" "writable_data64 0x00CF92000000FFFF" "dpl64 0x00CF92000000FFFF = 0"
  "writable_data64 0x00CFF2000000FFFF" "dpl64 0x00CFF2000000FFFF = 3" "code64 0x00AFFA000000FFFF" "dpl64 0x00AFFA000000FFFF = 3"
  by code_simp+

text \<open>What the two install functions establish, selector by selector.\<close>

lemma segments64_installed:
  fixes s0 :: segments64 and tss_addr rsp0 gdt_addr :: u64
  defines "s \<equiv> tss_install64 tss_addr rsp0 (gdt_install64 gdt_addr s0)"
  shows "descriptor64 s 0 = 0"
    "code64 (descriptor64 s GDT_KERNEL_CODE64)" "dpl64 (descriptor64 s GDT_KERNEL_CODE64) = 0"
    "writable_data64 (descriptor64 s GDT_KERNEL_DATA64)" "dpl64 (descriptor64 s GDT_KERNEL_DATA64) = 0"
    "writable_data64 (descriptor64 s GDT_USER_DATA64)" "dpl64 (descriptor64 s GDT_USER_DATA64) = 3"
    "code64 (descriptor64 s GDT_USER_CODE64)" "dpl64 (descriptor64 s GDT_USER_CODE64) = 3"
    "tss_type64 (descriptor64 s (task_reg64 s))"
    "tss_base64 (descriptor64 s (task_reg64 s)) (descriptor64 s (task_reg64 s + 8)) = tss_addr"
    "tss_limit64 (descriptor64 s (task_reg64 s)) = 104"
    "t_rsp0 (tss64 s) = rsp0" "unat (gdtr_limit64 s) + 1 = 8 * length (gdt64 s)" "gdtr_base64 s = gdt_addr"
proof -
  have g: "gdt64 s = [0, 0x00AF9A000000FFFF, 0x00CF92000000FFFF, 0x00CFF2000000FFFF, 0x00AFFA000000FFFF,
      tss_low64 tss_addr sizeof_tss64, drop_bit 32 tss_addr AND 0xFFFFFFFF]" "task_reg64 s = 0x28"
    by (simp_all add: s_def tss_install64_def gdt_install64_def gdt_set_tss64_def GDT_TSS64_def)
  show "tss_type64 (descriptor64 s (task_reg64 s))"
    "tss_base64 (descriptor64 s (task_reg64 s)) (descriptor64 s (task_reg64 s + 8)) = tss_addr"
    by (simp_all add: descriptor64_def g tss_type64_encoded tss_base64_encoded)
  show "tss_limit64 (descriptor64 s (task_reg64 s)) = 104"
    by (simp add: descriptor64_def g tss_limit64_encoded sizeof_tss64_def)
  show "descriptor64 s 0 = 0"
    "code64 (descriptor64 s GDT_KERNEL_CODE64)" "dpl64 (descriptor64 s GDT_KERNEL_CODE64) = 0"
    "writable_data64 (descriptor64 s GDT_KERNEL_DATA64)" "dpl64 (descriptor64 s GDT_KERNEL_DATA64) = 0"
    "writable_data64 (descriptor64 s GDT_USER_DATA64)" "dpl64 (descriptor64 s GDT_USER_DATA64) = 3"
    "code64 (descriptor64 s GDT_USER_CODE64)" "dpl64 (descriptor64 s GDT_USER_CODE64) = 3"
    by (simp_all add: descriptor64_def g GDT_KERNEL_CODE64_def GDT_KERNEL_DATA64_def GDT_USER_DATA64_def GDT_USER_CODE64_def
        table_constants64)
  show "t_rsp0 (tss64 s) = rsp0" "unat (gdtr_limit64 s) + 1 = 8 * length (gdt64 s)" "gdtr_base64 s = gdt_addr"
    by (simp_all add: s_def tss_install64_def gdt_install64_def gdt_set_tss64_def)
qed

end
