(* ===== verification/Idt64.thy ===== *)
theory Idt64
  imports Idt Gdt64
begin

text \<open>
  Interrupts of the 64-bit port, \<open>arthic64/kernel/idt.c\<close>: gates of 16 bytes and the dispatch.  The controllers are programmed by the
  same code as in the 32-bit kernel (\<open>pic_remap\<close> of \<open>Idt\<close>).  There is no system call gate: programs enter through SYSCALL.
\<close>

record idt_entry64 =
  j_base_low :: u16
  j_selector :: u16
  j_ist :: u8
  j_flags :: u8
  j_base_mid :: u16
  j_base_high :: u32
  j_reserved :: u32

record 'd interrupts64 =
  idt64 :: "idt_entry64 list"
  idtr_limit64 :: u16
  idtr_base64 :: u64
  irq_handlers64 :: "u64 list"
  isr_handlers64 :: "u64 list"
  pic64 :: 'd

record registers64 =
  rg64_general :: "u64 list"
  rg64_int_no :: u64
  rg64_err_code :: u64
  rg64_rip :: u64
  rg64_cs :: u64
  rg64_rflags :: u64
  rg64_rsp :: u64
  rg64_ss :: u64

definition idt_set_gate64 :: "u8 \<Rightarrow> u64 \<Rightarrow> u16 \<Rightarrow> u8 \<Rightarrow> 'd interrupts64 \<Rightarrow> 'd interrupts64" where
  "idt_set_gate64 num base selector flags s =
     s\<lparr>idt64 := (idt64 s)[unat num :=
        \<lparr>j_base_low = ucast (base AND 0xFFFF), j_selector = selector, j_ist = 0, j_flags = flags,
         j_base_mid = ucast (drop_bit 16 base AND 0xFFFF), j_base_high = ucast (drop_bit 32 base AND 0xFFFFFFFF), j_reserved = 0\<rparr>]\<rparr>"

definition irq_unmask64 :: "'d ports \<Rightarrow> u8 \<Rightarrow> 'd interrupts64 \<Rightarrow> 'd interrupts64" where
  "irq_unmask64 io irq s =
     (let port = (if irq < 8 then PIC1_DATA else PIC2_DATA);
          line = (if irq \<ge> 8 then irq - 8 else irq)
      in case inb io port (pic64 s) of (v, d) \<Rightarrow>
           s\<lparr>pic64 := outb io port (v AND NOT (push_bit (unat line) 1)) d\<rparr>)"

definition isr_install_handler64 :: "int \<Rightarrow> u64 \<Rightarrow> 'd interrupts64 \<Rightarrow> 'd interrupts64" where
  "isr_install_handler64 exception handler s =
     (if exception < 0 \<or> exception > 31 then s
      else s\<lparr>isr_handlers64 := (isr_handlers64 s)[nat exception := handler]\<rparr>)"

definition irq_install_handler64 :: "'d ports \<Rightarrow> int \<Rightarrow> u64 \<Rightarrow> 'd interrupts64 \<Rightarrow> 'd interrupts64" where
  "irq_install_handler64 io irq handler s =
     (if irq < 0 \<or> irq > 15 then s
      else irq_unmask64 io (word_of_int irq) (s\<lparr>irq_handlers64 := (irq_handlers64 s)[nat irq := handler]\<rparr>))"

definition isr_handler64 ::
  "(u64 \<Rightarrow> registers64 \<Rightarrow> 'k \<Rightarrow> registers64 \<times> 'k) \<Rightarrow> 'd interrupts64 \<Rightarrow> registers64 \<Rightarrow> 'k \<Rightarrow> (registers64, 'k) isr_outcome" where
  "isr_handler64 call s regs k =
     (if rg64_int_no regs < 32 \<and> isr_handlers64 s ! unat (rg64_int_no regs) \<noteq> 0
      then case call (isr_handlers64 s ! unat (rg64_int_no regs)) regs k of (regs', k') \<Rightarrow> Returned regs' k'
      else Halted (if rg64_int_no regs < 32 then exception_names ! unat (rg64_int_no regs) else ''Unknown''))"

definition irq_handler64 ::
  "'d ports \<Rightarrow> (u64 \<Rightarrow> registers64 \<Rightarrow> 'k \<Rightarrow> registers64 \<times> 'k) \<Rightarrow> registers64 \<Rightarrow> 'd interrupts64 \<Rightarrow> 'k \<Rightarrow>
   registers64 \<times> 'd interrupts64 \<times> 'k" where
  "irq_handler64 io call regs s k =
     (let irq = rg64_int_no regs - 32
      in case (if irq < 16 \<and> irq_handlers64 s ! unat irq \<noteq> 0 then call (irq_handlers64 s ! unat irq) regs k else (regs, k)) of
           (regs1, k1) \<Rightarrow>
             let d1 = (if irq \<ge> 8 then outb io PIC2_COMMAND PIC_EOI (pic64 s) else pic64 s)
             in (regs1, s\<lparr>pic64 := outb io PIC1_COMMAND PIC_EOI d1\<rparr>, k1))"

definition idt_install64 ::
  "'d ports \<Rightarrow> (nat \<Rightarrow> u64) \<Rightarrow> (nat \<Rightarrow> u64) \<Rightarrow> u64 \<Rightarrow> 'd interrupts64 \<Rightarrow> 'd interrupts64" where
  "idt_install64 io isr_stub irq_stub idt_addr s =
     (let s1 = fold (\<lambda>i. idt_set_gate64 (word_of_nat i) 0 0 0) [0..<256] s;
          s2 = s1\<lparr>irq_handlers64 := replicate 16 0, isr_handlers64 := replicate 32 0\<rparr>;
          s3 = s2\<lparr>pic64 := pic_remap io (pic64 s2)\<rparr>;
          s4 = fold (\<lambda>i. idt_set_gate64 (word_of_nat i) (isr_stub i) GDT_KERNEL_CODE64 0x8E) [0..<32] s3;
          s5 = fold (\<lambda>i. idt_set_gate64 (word_of_nat (32 + i)) (irq_stub i) GDT_KERNEL_CODE64 0x8E) [0..<16] s4
      in s5\<lparr>idtr_limit64 := 4096 - 1, idtr_base64 := idt_addr\<rparr>)"

section \<open>How the CPU reads a gate\<close>

definition gate_base64 :: "idt_entry64 \<Rightarrow> u64" where
  "gate_base64 e = ucast (j_base_low e) OR push_bit 16 (ucast (j_base_mid e)) OR push_bit 32 (ucast (j_base_high e))"

definition gate_callable64 :: "nat \<Rightarrow> idt_entry64 \<Rightarrow> bool" where
  "gate_callable64 r e \<longleftrightarrow> bit (j_flags e) 7 \<and> r \<le> unat (drop_bit 5 (j_flags e) AND 3)"

definition gate_for64 :: "u64 \<Rightarrow> u16 \<Rightarrow> u8 \<Rightarrow> idt_entry64" where
  "gate_for64 base selector flags =
     \<lparr>j_base_low = ucast (base AND 0xFFFF), j_selector = selector, j_ist = 0, j_flags = flags,
      j_base_mid = ucast (drop_bit 16 base AND 0xFFFF), j_base_high = ucast (drop_bit 32 base AND 0xFFFFFFFF), j_reserved = 0\<rparr>"

lemma gate_base64_for [simp]: "gate_base64 (gate_for64 base sel fl) = base"
proof (rule bit_word_eqI)
  fix n assume n: "n < LENGTH(64)"
  consider "n < 16" | "16 \<le> n" "n < 32" | "32 \<le> n" "n < 64" using n by fastforce
  then show "bit (gate_base64 (gate_for64 base sel fl)) n = bit base n"
    by cases (simp_all only: gate_base64_def gate_for64_def idt_entry64.select_convs descriptor_bits, auto)
qed

lemma fill_gates64:
  fixes b :: "nat \<Rightarrow> u64" and sel :: u16 and fl :: u8
  assumes "length (idt64 s) = 256" "off + m \<le> 256"
  defines "s' \<equiv> fold (\<lambda>i. idt_set_gate64 (word_of_nat (off + i)) (b i) sel fl) [0..<m] s"
  shows "length (idt64 s') = 256 \<and> pic64 s' = pic64 s \<and> irq_handlers64 s' = irq_handlers64 s \<and> isr_handlers64 s' = isr_handlers64 s \<and>
    (\<forall>n<256. idt64 s' ! n = (if off \<le> n \<and> n < off + m then gate_for64 (b (n - off)) sel fl else idt64 s ! n))"
  using assms(2) unfolding s'_def
proof (induction m)
  case (Suc m)
  have "unat (word_of_nat (off + m) :: u8) = off + m" using Suc.prems by (intro unat_of_nat_small) simp
  then show ?case using Suc by (auto simp: idt_set_gate64_def gate_for64_def nth_list_update simp del: of_nat_add)
qed (auto simp: assms(1))

text \<open>Every vector below 48 leads to its stub in the 64-bit kernel code segment, all others are absent, and ring 3 can invoke none.\<close>

lemma idt_install64_correct:
  fixes io :: "'d ports" and isr_stub irq_stub :: "nat \<Rightarrow> u64" and addr :: u64
  assumes "length (idt64 s) = 256" "n < 256"
  defines "e \<equiv> idt64 (idt_install64 io isr_stub irq_stub addr s) ! n"
  shows "bit (j_flags e) 7 \<longleftrightarrow> n < 48" "\<not> gate_callable64 3 e" "j_ist e = 0"
    "n < 48 \<Longrightarrow> j_selector e = GDT_KERNEL_CODE64 \<and> gate_base64 e = (if n < 32 then isr_stub n else irq_stub (n - 32))"
    "pic64 (idt_install64 io isr_stub irq_stub addr s) = pic_remap io (pic64 s)"
proof -
  define s1 where "s1 = fold (\<lambda>i. idt_set_gate64 (word_of_nat i) 0 0 0) [0..<256] s"
  define s3 where "s3 = s1\<lparr>irq_handlers64 := replicate 16 0, isr_handlers64 := replicate 32 0, pic64 := pic_remap io (pic64 s1)\<rparr>"
  define s4 where "s4 = fold (\<lambda>i. idt_set_gate64 (word_of_nat i) (isr_stub i) GDT_KERNEL_CODE64 0x8E) [0..<32] s3"
  define s5 where "s5 = fold (\<lambda>i. idt_set_gate64 (word_of_nat (32 + i)) (irq_stub i) GDT_KERNEL_CODE64 0x8E) [0..<16] s4"
  have s': "idt_install64 io isr_stub irq_stub addr s = s5\<lparr>idtr_limit64 := 4096 - 1, idtr_base64 := addr\<rparr>"
    unfolding idt_install64_def Let_def s5_def s4_def s3_def s1_def by simp
  note f1 = fill_gates64 [OF assms(1), of 0 256 "\<lambda>_. 0" 0 0, simplified, folded s1_def]
  have l3: "length (idt64 s3) = 256" using f1 by (simp add: s3_def)
  note f4 = fill_gates64 [OF l3, of 0 32 isr_stub GDT_KERNEL_CODE64 "0x8E", simplified, folded s4_def]
  have l4: "length (idt64 s4) = 256" using f4 by simp
  have "32 + 16 \<le> (256 :: nat)" by simp
  note f5 = fill_gates64 [OF l4 this, of irq_stub GDT_KERNEL_CODE64 "0x8E", folded s5_def]
  have e: "e = (if n < 32 then gate_for64 (isr_stub n) GDT_KERNEL_CODE64 0x8E
      else if n < 48 then gate_for64 (irq_stub (n - 32)) GDT_KERNEL_CODE64 0x8E else gate_for64 0 0 0)"
    using f1 f4 f5 assms(2) by (simp add: e_def s' s3_def)
  have fl: "bit (0x8E :: u8) 7" "unat (drop_bit 5 (0x8E :: u8) AND 3) = 0" by simp_all
  have p: "j_flags (gate_for64 b sel f) = f" "j_selector (gate_for64 b sel f) = sel" "j_ist (gate_for64 b sel f) = 0" for b sel f
    by (simp_all add: gate_for64_def)
  show "bit (j_flags e) 7 \<longleftrightarrow> n < 48" "\<not> gate_callable64 3 e" "j_ist e = 0"
    unfolding e gate_callable64_def using fl by (auto simp: p)
  show "n < 48 \<Longrightarrow> j_selector e = GDT_KERNEL_CODE64 \<and> gate_base64 e = (if n < 32 then isr_stub n else irq_stub (n - 32))"
    unfolding e by (simp add: p)
  show "pic64 (idt_install64 io isr_stub irq_stub addr s) = pic_remap io (pic64 s)" using f1 f4 f5 by (simp add: s' s3_def)
qed

end
