(* ===== verification/Pmm64.thy ===== *)
theory Pmm64
  imports Pmm
begin

text \<open>
  The physical memory manager of the 64-bit port, \<open>arthic64/mm/pmm.c\<close>.  The bitmap is an array of 64-bit words; the memory map
  is that of \<open>Pmm\<close>, whose first pass the port has unchanged (\<open>find_highest\<close>).  There is no cap at 4 GB: \<open>total_frames\<close> follows
  the highest available address.
\<close>

section \<open>State and bit operations\<close>

record pmm64 =
  bitmap64 :: "u64 \<Rightarrow> u64"
  total_frames64 :: u64
  used_frames64 :: u64

definition frame_set64 :: "u64 \<Rightarrow> pmm64 \<Rightarrow> pmm64" where
  "frame_set64 frame p = p\<lparr>bitmap64 := (bitmap64 p)
     (frame div 64 := bitmap64 p (frame div 64) OR push_bit (unat (frame mod 64)) 1)\<rparr>"

definition frame_clear64 :: "u64 \<Rightarrow> pmm64 \<Rightarrow> pmm64" where
  "frame_clear64 frame p = p\<lparr>bitmap64 := (bitmap64 p)
     (frame div 64 := bitmap64 p (frame div 64) AND NOT (push_bit (unat (frame mod 64)) 1))\<rparr>"

definition frame_test64 :: "u64 \<Rightarrow> pmm64 \<Rightarrow> bool" where
  "frame_test64 frame p \<longleftrightarrow> bitmap64 p (frame div 64) AND push_bit (unat (frame mod 64)) 1 \<noteq> 0"

section \<open>Marking a region\<close>

definition mark_frame64 :: "u64 \<Rightarrow> bool \<Rightarrow> pmm64 \<Rightarrow> pmm64" where
  "mark_frame64 f used p =
     (if used then (if \<not> frame_test64 f p then (frame_set64 f p)\<lparr>used_frames64 := used_frames64 p + 1\<rparr> else p)
      else (if frame_test64 f p then (frame_clear64 f p)\<lparr>used_frames64 := used_frames64 p - 1\<rparr> else p))"

function mark_loop64 :: "u64 \<Rightarrow> u64 \<Rightarrow> bool \<Rightarrow> pmm64 \<Rightarrow> pmm64" where
  "mark_loop64 f lst used p =
     (if f < lst \<and> f < total_frames64 p then mark_loop64 (f + 1) lst used (mark_frame64 f used p) else p)"
  by pat_completeness auto
termination
  by (relation "measure (\<lambda>(f, lst, used, p). unat lst - unat f)") (auto intro: word_loop_measure)

declare mark_loop64.simps [simp del]

definition mark_region64 :: "u64 \<Rightarrow> u64 \<Rightarrow> bool \<Rightarrow> pmm64 \<Rightarrow> pmm64" where
  "mark_region64 base len used p = mark_loop64 (base div 4096) ((base + len + 4096 - 1) div 4096) used p"

section \<open>Start\<close>

definition free_entry64 :: "multiboot_mmap_entry \<Rightarrow> pmm64 \<Rightarrow> pmm64" where
  "free_entry64 e p =
     (if multiboot_mmap_entry.e_type e = MULTIBOOT_MEMORY_AVAILABLE then mark_region64 (e_addr e) (e_len e) False p else p)"

partial_function (option) free_available64 :: "bytes \<Rightarrow> multiboot_info \<Rightarrow> u32 \<Rightarrow> pmm64 \<Rightarrow> pmm64 option" where
  "free_available64 m mbi offset p =
     (if offset < mmap_length mbi
      then (let e = mmap_entry_at m (mmap_addr mbi + offset)
            in free_available64 m mbi (offset + (e_size e + 4)) (free_entry64 e p))
      else Some p)"

definition bitmap_addr64 :: "u64 \<Rightarrow> u64" where
  "bitmap_addr64 kernel_end = (kernel_end + 4096 - 1) AND NOT (4096 - 1)"

text \<open>\<open>kmemset(bitmap, 0xFF, bytes)\<close> on the words of the array.\<close>

definition fill_bytes64 :: "nat \<Rightarrow> (u64 \<Rightarrow> u64) \<Rightarrow> u64 \<Rightarrow> u64" where
  "fill_bytes64 n ram i = ram i OR mask (8 * min 8 (n - 8 * unat i))"

definition claim_kernel64 :: "u64 \<Rightarrow> u64 \<Rightarrow> pmm64 \<Rightarrow> pmm64" where
  "claim_kernel64 kernel_end bitmap_bytes p =
     mark_region64 (bitmap_addr64 kernel_end) bitmap_bytes True
       (mark_region64 0x100000 (kernel_end - 0x100000) True (mark_region64 0 0x100000 True p))"

definition pmm_init64 :: "bytes \<Rightarrow> u64 \<Rightarrow> (u64 \<Rightarrow> u64) \<Rightarrow> multiboot_info \<Rightarrow> pmm64 option" where
  "pmm_init64 m kernel_end ram mbi =
     (if mb_flags mbi AND MULTIBOOT_INFO_MEM_MAP = 0 then None
      else (case find_highest m mbi 0 0 of None \<Rightarrow> None
        | Some highest \<Rightarrow>
            (let frames = highest div 4096; bitmap_bytes = (frames + 7) div 8;
                 p = \<lparr>bitmap64 = fill_bytes64 (unat bitmap_bytes) ram, total_frames64 = frames, used_frames64 = frames\<rparr>
             in map_option (claim_kernel64 kernel_end bitmap_bytes) (free_available64 m mbi 0 p))))"

section \<open>Allocation\<close>

function alloc_scan64 :: "u64 \<Rightarrow> pmm64 \<Rightarrow> u64 \<times> pmm64" where
  "alloc_scan64 f p =
     (if f < total_frames64 p
      then (if \<not> frame_test64 f p then (f * 4096, (frame_set64 f p)\<lparr>used_frames64 := used_frames64 p + 1\<rparr>)
            else alloc_scan64 (f + 1) p)
      else (0, p))"
  by pat_completeness auto
termination
  by (relation "measure (\<lambda>(f, p). unat (total_frames64 p) - unat f)") (auto intro: word_loop_measure)

definition pmm_alloc_frame64 :: "pmm64 \<Rightarrow> u64 \<times> pmm64" where
  "pmm_alloc_frame64 p = alloc_scan64 0 p"

function claim_run64 :: "u64 \<Rightarrow> u64 \<Rightarrow> u64 \<Rightarrow> pmm64 \<Rightarrow> pmm64" where
  "claim_run64 i count run_start p =
     (if i < count
      then claim_run64 (i + 1) count run_start ((frame_set64 (run_start + i) p)\<lparr>used_frames64 := used_frames64 p + 1\<rparr>)
      else p)"
  by pat_completeness auto
termination
  by (relation "measure (\<lambda>(i, count, run_start, p). unat count - unat i)") (auto intro: word_loop_measure)

function run_scan64 :: "u64 \<Rightarrow> u64 \<Rightarrow> u64 \<Rightarrow> u64 \<Rightarrow> pmm64 \<Rightarrow> u64 \<times> pmm64" where
  "run_scan64 f run_start run_length count p =
     (if f < total_frames64 p
      then (if frame_test64 f p then run_scan64 (f + 1) (f + 1) 0 count p
            else if run_length + 1 = count then (run_start * 4096, claim_run64 0 count run_start p)
            else run_scan64 (f + 1) run_start (run_length + 1) count p)
      else (0, p))"
  by pat_completeness auto
termination
  by (relation "measure (\<lambda>(f, run_start, run_length, count, p). unat (total_frames64 p) - unat f)")
     (auto intro: word_loop_measure)

declare alloc_scan64.simps [simp del] claim_run64.simps [simp del] run_scan64.simps [simp del]

definition pmm_alloc_frames64 :: "u64 \<Rightarrow> pmm64 \<Rightarrow> u64 \<times> pmm64" where
  "pmm_alloc_frames64 count p = (if count = 0 then (0, p) else run_scan64 0 0 0 count p)"

definition pmm_memory_top64 :: "pmm64 \<Rightarrow> u64" where
  "pmm_memory_top64 p = total_frames64 p * 4096"

definition pmm_free_frame64 :: "u64 \<Rightarrow> pmm64 \<Rightarrow> pmm64" where
  "pmm_free_frame64 addr p =
     (let frame = addr div 4096
      in if frame < total_frames64 p \<and> frame_test64 frame p
         then (frame_clear64 frame p)\<lparr>used_frames64 := used_frames64 p - 1\<rparr> else p)"

definition pmm_total_frames64 :: "pmm64 \<Rightarrow> u64" where
  "pmm_total_frames64 p = total_frames64 p"

definition pmm_used_frames64 :: "pmm64 \<Rightarrow> u64" where
  "pmm_used_frames64 p = used_frames64 p"

definition pmm_free_frames64 :: "pmm64 \<Rightarrow> u64" where
  "pmm_free_frames64 p = total_frames64 p - used_frames64 p"

section \<open>Single bits\<close>

lemma frame_test64_bit: "frame_test64 f p \<longleftrightarrow> bit (bitmap64 p (f div 64)) (unat f mod 64)"
  by (simp add: frame_test64_def bit_iff_and_push_bit_not_eq_0 unat_mod)

lemma frame_bits64_eq:
  fixes f g :: u64
  assumes "f div 64 = g div 64"
  shows "unat g mod 64 = unat f mod 64 \<longleftrightarrow> g = f"
proof -
  have "unat f div 64 = unat g div 64" using arg_cong [OF assms, of unat] by (simp add: unat_div)
  then show ?thesis by (metis div_mult_mod_eq word_unat_eq_iff)
qed

lemma frame_test64_set [simp]: "frame_test64 g (frame_set64 f p) \<longleftrightarrow> g = f \<or> frame_test64 g p"
proof (cases "f div 64 = g div 64")
  case True
  have "frame_test64 g (frame_set64 f p) \<longleftrightarrow> unat g mod 64 = unat f mod 64 \<or> frame_test64 g p"
    by (auto simp: frame_test64_bit frame_set64_def bit_or_iff True unat_mod)
  then show ?thesis by (simp only: frame_bits64_eq [OF True])
next
  case False
  then show ?thesis by (auto simp: frame_test64_bit frame_set64_def)
qed

lemma frame_test64_clear [simp]: "frame_test64 g (frame_clear64 f p) \<longleftrightarrow> g \<noteq> f \<and> frame_test64 g p"
proof (cases "f div 64 = g div 64")
  case True
  have "frame_test64 g (frame_clear64 f p) \<longleftrightarrow> unat g mod 64 \<noteq> unat f mod 64 \<and> frame_test64 g p"
    by (auto simp: frame_test64_bit frame_clear64_def bit_and_iff bit_not_iff True unat_mod)
  then show ?thesis by (simp only: frame_bits64_eq [OF True] not_def)
next
  case False
  then show ?thesis by (auto simp: frame_test64_bit frame_clear64_def)
qed

lemma frame_fields64 [simp]:
  "total_frames64 (frame_set64 f p) = total_frames64 p" "used_frames64 (frame_set64 f p) = used_frames64 p"
  "total_frames64 (frame_clear64 f p) = total_frames64 p" "used_frames64 (frame_clear64 f p) = used_frames64 p"
  by (simp_all add: frame_set64_def frame_clear64_def)

lemma frame_test64_used_frames [simp]: "frame_test64 f (p\<lparr>used_frames64 := n\<rparr>) = frame_test64 f p"
  by (simp add: frame_test64_def)

section \<open>The set of used frames and the accounting invariant\<close>

definition used_set64 :: "pmm64 \<Rightarrow> u64 set" where
  "used_set64 p = {f. f < total_frames64 p \<and> frame_test64 f p}"

text \<open>Frame numbers stay below \<open>2 ^ 52\<close>, so frame addresses do not wrap, and the counter is right.\<close>

definition pmm_inv64 :: "pmm64 \<Rightarrow> bool" where
  "pmm_inv64 p \<longleftrightarrow> unat (total_frames64 p) \<le> 2 ^ 52 \<and> unat (used_frames64 p) = card (used_set64 p)"

lemma used_set_take64:
  "f < total_frames64 p \<Longrightarrow> used_set64 ((frame_set64 f p)\<lparr>used_frames64 := n\<rparr>) = insert f (used_set64 p)"
  by (auto simp: used_set64_def)

lemma used_set_give64: "used_set64 ((frame_clear64 f p)\<lparr>used_frames64 := n\<rparr>) = used_set64 p - {f}"
  by (auto simp: used_set64_def)

lemma unat_add_step64:
  fixes n :: u64
  assumes "i < unat n"
  shows "unat (word_of_nat i :: u64) = i" "word_of_nat i < n"
proof -
  have "i < 2 ^ 64" using assms unat_lt2p [of n] by simp
  then show "unat (word_of_nat i :: u64) = i" by (simp add: unat_arith_simps)
  then show "word_of_nat i < n" using assms by (simp add: word_less_nat_alt)
qed

lemma card_lessThan_word64: "card {..< n :: u64} = unat n"
proof -
  have "{..<n} = word_of_nat ` {..<unat n}"
  proof (intro set_eqI iffI)
    fix x assume "x \<in> {..<n}"
    then have "unat x < unat n" by (simp add: word_less_nat_alt)
    then show "x \<in> word_of_nat ` {..<unat n}" by (intro image_eqI [of _ _ "unat x"]) auto
  qed (auto simp: unat_add_step64)
  moreover have "inj_on (word_of_nat :: nat \<Rightarrow> u64) {..<unat n}"
    by (rule inj_onI) (metis lessThan_iff unat_add_step64(1))
  ultimately show ?thesis by (simp add: card_image)
qed

lemma used_set_bound64: "card (used_set64 p) \<le> unat (total_frames64 p)"
proof -
  have "used_set64 p \<subseteq> {..<total_frames64 p}" by (auto simp: used_set64_def)
  then have "card (used_set64 p) \<le> card {..<total_frames64 p}" by (intro card_mono) auto
  then show ?thesis by (simp add: card_lessThan_word64)
qed

lemma used_set_bound_strict64:
  assumes "f < total_frames64 p" "\<not> frame_test64 f p"
  shows "card (used_set64 p) < unat (total_frames64 p)"
proof -
  have "used_set64 p \<subset> {..<total_frames64 p}" using assms by (auto simp: used_set64_def)
  then have "card (used_set64 p) < card {..<total_frames64 p}" by (intro psubset_card_mono) auto
  then show ?thesis by (simp add: card_lessThan_word64)
qed

lemma pmm_inv_take64:
  assumes "pmm_inv64 p" "f < total_frames64 p" "\<not> frame_test64 f p"
  shows "pmm_inv64 ((frame_set64 f p)\<lparr>used_frames64 := used_frames64 p + 1\<rparr>)"
proof -
  have "f \<notin> used_set64 p" using assms(3) by (simp add: used_set64_def)
  then have c: "card (insert f (used_set64 p)) = Suc (card (used_set64 p))" by simp
  have "unat (used_frames64 p) < unat (total_frames64 p)"
    using assms used_set_bound_strict64 by (simp add: pmm_inv64_def)
  then have "unat (used_frames64 p + 1) = Suc (unat (used_frames64 p))"
    by (intro unat_Suc_less) (simp add: word_less_nat_alt)
  then show ?thesis using assms(1,2) c by (simp add: pmm_inv64_def used_set_take64)
qed

lemma pmm_inv_give64:
  assumes "pmm_inv64 p" "f < total_frames64 p" "frame_test64 f p"
  shows "pmm_inv64 ((frame_clear64 f p)\<lparr>used_frames64 := used_frames64 p - 1\<rparr>)"
proof -
  have f: "f \<in> used_set64 p" using assms by (simp add: used_set64_def)
  then have "0 < card (used_set64 p)" by (auto simp: card_gt_0_iff)
  then have "used_frames64 p \<noteq> 0" using assms(1) by (auto simp: pmm_inv64_def)
  then have "unat (used_frames64 p - 1) = unat (used_frames64 p) - 1" by (rule unat_dec)
  then show ?thesis using assms(1) f by (simp add: pmm_inv64_def used_set_give64)
qed

lemma mark_frame_total64 [simp]: "total_frames64 (mark_frame64 f used p) = total_frames64 p"
  by (simp add: mark_frame64_def)

lemma mark_frame_test64:
  "frame_test64 g (mark_frame64 f used p) = (if g = f then used else frame_test64 g p)"
  by (auto simp: mark_frame64_def)

lemma mark_frame_inv64: "pmm_inv64 p \<Longrightarrow> f < total_frames64 p \<Longrightarrow> pmm_inv64 (mark_frame64 f used p)"
  by (auto simp: mark_frame64_def intro: pmm_inv_take64 pmm_inv_give64)

lemma mark_loop_total64 [simp]: "total_frames64 (mark_loop64 f lst used p) = total_frames64 p"
  by (induction f lst used p rule: mark_loop64.induct) (simp add: mark_loop64.simps)

lemma mark_loop_inv64: "pmm_inv64 p \<Longrightarrow> pmm_inv64 (mark_loop64 f lst used p)"
proof (induction f lst used p rule: mark_loop64.induct)
  case (1 f lst used p)
  then show ?case by (subst mark_loop64.simps) (auto intro: mark_frame_inv64)
qed

lemma mark_loop_test64:
  "g < total_frames64 p \<Longrightarrow>
   frame_test64 g (mark_loop64 f lst used p) = (if f \<le> g \<and> g < lst then used else frame_test64 g p)"
proof (induction f lst used p rule: mark_loop64.induct)
  case (1 f lst used p)
  show ?case
  proof (cases "f < lst \<and> f < total_frames64 p")
    case True
    have "f + 1 \<le> g \<longleftrightarrow> f < g"
      using True unat_Suc_less [of f lst] by (auto simp: word_le_nat_alt word_less_nat_alt)
    then have "frame_test64 g (mark_loop64 f lst used p) =
        (if f < g \<and> g < lst then used else frame_test64 g (mark_frame64 f used p))"
      using 1 True by (subst mark_loop64.simps) simp
    then show ?thesis using True by (auto simp: mark_frame_test64)
  next
    case False
    then show ?thesis using "1.prems" by (subst mark_loop64.simps) auto
  qed
qed

lemma mark_region_total64 [simp]: "total_frames64 (mark_region64 base len used p) = total_frames64 p"
  by (simp add: mark_region64_def)

lemma mark_region_inv64: "pmm_inv64 p \<Longrightarrow> pmm_inv64 (mark_region64 base len used p)"
  by (simp add: mark_region64_def mark_loop_inv64)


subsection \<open>Allocation and release\<close>

lemma alloc_scan64_result:
  assumes "alloc_scan64 f p = (a, p')"
  shows "(\<forall>h. f \<le> h \<and> h < total_frames64 p \<longrightarrow> frame_test64 h p) \<and> a = 0 \<and> p' = p \<or>
    (\<exists>g. f \<le> g \<and> g < total_frames64 p \<and> \<not> frame_test64 g p \<and> (\<forall>h. f \<le> h \<and> h < g \<longrightarrow> frame_test64 h p) \<and>
       a = g * 4096 \<and> p' = (frame_set64 g p)\<lparr>used_frames64 := used_frames64 p + 1\<rparr>)"
  using assms
proof (induction f p rule: alloc_scan64.induct)
  case (1 f p)
  show ?case
  proof (cases "f < total_frames64 p \<and> frame_test64 f p")
    case True
    have suc: "f + 1 \<le> x \<longleftrightarrow> f < x" for x
      using unat_Suc_less [of f "total_frames64 p"] True by (auto simp: word_le_nat_alt word_less_nat_alt)
    have le: "f \<le> x \<longleftrightarrow> f = x \<or> f < x" for x by (auto simp: order_le_less)
    have "alloc_scan64 (f + 1) p = (a, p')" using True 1(2) by (subst (asm) alloc_scan64.simps) simp
    from 1(1) [OF _ _ this] True show ?thesis unfolding suc le by blast
  next
    case False
    show ?thesis
    proof (cases "f < total_frames64 p")
      case True
      then have "a = f * 4096" "p' = (frame_set64 f p)\<lparr>used_frames64 := used_frames64 p + 1\<rparr>"
        using False 1(2) by (subst (asm) alloc_scan64.simps, simp)+
      then show ?thesis using True False by (intro disjI2 exI [of _ f]) auto
    next
      case False
      then have "a = 0" "p' = p" using 1(2) by (subst (asm) alloc_scan64.simps, simp)+
      then show ?thesis using False by (intro disjI1) auto
    qed
  qed
qed

text \<open>What a client relies on: an address that is not 0 is a page that was free and now is owned.\<close>

locale frame_source64 =
  fixes alloc :: "'p \<Rightarrow> u64 \<times> 'p" and release :: "u64 \<Rightarrow> 'p \<Rightarrow> 'p" and owned :: "'p \<Rightarrow> nat set" and ok :: "'p \<Rightarrow> bool"
  assumes alloc_none: "ok p \<Longrightarrow> alloc p = (0, p') \<Longrightarrow> p' = p"
    and alloc_some: "ok p \<Longrightarrow> alloc p = (a, p') \<Longrightarrow> a \<noteq> 0 \<Longrightarrow>
      ok p' \<and> unat a mod 4096 = 0 \<and> unat a div 4096 < 2 ^ 52 \<and> unat a div 4096 \<notin> owned p \<and> owned p' = insert (unat a div 4096) (owned p)"
    and release_owned: "ok p \<Longrightarrow> 4096 \<le> unat a \<Longrightarrow>
      ok (release a p) \<and> owned (release a p) = owned p - {unat a div 4096}"
begin

lemma alloc_release64:
  assumes "ok p" "alloc p = (a, p')" "a \<noteq> 0"
  shows "owned (release a p') = owned p"
proof -
  note a = alloc_some [OF assms]
  have "0 < unat a" using assms(3) by (simp add: unat_gt_0)
  then have "4096 \<le> unat a" using a by (metis dvd_imp_le mod_0_imp_dvd)
  then show ?thesis using a release_owned [of p' a] by simp
qed

end

definition frames_owned64 :: "pmm64 \<Rightarrow> nat set" where
  "frames_owned64 p = unat ` used_set64 p"

definition pmm_ok64 :: "pmm64 \<Rightarrow> bool" where
  "pmm_ok64 p \<longleftrightarrow> pmm_inv64 p \<and> 0 \<in> used_set64 p"

lemma unat_frame_addr64:
  assumes "pmm_inv64 p" "f < total_frames64 p"
  shows "unat (f * 4096) = unat f * 4096"
proof -
  have "unat f < 2 ^ 52" using assms by (simp add: pmm_inv64_def word_less_nat_alt)
  then show ?thesis by (subst unat_mult_no_overflow) simp_all
qed

interpretation pmm_long: frame_source64 pmm_alloc_frame64 pmm_free_frame64 frames_owned64 pmm_ok64
proof unfold_locales
  fix p p' assume ok: "pmm_ok64 p" and al: "pmm_alloc_frame64 p = (0, p')"
  from alloc_scan64_result [OF al [unfolded pmm_alloc_frame64_def]] show "p' = p"
  proof
    assume "\<exists>g. 0 \<le> g \<and> g < total_frames64 p \<and> \<not> frame_test64 g p \<and> (\<forall>h. 0 \<le> h \<and> h < g \<longrightarrow> frame_test64 h p) \<and>
       0 = g * 4096 \<and> p' = (frame_set64 g p)\<lparr>used_frames64 := used_frames64 p + 1\<rparr>"
    then obtain g where g: "g < total_frames64 p" "\<not> frame_test64 g p" "0 = g * 4096" by blast
    have "unat g * 4096 = 0" using unat_frame_addr64 [of p g] ok g unfolding pmm_ok64_def by (metis unat_0)
    then have "g = 0" by (simp add: unat_eq_0)
    then show ?thesis using ok g by (simp add: pmm_ok64_def used_set64_def)
  qed blast
next
  fix p a p' assume ok: "pmm_ok64 p" and al: "pmm_alloc_frame64 p = (a, p')" and a: "a \<noteq> 0"
  obtain g where g: "g < total_frames64 p" "\<not> frame_test64 g p" "a = g * 4096"
      "p' = (frame_set64 g p)\<lparr>used_frames64 := used_frames64 p + 1\<rparr>"
    using alloc_scan64_result [OF al [unfolded pmm_alloc_frame64_def]] a by blast
  have u: "unat a = unat g * 4096" using unat_frame_addr64 [of p g] ok g by (simp add: pmm_ok64_def)
  have "pmm_inv64 p'" using pmm_inv_take64 ok g by (simp add: pmm_ok64_def)
  moreover have us: "used_set64 p' = insert g (used_set64 p)" using g used_set_take64 by simp
  moreover have "unat g \<notin> frames_owned64 p" using g(2) by (auto simp: frames_owned64_def used_set64_def word_unat_eq_iff [symmetric])
  moreover have "unat g < 2 ^ 52" using g(1) ok by (simp add: pmm_ok64_def pmm_inv64_def word_less_nat_alt)
  ultimately show "pmm_ok64 p' \<and> unat a mod 4096 = 0 \<and> unat a div 4096 < 2 ^ 52 \<and> unat a div 4096 \<notin> frames_owned64 p \<and>
      frames_owned64 p' = insert (unat a div 4096) (frames_owned64 p)"
    using ok by (simp add: pmm_ok64_def u frames_owned64_def)
next
  fix p and a :: u64 assume ok: "pmm_ok64 p" and a: "4096 \<le> unat a"
  have f: "unat (a div 4096) = unat a div 4096" by (simp add: unat_div)
  have nz: "a div 4096 \<noteq> 0" using a f by (metis div_greater_zero_iff less_irrefl unat_0 zero_less_numeral)
  show "pmm_ok64 (pmm_free_frame64 a p) \<and> frames_owned64 (pmm_free_frame64 a p) = frames_owned64 p - {unat a div 4096}"
  proof (cases "a div 4096 < total_frames64 p \<and> frame_test64 (a div 4096) p")
    case True
    then have "pmm_inv64 (pmm_free_frame64 a p)" using pmm_inv_give64 ok by (simp add: pmm_free_frame64_def pmm_ok64_def Let_def)
    moreover have us: "used_set64 (pmm_free_frame64 a p) = used_set64 p - {a div 4096}"
      using True used_set_give64 by (simp add: pmm_free_frame64_def Let_def)
    moreover have "unat ` (used_set64 p - {a div 4096}) = unat ` used_set64 p - {unat a div 4096}"
      using f by (auto simp: word_unat_eq_iff)
    ultimately show ?thesis using ok nz by (auto simp: pmm_ok64_def frames_owned64_def)
  next
    case False
    then have "pmm_free_frame64 a p = p" by (auto simp: pmm_free_frame64_def Let_def)
    moreover have "unat a div 4096 \<notin> frames_owned64 p"
    proof
      assume "unat a div 4096 \<in> frames_owned64 p"
      then obtain x where x: "x \<in> used_set64 p" "unat x = unat (a div 4096)" unfolding frames_owned64_def f by auto
      then have "x = a div 4096" by (simp only: word_unat_eq_iff)
      then show False using x(1) False by (simp add: used_set64_def)
    qed
    ultimately show ?thesis using ok by auto
  qed
qed

subsection \<open>The allocator that boot builds\<close>

lemma free_available64_inv: "free_available64 m mbi offset p = Some q \<Longrightarrow> pmm_inv64 p \<Longrightarrow> pmm_inv64 q \<and> total_frames64 q = total_frames64 p"
proof (erule free_available64.raw_induct [rotated, where
      P = "\<lambda>m mbi offset p q. pmm_inv64 p \<longrightarrow> pmm_inv64 q \<and> total_frames64 q = total_frames64 p", THEN mp])
  fix rec m mbi offset p q
  assume step: "\<And>m mbi offset p q. rec m mbi offset p = Some q \<Longrightarrow> pmm_inv64 p \<longrightarrow> pmm_inv64 q \<and> total_frames64 q = total_frames64 p"
    and now: "(if offset < mmap_length mbi
        then let e = mmap_entry_at m (mmap_addr mbi + offset) in rec m mbi (offset + (e_size e + 4)) (free_entry64 e p)
        else Some p) = Some q"
  have e: "pmm_inv64 p \<longrightarrow> pmm_inv64 (free_entry64 e p)" "total_frames64 (free_entry64 e p) = total_frames64 p" for e
    by (simp_all add: free_entry64_def mark_region_inv64)
  show "pmm_inv64 p \<longrightarrow> pmm_inv64 q \<and> total_frames64 q = total_frames64 p"
    using now step e by (auto simp: Let_def split: if_splits)
qed assumption

lemma mark_region64_keeps: "g < total_frames64 p \<Longrightarrow> frame_test64 g p \<Longrightarrow> frame_test64 g (mark_region64 base len True p)"
  by (simp add: mark_region64_def mark_loop_test64)

lemma fill_bytes64_bit:
  fixes f n :: u64
  assumes "unat f < unat n" "unat n \<le> 2 ^ 52"
  shows "bit (fill_bytes64 (unat ((n + 7) div 8)) ram (f div 64)) (unat f mod 64)"
proof -
  have "unat (n + 7) = unat n + 7" using assms(2) by (subst unat_plus_no_overflow) simp_all
  then have b: "unat ((n + 7) div 8) = (unat n + 7) div 8" by (simp add: unat_div)
  have w: "unat (f div 64) = unat f div 64" by (simp add: unat_div)
  have "unat f div 8 < (unat n + 7) div 8" using assms(1) by linarith
  moreover have "unat f mod 64 div 8 + 8 * (unat f div 64) = unat f div 8"
  proof -
    have "unat f = 64 * (unat f div 64) + unat f mod 64" by simp
    then have "unat f div 8 = (8 * (8 * (unat f div 64)) + unat f mod 64) div 8" by simp
    also have "\<dots> = 8 * (unat f div 64) + unat f mod 64 div 8" by (rule div_mult_self4) simp
    finally show ?thesis by simp
  qed
  ultimately have "unat f mod 64 div 8 < (unat n + 7) div 8 - 8 * (unat f div 64)" by linarith
  moreover have "unat f mod 64 < 64" by simp
  ultimately have "unat f mod 64 < 8 * min 8 ((unat n + 7) div 8 - 8 * (unat f div 64))" by (cases "8 \<le> (unat n + 7) div 8 - 8 * (unat f div 64)") (auto simp: min_def div_less_iff_less_mult mult.commute)
  then show ?thesis unfolding fill_bytes64_def b w by (simp add: bit_or_iff bit_mask_iff)
qed

lemma pmm_init64_ok:
  assumes "pmm_init64 m kernel_end ram mbi = Some p" "0 < total_frames64 p"
  shows "pmm_ok64 p"
proof -
  obtain h where h: "find_highest m mbi 0 0 = Some h" using assms(1) by (auto simp: pmm_init64_def split: if_splits option.splits)
  let ?n = "h div 4096" and ?b = "(h div 4096 + 7) div 8"
  let ?p = "\<lparr>bitmap64 = fill_bytes64 (unat ?b) ram, total_frames64 = ?n, used_frames64 = ?n\<rparr>"
  obtain q where q: "free_available64 m mbi 0 ?p = Some q" and p: "p = claim_kernel64 kernel_end ?b q"
    using assms(1) by (auto simp: pmm_init64_def h Let_def split: if_splits)
  have n: "unat ?n \<le> 2 ^ 52"
  proof -
    have "unat h < 2 ^ 64" using unat_lt2p [of h] by simp
    then show ?thesis by (simp add: unat_div)
  qed
  have "used_set64 ?p = {..<?n}"
    using fill_bytes64_bit [OF _ n] by (auto simp: used_set64_def frame_test64_bit word_less_nat_alt)
  then have "pmm_inv64 ?p" using n by (simp add: pmm_inv64_def card_lessThan_word64)
  from free_available64_inv [OF q this] have inv: "pmm_inv64 q" by simp
  then have inv_p: "pmm_inv64 p" by (simp add: p claim_kernel64_def mark_region_inv64)
  have t: "total_frames64 q = total_frames64 p" by (simp add: p claim_kernel64_def)
  have "frame_test64 0 (mark_region64 0 0x100000 True q)"
  proof -
    have "(0 :: u64) < (0 + 0x100000 + 4096 - 1) div 4096" "(0 :: u64) div 4096 = 0" by simp_all
    then show ?thesis unfolding mark_region64_def using assms(2) t by (subst mark_loop_test64) (simp_all only: order_refl if_True simp_thms)
  qed
  moreover have "0 < total_frames64 q" using assms(2) t by simp
  ultimately have "frame_test64 0 p" unfolding p claim_kernel64_def
    by (simp add: mark_region64_keeps)
  then show ?thesis using inv_p assms(2) by (simp add: pmm_ok64_def used_set64_def)
qed

section \<open>Runs of frames\<close>

lemma run_scan64_result:
  assumes "run_scan64 f run_start run_length cnt p = (a, p')"
    "unat f = unat run_start + unat run_length" "\<And>h. run_start \<le> h \<Longrightarrow> h < f \<Longrightarrow> \<not> frame_test64 h p" "f \<le> total_frames64 p"
  shows "a = 0 \<and> p' = p \<or> (\<exists>g. a = g * 4096 \<and> p' = claim_run64 0 cnt g p \<and> unat g + unat cnt \<le> unat (total_frames64 p) \<and>
    (\<forall>h. unat g \<le> unat h \<and> unat h < unat g + unat cnt \<longrightarrow> \<not> frame_test64 h p))"
  using assms
proof (induction f run_start run_length cnt p rule: run_scan64.induct)
  case (1 f run_start run_length cnt p)
  show ?case
  proof (cases "f < total_frames64 p")
    case False
    then show ?thesis using "1.prems"(1) by (subst (asm) run_scan64.simps) simp
  next
    case lt: True
    have suc: "unat (f + 1) = Suc (unat f)" by (rule unat_Suc_less [OF lt])
    have le: "f + 1 \<le> total_frames64 p" using lt suc by (simp add: word_le_nat_alt word_less_nat_alt)
    show ?thesis
    proof (cases "frame_test64 f p")
      case True
      then have "run_scan64 (f + 1) (f + 1) 0 cnt p = (a, p')" using lt "1.prems"(1) by (subst (asm) run_scan64.simps) simp
      then show ?thesis using "1.IH"(1) [OF lt True] le by (simp add: not_le [symmetric])
    next
      case False
      have rl: "unat (run_length + 1) = Suc (unat run_length)"
      proof -
        have "unat run_length + 1 < 2 ^ 64" using "1.prems"(2) suc unat_lt2p [of "f + 1"] by simp
        then show ?thesis by (subst unat_plus_no_overflow) simp_all
      qed
      have free: "\<not> frame_test64 h p" if "run_start \<le> h" "h < f + 1" for h
      proof (cases "h = f")
        case ne: False
        then have "unat h \<noteq> unat f" by (simp add: word_unat_eq_iff)
        then have "h < f" using that(2) suc by (simp add: word_less_nat_alt)
        then show ?thesis using that(1) "1.prems"(3) by blast
      qed (use False in simp)
      show ?thesis
      proof (cases "run_length + 1 = cnt")
        case True
        then have "a = run_start * 4096" "p' = claim_run64 0 cnt run_start p"
          using lt False "1.prems"(1) by (subst (asm) run_scan64.simps, simp)+
        moreover have c: "unat run_start + unat cnt = Suc (unat f)" using True rl "1.prems"(2) by simp
        moreover have "\<not> frame_test64 h p" if "unat run_start \<le> unat h \<and> unat h < unat run_start + unat cnt" for h
          using free [of h] that c suc by (simp add: word_le_nat_alt word_less_nat_alt)
        ultimately show ?thesis using lt by (intro disjI2 exI [of _ run_start]) (simp add: word_less_nat_alt)
      next
        case no: False
        then have "run_scan64 (f + 1) run_start (run_length + 1) cnt p = (a, p')"
          using lt False "1.prems"(1) by (subst (asm) run_scan64.simps) simp
        then show ?thesis using "1.IH"(2) [OF lt False no] le suc rl "1.prems"(2) free by simp
      qed
    qed
  qed
qed

lemma claim_run64_spec:
  assumes "pmm_inv64 p" "unat g + unat cnt \<le> unat (total_frames64 p)" "unat i \<le> unat cnt"
    "\<And>h. unat g + unat i \<le> unat h \<Longrightarrow> unat h < unat g + unat cnt \<Longrightarrow> \<not> frame_test64 h p"
  shows "pmm_inv64 (claim_run64 i cnt g p) \<and> total_frames64 (claim_run64 i cnt g p) = total_frames64 p \<and>
    used_set64 (claim_run64 i cnt g p) = used_set64 p \<union> {h. unat g + unat i \<le> unat h \<and> unat h < unat g + unat cnt}"
  using assms
proof (induction i cnt g p rule: claim_run64.induct)
  case (1 i cnt g p)
  show ?case
  proof (cases "i < cnt")
    case True
    have suc: "unat (i + 1) = Suc (unat i)" by (rule unat_Suc_less [OF True])
    have lt: "unat g + unat i < unat (total_frames64 p)" using True 1(3) by (simp add: word_less_nat_alt)
    then have u: "unat (g + i) = unat g + unat i" using unat_lt2p [of "total_frames64 p"] by (intro unat_plus_no_overflow) simp
    have f: "g + i < total_frames64 p" using lt u by (simp add: word_less_nat_alt)
    have free: "\<not> frame_test64 (g + i) p" using 1(5) [of "g + i"] u True by (simp add: word_less_nat_alt)
    let ?p = "(frame_set64 (g + i) p)\<lparr>used_frames64 := used_frames64 p + 1\<rparr>"
    have eq: "h = g + i \<longleftrightarrow> unat h = unat g + unat i" for h unfolding word_unat_eq_iff u ..
    have "\<not> frame_test64 h ?p" if "unat g + unat (i + 1) \<le> unat h" "unat h < unat g + unat cnt" for h
      using that 1(5) [of h] suc eq [of h] by simp
    then have "pmm_inv64 (claim_run64 (i + 1) cnt g ?p) \<and> total_frames64 (claim_run64 (i + 1) cnt g ?p) = total_frames64 ?p \<and>
        used_set64 (claim_run64 (i + 1) cnt g ?p) = used_set64 ?p \<union> {h. unat g + unat (i + 1) \<le> unat h \<and> unat h < unat g + unat cnt}"
      using 1(3) True suc pmm_inv_take64 [OF 1(2) f free] by (intro 1(1)) (simp_all add: word_less_nat_alt)
    moreover have "claim_run64 i cnt g p = claim_run64 (i + 1) cnt g ?p" using True by (subst claim_run64.simps) simp
    moreover have "{h. unat g + unat i \<le> unat h \<and> unat h < unat g + unat cnt} =
        insert (g + i) {h. unat g + unat (i + 1) \<le> unat h \<and> unat h < unat g + unat cnt}"
    proof (rule set_eqI)
      fix h :: u64
      have "unat i < unat cnt" using True by (simp add: word_less_nat_alt)
      then show "h \<in> {h. unat g + unat i \<le> unat h \<and> unat h < unat g + unat cnt} \<longleftrightarrow>
          h \<in> insert (g + i) {h. unat g + unat (i + 1) \<le> unat h \<and> unat h < unat g + unat cnt}"
        unfolding mem_Collect_eq insert_iff eq suc by linarith
    qed
    ultimately show ?thesis using used_set_take64 [OF f] by simp
  next
    case False
    then have "claim_run64 i cnt g p = p" by (subst claim_run64.simps) simp
    then show ?thesis using 1(2) False by (auto simp: word_less_nat_alt)
  qed
qed

lemma alloc_run64:
  assumes "pmm_ok64 p" "pmm_alloc_frames64 cnt p = (a, p')" "cnt \<noteq> 0"
  shows "a = 0 \<Longrightarrow> p' = p"
    "a \<noteq> 0 \<Longrightarrow> \<exists>g. unat a = 4096 * g \<and> 0 < g \<and> g + unat cnt \<le> unat (total_frames64 p) \<and>
       (\<forall>x. g \<le> x \<and> x < g + unat cnt \<longrightarrow> x \<notin> frames_owned64 p) \<and>
       pmm_ok64 p' \<and> total_frames64 p' = total_frames64 p \<and> frames_owned64 p \<subseteq> frames_owned64 p'"
proof -
  have inv: "pmm_inv64 p" and zero: "0 \<in> used_set64 p" using assms(1) by (simp_all add: pmm_ok64_def)
  have pos: "0 < unat cnt" using assms(3) by (simp add: unat_gt_0)
  have "run_scan64 0 0 0 cnt p = (a, p')" using assms(2,3) by (simp add: pmm_alloc_frames64_def)
  from run_scan64_result [OF this] have cases: "a = 0 \<and> p' = p \<or> (\<exists>g. a = g * 4096 \<and> p' = claim_run64 0 cnt g p \<and>
      unat g + unat cnt \<le> unat (total_frames64 p) \<and> (\<forall>h. unat g \<le> unat h \<and> unat h < unat g + unat cnt \<longrightarrow> \<not> frame_test64 h p))"
    by simp
  have run: "unat a = 4096 * unat g \<and> 0 < unat g \<and> (\<forall>x. unat g \<le> x \<and> x < unat g + unat cnt \<longrightarrow> x \<notin> frames_owned64 p) \<and>
       pmm_ok64 p' \<and> total_frames64 p' = total_frames64 p \<and> frames_owned64 p \<subseteq> frames_owned64 p'"
    if g: "a = g * 4096" "p' = claim_run64 0 cnt g p" "unat g + unat cnt \<le> unat (total_frames64 p)"
      "\<forall>h. unat g \<le> unat h \<and> unat h < unat g + unat cnt \<longrightarrow> \<not> frame_test64 h p" for g
  proof -
    have lt: "g < total_frames64 p" using g(3) pos by (simp add: word_less_nat_alt)
    have "g \<noteq> 0" using g(4) zero pos by (auto simp: used_set64_def)
    moreover have "\<forall>x. unat g \<le> x \<and> x < unat g + unat cnt \<longrightarrow> x \<notin> frames_owned64 p" using g(4) by (auto simp: frames_owned64_def used_set64_def)
    moreover have "pmm_inv64 p' \<and> total_frames64 p' = total_frames64 p \<and> used_set64 p \<subseteq> used_set64 p'"
      using claim_run64_spec [OF inv, of g cnt 0] g(2-4) by auto
    ultimately show ?thesis using unat_frame_addr64 [OF inv lt] g(1) zero by (auto simp: unat_gt_0 pmm_ok64_def frames_owned64_def)
  qed
  show "p' = p" if z: "a = 0"
  proof (rule ccontr)
    assume "p' \<noteq> p"
    then obtain g where g: "a = g * 4096" "p' = claim_run64 0 cnt g p" "unat g + unat cnt \<le> unat (total_frames64 p)"
        "\<forall>h. unat g \<le> unat h \<and> unat h < unat g + unat cnt \<longrightarrow> \<not> frame_test64 h p" using cases by blast
    from run [OF g] show False unfolding z by auto
  qed
  show "\<exists>g. unat a = 4096 * g \<and> 0 < g \<and> g + unat cnt \<le> unat (total_frames64 p) \<and>
       (\<forall>x. g \<le> x \<and> x < g + unat cnt \<longrightarrow> x \<notin> frames_owned64 p) \<and>
       pmm_ok64 p' \<and> total_frames64 p' = total_frames64 p \<and> frames_owned64 p \<subseteq> frames_owned64 p'" if "a \<noteq> 0"
    using cases run that by blast
qed

end
