(* ===== verification/Paging64.thy ===== *)
theory Paging64
  imports Paging Pmm64
begin

text \<open>
  Virtual memory of the 64-bit port: the four-level tables of \<open>arthic64/mm/paging.c\<close>.  As in \<open>Paging\<close>, \<open>slots64\<close> is physical memory as
  the code accesses it, one entry per 8-aligned address; the flag bits are those of \<open>Paging\<close>.  The tables are
  reached through an identity mapping of the first gigabyte (of the boot code, then of the tables themselves), and the
  allocator hands out the lowest free frames; the model does not have the fault that a table beyond it would cause.
\<close>

section \<open>State\<close>

record paging64 =
  slots64 :: "u64 \<Rightarrow> u64"
  pml4 :: u64
  mapped_limit64 :: u64
  fault_resume_rip :: u64
  frames64 :: pmm64
  r_cr3_64 :: u64

abbreviation ADDR_MASK :: u64 where "ADDR_MASK \<equiv> 0x000FFFFFFFFFF000"

definition slot64 :: "u64 \<Rightarrow> u64 \<Rightarrow> u64" where
  "slot64 t i = t + 8 * i"

definition set_slot64 :: "u64 \<Rightarrow> u64 \<Rightarrow> paging64 \<Rightarrow> paging64" where
  "set_slot64 a v s = s\<lparr>slots64 := (slots64 s)(a := v)\<rparr>"

definition clear_page64 :: "u64 \<Rightarrow> paging64 \<Rightarrow> paging64" where
  "clear_page64 a s = s\<lparr>slots64 := \<lambda>x. if x - a < 4096 then 0 else slots64 s x\<rparr>"

definition pml4_index64 :: "u64 \<Rightarrow> u64" where "pml4_index64 v = drop_bit 39 v AND 0x1FF"
definition pdpt_index64 :: "u64 \<Rightarrow> u64" where "pdpt_index64 v = drop_bit 30 v AND 0x1FF"
definition pd_index64 :: "u64 \<Rightarrow> u64" where "pd_index64 v = drop_bit 21 v AND 0x1FF"
definition pt_index64 :: "u64 \<Rightarrow> u64" where "pt_index64 v = drop_bit 12 v AND 0x1FF"

section \<open>Walking and changing the tables\<close>

text \<open>The result 0 is the null pointer.\<close>

definition next_level64 :: "u64 \<Rightarrow> u64 \<Rightarrow> bool \<Rightarrow> paging64 \<Rightarrow> u64 \<times> paging64" where
  "next_level64 table index create s =
     (let a = slot64 table index
      in if slots64 s a AND PAGE_PRESENT = 0
         then if \<not> create then (0, s)
              else case pmm_alloc_frame64 (frames64 s) of (frame, p) \<Rightarrow>
                if frame = 0 then (0, s\<lparr>frames64 := p\<rparr>)
                else let s1 = set_slot64 a (frame OR PAGE_PRESENT OR PAGE_WRITE OR PAGE_USER) (clear_page64 frame (s\<lparr>frames64 := p\<rparr>))
                     in (slots64 s1 a AND ADDR_MASK, s1)
         else (slots64 s a AND ADDR_MASK, s))"

definition paging_map64 :: "u64 \<Rightarrow> u64 \<Rightarrow> u64 \<Rightarrow> paging64 \<Rightarrow> bool \<times> paging64" where
  "paging_map64 va pa flags s =
     (case next_level64 (pml4 s) (pml4_index64 va) True s of (pdpt, s1) \<Rightarrow>
        if pdpt = 0 then (False, s1)
        else case next_level64 pdpt (pdpt_index64 va) True s1 of (pd, s2) \<Rightarrow>
          if pd = 0 then (False, s2)
          else case next_level64 pd (pd_index64 va) True s2 of (pt, s3) \<Rightarrow>
            if pt = 0 then (False, s3)
            else (True, set_slot64 (slot64 pt (pt_index64 va)) ((pa AND ADDR_MASK) OR flags) s3))"

definition entry_for64 :: "u64 \<Rightarrow> paging64 \<Rightarrow> u64" where
  "entry_for64 va s =
     (let pdpt = fst (next_level64 (pml4 s) (pml4_index64 va) False s)
      in if pdpt = 0 then 0
         else let pd = fst (next_level64 pdpt (pdpt_index64 va) False s)
         in if pd = 0 then 0
            else let pt = fst (next_level64 pd (pd_index64 va) False s)
            in if pt = 0 then 0 else slot64 pt (pt_index64 va))"

definition paging_set_flags64 :: "u64 \<Rightarrow> u64 \<Rightarrow> paging64 \<Rightarrow> paging64" where
  "paging_set_flags64 va flags s =
     (let entry = entry_for64 va s
      in if entry = 0 then s else set_slot64 entry ((slots64 s entry AND ADDR_MASK) OR flags) s)"

definition paging_unmap64 :: "u64 \<Rightarrow> paging64 \<Rightarrow> paging64" where
  "paging_unmap64 va s = (let entry = entry_for64 va s in if entry = 0 then s else set_slot64 entry 0 s)"

section \<open>Faults\<close>

definition paging_set_fault_resume64 :: "u64 \<Rightarrow> paging64 \<Rightarrow> paging64" where
  "paging_set_fault_resume64 rip s = s\<lparr>fault_resume_rip := rip\<rparr>"

text \<open>Execution goes on at another address, the program in ring 3 is left for good, or the machine halts.\<close>

datatype fault_outcome64 = Resume64 u64 | Unwind64 fault_cause | Halt64

definition page_fault_handler64 :: "u64 \<Rightarrow> paging64 \<Rightarrow> fault_outcome64 \<times> paging64" where
  "page_fault_handler64 err s =
     (if fault_resume_rip s \<noteq> 0 then (Resume64 (fault_resume_rip s), s\<lparr>fault_resume_rip := 0\<rparr>)
      else if err AND 0x04 \<noteq> 0
      then (Unwind64 (if err AND 0x10 \<noteq> 0 then Fetch_NX
                      else if err AND 0x01 \<noteq> 0 then (if err AND 0x02 \<noteq> 0 then Write_RO else Protection)
                      else Unmapped), s)
      else (Halt64, s))"

section \<open>Setting up\<close>

text \<open>\<open>for (addr = \<dots>; addr < end; addr += PAGE_SIZE)\<close>, with a body that may halt the machine.\<close>

partial_function (option) each_page64 :: "(u64 \<Rightarrow> 's \<Rightarrow> 's option) \<Rightarrow> u64 \<Rightarrow> u64 \<Rightarrow> 's \<Rightarrow> 's option" where
  [code]: "each_page64 f addr stop s =
     (if addr < stop then Option.bind (f addr s) (each_page64 f (addr + 4096) stop) else Some s)"

definition identity_page64 :: "u64 \<Rightarrow> paging64 \<Rightarrow> paging64 option" where
  "identity_page64 addr s =
     (case paging_map64 addr addr (PAGE_PRESENT OR PAGE_WRITE) s of (ok, s') \<Rightarrow> if ok then Some s' else None)"

definition protect_page64 :: "u64 \<Rightarrow> u64 \<Rightarrow> u64 \<Rightarrow> paging64 \<Rightarrow> paging64" where
  "protect_page64 text_start ro_end addr s =
     (if text_start \<le> addr \<and> addr < ro_end then paging_set_flags64 addr PAGE_PRESENT s
      else paging_set_flags64 addr (PAGE_PRESENT OR PAGE_WRITE OR PAGE_NX) s)"

definition paging_init64 :: "u64 \<Rightarrow> u64 \<Rightarrow> paging64 \<Rightarrow> paging64 option" where
  "paging_init64 kernel_text_start kernel_rodata_end s =
     (case pmm_alloc_frame64 (frames64 s) of (root, p) \<Rightarrow>
        if root = 0 then None
        else
          let s1 = (clear_page64 root (s\<lparr>frames64 := p\<rparr>))\<lparr>pml4 := root\<rparr>;
              memtop = pmm_memory_top64 (frames64 s1);
              memtop = (if memtop > 0x40000000 then 0x40000000 else memtop)
          in case each_page64 identity_page64 0 memtop s1 of
               None \<Rightarrow> None
             | Some s2 \<Rightarrow>
                 let s3 = s2\<lparr>mapped_limit64 := memtop\<rparr>;
                     text_start = kernel_text_start AND NOT 0xFFF;
                     ro_end = (kernel_rodata_end + 4096 - 1) AND NOT 0xFFF
                 in map_option (\<lambda>s4. s4\<lparr>r_cr3_64 := pml4 s4\<rparr>)
                      (each_page64 (\<lambda>addr s. Some (protect_page64 text_start ro_end addr s)) 0 memtop s3))"

definition paging_mapped_limit64 :: "paging64 \<Rightarrow> u64" where
  "paging_mapped_limit64 s = mapped_limit64 s"

definition make_user_page64 :: "u64 \<Rightarrow> u64 \<Rightarrow> paging64 \<Rightarrow> paging64" where
  "make_user_page64 flags addr s =
     (let a4 = slot64 (pml4 s) (pml4_index64 addr); s1 = set_slot64 a4 (slots64 s a4 OR PAGE_USER) s;
          pdpt = slots64 s1 a4 AND ADDR_MASK
      in if pdpt = 0 then s1
         else let a3 = slot64 pdpt (pdpt_index64 addr); s2 = set_slot64 a3 (slots64 s1 a3 OR PAGE_USER) s1;
                  pd = slots64 s2 a3 AND ADDR_MASK
         in if pd = 0 then s2
            else let a2 = slot64 pd (pd_index64 addr); s3 = set_slot64 a2 (slots64 s2 a2 OR PAGE_USER) s2
            in paging_set_flags64 addr flags s3)"

definition paging_make_user64 :: "u64 \<Rightarrow> u64 \<Rightarrow> bool \<Rightarrow> paging64 \<Rightarrow> paging64 option" where
  "paging_make_user64 start stop writable s =
     (let flags = PAGE_PRESENT OR PAGE_USER OR (if writable then PAGE_WRITE OR PAGE_NX else 0)
      in each_page64 (\<lambda>addr s. Some (make_user_page64 flags addr s)) (start AND NOT 0xFFF) stop s)"

section \<open>The walk of the MMU\<close>

text \<open>For a canonical address of the lower half: the frame, and whether the page may be written, used from ring 3 and
  executed.  Permissions are the conjunction over the levels.  Bit 7 of an upper entry would make a large page, which these
  tables never have; the walk is None there.\<close>

definition mmu64 :: "paging64 \<Rightarrow> u64 \<Rightarrow> (u64 \<times> bool \<times> bool \<times> bool) option" where
  "mmu64 s v =
     (let e4 = slots64 s (slot64 (r_cr3_64 s) (pml4_index64 v));
          e3 = slots64 s (slot64 (e4 AND ADDR_MASK) (pdpt_index64 v));
          e2 = slots64 s (slot64 (e3 AND ADDR_MASK) (pd_index64 v));
          e1 = slots64 s (slot64 (e2 AND ADDR_MASK) (pt_index64 v))
      in if bit e4 0 \<and> bit e3 0 \<and> bit e2 0 \<and> bit e1 0 \<and> \<not> bit e4 7 \<and> \<not> bit e3 7 \<and> \<not> bit e2 7
         then Some (e1 AND ADDR_MASK, bit e4 1 \<and> bit e3 1 \<and> bit e2 1 \<and> bit e1 1, bit e4 2 \<and> bit e3 2 \<and> bit e2 2 \<and> bit e1 2,
                    \<not> bit e4 63 \<and> \<not> bit e3 63 \<and> \<not> bit e2 63 \<and> \<not> bit e1 63)
         else None)"

end
