(* ===== verification/Paging64Correct.thy ===== *)
theory Paging64Correct
  imports Paging64 Gdt64
begin

text \<open>
  The four-level tables as a tree.  \<open>table_at\<close> follows a path of indices; in a well-formed state every table is reached by one path,
  lies in a frame of its own, and every upper entry grants everything, so that the last entry alone decides.  On that
  view each operation has one equation, and \<open>paging_init\<close> is shown to build an identity mapping with W^X.
\<close>

section \<open>Entries\<close>

definition is_page :: "u64 \<Rightarrow> bool" where
  "is_page t \<longleftrightarrow> unat t mod 4096 = 0 \<and> unat t < 2 ^ 52"

lemma addr_mask_bit: "bit ADDR_MASK n \<longleftrightarrow> 12 \<le> n \<and> n < 52"
proof -
  have "ADDR_MASK = push_bit 12 (mask 40)" by (simp add: mask_eq_exp_minus_1 push_bit_eq_mult)
  then show ?thesis by (simp only: bit_push_bit_iff bit_mask_iff) auto
qed

lemma present_bit64: "e AND PAGE_PRESENT = 0 \<longleftrightarrow> \<not> bit e 0"
  by (simp add: PAGE_PRESENT_def and_one_eq bit_0 even_iff_mod_2_eq_zero [symmetric])

lemma is_page_bit:
  assumes "is_page t" "bit t n"
  shows "12 \<le> n \<and> n < 52"
proof -
  have n: "bit (unat t) n" using assms(2) by (simp add: bit_unsigned_iff)
  have "12 \<le> n"
  proof (rule ccontr)
    assume "\<not> 12 \<le> n"
    then have "bit (take_bit 12 (unat t)) n" using n by (simp add: bit_take_bit_iff)
    moreover have "take_bit 12 (unat t) = 0" using assms(1) by (simp add: take_bit_eq_mod is_page_def)
    ultimately show False by simp
  qed
  moreover have "n < 52"
  proof (rule ccontr)
    assume "\<not> n < 52"
    then have "(2 :: nat) ^ 52 \<le> 2 ^ n" by (intro power_increasing) simp_all
    then have "unat t < 2 ^ n" using assms(1) by (simp add: is_page_def)
    then show False using n by (simp add: bit_iff_odd)
  qed
  ultimately show ?thesis by simp
qed

lemma masked_entry:
  assumes "is_page t" "\<And>n. bit f n \<Longrightarrow> \<not> (12 \<le> n \<and> n < 52)"
  shows "(t OR f) AND ADDR_MASK = t"
proof (rule bit_word_eqI)
  fix n show "bit ((t OR f) AND ADDR_MASK) n = bit t n"
    using is_page_bit [OF assms(1)] assms(2) by (auto simp only: bit_and_iff bit_or_iff addr_mask_bit)
qed

lemma flag_bits:
  "bit PAGE_PRESENT n \<longleftrightarrow> n = 0" "bit PAGE_WRITE n \<longleftrightarrow> n = 1" "bit PAGE_USER n \<longleftrightarrow> n = 2" "bit PAGE_NX n \<longleftrightarrow> n = 63"
proof -
  have e: "PAGE_PRESENT = 2 ^ 0" "PAGE_WRITE = 2 ^ 1" "PAGE_USER = 2 ^ 2" "PAGE_NX = 2 ^ 63"
    by (simp_all add: PAGE_PRESENT_def PAGE_WRITE_def PAGE_USER_def PAGE_NX_def)
  show "bit PAGE_PRESENT n \<longleftrightarrow> n = 0" unfolding e(1) bit_single by simp
  show "bit PAGE_WRITE n \<longleftrightarrow> n = 1" unfolding e(2) bit_single by simp
  show "bit PAGE_USER n \<longleftrightarrow> n = 2" unfolding e(3) bit_single by simp
  show "bit PAGE_NX n \<longleftrightarrow> n = 63" unfolding e(4) bit_single by simp
qed

lemma unat_slot64:
  assumes "is_page t" "i < 512"
  shows "unat (slot64 t i) = unat t + 8 * unat i"
proof -
  have i: "unat i < 512" using assms(2) by (simp add: word_less_nat_alt)
  then have m: "unat (8 * i) = 8 * unat i" by (subst unat_mult_no_overflow) simp_all
  then show ?thesis unfolding slot64_def using assms(1) i by (subst unat_plus_no_overflow) (simp_all add: m is_page_def)
qed

lemma slot64_eq_iff:
  assumes "is_page t" "is_page u" "i < 512" "j < 512"
  shows "slot64 t i = slot64 u j \<longleftrightarrow> t = u \<and> i = j"
proof
  assume "slot64 t i = slot64 u j"
  then have e: "unat t + 8 * unat i = unat u + 8 * unat j" using unat_slot64 [of t i] unat_slot64 [of u j] assms by metis
  have ij: "8 * unat i < 4096" "8 * unat j < 4096" using assms(3,4) by (simp_all add: word_less_nat_alt)
  obtain a b where ab: "unat t = 4096 * a" "unat u = 4096 * b"
    using assms(1,2) unfolding is_page_def by (metis mod_0_imp_dvd dvdE)
  have "a = b"
  proof -
    have "(4096 * a + 8 * unat i) div 4096 = a" "(4096 * b + 8 * unat j) div 4096 = b" using ij by simp_all
    then show ?thesis using e ab by metis
  qed
  then show "t = u \<and> i = j" using e ab by (simp add: word_unat_eq_iff)
qed simp

lemma slot64_in_page:
  assumes "is_page t" "is_page f" "i < 512"
  shows "slot64 t i - f < 4096 \<longleftrightarrow> t = f"
proof -
  have i: "8 * unat i < 4096" using assms(3) by (simp add: word_less_nat_alt)
  obtain a b where ab: "unat t = 4096 * a" "unat f = 4096 * b"
    using assms(1,2) unfolding is_page_def by (metis mod_0_imp_dvd dvdE)
  have u: "unat (slot64 t i) = 4096 * a + 8 * unat i" using unat_slot64 [OF assms(1,3)] ab by simp
  have lt: "4096 * a < 2 ^ 52" "4096 * b < 2 ^ 52" using assms(1,2) ab by (simp_all add: is_page_def)
  show ?thesis
  proof (cases "b \<le> a")
    case True
    then have "unat (slot64 t i - f) = 4096 * a + 8 * unat i - 4096 * b"
      using u ab by (subst unat_minus_le) (simp_all add: word_le_nat_alt)
    then have "slot64 t i - f < 4096 \<longleftrightarrow> 4096 * a + 8 * unat i < 4096 * b + 4096" using True by (simp add: word_less_nat_alt) linarith
    also have "\<dots> \<longleftrightarrow> a = b" using True i by linarith
    finally show ?thesis using ab by (auto simp: word_unat_eq_iff)
  next
    case False
    then have l: "unat (slot64 t i) < unat f" using u ab i by linarith
    have "unat (slot64 t i - f) = 2 ^ 64 + unat (slot64 t i) - unat f"
      using l by (simp add: unat_sub_if_size word_size)
    then have "4096 \<le> unat (slot64 t i - f)" using lt ab by simp
    then show ?thesis using False ab by (auto simp: word_less_nat_alt)
  qed
qed

section \<open>Paths\<close>

fun table_at :: "(u64 \<Rightarrow> u64) \<Rightarrow> u64 \<Rightarrow> u64 list \<Rightarrow> u64 option" where
  "table_at m t [] = Some t"
| "table_at m t (i # is) =
     (if bit (m (slot64 t i)) 0 then table_at m (m (slot64 t i) AND ADDR_MASK) is else None)"

definition idx :: "u64 list \<Rightarrow> bool" where
  "idx p \<longleftrightarrow> (\<forall>i\<in>set p. i < 512)"

lemma table_at_snoc:
  "table_at m t (p @ [i]) =
     (case table_at m t p of None \<Rightarrow> None
      | Some u \<Rightarrow> if bit (m (slot64 u i)) 0 then Some (m (slot64 u i) AND ADDR_MASK) else None)"
  by (induction m t p rule: table_at.induct) auto

declare table_at.simps(2) [simp del]

text \<open>The last entry on the way to a page; 0 where there is no table.\<close>

definition leaf :: "paging64 \<Rightarrow> u64 list \<Rightarrow> u64 \<Rightarrow> u64" where
  "leaf s p i = (case table_at (slots64 s) (pml4 s) p of None \<Rightarrow> 0 | Some t \<Rightarrow> slots64 s (slot64 t i))"

abbreviation table_of_path :: "paging64 \<Rightarrow> u64 list \<Rightarrow> u64 option" where
  "table_of_path s p \<equiv> table_at (slots64 s) (pml4 s) p"

definition tables_ok :: "paging64 \<Rightarrow> bool" where
  "tables_ok s \<longleftrightarrow> (\<forall>p t. idx p \<longrightarrow> length p \<le> 3 \<longrightarrow> table_of_path s p = Some t \<longrightarrow>
     is_page t \<and> t \<noteq> 0 \<and> unat t div 4096 \<in> frames_owned64 (frames64 s))"

definition paths_unique :: "paging64 \<Rightarrow> bool" where
  "paths_unique s \<longleftrightarrow> (\<forall>p q t. idx p \<longrightarrow> idx q \<longrightarrow> length p \<le> 3 \<longrightarrow> length q \<le> 3 \<longrightarrow>
     table_of_path s p = Some t \<longrightarrow> table_of_path s q = Some t \<longrightarrow> p = q)"

text \<open>An upper entry: present, writable and open to ring 3, executable, and not a large page.\<close>

definition upper_entry :: "u64 \<Rightarrow> bool" where
  "upper_entry e \<longleftrightarrow> bit e 0 \<and> bit e 1 \<and> bit e 2 \<and> \<not> bit e 7 \<and> \<not> bit e 63"

definition upper_ok :: "paging64 \<Rightarrow> bool" where
  "upper_ok s \<longleftrightarrow> (\<forall>p t i. idx p \<longrightarrow> length p \<le> 2 \<longrightarrow> i < 512 \<longrightarrow> table_of_path s p = Some t \<longrightarrow>
     bit (slots64 s (slot64 t i)) 0 \<longrightarrow> upper_entry (slots64 s (slot64 t i)))"

definition wf64 :: "paging64 \<Rightarrow> bool" where
  "wf64 s \<longleftrightarrow> pmm_ok64 (frames64 s) \<and> unat (total_frames64 (frames64 s)) \<le> 2 ^ 40 \<and> tables_ok s \<and> paths_unique s \<and> upper_ok s"

lemma tables_okD:
  assumes "wf64 s" "table_of_path s p = Some t" "idx p" "length p \<le> 3"
  shows "is_page t" "t \<noteq> 0" "unat t div 4096 \<in> frames_owned64 (frames64 s)"
  using assms unfolding wf64_def tables_ok_def by blast+

lemma paths_uniqueD:
  assumes "wf64 s" "table_of_path s p = Some t" "table_of_path s q = Some t" "idx p" "idx q" "length p \<le> 3" "length q \<le> 3"
  shows "p = q"
  using assms unfolding wf64_def paths_unique_def by blast

section \<open>Writing a last entry\<close>

lemma leaf_write_table:
  assumes "wf64 s" "table_of_path s p = Some pt" "idx p" "length p = 3" "i < 512" "idx q" "length q \<le> 3"
  shows "table_of_path (set_slot64 (slot64 pt i) v s) q = table_of_path s q"
  using assms(6,7)
proof (induction q rule: rev_induct)
  case (snoc j q)
  have iq: "idx q" "j < 512" "length q < 3" using snoc.prems by (auto simp: idx_def)
  have IH: "table_of_path (set_slot64 (slot64 pt i) v s) q = table_of_path s q" using snoc iq by simp
  show ?case
  proof (cases "table_of_path s q")
    case None
    then show ?thesis using IH by (simp add: table_at_snoc)
  next
    case (Some t)
    have "t \<noteq> pt" using paths_uniqueD [OF assms(1) Some, of p] assms(2-4) iq by auto
    then have "slot64 t j \<noteq> slot64 pt i"
      using slot64_eq_iff [of t pt j i] tables_okD(1) [OF assms(1) Some] tables_okD(1) [OF assms(1,2)] iq assms(3-5) by simp
    then have "slots64 (set_slot64 (slot64 pt i) v s) (slot64 t j) = slots64 s (slot64 t j)" by (simp add: set_slot64_def)
    then show ?thesis using IH Some by (simp add: table_at_snoc)
  qed
qed (simp add: set_slot64_def)

lemma set_slot64_fields [simp]: "pml4 (set_slot64 a v s) = pml4 s" "frames64 (set_slot64 a v s) = frames64 s"
  "r_cr3_64 (set_slot64 a v s) = r_cr3_64 s" "mapped_limit64 (set_slot64 a v s) = mapped_limit64 s"
  by (simp_all add: set_slot64_def)

lemma leaf_write:
  fixes v :: u64
  assumes "wf64 s" "table_of_path s p = Some pt" "idx p" "length p = 3" "i < 512"
  defines "s' \<equiv> set_slot64 (slot64 pt i) v s"
  shows "wf64 s'" "\<And>q. idx q \<Longrightarrow> length q \<le> 3 \<Longrightarrow> table_of_path s' q = table_of_path s q"
    "\<And>q j. idx q \<Longrightarrow> length q = 3 \<Longrightarrow> j < 512 \<Longrightarrow> leaf s' q j = (if q = p \<and> j = i then v else leaf s q j)"
proof -
  show tab: "table_of_path s' q = table_of_path s q" if "idx q" "length q \<le> 3" for q
    unfolding s'_def by (rule leaf_write_table [OF assms(1-5) that])
  have other: "slots64 s' (slot64 t j) = slots64 s (slot64 t j)"
    if "table_of_path s q = Some t" "idx q" "length q \<le> 3" "j < 512" "\<not> (q = p \<and> j = i)" for q t j
  proof -
    have "t = pt \<Longrightarrow> q = p" using paths_uniqueD [OF assms(1) that(1), of p] assms(2-4) that by auto
    then have "slot64 t j \<noteq> slot64 pt i"
      using slot64_eq_iff [of t pt j i] tables_okD(1) [OF assms(1) that(1)] tables_okD(1) [OF assms(1,2)] that assms(3-5) by auto
    then show ?thesis by (simp add: s'_def set_slot64_def)
  qed
  show "leaf s' q j = (if q = p \<and> j = i then v else leaf s q j)" if q: "idx q" "length q = 3" "j < 512" for q j
  proof (cases "table_of_path s q")
    case None
    then show ?thesis using tab [of q] q assms(2) by (auto simp: leaf_def)
  next
    case (Some t)
    then show ?thesis using tab [of q] q assms(2) other [OF Some] by (auto simp: leaf_def s'_def set_slot64_def)
  qed
  have "tables_ok s'" using assms(1) tab unfolding tables_ok_def wf64_def by (simp add: s'_def)
  moreover have "paths_unique s'" using assms(1) tab unfolding paths_unique_def wf64_def by auto
  moreover have "upper_ok s'" unfolding upper_ok_def
  proof (intro allI impI)
    fix q t j assume h: "idx q" "length q \<le> 2" "j < 512" "table_of_path s' q = Some t" "bit (slots64 s' (slot64 t j)) 0"
    have "table_of_path s q = Some t" using h tab [of q] by simp
    moreover have "slots64 s' (slot64 t j) = slots64 s (slot64 t j)" using calculation h assms(4) by (intro other) auto
    ultimately show "upper_entry (slots64 s' (slot64 t j))" using h assms(1) unfolding wf64_def upper_ok_def by simp
  qed
  ultimately show "wf64 s'" using assms(1) by (simp add: wf64_def s'_def)
qed

section \<open>Adding a table\<close>

lemma alloc_total64: "pmm_alloc_frame64 p = (a, p') \<Longrightarrow> total_frames64 p' = total_frames64 p"
  using alloc_scan64_result [of 0 p a p'] by (auto simp: pmm_alloc_frame64_def)

lemma owned_less64: "x \<in> frames_owned64 p \<Longrightarrow> x < unat (total_frames64 p)"
  by (auto simp: frames_owned64_def used_set64_def word_less_nat_alt)

text \<open>The number of frames that are left, and what an allocation does to it.\<close>

definition free_count64 :: "pmm64 \<Rightarrow> nat" where
  "free_count64 p = unat (total_frames64 p) - card (used_set64 p)"

lemma alloc_free_count64:
  assumes "pmm_ok64 p" "pmm_alloc_frame64 p = (a, p')" "0 < free_count64 p"
  shows "a \<noteq> 0" "Suc (free_count64 p') = free_count64 p"
proof -
  have "\<not> (\<forall>h. 0 \<le> h \<and> h < total_frames64 p \<longrightarrow> frame_test64 h p)"
  proof
    assume "\<forall>h. 0 \<le> h \<and> h < total_frames64 p \<longrightarrow> frame_test64 h p"
    then have "used_set64 p = {..<total_frames64 p}" by (auto simp: used_set64_def)
    then show False using assms(3) by (simp add: free_count64_def card_lessThan_word64)
  qed
  then obtain g where g: "g < total_frames64 p" "\<not> frame_test64 g p" "a = g * 4096"
      "p' = (frame_set64 g p)\<lparr>used_frames64 := used_frames64 p + 1\<rparr>"
    using alloc_scan64_result [OF assms(2) [unfolded pmm_alloc_frame64_def]] by blast
  have "g \<noteq> 0" using g(2) assms(1) by (auto simp: pmm_ok64_def used_set64_def)
  then show "a \<noteq> 0" using unat_frame_addr64 [of p g] assms(1) g(1,3) by (auto simp: pmm_ok64_def unat_eq_0 dest: arg_cong [of _ _ unat])
  have "used_set64 p' = insert g (used_set64 p)" using g used_set_take64 by simp
  moreover have "g \<notin> used_set64 p" using g(2) by (simp add: used_set64_def)
  ultimately have "card (used_set64 p') = Suc (card (used_set64 p))" by simp
  then show "Suc (free_count64 p') = free_count64 p" using assms(3) alloc_total64 [OF assms(2)] by (simp add: free_count64_def)
qed

lemma fresh_frame64:
  assumes "wf64 s" "pmm_alloc_frame64 (frames64 s) = (f, fr)" "f \<noteq> 0"
  shows "is_page f" "pmm_ok64 fr" "unat (total_frames64 fr) \<le> 2 ^ 40" "frames_owned64 fr = insert (unat f div 4096) (frames_owned64 (frames64 s))"
    "\<And>q t. idx q \<Longrightarrow> length q \<le> 3 \<Longrightarrow> table_of_path s q = Some t \<Longrightarrow> t \<noteq> f"
proof -
  have ok: "pmm_ok64 (frames64 s)" "unat (total_frames64 (frames64 s)) \<le> 2 ^ 40" using assms(1) by (simp_all add: wf64_def)
  note a = pmm_long.alloc_some [OF ok(1) assms(2,3)]
  show "pmm_ok64 fr" "frames_owned64 fr = insert (unat f div 4096) (frames_owned64 (frames64 s))" using a by blast+
  show t: "unat (total_frames64 fr) \<le> 2 ^ 40" using ok(2) alloc_total64 [OF assms(2)] by simp
  have "unat f div 4096 < 2 ^ 40" using owned_less64 [of "unat f div 4096" fr] a t by simp
  then have "unat f < 2 ^ 52" by (simp add: div_less_iff_less_mult)
  then show "is_page f" using a by (simp add: is_page_def)
  show "t \<noteq> f" if "idx q" "length q \<le> 3" "table_of_path s q = Some t" for q t
    using tables_okD(3) [OF assms(1) that(3,1,2)] a by auto
qed

lemma fresh_table:
  fixes f :: u64
  assumes "wf64 s" "table_of_path s p = Some t" "idx p" "length p \<le> 2" "i < 512" "\<not> bit (slots64 s (slot64 t i)) 0"
    "pmm_alloc_frame64 (frames64 s) = (f, fr)" "f \<noteq> 0"
  defines "e \<equiv> f OR PAGE_PRESENT OR PAGE_WRITE OR PAGE_USER"
  defines "s' \<equiv> set_slot64 (slot64 t i) e (clear_page64 f (s\<lparr>frames64 := fr\<rparr>))"
  shows "slots64 s' (slot64 t i) AND ADDR_MASK = f"
    "\<And>q. idx q \<Longrightarrow> length q \<le> 3 \<Longrightarrow> table_of_path s' q = (if q = p @ [i] then Some f else table_of_path s q)"
    "\<And>q j. idx q \<Longrightarrow> length q = 3 \<Longrightarrow> j < 512 \<Longrightarrow> leaf s' q j = leaf s q j" "wf64 s'"
proof -
  note F = fresh_frame64 [OF assms(1,7,8)]
  have t: "is_page t" "t \<noteq> f" using tables_okD(1) [OF assms(1,2,3)] F(5) [OF assms(3) _ assms(2)] assms(4) by simp_all
  have ebit: "bit e n \<longleftrightarrow> bit f n \<or> n = 0 \<or> n = 1 \<or> n = 2" for n by (auto simp: e_def bit_or_iff flag_bits)
  have em: "e AND ADDR_MASK = f" unfolding e_def by (rule masked_entry [OF F(1)]) (auto simp: bit_or_iff flag_bits)
  have up: "upper_entry e" unfolding upper_entry_def ebit using is_page_bit [OF F(1), of 7] is_page_bit [OF F(1), of 63] by auto
  have m': "slots64 s' x = (if x = slot64 t i then e else if x - f < 4096 then 0 else slots64 s x)" for x
    by (simp add: s'_def set_slot64_def clear_page64_def)
  have root: "pml4 s' = pml4 s" by (simp add: s'_def clear_page64_def)
  have new: "slots64 s' (slot64 f j) = 0" if "j < 512" for j
    using that t slot64_eq_iff [OF F(1) t(1) that assms(5)] slot64_in_page [OF F(1) F(1) that] by (auto simp: m')
  have old: "slots64 s' (slot64 u j) = (if q = p \<and> j = i then e else slots64 s (slot64 u j))"
    if "table_of_path s q = Some u" "idx q" "length q \<le> 3" "j < 512" for q u j
  proof -
    have u: "is_page u" "u \<noteq> f" using tables_okD(1) [OF assms(1) that(1-3)] F(5) [OF that(2,3,1)] by simp_all
    have "u = t \<longleftrightarrow> q = p" using paths_uniqueD [OF assms(1) that(1), of p] assms(2-4) that by auto
    then show ?thesis using slot64_eq_iff [OF u(1) t(1) that(4) assms(5)] slot64_in_page [OF u(1) F(1) that(4)] u(2) by (auto simp: m')
  qed
  show "slots64 s' (slot64 t i) AND ADDR_MASK = f" by (simp add: m' em)
  have absent: "table_of_path s (p @ [i]) = None" using assms(2,6) by (simp add: table_at_snoc)
  show tab: "table_of_path s' q = (if q = p @ [i] then Some f else table_of_path s q)" if "idx q" "length q \<le> 3" for q
    using that
  proof (induction q rule: rev_induct)
    case (snoc j q)
    have iq: "idx q" "j < 512" "length q \<le> 2" using snoc.prems by (auto simp: idx_def)
    have IH: "table_of_path s' q = (if q = p @ [i] then Some f else table_of_path s q)" using snoc.IH iq by simp
    show ?case
    proof (cases "q = p @ [i]")
      case True
      have "table_of_path s' (q @ [j]) = None" unfolding table_at_snoc using IH new [OF iq(2)] True by simp
      moreover have "table_of_path s (q @ [j]) = None" unfolding table_at_snoc using True absent by simp
      ultimately show ?thesis using True by simp
    next
      case False
      then show ?thesis using IH old [of q _ j] iq ebit [of 0] em by (cases "table_of_path s q") (auto simp: table_at_snoc assms(2))
    qed
  qed (simp add: root)
  show "leaf s' q j = leaf s q j" if "idx q" "length q = 3" "j < 512" for q j
  proof (cases "q = p @ [i]")
    case True
    then show ?thesis using tab [of q] that new absent by (simp add: leaf_def)
  next
    case False
    then show ?thesis using tab [of q] that old [of q _ j] assms(4) by (auto simp: leaf_def split: option.split)
  qed
  have own: "frames64 s' = fr" by (simp add: s'_def clear_page64_def)
  have "tables_ok s'" unfolding tables_ok_def own F(4)
    using tab F(1) assms(8) tables_okD [OF assms(1)] by (auto split: if_splits)
  moreover have "paths_unique s'" unfolding paths_unique_def
  proof (intro allI impI)
    fix q r u assume h: "idx q" "idx r" "length q \<le> 3" "length r \<le> 3" "table_of_path s' q = Some u" "table_of_path s' r = Some u"
    show "q = r"
    proof (cases "q = p @ [i] \<or> r = p @ [i]")
      case True
      then show ?thesis using h tab [OF h(1,3)] tab [OF h(2,4)] F(5) [OF h(1,3)] F(5) [OF h(2,4)] by (auto split: if_splits)
    next
      case False
      then show ?thesis using h tab [OF h(1,3)] tab [OF h(2,4)] paths_uniqueD [OF assms(1), of q u r] by simp
    qed
  qed
  moreover have "upper_ok s'" unfolding upper_ok_def
  proof (intro allI impI)
    fix q u j assume h: "idx q" "length q \<le> 2" "j < 512" "table_of_path s' q = Some u" "bit (slots64 s' (slot64 u j)) 0"
    show "upper_entry (slots64 s' (slot64 u j))"
    proof (cases "q = p @ [i]")
      case True
      then show ?thesis using h tab [of q] new [OF h(3)] by simp
    next
      case False
      then have q: "table_of_path s q = Some u" using h tab [of q] by simp
      then show ?thesis using h old [OF q h(1) _ h(3)] up assms(1) unfolding wf64_def upper_ok_def by (auto split: if_splits)
    qed
  qed
  ultimately show "wf64 s'" using F(2,3) by (simp add: wf64_def own)
qed

section \<open>The operations\<close>

text \<open>One level down with \<open>create\<close>: with a free frame it gives the table, adding it where it is missing.\<close>

lemma next_level64_create:
  assumes "wf64 s" "table_of_path s p = Some t" "idx p" "length p \<le> 2" "i < 512" "next_level64 t i True s = (u, s')"
  shows "wf64 s'" "pml4 s' = pml4 s" "r_cr3_64 s' = r_cr3_64 s" "mapped_limit64 s' = mapped_limit64 s"
    "\<And>q j. idx q \<Longrightarrow> length q = 3 \<Longrightarrow> j < 512 \<Longrightarrow> leaf s' q j = leaf s q j"
    "u \<noteq> 0 \<Longrightarrow> table_of_path s' (p @ [i]) = Some u"
    "\<And>q. idx q \<Longrightarrow> length q \<le> 3 \<Longrightarrow> table_of_path s q \<noteq> None \<Longrightarrow> table_of_path s' q = table_of_path s q"
    "table_of_path s (p @ [i]) \<noteq> None \<Longrightarrow> u \<noteq> 0 \<and> s' = s"
    "0 < free_count64 (frames64 s) \<Longrightarrow> u \<noteq> 0 \<and> free_count64 (frames64 s) \<le> Suc (free_count64 (frames64 s'))"
    "total_frames64 (frames64 s') = total_frames64 (frames64 s)"
proof -
  have ip: "idx (p @ [i])" "length (p @ [i]) \<le> 3" using assms(3-5) by (simp_all add: idx_def)
  have ok: "pmm_ok64 (frames64 s)" using assms(1) by (simp add: wf64_def)
  consider (there) "bit (slots64 s (slot64 t i)) 0" "u = slots64 s (slot64 t i) AND ADDR_MASK" "s' = s"
    | (none) fr where "\<not> bit (slots64 s (slot64 t i)) 0" "pmm_alloc_frame64 (frames64 s) = (0, fr)" "u = 0" "s' = s"
    | (fresh) f fr where "\<not> bit (slots64 s (slot64 t i)) 0" "pmm_alloc_frame64 (frames64 s) = (f, fr)" "f \<noteq> 0"
        "s' = set_slot64 (slot64 t i) (f OR PAGE_PRESENT OR PAGE_WRITE OR PAGE_USER) (clear_page64 f (s\<lparr>frames64 := fr\<rparr>))"
        "u = slots64 s' (slot64 t i) AND ADDR_MASK"
  proof (cases "bit (slots64 s (slot64 t i)) 0")
    case True
    then have "next_level64 t i True s = (slots64 s (slot64 t i) AND ADDR_MASK, s)" by (simp add: next_level64_def present_bit64 Let_def)
    then have "u = slots64 s (slot64 t i) AND ADDR_MASK" "s' = s" using assms(6) by (metis prod.inject)+
    then show ?thesis by (rule there [OF True])
  next
    case False
    obtain f fr where al: "pmm_alloc_frame64 (frames64 s) = (f, fr)" by fastforce
    show ?thesis
    proof (cases "f = 0")
      case True
      then have "fr = frames64 s" using pmm_long.alloc_none [OF ok] al by simp
      then have "next_level64 t i True s = (0, s)" using False True al by (simp add: next_level64_def present_bit64 Let_def)
      then have "u = 0" "s' = s" using assms(6) by (metis prod.inject)+
      then show ?thesis by (rule none [OF False al [unfolded True]])
    next
      case False
      let ?s = "set_slot64 (slot64 t i) (f OR PAGE_PRESENT OR PAGE_WRITE OR PAGE_USER) (clear_page64 f (s\<lparr>frames64 := fr\<rparr>))"
      have "next_level64 t i True s = (slots64 ?s (slot64 t i) AND ADDR_MASK, ?s)"
        using False \<open>\<not> bit (slots64 s (slot64 t i)) 0\<close> al by (simp add: next_level64_def present_bit64 Let_def)
      then have "s' = ?s" "u = slots64 s' (slot64 t i) AND ADDR_MASK" using assms(6) by (metis prod.inject)+
      then show ?thesis by (rule fresh [OF \<open>\<not> bit (slots64 s (slot64 t i)) 0\<close> al False])
    qed
  qed
  then have "wf64 s' \<and> pml4 s' = pml4 s \<and> r_cr3_64 s' = r_cr3_64 s \<and> mapped_limit64 s' = mapped_limit64 s \<and>
    (\<forall>q j. idx q \<longrightarrow> length q = 3 \<longrightarrow> j < 512 \<longrightarrow> leaf s' q j = leaf s q j) \<and>
    (u \<noteq> 0 \<longrightarrow> table_of_path s' (p @ [i]) = Some u) \<and>
    (\<forall>q. idx q \<longrightarrow> length q \<le> 3 \<longrightarrow> table_of_path s q \<noteq> None \<longrightarrow> table_of_path s' q = table_of_path s q) \<and>
    (table_of_path s (p @ [i]) \<noteq> None \<longrightarrow> u \<noteq> 0 \<and> s' = s) \<and>
    (0 < free_count64 (frames64 s) \<longrightarrow> u \<noteq> 0 \<and> free_count64 (frames64 s) \<le> Suc (free_count64 (frames64 s'))) \<and>
    total_frames64 (frames64 s') = total_frames64 (frames64 s)"
  proof cases
    case there
    then have "table_of_path s (p @ [i]) = Some u" using assms(2) by (simp add: table_at_snoc)
    then show ?thesis using there assms(1) tables_okD(2) [OF assms(1) _ ip] by auto
  next
    case none
    have "\<not> 0 < free_count64 (frames64 s)" using alloc_free_count64(1) [OF ok none(2)] by blast
    then show ?thesis using none assms(1,2) by (simp add: table_at_snoc)
  next
    case fresh
    note T = fresh_table [OF assms(1-5) fresh(1-3), folded fresh(4)]
    have absent: "table_of_path s (p @ [i]) = None" using assms(2) fresh(1) by (simp add: table_at_snoc)
    have fr: "frames64 s' = fr" unfolding fresh(4) by (simp add: clear_page64_def)
    have uf: "u = f" using fresh(5) T(1) by simp
    have fields: "pml4 s' = pml4 s" "r_cr3_64 s' = r_cr3_64 s" "mapped_limit64 s' = mapped_limit64 s"
      unfolding fresh(4) by (simp_all add: clear_page64_def)
    have keep: "table_of_path s' q = table_of_path s q" if "idx q" "length q \<le> 3" "table_of_path s q \<noteq> None" for q
      using T(2) [OF that(1,2)] that(3) absent by auto
    have new: "table_of_path s' (p @ [i]) = Some u" using T(2) [OF ip] uf by simp
    have cnt: "free_count64 (frames64 s) \<le> Suc (free_count64 fr)" if "0 < free_count64 (frames64 s)"
      using alloc_free_count64(2) [OF ok fresh(2) that] by simp
    show ?thesis unfolding fr using T(3,4) fields keep new cnt absent fresh(3) uf alloc_total64 [OF fresh(2)] by blast
  qed
  then show "wf64 s'" "pml4 s' = pml4 s" "r_cr3_64 s' = r_cr3_64 s" "mapped_limit64 s' = mapped_limit64 s"
    "\<And>q j. idx q \<Longrightarrow> length q = 3 \<Longrightarrow> j < 512 \<Longrightarrow> leaf s' q j = leaf s q j"
    "u \<noteq> 0 \<Longrightarrow> table_of_path s' (p @ [i]) = Some u"
    "\<And>q. idx q \<Longrightarrow> length q \<le> 3 \<Longrightarrow> table_of_path s q \<noteq> None \<Longrightarrow> table_of_path s' q = table_of_path s q"
    "table_of_path s (p @ [i]) \<noteq> None \<Longrightarrow> u \<noteq> 0 \<and> s' = s"
    "0 < free_count64 (frames64 s) \<Longrightarrow> u \<noteq> 0 \<and> free_count64 (frames64 s) \<le> Suc (free_count64 (frames64 s'))"
    "total_frames64 (frames64 s') = total_frames64 (frames64 s)"
    by blast+
qed

definition path :: "u64 \<Rightarrow> u64 list" where
  "path v = [pml4_index64 v, pdpt_index64 v, pd_index64 v]"

lemma index_less: "(x AND 0x1FF :: u64) < 512"
proof -
  have "x AND 0x1FF = x mod 512" using take_bit_eq_mask [of 9 x] by (simp add: take_bit_eq_mod mask_eq_exp_minus_1)
  then show ?thesis by (simp add: word_less_nat_alt unat_mod)
qed

lemma indices [simp]:
  "pml4_index64 v < 512" "pdpt_index64 v < 512" "pd_index64 v < 512" "pt_index64 v < 512"
  "idx (path v)" "length (path v) = 3" "idx [pml4_index64 v]" "idx [pml4_index64 v, pdpt_index64 v]" "idx []"
  by (simp_all add: pml4_index64_def pdpt_index64_def pd_index64_def pt_index64_def index_less path_def idx_def)

text \<open>What mapping a page does: on success the page gets its entry; no other page changes, and tables only are added.\<close>

lemma paging_map64_correct:
  assumes "wf64 s" "paging_map64 va pa flags s = (ok, s')"
  shows "wf64 s'" "pml4 s' = pml4 s" "total_frames64 (frames64 s') = total_frames64 (frames64 s)"
    "\<And>q j. idx q \<Longrightarrow> length q = 3 \<Longrightarrow> j < 512 \<Longrightarrow>
       leaf s' q j = (if ok \<and> q = path va \<and> j = pt_index64 va then (pa AND ADDR_MASK) OR flags else leaf s q j)"
    "\<And>q. idx q \<Longrightarrow> length q \<le> 3 \<Longrightarrow> table_of_path s q \<noteq> None \<Longrightarrow> table_of_path s' q = table_of_path s q"
    "ok \<Longrightarrow> table_of_path s' (path va) \<noteq> None"
    "3 \<le> free_count64 (frames64 s) \<Longrightarrow> ok \<and> free_count64 (frames64 s) \<le> 3 + free_count64 (frames64 s')"
    "table_of_path s [pml4_index64 va, pdpt_index64 va] \<noteq> None \<Longrightarrow> 1 \<le> free_count64 (frames64 s) \<Longrightarrow>
       ok \<and> free_count64 (frames64 s) \<le> 1 + free_count64 (frames64 s')"
    "table_of_path s (path va) \<noteq> None \<Longrightarrow> ok \<and> frames64 s' = frames64 s"
proof -
  let ?i4 = "pml4_index64 va" and ?i3 = "pdpt_index64 va" and ?i2 = "pd_index64 va" and ?i1 = "pt_index64 va"
  obtain t3 s1 where n1: "next_level64 (pml4 s) ?i4 True s = (t3, s1)" by fastforce
  obtain t2 s2 where n2: "next_level64 t3 ?i3 True s1 = (t2, s2)" by fastforce
  obtain t1 s3 where n3: "next_level64 t2 ?i2 True s2 = (t1, s3)" by fastforce
  note N1 = next_level64_create [of s "[]", OF assms(1) _ _ _ indices(1) n1, simplified]
  have N2: "wf64 s2" "pml4 s2 = pml4 s1" "\<And>q j. idx q \<Longrightarrow> length q = 3 \<Longrightarrow> j < 512 \<Longrightarrow> leaf s2 q j = leaf s1 q j"
      "t2 \<noteq> 0 \<Longrightarrow> table_of_path s2 [?i4, ?i3] = Some t2"
      "\<And>q. idx q \<Longrightarrow> length q \<le> 3 \<Longrightarrow> table_of_path s1 q \<noteq> None \<Longrightarrow> table_of_path s2 q = table_of_path s1 q"
      "table_of_path s1 [?i4, ?i3] \<noteq> None \<Longrightarrow> t2 \<noteq> 0 \<and> s2 = s1"
      "0 < free_count64 (frames64 s1) \<Longrightarrow> t2 \<noteq> 0 \<and> free_count64 (frames64 s1) \<le> Suc (free_count64 (frames64 s2))"
      "total_frames64 (frames64 s2) = total_frames64 (frames64 s1)" if "t3 \<noteq> 0"
    using next_level64_create [of s1 "[?i4]", OF N1(1) N1(6) [OF that] _ _ indices(2) n2] by (simp_all add: idx_def)
  have N3: "wf64 s3" "pml4 s3 = pml4 s2" "\<And>q j. idx q \<Longrightarrow> length q = 3 \<Longrightarrow> j < 512 \<Longrightarrow> leaf s3 q j = leaf s2 q j"
      "t1 \<noteq> 0 \<Longrightarrow> table_of_path s3 (path va) = Some t1"
      "\<And>q. idx q \<Longrightarrow> length q \<le> 3 \<Longrightarrow> table_of_path s2 q \<noteq> None \<Longrightarrow> table_of_path s3 q = table_of_path s2 q"
      "table_of_path s2 (path va) \<noteq> None \<Longrightarrow> t1 \<noteq> 0 \<and> s3 = s2"
      "0 < free_count64 (frames64 s2) \<Longrightarrow> t1 \<noteq> 0 \<and> free_count64 (frames64 s2) \<le> Suc (free_count64 (frames64 s3))"
      "total_frames64 (frames64 s3) = total_frames64 (frames64 s2)" if "t3 \<noteq> 0" "t2 \<noteq> 0"
    using next_level64_create [of s2 "[?i4, ?i3]", OF N2(1) [OF that(1)] N2(4) [OF that] _ _ indices(3) n3] by (simp_all add: idx_def path_def)
  let ?e = "(pa AND ADDR_MASK) OR flags"
  consider (c1) "t3 = 0" "ok = False" "s' = s1" | (c2) "t3 \<noteq> 0" "t2 = 0" "ok = False" "s' = s2"
    | (c3) "t3 \<noteq> 0" "t2 \<noteq> 0" "t1 = 0" "ok = False" "s' = s3"
    | (c4) "t3 \<noteq> 0" "t2 \<noteq> 0" "t1 \<noteq> 0" "ok = True" "s' = set_slot64 (slot64 t1 ?i1) ?e s3"
    using assms(2) unfolding paging_map64_def n1 prod.case
    by (cases "t3 = 0"; cases "t2 = 0"; cases "t1 = 0") (simp_all add: n2 n3)
  note cs = this
  have tab2: "table_of_path s2 q = table_of_path s q" if "t3 \<noteq> 0" "idx q" "length q \<le> 3" "table_of_path s q \<noteq> None" for q
    using N1(7) [OF that(2,3)] N2(5) [OF that(1-3)] that(4) by auto
  have tab3: "table_of_path s3 q = table_of_path s q" if "t3 \<noteq> 0" "t2 \<noteq> 0" "idx q" "length q \<le> 3" "table_of_path s q \<noteq> None" for q
    using tab2 [OF that(1,3-5)] N3(5) [OF that(1-4)] that(5) by simp
  have leaf3: "leaf s3 q j = leaf s q j" if "t3 \<noteq> 0" "t2 \<noteq> 0" "idx q" "length q = 3" "j < 512" for q j
    using N1(5) [OF that(3-5)] N2(3) [OF that(1,3-5)] N3(3) [OF that] by simp
  have L: "wf64 s'" "\<And>q. idx q \<Longrightarrow> length q \<le> 3 \<Longrightarrow> table_of_path s' q = table_of_path s3 q"
      "\<And>q j. idx q \<Longrightarrow> length q = 3 \<Longrightarrow> j < 512 \<Longrightarrow> leaf s' q j = (if q = path va \<and> j = ?i1 then ?e else leaf s3 q j)"
    if "t3 \<noteq> 0" "t2 \<noteq> 0" "t1 \<noteq> 0" "s' = set_slot64 (slot64 t1 ?i1) ?e s3"
    using leaf_write [OF N3(1) [OF that(1,2)] N3(4) [OF that(1-3)] indices(5,6) indices(4), where v = ?e] that(4) by simp_all
  show "wf64 s'" using cs by cases (use N1(1) N2(1) N3(1) L(1) in simp_all)
  show "pml4 s' = pml4 s" using cs by cases (use N1(2) N2(2) N3(2) in simp_all)
  show "total_frames64 (frames64 s') = total_frames64 (frames64 s)" using cs by cases (use N1(10) N2(8) N3(8) in simp_all)
  show "leaf s' q j = (if ok \<and> q = path va \<and> j = ?i1 then ?e else leaf s q j)" if "idx q" "length q = 3" "j < 512" for q j
    using cs by cases (use that N1(5) N2(3) leaf3 L(3) in simp_all)
  show "table_of_path s' q = table_of_path s q" if "idx q" "length q \<le> 3" "table_of_path s q \<noteq> None" for q
    using cs by cases (use that N1(7) tab2 tab3 L(2) in simp_all)
  show "table_of_path s' (path va) \<noteq> None" if ok using cs by cases (use that L(2) [of "path va"] N3(4) in simp_all)
  have fr: "ok \<and> frames64 s' = frames64 s3" if "t3 \<noteq> 0" "t2 \<noteq> 0" "t1 \<noteq> 0" using cs that by cases simp_all
  show "ok \<and> free_count64 (frames64 s) \<le> 3 + free_count64 (frames64 s')" if "3 \<le> free_count64 (frames64 s)"
  proof -
    have a: "t3 \<noteq> 0" "free_count64 (frames64 s) \<le> Suc (free_count64 (frames64 s1))" using N1(9) that by auto
    have b: "t2 \<noteq> 0" "free_count64 (frames64 s1) \<le> Suc (free_count64 (frames64 s2))" using N2(7) [OF a(1)] a(2) that by auto
    have c: "t1 \<noteq> 0" "free_count64 (frames64 s2) \<le> Suc (free_count64 (frames64 s3))" using N3(7) [OF a(1) b(1)] a(2) b(2) that by auto
    show ?thesis using fr [OF a(1) b(1) c(1)] a b c by simp
  qed
  have up1: "t3 \<noteq> 0 \<and> s1 = s" if "table_of_path s [?i4, ?i3] \<noteq> None"
    using N1(8) that table_at_snoc [of "slots64 s" "pml4 s" "[?i4]" ?i3] by (auto split: option.splits)
  have up2: "t3 \<noteq> 0 \<and> t2 \<noteq> 0 \<and> s2 = s" if "table_of_path s [?i4, ?i3] \<noteq> None" using up1 [OF that] N2(6) that by simp
  show "ok \<and> free_count64 (frames64 s) \<le> 1 + free_count64 (frames64 s')"
    if "table_of_path s [?i4, ?i3] \<noteq> None" "1 \<le> free_count64 (frames64 s)"
    using up2 [OF that(1)] N3(7) fr that(2) by simp
  show "ok \<and> frames64 s' = frames64 s" if p: "table_of_path s (path va) \<noteq> None"
  proof -
    have "table_of_path s [?i4, ?i3] \<noteq> None"
      using p table_at_snoc [of "slots64 s" "pml4 s" "[?i4, ?i3]" ?i2] by (auto simp: path_def split: option.splits)
    then show ?thesis using up2 N3(6) fr p by simp
  qed
qed

text \<open>\<open>entry_for\<close> finds the last entry.\<close>

lemma next_level64_look: "next_level64 t i False s = (if bit (slots64 s (slot64 t i)) 0 then slots64 s (slot64 t i) AND ADDR_MASK else 0, s)"
  by (simp add: next_level64_def present_bit64 Let_def)

lemma entry_for64_eq:
  assumes "wf64 s"
  shows "entry_for64 va s = (case table_of_path s (path va) of None \<Rightarrow> 0 | Some t \<Rightarrow> slot64 t (pt_index64 va))"
proof -
  have z: "t \<noteq> 0" if "table_of_path s p = Some t" "idx p" "length p \<le> 3" for p t using tables_okD(2) [OF assms that] .
  have "fst (next_level64 t i False s) = (case table_of_path s (p @ [i]) of None \<Rightarrow> 0 | Some u \<Rightarrow> u)" if "table_of_path s p = Some t" for p t i
    using that by (simp add: next_level64_look table_at_snoc)
  note step = this
  have 1: "fst (next_level64 (pml4 s) (pml4_index64 va) False s) = (case table_of_path s [pml4_index64 va] of None \<Rightarrow> 0 | Some u \<Rightarrow> u)"
    using step [of "[]"] by simp
  show ?thesis
  proof (cases "table_of_path s [pml4_index64 va]")
    case None
    then have "table_of_path s (path va) = None" by (simp add: path_def table_at.simps(2) split: if_splits)
    then show ?thesis using 1 None by (simp add: entry_for64_def)
  next
    case (Some t3)
    note 3 = Some z [OF Some] step [OF Some, of "pdpt_index64 va", simplified]
    show ?thesis
    proof (cases "table_of_path s [pml4_index64 va, pdpt_index64 va]")
      case None
      then have "table_of_path s (path va) = None" by (simp add: path_def table_at.simps(2) split: if_splits)
      then show ?thesis using 1 3 None by (simp add: entry_for64_def)
    next
      case (Some t2)
      note 2 = Some z [OF Some] step [OF Some, of "pd_index64 va", simplified, folded path_def]
      show ?thesis using 1 2 3 z [of "path va"] by (cases "table_of_path s (path va)") (simp_all add: entry_for64_def Let_def)
    qed
  qed
qed

lemma slot64_nonzero: "is_page t \<Longrightarrow> t \<noteq> 0 \<Longrightarrow> i < 512 \<Longrightarrow> slot64 t i \<noteq> 0"
  using unat_slot64 [of t i] by (auto simp: unat_eq_0 dest: arg_cong [of _ _ unat])

lemma set_flags64_correct:
  fixes va flags :: u64
  assumes "wf64 s"
  defines "s' \<equiv> paging_set_flags64 va flags s"
  shows "wf64 s'" "pml4 s' = pml4 s" "\<And>q. idx q \<Longrightarrow> length q \<le> 3 \<Longrightarrow> table_of_path s' q = table_of_path s q"
    "\<And>q j. idx q \<Longrightarrow> length q = 3 \<Longrightarrow> j < 512 \<Longrightarrow> leaf s' q j =
       (if table_of_path s (path va) \<noteq> None \<and> q = path va \<and> j = pt_index64 va
        then (leaf s q j AND ADDR_MASK) OR flags else leaf s q j)"
    "mapped_limit64 s' = mapped_limit64 s"
proof -
  have "wf64 s' \<and> pml4 s' = pml4 s \<and> (\<forall>q. idx q \<longrightarrow> length q \<le> 3 \<longrightarrow> table_of_path s' q = table_of_path s q) \<and>
    (\<forall>q j. idx q \<longrightarrow> length q = 3 \<longrightarrow> j < 512 \<longrightarrow> leaf s' q j =
       (if table_of_path s (path va) \<noteq> None \<and> q = path va \<and> j = pt_index64 va
        then (leaf s q j AND ADDR_MASK) OR flags else leaf s q j)) \<and> mapped_limit64 s' = mapped_limit64 s"
  proof (cases "table_of_path s (path va)")
    case None
    then show ?thesis using assms(1) by (simp add: s'_def paging_set_flags64_def entry_for64_eq)
  next
    case (Some t)
    have nz: "slot64 t (pt_index64 va) \<noteq> 0" using tables_okD [OF assms(1) Some] by (intro slot64_nonzero) simp_all
    have s': "s' = set_slot64 (slot64 t (pt_index64 va)) ((slots64 s (slot64 t (pt_index64 va)) AND ADDR_MASK) OR flags) s"
      using assms(1) Some nz by (simp add: s'_def paging_set_flags64_def entry_for64_eq Let_def)
    have lf: "slots64 s (slot64 t (pt_index64 va)) = leaf s (path va) (pt_index64 va)" using Some by (simp add: leaf_def)
    note W = leaf_write [OF assms(1) Some indices(5,6) indices(4) [of va], where v = "(leaf s (path va) (pt_index64 va) AND ADDR_MASK) OR flags"]
    show ?thesis unfolding s' lf using W Some by auto
  qed
  then show "wf64 s'" "pml4 s' = pml4 s" "\<And>q. idx q \<Longrightarrow> length q \<le> 3 \<Longrightarrow> table_of_path s' q = table_of_path s q"
    "\<And>q j. idx q \<Longrightarrow> length q = 3 \<Longrightarrow> j < 512 \<Longrightarrow> leaf s' q j =
       (if table_of_path s (path va) \<noteq> None \<and> q = path va \<and> j = pt_index64 va
        then (leaf s q j AND ADDR_MASK) OR flags else leaf s q j)"
    "mapped_limit64 s' = mapped_limit64 s" by blast+
qed

section \<open>Pages and loops over them\<close>

definition pg :: "nat \<Rightarrow> u64" where
  "pg k = word_of_nat (4096 * k)"

lemma unat_pg: "k \<le> 2 ^ 40 \<Longrightarrow> unat (pg k) = 4096 * k"
  unfolding pg_def by (rule unat_of_nat_small) simp

lemma pg_Suc: "pg k + 4096 = pg (Suc k)"
  by (simp add: pg_def)

lemma pg_less: "j \<le> 2 ^ 40 \<Longrightarrow> k \<le> 2 ^ 40 \<Longrightarrow> pg j < pg k \<longleftrightarrow> j < k"
  by (simp add: word_less_nat_alt unat_pg)

lemma is_page_pg: "k < 2 ^ 40 \<Longrightarrow> is_page (pg k)"
  by (simp add: is_page_def unat_pg)

lemma each_page64_until:
  assumes "k \<le> n" "\<And>j. j \<le> n \<Longrightarrow> pg j < stop \<longleftrightarrow> j < n" "I k s"
    "\<And>j s. k \<le> j \<Longrightarrow> j < n \<Longrightarrow> I j s \<Longrightarrow> \<exists>s'. f (pg j) s = Some s' \<and> I (Suc j) s'"
  shows "\<exists>s'. each_page64 f (pg k) stop s = Some s' \<and> I n s'"
  using assms(1,3,4)
proof (induction "n - k" arbitrary: k s)
  case 0
  then show ?case using assms(2) [of k] by (subst each_page64.simps) simp
next
  case (Suc d)
  have kn: "k < n" using Suc.hyps(2) by linarith
  have lt: "pg k < stop" using kn assms(2) [of k] by simp
  obtain s1 where s1: "f (pg k) s = Some s1" "I (Suc k) s1" using Suc.prems(3) [OF order_refl kn Suc.prems(2)] by blast
  have "\<exists>s'. each_page64 f (pg (Suc k)) stop s1 = Some s' \<and> I n s'"
    using Suc.hyps s1(2) Suc.prems(3) by (intro Suc.hyps(1)) auto
  then show ?case using lt s1(1) by (subst each_page64.simps) (simp add: pg_Suc)
qed

text \<open>The four indices are the digits of the page number.\<close>

lemma unat_index: "unat (drop_bit n v AND 0x1FF :: u64) = unat v div 2 ^ n mod 512"
proof -
  have "drop_bit n v AND 0x1FF = drop_bit n v mod 512" using take_bit_eq_mask [of 9 "drop_bit n v"] by (simp add: take_bit_eq_mod mask_eq_exp_minus_1)
  moreover have "unat (drop_bit n v) = unat v div 2 ^ n" by (simp only: unsigned_drop_bit_eq take_bit_nat_eq_self [OF unat_lt2p]) (simp add: drop_bit_eq_div)
  ultimately show ?thesis by (simp only: unat_mod) simp
qed

lemma digits_of_page:
  fixes n :: nat
  assumes "n < 2 ^ 36"
  shows "n = 512 * (512 * (512 * (n div 134217728 mod 512) + n div 262144 mod 512) + n div 512 mod 512) + n mod 512"
proof -
  have "n div 134217728 mod 512 = n div 134217728" using assms by simp
  moreover have "n div 262144 = 512 * (n div 134217728) + n div 262144 mod 512" using div_mult2_eq [of n 262144 512] by simp
  moreover have "n div 512 = 512 * (n div 262144) + n div 512 mod 512" using div_mult2_eq [of n 512 512] by simp
  ultimately show ?thesis by simp
qed

lemma unat_indices:
  "unat (pml4_index64 v) = unat v div 4096 div 134217728 mod 512" "unat (pdpt_index64 v) = unat v div 4096 div 262144 mod 512"
  "unat (pd_index64 v) = unat v div 4096 div 512 mod 512" "unat (pt_index64 v) = unat v div 4096 mod 512"
  unfolding pml4_index64_def pdpt_index64_def pd_index64_def pt_index64_def unat_index
  by (simp_all add: div_mult2_eq [symmetric])

lemma path_eq_iff:
  assumes "unat v < 2 ^ 48" "unat w < 2 ^ 48"
  shows "path v = path w \<and> pt_index64 v = pt_index64 w \<longleftrightarrow> unat v div 4096 = unat w div 4096"
proof
  assume h: "path v = path w \<and> pt_index64 v = pt_index64 w"
  have "unat v div 4096 < 2 ^ 36" "unat w div 4096 < 2 ^ 36" using assms by (simp_all add: div_less_iff_less_mult)
  from digits_of_page [OF this(1)] digits_of_page [OF this(2)] show "unat v div 4096 = unat w div 4096"
    using h unfolding path_def unat_indices [symmetric] by simp
next
  assume "unat v div 4096 = unat w div 4096"
  then show "path v = path w \<and> pt_index64 v = pt_index64 w" by (simp add: path_def word_unat_eq_iff unat_indices)
qed

definition entry_of :: "paging64 \<Rightarrow> u64 \<Rightarrow> u64" where
  "entry_of s v = leaf s (path v) (pt_index64 v)"

lemma bookkeeping64:
  "wf64 (s\<lparr>r_cr3_64 := x\<rparr>) = wf64 s" "entry_of (s\<lparr>r_cr3_64 := x\<rparr>) = entry_of s"
  "wf64 (s\<lparr>mapped_limit64 := x\<rparr>) = wf64 s" "entry_of (s\<lparr>mapped_limit64 := x\<rparr>) = entry_of s"
  by (simp_all add: wf64_def tables_ok_def paths_unique_def upper_ok_def entry_of_def leaf_def fun_eq_iff split: option.split)

section \<open>The MMU on a well-formed state\<close>

lemma mmu64_entry:
  assumes "wf64 s" "r_cr3_64 s = pml4 s"
  shows "mmu64 s v = (if bit (entry_of s v) 0
    then Some (entry_of s v AND ADDR_MASK, bit (entry_of s v) 1, bit (entry_of s v) 2, \<not> bit (entry_of s v) 63) else None)"
proof -
  let ?e4 = "slots64 s (slot64 (pml4 s) (pml4_index64 v))"
  let ?e3 = "slots64 s (slot64 (?e4 AND ADDR_MASK) (pdpt_index64 v))"
  let ?e2 = "slots64 s (slot64 (?e3 AND ADDR_MASK) (pd_index64 v))"
  let ?e1 = "slots64 s (slot64 (?e2 AND ADDR_MASK) (pt_index64 v))"
  have t: "table_of_path s (path v) = (if bit ?e4 0 \<and> bit ?e3 0 \<and> bit ?e2 0 then Some (?e2 AND ADDR_MASK) else None)"
    by (simp add: path_def table_at.simps(2))
  have u: "upper_entry (slots64 s (slot64 t i))" if "table_of_path s p = Some t" "idx p" "length p \<le> 2" "i < 512" "bit (slots64 s (slot64 t i)) 0" for p t i
    using assms(1) that unfolding wf64_def upper_ok_def by blast
  show ?thesis
  proof (cases "bit ?e4 0 \<and> bit ?e3 0 \<and> bit ?e2 0")
    case True
    have "upper_entry ?e4" using u [of "[]"] True by simp
    moreover have "upper_entry ?e3" using u [of "[pml4_index64 v]"] True by (simp add: table_at.simps(2))
    moreover have "upper_entry ?e2" using u [of "[pml4_index64 v, pdpt_index64 v]"] True by (simp add: table_at.simps(2))
    moreover have "entry_of s v = ?e1" using True t by (simp add: entry_of_def leaf_def)
    ultimately show ?thesis using True unfolding upper_entry_def by (simp add: mmu64_def assms(2) Let_def)
  next
    case False
    then have "table_of_path s (path v) = None" unfolding t by (rule if_not_P)
    then have "entry_of s v = 0" by (simp add: entry_of_def leaf_def)
    then show ?thesis using False by (auto simp: mmu64_def assms(2) Let_def)
  qed
qed

section \<open>The identity mapping\<close>

text \<open>The tables that the first \<open>k\<close> pages need below the root: two, and one for each 2 MB.\<close>

definition tables_for :: "nat \<Rightarrow> nat" where
  "tables_for k = (if k = 0 then 0 else 3 + (k - 1) div 512)"

text \<open>The state after the first \<open>k\<close> pages, when \<open>free\<close> frames were there at the beginning.\<close>

definition mapped_upto :: "u64 \<Rightarrow> u64 \<Rightarrow> nat \<Rightarrow> nat \<Rightarrow> paging64 \<Rightarrow> bool" where
  "mapped_upto root frames free k s \<longleftrightarrow> wf64 s \<and> pml4 s = root \<and> total_frames64 (frames64 s) = frames \<and>
     (\<forall>v. unat v < 2 ^ 48 \<longrightarrow> entry_of s v =
        (if unat v div 4096 < k then pg (unat v div 4096) OR (PAGE_PRESENT OR PAGE_WRITE) else 0)) \<and>
     (\<forall>j<k. table_of_path s (path (pg j)) \<noteq> None) \<and> free \<le> free_count64 (frames64 s) + tables_for k"

lemma prefix_exists:
  "table_at m t (p @ q) \<noteq> None \<Longrightarrow> table_at m t p \<noteq> None"
  by (induction m t p rule: table_at.induct) (auto simp: table_at.simps(2) split: if_splits)

lemma page_of_pg: "k \<le> 2 ^ 40 \<Longrightarrow> unat (pg k) div 4096 = k"
  by (simp add: unat_pg)

lemma identity_page64_step:
  assumes "mapped_upto root frames free k s" "k < 2 ^ 18" "tables_for (Suc k) \<le> free"
  shows "\<exists>s'. identity_page64 (pg k) s = Some s' \<and> mapped_upto root frames free (Suc k) s'"
proof -
  have wf: "wf64 s" and cnt: "free \<le> free_count64 (frames64 s) + tables_for k"
    and have_tab: "\<And>j. j < k \<Longrightarrow> table_of_path s (path (pg j)) \<noteq> None"
    using assms(1) unfolding mapped_upto_def by blast+
  obtain ok s' where run: "paging_map64 (pg k) (pg k) (PAGE_PRESENT OR PAGE_WRITE) s = (ok, s')" by fastforce
  note M = paging_map64_correct [OF wf run]
  have p: "unat (pg k) div 4096 = k" using assms(2) by (intro page_of_pg) simp
  have res: "ok \<and> free \<le> free_count64 (frames64 s') + tables_for (Suc k)"
  proof (cases "k = 0")
    case True
    then have "3 \<le> free_count64 (frames64 s)" using assms(3) cnt by (simp add: tables_for_def)
    then show ?thesis using M(7) cnt True by (simp add: tables_for_def)
  next
    case False
    show ?thesis
    proof (cases "k mod 512 = 0")
      case True
      have i: "pml4_index64 (pg k) = pml4_index64 (pg 0)" "pdpt_index64 (pg k) = pdpt_index64 (pg 0)"
        using assms(2) by (simp_all add: word_unat_eq_iff unat_indices p page_of_pg)
      have "path (pg 0) = [pml4_index64 (pg 0), pdpt_index64 (pg 0)] @ [pd_index64 (pg 0)]" by (simp add: path_def)
      then have "table_of_path s ([pml4_index64 (pg 0), pdpt_index64 (pg 0)] @ [pd_index64 (pg 0)]) \<noteq> None"
        using have_tab [of 0] False by simp
      then have two: "table_of_path s [pml4_index64 (pg k), pdpt_index64 (pg k)] \<noteq> None" unfolding i by (rule prefix_exists)
      have t: "tables_for (Suc k) = Suc (tables_for k)"
      proof -
        obtain m where m: "k = 512 * m" using True by (metis mod_0_imp_dvd dvdE)
        then have "(k - 1) div 512 = m - 1" "0 < m" using False by auto
        then show ?thesis using m False by (simp add: tables_for_def)
      qed
      then have "1 \<le> free_count64 (frames64 s)" using assms(3) cnt by simp
      then show ?thesis using M(8) [OF two] cnt t by simp
    next
      case no: False
      have "k div 512 = (k - 1) div 512" using no False by (cases k) (simp_all add: div_Suc)
      moreover have "unat (pg (k - 1)) div 4096 = k - 1" using assms(2) by (intro page_of_pg) simp
      moreover have "k div 262144 = (k - 1) div 262144" "k div 134217728 = (k - 1) div 134217728" using assms(2) by simp_all
      ultimately have "path (pg k) = path (pg (k - 1))" by (simp add: path_def word_unat_eq_iff unat_indices p)
      then have "table_of_path s (path (pg k)) \<noteq> None" using have_tab [of "k - 1"] False by simp
      then show ?thesis using M(9) cnt \<open>k div 512 = (k - 1) div 512\<close> False by (simp add: tables_for_def)
    qed
  qed
  have m: "pg k AND ADDR_MASK = pg k" using masked_entry [of "pg k" 0] is_page_pg [of k] assms(2) by simp
  have ent: "entry_of s' v = (if unat v div 4096 = k then pg k OR (PAGE_PRESENT OR PAGE_WRITE) else entry_of s v)" if v: "unat v < 2 ^ 48" for v
  proof -
    have "unat (pg k) < 2 ^ 48" using assms(2) by (subst unat_pg) simp_all
    then have "path v = path (pg k) \<and> pt_index64 v = pt_index64 (pg k) \<longleftrightarrow> unat v div 4096 = k" using path_eq_iff [OF v] p by simp
    then show ?thesis unfolding entry_of_def using M(4) [OF indices(5,6) indices(4)] res m by simp
  qed
  have "mapped_upto root frames free (Suc k) s'" unfolding mapped_upto_def
  proof (intro conjI allI impI)
    show "wf64 s'" by (rule M(1))
    show "pml4 s' = root" "total_frames64 (frames64 s') = frames" using M(2,3) assms(1) by (simp_all add: mapped_upto_def)
    show "free \<le> free_count64 (frames64 s') + tables_for (Suc k)" using res by blast
    fix v :: u64 assume v: "unat v < 2 ^ 48"
    have "entry_of s v = (if unat v div 4096 < k then pg (unat v div 4096) OR (PAGE_PRESENT OR PAGE_WRITE) else 0)"
      using assms(1) v by (simp add: mapped_upto_def)
    then show "entry_of s' v = (if unat v div 4096 < Suc k then pg (unat v div 4096) OR (PAGE_PRESENT OR PAGE_WRITE) else 0)"
      using ent [OF v] by auto
  next
    fix j assume "j < Suc k"
    then show "table_of_path s' (path (pg j)) \<noteq> None"
      using M(5) [of "path (pg j)"] M(6) res have_tab [of j] by (cases "j = k") auto
  qed
  then show ?thesis using run res by (simp add: identity_page64_def)
qed

section \<open>Protection\<close>

definition page_flags :: "u64 \<Rightarrow> u64 \<Rightarrow> u64 \<Rightarrow> u64" where
  "page_flags text_start ro_end a =
     (if text_start \<le> a \<and> a < ro_end then PAGE_PRESENT else PAGE_PRESENT OR PAGE_WRITE OR PAGE_NX)"

text \<open>The first \<open>k\<close> of \<open>n\<close> pages have their final permissions.\<close>

definition protected_upto :: "u64 \<Rightarrow> u64 \<Rightarrow> u64 \<Rightarrow> u64 \<Rightarrow> u64 \<Rightarrow> nat \<Rightarrow> nat \<Rightarrow> paging64 \<Rightarrow> bool" where
  "protected_upto text_start ro_end root frames limit n k s \<longleftrightarrow> wf64 s \<and> pml4 s = root \<and>
     total_frames64 (frames64 s) = frames \<and> mapped_limit64 s = limit \<and>
     (\<forall>v. unat v < 2 ^ 48 \<longrightarrow> entry_of s v =
        (if unat v div 4096 < n
         then pg (unat v div 4096) OR (if unat v div 4096 < k then page_flags text_start ro_end (pg (unat v div 4096)) else PAGE_PRESENT OR PAGE_WRITE)
         else 0)) \<and>
     (\<forall>j<n. table_of_path s (path (pg j)) \<noteq> None)"

lemma set_flags64_fields: "r_cr3_64 (paging_set_flags64 va flags s) = r_cr3_64 s" "frames64 (paging_set_flags64 va flags s) = frames64 s"
  by (simp_all add: paging_set_flags64_def Let_def)

lemma protect_page64_step:
  assumes "protected_upto text_start ro_end root frames limit n k s" "k < n" "n \<le> 2 ^ 18"
  shows "protected_upto text_start ro_end root frames limit n (Suc k) (protect_page64 text_start ro_end (pg k) s)"
proof -
  have wf: "wf64 s" and tab: "table_of_path s (path (pg k)) \<noteq> None"
    and tabs: "\<And>j. j < n \<Longrightarrow> table_of_path s (path (pg j)) \<noteq> None"
    and ent: "\<And>v. unat v < 2 ^ 48 \<Longrightarrow> entry_of s v = (if unat v div 4096 < n
         then pg (unat v div 4096) OR (if unat v div 4096 < k then page_flags text_start ro_end (pg (unat v div 4096)) else PAGE_PRESENT OR PAGE_WRITE)
         else 0)"
    using assms(1,2) unfolding protected_upto_def by blast+
  let ?fl = "page_flags text_start ro_end (pg k)"
  let ?s = "protect_page64 text_start ro_end (pg k) s"
  have s': "?s = paging_set_flags64 (pg k) ?fl s" by (simp add: protect_page64_def page_flags_def)
  note S = set_flags64_correct [OF wf, where va = "pg k" and flags = ?fl, folded s']
  have p: "unat (pg k) div 4096 = k" using assms(2,3) by (intro page_of_pg) simp
  have k48: "unat (pg k) < 2 ^ 48" using assms(2,3) by (subst unat_pg) simp_all
  have pk: "is_page (pg k)" using assms(2,3) by (intro is_page_pg) simp
  have m: "(pg k OR (PAGE_PRESENT OR PAGE_WRITE)) AND ADDR_MASK = pg k"
    by (rule masked_entry [OF pk]) (auto simp: bit_or_iff flag_bits)
  have ent': "entry_of ?s v = (if unat v div 4096 = k then pg k OR ?fl else entry_of s v)" if v: "unat v < 2 ^ 48" for v
  proof -
    have same: "path v = path (pg k) \<and> pt_index64 v = pt_index64 (pg k) \<longleftrightarrow> unat v div 4096 = k" using path_eq_iff [OF v k48] p by simp
    have "entry_of ?s v = (if unat v div 4096 = k then (entry_of s v AND ADDR_MASK) OR ?fl else entry_of s v)"
      unfolding entry_of_def using S(4) [OF indices(5,6) indices(4), of v v] tab same by simp
    then show ?thesis using ent [OF v] m assms(2) by simp
  qed
  show ?thesis unfolding protected_upto_def
  proof (intro conjI allI impI)
    show "wf64 ?s" "pml4 ?s = root" "mapped_limit64 ?s = limit" using S(1,2,5) assms(1) by (simp_all add: protected_upto_def)
    show "total_frames64 (frames64 ?s) = frames" using assms(1) unfolding s' by (simp add: protected_upto_def set_flags64_fields)
    fix v :: u64 assume v: "unat v < 2 ^ 48"
    show "entry_of ?s v = (if unat v div 4096 < n
         then pg (unat v div 4096) OR (if unat v div 4096 < Suc k then page_flags text_start ro_end (pg (unat v div 4096)) else PAGE_PRESENT OR PAGE_WRITE)
         else 0)" using ent' [OF v] ent [OF v] assms(2) by auto
  next
    fix j assume "j < n"
    then show "table_of_path ?s (path (pg j)) \<noteq> None" using S(3) [of "path (pg j)"] tabs by simp
  qed
qed

lemma root_ready:
  assumes "pmm_ok64 (frames64 s)" "unat (total_frames64 (frames64 s)) \<le> 2 ^ 40" "pmm_alloc_frame64 (frames64 s) = (root, p)" "root \<noteq> 0"
  shows "mapped_upto root (total_frames64 (frames64 s)) (free_count64 p) 0 ((clear_page64 root (s\<lparr>frames64 := p\<rparr>))\<lparr>pml4 := root\<rparr>)"
proof -
  let ?s = "(clear_page64 root (s\<lparr>frames64 := p\<rparr>))\<lparr>pml4 := root\<rparr>"
  note a = pmm_long.alloc_some [OF assms(1,3,4)]
  have tot: "total_frames64 p = total_frames64 (frames64 s)" by (rule alloc_total64 [OF assms(3)])
  have "unat root div 4096 < 2 ^ 40" using owned_less64 [of "unat root div 4096" p] a assms(2) tot by simp
  then have pr: "is_page root" using a by (simp add: is_page_def div_less_iff_less_mult)
  have z: "slots64 ?s (slot64 root i) = 0" if "i < 512" for i using slot64_in_page [OF pr pr that] by (simp add: clear_page64_def)
  have tp: "table_of_path ?s q = (if q = [] then Some root else None)" if "idx q" for q
    using that z by (cases q) (auto simp: table_at.simps(2) idx_def)
  have fp: "frames64 ?s = p" by (simp add: clear_page64_def)
  have "tables_ok ?s" "paths_unique ?s" "upper_ok ?s"
    unfolding tables_ok_def paths_unique_def upper_ok_def fp using tp pr assms(4) a z by (auto split: if_splits)
  then have "wf64 ?s" using a assms(2) tot by (simp add: wf64_def fp)
  moreover have "entry_of ?s v = 0" for v using tp [OF indices(5) [of v]] by (simp add: entry_of_def leaf_def) (simp add: path_def)
  ultimately show ?thesis using tot by (simp add: mapped_upto_def tables_for_def fp)
qed

lemma mmu64_protected:
  assumes "wf64 s" "r_cr3_64 s = pml4 s" "entry_of s v = a OR page_flags text_start ro_end a" "is_page a"
  shows "mmu64 s v = (let code = (text_start \<le> a \<and> a < ro_end) in Some (a, \<not> code, False, code))"
proof -
  have b: "bit (a OR page_flags text_start ro_end a) j = bit (page_flags text_start ro_end a) j" if "j < 12 \<or> 52 \<le> j" for j
    using is_page_bit [OF assms(4), of j] that by (auto simp: bit_or_iff)
  have m: "(a OR page_flags text_start ro_end a) AND ADDR_MASK = a"
    by (rule masked_entry [OF assms(4)]) (auto simp: page_flags_def bit_or_iff flag_bits split: if_splits)
  have "bit (page_flags text_start ro_end a) 0" "bit (page_flags text_start ro_end a) 1 \<longleftrightarrow> \<not> (text_start \<le> a \<and> a < ro_end)"
    "\<not> bit (page_flags text_start ro_end a) 2" "bit (page_flags text_start ro_end a) 63 \<longleftrightarrow> \<not> (text_start \<le> a \<and> a < ro_end)"
    by (auto simp: page_flags_def bit_or_iff flag_bits)
  then show ?thesis using b [of 0] b [of 1] b [of 2] b [of 63] m
    unfolding mmu64_entry [OF assms(1,2)] assms(3) Let_def by simp
qed

lemma tables_for_le: "k \<le> n \<Longrightarrow> tables_for k \<le> tables_for n"
  unfolding tables_for_def by (auto intro: div_le_mono)

abbreviation identity_pages :: "paging64 \<Rightarrow> nat" where
  "identity_pages s \<equiv> min (unat (total_frames64 (frames64 s))) (2 ^ 18)"

lemma memory_top_pages:
  assumes "unat (total_frames64 p) \<le> 2 ^ 40"
  shows "(if pmm_memory_top64 p > 0x40000000 then 0x40000000 else pmm_memory_top64 p) = pg (min (unat (total_frames64 p)) (2 ^ 18))"
proof -
  let ?N = "unat (total_frames64 p)"
  have t: "unat (pmm_memory_top64 p) = 4096 * ?N" unfolding pmm_memory_top64_def
    using assms by (subst unat_mult_no_overflow) simp_all
  show ?thesis
  proof (cases "?N \<le> 2 ^ 18")
    case True
    then have "pmm_memory_top64 p = pg (min ?N (2 ^ 18))" using t by (simp add: word_unat_eq_iff unat_pg)
    moreover have "\<not> pmm_memory_top64 p > 0x40000000" using t True by (simp add: word_less_nat_alt)
    ultimately show ?thesis by simp
  next
    case False
    then have "pmm_memory_top64 p > 0x40000000" using t by (simp add: word_less_nat_alt)
    moreover have "(0x40000000 :: u64) = pg (min ?N (2 ^ 18))" using False by (simp add: word_unat_eq_iff unat_pg)
    ultimately show ?thesis by simp
  qed
qed

lemma paging_init64_builds:
  assumes "pmm_ok64 (frames64 s)" "unat (total_frames64 (frames64 s)) \<le> 2 ^ 40" "516 \<le> free_count64 (frames64 s)"
  shows "\<exists>s' root. paging_init64 kernel_text_start kernel_rodata_end s = Some (s'\<lparr>r_cr3_64 := pml4 s'\<rparr>) \<and>
    protected_upto (kernel_text_start AND NOT 0xFFF) ((kernel_rodata_end + 4096 - 1) AND NOT 0xFFF) root
      (total_frames64 (frames64 s)) (pg (identity_pages s)) (identity_pages s) (identity_pages s) s'"
proof -
  obtain root p where al: "pmm_alloc_frame64 (frames64 s) = (root, p)" by fastforce
  have fc: "root \<noteq> 0" "515 \<le> free_count64 p" using alloc_free_count64 [OF assms(1) al] assms(3) by simp_all
  let ?n = "identity_pages s" and ?I = "mapped_upto root (total_frames64 (frames64 s)) (free_count64 p)"
  let ?s1 = "(clear_page64 root (s\<lparr>frames64 := p\<rparr>))\<lparr>pml4 := root\<rparr>"
  let ?ts = "kernel_text_start AND NOT 0xFFF" and ?re = "(kernel_rodata_end + 4096 - 1) AND NOT 0xFFF"
  let ?J = "protected_upto ?ts ?re root (total_frames64 (frames64 s)) (pg ?n) ?n"
  have tot: "total_frames64 p = total_frames64 (frames64 s)" by (rule alloc_total64 [OF al])
  have bound: "pg j < pg ?n \<longleftrightarrow> j < ?n" if "j \<le> ?n" for j using that by (intro pg_less) simp_all
  have enough: "tables_for (Suc j) \<le> free_count64 p" if "j < ?n" for j
  proof -
    have "tables_for (Suc j) \<le> tables_for (2 ^ 18)" using that by (intro tables_for_le) simp
    then show ?thesis using fc(2) by (simp add: tables_for_def)
  qed
  have "\<exists>s2. each_page64 identity_page64 (pg 0) (pg ?n) ?s1 = Some s2 \<and> ?I ?n s2"
    by (rule each_page64_until [where I = ?I, OF _ bound root_ready [OF assms(1,2) al fc(1)]]) (use identity_page64_step enough in simp_all)
  then obtain s2 where s2: "each_page64 identity_page64 (pg 0) (pg ?n) ?s1 = Some s2" "?I ?n s2" by blast
  let ?s3 = "s2\<lparr>mapped_limit64 := pg ?n\<rparr>"
  have J: "?J 0 ?s3" using s2(2) unfolding mapped_upto_def protected_upto_def bookkeeping64 by auto
  have "\<exists>s4. each_page64 (\<lambda>addr s. Some (protect_page64 ?ts ?re addr s)) (pg 0) (pg ?n) ?s3 = Some s4 \<and> ?J ?n s4"
    by (rule each_page64_until [where I = ?J, OF _ bound J]) (use protect_page64_step in simp_all)
  then obtain s4 where s4: "each_page64 (\<lambda>addr s. Some (protect_page64 ?ts ?re addr s)) (pg 0) (pg ?n) ?s3 = Some s4" "?J ?n s4" by blast
  have f: "frames64 ?s1 = p" by (simp add: clear_page64_def)
  have top: "(if pmm_memory_top64 (frames64 ?s1) > 0x40000000 then 0x40000000 else pmm_memory_top64 (frames64 ?s1)) = pg ?n"
    unfolding f using memory_top_pages [of p] assms(2) tot by simp
  have "paging_init64 kernel_text_start kernel_rodata_end s = Some (s4\<lparr>r_cr3_64 := pml4 s4\<rparr>)"
    using s2(1) s4(1) fc(1) top unfolding paging_init64_def al by (simp add: Let_def pg_def)
  then show ?thesis using s4(2) by blast
qed

lemma paging_init64_walk:
  assumes "pmm_ok64 (frames64 s)" "unat (total_frames64 (frames64 s)) \<le> 2 ^ 40" "516 \<le> free_count64 (frames64 s)"
  shows "\<exists>s'. paging_init64 kernel_text_start kernel_rodata_end s = Some s' \<and> wf64 s' \<and> r_cr3_64 s' = pml4 s' \<and>
    total_frames64 (frames64 s') = total_frames64 (frames64 s) \<and> unat (mapped_limit64 s') = 4096 * min (unat (total_frames64 (frames64 s))) (2 ^ 18) \<and>
    (\<forall>v. unat v < 2 ^ 47 \<longrightarrow> mmu64 s' v =
       (if v < mapped_limit64 s'
        then (let a = pg (unat v div 4096);
                  code = (kernel_text_start AND NOT 0xFFF \<le> a \<and> a < (kernel_rodata_end + 4096 - 1) AND NOT 0xFFF)
              in Some (a, \<not> code, False, code))
        else None))"
proof -
  let ?n = "identity_pages s" and ?ts = "kernel_text_start AND NOT 0xFFF" and ?re = "(kernel_rodata_end + 4096 - 1) AND NOT 0xFFF"
  obtain s4 root where run: "paging_init64 kernel_text_start kernel_rodata_end s = Some (s4\<lparr>r_cr3_64 := pml4 s4\<rparr>)"
      and J: "protected_upto ?ts ?re root (total_frames64 (frames64 s)) (pg ?n) ?n ?n s4"
    using paging_init64_builds [OF assms] by blast
  let ?s' = "s4\<lparr>r_cr3_64 := pml4 s4\<rparr>"
  have fin: "wf64 ?s'" "entry_of ?s' = entry_of s4" "mapped_limit64 ?s' = pg ?n"
    using J unfolding bookkeeping64 by (simp_all add: protected_upto_def)
  have cr3: "r_cr3_64 ?s' = pml4 ?s'" by simp
  have lim: "unat (pg ?n) = 4096 * ?n" by (rule unat_pg) simp
  have walk: "mmu64 ?s' v = (if v < pg ?n
      then (let a = pg (unat v div 4096); code = (?ts \<le> a \<and> a < ?re) in Some (a, \<not> code, False, code)) else None)"
    if v: "unat v < 2 ^ 47" for v
  proof -
    let ?k = "unat v div 4096"
    have lt: "v < pg ?n \<longleftrightarrow> ?k < ?n" unfolding word_less_nat_alt lim by (metis div_less_iff_less_mult mult.commute zero_less_numeral)
    have e: "entry_of ?s' v = (if ?k < ?n then pg ?k OR page_flags ?ts ?re (pg ?k) else 0)"
      unfolding fin(2) using J v by (simp add: protected_upto_def)
    show ?thesis
    proof (cases "?k < ?n")
      case True
      have pk: "is_page (pg ?k)" using True by (intro is_page_pg) simp
      have "mmu64 ?s' v = (let code = (?ts \<le> pg ?k \<and> pg ?k < ?re) in Some (pg ?k, \<not> code, False, code))"
        by (rule mmu64_protected [OF fin(1) cr3 e [unfolded if_P [OF True]] pk])
      then show ?thesis using True lt by (simp only: Let_def if_True)
    next
      case False
      have "mmu64 ?s' v = None" unfolding mmu64_entry [OF fin(1) cr3] e if_not_P [OF False] by simp
      then show ?thesis using False lt by (simp only: if_False)
    qed
  qed
  have "total_frames64 (frames64 ?s') = total_frames64 (frames64 s)" using J by (simp add: protected_upto_def)
  then show ?thesis using run fin(1,3) cr3 lim walk by (intro exI [of _ ?s']) simp
qed

text \<open>\<open>paging_init\<close> of the 64-bit port with at least 516 free frames returns, and the MMU then maps every page below the end of memory (1 GB
  at most) to itself: the pages of the kernel's code and constants can be executed and not written, all other pages can be
  written and not executed, ring 3 reaches none of them, and no other address is mapped.\<close>

theorem paging_init64_wx:
  assumes "pmm_ok64 (frames64 s)" "unat (total_frames64 (frames64 s)) \<le> 2 ^ 40" "516 \<le> free_count64 (frames64 s)"
  shows "\<exists>s'. paging_init64 kernel_text_start kernel_rodata_end s = Some s' \<and> wf64 s' \<and> r_cr3_64 s' = pml4 s' \<and>
    total_frames64 (frames64 s') = total_frames64 (frames64 s) \<and> unat (mapped_limit64 s') = 4096 * min (unat (total_frames64 (frames64 s))) (2 ^ 18) \<and>
    (\<forall>v. unat v < 2 ^ 47 \<longrightarrow> mmu64 s' v =
       (if v < mapped_limit64 s'
        then (let a = pg (unat v div 4096);
                  code = (kernel_text_start AND NOT 0xFFF \<le> a \<and> a < (kernel_rodata_end + 4096 - 1) AND NOT 0xFFF)
              in Some (a, \<not> code, False, code))
        else None))"
  by (rule paging_init64_walk [OF assms])

text \<open>A machine of 8 MB in which only frame 0 is taken.\<close>

definition example_frames64 :: pmm64 where
  "example_frames64 = \<lparr>bitmap64 = (\<lambda>_. 0)(0 := 1), total_frames64 = 2048, used_frames64 = 1\<rparr>"

definition example_paging64 :: paging64 where
  "example_paging64 = \<lparr>slots64 = \<lambda>_. 0, pml4 = 0, mapped_limit64 = 0, fault_resume_rip = 0, frames64 = example_frames64, r_cr3_64 = 0x1000\<rparr>"

lemma example_frames64_ok: "pmm_ok64 example_frames64" "free_count64 example_frames64 = 2047"
proof -
  have "frame_test64 f example_frames64 \<longleftrightarrow> f = 0" for f
  proof -
    have "bit (1 :: u64) (unat f mod 64) \<longleftrightarrow> unat f mod 64 = 0" by (simp add: bit_1_iff)
    moreover have "f div 64 = 0 \<longleftrightarrow> unat f div 64 = 0" using unat_eq_0 [of "f div 64"] by (simp add: unat_div)
    moreover have "unat f = unat f div 64 * 64 + unat f mod 64" by simp
    ultimately show ?thesis by (auto simp: frame_test64_bit example_frames64_def unat_eq_0 [symmetric])
  qed
  then have u: "used_set64 example_frames64 = {0}" by (auto simp: used_set64_def example_frames64_def)
  then show "pmm_ok64 example_frames64" "free_count64 example_frames64 = 2047"
    by (simp_all add: pmm_ok64_def pmm_inv64_def free_count64_def) (simp_all add: example_frames64_def)
qed

theorem paging_init64_wx_witness:
  "\<exists>s'. paging_init64 0x100000 0x107800 example_paging64 = Some s' \<and> unat (mapped_limit64 s') = 0x800000 \<and>
     mmu64 s' 0x101234 = Some (0x101000, False, False, True) \<and> mmu64 s' 0x300008 = Some (0x300000, True, False, False) \<and>
     mmu64 s' 0x40000000 = None"
proof -
  have f: "frames64 example_paging64 = example_frames64" "total_frames64 example_frames64 = 2048"
    by (simp_all add: example_paging64_def example_frames64_def)
  obtain s' where s': "paging_init64 0x100000 0x107800 example_paging64 = Some s'" "unat (mapped_limit64 s') = 0x800000"
      "\<forall>v. unat v < 2 ^ 47 \<longrightarrow> mmu64 s' v = (if v < mapped_limit64 s'
        then (let a = pg (unat v div 4096); code = (0x100000 AND NOT 0xFFF \<le> a \<and> a < (0x107800 + 4096 - 1) AND NOT 0xFFF)
              in Some (a, \<not> code, False, code)) else None)"
    using paging_init64_wx [of example_paging64 "0x100000" "0x107800"] example_frames64_ok f by auto
  have l: "mapped_limit64 s' = 0x800000" using s'(2) by (simp add: word_unat_eq_iff)
  have c: "(0x100000 AND NOT 0xFFF :: u64) = 0x100000" "((0x107800 + 4096 - 1) AND NOT 0xFFF :: u64) = 0x108000" by code_simp+
  show ?thesis using s'(1,2) s'(3) [rule_format, of "0x101234"] s'(3) [rule_format, of "0x300008"] s'(3) [rule_format, of "0x40000000"]
    unfolding l c by (simp add: pg_def l)
qed

section \<open>Pages for ring 3\<close>

lemma or_user: "bit e 2 \<Longrightarrow> e OR PAGE_USER = e"
  by (rule bit_word_eqI) (auto simp: bit_or_iff flag_bits)

lemma set_slot64_same: "set_slot64 a (slots64 s a) s = s"
  by (simp add: set_slot64_def)

text \<open>Where the tables exist, the upper entries grant ring 3 already, and only the last entry changes.\<close>

lemma make_user_page64_eq:
  assumes "wf64 s" "table_of_path s (path a) \<noteq> None"
  shows "make_user_page64 flags a s = paging_set_flags64 a flags s"
proof -
  let ?e4 = "slots64 s (slot64 (pml4 s) (pml4_index64 a))"
  let ?e3 = "slots64 s (slot64 (?e4 AND ADDR_MASK) (pdpt_index64 a))"
  let ?e2 = "slots64 s (slot64 (?e3 AND ADDR_MASK) (pd_index64 a))"
  have b: "bit ?e4 0" "bit ?e3 0" "bit ?e2 0" using assms(2) by (auto simp: path_def table_at.simps(2) split: if_splits)
  have u: "upper_entry (slots64 s (slot64 t i))" if "table_of_path s p = Some t" "idx p" "length p \<le> 2" "i < 512" "bit (slots64 s (slot64 t i)) 0" for p t i
    using assms(1) that unfolding wf64_def upper_ok_def by blast
  have t: "table_of_path s [pml4_index64 a] = Some (?e4 AND ADDR_MASK)" "table_of_path s [pml4_index64 a, pdpt_index64 a] = Some (?e3 AND ADDR_MASK)"
    using b by (simp_all add: table_at.simps(2))
  have "upper_entry ?e4" "upper_entry ?e3" "upper_entry ?e2" using u [of "[]"] u [OF t(1)] u [OF t(2)] b by simp_all
  then have o: "?e4 OR PAGE_USER = ?e4" "?e3 OR PAGE_USER = ?e3" "?e2 OR PAGE_USER = ?e2" by (simp_all add: or_user upper_entry_def)
  have nz: "?e4 AND ADDR_MASK \<noteq> 0" "?e3 AND ADDR_MASK \<noteq> 0" using tables_okD(2) [OF assms(1) t(1)] tables_okD(2) [OF assms(1) t(2)] by simp_all
  show ?thesis unfolding make_user_page64_def Let_def o set_slot64_same using nz by simp
qed

definition opened :: "u64 \<Rightarrow> nat \<Rightarrow> paging64 \<Rightarrow> nat \<Rightarrow> paging64 \<Rightarrow> bool" where
  "opened flags a s k s' \<longleftrightarrow> wf64 s' \<and> pml4 s' = pml4 s \<and> r_cr3_64 s' = r_cr3_64 s \<and>
     (\<forall>q. idx q \<longrightarrow> length q \<le> 3 \<longrightarrow> table_of_path s' q = table_of_path s q) \<and>
     (\<forall>v. unat v < 2 ^ 48 \<longrightarrow> entry_of s' v =
        (if a \<le> unat v div 4096 \<and> unat v div 4096 < k then (entry_of s v AND ADDR_MASK) OR flags else entry_of s v))"

lemma make_user_page64_step:
  assumes "opened flags a s k s'" "table_of_path s (path (pg k)) \<noteq> None" "k < 2 ^ 36" "a \<le> k"
  shows "opened flags a s (Suc k) (make_user_page64 flags (pg k) s')"
proof -
  have wf: "wf64 s'" and tabs: "\<And>q. idx q \<Longrightarrow> length q \<le> 3 \<Longrightarrow> table_of_path s' q = table_of_path s q"
    and ent: "\<And>v. unat v < 2 ^ 48 \<Longrightarrow> entry_of s' v =
        (if a \<le> unat v div 4096 \<and> unat v div 4096 < k then (entry_of s v AND ADDR_MASK) OR flags else entry_of s v)"
    using assms(1) unfolding opened_def by blast+
  have tab: "table_of_path s' (path (pg k)) \<noteq> None" using tabs [of "path (pg k)"] assms(2) by simp
  let ?s = "paging_set_flags64 (pg k) flags s'"
  note S = set_flags64_correct [OF wf, where va = "pg k" and flags = flags]
  have p: "unat (pg k) div 4096 = k" "unat (pg k) < 2 ^ 48" using assms(3) by (simp_all add: unat_pg)
  have ent': "entry_of ?s v = (if a \<le> unat v div 4096 \<and> unat v div 4096 < Suc k then (entry_of s v AND ADDR_MASK) OR flags else entry_of s v)"
    if v: "unat v < 2 ^ 48" for v
  proof -
    have same: "path v = path (pg k) \<and> pt_index64 v = pt_index64 (pg k) \<longleftrightarrow> unat v div 4096 = k" using path_eq_iff [OF v p(2)] p(1) by simp
    have "entry_of ?s v = (if unat v div 4096 = k then (entry_of s' v AND ADDR_MASK) OR flags else entry_of s' v)"
      unfolding entry_of_def using S(4) [OF indices(5,6) indices(4), of v v] tab same by simp
    then show ?thesis using ent [OF v] assms(4) by auto
  qed
  have tabs': "table_of_path ?s q = table_of_path s q" if "idx q" "length q \<le> 3" for q
    using S(3) [OF that] tabs [OF that] by (rule trans)
  have eq: "make_user_page64 flags (pg k) s' = ?s" by (rule make_user_page64_eq [OF wf tab])
  show ?thesis unfolding eq opened_def using S(1,2) tabs' ent' assms(1) by (simp add: opened_def set_flags64_fields)
qed

lemma mmu64_opened:
  assumes "wf64 s" "r_cr3_64 s = pml4 s"
    "entry_of s v = (e AND ADDR_MASK) OR (PAGE_PRESENT OR PAGE_USER OR (if writable then PAGE_WRITE OR PAGE_NX else 0))"
  shows "mmu64 s v = Some (e AND ADDR_MASK, writable, True, \<not> writable)"
proof -
  let ?fl = "PAGE_PRESENT OR PAGE_USER OR (if writable then PAGE_WRITE OR PAGE_NX else 0)"
  have b: "bit ((e AND ADDR_MASK) OR ?fl) j = bit ?fl j" if "j < 12 \<or> 52 \<le> j" for j using that by (simp only: bit_or_iff bit_and_iff addr_mask_bit) auto
  have m: "((e AND ADDR_MASK) OR ?fl) AND ADDR_MASK = e AND ADDR_MASK"
    by (rule bit_word_eqI, cases writable; simp only: bit_or_iff bit_and_iff addr_mask_bit flag_bits if_True if_False bit_0_eq) auto
  have "bit ?fl 0" "bit ?fl 1 = writable" "bit ?fl 2" "bit ?fl 63 = writable" by (auto simp: bit_or_iff flag_bits)
  then show ?thesis using b [of 0] b [of 1] b [of 2] b [of 63] m unfolding mmu64_entry [OF assms(1,2)] assms(3) by simp
qed

text \<open>\<open>paging_make_user\<close> of the 64-bit port, on a range that is mapped, returns and opens to ring 3 exactly the pages that the range touches: they keep
  their frames, data becomes writable and not executable, code executable and not writable; for all other addresses the MMU finds
  what it found before.\<close>

theorem paging_make_user64_opens:
  assumes "wf64 s" "r_cr3_64 s = pml4 s" "start \<le> stop" "unat stop \<le> 2 ^ 47"
    "\<And>j. unat start div 4096 \<le> j \<Longrightarrow> 4096 * j < unat stop \<Longrightarrow> mmu64 s (pg j) \<noteq> None"
  shows "\<exists>s'. paging_make_user64 start stop writable s = Some s' \<and> wf64 s' \<and> r_cr3_64 s' = pml4 s' \<and>
    (\<forall>v. unat v < 2 ^ 47 \<longrightarrow> mmu64 s' v =
       (if unat start div 4096 \<le> unat v div 4096 \<and> 4096 * (unat v div 4096) < unat stop
        then Some (fst (the (mmu64 s v)), writable, True, \<not> writable) else mmu64 s v))"
proof -
  let ?a = "unat start div 4096" and ?n = "(unat stop + 4095) div 4096"
  let ?fl = "PAGE_PRESENT OR PAGE_USER OR (if writable then PAGE_WRITE OR PAGE_NX else 0)"
  have n: "?n \<le> 2 ^ 35" using assms(4) by simp
  have in_range: "j < ?n \<longleftrightarrow> 4096 * j < unat stop" for j using less_ceil_div [of 4096 j "unat stop"] by (simp add: mult.commute)
  have floor: "start AND NOT 0xFFF = pg ?a"
  proof -
    have "start AND NOT (mask 12) = pg ?a" unfolding and_not_mask_shift pg_def
      by (rule word_unat_eq_iff [THEN iffD2]) (simp add: drop_bit_eq_div push_bit_eq_mult unat_word_ariths unat_div unat_of_nat mult.commute)
    then show ?thesis by (simp add: mask_eq_exp_minus_1)
  qed
  have tab: "table_of_path s (path (pg j)) \<noteq> None" if "?a \<le> j" "j < ?n" for j
  proof
    assume "table_of_path s (path (pg j)) = None"
    then have "mmu64 s (pg j) = None" unfolding mmu64_entry [OF assms(1,2)] by (simp add: entry_of_def leaf_def)
    then show False using assms(5) [of j] that in_range by simp
  qed
  have stop: "pg j < stop \<longleftrightarrow> j < ?n" if "j \<le> ?n" for j
    unfolding word_less_nat_alt in_range using that n by (subst unat_pg) simp_all
  have an: "?a \<le> ?n" using assms(3) by (intro div_le_mono) (simp add: word_le_nat_alt)
  have start_ok: "opened ?fl ?a s ?a s" using assms(1) by (auto simp: opened_def)
  have "\<exists>s'. each_page64 (\<lambda>addr s. Some (make_user_page64 ?fl addr s)) (pg ?a) stop s = Some s' \<and> opened ?fl ?a s ?n s'"
  proof (rule each_page64_until [where I = "opened ?fl ?a s", OF an stop start_ok])
    fix j st assume j: "?a \<le> j" "j < ?n" "opened ?fl ?a s j st"
    have "opened ?fl ?a s (Suc j) (make_user_page64 ?fl (pg j) st)" using j n by (intro make_user_page64_step tab) simp_all
    then show "\<exists>s'. Some (make_user_page64 ?fl (pg j) st) = Some s' \<and> opened ?fl ?a s (Suc j) s'" by blast
  qed
  then obtain s' where s': "paging_make_user64 start stop writable s = Some s'" "opened ?fl ?a s ?n s'"
    unfolding paging_make_user64_def floor Let_def by blast
  have wf: "wf64 s'" "r_cr3_64 s' = pml4 s'" using s'(2) assms(2) by (simp_all add: opened_def)
  have walk: "mmu64 s' v = (if ?a \<le> unat v div 4096 \<and> 4096 * (unat v div 4096) < unat stop
        then Some (fst (the (mmu64 s v)), writable, True, \<not> writable) else mmu64 s v)" if v: "unat v < 2 ^ 47" for v
  proof (cases "?a \<le> unat v div 4096 \<and> unat v div 4096 < ?n")
    case True
    let ?k = "unat v div 4096"
    have p: "unat (pg ?k) div 4096 = ?k" "unat (pg ?k) < 2 ^ 48" using v by (simp_all add: unat_pg div_le_mono)
    have "entry_of s v = entry_of s (pg ?k)" using path_eq_iff [of v "pg ?k"] v p by (simp add: entry_of_def)
    then have "mmu64 s v = mmu64 s (pg ?k)" by (simp only: mmu64_entry [OF assms(1,2)])
    moreover have "mmu64 s (pg ?k) \<noteq> None" using True in_range by (intro assms(5)) simp_all
    ultimately have "mmu64 s v \<noteq> None" by simp
    then have "fst (the (mmu64 s v)) = entry_of s v AND ADDR_MASK" unfolding mmu64_entry [OF assms(1,2)] by (auto split: if_splits)
    moreover have "entry_of s' v = (entry_of s v AND ADDR_MASK) OR ?fl" using s'(2) v True by (simp add: opened_def)
    ultimately show ?thesis using mmu64_opened [OF wf, of v "entry_of s v" writable] True in_range by simp
  next
    case False
    then have "entry_of s' v = entry_of s v" using s'(2) v by (auto simp: opened_def)
    then have same: "mmu64 s' v = mmu64 s v" by (simp only: mmu64_entry [OF wf] mmu64_entry [OF assms(1,2)])
    show ?thesis unfolding same using False in_range by auto
  qed
  show ?thesis using s'(1) wf walk by blast
qed

end
