(* ===== verification/Syscall64.thy ===== *)
theory Syscall64
  imports Syscall Gdt64
begin

text \<open>
  System calls of the 64-bit port: \<open>arthic64/kernel/syscall.c\<close>, with the entry stub \<open>arthic64/kernel/syscall_entry.s\<close> around it
  and the instructions SYSCALL, SYSRET and SWAPGS as their manual describes them.  The state has the model specific registers,
  the quadwords that are reached through GS, and the bytes the kernel reads for ring 3.  Every address of the user window is
  mapped, so these reads do not fault.
\<close>

section \<open>State\<close>

record cpu64 =
  segs64 :: segments64
  msr64 :: "u32 \<Rightarrow> u64"
  qword64 :: "u64 \<Rightarrow> u64"
  mem64 :: "u64 \<Rightarrow> u8"
  user_range_start64 :: u64
  user_range_end64 :: u64
  console64 :: "u8 list"

record regs64 =
  rax64 :: u64
  rdi64 :: u64
  rsi64 :: u64
  rdx64 :: u64
  r10_64 :: u64
  r8_64 :: u64
  r9_64 :: u64
  rcx64 :: u64
  r11_64 :: u64
  rsp64 :: u64
  rip64 :: u64
  rflags64 :: u64
  cs64 :: u16
  ss64 :: u16

definition SYS_WRITE64 :: u64 where "SYS_WRITE64 = 0"
definition SYS_EXIT64 :: u64 where "SYS_EXIT64 = 1"

abbreviation EFER :: u32 where "EFER \<equiv> 0xC0000080"
abbreviation STAR :: u32 where "STAR \<equiv> 0xC0000081"
abbreviation LSTAR :: u32 where "LSTAR \<equiv> 0xC0000082"
abbreviation FMASK :: u32 where "FMASK \<equiv> 0xC0000084"
abbreviation GS_BASE :: u32 where "GS_BASE \<equiv> 0xC0000101"
abbreviation KERNEL_GS_BASE :: u32 where "KERNEL_GS_BASE \<equiv> 0xC0000102"

text \<open>\<open>wrmsr\<close> with EDX:EAX as its two halves.\<close>

definition wrmsr :: "u32 \<Rightarrow> u32 \<Rightarrow> u32 \<Rightarrow> cpu64 \<Rightarrow> cpu64" where
  "wrmsr index low high c = c\<lparr>msr64 := (msr64 c)(index := ucast low OR push_bit 32 (ucast high))\<rparr>"

section \<open>The C code\<close>

definition syscall_set_user_range64 :: "u64 \<Rightarrow> u64 \<Rightarrow> cpu64 \<Rightarrow> cpu64" where
  "syscall_set_user_range64 start stop c = c\<lparr>user_range_start64 := start, user_range_end64 := stop\<rparr>"

text \<open>The loop of \<open>user_string_ok\<close>, with the rounds that are left.\<close>

fun string_scan64 :: "cpu64 \<Rightarrow> u64 \<Rightarrow> nat \<Rightarrow> nat \<Rightarrow> bool" where
  "string_scan64 c ptr i 0 = False"
| "string_scan64 c ptr i (Suc n) =
     (let addr = ptr + word_of_nat i
      in if user_range_end64 c \<le> addr then False
         else if mem64 c addr = 0 then True
         else string_scan64 c ptr (i + 1) n)"

definition user_string_ok64 :: "u64 \<Rightarrow> nat \<Rightarrow> cpu64 \<Rightarrow> bool" where
  "user_string_ok64 ptr max_length c \<longleftrightarrow>
     \<not> (ptr < user_range_start64 c \<or> user_range_end64 c \<le> ptr) \<and> string_scan64 c ptr 0 max_length"

text \<open>The C string at an address, when it ends within 256 bytes, as \<open>terminal_write\<close> prints it after the check.\<close>

definition c_string64 :: "cpu64 \<Rightarrow> u64 \<Rightarrow> u8 list" where
  "c_string64 c p = takeWhile (\<lambda>b. b \<noteq> 0) (map (\<lambda>i. mem64 c (p + word_of_nat i)) [0..<256])"

definition put64 :: "u8 list \<Rightarrow> cpu64 \<Rightarrow> cpu64" where
  "put64 t c = c\<lparr>console64 := console64 c @ t\<rparr>"

text \<open>The frame is RAX and RDI (no call uses the other arguments); None is a call of \<open>usermode_return\<close>, which does not come back.
  The two messages print a 64-bit number with \<open>%lx\<close> and \<open>%lu\<close>.\<close>

definition syscall_dispatch64 :: "u64 \<Rightarrow> u64 \<Rightarrow> cpu64 \<Rightarrow> (u64 \<times> cpu64) option" where
  "syscall_dispatch64 rax rdi c =
     (if rax = SYS_WRITE64
      then if \<not> user_string_ok64 rdi 256 c
           then Some (- 1, put64 (ascii ''[syscall] rejected bad string pointer 0x'' @ radix 16 (unat rdi) @ [0x0A]) c)
           else Some (0, put64 (c_string64 c rdi) c)
      else if rax = SYS_EXIT64 then None
      else Some (- 1, put64 (ascii ''[syscall] unknown call '' @ radix 10 (unat rax) @ [0x0A]) c))"

definition syscall_install64 :: "u64 \<Rightarrow> u64 \<Rightarrow> u64 \<Rightarrow> cpu64 \<Rightarrow> cpu64" where
  "syscall_install64 cpu0 syscall_stack syscall_entry c =
     (let c1 = c\<lparr>qword64 := (qword64 c)(cpu0 := syscall_stack + 4096, cpu0 + 8 := 0)\<rparr>;
          c2 = wrmsr 0xC0000102 (ucast (cpu0 AND 0xFFFFFFFF)) (ucast (drop_bit 32 cpu0)) c1;
          c3 = wrmsr 0xC0000101 0 0 c2;
          low = ucast (msr64 c3 0xC0000080) OR 1;
          high = ucast (drop_bit 32 (msr64 c3 0xC0000080));
          c4 = wrmsr 0xC0000080 low high c3;
          star = push_bit 48 0x10 OR push_bit 32 0x08 :: u64;
          c5 = wrmsr 0xC0000081 (ucast (star AND 0xFFFFFFFF)) (ucast (drop_bit 32 star)) c4;
          c6 = wrmsr 0xC0000082 (ucast (syscall_entry AND 0xFFFFFFFF)) (ucast (drop_bit 32 syscall_entry)) c5
      in wrmsr 0xC0000084 0x200 0 c6)"

section \<open>The instructions and the stub\<close>

definition cpu_syscall :: "regs64 \<Rightarrow> cpu64 \<Rightarrow> regs64" where
  "cpu_syscall r c = r\<lparr>rcx64 := rip64 r, r11_64 := rflags64 r, rip64 := msr64 c LSTAR,
     rflags64 := rflags64 r AND NOT (msr64 c FMASK),
     cs64 := ucast (drop_bit 32 (msr64 c STAR)) AND 0xFFFC, ss64 := ucast (drop_bit 32 (msr64 c STAR)) + 8\<rparr>"

definition cpu_sysret :: "regs64 \<Rightarrow> cpu64 \<Rightarrow> regs64" where
  "cpu_sysret r c = r\<lparr>rip64 := rcx64 r, rflags64 := (r11_64 r AND 0x3C7FD7) OR 2,
     cs64 := (ucast (drop_bit 48 (msr64 c STAR)) + 16) OR 3, ss64 := (ucast (drop_bit 48 (msr64 c STAR)) + 8) OR 3\<rparr>"

definition swapgs :: "cpu64 \<Rightarrow> cpu64" where
  "swapgs c = c\<lparr>msr64 := (msr64 c)(GS_BASE := msr64 c KERNEL_GS_BASE, KERNEL_GS_BASE := msr64 c GS_BASE)\<rparr>"

text \<open>Up to the call of the dispatcher: the registers then, with the stack pointer before the frame is pushed.\<close>

definition syscall_enter64 :: "regs64 \<Rightarrow> cpu64 \<Rightarrow> regs64 \<times> cpu64" where
  "syscall_enter64 r c =
     (let r1 = cpu_syscall r c; c1 = swapgs c; gs = msr64 c1 GS_BASE;
          c2 = c1\<lparr>qword64 := (qword64 c1)(gs + 8 := rsp64 r1)\<rparr>
      in (r1\<lparr>rsp64 := qword64 c2 gs\<rparr>, c2))"

text \<open>
  The nine pushes, the last one first: this is the stack from its lowest address upwards, with the frame of \<open>struct syscall_frame\<close>
  in its first seven quadwords.  The dispatcher gets a pointer to it and stores its result in the first.
\<close>

definition saved_frame64 :: "regs64 \<Rightarrow> u64 list" where
  "saved_frame64 r =
     fold (#) [r11_64 r, rcx64 r, r9_64 r, r8_64 r, r10_64 r, rdx64 r, rsi64 r, rdi64 r, rax64 r] []"

text \<open>A C function may leave anything in the registers that the calling convention does not make it preserve.\<close>

definition call_clobbers64 :: "regs64 \<Rightarrow> regs64 \<Rightarrow> regs64" where
  "call_clobbers64 junk r = r\<lparr>rax64 := rax64 junk, rdi64 := rdi64 junk, rsi64 := rsi64 junk, rdx64 := rdx64 junk,
     r10_64 := r10_64 junk, r8_64 := r8_64 junk, r9_64 := r9_64 junk, rcx64 := rcx64 junk, r11_64 := r11_64 junk\<rparr>"

text \<open>\<open>pop %rax\<close>, \<open>add $48, %rsp\<close>, \<open>pop %rcx\<close>, \<open>pop %r11\<close>.\<close>

definition restore64 :: "u64 list \<Rightarrow> regs64 \<Rightarrow> regs64" where
  "restore64 st r =
     (let r = r\<lparr>rax64 := hd st\<rparr>; st = drop (48 div 8) (tl st);
          r = r\<lparr>rcx64 := hd st\<rparr>; st = tl st
      in r\<lparr>r11_64 := hd st\<rparr>)"

text \<open>
  What the program meets after SYSCALL: it goes on, or the kernel has left it for good.  \<open>junk\<close> is what the C code leaves in
  the registers.
\<close>

datatype resumed64 = Resumed regs64 cpu64 | Left_Ring3 cpu64 | Invalid_Opcode

definition syscall64 :: "regs64 \<Rightarrow> regs64 \<Rightarrow> cpu64 \<Rightarrow> resumed64" where
  "syscall64 junk r c =
     (if \<not> bit (msr64 c EFER) 0 then Invalid_Opcode
      else case syscall_enter64 r c of (r1, c1) \<Rightarrow>
        let st = saved_frame64 r1
        in (case syscall_dispatch64 (st ! 0) (st ! 1) c1 of
           None \<Rightarrow> Left_Ring3 c1
         | Some (rax, c2) \<Rightarrow>
             (let r2 = restore64 (st[0 := rax]) (call_clobbers64 junk r1);
                  r3 = r2\<lparr>rsp64 := qword64 c2 (msr64 c2 GS_BASE + 8)\<rparr>;
                  c3 = swapgs c2
              in Resumed (cpu_sysret r3 c3) c3)))"

lemma saved_frame64_regs: "saved_frame64 r ! 0 = rax64 r" "saved_frame64 r ! Suc 0 = rdi64 r"
  by (simp_all add: saved_frame64_def)

text \<open>RCX and R11 survive the call of the dispatcher on the stack, and its result arrives in RAX.\<close>

lemma restore64_saved:
  "restore64 ((saved_frame64 r)[0 := v]) (call_clobbers64 junk r) =
     (call_clobbers64 junk r)\<lparr>rax64 := v, rcx64 := rcx64 r, r11_64 := r11_64 r\<rparr>"
  by (simp add: restore64_def saved_frame64_def Let_def)

section \<open>The check of user strings\<close>

lemma string_scan64_iff:
  "string_scan64 c ptr i n \<longleftrightarrow>
     (\<exists>k<n. mem64 c (ptr + word_of_nat (i + k)) = 0 \<and> (\<forall>j\<le>k. ptr + word_of_nat (i + j) < user_range_end64 c))"
proof (induction c ptr i n rule: string_scan64.induct)
  case (2 c ptr i n)
  let ?stop = "user_range_end64 c" and ?a = "\<lambda>k. ptr + word_of_nat k"
  have shift: "(\<exists>k<Suc n. mem64 c (?a (i + k)) = 0 \<and> (\<forall>j\<le>k. ?a (i + j) < ?stop)) \<longleftrightarrow>
      ?a i < ?stop \<and> (mem64 c (?a i) = 0 \<or> (\<exists>k<n. mem64 c (?a (i + 1 + k)) = 0 \<and> (\<forall>j\<le>k. ?a (i + 1 + j) < ?stop)))"
    (is "?L \<longleftrightarrow> ?R")
  proof
    assume ?L
    then obtain k where k: "k < Suc n" "mem64 c (?a (i + k)) = 0" "\<forall>j\<le>k. ?a (i + j) < ?stop" by blast
    show ?R
    proof (cases k)
      case 0
      then show ?thesis using k by simp
    next
      case (Suc k')
      have "?a (i + 1 + j) < ?stop" if "j \<le> k'" for j using k(3) [rule_format, of "j + 1"] that Suc by simp
      moreover have "?a i < ?stop" using k(3) [rule_format, of 0] by simp
      ultimately show ?thesis using k(1,2) Suc by auto
    qed
  next
    assume r: ?R
    show ?L
    proof (cases "mem64 c (?a i) = 0")
      case True
      then show ?thesis using r by (intro exI [of _ 0]) simp
    next
      case False
      then obtain k where k: "k < n" "mem64 c (?a (i + 1 + k)) = 0" "\<forall>j\<le>k. ?a (i + 1 + j) < ?stop" using r by blast
      have "?a (i + j) < ?stop" if "j \<le> Suc k" for j using k(3) r that by (cases j) auto
      then show ?thesis using k by (intro exI [of _ "Suc k"]) simp
    qed
  qed
  show ?case unfolding shift using 2 by (cases "?stop \<le> ?a i") (auto simp: Let_def not_le)
qed simp

lemma takeWhile_upto:
  fixes P :: "'a \<Rightarrow> bool" and f :: "nat \<Rightarrow> 'a" and n :: nat
  defines "m \<equiv> length (takeWhile P (map f [0..<n]))"
  shows "m \<le> n" "j < m \<Longrightarrow> P (f j)" "m < n \<Longrightarrow> \<not> P (f m)"
proof -
  show m: "m \<le> n" unfolding m_def using length_takeWhile_le [of P "map f [0..<n]"] by simp
  show "P (f j)" if "j < m"
  proof -
    have "takeWhile P (map f [0..<n]) ! j = f j" using that m takeWhile_nth [of j P "map f [0..<n]"] by (simp add: m_def)
    moreover have "takeWhile P (map f [0..<n]) ! j \<in> set (takeWhile P (map f [0..<n]))" using that unfolding m_def by (rule nth_mem)
    ultimately show ?thesis by (metis set_takeWhileD)
  qed
  show "\<not> P (f m)" if "m < n" using nth_length_takeWhile [of P "map f [0..<n]"] that by (simp add: m_def)
qed

text \<open>Accepted pointers: a NUL within 256 bytes, and everything up to it inside the window.\<close>

lemma user_string_ok64_iff:
  "user_string_ok64 p 256 c \<longleftrightarrow> user_range_start64 c \<le> p \<and> length (c_string64 c p) < 256 \<and>
     (\<forall>j\<le>length (c_string64 c p). p + word_of_nat j < user_range_end64 c)"
proof -
  let ?m = "length (c_string64 c p)"
  note tw = takeWhile_upto [where P = "\<lambda>b. b \<noteq> 0" and f = "\<lambda>i. mem64 c (p + word_of_nat i)" and n = 256, folded c_string64_def]
  have scan: "string_scan64 c p 0 256 \<longleftrightarrow> ?m < 256 \<and> (\<forall>j\<le>?m. p + word_of_nat j < user_range_end64 c)" (is "?L \<longleftrightarrow> ?R")
  proof
    assume ?L
    then obtain k where k: "k < 256" "mem64 c (p + word_of_nat k) = 0" "\<forall>j\<le>k. p + word_of_nat j < user_range_end64 c"
      by (auto simp: string_scan64_iff)
    then have "\<not> k < ?m" using tw(2) by blast
    then show ?R using k by auto
  next
    assume r: ?R
    then have "mem64 c (p + word_of_nat ?m) = 0" using tw(3) by blast
    then show ?L using r by (auto simp: string_scan64_iff)
  qed
  have "p < user_range_end64 c" if "\<forall>j\<le>?m. p + word_of_nat j < user_range_end64 c" using that [rule_format, of 0] by simp
  then show ?thesis unfolding user_string_ok64_def scan by (auto simp: not_less)
qed

section \<open>A system call from ring 3 and back\<close>

text \<open>The machine is ready for SYSCALL.\<close>

definition armed64 :: "u64 \<Rightarrow> u64 \<Rightarrow> u64 \<Rightarrow> cpu64 \<Rightarrow> bool" where
  "armed64 cpu0 stack entry c \<longleftrightarrow>
     bit (msr64 c EFER) 0 \<and> msr64 c STAR = 0x0010000800000000 \<and> msr64 c LSTAR = entry \<and> msr64 c FMASK = 0x200 \<and>
     msr64 c KERNEL_GS_BASE = cpu0 \<and> qword64 c cpu0 = stack + 4096 \<and>
     code64 (descriptor64 (segs64 c) GDT_KERNEL_CODE64) \<and> dpl64 (descriptor64 (segs64 c) GDT_KERNEL_CODE64) = 0 \<and>
     writable_data64 (descriptor64 (segs64 c) GDT_KERNEL_DATA64) \<and> dpl64 (descriptor64 (segs64 c) GDT_KERNEL_DATA64) = 0 \<and>
     writable_data64 (descriptor64 (segs64 c) GDT_USER_DATA64) \<and> dpl64 (descriptor64 (segs64 c) GDT_USER_DATA64) = 3 \<and>
     code64 (descriptor64 (segs64 c) GDT_USER_CODE64) \<and> dpl64 (descriptor64 (segs64 c) GDT_USER_CODE64) = 3"

lemma halves: "(ucast (ucast (x AND 0xFFFFFFFF) :: u32) :: u64) OR push_bit 32 (ucast (ucast (drop_bit 32 x) :: u32)) = x"
  for x :: u64
proof (rule bit_word_eqI)
  fix n assume n: "n < LENGTH(64)"
  then show "bit ((ucast (ucast (x AND 0xFFFFFFFF) :: u32) :: u64) OR push_bit 32 (ucast (ucast (drop_bit 32 x) :: u32))) n = bit x n"
    by (cases "n < 32") (simp_all only: descriptor_bits, auto)
qed

lemma armed64_installed:
  fixes before :: cpu64 and sg :: segments64 and cpu stack entry tss_addr rsp_k gdt_addr :: u64
  defines "c \<equiv> syscall_install64 cpu stack entry (before\<lparr>segs64 := tss_install64 tss_addr rsp_k (gdt_install64 gdt_addr sg)\<rparr>)"
  shows "armed64 cpu stack entry c" "msr64 c GS_BASE = 0" "msr64 c EFER = msr64 before EFER OR 1"
proof -
  have star: "(ucast (ucast ((push_bit 48 0x10 OR push_bit 32 0x08 :: u64) AND 0xFFFFFFFF) :: u32) :: u64) OR
      push_bit 32 (ucast (ucast (drop_bit 32 (push_bit 48 0x10 OR push_bit 32 0x08 :: u64)) :: u32)) = 0x0010000800000000"
    unfolding halves by simp
  have efer: "(ucast (ucast x OR 1 :: u32) :: u64) OR push_bit 32 (ucast (ucast (drop_bit 32 x) :: u32)) = x OR 1" for x :: u64
  proof (rule bit_word_eqI)
    fix n assume n: "n < LENGTH(64)"
    then show "bit ((ucast (ucast x OR 1 :: u32) :: u64) OR push_bit 32 (ucast (ucast (drop_bit 32 x) :: u32))) n = bit (x OR 1) n"
      by (cases "n < 32") (simp_all only: descriptor_bits bit_1_iff, auto)
  qed
  have m: "msr64 c STAR = 0x0010000800000000" "msr64 c LSTAR = entry" "msr64 c FMASK = 0x200" "msr64 c KERNEL_GS_BASE = cpu"
    "msr64 c GS_BASE = 0" "msr64 c EFER = msr64 before EFER OR 1"
    by (simp_all only: c_def syscall_install64_def wrmsr_def Let_def cpu64.select_convs cpu64.update_convs) (simp_all add: halves star efer)
  have "qword64 c cpu = stack + 4096" "segs64 c = tss_install64 tss_addr rsp_k (gdt_install64 gdt_addr sg)"
    by (simp_all add: c_def syscall_install64_def wrmsr_def Let_def)
  then show "armed64 cpu stack entry c" using m segments64_installed [of tss_addr rsp_k gdt_addr sg]
    by (simp add: armed64_def bit_or_iff)
  show "msr64 c GS_BASE = 0" "msr64 c EFER = msr64 before EFER OR 1" by (fact m)+
qed

lemma word_plus_8_neq: "(x :: u64) + 8 \<noteq> x"
  by simp

text \<open>Inside the kernel: ring 0 selectors, interrupts off, on the kernel's own stack, GS exchanged, the user's stack pointer parked.\<close>

lemma syscall_enter64_armed:
  assumes "armed64 cpu0 stack entry c"
  shows "syscall_enter64 r c =
    (r\<lparr>rcx64 := rip64 r, r11_64 := rflags64 r, rip64 := entry, rflags64 := rflags64 r AND NOT 0x200,
       cs64 := GDT_KERNEL_CODE64, ss64 := GDT_KERNEL_DATA64, rsp64 := stack + 4096\<rparr>,
     c\<lparr>msr64 := (msr64 c)(GS_BASE := cpu0, KERNEL_GS_BASE := msr64 c GS_BASE),
       qword64 := (qword64 c)(cpu0 + 8 := rsp64 r)\<rparr>)"
proof -
  have "ucast (drop_bit 32 (0x0010000800000000 :: u64)) AND 0xFFFC = (8 :: u16)" "ucast (drop_bit 32 (0x0010000800000000 :: u64)) + 8 = (0x10 :: u16)"
    by simp_all
  then show ?thesis using assms
    by (simp add: armed64_def syscall_enter64_def cpu_syscall_def swapgs_def Let_def GDT_KERNEL_CODE64_def GDT_KERNEL_DATA64_def)
qed

lemma dispatch64_frame:
  assumes "syscall_dispatch64 rax rdi c = Some (v, c')"
  shows "c' = c\<lparr>console64 := console64 c'\<rparr>"
  using assms by (auto simp: syscall_dispatch64_def put64_def split: if_splits)

text \<open>(C37) In the 64-bit port, the GDT, the TSS and \<open>syscall_install\<close> together make SYSCALL work: after them the machine is armed, with the
  other bits of EFER kept.  On an armed machine every call but SYS\_EXIT enters the kernel at its entry point, in ring 0, with interrupts off and on
  the kernel's own stack; it comes back to ring 3 behind the SYSCALL instruction with the program's stack pointer, its GS and its flags
  (those that SYSRET can set), on user selectors that name 64-bit code and writable data of privilege 3, with memory, tables and model specific
  registers unchanged, and armed for the next call.\<close>

theorem syscall_roundtrip64:
  fixes c c0 :: cpu64
  assumes "armed64 cpu0 stack entry c" "rax64 r \<noteq> SYS_EXIT64"
  shows "armed64 cpu1 stack1 entry1 (syscall_install64 cpu1 stack1 entry1
      (c0\<lparr>segs64 := tss_install64 tss_addr rsp0 (gdt_install64 gdt_addr s0)\<rparr>)) \<and>
    msr64 (syscall_install64 cpu1 stack1 entry1 c0) EFER = msr64 c0 EFER OR 1 \<and>
    (let r1 = fst (syscall_enter64 r c)
     in rip64 r1 = entry \<and> rsp64 r1 = stack + 4096 \<and> \<not> bit (rflags64 r1) 9 \<and>
        cs64 r1 = GDT_KERNEL_CODE64 \<and> ss64 r1 = GDT_KERNEL_DATA64) \<and>
    (\<exists>r' c' v. syscall64 junk r c = Resumed r' c' \<and>
       syscall_dispatch64 (rax64 r) (rdi64 r) (snd (syscall_enter64 r c)) = Some (v, swapgs c') \<and> rax64 r' = v \<and>
       rip64 r' = rip64 r \<and> rsp64 r' = rsp64 r \<and> rflags64 r' = (rflags64 r AND 0x3C7FD7) OR 2 \<and>
       cs64 r' = GDT_USER_CODE64 \<and> ss64 r' = GDT_USER_DATA64 \<and>
       code64 (descriptor64 (segs64 c') (cs64 r')) \<and> dpl64 (descriptor64 (segs64 c') (cs64 r')) = 3 \<and>
       writable_data64 (descriptor64 (segs64 c') (ss64 r')) \<and> dpl64 (descriptor64 (segs64 c') (ss64 r')) = 3 \<and>
       msr64 c' = msr64 c \<and> mem64 c' = mem64 c \<and> segs64 c' = segs64 c \<and> armed64 cpu0 stack entry c')"
proof -
  note A = assms(1) [unfolded armed64_def]
  note E = syscall_enter64_armed [OF assms(1), of r]
  let ?c1 = "snd (syscall_enter64 r c)"
  obtain v c2 where d: "syscall_dispatch64 (rax64 r) (rdi64 r) ?c1 = Some (v, c2)"
    using assms(2) by (cases "syscall_dispatch64 (rax64 r) (rdi64 r) ?c1") (auto simp: syscall_dispatch64_def split: if_splits)
  have c2: "c2 = ?c1\<lparr>console64 := console64 c2\<rparr>" by (rule dispatch64_frame [OF d])
  have f: "msr64 c2 = (msr64 c)(GS_BASE := cpu0, KERNEL_GS_BASE := msr64 c GS_BASE)" "qword64 c2 = (qword64 c)(cpu0 + 8 := rsp64 r)"
    "segs64 c2 = segs64 c" "mem64 c2 = mem64 c"
    by (subst c2, simp add: E)+
  let ?c3 = "swapgs c2"
  let ?r1 = "fst (syscall_enter64 r c)"
  let ?r2 = "(call_clobbers64 junk ?r1)\<lparr>rax64 := v, rcx64 := rcx64 ?r1, r11_64 := r11_64 ?r1, rsp64 := rsp64 r\<rparr>"
  have m: "msr64 ?c3 = msr64 c" using A by (auto simp: swapgs_def f fun_eq_iff)
  have g: "segs64 ?c3 = segs64 c" "mem64 ?c3 = mem64 c" "qword64 ?c3 = (qword64 c)(cpu0 + 8 := rsp64 r)" by (simp_all add: swapgs_def f)
  have sw: "swapgs ?c3 = c2" by (simp add: swapgs_def f fun_upd_twist fun_upd_idem)
  have run: "syscall64 junk r c = Resumed (cpu_sysret ?r2 ?c3) ?c3"
    using A d by (simp add: syscall64_def E f Let_def saved_frame64_regs restore64_saved)
  have star: "(ucast (drop_bit 48 (0x0010000800000000 :: u64)) + 16 :: u16) OR 3 = 0x23" "(ucast (drop_bit 48 (0x0010000800000000 :: u64)) + 8 :: u16) OR 3 = 0x1B"
    by simp_all
  have ret: "cpu_sysret ?r2 ?c3 = ?r2\<lparr>rip64 := rip64 r, rflags64 := (rflags64 r AND 0x3C7FD7) OR 2, cs64 := GDT_USER_CODE64, ss64 := GDT_USER_DATA64\<rparr>"
    using A star by (simp add: cpu_sysret_def call_clobbers64_def m E GDT_USER_CODE64_def GDT_USER_DATA64_def)
  have armed: "armed64 cpu0 stack entry ?c3" using A by (simp add: armed64_def m g)
  have efer: "msr64 (syscall_install64 cpu1 stack1 entry1 c0) EFER = msr64 c0 EFER OR 1"
    using armed64_installed(3) [where before = c0 and cpu = cpu1 and stack = stack1 and entry = entry1] by (simp add: syscall_install64_def wrmsr_def Let_def)
  have "\<not> bit (rflags64 r AND NOT 0x200) 9"
  proof -
    have "bit (0x200 :: u64) 9" by code_simp
    then show ?thesis by (simp add: bit_and_iff bit_not_iff)
  qed
  then have "let r1 = fst (syscall_enter64 r c)
     in rip64 r1 = entry \<and> rsp64 r1 = stack + 4096 \<and> \<not> bit (rflags64 r1) 9 \<and> cs64 r1 = GDT_KERNEL_CODE64 \<and> ss64 r1 = GDT_KERNEL_DATA64"
    by (simp add: E)
  then show ?thesis
    using armed64_installed(1) efer run d sw ret armed m g A by (intro conjI exI [of _ "cpu_sysret ?r2 ?c3"] exI [of _ ?c3] exI [of _ v]) simp_all
qed

definition blank_segments64 :: segments64 where
  "blank_segments64 = \<lparr>gdt64 = replicate 7 0, gdtr_limit64 = 0, gdtr_base64 = 0, data_selectors64 = [], tss64 = zero_tss64, task_reg64 = 0\<rparr>"

definition boot_cpu64 :: cpu64 where
  "boot_cpu64 = \<lparr>segs64 = tss_install64 0x10A000 0x200000 (gdt_install64 0x109000 blank_segments64),
     msr64 = (\<lambda>_. 0)(EFER := 0xD00), qword64 = \<lambda>_. 0, mem64 = \<lambda>_. 0, user_range_start64 = 0, user_range_end64 = 0, console64 = []\<rparr>"

definition example_cpu64 :: cpu64 where
  "example_cpu64 = syscall_install64 0x10B000 0x10C000 0x101000 boot_cpu64"

definition user_regs64 :: "u64 \<Rightarrow> regs64" where
  "user_regs64 number = \<lparr>rax64 = number, rdi64 = 0x100000, rsi64 = 0, rdx64 = 0, r10_64 = 0, r8_64 = 0, r9_64 = 0, rcx64 = 0, r11_64 = 0, rsp64 = 0x300FF0, rip64 = 0x120010, rflags64 = 0x202,
     cs64 = 0x23, ss64 = 0x1B\<rparr>"

lemma example_armed64: "armed64 0x10B000 0x10C000 0x101000 example_cpu64" "msr64 example_cpu64 GS_BASE = 0"
proof -
  have "boot_cpu64 = boot_cpu64\<lparr>segs64 := tss_install64 0x10A000 0x200000 (gdt_install64 0x109000 blank_segments64)\<rparr>"
    by (simp add: boot_cpu64_def)
  then show "armed64 0x10B000 0x10C000 0x101000 example_cpu64" "msr64 example_cpu64 GS_BASE = 0"
    unfolding example_cpu64_def by (metis armed64_installed(1), metis armed64_installed(2))
qed

theorem syscall_roundtrip64_witness:
  "\<exists>r' c'. syscall64 (user_regs64 7) (user_regs64 0) example_cpu64 = Resumed r' c' \<and> rip64 r' = 0x120010 \<and> rsp64 r' = 0x300FF0 \<and>
     cs64 r' = GDT_USER_CODE64 \<and> armed64 0x10B000 0x10C000 0x101000 c'"
proof -
  have n: "rax64 (user_regs64 0) \<noteq> SYS_EXIT64" by (simp add: user_regs64_def SYS_EXIT64_def)
  have u: "rip64 (user_regs64 0) = 0x120010" "rsp64 (user_regs64 0) = 0x300FF0" by (simp_all add: user_regs64_def)
  from syscall_roundtrip64 [OF example_armed64(1) n, where junk = "user_regs64 7"] show ?thesis
    unfolding u by blast
qed

text \<open>(C38) SYS\_EXIT of the 64-bit port leaves through \<open>usermode_return\<close> without a second SWAPGS.  The kernel goes on with GS and its
  shadow exchanged, and the next SYSCALL exchanges them again: it then works with the base 0 of ring 3, stores the
  program's stack pointer at address 8 and takes the kernel's stack pointer from address 0.\<close>

theorem sys_exit64_leaves_gs_swapped:
  assumes "armed64 cpu0 stack entry c" "msr64 c GS_BASE = 0" "rax64 r = SYS_EXIT64"
  shows "\<exists>c'. syscall64 junk r c = Left_Ring3 c' \<and> msr64 c' GS_BASE = cpu0 \<and> msr64 c' KERNEL_GS_BASE = 0 \<and>
    (\<forall>r2. rsp64 (fst (syscall_enter64 r2 c')) = qword64 c' 0 \<and> qword64 (snd (syscall_enter64 r2 c')) 8 = rsp64 r2)"
proof -
  let ?c = "snd (syscall_enter64 r c)"
  note E = syscall_enter64_armed [OF assms(1), of r]
  have "syscall64 junk r c = Left_Ring3 ?c"
    using assms(1,3) by (simp add: syscall64_def E saved_frame64_regs syscall_dispatch64_def SYS_EXIT64_def SYS_WRITE64_def armed64_def Let_def)
  moreover have "msr64 ?c GS_BASE = cpu0" "msr64 ?c KERNEL_GS_BASE = 0" using assms(2) by (simp_all add: E)
  ultimately show ?thesis
    by (intro exI [of _ ?c]) (simp add: syscall_enter64_def [of _ ?c] cpu_syscall_def swapgs_def Let_def)
qed

theorem sys_exit64_leaves_gs_swapped_witness:
  "\<exists>c'. syscall64 (user_regs64 7) (user_regs64 1) example_cpu64 = Left_Ring3 c' \<and> msr64 c' KERNEL_GS_BASE = 0 \<and>
     rsp64 (fst (syscall_enter64 (user_regs64 0) c')) = qword64 c' 0"
proof -
  have "rax64 (user_regs64 1) = SYS_EXIT64" by (simp add: user_regs64_def SYS_EXIT64_def)
  from sys_exit64_leaves_gs_swapped [OF example_armed64 this, of "user_regs64 7"] show ?thesis by blast
qed

end
