(* ===== verification/Usermode64.thy ===== *)
theory Usermode64
  imports Syscall64 Paging64Correct
begin

text \<open>
  Ring 3 in the 64-bit port, \<open>arthic64/kernel/usermode.c\<close>: the pages that \<open>usermode_init\<close> opens on top of the mapping of
  \<open>paging_init\<close>, and the entry.  The demonstration program itself is in \<open>UserProg\<close>.
\<close>

section \<open>Model\<close>

record system64 =
  vm64 :: paging64
  cpu_of64 :: cpu64
  user_stack_phys :: u64

definition USER_STACK_PAGES :: u64 where "USER_STACK_PAGES = 2"

text \<open>None: a loop of \<open>paging_make_user\<close> does not end.\<close>

definition usermode_init64 :: "u64 \<Rightarrow> u64 \<Rightarrow> system64 \<Rightarrow> system64 option" where
  "usermode_init64 text_start text_end m =
     (case pmm_alloc_frames64 USER_STACK_PAGES (frames64 (vm64 m)) of (stack, p) \<Rightarrow>
        let m1 = m\<lparr>vm64 := (vm64 m)\<lparr>frames64 := p\<rparr>, user_stack_phys := stack\<rparr>
        in if stack = 0
           then Some (m1\<lparr>cpu_of64 := put64 (ascii (''usermode: no memory for a user stack'' @ [CHR 0x0A])) (cpu_of64 m1)\<rparr>)
           else let top_of = stack + USER_STACK_PAGES * 4096;
                    s1 = clear_page64 (stack + 4096) (clear_page64 stack (vm64 m1))
                in Option.bind (paging_make_user64 text_start text_end False s1) (\<lambda>s2.
                     Option.bind (paging_make_user64 stack top_of True s2) (\<lambda>s3.
                       Some (m1\<lparr>vm64 := s3, cpu_of64 := syscall_set_user_range64 text_start top_of (cpu_of64 m1)\<rparr>))))"

text \<open>Where \<open>usermode_jump\<close> starts and with which stack pointer, if it does; \<open>rsp_now\<close> is the kernel's stack pointer.\<close>

definition usermode_run64 :: "u64 \<Rightarrow> u64 \<Rightarrow> system64 \<Rightarrow> (u64 \<times> u64) option \<times> system64" where
  "usermode_run64 user_program rsp_now m =
     (if user_stack_phys m = 0
      then (None, m\<lparr>cpu_of64 := put64 (ascii (''usermode: not initialised'' @ [CHR 0x0A])) (cpu_of64 m)\<rparr>)
      else (Some (user_program, user_stack_phys m + USER_STACK_PAGES * 4096 - 16),
            m\<lparr>cpu_of64 := (cpu_of64 m)\<lparr>segs64 := tss_set_kernel_stack64 (rsp_now - 256) (segs64 (cpu_of64 m))\<rparr>\<rparr>))"

section \<open>What ring 3 can reach\<close>

lemma alloc_pair64:
  assumes "pmm_ok64 p" "pmm_alloc_frames64 USER_STACK_PAGES p = (a, p')" "a \<noteq> 0"
  shows "\<exists>g. unat a = 4096 * g \<and> 0 < g \<and> g + 2 \<le> unat (total_frames64 p) \<and> g \<notin> frames_owned64 p \<and> Suc g \<notin> frames_owned64 p \<and>
       pmm_ok64 p' \<and> total_frames64 p' = total_frames64 p \<and> frames_owned64 p \<subseteq> frames_owned64 p'"
proof -
  have u: "USER_STACK_PAGES \<noteq> 0" "unat USER_STACK_PAGES = 2" by (simp_all add: USER_STACK_PAGES_def)
  obtain g where g: "unat a = 4096 * g \<and> 0 < g \<and> g + 2 \<le> unat (total_frames64 p) \<and> (\<forall>x. g \<le> x \<and> x < g + 2 \<longrightarrow> x \<notin> frames_owned64 p) \<and>
       pmm_ok64 p' \<and> total_frames64 p' = total_frames64 p \<and> frames_owned64 p \<subseteq> frames_owned64 p'"
    using alloc_run64(2) [OF assms(1,2) u(1) assms(3)] unfolding u(2) by blast
  then have "g \<notin> frames_owned64 p" "Suc g \<notin> frames_owned64 p" by auto
  then show ?thesis using g by blast
qed

lemma clear_unowned64:
  assumes "wf64 s" "is_page a" "unat a div 4096 \<notin> frames_owned64 (frames64 s)"
  shows "wf64 (clear_page64 a s)" "entry_of (clear_page64 a s) = entry_of s"
proof -
  let ?s = "clear_page64 a s"
  have slot: "slots64 ?s (slot64 t i) = slots64 s (slot64 t i)" if "table_of_path s q = Some t" "idx q" "length q \<le> 3" "i < 512" for q t i
  proof -
    have "t \<noteq> a" using tables_okD(3) [OF assms(1) that(1-3)] assms(3) by auto
    then show ?thesis using slot64_in_page [OF tables_okD(1) [OF assms(1) that(1-3)] assms(2) that(4)] by (simp add: clear_page64_def)
  qed
  have tab: "table_of_path ?s q = table_of_path s q" if "idx q" "length q \<le> 3" for q
    using that
  proof (induction q rule: rev_induct)
    case (snoc j q)
    then have q: "idx q" "j < 512" "length q \<le> 3" by (auto simp: idx_def)
    then show ?case using snoc.IH slot [of q _ j] by (cases "table_of_path s q") (simp_all add: table_at_snoc)
  qed (simp add: clear_page64_def)
  have fr: "frames64 ?s = frames64 s" by (simp add: clear_page64_def)
  have "tables_ok ?s" "paths_unique ?s" using assms(1) tab unfolding wf64_def tables_ok_def paths_unique_def fr by auto
  moreover have "upper_ok ?s" unfolding upper_ok_def
  proof (intro allI impI)
    fix q t i assume h: "idx q" "length q \<le> 2" "i < 512" "table_of_path ?s q = Some t" "bit (slots64 ?s (slot64 t i)) 0"
    have "table_of_path s q = Some t" using h tab [of q] by simp
    moreover from this have "slots64 ?s (slot64 t i) = slots64 s (slot64 t i)" using h by (intro slot [of q]) simp_all
    ultimately show "upper_entry (slots64 ?s (slot64 t i))" using assms(1) h unfolding wf64_def upper_ok_def by simp
  qed
  ultimately show "wf64 ?s" using assms(1) by (simp add: wf64_def fr)
  show "entry_of ?s = entry_of s"
  proof
    fix v show "entry_of ?s v = entry_of s v"
      using tab [of "path v"] slot [of "path v" _ "pt_index64 v"] by (cases "table_of_path s (path v)") (simp_all add: entry_of_def leaf_def)
  qed
qed

lemma wf64_frames:
  assumes "wf64 s" "pmm_ok64 p" "total_frames64 p = total_frames64 (frames64 s)" "frames_owned64 (frames64 s) \<subseteq> frames_owned64 p"
  shows "wf64 (s\<lparr>frames64 := p\<rparr>)" "entry_of (s\<lparr>frames64 := p\<rparr>) = entry_of s"
proof -
  show "wf64 (s\<lparr>frames64 := p\<rparr>)" using assms unfolding wf64_def tables_ok_def paths_unique_def upper_ok_def by auto
  show "entry_of (s\<lparr>frames64 := p\<rparr>) = entry_of s" by (simp add: fun_eq_iff entry_of_def leaf_def split: option.split)
qed

lemma clear_page64_frames: "clear_page64 a (s\<lparr>frames64 := p\<rparr>) = (clear_page64 a s)\<lparr>frames64 := p\<rparr>"
  by (cases s) (simp add: clear_page64_def fun_eq_iff)

text \<open>The state in which \<open>usermode_init\<close> opens the pages: the stack is cleared, and the MMU sees what it saw.\<close>

lemma stack_ready64:
  assumes "wf64 s" "r_cr3_64 s = pml4 s" "pmm_alloc_frames64 USER_STACK_PAGES (frames64 s) = (a, p)" "a \<noteq> 0"
  defines "s1 \<equiv> clear_page64 (a + 4096) (clear_page64 a (s\<lparr>frames64 := p\<rparr>))"
  shows "wf64 s1" "r_cr3_64 s1 = pml4 s1" "mmu64 s1 = mmu64 s"
    "\<exists>g. a = pg g \<and> 0 < g \<and> g + 2 \<le> unat (total_frames64 (frames64 s)) \<and> g \<notin> frames_owned64 (frames64 s) \<and> Suc g \<notin> frames_owned64 (frames64 s)"
proof -
  have ok: "pmm_ok64 (frames64 s)" "unat (total_frames64 (frames64 s)) \<le> 2 ^ 40" using assms(1) by (simp_all add: wf64_def)
  obtain g where g: "unat a = 4096 * g" "0 < g" "g + 2 \<le> unat (total_frames64 (frames64 s))" "g \<notin> frames_owned64 (frames64 s)"
      "Suc g \<notin> frames_owned64 (frames64 s)" "pmm_ok64 p" "total_frames64 p = total_frames64 (frames64 s)"
      "frames_owned64 (frames64 s) \<subseteq> frames_owned64 p"
    using alloc_pair64 [OF ok(1) assms(3,4)] by blast
  have ag: "a = pg g" using g(1,3) ok(2) by (simp add: word_unat_eq_iff unat_pg)
  have pgs: "is_page a" "is_page (a + 4096)" unfolding ag pg_Suc using g(3) ok(2) by (auto intro: is_page_pg)
  have nr: "unat a div 4096 = g" "unat (a + 4096) div 4096 = Suc g" unfolding ag pg_Suc using g(3) ok(2) by (simp_all add: page_of_pg)
  let ?c = "clear_page64 (a + 4096) (clear_page64 a s)"
  have s1: "s1 = ?c\<lparr>frames64 := p\<rparr>" unfolding s1_def clear_page64_frames ..
  note c1 = clear_unowned64 [OF assms(1) pgs(1)]
  have f1: "frames64 (clear_page64 a s) = frames64 s" "frames64 ?c = frames64 s" by (simp_all add: clear_page64_def)
  have c2: "wf64 ?c" "entry_of ?c = entry_of s" using clear_unowned64 [OF _ pgs(2)] c1 g(4,5) nr by (simp_all add: f1)
  note c3 = wf64_frames [OF c2(1) g(6)]
  show wf: "wf64 s1" unfolding s1 using c3(1) g(7,8) f1 by simp
  show cr3: "r_cr3_64 s1 = pml4 s1" using assms(2) by (simp add: s1_def clear_page64_def)
  have "entry_of s1 = entry_of s" unfolding s1 using c3(2) g(7,8) f1 c2(2) by simp
  then show "mmu64 s1 = mmu64 s" by (simp add: fun_eq_iff mmu64_entry [OF wf cr3] mmu64_entry [OF assms(1,2)])
  show "\<exists>g. a = pg g \<and> 0 < g \<and> g + 2 \<le> unat (total_frames64 (frames64 s)) \<and> g \<notin> frames_owned64 (frames64 s) \<and> Suc g \<notin> frames_owned64 (frames64 s)"
    using ag g by blast
qed

text \<open>The pages that a range of addresses touches.\<close>

definition touches :: "u64 \<Rightarrow> u64 \<Rightarrow> u64 \<Rightarrow> bool" where
  "touches start stop v \<longleftrightarrow> unat start div 4096 \<le> unat v div 4096 \<and> 4096 * (unat v div 4096) < unat stop"

text \<open>All of memory, \<open>N\<close> frames and at most 1 GB, is mapped to itself, closed to ring 3 and either writable or executable; nothing else is mapped.\<close>

definition identity64 :: "nat \<Rightarrow> paging64 \<Rightarrow> bool" where
  "identity64 N s \<longleftrightarrow> wf64 s \<and> r_cr3_64 s = pml4 s \<and> N \<le> 2 ^ 18 \<and> unat (total_frames64 (frames64 s)) = N \<and>
     (\<forall>v. unat v < 2 ^ 47 \<longrightarrow> (if unat v < 4096 * N then \<exists>c. mmu64 s v = Some (pg (unat v div 4096), \<not> c, False, c) else mmu64 s v = None))"

lemma identity64D:
  assumes "identity64 N s"
  shows "unat v < 4096 * N \<Longrightarrow> \<exists>c. mmu64 s v = Some (pg (unat v div 4096), \<not> c, False, c)"
    "unat v < 2 ^ 47 \<Longrightarrow> mmu64 s v = Some (f, w, u, x) \<Longrightarrow> \<not> (w \<and> x) \<and> \<not> u"
    "j < N \<Longrightarrow> mmu64 s (pg j) \<noteq> None"
proof -
  have n: "N \<le> 2 ^ 18" and m: "\<And>v. unat v < 2 ^ 47 \<Longrightarrow>
      (if unat v < 4096 * N then \<exists>c. mmu64 s v = Some (pg (unat v div 4096), \<not> c, False, c) else mmu64 s v = None)"
    using assms unfolding identity64_def by blast+
  have low: "unat v < 4096 * N \<Longrightarrow> unat v < 2 ^ 47" for v :: u64 using n by simp
  show one: "\<exists>c. mmu64 s v = Some (pg (unat v div 4096), \<not> c, False, c)" if "unat v < 4096 * N" for v
    using m [OF low [OF that]] that by (simp only: if_True)
  show "\<not> (w \<and> x) \<and> \<not> u" if "unat v < 2 ^ 47" "mmu64 s v = Some (f, w, u, x)"
    using m [OF that(1)] that(2) by (auto split: if_splits)
  show "mmu64 s (pg j) \<noteq> None" if "j < N" using one [of "pg j"] that n by (auto simp: unat_pg)
qed

text \<open>Opening the code and then the stack, on a state with the mapping of \<open>s\<close>.\<close>

lemma open_code_and_stack64:
  assumes "identity64 N s" "wf64 s1" "r_cr3_64 s1 = pml4 s1" "mmu64 s1 = mmu64 s" "text_start \<le> text_end" "unat text_end \<le> 4096 * N" "g + 2 \<le> N"
  defines "stack \<equiv> pg g"
  shows "\<exists>s2 s3. paging_make_user64 text_start text_end False s1 = Some s2 \<and> paging_make_user64 stack (stack + 8192) True s2 = Some s3 \<and>
    (\<forall>v. unat v < 2 ^ 47 \<longrightarrow> mmu64 s3 v =
       (if touches stack (stack + 8192) v then Some (pg (unat v div 4096), True, True, False)
        else if touches text_start text_end v then Some (pg (unat v div 4096), False, True, True) else mmu64 s v))"
proof -
  have n: "N \<le> 2 ^ 18" using assms(1) by (simp add: identity64_def)
  have te47: "unat text_end \<le> 2 ^ 47" using assms(6) n by simp
  have m1: "mmu64 s1 (pg j) \<noteq> None" if "4096 * j < unat text_end" for j
    unfolding assms(4) using that assms(6) by (intro identity64D(3) [OF assms(1)]) simp
  obtain s2 where s2: "paging_make_user64 text_start text_end False s1 = Some s2" "wf64 s2" "r_cr3_64 s2 = pml4 s2"
      "\<And>v. unat v < 2 ^ 47 \<Longrightarrow> mmu64 s2 v = (if touches text_start text_end v then Some (fst (the (mmu64 s v)), False, True, True) else mmu64 s v)"
    using paging_make_user64_opens [OF assms(2,3,5) te47 m1, of False] unfolding assms(4) touches_def by auto
  have stop: "stack + 8192 = pg (g + 2)" by (simp add: stack_def pg_def)
  have u: "unat stack = 4096 * g" "unat (stack + 8192) = 4096 * (g + 2)" unfolding stop using assms(7) n by (simp_all add: stack_def unat_pg)
  have le: "stack \<le> stack + 8192" "unat (stack + 8192) \<le> 2 ^ 47" using u assms(7) n by (simp_all add: word_le_nat_alt)
  have m2: "mmu64 s2 (pg j) \<noteq> None" if "4096 * j < unat (stack + 8192)" for j
  proof -
    have j: "j < N" using that u(2) assms(7) by simp
    then have "unat (pg j) < 2 ^ 47" using n by (simp add: unat_pg)
    then show ?thesis using s2(4) [of "pg j"] identity64D(3) [OF assms(1) j] by auto
  qed
  obtain s3 where s3: "paging_make_user64 stack (stack + 8192) True s2 = Some s3"
      "\<And>v. unat v < 2 ^ 47 \<Longrightarrow> mmu64 s3 v = (if touches stack (stack + 8192) v then Some (fst (the (mmu64 s2 v)), True, True, False) else mmu64 s2 v)"
    using paging_make_user64_opens [OF s2(2,3) le m2, of True] unfolding touches_def by auto
  have own: "fst (the (mmu64 s v)) = pg (unat v div 4096)" if "touches stack (stack + 8192) v \<or> touches text_start text_end v" for v
  proof -
    have "4096 * (unat v div 4096) < 4096 * N" using that u(2) assms(6,7) by (auto simp: touches_def)
    then have "unat v < 4096 * N" by (simp add: div_less_iff_less_mult mult.commute)
    from identity64D(1) [OF assms(1) this] show ?thesis by auto
  qed
  have "mmu64 s3 v = (if touches stack (stack + 8192) v then Some (pg (unat v div 4096), True, True, False)
      else if touches text_start text_end v then Some (pg (unat v div 4096), False, True, True) else mmu64 s v)" if v: "unat v < 2 ^ 47" for v
    using s3(2) [OF v] s2(4) [OF v] own [of v] by auto
  then show ?thesis using s2(1) s3(1) by blast
qed

lemma usermode_init64_isolates:
  assumes id: "identity64 N (vm64 m)" and code: "text_start \<le> text_end" "unat text_end \<le> 4096 * N"
  shows "\<exists>m'. usermode_init64 text_start text_end m = Some m' \<and>
    (user_stack_phys m' = 0 \<and> mmu64 (vm64 m') = mmu64 (vm64 m) \<or>
     user_stack_phys m' \<noteq> 0 \<and> unat (user_stack_phys m') div 4096 \<notin> frames_owned64 (frames64 (vm64 m)) \<and>
     Suc (unat (user_stack_phys m') div 4096) \<notin> frames_owned64 (frames64 (vm64 m)) \<and>
     user_range_start64 (cpu_of64 m') = text_start \<and> user_range_end64 (cpu_of64 m') = user_stack_phys m' + 8192 \<and>
     (\<forall>v. unat v < 2 ^ 47 \<longrightarrow> mmu64 (vm64 m') v =
       (if touches (user_stack_phys m') (user_stack_phys m' + 8192) v then Some (pg (unat v div 4096), True, True, False)
        else if touches text_start text_end v then Some (pg (unat v div 4096), False, True, True)
        else mmu64 (vm64 m) v))) \<and>
    (\<forall>v f w u x. unat v < 2 ^ 47 \<longrightarrow> mmu64 (vm64 m') v = Some (f, w, u, x) \<longrightarrow> \<not> (w \<and> x) \<and>
       (u \<longrightarrow> touches text_start text_end v \<or> touches (user_stack_phys m') (user_stack_phys m' + 8192) v))"
proof -
  let ?s = "vm64 m"
  have wf: "wf64 ?s" "r_cr3_64 ?s = pml4 ?s" and n: "N \<le> 2 ^ 18" "unat (total_frames64 (frames64 ?s)) = N" using id by (simp_all add: identity64_def)
  note wx = identity64D(2) [OF id]
  obtain stack p where al: "pmm_alloc_frames64 USER_STACK_PAGES (frames64 ?s) = (stack, p)" by fastforce
  show ?thesis
  proof (cases "stack = 0")
    case True
    have "p = frames64 ?s" using alloc_run64(1) [OF _ al _ True] wf(1) by (simp add: wf64_def USER_STACK_PAGES_def)
    then have "\<exists>m'. usermode_init64 text_start text_end m = Some m' \<and> user_stack_phys m' = 0 \<and> vm64 m' = ?s"
      using True by (simp add: usermode_init64_def al Let_def)
    then obtain m' where m': "usermode_init64 text_start text_end m = Some m'" "user_stack_phys m' = 0" "vm64 m' = ?s" by blast
    have "\<forall>v f w u x. unat v < 2 ^ 47 \<longrightarrow> mmu64 (vm64 m') v = Some (f, w, u, x) \<longrightarrow> \<not> (w \<and> x) \<and>
       (u \<longrightarrow> touches text_start text_end v \<or> touches (user_stack_phys m') (user_stack_phys m' + 8192) v)" unfolding m'(3) using wx by blast
    moreover have "mmu64 (vm64 m') = mmu64 ?s" unfolding m'(3) ..
    ultimately show ?thesis using m'(1,2) by blast
  next
    case False
    note R = stack_ready64 [OF wf al False]
    obtain g where g: "stack = pg g" "g + 2 \<le> N" "g \<notin> frames_owned64 (frames64 ?s)" "Suc g \<notin> frames_owned64 (frames64 ?s)"
      using R(4) n(2) by auto
    obtain s2 s3 where run: "paging_make_user64 text_start text_end False (clear_page64 (stack + 4096) (clear_page64 stack (?s\<lparr>frames64 := p\<rparr>))) = Some s2"
        "paging_make_user64 stack (stack + 8192) True s2 = Some s3"
      and fin: "\<forall>v. unat v < 2 ^ 47 \<longrightarrow> mmu64 s3 v = (if touches stack (stack + 8192) v then Some (pg (unat v div 4096), True, True, False)
        else if touches text_start text_end v then Some (pg (unat v div 4096), False, True, True) else mmu64 ?s v)"
      using open_code_and_stack64 [OF id R(1-3) code g(2)] unfolding g(1) by blast
    have top_of: "stack + USER_STACK_PAGES * 4096 = stack + 8192" by (simp add: USER_STACK_PAGES_def)
    have init: "usermode_init64 text_start text_end m = Some (m\<lparr>vm64 := s3, user_stack_phys := stack,
        cpu_of64 := syscall_set_user_range64 text_start (stack + 8192) (cpu_of64 m)\<rparr>)"
      unfolding usermode_init64_def al prod.case Let_def top_of if_not_P [OF False] using run by simp
    have "unat stack div 4096 = g" using g(1,2) n(1) by (simp add: page_of_pg)
    then show ?thesis using False init fin wx g(3,4) by (simp add: syscall_set_user_range64_def) blast
  qed
qed

lemma paging_init64_identity:
  assumes "pmm_ok64 (frames64 s0)" "unat (total_frames64 (frames64 s0)) \<le> 2 ^ 18" "516 \<le> free_count64 (frames64 s0)"
    and "paging_init64 kernel_text_start kernel_rodata_end s0 = Some s"
  shows "identity64 (unat (total_frames64 (frames64 s0))) s" "unat (mapped_limit64 s) = 4096 * unat (total_frames64 (frames64 s0))"
proof -
  have "unat (total_frames64 (frames64 s0)) \<le> 2 ^ 40" using assms(2) by simp
  note walk = paging_init64_walk [OF assms(1) this assms(3), of kernel_text_start kernel_rodata_end]
  show lim: "unat (mapped_limit64 s) = 4096 * unat (total_frames64 (frames64 s0))" using walk assms(2,4) by (auto simp: Let_def)
  have "v < mapped_limit64 s \<longleftrightarrow> unat v < 4096 * unat (total_frames64 (frames64 s0))" for v unfolding word_less_nat_alt lim ..
  then show "identity64 (unat (total_frames64 (frames64 s0))) s" using walk assms(2,4) unfolding identity64_def by (auto simp: Let_def)
qed

text \<open>(C39) The 64-bit port on a machine of at most 1 GB: after \<open>paging_init\<close>, \<open>usermode_init\<close> returns, whatever the memory that is left.  Without
  two adjacent free frames it opens nothing.  Otherwise ring 3 reaches exactly the pages of its code, which it can execute and not
  write, and the two pages of its stack, which it can write and not execute; they are frames that nobody else had, and
  the window for system calls reaches from the code to the end of the stack.  No page of the whole machine can be both written
  and executed.\<close>

theorem ring3_isolation64:
  assumes "pmm_ok64 (frames64 s0)" "unat (total_frames64 (frames64 s0)) \<le> 2 ^ 18" "516 \<le> free_count64 (frames64 s0)"
    and init: "paging_init64 kernel_text_start kernel_rodata_end s0 = Some (vm64 m)"
    and code: "text_start \<le> text_end" "text_end \<le> mapped_limit64 (vm64 m)"
  shows "\<exists>m'. usermode_init64 text_start text_end m = Some m' \<and>
    (user_stack_phys m' = 0 \<and> mmu64 (vm64 m') = mmu64 (vm64 m) \<or>
     user_stack_phys m' \<noteq> 0 \<and> unat (user_stack_phys m') div 4096 \<notin> frames_owned64 (frames64 (vm64 m)) \<and>
     Suc (unat (user_stack_phys m') div 4096) \<notin> frames_owned64 (frames64 (vm64 m)) \<and>
     user_range_start64 (cpu_of64 m') = text_start \<and> user_range_end64 (cpu_of64 m') = user_stack_phys m' + 8192 \<and>
     (\<forall>v. unat v < 2 ^ 47 \<longrightarrow> mmu64 (vm64 m') v =
       (if touches (user_stack_phys m') (user_stack_phys m' + 8192) v then Some (pg (unat v div 4096), True, True, False)
        else if touches text_start text_end v then Some (pg (unat v div 4096), False, True, True)
        else mmu64 (vm64 m) v))) \<and>
    (\<forall>v f w u x. unat v < 2 ^ 47 \<longrightarrow> mmu64 (vm64 m') v = Some (f, w, u, x) \<longrightarrow> \<not> (w \<and> x) \<and>
       (u \<longrightarrow> touches text_start text_end v \<or> touches (user_stack_phys m') (user_stack_phys m' + 8192) v))"
proof -
  have "unat text_end \<le> 4096 * unat (total_frames64 (frames64 s0))"
    using code(2) paging_init64_identity(2) [OF assms(1-3) init] by (simp add: word_le_nat_alt)
  from usermode_init64_isolates [OF paging_init64_identity(1) [OF assms(1-3) init] code(1) this] show ?thesis .
qed

definition example_system64 :: "paging64 \<Rightarrow> system64" where
  "example_system64 s = \<lparr>vm64 = s, cpu_of64 = example_cpu64, user_stack_phys = 0\<rparr>"

theorem ring3_isolation64_witness:
  "\<exists>s m'. paging_init64 0x100000 0x107800 example_paging64 = Some s \<and> usermode_init64 0x110000 0x111800 (example_system64 s) = Some m' \<and>
     (\<forall>v f w u x. unat v < 2 ^ 47 \<longrightarrow> mmu64 (vm64 m') v = Some (f, w, u, x) \<longrightarrow> \<not> (w \<and> x) \<and>
       (u \<longrightarrow> touches 0x110000 0x111800 v \<or> touches (user_stack_phys m') (user_stack_phys m' + 8192) v))"
proof -
  have f: "frames64 example_paging64 = example_frames64" "total_frames64 example_frames64 = 2048"
    by (simp_all add: example_paging64_def example_frames64_def)
  have pre: "pmm_ok64 (frames64 example_paging64)" "unat (total_frames64 (frames64 example_paging64)) \<le> 2 ^ 18"
    "516 \<le> free_count64 (frames64 example_paging64)" using example_frames64_ok f by simp_all
  obtain s where s: "paging_init64 0x100000 0x107800 example_paging64 = Some s" "unat (mapped_limit64 s) = 0x800000"
    using paging_init64_walk [of example_paging64 "0x100000" "0x107800"] pre f by auto
  have init: "paging_init64 0x100000 0x107800 example_paging64 = Some (vm64 (example_system64 s))"
    using s(1) by (simp add: example_system64_def)
  have code: "(0x110000 :: u64) \<le> 0x111800" "0x111800 \<le> mapped_limit64 (vm64 (example_system64 s))"
    using s(2) by (simp_all add: example_system64_def word_le_nat_alt)
  show ?thesis using s(1) ring3_isolation64 [OF pre init code] by blast
qed

end
