(* ===== verification/Kheap64.thy ===== *)
theory Kheap64
  imports Kheap Pmm64
begin

text \<open>
  The kernel heap of the 64-bit port, \<open>arthic64/mm/kheap.c\<close>: the algorithm of \<open>Kheap\<close> with 64-bit sizes and pointers, payloads
  aligned to 16 and headers of 48 bytes.  The layers are those of \<open>Kheap\<close>: headers as a typed store, segment lists above them, and
  the same interface, the locale \<open>heap_provider\<close>, interpreted at this width.
\<close>

section \<open>State and operations\<close>

record block64 =
  bmagic64 :: u32
  bsize64 :: u64
  bfree64 :: u32
  bnext64 :: u64
  bprev64 :: u64

record kheap64 =
  heap_start64 :: u64
  heap_bytes64 :: u64
  hdr64 :: "u64 \<Rightarrow> block64"

definition HEAP_FRAMES64 :: u64 where
  "HEAP_FRAMES64 = 256"

definition HEAP_SIZE64 :: u64 where
  "HEAP_SIZE64 = HEAP_FRAMES64 * 4096"

definition ALIGNMENT64 :: u64 where
  "ALIGNMENT64 = 16"

definition ALIGN_UP64 :: "u64 \<Rightarrow> u64" where
  "ALIGN_UP64 n = (n + (ALIGNMENT64 - 1)) AND NOT (ALIGNMENT64 - 1)"

text \<open>\<open>sizeof(struct block)\<close>: the magic number and the flag are padded to eight bytes.\<close>

definition HEADER_SIZE64 :: u64 where
  "HEADER_SIZE64 = ALIGN_UP64 40"

definition payload_of64 :: "u64 \<Rightarrow> u64" where
  "payload_of64 b = b + HEADER_SIZE64"

definition header_of64 :: "u64 \<Rightarrow> u64" where
  "header_of64 payload = payload - HEADER_SIZE64"

text \<open>One assignment through a block pointer.\<close>

definition set_block64 :: "u64 \<Rightarrow> (block64 \<Rightarrow> block64) \<Rightarrow> kheap64 \<Rightarrow> kheap64" where
  "set_block64 b f h = h\<lparr>hdr64 := (hdr64 h)(b := f (hdr64 h b))\<rparr>"

definition kheap_init64 :: "pmm64 \<Rightarrow> kheap64 \<Rightarrow> kheap64 \<times> pmm64" where
  "kheap_init64 p h =
     (case pmm_alloc_frames64 HEAP_FRAMES64 p of (base, p') \<Rightarrow>
        if base = 0 then (h, p')
        else (set_block64 base
                (\<lambda>b. b\<lparr>bmagic64 := BLOCK_MAGIC, bsize64 := HEAP_SIZE64 - HEADER_SIZE64, bfree64 := 1,
                        bnext64 := 0, bprev64 := 0\<rparr>)
                (h\<lparr>heap_start64 := base, heap_bytes64 := HEAP_SIZE64\<rparr>), p'))"

definition split64 :: "u64 \<Rightarrow> u64 \<Rightarrow> kheap64 \<Rightarrow> kheap64" where
  "split64 b sz h =
     (if bsize64 (hdr64 h b) < sz + HEADER_SIZE64 + ALIGNMENT64 then h
      else
        let rest = payload_of64 b + sz;
            h1 = set_block64 rest
                   (\<lambda>r. r\<lparr>bmagic64 := BLOCK_MAGIC, bsize64 := bsize64 (hdr64 h b) - sz - HEADER_SIZE64,
                           bfree64 := 1, bnext64 := bnext64 (hdr64 h b), bprev64 := b\<rparr>) h;
            h2 = (if bnext64 (hdr64 h1 b) \<noteq> 0
                  then set_block64 (bnext64 (hdr64 h1 b)) (\<lambda>n. n\<lparr>bprev64 := rest\<rparr>) h1 else h1)
        in set_block64 b (\<lambda>x. x\<lparr>bnext64 := rest, bsize64 := sz\<rparr>) h2)"

text \<open>The walk of \<open>kmalloc\<close>: the first free block that is big enough, 0 at the end of the list.\<close>

partial_function (option) kmalloc_walk64 :: "(u64 \<Rightarrow> block64) \<Rightarrow> u64 \<Rightarrow> u64 \<Rightarrow> u64 option" where
  [code]: "kmalloc_walk64 H sz b =
     (if b = 0 then Some 0
      else if bfree64 (H b) \<noteq> 0 \<and> sz \<le> bsize64 (H b) then Some b
      else kmalloc_walk64 H sz (bnext64 (H b)))"

definition kmalloc64 :: "u64 \<Rightarrow> kheap64 \<Rightarrow> (u64 \<times> kheap64) option" where
  "kmalloc64 sz h =
     (if heap_start64 h = 0 \<or> sz = 0 then Some (0, h)
      else
        let sz = ALIGN_UP64 sz
        in case kmalloc_walk64 (hdr64 h) sz (heap_start64 h) of
             None \<Rightarrow> None
           | Some b \<Rightarrow>
               if b = 0 then Some (0, h)
               else Some (payload_of64 b, set_block64 b (\<lambda>x. x\<lparr>bfree64 := 0\<rparr>) (split64 b sz h)))"

definition merge_with_next64 :: "u64 \<Rightarrow> kheap64 \<Rightarrow> kheap64" where
  "merge_with_next64 b h =
     (let n = bnext64 (hdr64 h b)
      in if n = 0 \<or> bfree64 (hdr64 h n) = 0 \<or> bfree64 (hdr64 h b) = 0 then h
         else
           let h1 = set_block64 b (\<lambda>x. x\<lparr>bsize64 := bsize64 x + (HEADER_SIZE64 + bsize64 (hdr64 h n)),
                                        bnext64 := bnext64 (hdr64 h n)\<rparr>) h;
               h2 = (if bnext64 (hdr64 h1 n) \<noteq> 0
                     then set_block64 (bnext64 (hdr64 h1 n)) (\<lambda>x. x\<lparr>bprev64 := b\<rparr>) h1 else h1)
           in set_block64 n (\<lambda>x. x\<lparr>bmagic64 := 0\<rparr>) h2)"

definition kfree64 :: "u64 \<Rightarrow> kheap64 \<Rightarrow> kheap64" where
  "kfree64 ptr h =
     (if ptr = 0 then h
      else
        let b = header_of64 ptr
        in if bmagic64 (hdr64 h b) \<noteq> BLOCK_MAGIC then h
           else if bfree64 (hdr64 h b) \<noteq> 0 then h
           else
             let h1 = merge_with_next64 b (set_block64 b (\<lambda>x. x\<lparr>bfree64 := 1\<rparr>) h);
                 prv = bprev64 (hdr64 h1 b)
             in if prv \<noteq> 0 \<and> bfree64 (hdr64 h1 prv) \<noteq> 0 then merge_with_next64 prv h1 else h1)"

partial_function (option) stats_walk64 ::
  "(u64 \<Rightarrow> block64) \<Rightarrow> u64 \<Rightarrow> u64 \<Rightarrow> u64 \<Rightarrow> (u64 \<times> u64) option" where
  [code]: "stats_walk64 H b u n =
     (if b = 0 then Some (u, n)
      else stats_walk64 H (bnext64 (H b))
             (if bfree64 (H b) = 0 then u + (HEADER_SIZE64 + bsize64 (H b)) else u) (n + 1))"

definition kheap_stats64 :: "kheap64 \<Rightarrow> (u64 \<times> u64 \<times> u64) option" where
  "kheap_stats64 h =
     (case stats_walk64 (hdr64 h) (heap_start64 h) 0 0 of
        None \<Rightarrow> None
      | Some (u, n) \<Rightarrow> Some (heap_bytes64 h, u, n))"

section \<open>The abstract heap: a list of segments\<close>

definition span64 :: "seg list \<Rightarrow> nat" where
  "span64 ss = (\<Sum>s\<leftarrow>ss. 48 + fst s)"

lemma span_simps64 [simp]:
  "span64 [] = 0" "span64 (s # ss) = 48 + fst s + span64 ss" "span64 (xs @ ys) = span64 xs + span64 ys"
  by (simp_all add: span64_def)

definition seg_split64 :: "nat \<Rightarrow> nat \<Rightarrow> seg list" where
  "seg_split64 n m = (if m < n + 64 then [(m, False)] else [(n, False), (m - n - 48, True)])"

text \<open>First fit: the offset of the chosen header and the segments afterwards.\<close>

definition seg_alloc64 :: "nat \<Rightarrow> seg list \<Rightarrow> (nat \<times> seg list) option" where
  "seg_alloc64 n ss =
     (case dropWhile (\<lambda>s. \<not> seg_fits n s) ss of
        [] \<Rightarrow> None
      | s # ys \<Rightarrow>
          let xs = takeWhile (\<lambda>s. \<not> seg_fits n s) ss
          in Some (span64 xs, xs @ seg_split64 n (fst s) @ ys))"

fun seg_join64 :: "seg list \<Rightarrow> seg list" where
  "seg_join64 ((m, True) # (n, True) # ss) = (m + (48 + n), True) # ss"
| "seg_join64 ss = ss"

definition seg_free64 :: "seg list \<Rightarrow> nat \<Rightarrow> seg list \<Rightarrow> seg list" where
  "seg_free64 xs m ys =
     (let tail = seg_join64 ((m, True) # ys)
      in if xs \<noteq> [] \<and> snd (last xs) then butlast xs @ seg_join64 (last xs # tail) else xs @ tail)"

text \<open>
  The headers from address \<open>a\<close> describe the segments: magic, size, state, the link back to \<open>p\<close>
  and the link forward, which after the final segment is \<open>q\<close>.
\<close>

fun tiles64 :: "(u64 \<Rightarrow> block64) \<Rightarrow> u64 \<Rightarrow> nat \<Rightarrow> seg list \<Rightarrow> u64 \<Rightarrow> bool" where
  "tiles64 H p a [] q \<longleftrightarrow> True"
| "tiles64 H p a (s # ss) q \<longleftrightarrow>
     bmagic64 (H (word_of_nat a)) = BLOCK_MAGIC \<and>
     unat (bsize64 (H (word_of_nat a))) = fst s \<and>
     (bfree64 (H (word_of_nat a)) \<noteq> 0) = snd s \<and>
     bprev64 (H (word_of_nat a)) = p \<and>
     bnext64 (H (word_of_nat a)) = (if ss = [] then q else word_of_nat (a + (48 + fst s))) \<and>
     16 dvd fst s \<and>
     tiles64 H (word_of_nat a) (a + (48 + fst s)) ss q"

definition heap_rep64 :: "kheap64 \<Rightarrow> seg list \<Rightarrow> bool" where
  "heap_rep64 h ss \<longleftrightarrow>
     heap_start64 h \<noteq> 0 \<and> unat (heap_start64 h) mod 16 = 0 \<and> heap_bytes64 h = HEAP_SIZE64 \<and>
     unat (heap_start64 h) + 1048576 \<le> 18446744073709551616 \<and> span64 ss = 1048576 \<and>
     tiles64 (hdr64 h) 0 (unat (heap_start64 h)) ss 0"

lemma heap_consts64 [simp]:
  "HEADER_SIZE64 = 48" "HEAP_SIZE64 = 1048576" "HEAP_FRAMES64 = 256" "ALIGNMENT64 = 16"
  by (simp_all add: HEADER_SIZE64_def ALIGN_UP64_def ALIGNMENT64_def HEAP_SIZE64_def HEAP_FRAMES64_def)

section \<open>Segments and headers\<close>

lemma unat64_lt: "unat (x :: u64) < 18446744073709551616"
  using unat_lt2p [of x] by simp

lemma unat64_of_nat: "n < 18446744073709551616 \<Longrightarrow> unat (word_of_nat n :: u64) = n"
  by (rule unat_of_nat_small) simp

lemma unat64_plus: "unat x + unat y < 18446744073709551616 \<Longrightarrow> unat (x + y :: u64) = unat x + unat y"
  by (rule unat_plus_no_overflow) simp

lemma unat64_mult: "unat x * unat y < 18446744073709551616 \<Longrightarrow> unat (x * y :: u64) = unat x * unat y"
  by (rule unat_mult_no_overflow) simp

lemma addr_eq64 [simp]:
  "a < 18446744073709551616 \<Longrightarrow> b < 18446744073709551616 \<Longrightarrow> (word_of_nat a :: u64) = word_of_nat b \<longleftrightarrow> a = b"
  by (metis unat64_of_nat)

lemma addr_neq_064: "0 < a \<Longrightarrow> a < 18446744073709551616 \<Longrightarrow> (word_of_nat a :: u64) \<noteq> 0"
  by (metis unat64_of_nat unat_0 less_numeral_extra(3))

definition last_addr64 :: "u64 \<Rightarrow> nat \<Rightarrow> seg list \<Rightarrow> u64" where
  "last_addr64 p a xs = (if xs = [] then p else word_of_nat (a + span64 (butlast xs)))"

lemma last_addr_simps64 [simp]:
  "last_addr64 p a [] = p" "last_addr64 p a (xs @ [s]) = word_of_nat (a + span64 xs)"
  "last_addr64 p a (s # xs) = last_addr64 (word_of_nat a) (a + (48 + fst s)) xs"
  by (auto simp: last_addr64_def add_ac)

lemma tiles_append64:
  "tiles64 H p a (xs @ ys) q \<longleftrightarrow>
     tiles64 H p a xs (if ys = [] then q else word_of_nat (a + span64 xs)) \<and>
     tiles64 H (last_addr64 p a xs) (a + span64 xs) ys q"
proof (induction xs arbitrary: p a)
  case (Cons s xs)
  show ?case
    using Cons.IH [of "word_of_nat a" "a + (48 + fst s)"]
    by (cases "xs = []"; cases "ys = []") (simp_all add: add.assoc del: of_nat_add)
qed simp

lemma tiles_cong64:
  assumes "\<And>x. a \<le> x \<Longrightarrow> x < a + span64 ss \<Longrightarrow> H' (word_of_nat x) = H (word_of_nat x)"
  shows "tiles64 H' p a ss q = tiles64 H p a ss q"
  using assms
proof (induction ss arbitrary: p a)
  case (Cons s ss)
  have "tiles64 H' (word_of_nat a) (a + (48 + fst s)) ss q =
      tiles64 H (word_of_nat a) (a + (48 + fst s)) ss q"
    by (rule Cons.IH) (rule Cons.prems, auto)
  moreover have "H' (word_of_nat a) = H (word_of_nat a)" by (rule Cons.prems) auto
  ultimately show ?case by (simp del: of_nat_add)
qed simp

lemma tiles_upd64 [simp]:
  assumes "y < a \<or> a + span64 ss \<le> y" "y < 18446744073709551616" "a + span64 ss \<le> 18446744073709551616"
  shows "tiles64 (H(word_of_nat y := v)) p a ss q = tiles64 H p a ss q"
  by (rule tiles_cong64) (use assms in auto)

text \<open>\<open>if (n) n->prev = r\<close>, where \<open>n\<close> is the first header of a tiled tail.\<close>

definition link_prev64 :: "u64 \<Rightarrow> u64 \<Rightarrow> (u64 \<Rightarrow> block64) \<Rightarrow> (u64 \<Rightarrow> block64)" where
  "link_prev64 n r H = (if n \<noteq> 0 then H(n := (H n)\<lparr>bprev64 := r\<rparr>) else H)"

lemma tiles_link_prev64:
  assumes "tiles64 H p a ss 0" "0 < a" "a + span64 ss \<le> 18446744073709551616"
  shows "tiles64 (link_prev64 (if ss = [] then 0 else word_of_nat a) r H) r a ss 0"
proof (cases ss)
  case (Cons s ss')
  have "a < 18446744073709551616" using assms Cons by simp
  then show ?thesis
    using assms Cons by (auto simp: link_prev64_def addr_neq_064 simp del: of_nat_add)
qed simp

lemma link_prev_other64:
  assumes "x < a" "a \<le> 18446744073709551616" "ss \<noteq> [] \<Longrightarrow> a < 18446744073709551616"
  shows "link_prev64 (if ss = [] then 0 else word_of_nat a) r H (word_of_nat x) = H (word_of_nat x)"
  using assms by (auto simp: link_prev64_def)

lemma tiles_link_prev_other64:
  assumes "b + span64 xs \<le> a" "a + span64 ss \<le> 18446744073709551616"
  shows "tiles64 (link_prev64 (if ss = [] then 0 else word_of_nat a) r H) p b xs q = tiles64 H p b xs q"
proof (rule tiles_cong64)
  fix x
  assume x: "x < b + span64 xs"
  have "a < 18446744073709551616" if "ss \<noteq> []" using that assms(2) by (cases ss) auto
  then show "link_prev64 (if ss = [] then 0 else word_of_nat a) r H (word_of_nat x) = H (word_of_nat x)"
    using assms x by (intro link_prev_other64) auto
qed

lemma kmalloc_walk_spec64:
  assumes "tiles64 H p a ss 0" "0 < a" "a + span64 ss \<le> 18446744073709551616"
  shows "kmalloc_walk64 H n (if ss = [] then 0 else word_of_nat a) =
    Some (if dropWhile (\<lambda>s. \<not> seg_fits (unat n) s) ss = [] then 0
          else word_of_nat (a + span64 (takeWhile (\<lambda>s. \<not> seg_fits (unat n) s) ss)))"
  using assms
proof (induction ss arbitrary: p a)
  case Nil
  then show ?case by (simp add: kmalloc_walk64.simps)
next
  case (Cons s ss)
  have a: "(word_of_nat a :: u64) \<noteq> 0" using Cons.prems by (intro addr_neq_064) auto
  have fits: "(bfree64 (H (word_of_nat a)) \<noteq> 0 \<and> n \<le> bsize64 (H (word_of_nat a))) = seg_fits (unat n) s"
    using Cons.prems by (simp add: seg_fits_def word_le_nat_alt)
  show ?case
  proof (cases "seg_fits (unat n) s")
    case True
    then show ?thesis using a fits by (simp add: kmalloc_walk64.simps)
  next
    case False
    have nx: "bnext64 (H (word_of_nat a)) = (if ss = [] then 0 else word_of_nat (a + (48 + fst s)))"
      using Cons.prems(1) by simp
    have "kmalloc_walk64 H n (word_of_nat a) =
        kmalloc_walk64 H n (if ss = [] then 0 else word_of_nat (a + (48 + fst s)))"
      by (subst kmalloc_walk64.simps) (simp only: False a fits nx if_False)
    also have "\<dots> = Some (if dropWhile (\<lambda>s. \<not> seg_fits (unat n) s) ss = [] then 0
          else word_of_nat (a + (48 + fst s) + span64 (takeWhile (\<lambda>s. \<not> seg_fits (unat n) s) ss)))"
      using Cons.prems by (intro Cons.IH [of "word_of_nat a"]) auto
    finally show ?thesis using False by (simp add: add_ac del: of_nat_add)
  qed
qed

lemma tiles_replace64:
  assumes "tiles64 H p a (xs @ ys) q" "ys \<noteq> []" "ys' \<noteq> []"
    and "tiles64 H' (last_addr64 p a xs) (a + span64 xs) ys' q"
    and "\<And>x. x < a + span64 xs \<Longrightarrow> H' (word_of_nat x) = H (word_of_nat x)"
  shows "tiles64 H' p a (xs @ ys') q"
  using assms tiles_cong64 [of a xs H' H] by (simp add: tiles_append64 del: of_nat_add)

lemma block_fields_set64 [simp]:
  "b\<lparr>bmagic64 := m, bsize64 := n, bfree64 := f, bnext64 := x, bprev64 := y\<rparr> =
     \<lparr>bmagic64 = m, bsize64 = n, bfree64 = f, bnext64 = x, bprev64 = y\<rparr>" for b :: block64
  by (cases b) simp

lemma hdr_set_block64 [simp]:
  "hdr64 (set_block64 b f h) = (hdr64 h)(b := f (hdr64 h b))"
  "heap_start64 (set_block64 b f h) = heap_start64 h" "heap_bytes64 (set_block64 b f h) = heap_bytes64 h"
  by (simp_all add: set_block64_def)

lemma split_globals64 [simp]:
  "heap_start64 (split64 b n h) = heap_start64 h" "heap_bytes64 (split64 b n h) = heap_bytes64 h"
  by (simp_all add: split64_def Let_def)

lemma merge_globals64 [simp]:
  "heap_start64 (merge_with_next64 b h) = heap_start64 h" "heap_bytes64 (merge_with_next64 b h) = heap_bytes64 h"
  by (simp_all add: merge_with_next64_def Let_def)

lemma hdr_split64:
  assumes "\<not> bsize64 (hdr64 h b) < sz + 48 + 16" "b + 48 + sz \<noteq> b"
  shows "hdr64 (split64 b sz h) =
    (let H = link_prev64 (bnext64 (hdr64 h b)) (b + 48 + sz)
           ((hdr64 h)(b + 48 + sz := \<lparr>bmagic64 = BLOCK_MAGIC, bsize64 = bsize64 (hdr64 h b) - sz - 48,
              bfree64 = 1, bnext64 = bnext64 (hdr64 h b), bprev64 = b\<rparr>))
     in H(b := (H b)\<lparr>bnext64 := b + 48 + sz, bsize64 := sz\<rparr>))"
  using assms by (simp add: split64_def Let_def link_prev64_def payload_of64_def)

lemma split_tiles64:
  assumes t: "tiles64 (hdr64 h) p a ((m, True) # ys) 0" and "0 < a" "a + (48 + m + span64 ys) \<le> 18446744073709551616"
    and m: "m \<le> 1048576" and n: "unat sz \<le> m" "16 dvd unat sz"
  shows "tiles64 (hdr64 (set_block64 (word_of_nat a) (\<lambda>x. x\<lparr>bfree64 := 0\<rparr>) (split64 (word_of_nat a) sz h)))
           p a (seg_split64 (unat sz) m @ ys) 0"
    and "x < a \<Longrightarrow>
      hdr64 (set_block64 (word_of_nat a) (\<lambda>x. x\<lparr>bfree64 := 0\<rparr>) (split64 (word_of_nat a) sz h)) (word_of_nat x)
        = hdr64 h (word_of_nat x)"
proof -
  let ?b = "word_of_nat a :: u64" and ?T = "a + (48 + m)"
  have small: "(bsize64 (hdr64 h ?b) < sz + 48 + 16) = (m < unat sz + 64)"
  proof -
    have "unat (sz + 48 + 16) = unat sz + 64" using m n by (simp add: unat64_plus)
    then show ?thesis using t unfolding word_less_nat_alt by simp
  qed
  have nx: "bnext64 (hdr64 h ?b) = (if ys = [] then 0 else word_of_nat ?T)" using t by simp
  have "tiles64 (hdr64 (set_block64 ?b (\<lambda>x. x\<lparr>bfree64 := 0\<rparr>) (split64 ?b sz h))) p a (seg_split64 (unat sz) m @ ys) 0
    \<and> (x < a \<longrightarrow> hdr64 (set_block64 ?b (\<lambda>x. x\<lparr>bfree64 := 0\<rparr>) (split64 ?b sz h)) (word_of_nat x)
        = hdr64 h (word_of_nat x))"
  proof (cases "m < unat sz + 64")
    case True
    then show ?thesis
      using assms small by (simp add: split64_def seg_split64_def del: of_nat_add)
  next
    case False
    define r where "r = a + (48 + unat sz)"
    have r: "?b + 48 + sz = word_of_nat r" by (simp add: r_def add.assoc)
    have r_less: "a < r" "r + 64 \<le> ?T" "r < 18446744073709551616" using False assms(3) by (auto simp: r_def)
    have k8: "16 dvd m - unat sz - 48" using t n(2) False by (auto intro!: dvd_diff_nat)
    have k: "unat (bsize64 (hdr64 h ?b) - sz - 48) = m - unat sz - 48"
    proof -
      have "sz \<le> bsize64 (hdr64 h ?b)" using t n by (simp add: word_le_nat_alt)
      then have "unat (bsize64 (hdr64 h ?b) - sz) = m - unat sz" using t by (simp add: unat_minus_le)
      then show ?thesis using False by (simp add: unat_minus_le word_le_nat_alt)
    qed
    have addrs: "a + (48 + unat sz) = r" "r + (48 + (m - unat sz - 48)) = ?T"
      using False by (simp_all add: r_def)
    define H1 where "H1 = (hdr64 h)(word_of_nat r := \<lparr>bmagic64 = BLOCK_MAGIC,
        bsize64 = bsize64 (hdr64 h ?b) - sz - 48, bfree64 = 1, bnext64 = bnext64 (hdr64 h ?b), bprev64 = ?b\<rparr>)"
    define H2 where "H2 = link_prev64 (bnext64 (hdr64 h ?b)) (word_of_nat r) H1"
    define H3 where "H3 = H2(?b := (H2 ?b)\<lparr>bnext64 := word_of_nat r, bsize64 := sz, bfree64 := 0\<rparr>)"
    have H2: "H2 (word_of_nat y) = H1 (word_of_nat y)" if "y < ?T" for y
      unfolding H2_def nx by (rule link_prev_other64) (use that assms(3) in \<open>auto simp: neq_Nil_conv\<close>)
    have H3: "hdr64 (set_block64 ?b (\<lambda>x. x\<lparr>bfree64 := 0\<rparr>) (split64 ?b sz h)) = H3"
      using hdr_split64 [of h ?b sz] small False r_less unfolding r H3_def H2_def H1_def Let_def by simp
    have "tiles64 H1 ?b ?T ys 0" using t assms(3) r_less by (simp add: H1_def del: of_nat_add)
    then have "tiles64 H2 (word_of_nat r) ?T ys 0"
      unfolding H2_def nx using assms(3) by (intro tiles_link_prev64) auto
    then have "tiles64 H3 (word_of_nat r) ?T ys 0" using assms(3) by (simp add: H3_def del: of_nat_add)
    moreover have "H3 ?b = (hdr64 h ?b)\<lparr>bnext64 := word_of_nat r, bsize64 := sz, bfree64 := 0\<rparr>"
      using H2 [of a] r_less by (simp add: H3_def H1_def)
    moreover have "H3 (word_of_nat r) = H1 (word_of_nat r)"
      using H2 [of r] r_less by (simp add: H3_def)
    ultimately have "tiles64 H3 p a ((unat sz, False) # (m - unat sz - 48, True) # ys) 0"
      using t k k8 n(2) unfolding tiles64.simps fst_conv snd_conv addrs by (simp add: H1_def del: of_nat_add)
    moreover have "x < a \<longrightarrow> H3 (word_of_nat x) = hdr64 h (word_of_nat x)"
      using H2 [of x] r_less by (simp add: H3_def H1_def)
    ultimately show ?thesis unfolding H3 using False by (simp add: seg_split64_def)
  qed
  then show "tiles64 (hdr64 (set_block64 ?b (\<lambda>x. x\<lparr>bfree64 := 0\<rparr>) (split64 ?b sz h))) p a (seg_split64 (unat sz) m @ ys) 0"
    and "x < a \<Longrightarrow> hdr64 (set_block64 ?b (\<lambda>x. x\<lparr>bfree64 := 0\<rparr>) (split64 ?b sz h)) (word_of_nat x)
        = hdr64 h (word_of_nat x)" by simp_all
qed

lemma hdr_merge64:
  assumes "bnext64 (hdr64 h b) = n" "n \<noteq> 0" "bfree64 (hdr64 h n) \<noteq> 0" "bfree64 (hdr64 h b) \<noteq> 0" "n \<noteq> b"
  shows "hdr64 (merge_with_next64 b h) =
    (let H = link_prev64 (bnext64 (hdr64 h n)) b
           ((hdr64 h)(b := (hdr64 h b)\<lparr>bsize64 := bsize64 (hdr64 h b) + (48 + bsize64 (hdr64 h n)),
                                     bnext64 := bnext64 (hdr64 h n)\<rparr>))
     in H(n := (H n)\<lparr>bmagic64 := 0\<rparr>))"
  using assms by (simp add: merge_with_next64_def Let_def link_prev64_def)

lemma merge_tiles64:
  assumes t: "tiles64 (hdr64 h) p a (s # ys) 0" and "0 < a" "a + (48 + fst s + span64 ys) \<le> 18446744073709551616"
  shows "tiles64 (hdr64 (merge_with_next64 (word_of_nat a) h)) p a (seg_join64 (s # ys)) 0 \<and>
    (\<forall>x<a. hdr64 (merge_with_next64 (word_of_nat a) h) (word_of_nat x) = hdr64 h (word_of_nat x))"
proof (cases "snd s \<and> ys \<noteq> [] \<and> snd (hd ys)")
  case False
  then have "merge_with_next64 (word_of_nat a) h = h"
    using t by (cases ys) (auto simp: merge_with_next64_def Let_def simp del: of_nat_add)
  moreover have "seg_join64 (s # ys) = s # ys"
    using False by (cases "s # ys" rule: seg_join64.cases) auto
  ultimately show ?thesis using t by simp
next
  case True
  then obtain m n zs where s: "s = (m, True)" and ys: "ys = (n, True) # zs"
    by (cases s; cases ys) auto
  let ?b = "word_of_nat a :: u64" and ?T = "a + (48 + (m + (48 + n)))"
  define c where "c = a + (48 + m)"
  define H1 where "H1 = (hdr64 h)(?b := (hdr64 h ?b)\<lparr>
      bsize64 := bsize64 (hdr64 h ?b) + (48 + bsize64 (hdr64 h (word_of_nat c))),
      bnext64 := bnext64 (hdr64 h (word_of_nat c))\<rparr>)"
  define H2 where "H2 = link_prev64 (if zs = [] then 0 else word_of_nat ?T) ?b H1"
  define H3 where "H3 = H2(word_of_nat c := (H2 (word_of_nat c))\<lparr>bmagic64 := 0\<rparr>)"
  have bound: "a < c" "c + 48 + n = ?T" "?T + span64 zs \<le> 18446744073709551616" "c < 18446744073709551616"
    using assms(3) by (auto simp: c_def s ys)
  have tc: "bnext64 (hdr64 h ?b) = word_of_nat c" "bfree64 (hdr64 h ?b) \<noteq> 0"
    "unat (bsize64 (hdr64 h ?b)) = m" "unat (bsize64 (hdr64 h (word_of_nat c))) = n" "16 dvd m" "16 dvd n"
    "bfree64 (hdr64 h (word_of_nat c)) \<noteq> 0" "tiles64 (hdr64 h) (word_of_nat c) ?T zs 0"
    and nx: "bnext64 (hdr64 h (word_of_nat c)) = (if zs = [] then 0 else word_of_nat ?T)"
    using t unfolding s ys tiles64.simps fst_conv snd_conv c_def [symmetric] by (auto simp: c_def add_ac)
  have c0: "(word_of_nat c :: u64) \<noteq> 0" "(word_of_nat c :: u64) \<noteq> ?b"
    using addr_neq_064 [of c] addr_eq64 [of c a] bound(1,4) by (simp_all del: addr_eq64)
  have "hdr64 (merge_with_next64 ?b h) = H3"
    using tc nx c0 unfolding H3_def H2_def H1_def
    by (subst hdr_merge64 [where n = "word_of_nat c"]) (simp_all add: Let_def)
  moreover have H2: "H2 (word_of_nat y) = H1 (word_of_nat y)" if "y < ?T" for y
    unfolding H2_def by (rule link_prev_other64) (use that bound in \<open>auto simp: neq_Nil_conv\<close>)
  moreover have "tiles64 H1 (word_of_nat c) ?T zs 0"
    using tc bound by (simp add: H1_def del: of_nat_add)
  then have "tiles64 H2 ?b ?T zs 0" unfolding H2_def using bound by (intro tiles_link_prev64) auto
  then have "tiles64 H3 ?b ?T zs 0" using bound by (simp add: H3_def del: of_nat_add)
  moreover have "unat (bsize64 (hdr64 h ?b) + (48 + bsize64 (hdr64 h (word_of_nat c)))) = m + (48 + n)"
    using tc bound by (simp add: unat64_plus)
  ultimately show ?thesis
    using t tc nx bound c0 H2 [of a] unfolding s ys
    by (simp add: H3_def H1_def del: of_nat_add)
qed

text \<open>Allocation and release at the level of the headers.\<close>

lemma ALIGN_UP_nat64:
  assumes "n \<le> 0xFFFFFFFFFFFFFFF0"
  shows "unat (ALIGN_UP64 n) = (unat n + 15) div 16 * 16"
proof -
  have "(n + 15) AND NOT 15 = push_bit 4 (drop_bit 4 (n + 15))"
    using and_not_mask_shift [of "n + 15" 4] by (simp add: mask_eq_exp_minus_1)
  moreover have 1: "unat (n + 15) = unat n + 15" using assms by (simp add: word_le_nat_alt unat64_plus)
  moreover have "unat (drop_bit 4 (n + 15) * 2 ^ 4) = (unat n + 15) div 16 * 16"
  proof -
    have "unat (drop_bit 4 (n + 15)) = (unat n + 15) div 16"
      by (simp only: drop_bit_eq_div unat_div 1) simp
    moreover have "(unat n + 15) div 16 * 16 \<le> unat (n + 15)" using 1 by simp
    ultimately show ?thesis using unat64_lt [of "n + 15"] by (subst unat64_mult) simp_all
  qed
  ultimately show ?thesis by (simp add: ALIGN_UP64_def push_bit_eq_mult)
qed

lemma ALIGN_UP_dvd64: "16 dvd unat (ALIGN_UP64 n)"
proof -
  have "ALIGN_UP64 n = drop_bit 4 (n + 15) * 16"
    using and_not_mask_shift [of "n + 15" 4]
    by (simp add: mask_eq_exp_minus_1 ALIGN_UP64_def push_bit_eq_mult)
  then have "unat (ALIGN_UP64 n) = unat (drop_bit 4 (n + 15)) * 16 mod (16 * 1152921504606846976)"
    by (simp add: unat_word_ariths)
  then show ?thesis by (metis dvd_triv_left dvd_triv_right dvd_mod)
qed

lemma seg_alloc_SomeE64:
  assumes "seg_alloc64 n ss = Some (d, ss')"
  obtains xs m ys where "ss = xs @ (m, True) # ys" "\<forall>s\<in>set xs. \<not> seg_fits n s" "n \<le> m"
    "d = span64 xs" "ss' = xs @ seg_split64 n m @ ys"
proof -
  let ?P = "\<lambda>s. \<not> seg_fits n s"
  obtain s ys where d: "dropWhile ?P ss = s # ys"
    using assms by (auto simp: seg_alloc64_def split: list.splits)
  moreover have "\<not> ?P s" using d by (metis hd_dropWhile list.sel(1) list.discI)
  moreover have "ss = takeWhile ?P ss @ s # ys" using d takeWhile_dropWhile_id [of ?P ss] by simp
  ultimately show ?thesis
    using assms that [of "takeWhile ?P ss" "fst s" ys] set_takeWhileD [of _ ?P ss]
    by (cases s) (auto simp: seg_alloc64_def Let_def seg_fits_def)
qed

lemma seg_alloc_None64: "seg_alloc64 n ss = None \<longleftrightarrow> (\<forall>s\<in>set ss. \<not> seg_fits n s)"
  using dropWhile_eq_Nil_conv [of "\<lambda>s. \<not> seg_fits n s" ss]
  by (auto simp: seg_alloc64_def Let_def split: list.splits simp del: dropWhile_eq_Nil_conv)

lemma seg_split_ne64 [simp]: "seg_split64 n m \<noteq> []"
  by (simp add: seg_split64_def)

lemma span_seg_split64 [simp]: "n \<le> m \<Longrightarrow> span64 (seg_split64 n m) = 48 + m"
  by (simp add: seg_split64_def)

lemma heap_rep_nonempty64: "heap_rep64 h ss \<Longrightarrow> ss \<noteq> [] \<and> 0 < unat (heap_start64 h)"
  by (auto simp: heap_rep64_def unat_gt_0)

lemma kmalloc_rep64:
  assumes rep: "heap_rep64 h ss" and "sz \<noteq> 0"
  obtains (full) "seg_alloc64 (unat (ALIGN_UP64 sz)) ss = None" "kmalloc64 sz h = Some (0, h)"
  | (block64) d ss' h' where "seg_alloc64 (unat (ALIGN_UP64 sz)) ss = Some (d, ss')"
      "kmalloc64 sz h = Some (word_of_nat (unat (heap_start64 h) + d + 48), h')"
      "heap_rep64 h' ss'" "heap_start64 h' = heap_start64 h"
proof -
  let ?n = "ALIGN_UP64 sz" and ?a = "unat (heap_start64 h)"
  let ?P = "\<lambda>s. \<not> seg_fits (unat ?n) s"
  have ne: "ss \<noteq> []" "0 < ?a" using heap_rep_nonempty64 [OF rep] by auto
  have t: "tiles64 (hdr64 h) 0 ?a ss 0" "span64 ss = 1048576" "?a + 1048576 \<le> 18446744073709551616"
    using rep by (simp_all add: heap_rep64_def)
  have walk: "kmalloc_walk64 (hdr64 h) ?n (heap_start64 h) =
      Some (if dropWhile ?P ss = [] then 0 else word_of_nat (?a + span64 (takeWhile ?P ss)))"
    using kmalloc_walk_spec64 [OF t(1), of ?n] ne t by simp
  show thesis
  proof (cases "seg_alloc64 (unat ?n) ss")
    case None
    then have "dropWhile ?P ss = []" by (simp add: seg_alloc_None64 dropWhile_eq_Nil_conv)
    then show thesis using walk assms None full by (simp add: kmalloc64_def)
  next
    case (Some r)
    then obtain d ss' where r: "seg_alloc64 (unat ?n) ss = Some (d, ss')" by (cases r) auto
    then obtain xs m ys where s: "ss = xs @ (m, True) # ys" "\<forall>s\<in>set xs. ?P s" "unat ?n \<le> m"
      "d = span64 xs" "ss' = xs @ seg_split64 (unat ?n) m @ ys" by (rule seg_alloc_SomeE64)
    have "seg_fits (unat ?n) (m, True)" using s(3) by (simp add: seg_fits_def)
    then have dw: "dropWhile ?P ss \<noteq> []" "takeWhile ?P ss = xs"
      using s(1,2) by (auto simp: takeWhile_append2)
    define A where "A = ?a + span64 xs"
    have A: "0 < A" "A + (48 + m + span64 ys) \<le> 18446744073709551616" "m \<le> 1048576"
      using ne t by (simp_all add: A_def s(1))
    have b: "kmalloc_walk64 (hdr64 h) ?n (heap_start64 h) = Some (word_of_nat A)" "(word_of_nat A :: u64) \<noteq> 0"
      using walk dw A addr_neq_064 [of A] by (simp_all add: A_def del: of_nat_add)
    define h' where "h' = set_block64 (word_of_nat A) (\<lambda>x. x\<lparr>bfree64 := 0\<rparr>) (split64 (word_of_nat A) ?n h)"
    have "tiles64 (hdr64 h) (last_addr64 0 ?a xs) A ((m, True) # ys) 0"
      using t(1) unfolding s(1) A_def by (simp add: tiles_append64 del: of_nat_add)
    note sp = split_tiles64 [OF this A s(3) ALIGN_UP_dvd64, folded h'_def]
    have "tiles64 (hdr64 h') 0 ?a (xs @ seg_split64 (unat ?n) m @ ys) 0"
      by (rule tiles_replace64 [OF t(1) [unfolded s(1)] _ _ sp [unfolded A_def]]) (simp_all flip: A_def)
    then have "heap_rep64 h' ss'"
      using rep s by (simp add: heap_rep64_def h'_def)
    moreover have heap_start64: "heap_start64 h \<noteq> 0" and "?a + d + 48 = A + 48"
      using rep s(4) by (simp_all add: heap_rep64_def A_def)
    moreover have "kmalloc64 sz h = Some (word_of_nat (A + 48), h')"
      using assms(2) heap_start64 b s(4)
      by (simp add: kmalloc64_def payload_of64_def h'_def add.assoc flip: A_def)
    ultimately show thesis using r block64 by (simp add: h'_def del: of_nat_add)
  qed
qed

lemma seg_join_ne64 [simp]: "seg_join64 (s # ys) \<noteq> []"
  by (cases "s # ys" rule: seg_join64.cases) auto

lemma span_seg_join64 [simp]: "span64 (seg_join64 ss) = span64 ss"
  by (cases ss rule: seg_join64.cases) auto

lemma seg_free_span64: "span64 (seg_free64 xs m ys) = span64 xs + (48 + m + span64 ys)"
  by (cases xs rule: rev_cases) (simp_all add: seg_free64_def Let_def)

lemma kfree_eq64:
  assumes "ptr \<noteq> 0" "header_of64 ptr = b" "bmagic64 (hdr64 h b) = BLOCK_MAGIC" "bfree64 (hdr64 h b) = 0"
    "h1 = merge_with_next64 b (set_block64 b (\<lambda>x. x\<lparr>bfree64 := 1\<rparr>) h)"
  shows "kfree64 ptr h = (if bprev64 (hdr64 h1 b) \<noteq> 0 \<and> bfree64 (hdr64 h1 (bprev64 (hdr64 h1 b))) \<noteq> 0
    then merge_with_next64 (bprev64 (hdr64 h1 b)) h1 else h1)"
  using assms by (simp add: kfree64_def Let_def)

lemma kfree_globals64 [simp]:
  "heap_start64 (kfree64 ptr h) = heap_start64 h" "heap_bytes64 (kfree64 ptr h) = heap_bytes64 h"
  by (simp_all add: kfree64_def Let_def)

lemma seg_join_first64:
  "tiles64 H p a (seg_join64 (s # ys)) q \<Longrightarrow> bprev64 (H (word_of_nat a)) = p"
  by (cases "s # ys" rule: seg_join64.cases) auto

lemma release_tiles64:
  assumes "tiles64 (hdr64 h) p a ((m, False) # ys) 0" "0 < a" "a + (48 + m + span64 ys) \<le> 18446744073709551616"
  defines "h1 \<equiv> merge_with_next64 (word_of_nat a) (set_block64 (word_of_nat a) (\<lambda>x. x\<lparr>bfree64 := 1\<rparr>) h)"
  shows "tiles64 (hdr64 h1) p a (seg_join64 ((m, True) # ys)) 0"
    "x < a \<Longrightarrow> hdr64 h1 (word_of_nat x) = hdr64 h (word_of_nat x)"
proof -
  let ?h = "set_block64 (word_of_nat a) (\<lambda>x. x\<lparr>bfree64 := 1\<rparr>) h"
  have "tiles64 (hdr64 ?h) p a ((m, True) # ys) 0"
    using assms(1,2,3) by (simp del: of_nat_add)
  then have m: "tiles64 (hdr64 h1) p a (seg_join64 ((m, True) # ys)) 0 \<and>
      (\<forall>x<a. hdr64 h1 (word_of_nat x) = hdr64 ?h (word_of_nat x))"
    unfolding h1_def by (rule merge_tiles64) (use assms in simp_all)
  then show "tiles64 (hdr64 h1) p a (seg_join64 ((m, True) # ys)) 0" ..
  show "hdr64 h1 (word_of_nat x) = hdr64 h (word_of_nat x)" if "x < a"
    using m that assms(3) by simp
qed

lemma kfree_rep64:
  assumes rep: "heap_rep64 h (xs @ (m, False) # ys)"
    and ptr: "(word_of_nat (unat (heap_start64 h) + span64 xs + 48) :: u64) \<noteq> 0"
  shows "heap_rep64 (kfree64 (word_of_nat (unat (heap_start64 h) + span64 xs + 48)) h) (seg_free64 xs m ys)"
proof -
  let ?a = "unat (heap_start64 h)" and ?ptr = "word_of_nat (unat (heap_start64 h) + span64 xs + 48) :: u64"
  define A where "A = ?a + span64 xs"
  define h1 where "h1 = merge_with_next64 (word_of_nat A) (set_block64 (word_of_nat A) (\<lambda>x. x\<lparr>bfree64 := 1\<rparr>) h)"
  have t: "tiles64 (hdr64 h) 0 ?a (xs @ (m, False) # ys) 0" "span64 xs + (48 + m + span64 ys) = 1048576"
    "?a + 1048576 \<le> 18446744073709551616" "0 < ?a"
    using rep heap_rep_nonempty64 [OF rep] by (simp_all add: heap_rep64_def)
  have A: "0 < A" "A + (48 + m + span64 ys) \<le> 18446744073709551616" using t by (simp_all add: A_def)
  have tA: "tiles64 (hdr64 h) (last_addr64 0 ?a xs) A ((m, False) # ys) 0"
    using t(1) by (simp add: A_def tiles_append64 del: of_nat_add)
  note r = release_tiles64 [OF tA A, folded h1_def]
  have t1: "tiles64 (hdr64 h1) 0 ?a (xs @ seg_join64 ((m, True) # ys)) 0"
    by (rule tiles_replace64 [OF t(1) _ _ r [unfolded A_def]]) (simp_all flip: A_def)
  have prv: "bprev64 (hdr64 h1 (word_of_nat A)) = last_addr64 0 ?a xs" by (rule seg_join_first64 [OF r(1)])
  have "header_of64 ?ptr = word_of_nat A" by (simp add: header_of64_def A_def)
  note eq = kfree_eq64 [OF ptr this _ _ h1_def, unfolded prv]
  have bA: "bmagic64 (hdr64 h (word_of_nat A)) = BLOCK_MAGIC" "bfree64 (hdr64 h (word_of_nat A)) = 0"
    using tA by simp_all
  have "tiles64 (hdr64 (kfree64 ?ptr h)) 0 ?a (seg_free64 xs m ys) 0"
  proof (cases xs rule: rev_cases)
    case Nil
    then show ?thesis using eq [OF bA] t1 by (simp add: seg_free64_def Let_def)
  next
    case (snoc zs s)
    define P where "P = ?a + span64 zs"
    have P: "0 < P" "P < 18446744073709551616" "P + (48 + fst s + span64 (seg_join64 ((m, True) # ys))) \<le> 18446744073709551616"
      using t snoc by (simp_all add: P_def)
    have la: "last_addr64 0 ?a xs = word_of_nat P" "(word_of_nat P :: u64) \<noteq> 0"
      using snoc P addr_neq_064 by (simp_all add: P_def del: of_nat_add)
    have tP: "tiles64 (hdr64 h1) 0 ?a (zs @ s # seg_join64 ((m, True) # ys)) 0" using t1 snoc by simp
    then have tP': "tiles64 (hdr64 h1) (last_addr64 0 ?a zs) P (s # seg_join64 ((m, True) # ys)) 0"
      by (simp add: tiles_append64 P_def del: of_nat_add)
    then have fP: "(bfree64 (hdr64 h1 (word_of_nat P)) \<noteq> 0) = snd s" by simp
    show ?thesis
    proof (cases "snd s")
      case False
      then show ?thesis using eq [OF bA] t1 fP la snoc by (simp add: seg_free64_def Let_def)
    next
      case True
      then have "kfree64 ?ptr h = merge_with_next64 (word_of_nat P) h1" using eq [OF bA] fP la by simp
      moreover note mt = merge_tiles64 [OF tP' P(1,3)]
      have "tiles64 (hdr64 (merge_with_next64 (word_of_nat P) h1)) 0 ?a
          (zs @ seg_join64 (s # seg_join64 ((m, True) # ys))) 0"
        unfolding P_def
        by (rule tiles_replace64 [OF tP _ _ mt [THEN conjunct1, unfolded P_def]])
          (use mt in \<open>simp_all add: P_def del: of_nat_add\<close>)
      ultimately show ?thesis using True snoc by (simp add: seg_free64_def Let_def)
    qed
  qed
  then show ?thesis using rep t(2) by (simp add: heap_rep64_def seg_free_span64)
qed

lemma tiles_dvd64: "tiles64 H p a ss q \<Longrightarrow> 16 dvd span64 ss"
  by (induction ss arbitrary: p a) (auto intro!: dvd_add)

section \<open>Live blocks and coalescing\<close>

text \<open>The payloads in use: address and size of every segment that is not free.\<close>

fun live_segs64 :: "nat \<Rightarrow> seg list \<Rightarrow> (nat \<times> nat) list" where
  "live_segs64 a [] = []"
| "live_segs64 a (s # ss) = (if snd s then [] else [(a + 48, fst s)]) @ live_segs64 (a + (48 + fst s)) ss"

lemma live_segs_append64: "live_segs64 a (xs @ ys) = live_segs64 a xs @ live_segs64 (a + span64 xs) ys"
  by (induction xs arbitrary: a) (simp_all add: add.assoc)

lemma live_segs_range64: "(x, m) \<in> set (live_segs64 a ss) \<Longrightarrow> a + 48 \<le> x \<and> x + m \<le> a + span64 ss"
  by (induction ss arbitrary: a) (fastforce split: if_splits)+

lemma live_segs_seg_join64 [simp]: "live_segs64 a (seg_join64 ss) = live_segs64 a ss"
  by (cases ss rule: seg_join64.cases) (auto simp: add_ac)

lemma live_segs_seg_split64 [simp]:
  "n \<le> m \<Longrightarrow> \<exists>k. live_segs64 a (seg_split64 n m) = [(a + 48, k)] \<and> n \<le> k"
  by (simp add: seg_split64_def)

lemma live_segs_seg_free64:
  "set (live_segs64 a (seg_free64 xs m ys)) =
     set (live_segs64 a (xs @ (m, False) # ys)) - {(a + span64 xs + 48, m)}"
proof -
  have "set (live_segs64 a (seg_free64 xs m ys)) =
      set (live_segs64 a xs) \<union> set (live_segs64 (a + span64 xs + (48 + m)) ys)"
    by (cases xs rule: rev_cases) (auto simp: seg_free64_def Let_def live_segs_append64 add_ac)
  moreover have "(a + span64 xs + 48, m) \<notin> set (live_segs64 a xs)"
    "(a + span64 xs + 48, m) \<notin> set (live_segs64 (a + span64 xs + (48 + m)) ys)"
    using live_segs_range64 [of _ m] by fastforce+
  ultimately show ?thesis by (auto simp: live_segs_append64)
qed

lemma live_segs_obtain64:
  assumes "(x, m) \<in> set (live_segs64 a ss)"
  obtains xs ys where "ss = xs @ (m, False) # ys" "x = a + span64 xs + 48"
proof -
  have "\<exists>xs ys. ss = xs @ (m, False) # ys \<and> x = a + span64 xs + 48"
    using assms
  proof (induction ss arbitrary: a)
    case (Cons s ss)
    show ?case
    proof (cases "(x, m) \<in> set (live_segs64 (a + (48 + fst s)) ss)")
      case True
      then obtain xs ys where "ss = xs @ (m, False) # ys" "x = a + (48 + fst s) + span64 xs + 48"
        using Cons.IH by blast
      then show ?thesis by (intro exI [of _ "s # xs"] exI [of _ ys]) simp
    next
      case False
      then show ?thesis
        using Cons.prems by (intro exI [of _ "[]"] exI [of _ ss]) (cases s, auto split: if_splits)
    qed
  qed simp
  then show ?thesis using that by blast
qed

text \<open>Distinct live payloads never overlap: a header separates them.\<close>

lemma live_segs_disjoint64:
  assumes "(x, m) \<in> set (live_segs64 a ss)" "(y, n) \<in> set (live_segs64 a ss)" "(x, m) \<noteq> (y, n)"
  shows "x + m + 48 \<le> y \<or> y + n + 48 \<le> x"
proof -
  obtain xs ys where s: "ss = xs @ (m, False) # ys" "x = a + span64 xs + 48"
    using assms(1) by (rule live_segs_obtain64)
  have "(y, n) \<in> set (live_segs64 a xs) \<or> (y, n) \<in> set (live_segs64 (a + span64 xs + (48 + m)) ys)"
    using assms(2,3) by (auto simp: s live_segs_append64)
  then show ?thesis using live_segs_range64 [of y n] by (fastforce simp: s(2))
qed

lemma coalesced_seg_alloc64:
  assumes "seg_alloc64 n ss = Some (d, ss')" "coalesced ss"
  shows "coalesced ss'"
  using assms
  by (elim seg_alloc_SomeE64) (auto simp: coalesced_append coalesced_Cons seg_split64_def hd_append)

lemma coalesced_seg_join64:
  assumes "coalesced ys"
  shows "coalesced (seg_join64 ((m, True) # ys)) \<and> snd (hd (seg_join64 ((m, True) # ys)))"
  using assms by (cases "(m, True) # ys" rule: seg_join64.cases) (auto simp: coalesced_Cons)

lemma seg_join_absorb64:
  assumes "coalesced ss" "ss \<noteq> []" "snd (hd ss)" "snd s"
  shows "coalesced (seg_join64 (s # ss)) \<and> snd (hd (seg_join64 (s # ss)))"
  using assms by (cases "s # ss" rule: seg_join64.cases) (auto simp: coalesced_Cons)

lemma coalesced_seg_free64:
  assumes "coalesced (xs @ (m, False) # ys)"
  shows "coalesced (seg_free64 xs m ys)"
proof -
  have ys: "coalesced ys" using assms by (simp add: coalesced_append coalesced_Cons)
  note j = coalesced_seg_join64 [OF ys, of m]
  show ?thesis
  proof (cases xs rule: rev_cases)
    case Nil
    then show ?thesis using j by (simp add: seg_free64_def Let_def)
  next
    case (snoc zs s)
    then have zs: "coalesced zs" "zs = [] \<or> \<not> (snd (last zs) \<and> snd s)"
      using assms by (auto simp: coalesced_append)
    show ?thesis
    proof (cases "snd s")
      case True
      then show ?thesis
        using seg_join_absorb64 [of "seg_join64 ((m, True) # ys)" s] j zs snoc
        by (simp add: seg_free64_def Let_def coalesced_append)
    next
      case False
      then show ?thesis
        using j zs snoc by (auto simp: seg_free64_def Let_def coalesced_append coalesced_Cons)
    qed
  qed
qed

lemma seg_free_alloc64:
  assumes "coalesced (xs @ (m, True) # ys)" "n \<le> m"
  shows "seg_split64 n m = (k, False) # zs \<Longrightarrow> seg_free64 xs k (zs @ ys) = xs @ (m, True) # ys"
  using assms
  by (cases ys; cases xs rule: rev_cases)
    (auto simp: seg_free64_def seg_split64_def Let_def coalesced_append coalesced_Cons split: if_splits)

lemma tiles_unique64:
  assumes "tiles64 H p a ss q" "tiles64 H p' a ss' q'" "span64 ss = span64 ss'"
  shows "ss = ss'"
  using assms
proof (induction ss arbitrary: p p' a ss')
  case Nil
  then show ?case by (cases ss') auto
next
  case (Cons s ss)
  then obtain s' ss2 where s': "ss' = s' # ss2" by (cases ss') auto
  then have "s = s'" using Cons.prems by (auto simp: prod_eq_iff)
  then show ?case using Cons.prems s' Cons.IH [of "word_of_nat a" "a + (48 + fst s)" "word_of_nat a" ss2]
    by simp
qed

definition live64 :: "kheap64 \<Rightarrow> (nat \<times> nat) set" where
  "live64 h = {b. \<exists>ss. heap_rep64 h ss \<and> b \<in> set (live_segs64 (unat (heap_start64 h)) ss)}"

definition heap_ok64 :: "kheap64 \<Rightarrow> bool" where
  "heap_ok64 h \<longleftrightarrow> (\<exists>ss. heap_rep64 h ss \<and> coalesced ss)"

lemma heap_rep_unique64: "heap_rep64 h ss \<Longrightarrow> heap_rep64 h ss' \<Longrightarrow> ss = ss'"
  unfolding heap_rep64_def by (metis tiles_unique64)

lemma live_rep64: "heap_rep64 h ss \<Longrightarrow> live64 h = set (live_segs64 (unat (heap_start64 h)) ss)"
  using heap_rep_unique64 by (auto simp: live64_def)

lemma kmalloc_null64: "kmalloc64 0 h = Some (0, h)"
  by (simp add: kmalloc64_def)


lemma ALIGN_UP_ge64: "n \<le> 0xFFFFFFFFFFFFFFF0 \<Longrightarrow> unat n \<le> unat (ALIGN_UP64 n) \<and> unat (ALIGN_UP64 n) < unat n + 16"
  by (simp add: ALIGN_UP_nat64) linarith

lemma seg_alloc_live64:
  assumes "seg_alloc64 n ss = Some (d, ss')"
  obtains m where "n \<le> m" "set (live_segs64 a ss') = insert (a + d + 48, m) (set (live_segs64 a ss))"
    "d + (48 + m) \<le> span64 ss" "span64 ss' = span64 ss" "\<And>k. (a + d + 48, k) \<notin> set (live_segs64 a ss)"
proof -
  obtain xs m ys where s: "ss = xs @ (m, True) # ys" "\<forall>s\<in>set xs. \<not> seg_fits n s" "n \<le> m"
    "d = span64 xs" "ss' = xs @ seg_split64 n m @ ys" using assms by (rule seg_alloc_SomeE64)
  obtain k where k: "live_segs64 (a + span64 xs) (seg_split64 n m) = [(a + span64 xs + 48, k)]" "n \<le> k"
    using live_segs_seg_split64 [OF s(3)] by blast
  then have "k \<le> m" by (auto simp: seg_split64_def split: if_splits)
  moreover have "(a + d + 48, j) \<notin> set (live_segs64 a ss)" for j
    using live_segs_range64 [of "a + d + 48" j a xs] live_segs_range64 [of "a + d + 48" j "a + span64 xs + (48 + m)" ys]
    by (auto simp: s live_segs_append64)
  ultimately show ?thesis
    using k s by (intro that [of k]) (auto simp: live_segs_append64 add.assoc)
qed

lemma kmalloc_total64: "heap_ok64 h \<Longrightarrow> \<exists>p h'. kmalloc64 n h = Some (p, h') \<and> heap_ok64 h'"
proof (cases "n = 0")
  case False
  assume "heap_ok64 h"
  then obtain ss where ss: "heap_rep64 h ss" "coalesced ss" by (auto simp: heap_ok64_def)
  from ss(1) False show ?thesis
    by (cases rule: kmalloc_rep64) (use ss coalesced_seg_alloc64 in \<open>auto simp: heap_ok64_def\<close>)
qed (simp add: kmalloc_null64)

lemma kmalloc_cases64:
  assumes "heap_rep64 h ss" "n \<noteq> 0" "n \<le> 0xFFFFFFFFFFFFFFF0"
  obtains (full) "kmalloc64 n h = Some (0, h)" "\<forall>s\<in>set ss. \<not> seg_fits (unat (ALIGN_UP64 n)) s"
  | (block64) d m ss' p h' where "kmalloc64 n h = Some (p, h')" "p \<noteq> 0"
      "seg_alloc64 (unat (ALIGN_UP64 n)) ss = Some (d, ss')" "unat p = unat (heap_start64 h) + d + 48"
      "heap_rep64 h' ss'" "unat n \<le> m" "live64 h' = insert (unat p, m) (live64 h)" "16 dvd unat p"
      "\<forall>(x, k)\<in>live64 h. unat p + m \<le> x \<or> x + k \<le> unat p"
  using assms(1,2)
proof (cases rule: kmalloc_rep64)
  case full
  then show thesis using that(1) by (simp add: seg_alloc_None64)
next
  case (block64 d ss' h')
  let ?a = "unat (heap_start64 h)" and ?n = "unat (ALIGN_UP64 n)"
  obtain m where m: "?n \<le> m" "set (live_segs64 ?a ss') = insert (?a + d + 48, m) (set (live_segs64 ?a ss))"
    "d + (48 + m) \<le> span64 ss" "span64 ss' = span64 ss" "\<And>k. (?a + d + 48, k) \<notin> set (live_segs64 ?a ss)"
    using seg_alloc_live64 [OF block64(1), of ?a] by metis
  have n: "unat n \<le> ?n" "0 < unat n" using assms ALIGN_UP_ge64 [of n] by (auto simp: unat_gt_0)
  define p where "p = (word_of_nat (?a + d + 48) :: u64)"
  have p: "unat p = ?a + d + 48"
    using m n assms(1) unfolding p_def by (intro unat64_of_nat) (simp add: heap_rep64_def)
  have live: "live64 h' = insert (unat p, m) (live64 h)"
    using live_rep64 [OF assms(1)] live_rep64 [OF block64(3)] m p block64(4) by simp
  obtain xs k ys where s: "ss = xs @ (k, True) # ys" "d = span64 xs" using block64(1) by (rule seg_alloc_SomeE64)
  have "16 dvd span64 xs"
    using assms(1) unfolding heap_rep64_def s(1) tiles_append64 by (elim conjE) (rule tiles_dvd64)
  then have "16 dvd unat p" using assms(1) p s(2) by (auto simp: heap_rep64_def mod_eq_0_iff_dvd)
  moreover have "\<forall>(x, k)\<in>live64 h. unat p + m \<le> x \<or> x + k \<le> unat p"
  proof (clarify)
    fix x k
    assume x: "(x, k) \<in> live64 h" "\<not> x + k \<le> unat p"
    have "(x, k) \<in> set (live_segs64 ?a ss')" "(unat p, m) \<in> set (live_segs64 ?a ss')"
      using x(1) live live_rep64 [OF block64(3)] block64(4) by auto
    moreover have "(x, k) \<noteq> (unat p, m)" using x(1) m(5) [of m] p live_rep64 [OF assms(1)] by auto
    ultimately show "unat p + m \<le> x" using live_segs_disjoint64 x(2) by fastforce
  qed
  moreover have "p \<noteq> 0" using p by (auto simp flip: unat_gt_0)
  ultimately show thesis
    using that(2) [of p h' d ss' m] block64 p live m(1) n(1) by (simp add: p_def del: of_nat_add)
qed

lemma kfree_live64:
  assumes ok: "heap_ok64 h" and p: "(unat p, m) \<in> live64 h" "p \<noteq> 0"
  shows "heap_ok64 (kfree64 p h) \<and> live64 (kfree64 p h) = live64 h - {(unat p, m)}"
proof -
  let ?a = "unat (heap_start64 h)"
  obtain ss where ss: "heap_rep64 h ss" "coalesced ss" using ok by (auto simp: heap_ok64_def)
  have "(unat p, m) \<in> set (live_segs64 ?a ss)" using p(1) live_rep64 [OF ss(1)] by simp
  then obtain xs ys where s: "ss = xs @ (m, False) # ys" "unat p = ?a + span64 xs + 48"
    by (rule live_segs_obtain64)
  have p': "p = word_of_nat (?a + span64 xs + 48)" by (metis s(2) word_of_nat_unat)
  then have rep: "heap_rep64 (kfree64 p h) (seg_free64 xs m ys)"
    using ss(1) p(2) s(1) kfree_rep64 [of h xs m ys] by (simp del: of_nat_add)
  moreover have "coalesced (seg_free64 xs m ys)" using ss(2) s(1) coalesced_seg_free64 by simp
  ultimately show ?thesis
    using live_rep64 [OF rep] live_rep64 [OF ss(1)] s
    by (auto simp: heap_ok64_def live_segs_seg_free64)
qed

interpretation kheap_long: heap_provider kmalloc64 kfree64 live64 heap_ok64 "0xFFFFFFFFFFFFFFF0" 16
proof
  fix h n h'
  assume h: "heap_ok64 h" "n \<le> 0xFFFFFFFFFFFFFFF0" "kmalloc64 n h = Some (0, h')"
  then obtain ss where ss: "heap_rep64 h ss" by (auto simp: heap_ok64_def)
  show "h' = h"
  proof (cases "n = 0")
    case False
    from ss False h(2) show ?thesis by (cases rule: kmalloc_cases64) (use h in auto)
  qed (use h kmalloc_null64 in simp)
next
  fix h n p h'
  assume h: "heap_ok64 h" "n \<le> 0xFFFFFFFFFFFFFFF0" "kmalloc64 n h = Some (p, h')" "p \<noteq> 0"
  then obtain ss where ss: "heap_rep64 h ss" by (auto simp: heap_ok64_def)
  have "n \<noteq> 0" using h kmalloc_null64 by auto
  from ss this h(2) show "\<exists>m. unat n \<le> m \<and> live64 h' = insert (unat p, m) (live64 h) \<and> 16 dvd unat p \<and>
      (\<forall>(x, k)\<in>live64 h. unat p + m \<le> x \<or> x + k \<le> unat p)"
  proof (cases rule: kmalloc_cases64)
    case (block64 d m ss' p2 h2)
    then show ?thesis using h(3) by (intro exI [of _ m]) simp
  qed (use h in simp)
qed (use kmalloc_total64 kfree_live64 in \<open>auto simp: kfree64_def\<close>)

section \<open>Statistics and initialisation\<close>

lemma stats_walk_spec64:
  assumes "tiles64 H p a ss 0" "0 < a" "a + span64 ss \<le> 18446744073709551616"
  shows "stats_walk64 H (if ss = [] then 0 else word_of_nat a) u n =
    Some (u + word_of_nat (span64 (filter (\<lambda>s. \<not> snd s) ss)), n + word_of_nat (length ss))"
  using assms
proof (induction ss arbitrary: p a u n)
  case Nil
  then show ?case by (simp add: stats_walk64.simps)
next
  case (Cons s ss)
  let ?b = "word_of_nat a :: u64"
  let ?u = "if bfree64 (H ?b) = 0 then u + (HEADER_SIZE64 + bsize64 (H ?b)) else u"
  have b: "?b \<noteq> 0" using Cons.prems by (intro addr_neq_064) auto
  have nx: "bnext64 (H ?b) = (if ss = [] then 0 else word_of_nat (a + (48 + fst s)))"
    using Cons.prems(1) by simp
  have "stats_walk64 H ?b u n = stats_walk64 H (if ss = [] then 0 else word_of_nat (a + (48 + fst s))) ?u (n + 1)"
    by (subst stats_walk64.simps) (simp only: b nx if_False)
  also have "\<dots> = Some (?u + word_of_nat (span64 (filter (\<lambda>s. \<not> snd s) ss)), n + 1 + word_of_nat (length ss))"
    using Cons.prems by (intro Cons.IH [of ?b]) auto
  also have "?u = (if snd s then u else u + word_of_nat (48 + fst s))"
  proof -
    have "(bfree64 (H ?b) \<noteq> 0) = snd s" "unat (bsize64 (H ?b)) = fst s" using Cons.prems(1) by simp_all
    then show ?thesis by (auto simp flip: \<open>unat (bsize64 (H ?b)) = fst s\<close>)
  qed
  finally show ?case by (simp add: add_ac)
qed

lemma kheap_stats_rep64:
  assumes "heap_rep64 h ss"
  shows "kheap_stats64 h = Some (1048576, word_of_nat (span64 (filter (\<lambda>s. \<not> snd s) ss)), word_of_nat (length ss))"
proof -
  have "stats_walk64 (hdr64 h) (heap_start64 h) 0 0 =
      Some (word_of_nat (span64 (filter (\<lambda>s. \<not> snd s) ss)), word_of_nat (length ss))"
    using stats_walk_spec64 [of "hdr64 h" 0 "unat (heap_start64 h)" ss 0 0] heap_rep_nonempty64 [OF assms] assms
    by (simp add: heap_rep64_def)
  then show ?thesis using assms by (simp add: kheap_stats64_def heap_rep64_def)
qed

lemma kheap_init_rep64:
  assumes "pmm_ok64 p" "pmm_alloc_frames64 256 p = (base, p')" "base \<noteq> 0"
  shows "heap_rep64 (fst (kheap_init64 p h)) [(1048528, True)]" "heap_start64 (fst (kheap_init64 p h)) = base"
proof -
  have c: "(256 :: u64) \<noteq> 0" "unat (256 :: u64) = 256" by simp_all
  obtain g where g: "unat base = 4096 * g" "g + 256 \<le> unat (total_frames64 p)"
    using alloc_run64(2) [OF assms(1,2) c(1) assms(3)] unfolding c(2) by blast
  have "4096 * unat (total_frames64 p) \<le> 18446744073709551616" using assms(1) by (simp add: pmm_ok64_def pmm_inv64_def)
  then have "unat base + 1048576 \<le> 18446744073709551616" "unat base mod 16 = 0" using g by simp_all
  then show "heap_rep64 (fst (kheap_init64 p h)) [(1048528, True)]" "heap_start64 (fst (kheap_init64 p h)) = base"
    using assms by (simp_all add: kheap_init64_def heap_rep64_def)
qed

lemma kheap_boot64:
  assumes "pmm_ok64 p" "pmm_alloc_frames64 256 p = (base, p')" "base \<noteq> 0"
  shows "heap_ok64 (fst (kheap_init64 p h)) \<and> live64 (fst (kheap_init64 p h)) = {}"
  using live_rep64 [OF kheap_init_rep64(1) [OF assms, of h]] kheap_init_rep64(1) [OF assms, of h] by (auto simp: heap_ok64_def)

end
