(* ===== verification/Terminal64.thy ===== *)
theory Terminal64
  imports Terminal
begin

text \<open>
  Numbers and formats on the console of the 64-bit port, \<open>arthic64/drivers/terminal.c\<close>: numbers are 64 bits wide, and \<open>kprintf\<close> has the
  modifier \<open>l\<close>.  The rest of that file is the text of \<open>drivers/terminal.c\<close>; the screen is the one of \<open>Terminal\<close>, whose
  rows and columns stay far below the width of their type.
\<close>

section \<open>Model\<close>

text \<open>\<open>junk\<close> is what the 64 bytes of \<open>buf\<close> hold at first.\<close>

definition terminal_write_uint64 ::
  "'d ports \<Rightarrow> u8 list \<Rightarrow> u64 \<Rightarrow> u64 \<Rightarrow> 'd terminal \<Rightarrow> 'd terminal option" where
  "terminal_write_uint64 io junk v base t =
     (if v = 0 then Some (terminal_putchar io 0x30 t)
      else case digit_loop v base 0 junk of
             None \<Rightarrow> None
           | Some (i, buf) \<Rightarrow> Some (emit_back io i buf t))"

definition terminal_write_int64 :: "'d ports \<Rightarrow> u8 list \<Rightarrow> u64 \<Rightarrow> 'd terminal \<Rightarrow> 'd terminal option" where
  "terminal_write_int64 io junk v t =
     (if v <s 0 then terminal_write_uint64 io junk (- v) 10 (terminal_putchar io 0x2D t)
      else terminal_write_uint64 io junk v 10 t)"

text \<open>\<open>va n\<close> is the eight bytes of the \<open>n\<close>-th argument; without \<open>l\<close> the low half is read, and extended with its sign for \<open>%d\<close>.\<close>

definition arg_unsigned64 :: "bool \<Rightarrow> u64 \<Rightarrow> u64" where
  "arg_unsigned64 is_long v = (if is_long then v else ucast (ucast v :: u32))"

definition arg_signed64 :: "bool \<Rightarrow> u64 \<Rightarrow> u64" where
  "arg_signed64 is_long v = (if is_long then v else scast (ucast v :: u32))"

text \<open>The switch on the character behind the percent sign and the modifier: the next argument and the terminal.\<close>

definition directive64 ::
  "'d ports \<Rightarrow> (u64 \<Rightarrow> cstring) \<Rightarrow> u8 list \<Rightarrow> (nat \<Rightarrow> u64) \<Rightarrow> bool \<Rightarrow> u8 \<Rightarrow> nat \<Rightarrow> 'd terminal \<Rightarrow> (nat \<times> 'd terminal) option" where
  "directive64 io str_at junk va is_long d n t =
     (if d = 0x64 then map_option (Pair (n + 1)) (terminal_write_int64 io junk (arg_signed64 is_long (va n)) t)
      else if d = 0x75 then map_option (Pair (n + 1)) (terminal_write_uint64 io junk (arg_unsigned64 is_long (va n)) 10 t)
      else if d = 0x78 then map_option (Pair (n + 1)) (terminal_write_uint64 io junk (arg_unsigned64 is_long (va n)) 16 t)
      else if d = 0x73 then Some (n + 1, terminal_write io (str_at (va n)) t)
      else if d = 0x63 then Some (n + 1, terminal_putchar io (ucast (va n)) t)
      else if d = 0x25 then Some (n, terminal_putchar io 0x25 t)
      else Some (n, terminal_putchar io d (terminal_putchar io 0x25 t)))"

text \<open>The format ends with the percent sign or with the modifier: the index is put back, and the loop ends.\<close>

fun kprintf_loop64 ::
  "'d ports \<Rightarrow> (u64 \<Rightarrow> cstring) \<Rightarrow> u8 list \<Rightarrow> (nat \<Rightarrow> u64) \<Rightarrow> cstring \<Rightarrow> nat \<Rightarrow> 'd terminal \<Rightarrow> 'd terminal option" where
  "kprintf_loop64 io str_at junk va [] n t = Some t"
| "kprintf_loop64 io str_at junk va (c # cs) n t =
     (if c \<noteq> 0x25 then kprintf_loop64 io str_at junk va cs n (terminal_putchar io c t)
      else case cs of
        [] \<Rightarrow> Some t
      | d # ds \<Rightarrow>
          if d = 0x6C
          then (case ds of
                  [] \<Rightarrow> Some t
                | e # es \<Rightarrow> Option.bind (directive64 io str_at junk va True e n t) (\<lambda>(n', t'). kprintf_loop64 io str_at junk va es n' t'))
          else Option.bind (directive64 io str_at junk va False d n t) (\<lambda>(n', t'). kprintf_loop64 io str_at junk va ds n' t'))"

definition kprintf64 ::
  "'d ports \<Rightarrow> (u64 \<Rightarrow> cstring) \<Rightarrow> u8 list \<Rightarrow> (nat \<Rightarrow> u64) \<Rightarrow> cstring \<Rightarrow> 'd terminal \<Rightarrow> 'd terminal option" where
  "kprintf64 io str_at junk va fmt t =
     (case console_lock t of (flags, t1) \<Rightarrow>
        map_option (console_unlock flags) (kprintf_loop64 io str_at junk va fmt 0 t1))"

section \<open>The reference formatter\<close>

text \<open>Text of one directive and the arguments it takes.\<close>

definition directive_text :: "(u64 \<Rightarrow> cstring) \<Rightarrow> bool \<Rightarrow> u8 \<Rightarrow> u64 \<Rightarrow> u8 list \<times> nat" where
  "directive_text str_at is_long d v =
     (if d = 0x64 then (signed_text (if is_long then sint v else sint (ucast v :: u32)), 1)
      else if d = 0x75 then (radix 10 (if is_long then unat v else unat (ucast v :: u32)), 1)
      else if d = 0x78 then (radix 16 (if is_long then unat v else unat (ucast v :: u32)), 1)
      else if d = 0x73 then (str_at v, 1)
      else if d = 0x63 then ([ucast v], 1)
      else if d = 0x25 then ([0x25], 0)
      else ([0x25, d], 0))"

fun format64 :: "(u64 \<Rightarrow> cstring) \<Rightarrow> (nat \<Rightarrow> u64) \<Rightarrow> nat \<Rightarrow> cstring \<Rightarrow> u8 list" where
  "format64 str_at va n [] = []"
| "format64 str_at va n [c] = (if c = 0x25 then [] else [c])"
| "format64 str_at va n [c, d] =
     (if c \<noteq> 0x25 then c # format64 str_at va n [d] else if d = 0x6C then [] else fst (directive_text str_at False d (va n)))"
| "format64 str_at va n (c # d # e # es) =
     (if c \<noteq> 0x25 then c # format64 str_at va n (d # e # es)
      else if d = 0x6C
      then fst (directive_text str_at True e (va n)) @ format64 str_at va (n + snd (directive_text str_at True e (va n))) es
      else fst (directive_text str_at False d (va n)) @ format64 str_at va (n + snd (directive_text str_at False d (va n))) (e # es))"

lemma write_uint64_eq:
  assumes "base = 10 \<or> base = 16" "length junk = 64"
  shows "terminal_write_uint64 io junk v base t = Some (fold (terminal_putchar io) (radix (unat base) (unat v)) t)"
proof (cases "v = 0")
  case True
  moreover have "radix (unat base) 0 = [0x30]" using assms(1) by (subst radix.simps) auto
  ultimately show ?thesis by (simp add: terminal_write_uint64_def)
next
  case False
  have b: "2 \<le> unat base" using assms(1) by auto
  have "(2::nat) ^ 64 \<le> unat base ^ 64" using b by (rule power_mono) simp
  then have "unat v < unat base ^ 64" using unat_lt2p [of v] by simp
  from digit_loop_correct [OF b False _ this, of 0 junk] assms(2) obtain buf where
    "digit_loop v base 0 junk = Some (length (radix (unat base) (unat v)), buf)"
    "take (length (radix (unat base) (unat v))) buf = rev (radix (unat base) (unat v))"
    "length (radix (unat base) (unat v)) \<le> length buf" by auto
  then show ?thesis using False by (simp add: terminal_write_uint64_def emit_back_eq)
qed

lemma unat_of_int64: "0 \<le> k \<Longrightarrow> k < 2 ^ 64 \<Longrightarrow> unat (word_of_int k :: u64) = nat k"
  by (simp add: unsigned_of_int take_bit_int_eq_self)

lemma write_int64_eq:
  assumes "length junk = 64"
  shows "terminal_write_int64 io junk v t = Some (fold (terminal_putchar io) (signed_text (sint v)) t)"
proof (cases "v <s 0")
  case True
  then have neg: "sint v < 0" by (simp add: word_sless_alt)
  have "- v = word_of_int (- sint v)" by simp
  moreover have "- sint v < 2 ^ 64" "0 \<le> - sint v" using neg sint_greater_eq [of v] by simp_all
  ultimately have "unat (- v) = nat (- sint v)" using unat_of_int64 by metis
  then show ?thesis using True neg assms by (simp add: terminal_write_int64_def write_uint64_eq signed_text_def)
next
  case False
  then have nn: "0 \<le> sint v" by (simp add: word_sless_alt)
  have "v = word_of_int (sint v)" by simp
  moreover have "sint v < 2 ^ 64" using sint_less [of v] by simp
  ultimately have "nat (sint v) = unat v" using unat_of_int64 nn by metis
  then show ?thesis using False nn assms by (simp add: terminal_write_int64_def write_uint64_eq signed_text_def)
qed

lemma sint_scast_u32: "sint (scast (w :: u32) :: u64) = sint w"
  by (rule sint_up_scast) (simp add: is_up)

lemma unat_ucast_u32: "unat (ucast (w :: u32) :: u64) = unat w"
  using unat_lt2p [of w] by (simp add: unsigned_ucast_eq take_bit_nat_eq_self)

lemma directive64_eq:
  assumes "length junk = 64"
  shows "directive64 io str_at junk va l d n t =
    Some (n + snd (directive_text str_at l d (va n)), fold (terminal_putchar io) (fst (directive_text str_at l d (va n))) t)"
  using assms
  by (simp add: directive64_def directive_text_def write_int64_eq write_uint64_eq terminal_write_eq arg_unsigned64_def arg_signed64_def
      sint_scast_u32 unat_ucast_u32)

text \<open>\<open>kprintf\<close> of the port returns for every format and prints the text of the reference formatter.\<close>

lemma kprintf_loop64_eq:
  assumes "length junk = 64"
  shows "kprintf_loop64 io str_at junk va fmt n t = Some (fold (terminal_putchar io) (format64 str_at va n fmt) t)"
  using assms
  by (induction str_at va n fmt arbitrary: t rule: format64.induct) (simp_all add: directive64_eq)

theorem kprintf64_equiv:
  assumes "length junk = 64"
  shows "kprintf64 io str_at junk va fmt t = Some (fold (terminal_putchar io) (format64 str_at va 0 fmt) t)"
  using assms locked_section [of t io "format64 str_at va 0 fmt"]
  by (simp add: kprintf64_def kprintf_loop64_eq console_lock_def)

end
