(* ===== verification/Shell64.thy ===== *)
theory Shell64
  imports Usermode64 Kheap64 Terminal64 ShellCorrect
begin

text \<open>
  The command line of the 64-bit port, \<open>arthic64/kernel/shell.c\<close>, on the state of the port: memory and ring 3 (\<open>system64\<close>), the
  heap, the timer's counter, the line and the screen.  Console text is collected as in \<open>Shell\<close>.  The registers that
  \<open>regs\<close> reads with inline assembly and the addresses of the linker are the fields of \<open>env64\<close>.
\<close>

section \<open>State and output\<close>

record 'v shell64 =
  core64 :: system64
  kheap_of64 :: kheap64
  line_buffer64 :: "u8 list"
  buffer_length64 :: u64
  ticks64 :: u32
  screen64 :: "'v terminal"

record 'v env64 =
  vga_io64 :: "'v ports"
  a_text_start64 :: u64
  a_user_program64 :: u64
  a_probe_fault64 :: u64
  rsp_now64 :: u64
  cr0_now64 :: u64
  cr4_now64 :: u64

datatype 'k outcome64 = Returned64 'k | In_Ring3_64 "u64 \<times> u64" 'k

definition say64 :: "u8 list \<Rightarrow> 'v shell64 \<Rightarrow> 'v shell64" where
  "say64 t k = k\<lparr>core64 := (core64 k)\<lparr>cpu_of64 := put64 t (cpu_of64 (core64 k))\<rparr>\<rparr>"

datatype karg64 = Num64 u64 | Str64 cstring

definition karg_value64 :: "karg64 list \<Rightarrow> nat \<Rightarrow> u64" where
  "karg_value64 args n =
     (if n < length args then case args ! n of Num64 v \<Rightarrow> v | Str64 s \<Rightarrow> word_of_nat n else 0)"

definition karg_string64 :: "karg64 list \<Rightarrow> u64 \<Rightarrow> cstring" where
  "karg_string64 args a =
     (if unat a < length args then case args ! unat a of Num64 v \<Rightarrow> [] | Str64 s \<Rightarrow> s else [])"

text \<open>\<open>kprintf\<close>: the text of the reference formatter, a string argument being found by its position.\<close>

definition print64 :: "string \<Rightarrow> karg64 list \<Rightarrow> 'v shell64 \<Rightarrow> 'v shell64" where
  "print64 fmt args k = say64 (format64 (karg_string64 args) (karg_value64 args) 0 (ascii fmt)) k"

definition line64 :: "string \<Rightarrow> karg64 list \<Rightarrow> 'v shell64 \<Rightarrow> 'v shell64" where
  "line64 fmt args k = print64 (fmt @ [CHR 0x0A]) args k"

text \<open>An operation on the screen itself, after the text that is pending.\<close>

definition on_screen64 :: "'v ports \<Rightarrow> ('v terminal \<Rightarrow> 'v terminal) \<Rightarrow> 'v shell64 \<Rightarrow> 'v shell64" where
  "on_screen64 vio f k =
     k\<lparr>screen64 := f (terminal_write vio (console64 (cpu_of64 (core64 k))) (screen64 k)),
       core64 := (core64 k)\<lparr>cpu_of64 := (cpu_of64 (core64 k))\<lparr>console64 := []\<rparr>\<rparr>\<rparr>"

definition prompt64 :: "'v shell64 \<Rightarrow> 'v shell64" where
  "prompt64 k = print64 ''arthic> '' [] k"

section \<open>Commands\<close>

definition command_help64 :: "'v shell64 \<Rightarrow> 'v shell64" where
  "command_help64 k =
     fold (\<lambda>l. line64 l [])
       [''  help          this list'',
        ''  about         what this is'',
        ''  ticks         timer ticks since boot'',
        ''  mem           physical memory usage'',
        ''  heap          heap usage'',
        ''  heaptest      exercise kmalloc and kfree'',
        ''  wxtest        try to write to kernel code'',
        ''  user          drop to ring 3, use SYSCALL, come back'',
        ''  regs          show 64-bit CPU state'',
        ''  echo <text>   print text back'',
        ''  clear         clear the screen''] k"

definition command_about64 :: "'v shell64 \<Rightarrow> 'v shell64" where
  "command_about64 k =
     fold (\<lambda>l. line64 l [])
       [''Arthic 64, stage 3 of the long mode port.'',
        ''Boots into 64-bit, handles interrupts, reads the keyboard.'',
        ''Memory manager, paging, heap, TSS, and SYSCALL/SYSRET.'',
        ''No scheduler or filesystem yet - still on the 32-bit branch.''] k"

definition command_regs64 :: "'v env64 \<Rightarrow> 'v shell64 \<Rightarrow> 'v shell64" where
  "command_regs64 env k =
     (let low = ucast (msr64 (cpu_of64 (core64 k)) EFER) :: u32;
          k1 = line64 ''  rsp  0x%lx'' [Num64 (rsp_now64 env)] k;
          k2 = line64 ''  cr0  0x%lx   (bit 31 paging, bit 16 write-protect)'' [Num64 (cr0_now64 env)] k1;
          k3 = line64 ''  cr3  0x%lx   (points at the PML4)'' [Num64 (r_cr3_64 (vm64 (core64 k)))] k2;
          k4 = line64 ''  cr4  0x%lx   (bit 5 PAE)'' [Num64 (cr4_now64 env)] k3;
          k5 = line64 ''  efer 0x%lx   (bit 8 LME, bit 10 LMA, bit 11 NXE)'' [Num64 (ucast low)] k4
      in line64 ''  long mode %s'' [Str64 (ascii (if low AND 0x400 \<noteq> 0 then ''ACTIVE'' else ''not active''))] k5)"

definition command_mem64 :: "'v shell64 \<Rightarrow> 'v shell64" where
  "command_mem64 k =
     (let p = frames64 (vm64 (core64 k));
          k1 = line64 ''  total  %lu frames  (%lu KB)'' [Num64 (pmm_total_frames64 p), Num64 (pmm_total_frames64 p * 4)] k;
          k2 = line64 ''  used   %lu frames  (%lu KB)'' [Num64 (pmm_used_frames64 p), Num64 (pmm_used_frames64 p * 4)] k1
      in line64 ''  free   %lu frames  (%lu KB)'' [Num64 (pmm_free_frames64 p), Num64 (pmm_free_frames64 p * 4)] k2)"

definition command_heap64 :: "'v shell64 \<Rightarrow> 'v shell64 option" where
  "command_heap64 k =
     (case kheap_stats64 (kheap_of64 k) of
        None \<Rightarrow> None
      | Some (all, used, blocks) \<Rightarrow>
          Some (line64 ''  used   %lu bytes across %lu blocks'' [Num64 used, Num64 blocks]
                 (line64 ''  total  %lu KB'' [Num64 (all div 1024)] k)))"

definition take_block64 :: "u64 \<Rightarrow> 'v shell64 \<Rightarrow> (u64 \<times> 'v shell64) option" where
  "take_block64 n k = (case kmalloc64 n (kheap_of64 k) of None \<Rightarrow> None | Some (p, h) \<Rightarrow> Some (p, k\<lparr>kheap_of64 := h\<rparr>))"

text \<open>\<open>kfree\<close> with the messages of its two guards.\<close>

definition give_block64 :: "u64 \<Rightarrow> 'v shell64 \<Rightarrow> 'v shell64" where
  "give_block64 ptr k =
     (let b = hdr64 (kheap_of64 k) (header_of64 ptr); k1 = k\<lparr>kheap_of64 := kfree64 ptr (kheap_of64 k)\<rparr>
      in if ptr = 0 then k1
         else if bmagic64 b \<noteq> BLOCK_MAGIC then line64 ''kfree: bad or corrupted block at 0x%lx - ignoring'' [Num64 ptr] k1
         else if bfree64 b \<noteq> 0 then line64 ''kfree: double free at 0x%lx - ignoring'' [Num64 ptr] k1
         else k1)"

definition command_heaptest64 :: "'v shell64 \<Rightarrow> 'v shell64 option" where
  "command_heaptest64 k =
     Option.bind (take_block64 64 k) (\<lambda>(a, k1).
     Option.bind (take_block64 128 k1) (\<lambda>(b, k2).
       if a = 0 \<or> b = 0 then Some (line64 ''allocation failed'' [] k2)
       else
         let k3 = line64 ''a = kmalloc(64)   -> 0x%lx'' [Num64 a] k2;
             k4 = line64 ''b = kmalloc(128)  -> 0x%lx'' [Num64 b] k3
         in Option.bind (take_block64 32 (give_block64 a k4)) (\<lambda>(c, k5).
              let k6 = line64 ''c = kmalloc(32)   -> 0x%lx  %s''
                         [Num64 c, Str64 (if c = a then ascii ''(reused a'' @ [0x27] @ ascii ''s space)'' else [])] k5
              in Some (line64 ''all freed'' [] (give_block64 b (give_block64 c k6))))))"

text \<open>
  \<open>probe_write\<close> of \<open>arthic64/kernel/interrupts.s\<close>: the resume address is set before the store, so a fault ends in the first branch of
  the page fault handler, behind the store; it is cleared either way.  The boot code sets CR0.WP, so a store of the kernel faults
  in a read-only page.  The store lies in one page.
\<close>

definition paging_probe_write64 :: "u64 \<Rightarrow> u64 \<Rightarrow> u64 \<Rightarrow> 'v shell64 \<Rightarrow> bool \<times> 'v shell64" where
  "paging_probe_write64 probe_write_fault addr v k =
     (let set_vm = (\<lambda>s k. k\<lparr>core64 := (core64 k)\<lparr>vm64 := s\<rparr>\<rparr>);
          s1 = paging_set_fault_resume64 probe_write_fault (vm64 (core64 k));
          c = cpu_of64 (core64 k)
      in case mmu64 s1 addr of
           None \<Rightarrow> (False, set_vm (paging_set_fault_resume64 0 (snd (page_fault_handler64 2 s1))) k)
         | Some (pa, w, u, x) \<Rightarrow>
             if \<not> w then (False, set_vm (paging_set_fault_resume64 0 (snd (page_fault_handler64 3 s1))) k)
             else
               let m = fold (\<lambda>i m. m((pa OR (addr AND 0xFFF)) + word_of_nat i := ucast (drop_bit (8 * i) v))) [0..<8] (mem64 c);
                   k1 = set_vm (paging_set_fault_resume64 0 s1) k
               in (True, k1\<lparr>core64 := (core64 k1)\<lparr>cpu_of64 := c\<lparr>mem64 := m\<rparr>\<rparr>\<rparr>))"

definition command_wxtest64 :: "'v env64 \<Rightarrow> 'v shell64 \<Rightarrow> 'v shell64" where
  "command_wxtest64 env k =
     (let k1 = print64 ''writing to kernel code at 0x%lx ... '' [Num64 (a_text_start64 env)] k
      in case paging_probe_write64 (a_probe_fault64 env) (a_text_start64 env) 0xDEAD k1 of (ok, k2) \<Rightarrow>
           line64 ''W^X: code is r-x, everything else is rw- with NX set'' []
             (if ok then line64 ''SUCCEEDED - write protection is NOT working'' [] k2
              else line64 ''blocked, and recovered'' [] k2))"

text \<open>What follows when \<open>usermode_run\<close> comes back.\<close>

definition user_returned64 :: "'v shell64 \<Rightarrow> 'v shell64" where
  "user_returned64 k = line64 ''back in ring 0 (returned via SYSCALL/SYSRET or a caught fault).'' [] k"

definition command_user64 :: "'v env64 \<Rightarrow> 'v shell64 \<Rightarrow> 'v shell64 outcome64" where
  "command_user64 env k =
     (let k1 = line64 ''entering ring 3 (first hop via IRETQ) ...'' [] k
      in case usermode_run64 (a_user_program64 env) (rsp_now64 env) (core64 k1) of
           (None, m) \<Rightarrow> Returned64 (user_returned64 (k1\<lparr>core64 := m\<rparr>))
         | (Some entry, m) \<Rightarrow> In_Ring3_64 entry (k1\<lparr>core64 := m\<rparr>))"

definition command_ticks64 :: "'v shell64 \<Rightarrow> 'v shell64" where
  "command_ticks64 k =
     line64 ''%u ticks, roughly %u seconds since boot'' [Num64 (ucast (ticks64 k)), Num64 (ucast (ticks64 k div 18))] k"

section \<open>Lines\<close>

definition execute64 :: "'v env64 \<Rightarrow> cstring \<Rightarrow> 'v shell64 \<Rightarrow> 'v shell64 outcome64 option" where
  "execute64 env line k =
     (let this = (\<lambda>c. kstrcmp line (ascii c) = 0);
          ret = (\<lambda>k. Some (Returned64 k))
      in if line = [] then ret k
         else if this ''help'' then ret (command_help64 k)
         else if this ''about'' then ret (command_about64 k)
         else if this ''ticks'' then ret (command_ticks64 k)
         else if this ''mem'' then ret (command_mem64 k)
         else if this ''heap'' then map_option Returned64 (command_heap64 k)
         else if this ''heaptest'' then map_option Returned64 (command_heaptest64 k)
         else if this ''user'' then Some (command_user64 env k)
         else if this ''wxtest'' then ret (command_wxtest64 env k)
         else if this ''regs'' then ret (command_regs64 env k)
         else if this ''clear'' then ret (on_screen64 (vga_io64 env) (terminal_clear (vga_io64 env)) k)
         else if this ''echo'' then ret (say64 [10] k)
         else if kstartswith line (ascii ''echo '') then ret (line64 ''%s'' [Str64 (drop 5 line)] k)
         else ret (line64 (''unknown command: %s  (try '' @ [CHR 0x27] @ ''help'' @ [CHR 0x27] @ '')'') [Str64 line] k))"

text \<open>What follows the call of \<open>execute\<close> when it returns.\<close>

definition after_execute64 :: "'v shell64 outcome64 \<Rightarrow> 'v shell64 outcome64" where
  "after_execute64 r = (case r of Returned64 k \<Rightarrow> Returned64 (prompt64 (k\<lparr>buffer_length64 := 0\<rparr>)) | _ \<Rightarrow> r)"

definition shell_input64 :: "'v env64 \<Rightarrow> u8 \<Rightarrow> 'v shell64 \<Rightarrow> 'v shell64 outcome64 option" where
  "shell_input64 env c k =
     (if c = 10
      then
        let k1 = (say64 [10] k)\<lparr>line_buffer64 := (line_buffer64 k)[unat (buffer_length64 k) := 0]\<rparr>
        in map_option after_execute64 (execute64 env (takeWhile (\<lambda>c. c \<noteq> 0) (line_buffer64 k1)) k1)
      else if c = 8
      then
        Some (Returned64
          (if buffer_length64 k > 0
           then on_screen64 (vga_io64 env) (terminal_backspace (vga_io64 env)) (k\<lparr>buffer_length64 := buffer_length64 k - 1\<rparr>)
           else k))
      else if buffer_length64 k < word_of_nat SHELL_BUFFER_SIZE - 1
      then Some (Returned64 (say64 [c] (k\<lparr>line_buffer64 := (line_buffer64 k)[unat (buffer_length64 k) := c],
                                         buffer_length64 := buffer_length64 k + 1\<rparr>)))
      else Some (Returned64 k))"

definition shell_init64 :: "'v shell64 \<Rightarrow> 'v shell64" where
  "shell_init64 k = prompt64 (k\<lparr>buffer_length64 := 0\<rparr>)"

section \<open>The line\<close>

definition shell_ok64 :: "'v shell64 \<Rightarrow> bool" where
  "shell_ok64 k \<longleftrightarrow> length (line_buffer64 k) = SHELL_BUFFER_SIZE \<and> unat (buffer_length64 k) \<le> 127"

definition typed64 :: "'v shell64 \<Rightarrow> u8 list" where
  "typed64 k = take (unat (buffer_length64 k)) (line_buffer64 k)"

text \<open>Output leaves everything but the text and the screen as it is.\<close>

lemma say64_keeps [simp]:
  "kheap_of64 (say64 t k) = kheap_of64 k" "line_buffer64 (say64 t k) = line_buffer64 k"
  "buffer_length64 (say64 t k) = buffer_length64 k" "ticks64 (say64 t k) = ticks64 k"
  "vm64 (core64 (say64 t k)) = vm64 (core64 k)" "user_stack_phys (core64 (say64 t k)) = user_stack_phys (core64 k)"
  "mem64 (cpu_of64 (core64 (say64 t k))) = mem64 (cpu_of64 (core64 k))"
  by (simp_all add: say64_def put64_def)

lemma print64_keeps [simp]:
  "kheap_of64 (print64 f a k) = kheap_of64 k" "line_buffer64 (print64 f a k) = line_buffer64 k"
  "buffer_length64 (print64 f a k) = buffer_length64 k" "vm64 (core64 (print64 f a k)) = vm64 (core64 k)"
  "user_stack_phys (core64 (print64 f a k)) = user_stack_phys (core64 k)"
  "mem64 (cpu_of64 (core64 (print64 f a k))) = mem64 (cpu_of64 (core64 k))"
  by (simp_all add: print64_def)

lemma line64_keeps [simp]:
  "kheap_of64 (line64 f a k) = kheap_of64 k" "line_buffer64 (line64 f a k) = line_buffer64 k"
  "buffer_length64 (line64 f a k) = buffer_length64 k" "vm64 (core64 (line64 f a k)) = vm64 (core64 k)"
  "user_stack_phys (core64 (line64 f a k)) = user_stack_phys (core64 k)"
  "mem64 (cpu_of64 (core64 (line64 f a k))) = mem64 (cpu_of64 (core64 k))"
  by (simp_all add: line64_def)

lemma on_screen64_keeps [simp]:
  "line_buffer64 (on_screen64 io f k) = line_buffer64 k" "buffer_length64 (on_screen64 io f k) = buffer_length64 k"
  "kheap_of64 (on_screen64 io f k) = kheap_of64 k" "vm64 (core64 (on_screen64 io f k)) = vm64 (core64 k)"
  "user_stack_phys (core64 (on_screen64 io f k)) = user_stack_phys (core64 k)"
  by (simp_all add: on_screen64_def)

lemma give_block64_keeps [simp]:
  "line_buffer64 (give_block64 p k) = line_buffer64 k" "kheap_of64 (give_block64 p k) = kfree64 p (kheap_of64 k)"
  by (simp_all add: give_block64_def Let_def)

lemma take_block64_keeps: "take_block64 n k = Some (p, k') \<Longrightarrow> line_buffer64 k' = line_buffer64 k"
  by (auto simp: take_block64_def split: option.splits)

lemma probe64_keeps: "line_buffer64 (snd (paging_probe_write64 r a v k)) = line_buffer64 k"
  by (simp add: paging_probe_write64_def Let_def split: option.split prod.split)

lemma command_heaptest64_line: "command_heaptest64 k = Some k' \<Longrightarrow> line_buffer64 k' = line_buffer64 k"
  by (fastforce simp: command_heaptest64_def Let_def bind_eq_Some_conv split: if_splits dest!: take_block64_keeps)

lemma execute64_line:
  assumes "execute64 env l k = Some (Returned64 k')"
  shows "line_buffer64 k' = line_buffer64 k"
proof -
  have user: "line_buffer64 k' = line_buffer64 k" if "command_user64 env k = Returned64 k'"
    using that by (auto simp: command_user64_def Let_def user_returned64_def split: prod.splits option.splits)
  have wx: "line_buffer64 (command_wxtest64 env k) = line_buffer64 k"
  proof -
    let ?p = "paging_probe_write64 (a_probe_fault64 env) (a_text_start64 env) 0xDEAD
      (print64 ''writing to kernel code at 0x%lx ... '' [Num64 (a_text_start64 env)] k)"
    have "line_buffer64 (snd ?p) = line_buffer64 k" unfolding probe64_keeps by simp
    then show ?thesis by (cases ?p) (simp add: command_wxtest64_def Let_def)
  qed
  have heap: "line_buffer64 k' = line_buffer64 k" if "command_heap64 k = Some k'"
    using that by (auto simp: command_heap64_def split: option.splits)
  note rest = command_help64_def command_about64_def command_ticks64_def command_mem64_def command_regs64_def Let_def
  show ?thesis
    using assms user heap command_heaptest64_line [of k k'] wx
    by (auto simp: execute64_def Let_def split: if_splits) (simp_all add: rest)
qed

lemma input_key64:
  assumes "shell_ok64 k" "c \<noteq> 10" "c \<noteq> 8"
  shows "\<exists>k'. shell_input64 env c k = Some (Returned64 k') \<and> shell_ok64 k' \<and> typed64 k' = edit c (typed64 k)"
proof -
  let ?n = "buffer_length64 k"
  have l: "length (line_buffer64 k) = 128" "unat ?n \<le> 127" "length (typed64 k) = unat ?n"
    using assms(1) by (auto simp: shell_ok64_def typed64_def SHELL_BUFFER_SIZE_def)
  have c: "?n < word_of_nat SHELL_BUFFER_SIZE - 1 \<longleftrightarrow> unat ?n < 127" by (simp add: SHELL_BUFFER_SIZE_def word_less_nat_alt)
  show ?thesis
  proof (cases "unat ?n < 127")
    case True
    have s: "unat (?n + 1) = unat ?n + 1" using True by (subst unat64_plus) simp_all
    show ?thesis using assms l c True s
      by (auto simp: shell_input64_def shell_ok64_def typed64_def SHELL_BUFFER_SIZE_def take_Suc_conv_app_nth)
  qed (use assms l c in \<open>simp add: shell_input64_def\<close>)
qed

lemma input_backspace64:
  assumes "shell_ok64 k"
  shows "\<exists>k'. shell_input64 env 8 k = Some (Returned64 k') \<and> shell_ok64 k' \<and> typed64 k' = edit 8 (typed64 k)"
proof (cases "buffer_length64 k > 0")
  case True
  then have u: "unat (buffer_length64 k - 1) = unat (buffer_length64 k) - 1" by (simp add: unat_minus_one word_gt_0)
  moreover have "unat (buffer_length64 k) - 1 \<le> 127" using assms unfolding shell_ok64_def by linarith
  ultimately show ?thesis using assms True
    by (simp add: shell_input64_def shell_ok64_def typed64_def SHELL_BUFFER_SIZE_def butlast_take)
next
  case False
  then show ?thesis using assms by (simp add: shell_input64_def typed64_def word_gt_0)
qed

lemma entered_line64:
  assumes "shell_ok64 k"
  shows "shell_input64 env 10 k = map_option after_execute64 (execute64 env (takeWhile (\<lambda>c. c \<noteq> 0) (typed64 k))
    ((say64 [10] k)\<lparr>line_buffer64 := (line_buffer64 k)[unat (buffer_length64 k) := 0]\<rparr>))"
proof -
  let ?n = "unat (buffer_length64 k)"
  have "?n < length (line_buffer64 k)" using assms by (simp add: shell_ok64_def SHELL_BUFFER_SIZE_def)
  then have "(line_buffer64 k)[?n := 0] = typed64 k @ 0 # drop (Suc ?n) (line_buffer64 k)"
    by (simp add: typed64_def upd_conv_take_nth_drop)
  then have "takeWhile (\<lambda>c. c \<noteq> 0) ((line_buffer64 k)[?n := 0]) = takeWhile (\<lambda>c. c \<noteq> 0) (typed64 k)" by (simp add: takeWhile_tail)
  then show ?thesis by (simp add: shell_input64_def Let_def)
qed

lemma input_enter64:
  assumes "shell_ok64 k" "shell_input64 env 10 k = Some (Returned64 k')"
  shows "shell_ok64 k' \<and> typed64 k' = []"
proof -
  let ?k = "(say64 [10] k)\<lparr>line_buffer64 := (line_buffer64 k)[unat (buffer_length64 k) := 0]\<rparr>"
  obtain r where r: "execute64 env (takeWhile (\<lambda>c. c \<noteq> 0) (typed64 k)) ?k = Some r" "after_execute64 r = Returned64 k'"
    using assms by (auto simp: entered_line64)
  then obtain k1 where k1: "r = Returned64 k1" "k' = prompt64 (k1\<lparr>buffer_length64 := 0\<rparr>)"
    by (cases r) (simp_all add: after_execute64_def)
  have "line_buffer64 k1 = line_buffer64 ?k" using r(1) unfolding k1(1) by (rule execute64_line)
  then show ?thesis using assms(1) k1(2) by (simp add: shell_ok64_def typed64_def prompt64_def)
qed

section \<open>What two commands show\<close>

text \<open>\<open>heaptest\<close> always returns.  When both allocations succeed it leaves the heap with exactly the blocks it had; when the
  second fails, the first block stays allocated.\<close>

lemma take_block64_ok: "heap_ok64 (kheap_of64 k) \<Longrightarrow> \<exists>p h. take_block64 n k = Some (p, k\<lparr>kheap_of64 := h\<rparr>) \<and>
    kmalloc64 n (kheap_of64 k) = Some (p, h) \<and> heap_ok64 h"
  using kheap_long.malloc_total [of "kheap_of64 k" n] by (auto simp: take_block64_def)

theorem command_heaptest64_balanced:
  assumes "heap_ok64 (kheap_of64 k)"
  shows "\<exists>a h1 b h2 k'. kmalloc64 64 (kheap_of64 k) = Some (a, h1) \<and> kmalloc64 128 h1 = Some (b, h2) \<and> command_heaptest64 k = Some k' \<and>
    heap_ok64 (kheap_of64 k') \<and> live64 (kheap_of64 k') = (if a = 0 \<or> b = 0 then live64 h2 else live64 (kheap_of64 k))"
proof -
  let ?h = "kheap_of64 k"
  obtain a h1 where a: "take_block64 64 k = Some (a, k\<lparr>kheap_of64 := h1\<rparr>)" "kmalloc64 64 ?h = Some (a, h1)" "heap_ok64 h1"
    using take_block64_ok [OF assms] by blast
  obtain b h2 where b: "take_block64 128 (k\<lparr>kheap_of64 := h1\<rparr>) = Some (b, k\<lparr>kheap_of64 := h2\<rparr>)" "kmalloc64 128 h1 = Some (b, h2)" "heap_ok64 h2"
    using take_block64_ok [of "k\<lparr>kheap_of64 := h1\<rparr>" 128] a(3) by auto
  show ?thesis
  proof (cases "a = 0 \<or> b = 0")
    case True
    then show ?thesis using a b by (simp add: command_heaptest64_def)
  next
    case False
    obtain m where m: "(unat a, m) \<notin> live64 ?h" "live64 h1 = insert (unat a, m) (live64 ?h)"
      using kheap_long.malloc_fresh [OF assms _ _ a(2)] False by auto
    obtain n where n: "(unat b, n) \<notin> live64 h1" "live64 h2 = insert (unat b, n) (live64 h1)"
      using kheap_long.malloc_fresh [OF a(3) _ _ b(2)] False by auto
    let ?h3 = "kfree64 a h2"
    have h3: "heap_ok64 ?h3" "live64 ?h3 = insert (unat b, n) (live64 ?h)"
      using kheap_long.release_live [OF b(3), of a m] False m n by auto
    let ?k4 = "give_block64 a (line64 ''b = kmalloc(128)  -> 0x%lx'' [Num64 b] (line64 ''a = kmalloc(64)   -> 0x%lx'' [Num64 a] (k\<lparr>kheap_of64 := h2\<rparr>)))"
    obtain c h4 where c: "take_block64 32 ?k4 = Some (c, ?k4\<lparr>kheap_of64 := h4\<rparr>)" "kmalloc64 32 ?h3 = Some (c, h4)"
      using take_block64_ok [of ?k4 32] h3(1) by auto
    have h5: "heap_ok64 (kfree64 c h4)" "live64 (kfree64 c h4) = live64 ?h3" using kheap_long.malloc_release [OF h3(1) _ _ c(2)] by simp_all
    have "heap_ok64 (kfree64 b (kfree64 c h4)) \<and> live64 (kfree64 b (kfree64 c h4)) = live64 ?h"
      using kheap_long.release_live [OF h5(1), of b n] h5(2) h3(2) False m n by auto
    then show ?thesis using a b c False by (simp add: command_heaptest64_def Let_def)
  qed
qed

lemma mmu64_resume [simp]: "mmu64 (paging_set_fault_resume64 r s) = mmu64 s"
  by (simp add: fun_eq_iff mmu64_def paging_set_fault_resume64_def)

text \<open>A probe of a read-only page is refused, and memory and mapping stay as they are.\<close>

lemma probe64_blocked:
  assumes "mmu64 (vm64 (core64 k)) a = Some (f, False, u, x)" "r \<noteq> 0"
  shows "paging_probe_write64 r a v k = (False, k\<lparr>core64 := (core64 k)\<lparr>vm64 := paging_set_fault_resume64 0 (vm64 (core64 k))\<rparr>\<rparr>)"
  using assms by (simp add: paging_probe_write64_def Let_def page_fault_handler64_def paging_set_fault_resume64_def mmu64_resume [unfolded paging_set_fault_resume64_def])

end
