(* ===== verification/Boot64.thy ===== *)
theory Boot64
  imports Shell64 Idt64
begin

text \<open>
  \<open>kernel_main\<close> of the 64-bit port, \<open>arthic64/kernel/main.c\<close>, with the two drivers it installs: the parts of the port brought up in order, and
  what holds when the shell is reached.  Addresses of the linker and registers that inline assembly reads are the fields of
  \<open>platform64\<close>; \<open>boot_bytes64\<close> is the memory that holds the map of the boot loader, \<open>ram_words64\<close> the contents of RAM where the bitmap will be.
  The interrupt flag, which \<open>sti\<close> sets before the shell starts, is not part of the state.
\<close>

section \<open>The boot sequence\<close>

record ('v, 'i) platform64 =
  penv64 :: "'v env64"
  irq_io64 :: "'i ports"
  isr_stub64 :: "nat \<Rightarrow> u64"
  irq_stub64 :: "nat \<Rightarrow> u64"
  a_idt64 :: u64
  a_gdt64 :: u64
  a_tss64 :: u64
  a_cpu0 :: u64
  a_syscall_stack :: u64
  a_syscall_entry :: u64
  a_page_fault64 :: u64
  a_timer64 :: u64
  a_keyboard64 :: u64
  a_kernel_end64 :: u64
  a_rodata_end64 :: u64
  a_user_text_start64 :: u64
  a_user_text_end64 :: u64
  boot_bytes64 :: bytes
  ram_words64 :: "u64 \<Rightarrow> u64"
  rsp_main64 :: u64
  cs_main64 :: u64

record ('v, 'i) machine64 =
  sh64 :: "'v shell64"
  irqs64 :: "'i interrupts64"
  on_key64 :: "(u8 \<Rightarrow> 'v shell64 \<Rightarrow> 'v shell64 outcome64 option) option"

definition timer_install64 :: "'i ports \<Rightarrow> u64 \<Rightarrow> 'i interrupts64 \<Rightarrow> 'i interrupts64" where
  "timer_install64 io timer_handler_addr s = irq_install_handler64 io 0 timer_handler_addr s"

definition timer_handler64 :: "'v shell64 \<Rightarrow> 'v shell64" where
  "timer_handler64 k = k\<lparr>ticks64 := ticks64 k + 1\<rparr>"

definition keyboard_install64 ::
  "'i ports \<Rightarrow> u64 \<Rightarrow> (u8 \<Rightarrow> 'v shell64 \<Rightarrow> 'v shell64 outcome64 option) \<Rightarrow> ('v, 'i) machine64 \<Rightarrow> ('v, 'i) machine64" where
  "keyboard_install64 io keyboard_irq_addr callback m =
     m\<lparr>on_key64 := Some callback, irqs64 := irq_install_handler64 io 1 keyboard_irq_addr (irqs64 m)\<rparr>"

definition colour64 :: "('v, 'i) platform64 \<Rightarrow> vga_colour \<Rightarrow> 'v shell64 \<Rightarrow> 'v shell64" where
  "colour64 pf c k = on_screen64 (vga_io64 (penv64 pf)) (terminal_set_colour (vga_entry_colour c VGA_BLACK)) k"

definition banner64 :: "('v, 'i) platform64 \<Rightarrow> 'v shell64 \<Rightarrow> 'v shell64" where
  "banner64 pf k =
     (let b = [CHR 0x5C]; w = (\<lambda>t. say64 (ascii t @ [10]));
          k1 = colour64 pf VGA_LIGHT_CYAN k;
          k2 = w ''  _   _   _   _   _   _'' k1;
          k3 = w (concat (replicate 6 ('' / '' @ b))) k2;
          k4 = w ''( A | r | t | h | i | c )'' k3;
          k5 = w (concat (replicate 6 ('' '' @ b @ ''_/'')) @ [CHR 0x0A]) k4;
          k6 = colour64 pf VGA_LIGHT_GREY k5;
          k7 = w ''Arthic 64 - stage 3'' k6;
          k8 = w (''Running in 64-bit long mode.'' @ [CHR 0x0A]) k7
      in colour64 pf VGA_LIGHT_GREEN k8)"

text \<open>Frames and page tables, with their reports; None when the kernel halts for lack of a map or of memory.\<close>

definition boot_memory64 :: "('v, 'i) platform64 \<Rightarrow> multiboot_info \<Rightarrow> ('v, 'i) machine64 \<Rightarrow> ('v, 'i) machine64 option" where
  "boot_memory64 pf mbi m =
     Option.bind (pmm_init64 (boot_bytes64 pf) (a_kernel_end64 pf) (ram_words64 pf) mbi) (\<lambda>p.
       let k = (sh64 m)\<lparr>core64 := (core64 (sh64 m))\<lparr>vm64 := (vm64 (core64 (sh64 m)))\<lparr>frames64 := p\<rparr>\<rparr>\<rparr>;
           k1 = line64 ''PMM installed: %lu KB usable, %lu KB in use.'' [Num64 (pmm_free_frames64 p * 4), Num64 (pmm_used_frames64 p * 4)] k
       in Option.bind (paging_init64 (a_text_start64 (penv64 pf)) (a_rodata_end64 pf) (vm64 (core64 k1))) (\<lambda>s.
            let k2 = k1\<lparr>core64 := (core64 k1)\<lparr>vm64 := s\<rparr>\<rparr>
            in Some (m\<lparr>sh64 := line64 ''Paging: four levels, %lu MB in 4 KB pages, W^X enforced.'' [Num64 (paging_mapped_limit64 s div (1024 * 1024))] k2,
                       irqs64 := isr_install_handler64 14 (a_page_fault64 pf) (irqs64 m)\<rparr>)))"

definition boot_heap64 :: "'v shell64 \<Rightarrow> 'v shell64 option" where
  "boot_heap64 k =
     (let p = frames64 (vm64 (core64 k))
      in case kheap_init64 p (kheap_of64 k) of (h, p') \<Rightarrow>
           let k1 = k\<lparr>kheap_of64 := h, core64 := (core64 k)\<lparr>vm64 := (vm64 (core64 k))\<lparr>frames64 := p'\<rparr>\<rparr>\<rparr>;
               k2 = (if fst (pmm_alloc_frames64 HEAP_FRAMES64 p) = 0
                     then line64 ''kheap: could not reserve %lu KB'' [Num64 (HEAP_SIZE64 div 1024)] k1 else k1)
           in map_option (\<lambda>(all, used, n). line64 ''Heap ready: %lu KB.'' [Num64 (all div 1024)] k2) (kheap_stats64 h))"

text \<open>Segments, TSS and SYSCALL, then ring 3.\<close>

definition boot_cpu_state64 :: "('v, 'i) platform64 \<Rightarrow> cpu64 \<Rightarrow> cpu64" where
  "boot_cpu_state64 pf c =
     syscall_install64 (a_cpu0 pf) (a_syscall_stack pf) (a_syscall_entry pf)
       (c\<lparr>segs64 := tss_install64 (a_tss64 pf) (rsp_main64 pf - 512) (segs64 c)\<rparr>)"

definition kernel_main64 ::
  "('v, 'i) platform64 \<Rightarrow> u32 \<Rightarrow> multiboot_info \<Rightarrow> ('v, 'i) machine64 \<Rightarrow> ('v, 'i) machine64 option" where
  "kernel_main64 pf magic mbi m =
     (let env = penv64 pf;
          k1 = banner64 pf (on_screen64 (vga_io64 env) (terminal_initialise (vga_io64 env)) (sh64 m));
          k2 = (if magic \<noteq> 0x2BADB002 then line64 ''warning: unexpected multiboot magic 0x%x'' [Num64 (ucast magic)] k1 else k1);
          i1 = idt_install64 (irq_io64 pf) (isr_stub64 pf) (irq_stub64 pf) (a_idt64 pf) (irqs64 m);
          k3 = line64 ''64-bit registers: 0x%lx'' [Num64 0x0123456789ABCDEF]
                 (line64 ''IDT installed: 16-byte gates, 32 exceptions, 16 IRQs.'' [] k2)
      in Option.bind (boot_memory64 pf mbi (m\<lparr>sh64 := k3, irqs64 := i1\<rparr>)) (\<lambda>m1.
         Option.bind (boot_heap64 (sh64 m1)) (\<lambda>k4.
         let k5 = line64 ''code selector 0x%lx, L bit set.'' [Num64 (cs_main64 pf)] k4;
             c5 = cpu_of64 (core64 k5);
             k6 = k5\<lparr>core64 := (core64 k5)\<lparr>cpu_of64 := c5\<lparr>segs64 := gdt_install64 (a_gdt64 pf) (segs64 c5)\<rparr>\<rparr>\<rparr>;
             k7 = line64 ''GDT installed: kernel + user segments, TSS slot ready.'' [] k6;
             k8 = k7\<lparr>core64 := (core64 k7)\<lparr>cpu_of64 := boot_cpu_state64 pf (cpu_of64 (core64 k7))\<rparr>\<rparr>
         in Option.bind (usermode_init64 (a_user_text_start64 pf) (a_user_text_end64 pf) (core64 k8)) (\<lambda>u.
            let k9 = line64 (''TSS installed. SYSCALL/SYSRET armed via STAR/LSTAR/FMASK.'' @ [CHR 0x0A]) [] (k8\<lparr>core64 := u\<rparr>);
                k10 = line64 (''Interrupts enabled. Keyboard live. Type '' @ [CHR 0x27] @ ''help'' @ [CHR 0x27] @ ''.'' @ [CHR 0x0A]) []
                        (colour64 pf VGA_WHITE k9);
                m2 = m1\<lparr>sh64 := k10, irqs64 := timer_install64 (irq_io64 pf) (a_timer64 pf) (irqs64 m1)\<rparr>;
                m3 = keyboard_install64 (irq_io64 pf) (a_keyboard64 pf) (shell_input64 env) m2
            in Some (m3\<lparr>sh64 := shell_init64 (sh64 m3)\<rparr>)))))"

section \<open>What the boot establishes\<close>

lemma colour64_keeps [simp]:
  "line_buffer64 (colour64 pf c k) = line_buffer64 k" "kheap_of64 (colour64 pf c k) = kheap_of64 k"
  "vm64 (core64 (colour64 pf c k)) = vm64 (core64 k)" "user_stack_phys (core64 (colour64 pf c k)) = user_stack_phys (core64 k)"
  by (simp_all add: colour64_def)

lemma banner64_keeps [simp]:
  "line_buffer64 (banner64 pf k) = line_buffer64 k" "kheap_of64 (banner64 pf k) = kheap_of64 k"
  "vm64 (core64 (banner64 pf k)) = vm64 (core64 k)"
  by (simp_all add: banner64_def Let_def)

text \<open>Only the text differs, so the machine stays armed.\<close>

lemma armed64_output [simp]:
  "armed64 a b c (x\<lparr>console64 := t\<rparr>) = armed64 a b c x" "armed64 a b c (put64 t x) = armed64 a b c x"
  "armed64 a b c (syscall_set_user_range64 lo hi x) = armed64 a b c x"
  by (simp_all add: armed64_def put64_def syscall_set_user_range64_def)

lemma armed64_shell [simp]:
  "armed64 a b c (cpu_of64 (core64 (say64 t k))) = armed64 a b c (cpu_of64 (core64 k))"
  "armed64 a b c (cpu_of64 (core64 (on_screen64 io f k))) = armed64 a b c (cpu_of64 (core64 k))"
  by (simp_all add: say64_def on_screen64_def)

lemma armed64_print [simp]:
  "armed64 a b c (cpu_of64 (core64 (line64 fmt args k))) = armed64 a b c (cpu_of64 (core64 k))"
  "armed64 a b c (cpu_of64 (core64 (print64 fmt args k))) = armed64 a b c (cpu_of64 (core64 k))"
  "armed64 a b c (cpu_of64 (core64 (colour64 pf col k))) = armed64 a b c (cpu_of64 (core64 k))"
  by (simp_all add: line64_def print64_def colour64_def)

lemma usermode_init64_armed:
  "usermode_init64 s e m = Some m' \<Longrightarrow> armed64 a b c (cpu_of64 m') = armed64 a b c (cpu_of64 m)"
  by (auto simp: usermode_init64_def Let_def bind_eq_Some_conv split: prod.splits if_splits)

lemma mmu64_frames [simp]: "mmu64 (s\<lparr>frames64 := p\<rparr>) = mmu64 s"
  by (simp add: fun_eq_iff mmu64_def)

lemma identity64_frames:
  assumes "identity64 N s" "pmm_ok64 p" "total_frames64 p = total_frames64 (frames64 s)" "frames_owned64 (frames64 s) \<subseteq> frames_owned64 p"
  shows "identity64 N (s\<lparr>frames64 := p\<rparr>)"
  using assms wf64_frames(1) [OF _ assms(2-4)] by (simp add: identity64_def)

lemma boot_memory64_runs:
  fixes m :: "('v, 'i) machine64"
  assumes pmm: "pmm_init64 (boot_bytes64 pf) (a_kernel_end64 pf) (ram_words64 pf) mbi = Some p"
    and paging: "paging_init64 (a_text_start64 (penv64 pf)) (a_rodata_end64 pf) ((vm64 (core64 (sh64 m)))\<lparr>frames64 := p\<rparr>) = Some s"
  shows "\<exists>k. boot_memory64 pf mbi m = Some (m\<lparr>sh64 := k, irqs64 := isr_install_handler64 14 (a_page_fault64 pf) (irqs64 m)\<rparr>) \<and>
    vm64 (core64 k) = s \<and> kheap_of64 k = kheap_of64 (sh64 m) \<and> line_buffer64 k = line_buffer64 (sh64 m)"
  using paging by (simp add: boot_memory64_def pmm Let_def) (rule exI, rule conjI, rule refl, simp)

lemma boot_heap64_runs:
  assumes "identity64 N (vm64 (core64 k))" "heap_start64 (kheap_of64 k) = 0"
  shows "\<exists>k'. boot_heap64 k = Some k' \<and> identity64 N (vm64 (core64 k')) \<and> mmu64 (vm64 (core64 k')) = mmu64 (vm64 (core64 k)) \<and>
    line_buffer64 k' = line_buffer64 k \<and> (heap_ok64 (kheap_of64 k') \<or> heap_start64 (kheap_of64 k') = 0)"
proof -
  let ?s = "vm64 (core64 k)" and ?p = "frames64 (vm64 (core64 k))"
  have ok: "pmm_ok64 ?p" using assms(1) by (simp add: identity64_def wf64_def)
  have c: "(256 :: u64) \<noteq> 0" by simp
  obtain base p' where al: "pmm_alloc_frames64 256 ?p = (base, p')" by fastforce
  show ?thesis
  proof (cases "base = 0")
    case True
    have "p' = ?p" by (rule alloc_run64(1) [OF ok al c True])
    moreover have "kheap_stats64 (kheap_of64 k) = Some (heap_bytes64 (kheap_of64 k), 0, 0)"
      using assms(2) by (simp add: kheap_stats64_def stats_walk64.simps)
    ultimately show ?thesis using True al assms by (simp add: boot_heap64_def Let_def kheap_init64_def)
  next
    case False
    note R = kheap_init_rep64(1) [OF ok al False, of "kheap_of64 k"]
    have p': "pmm_ok64 p'" "total_frames64 p' = total_frames64 ?p" "frames_owned64 ?p \<subseteq> frames_owned64 p'"
      using alloc_run64(2) [OF ok al c False] by blast+
    have "snd (kheap_init64 ?p (kheap_of64 k)) = p'" using al False by (simp add: kheap_init64_def)
    then obtain h where h: "kheap_init64 ?p (kheap_of64 k) = (h, p')" by (cases "kheap_init64 ?p (kheap_of64 k)") simp
    have "heap_ok64 h" using kheap_boot64 [OF ok al False, of "kheap_of64 k"] h by simp
    moreover have "\<exists>v. kheap_stats64 h = Some v" using kheap_stats_rep64 [OF R] h by simp
    moreover have "identity64 N (?s\<lparr>frames64 := p'\<rparr>)" by (rule identity64_frames [OF assms(1) p'])
    ultimately show ?thesis using h al False by (auto simp: boot_heap64_def Let_def)
  qed
qed

text \<open>The state in which the descriptor tables are loaded: memory is mapped and the heap is there.\<close>

definition greeted64 :: "('v, 'i) platform64 \<Rightarrow> u32 \<Rightarrow> 'v shell64 \<Rightarrow> 'v shell64" where
  "greeted64 pf magic k =
     (let k1 = banner64 pf (on_screen64 (vga_io64 (penv64 pf)) (terminal_initialise (vga_io64 (penv64 pf))) k);
          k2 = (if magic \<noteq> 0x2BADB002 then line64 ''warning: unexpected multiboot magic 0x%x'' [Num64 (ucast magic)] k1 else k1)
      in line64 ''64-bit registers: 0x%lx'' [Num64 0x0123456789ABCDEF] (line64 ''IDT installed: 16-byte gates, 32 exceptions, 16 IRQs.'' [] k2))"

lemma greeted64_keeps [simp]:
  "kheap_of64 (greeted64 pf magic k) = kheap_of64 k" "line_buffer64 (greeted64 pf magic k) = line_buffer64 k"
  by (simp_all add: greeted64_def Let_def)

lemma memory_stage64:
  fixes m :: "('v, 'i) machine64"
  assumes pmm: "pmm_init64 (boot_bytes64 pf) (a_kernel_end64 pf) (ram_words64 pf) mbi = Some p"
    and size: "unat (total_frames64 p) \<le> 2 ^ 18" "516 \<le> free_count64 p" and bss: "heap_start64 (kheap_of64 (sh64 m)) = 0"
  shows "\<exists>k4 k5. boot_memory64 pf mbi m = Some (m\<lparr>sh64 := k4, irqs64 := isr_install_handler64 14 (a_page_fault64 pf) (irqs64 m)\<rparr>) \<and>
    boot_heap64 k4 = Some k5 \<and> identity64 (unat (total_frames64 p)) (vm64 (core64 k5)) \<and> line_buffer64 k5 = line_buffer64 (sh64 m) \<and>
    (heap_ok64 (kheap_of64 k5) \<or> heap_start64 (kheap_of64 k5) = 0) \<and>
    (\<forall>v. unat v < 2 ^ 47 \<longrightarrow> mmu64 (vm64 (core64 k5)) v =
       (let a = pg (unat v div 4096);
            kcode = (a_text_start64 (penv64 pf) AND NOT 0xFFF \<le> a \<and> a < (a_rodata_end64 pf + 4096 - 1) AND NOT 0xFFF)
        in if unat v < 4096 * unat (total_frames64 p) then Some (a, \<not> kcode, False, kcode) else None))"
proof -
  let ?N = "unat (total_frames64 p)" and ?env = "penv64 pf" and ?s0 = "(vm64 (core64 (sh64 m)))\<lparr>frames64 := p\<rparr>"
  have "0 < total_frames64 p" using size(2) by (auto simp: free_count64_def word_gt_0)
  then have pre: "pmm_ok64 (frames64 ?s0)" "unat (total_frames64 (frames64 ?s0)) \<le> 2 ^ 18" "516 \<le> free_count64 (frames64 ?s0)"
    using pmm_init64_ok [OF pmm] size by simp_all
  have n40: "unat (total_frames64 (frames64 ?s0)) \<le> 2 ^ 40" using pre(2) by simp
  obtain s where s: "paging_init64 (a_text_start64 ?env) (a_rodata_end64 pf) ?s0 = Some s"
    and walk: "\<And>v. unat v < 2 ^ 47 \<Longrightarrow> mmu64 s v = (if v < mapped_limit64 s then (let a = pg (unat v div 4096);
        kcode = (a_text_start64 ?env AND NOT 0xFFF \<le> a \<and> a < (a_rodata_end64 pf + 4096 - 1) AND NOT 0xFFF) in Some (a, \<not> kcode, False, kcode)) else None)"
    using paging_init64_walk [OF pre(1) n40 pre(3), of "a_text_start64 ?env" "a_rodata_end64 pf"] by blast
  have id: "identity64 ?N s" and lim: "unat (mapped_limit64 s) = 4096 * ?N" using paging_init64_identity [OF pre s] by simp_all
  obtain k4 where k4: "boot_memory64 pf mbi m = Some (m\<lparr>sh64 := k4, irqs64 := isr_install_handler64 14 (a_page_fault64 pf) (irqs64 m)\<rparr>)"
      "vm64 (core64 k4) = s" "kheap_of64 k4 = kheap_of64 (sh64 m)" "line_buffer64 k4 = line_buffer64 (sh64 m)"
    using boot_memory64_runs [OF pmm s] by blast
  obtain k5 where k5: "boot_heap64 k4 = Some k5" "identity64 ?N (vm64 (core64 k5))" "mmu64 (vm64 (core64 k5)) = mmu64 s"
      "line_buffer64 k5 = line_buffer64 (sh64 m)" "heap_ok64 (kheap_of64 k5) \<or> heap_start64 (kheap_of64 k5) = 0"
    using boot_heap64_runs [of ?N k4] id bss k4 by auto
  have "v < mapped_limit64 s \<longleftrightarrow> unat v < 4096 * ?N" for v unfolding word_less_nat_alt lim ..
  then show ?thesis using k4(1) k5 walk by (auto simp: Let_def)
qed

lemma handlers64:
  fixes s :: "'d interrupts64"
  shows "length (irq_handlers64 (idt_install64 io i q a s)) = 16" "length (isr_handlers64 (idt_install64 io i q a s)) = 32"
proof -
  have keep: "irq_handlers64 (fold (\<lambda>i. idt_set_gate64 (n i) (b i) sel fl) xs s) = irq_handlers64 s \<and>
      isr_handlers64 (fold (\<lambda>i. idt_set_gate64 (n i) (b i) sel fl) xs s) = isr_handlers64 s"
    for n :: "nat \<Rightarrow> u8" and b sel fl xs and s :: "'d interrupts64"
    by (induction xs arbitrary: s) (simp_all add: idt_set_gate64_def)
  have after: "irq_handlers64 ((fold (\<lambda>i. idt_set_gate64 (n i) (b i) sel fl) xs
        (fold (\<lambda>i. idt_set_gate64 (n' i) (b' i) sel' fl') ys (t\<lparr>irq_handlers64 := A, isr_handlers64 := B, pic64 := P\<rparr>)))
          \<lparr>idtr_limit64 := l, idtr_base64 := c\<rparr>) = A"
      "isr_handlers64 ((fold (\<lambda>i. idt_set_gate64 (n i) (b i) sel fl) xs
        (fold (\<lambda>i. idt_set_gate64 (n' i) (b' i) sel' fl') ys (t\<lparr>irq_handlers64 := A, isr_handlers64 := B, pic64 := P\<rparr>)))
          \<lparr>idtr_limit64 := l, idtr_base64 := c\<rparr>) = B"
    for n n' :: "nat \<Rightarrow> u8" and b b' sel sel' fl fl' xs ys A B P l c and t :: "'d interrupts64"
    by (simp_all add: keep)
  show "length (irq_handlers64 (idt_install64 io i q a s)) = 16" "length (isr_handlers64 (idt_install64 io i q a s)) = 32"
    unfolding idt_install64_def Let_def by (simp_all only: after length_replicate)
qed

lemma irq_install_handler64_fields [simp]:
  "isr_handlers64 (irq_install_handler64 io n h s) = isr_handlers64 s" "idt64 (irq_install_handler64 io n h s) = idt64 s"
  "irq_handlers64 (irq_install_handler64 io n h s) = (if n < 0 \<or> n > 15 then irq_handlers64 s else (irq_handlers64 s)[nat n := h])"
  by (simp_all add: irq_install_handler64_def irq_unmask64_def Let_def split: prod.split)

text \<open>
  (C40) The 64-bit port on a machine of at most 1 GB with 516 free frames: \<open>kernel_main\<close> reaches the shell with an empty line.  The heap is
  consistent, or absent when no 256 adjacent frames were free; SYSCALL is armed; page faults, the timer and the keyboard have their
  handlers, and ring 3 can invoke no gate.  All memory is mapped to itself: the kernel's code and constants executable and not
  writable, everything else writable and not executable, except the pages of ring 3, which are its code (not writable) and two pages
  of stack (not executable), when there was memory for a stack.
\<close>

theorem kernel_main64_boots:
  fixes m :: "('v, 'i) machine64"
  assumes pmm: "pmm_init64 (boot_bytes64 pf) (a_kernel_end64 pf) (ram_words64 pf) mbi = Some p"
    and size: "unat (total_frames64 p) \<le> 2 ^ 18" "516 \<le> free_count64 p"
    and code: "a_user_text_start64 pf \<le> a_user_text_end64 pf" "unat (a_user_text_end64 pf) \<le> 4096 * unat (total_frames64 p)"
    and bss: "length (line_buffer64 (sh64 m)) = SHELL_BUFFER_SIZE" "heap_start64 (kheap_of64 (sh64 m)) = 0" "length (idt64 (irqs64 m)) = 256"
  shows "\<exists>m'. kernel_main64 pf magic mbi m = Some m' \<and> shell_ok64 (sh64 m') \<and> typed64 (sh64 m') = [] \<and>
    on_key64 m' = Some (shell_input64 (penv64 pf)) \<and> (heap_ok64 (kheap_of64 (sh64 m')) \<or> heap_start64 (kheap_of64 (sh64 m')) = 0) \<and>
    armed64 (a_cpu0 pf) (a_syscall_stack pf) (a_syscall_entry pf) (cpu_of64 (core64 (sh64 m'))) \<and>
    isr_handlers64 (irqs64 m') ! 14 = a_page_fault64 pf \<and> irq_handlers64 (irqs64 m') ! 0 = a_timer64 pf \<and>
    irq_handlers64 (irqs64 m') ! 1 = a_keyboard64 pf \<and> (\<forall>n<256. \<not> gate_callable64 3 (idt64 (irqs64 m') ! n)) \<and>
    (let u = core64 (sh64 m') in \<forall>v. unat v < 2 ^ 47 \<longrightarrow> mmu64 (vm64 u) v =
       (let a = pg (unat v div 4096);
            kcode = (a_text_start64 (penv64 pf) AND NOT 0xFFF \<le> a \<and> a < (a_rodata_end64 pf + 4096 - 1) AND NOT 0xFFF)
        in if user_stack_phys u \<noteq> 0 \<and> touches (user_stack_phys u) (user_stack_phys u + 8192) v then Some (a, True, True, False)
           else if user_stack_phys u \<noteq> 0 \<and> touches (a_user_text_start64 pf) (a_user_text_end64 pf) v then Some (a, False, True, True)
           else if unat v < 4096 * unat (total_frames64 p) then Some (a, \<not> kcode, False, kcode)
           else None))"
proof -
  let ?N = "unat (total_frames64 p)" and ?env = "penv64 pf"
  define i1 where "i1 = idt_install64 (irq_io64 pf) (isr_stub64 pf) (irq_stub64 pf) (a_idt64 pf) (irqs64 m)"
  define i2 where "i2 = irq_install_handler64 (irq_io64 pf) 1 (a_keyboard64 pf) (irq_install_handler64 (irq_io64 pf) 0 (a_timer64 pf)
          (isr_install_handler64 14 (a_page_fault64 pf) i1))"
  obtain k4 k5 where k5: "boot_memory64 pf mbi (m\<lparr>sh64 := greeted64 pf magic (sh64 m), irqs64 := i1\<rparr>) =
        Some (m\<lparr>sh64 := k4, irqs64 := isr_install_handler64 14 (a_page_fault64 pf) i1\<rparr>)"
      "boot_heap64 k4 = Some k5" "identity64 ?N (vm64 (core64 k5))" "line_buffer64 k5 = line_buffer64 (sh64 m)"
      "heap_ok64 (kheap_of64 k5) \<or> heap_start64 (kheap_of64 k5) = 0"
    and walk: "\<And>v. unat v < 2 ^ 47 \<Longrightarrow> mmu64 (vm64 (core64 k5)) v = (let a = pg (unat v div 4096);
        kcode = (a_text_start64 ?env AND NOT 0xFFF \<le> a \<and> a < (a_rodata_end64 pf + 4096 - 1) AND NOT 0xFFF)
        in if unat v < 4096 * ?N then Some (a, \<not> kcode, False, kcode) else None)"
    using memory_stage64 [OF pmm size, of "m\<lparr>sh64 := greeted64 pf magic (sh64 m), irqs64 := i1\<rparr>"] bss(2) by auto
  define k8 where "k8 = (let k = line64 ''code selector 0x%lx, L bit set.'' [Num64 (cs_main64 pf)] k5; c = cpu_of64 (core64 k);
      k7 = line64 ''GDT installed: kernel + user segments, TSS slot ready.'' []
        (k\<lparr>core64 := (core64 k)\<lparr>cpu_of64 := c\<lparr>segs64 := gdt_install64 (a_gdt64 pf) (segs64 c)\<rparr>\<rparr>\<rparr>)
      in k7\<lparr>core64 := (core64 k7)\<lparr>cpu_of64 := boot_cpu_state64 pf (cpu_of64 (core64 k7))\<rparr>\<rparr>)"
  have k8: "vm64 (core64 k8) = vm64 (core64 k5)" "kheap_of64 k8 = kheap_of64 k5" "line_buffer64 k8 = line_buffer64 k5"
    by (simp_all add: k8_def Let_def)
  have armed: "armed64 (a_cpu0 pf) (a_syscall_stack pf) (a_syscall_entry pf) (cpu_of64 (core64 k8))"
    unfolding k8_def Let_def boot_cpu_state64_def by (simp add: line64_def print64_def say64_def put64_def armed64_installed(1))
  obtain u where u: "usermode_init64 (a_user_text_start64 pf) (a_user_text_end64 pf) (core64 k8) = Some u"
    and view: "user_stack_phys u = 0 \<and> mmu64 (vm64 u) = mmu64 (vm64 (core64 k8)) \<or> user_stack_phys u \<noteq> 0 \<and>
      (\<forall>v. unat v < 2 ^ 47 \<longrightarrow> mmu64 (vm64 u) v =
       (if touches (user_stack_phys u) (user_stack_phys u + 8192) v then Some (pg (unat v div 4096), True, True, False)
        else if touches (a_user_text_start64 pf) (a_user_text_end64 pf) v then Some (pg (unat v div 4096), False, True, True)
        else mmu64 (vm64 (core64 k8)) v))"
    using usermode_init64_isolates [of ?N "core64 k8", OF _ code] k5(3) k8(1) by auto
  define k10 where "k10 = line64 (''Interrupts enabled. Keyboard live. Type '' @ [CHR 0x27] @ ''help'' @ [CHR 0x27] @ ''.'' @ [CHR 0x0A]) []
        (colour64 pf VGA_WHITE (line64 (''TSS installed. SYSCALL/SYSRET armed via STAR/LSTAR/FMASK.'' @ [CHR 0x0A]) [] (k8\<lparr>core64 := u\<rparr>)))"
  let ?m = "\<lparr>sh64 = shell_init64 k10, irqs64 = i2, on_key64 = Some (shell_input64 ?env)\<rparr>"
  have run: "kernel_main64 pf magic mbi m = Some ?m"
    using k5(1,2) u unfolding kernel_main64_def Let_def greeted64_def i2_def i1_def k8_def k10_def
    by (simp add: keyboard_install64_def timer_install64_def)
  have sh: "line_buffer64 (sh64 ?m) = line_buffer64 (sh64 m)" "buffer_length64 (sh64 ?m) = 0" "kheap_of64 (sh64 ?m) = kheap_of64 k5"
      "vm64 (core64 (sh64 ?m)) = vm64 u" "user_stack_phys (core64 (sh64 ?m)) = user_stack_phys u"
      "armed64 (a_cpu0 pf) (a_syscall_stack pf) (a_syscall_entry pf) (cpu_of64 (core64 (sh64 ?m)))"
    using k5(4) k8 usermode_init64_armed [OF u] armed by (simp_all add: shell_init64_def prompt64_def k10_def)
  have irq: "isr_handlers64 i2 ! 14 = a_page_fault64 pf" "irq_handlers64 i2 ! 0 = a_timer64 pf" "irq_handlers64 i2 ! 1 = a_keyboard64 pf"
      "idt64 i2 = idt64 i1"
    using handlers64 [of "irq_io64 pf" "isr_stub64 pf" "irq_stub64 pf" "a_idt64 pf" "irqs64 m"]
    by (simp_all add: i2_def i1_def isr_install_handler64_def)
  have gates: "\<not> gate_callable64 3 (idt64 i2 ! n)" if "n < 256" for n
    unfolding irq(4) i1_def by (rule idt_install64_correct(2) [OF bss(3) that])
  have mmu: "mmu64 (vm64 u) v = (let a = pg (unat v div 4096);
            kcode = (a_text_start64 ?env AND NOT 0xFFF \<le> a \<and> a < (a_rodata_end64 pf + 4096 - 1) AND NOT 0xFFF)
        in if user_stack_phys u \<noteq> 0 \<and> touches (user_stack_phys u) (user_stack_phys u + 8192) v then Some (a, True, True, False)
           else if user_stack_phys u \<noteq> 0 \<and> touches (a_user_text_start64 pf) (a_user_text_end64 pf) v then Some (a, False, True, True)
           else if unat v < 4096 * ?N then Some (a, \<not> kcode, False, kcode) else None)" if v: "unat v < 2 ^ 47" for v
    using view walk [OF v] v unfolding k8(1) Let_def by (cases "user_stack_phys u = 0") simp_all
  show ?thesis
    using run sh irq gates mmu k5(5) bss(1)
    by (intro exI [of _ ?m]) (simp add: shell_ok64_def typed64_def Let_def)
qed

text \<open>The map of the 32-bit example: 4 MB from address 0.\<close>

lemma example_map64:
  "\<exists>p. pmm_init64 example_memory 0x120000 (\<lambda>_. 0) example_mbi = Some p \<and> total_frames64 p = 1024 \<and> 516 \<le> free_count64 p"
proof -
  let ?e = "mmap_entry_at example_memory 0x1000"
  have e: "multiboot_mmap_entry.e_type ?e = 1" "e_addr ?e = 0" "e_len ?e = 0x400000" "e_size ?e = 20"
    by (simp_all add: example_memory_def mmap_entry_at_def read64_def read32_def write32_def)
  have mbi: "mmap_length example_mbi = 24" "mmap_addr example_mbi = 0x1000" "mb_flags example_mbi = 0x40" by (simp_all add: example_mbi_def)
  have high: "find_highest example_memory example_mbi 0 0 = Some 0x400000"
    by (subst find_highest.simps, subst find_highest.simps) (simp add: mbi e raise_highest_def MULTIBOOT_MEMORY_AVAILABLE_def Let_def)
  define p0 where "p0 = \<lparr>bitmap64 = fill_bytes64 (unat (128 :: u64)) (\<lambda>_. 0), total_frames64 = 1024, used_frames64 = 1024\<rparr>"
  have free: "free_available64 example_memory example_mbi 0 p0 = Some (mark_region64 0 0x400000 False p0)"
    by (subst free_available64.simps, subst free_available64.simps) (simp add: mbi e free_entry64_def MULTIBOOT_MEMORY_AVAILABLE_def Let_def)
  define p where "p = claim_kernel64 0x120000 128 (mark_region64 0 0x400000 False p0)"
  have init: "pmm_init64 example_memory 0x120000 (\<lambda>_. 0) example_mbi = Some p"
    using free by (simp add: pmm_init64_def high mbi MULTIBOOT_INFO_MEM_MAP_def p_def p0_def)
  have t: "total_frames64 p = 1024" by (simp add: p_def claim_kernel64_def mark_region64_def p0_def)
  have ranges: "(0 + 0x400000 + 4096 - 1) div 4096 = (1024 :: u64)" "(0 + 0x100000 + 4096 - 1) div 4096 = (0x100 :: u64)"
      "(0x100000 + (0x120000 - 0x100000) + 4096 - 1) div 4096 = (0x120 :: u64)" "(bitmap_addr64 0x120000 + 128 + 4096 - 1) div 4096 = (0x121 :: u64)"
    by (simp_all add: bitmap_addr64_def)
  have "unat f < 289" if "f \<in> used_set64 p" for f
  proof -
    have f: "f < 1024" "frame_test64 f p" using that t by (simp_all add: used_set64_def)
    then have "f < 0x121 \<or> f < 0x120 \<or> f < 0x100"
      unfolding p_def claim_kernel64_def mark_region64_def ranges by (auto simp: mark_loop_test64 p0_def split: if_splits)
    then show ?thesis by (auto simp: word_less_nat_alt)
  qed
  then have "unat ` used_set64 p \<subseteq> {..<289}" by auto
  then have "card (unat ` used_set64 p) \<le> 289" using card_mono [of "{..<289 :: nat}"] by fastforce
  moreover have "card (unat ` used_set64 p) = card (used_set64 p)" by (intro card_image inj_onI) (simp add: word_unat_eq_iff)
  ultimately have "card (used_set64 p) \<le> 289" by simp
  then show ?thesis using init t by (simp add: free_count64_def)
qed

definition example_platform64 :: "(unit, unit) platform64" where
  "example_platform64 = \<lparr>penv64 = \<lparr>vga_io64 = null_io, a_text_start64 = 0x100000, a_user_program64 = 0x110000, a_probe_fault64 = 0x101100,
       rsp_now64 = 0x9000, cr0_now64 = 0x80010011, cr4_now64 = 0x20\<rparr>,
     irq_io64 = null_io, isr_stub64 = \<lambda>n. 0x102000 + word_of_nat n, irq_stub64 = \<lambda>n. 0x102100 + word_of_nat n, a_idt64 = 0x112000, a_gdt64 = 0x113000,
     a_tss64 = 0x113100, a_cpu0 = 0x114000, a_syscall_stack = 0x115000, a_syscall_entry = 0x103000, a_page_fault64 = 0x104000,
     a_timer64 = 0x105000, a_keyboard64 = 0x106000, a_kernel_end64 = 0x120000, a_rodata_end64 = 0x10F800,
     a_user_text_start64 = 0x110000, a_user_text_end64 = 0x111800, boot_bytes64 = example_memory, ram_words64 = \<lambda>_. 0,
     rsp_main64 = 0x119000, cs_main64 = 8\<rparr>"

definition example_machine64 :: "(unit, unit) machine64" where
  "example_machine64 = \<lparr>sh64 = \<lparr>core64 = \<lparr>vm64 = example_paging64, cpu_of64 = boot_cpu64, user_stack_phys = 0\<rparr>,
       kheap_of64 = \<lparr>heap_start64 = 0, heap_bytes64 = 0, hdr64 = \<lambda>_. \<lparr>bmagic64 = 0, bsize64 = 0, bfree64 = 0, bnext64 = 0, bprev64 = 0\<rparr>\<rparr>,
       line_buffer64 = replicate 128 0, buffer_length64 = 0, ticks64 = 0, screen64 = example_screen\<rparr>,
     irqs64 = \<lparr>idt64 = replicate 256 (gate_for64 0 0 0), idtr_limit64 = 0, idtr_base64 = 0, irq_handlers64 = replicate 16 0,
       isr_handlers64 = replicate 32 0, pic64 = ()\<rparr>, on_key64 = None\<rparr>"

theorem kernel_main64_boots_witness:
  "\<exists>m'. kernel_main64 example_platform64 0x2BADB002 example_mbi example_machine64 = Some m' \<and> shell_ok64 (sh64 m') \<and>
     armed64 0x114000 0x115000 0x103000 (cpu_of64 (core64 (sh64 m'))) \<and> irq_handlers64 (irqs64 m') ! 1 = 0x106000"
proof -
  obtain p where p: "pmm_init64 (boot_bytes64 example_platform64) (a_kernel_end64 example_platform64) (ram_words64 example_platform64) example_mbi = Some p"
      "total_frames64 p = 1024" "516 \<le> free_count64 p"
    using example_map64 by (auto simp: example_platform64_def)
  have a: "a_user_text_start64 example_platform64 \<le> a_user_text_end64 example_platform64"
      "unat (a_user_text_end64 example_platform64) \<le> 4096 * unat (total_frames64 p)" "unat (total_frames64 p) \<le> 2 ^ 18"
    by (simp_all add: example_platform64_def p(2))
  have b: "length (line_buffer64 (sh64 example_machine64)) = SHELL_BUFFER_SIZE" "heap_start64 (kheap_of64 (sh64 example_machine64)) = 0"
      "length (idt64 (irqs64 example_machine64)) = 256"
    by (simp_all add: example_machine64_def SHELL_BUFFER_SIZE_def)
  have c: "a_cpu0 example_platform64 = 0x114000" "a_syscall_stack example_platform64 = 0x115000" "a_syscall_entry example_platform64 = 0x103000"
      "a_keyboard64 example_platform64 = 0x106000" by (simp_all add: example_platform64_def)
  show ?thesis using kernel_main64_boots [OF p(1) a(3) p(3) a(1,2) b, of "0x2BADB002"] unfolding c by blast
qed

end
