(* ===== verification/Spec2Isabelle.thy ===== *)
theory Spec2Isabelle
  imports Prelude Kstring Pmm Kheap Ata Fs FsCorrect Paging PagingCorrect PagingInit UserPages Task TaskCorrect Lock Pipe
    Terminal Keyboard Gdt Idt Syscall SyscallCorrect Loader LoaderCorrect Shell ShellCorrect Race Boot BootCorrect
    UserProg Serial Gdt64 Idt64 Pmm64 Paging64 Paging64Correct Syscall64 Usermode64 Kheap64 Terminal64
    Shell64 Boot64
begin

text \<open>
  \<^bold>\<open>Verification of the Arthic kernel.\<close>

  Arthic is a small 32-bit x86 kernel in C: it boots from a multiboot loader, manages physical frames, page tables and a heap,
  schedules kernel threads, drives the console, the keyboard and an ATA disk with a file system, runs ELF programs
  in ring 3 behind system calls, and offers a command line.  This development models the C code function by function and
  proves what makes each part correct and what the parts guarantee together.  The directory \<open>arthic64\<close> is a port to long mode, with
  fewer parts; it is modelled in theories of its own.

  \<^bold>\<open>The program and its model.\<close>  Machine integers are words of their width, so every sum wraps as in C; a C struct is a record,
  an enumeration a datatype.  A function that changes state takes the state and returns it.  A function that may loop for
  ever, or halts the machine, returns an option (None: it does not return); a function that reports failure returns the C value.
  Each theory opens with what it holds; they follow the source files.

  \<^item> \<open>Prelude\<close>: word types, byte memory and little-endian accesses, arithmetic without overflow.
  \<^item> \<open>Kstring\<close> (\<open>lib/string.c\<close>): \<open>kmemset\<close>, \<open>kmemcpy\<close>, \<open>kstrcmp\<close>, \<open>kstartswith\<close> against their list or byte meaning.
  \<^item> \<open>Pmm\<close> (\<open>mm/pmm.c\<close>): the bitmap of frames; its accounting, first fit for one frame and for runs, and the boot from the
    memory map.  The locale \<open>frame_source\<close> is what every client of the allocator uses.
  \<^item> \<open>Kheap\<close> (\<open>mm/kheap.c\<close>): the heap as a linked list of headers, refined to a list of segments; the locale \<open>heap_provider\<close>
    is what the scheduler uses.
  \<^item> \<open>Paging\<close>, \<open>PagingCorrect\<close>, \<open>PagingInit\<close>, \<open>UserPages\<close> (\<open>mm/paging.c\<close>): the PAE tables, the walk of the MMU
    over them (as it is after CR3 was loaded), mapping, address spaces, the identity mapping built at boot, and the pages opened to ring 3.
  \<^item> \<open>Ata\<close> (\<open>drivers/ata.c\<close>): the driver as a sequence of port accesses.  The locale \<open>ata_protocol\<close> is what the ATA standard
    documents of a drive, \<open>pio_drive\<close> adds that the FLUSH the driver sends while the drive may still be busy does no harm; on such a drive
    the driver is a \<open>sector_disk\<close>, on one without that property it can lose a sector, and the flush itself is lost on a drive that ignores it.
  \<^item> \<open>Fs\<close>, \<open>FsCorrect\<close> (\<open>fs/fs.c\<close>): ArthicFS with its on-disk bytes, refined to a map from names to contents over any
    \<open>sector_disk\<close>.
  \<^item> \<open>Task\<close>, \<open>TaskCorrect\<close> (\<open>kernel/task.c\<close>): the ring of tasks, the scheduler as a step relation, its invariant (with the tasks of the ring as live
    blocks of the heap), fairness, and starvation in rings longer than the loops look at.  The exit callback is a parameter that obeys
    the locale \<open>exit_hook\<close>, and \<open>heap_hook\<close> where the heap matters.
  \<^item> \<open>Lock\<close>, \<open>Pipe\<close> (\<open>kernel/lock.c\<close>, \<open>kernel/pipe.c\<close>): mutex and pipe under all interleavings; both wait queues interpret the locale
    \<open>wait_queue\<close>, the pipe is a \<open>byte_channel\<close>.
  \<^item> \<open>Terminal\<close>, \<open>Keyboard\<close> (\<open>drivers/terminal.c\<close>, \<open>drivers/keyboard.c\<close>): the screen refined to a scrolling grid, \<open>kprintf\<close> equal
    to a reference formatter, scancodes to characters.
  \<^item> \<open>Gdt\<close>, \<open>Idt\<close> (\<open>kernel/gdt.c\<close>, \<open>kernel/tss.c\<close>, \<open>kernel/idt.c\<close>, \<open>drivers/timer.c\<close>): descriptor tables decoded as the CPU decodes
    them, the interrupt controllers behind the locale \<open>pic_pair\<close>.
  \<^item> \<open>Syscall\<close>, \<open>SyscallCorrect\<close> (\<open>kernel/syscall.c\<close>, \<open>kernel/cpuprot.c\<close>, \<open>kernel/usermode.c\<close>): the system calls, with user pointers
    followed through the page tables under SMAP and write protection.
  \<^item> \<open>Loader\<close>, \<open>LoaderCorrect\<close> (\<open>kernel/loader.c\<close>, \<open>include/elf.h\<close>): ELF files into address spaces; the loader's cleanup is an
    interpretation of \<open>heap_hook\<close>.
  \<^item> \<open>Shell\<close>, \<open>ShellCorrect\<close>, \<open>Race\<close> (\<open>kernel/shell.c\<close>, \<open>kernel/ssp.c\<close>): line editing, dispatch and all commands; the two
    threads of \<open>locktest\<close> under all interleavings.
  \<^item> \<open>Boot\<close>, \<open>BootCorrect\<close> (\<open>kernel/main.c\<close>): the boot sequence over the state of all parts, and the invariants it establishes.
  \<^item> \<open>UserProg\<close> (\<open>user/prog.c\<close>, \<open>user_program\<close> of \<open>kernel/usermode.c\<close>): the code of ring 3 as the tree of its system calls, and
    two instances of the program at the two ends of the pipe.
  \<^item> \<open>Serial\<close> (\<open>drivers/serial.c\<close>): the serial port on any device that obeys the locale \<open>uart\<close>.

  The 64-bit port (paths under \<open>arthic64/\<close>); names carry the suffix 64:

  \<^item> \<open>Pmm64\<close> (\<open>mm/pmm.c\<close>): the bitmap of 64-bit words; the locale \<open>frame_source64\<close> is what the page tables use of it.
  \<^item> \<open>Paging64\<close>, \<open>Paging64Correct\<close> (\<open>mm/paging.c\<close>): the four-level tables as a tree, the identity mapping with W^X, and the
    pages opened to ring 3.
  \<^item> \<open>Kheap64\<close> (\<open>mm/kheap.c\<close>): the heap with 48-byte headers, a second interpretation of \<open>heap_provider\<close>.
  \<^item> \<open>Terminal64\<close> (\<open>drivers/terminal.c\<close>): 64-bit numbers and the modifier \<open>l\<close> of \<open>kprintf\<close>, against a reference formatter.
  \<^item> \<open>Gdt64\<close>, \<open>Idt64\<close> (\<open>kernel/gdt.c\<close>, \<open>kernel/tss.c\<close>, \<open>kernel/idt.c\<close>): descriptors, TSS and 16-byte gates as the CPU reads them.
  \<^item> \<open>Syscall64\<close> (\<open>kernel/syscall.c\<close>, \<open>kernel/syscall_entry.s\<close>): SYSCALL and SYSRET around the dispatcher, with the exchange of GS.
  \<^item> \<open>Usermode64\<close> (\<open>kernel/usermode.c\<close>): ring 3 on top of all of these.
  \<^item> \<open>Shell64\<close> (\<open>kernel/shell.c\<close>): line editing and all commands; the balance of \<open>heaptest\<close> and the probe of \<open>wxtest\<close>.
  \<^item> \<open>Boot64\<close> (\<open>kernel/main.c\<close>): the boot of the port, and the mapping, heap, SYSCALL and handlers it establishes together.

  \<^bold>\<open>How the parts meet.\<close>  The state of the kernel is the record \<open>kernel\<close> of \<open>Task\<close>, with the heap, the paging state (which holds
  the frames), memory and the console text; its last field belongs to the next layer (\<open>sys\<close>, then \<open>loader\<close>, then
  \<open>shell\<close>, each extending the record below).  Console text is collected by the callers of \<open>kprintf\<close> and handed to the screen
  model in order.  Properties that span parts stand where the upper part is: files through the shell on a drive of \<open>pio_drive\<close>
  (\<open>ShellCorrect\<close>), the mutex under the scheduler in \<open>locktest\<close> (\<open>Race\<close>), and the boot, which establishes the
  premises of the theorems about the allocator, the heap, the scheduler, the shell and the isolation of ring 3 (\<open>BootCorrect\<close>).

  \<^bold>\<open>What the lemmas show.\<close>  Invariants with preservation by every operation (frames, heap, task ring, lock, pipe, file system,
  line buffer); refinement to an abstract object (segments, map of files, translation function, character grid, byte queue);
  totality where the code loops; round trips through disk, file system and shell; behaviour at the width of the integers
  (sums that wrap), including the cases in which the code is wrong.

  \<^bold>\<open>Bounds.\<close>  The guards of the source are kept as they are: at most 64 rounds of the scheduler's loops over the ring (65 for the wake
  loop), so the theorems about the scheduler speak of at most 65 tasks, which the code does not enforce; polling limits of the disk driver, program headers counted in 16 bits (at most 65536 rounds).  Loops
  without such a guard are partial functions into option, and the theorems say when they return.  The 516 free frames that
  \<open>paging_init\<close> of the port is given are enough for 1 GB: one PML4, one PDPT, one directory and 512 tables.

  \<^bold>\<open>Parameters.\<close>  Hardware is a parameter with its documented behaviour as a locale (drive, interrupt controllers, UART, CRT
  controller), each interpreted on a small reference device; where the code relies on more than is documented
  (a FLUSH sent to a busy drive) that is an assumption of its own in an extended locale.  Linker symbols, CPUID, the time stamp counter and the stack pointer are arguments
  (record \<open>platform\<close> in \<open>Boot\<close>).  The program blob that the build generates is an argument of the loader.

  \<^bold>\<open>Not modelled.\<close>  Assembly (\<open>boot/boot.s\<close>, \<open>kernel/interrupts.s\<close>, \<open>kernel/switch.s\<close>): a context switch is the point at which the
  new current task continues, a stub is its address.  The TLB: each change of an entry is followed by an invalidation in the code.
  The PDPTE registers of PAE mode, which are loaded only when CR3 is written: an entry of the PDPT that \<open>paging_map\<close> creates, possible
  from 1 GB upwards only, is taken to be in force at once.  The bytes that tell the two interrupt controllers how they are cascaded.
  Aliasing between the typed stores (block headers, table entries, task structures) and byte memory: the allocators
  give these objects disjoint memory, which is proved for each of them, and the models of the parts rest on it.  The
  time that hardware takes.  Of the 64-bit port \<open>lib/string.c\<close> and the keyboard handler, whose text is that of the
  32-bit files.  \<open>lib/canary.c\<close>, which defines the symbols of
  \<open>kernel/ssp.c\<close> a second time and is not linked.
\<close>

end
